(* ===== verification/Prelude.thy ===== *)
theory Prelude
  imports Main "HOL-Library.Word" "HOL-Library.Monad_Syntax"
begin

text \<open>
  Shared vocabulary of the development: the machine integer types of the C code, the
  collections its proofs draw on, and generic facts about lists and words that more than
  one component needs.  Nothing in this theory models a particular source file.
\<close>

unbundle bit_operations_syntax

section \<open>Machine integers\<close>

type_synonym u8 = "8 word"
type_synonym u16 = "16 word"
type_synonym u32 = "32 word"

lemma ucast_byte [simp]: "ucast (ucast (b :: u8) :: u32) = b"
  by (rule bit_word_eqI) (simp add: bit_unsigned_iff)

section \<open>Proof collections\<close>

named_theorems pin_simps "effect of one pin operation on the wire state"
named_theorems wave_simps "waveforms emitted by the composite wire operations"

section \<open>Big-endian bits of a byte\<close>

text \<open>The C expression \<open>x << 1\<close> on a byte, truncated to 8 bits.\<close>

definition shl1 :: "u8 \<Rightarrow> u8" where
  "shl1 b = push_bit 1 b"

lemma bit_shl1: "n < 8 \<Longrightarrow> bit (shl1 b) n \<longleftrightarrow> 0 < n \<and> bit b (n - 1)"
  unfolding shl1_def bit_push_bit_iff by auto

text \<open>
  \<open>msb_bits n b\<close> are the \<open>n\<close> most significant bits of the byte \<open>b\<close>, first bit first;
  bits past the eighth are 0, as repeated left shifting of an 8-bit value gives them.
\<close>

fun msb_bits :: "nat \<Rightarrow> u8 \<Rightarrow> bool list" where
  "msb_bits 0 b = []"
| "msb_bits (Suc n) b = bit b 7 # msb_bits n (shl1 b)"

lemma length_msb_bits [simp]: "length (msb_bits n b) = n"
  by (induction n arbitrary: b) auto

lemma nth_msb_bits: "i < n \<Longrightarrow> i < 8 \<Longrightarrow> msb_bits n b ! i = bit b (7 - i)"
proof (induction n arbitrary: i b)
  case 0
  then show ?case by simp
next
  case (Suc n)
  then show ?case
    by (cases i) (auto simp: bit_shl1)
qed

lemma take_msb_bits: "k \<le> n \<Longrightarrow> take k (msb_bits n b) = msb_bits k b"
proof (induction k arbitrary: n b)
  case 0
  then show ?case by simp
next
  case (Suc k)
  then show ?case by (cases n) auto
qed

text \<open>The byte a receiver holds after shifting in the bits \<open>bs\<close>, first bit first.\<close>

definition shift_in :: "u8 \<Rightarrow> bool \<Rightarrow> u8" where
  "shift_in x c = shl1 x + (if c then 1 else 0)"

lemma bit_shift_in: "n < 8 \<Longrightarrow> bit (shift_in x c) n \<longleftrightarrow> (if n = 0 then c else bit x (n - 1))"
proof -
  assume n: "n < 8"
  have disj: "shl1 x AND (if c then 1 else 0) = 0"
    by (rule bit_word_eqI) (auto simp: bit_and_iff bit_shl1 bit_1_iff)
  have "shift_in x c = shl1 x OR (if c then 1 else 0)"
    unfolding shift_in_def by (rule disjunctive_add) (metis disj bit_and_iff bit_0_eq bot_apply bot_bool_def)
  with n show ?thesis by (auto simp: bit_or_iff bit_shl1 bit_1_iff)
qed

fun msb_value :: "u8 \<Rightarrow> bool list \<Rightarrow> u8" where
  "msb_value acc [] = acc"
| "msb_value acc (b # bs) = msb_value (shift_in acc b) bs"

lemma bit_msb_value:
  "n < 8 \<Longrightarrow> length bs \<le> 8 \<Longrightarrow>
    bit (msb_value a bs) n \<longleftrightarrow>
      (if n < length bs then bs ! (length bs - Suc n) else bit a (n - length bs))"
proof (induction bs arbitrary: a)
  case Nil
  then show ?case by simp
next
  case (Cons c bs)
  consider "n < length bs" | "n = length bs" | "n > length bs" by linarith
  then show ?case
  proof cases
    case 1
    then show ?thesis using Cons by (simp add: Suc_diff_Suc)
  next
    case 2
    then show ?thesis using Cons by (simp add: bit_shift_in)
  next
    case 3
    then show ?thesis using Cons by (simp add: bit_shift_in)
  qed
qed

lemma msb_value_msb_bits [simp]: "msb_value 0 (msb_bits 8 b) = b"
proof (rule bit_word_eqI)
  fix n assume "n < LENGTH(8)"
  then have n: "n < 8" by simp
  then have "bit (msb_value 0 (msb_bits 8 b)) n = msb_bits 8 b ! (8 - Suc n)"
    by (simp add: bit_msb_value del: msb_bits.simps)
  also have "\<dots> = bit b n"
    using n by (simp add: nth_msb_bits del: msb_bits.simps)
  finally show "bit (msb_value 0 (msb_bits 8 b)) n = bit b n" .
qed

lemma msb_bits_msb_value:
  assumes "length bs = 8"
  shows "msb_bits 8 (msb_value a bs) = bs"
proof (rule nth_equalityI)
  show "length (msb_bits 8 (msb_value a bs)) = length bs" using assms by simp
next
  fix i assume "i < length (msb_bits 8 (msb_value a bs))"
  then have "i < 8" and "7 - i < 8" by auto
  then show "msb_bits 8 (msb_value a bs) ! i = bs ! i"
    using assms by (simp add: nth_msb_bits bit_msb_value del: msb_bits.simps)
qed

section \<open>Lists\<close>

lemma in_set_tl: "x \<in> set (tl xs) \<Longrightarrow> x \<in> set xs"
  by (cases xs) auto

lemma concat_replicate_Nil [simp]: "concat (map (\<lambda>_. []) xs) = []"
  by (induction xs) auto

end
