(* ===== verification/IsspVectors.thy ===== *)
theory IsspVectors
  imports Prelude
begin

text \<open>
  The constant tables of \<open>hssp/issp.c\<close>: the bit vectors of the ISSP protocol with their
  lengths in bits, and the single bytes and lengths of its WRITE-BYTE, READ-BYTE and
  SET-BLOCK-NUM commands.  A vector is sent from the most significant bit of its first byte;
  \<open>vector_fits\<close> says that a vector of \<open>n\<close> bits does not reach past its array.
\<close>

section \<open>Sizes (issp.h)\<close>

definition TARGET_DATABUFF_LEN :: nat where "TARGET_DATABUFF_LEN = 64"
definition BLOCKS_PER_BANK :: nat where "BLOCKS_PER_BANK = 128"
definition SECURITY_BYTES_PER_BANK :: nat where "SECURITY_BYTES_PER_BANK = 32"

section \<open>Timing constants\<close>

definition XRES_CLK_DELAY :: nat where "XRES_CLK_DELAY = 10"
definition TRANSITION_TIMEOUT :: u32 where "TRANSITION_TIMEOUT = 0x00020000"

section \<open>Bit vectors\<close>

definition target_id_v :: "u8 list" where
  "target_id_v =
    [0x00, 0x38]"

definition num_bits_checksum :: u16 where "num_bits_checksum = 286"

definition checksum_v :: "u8 list" where
  "checksum_v =
    [0xDE, 0xE0, 0x1F, 0x7B, 0x00, 0x79, 0xF0, 0x75,
     0xE7, 0xC8, 0x1F, 0xDE, 0xA0, 0x1F, 0x7A, 0x01,
     0xF9, 0xF7, 0x01, 0xF7, 0xC9, 0x87, 0xDF, 0x48,
     0x1E, 0x7D, 0x00, 0x7D, 0xE0, 0x0F, 0xF7, 0xC0,
     0x07, 0xDF, 0xE2, 0x5C]"

definition num_bits_program_block :: u16 where "num_bits_program_block = 308"

definition program_block :: "u8 list" where
  "program_block =
    [0x9F, 0x8A, 0x9E, 0x7F, 0x2B, 0x7D, 0xEE, 0x01,
     0xF7, 0xB0, 0x07, 0x9F, 0x07, 0x5E, 0x7C, 0x81,
     0xFD, 0xEA, 0x01, 0xF7, 0xA0, 0x1F, 0x9F, 0x70,
     0x1F, 0x7C, 0x98, 0x7D, 0xF4, 0x81, 0xF7, 0x80,
     0x17, 0xDF, 0x00, 0x1F, 0x7F, 0x89, 0x70]"

definition num_bits_init1 :: u16 where "num_bits_init1 = 396"

definition init1_v :: "u8 list" where
  "init1_v =
    [0xCA, 0x00, 0x00, 0x00, 0x00, 0x00, 0x00, 0x00,
     0x00, 0x00, 0x00, 0x00, 0x00, 0x00, 0x00, 0x00,
     0x0D, 0xEE, 0x01, 0xF7, 0xB0, 0x07, 0x9F, 0x07,
     0x5E, 0x7C, 0x81, 0xFD, 0xEA, 0x01, 0xF7, 0xA0,
     0x1F, 0x9F, 0x70, 0x1F, 0x7C, 0x98, 0x7D, 0xF4,
     0x81, 0xF7, 0x80, 0x4F, 0xDF, 0x00, 0x1F, 0x7F,
     0x89, 0x70]"

definition num_bits_init2 :: u16 where "num_bits_init2 = 286"

definition init2_v :: "u8 list" where
  "init2_v =
    [0xDE, 0xE0, 0x1F, 0x7B, 0x00, 0x79, 0xF0, 0x75,
     0xE7, 0xC8, 0x1F, 0xDE, 0xA0, 0x1F, 0x7A, 0x01,
     0xF9, 0xF7, 0x01, 0xF7, 0xC9, 0x87, 0xDF, 0x48,
     0x1E, 0x7D, 0x00, 0xFD, 0xE0, 0x0D, 0xF7, 0xC0,
     0x07, 0xDF, 0xE2, 0x5C]"

definition num_bits_init3_3v :: u16 where "num_bits_init3_3v = 836"

definition init3_3v :: "u8 list" where
  "init3_3v =
    [0xDE, 0xE0, 0x1F, 0x7A, 0x01, 0xFD, 0xEA, 0x01,
     0xF7, 0xB0, 0x47, 0xDF, 0x0A, 0x3F, 0x7C, 0xFC,
     0x7D, 0xF4, 0x61, 0xF7, 0xF8, 0x97, 0x00, 0x00,
     0x03, 0x7B, 0x80, 0x7D, 0xE8, 0x07, 0xF7, 0xA8,
     0x07, 0xDE, 0xC1, 0x1F, 0x7C, 0x30, 0x7D, 0xF3,
     0xD5, 0xF7, 0xD1, 0x87, 0xDE, 0xE2, 0x1F, 0x7F,
     0x89, 0x70, 0x00, 0x00, 0x37, 0xB8, 0x07, 0xDE,
     0x80, 0x7F, 0x7A, 0x80, 0x7D, 0xEC, 0x11, 0xF7,
     0xC2, 0x8F, 0xDF, 0x3F, 0x3F, 0x7D, 0x18, 0x7D,
     0xFE, 0x25, 0xC0, 0x00, 0x00, 0xDE, 0xE0, 0x1F,
     0x7A, 0x01, 0xFD, 0xEA, 0x01, 0xF7, 0xB0, 0x47,
     0xDF, 0x0C, 0x1F, 0x7C, 0xF4, 0x7D, 0xF4, 0x61,
     0xF7, 0xB8, 0x87, 0xDF, 0xE2, 0x5C, 0x00, 0x00,
     0x00]"

definition num_bits_id_setup :: u16 where "num_bits_id_setup = 330"

definition id_setup_v :: "u8 list" where
  "id_setup_v =
    [0xDE, 0xE2, 0x1F, 0x70, 0x01, 0x7D, 0xEE, 0x01,
     0xF7, 0xB0, 0x07, 0x9F, 0x07, 0x5E, 0x7C, 0x81,
     0xFD, 0xEA, 0x01, 0xF7, 0xA0, 0x1F, 0x9F, 0x70,
     0x1F, 0x7C, 0x98, 0x7D, 0xF4, 0x81, 0xE7, 0xD0,
     0x07, 0xDE, 0x00, 0xDF, 0x7C, 0x00, 0x7D, 0xFE,
     0x25, 0xC0]"

definition num_bits_erase_all :: u16 where "num_bits_erase_all = 308"

definition erase_all_v :: "u8 list" where
  "erase_all_v =
    [0x9F, 0x82, 0xBE, 0x7F, 0x2B, 0x7D, 0xEE, 0x01,
     0xF7, 0xB0, 0x07, 0x9F, 0x07, 0x5E, 0x7C, 0x81,
     0xFD, 0xEA, 0x01, 0xF7, 0xA0, 0x1F, 0x9F, 0x70,
     0x1F, 0x7C, 0x98, 0x7D, 0xF4, 0x81, 0xF7, 0x80,
     0x2F, 0xDF, 0x00, 0x1F, 0x7F, 0x89, 0x70]"

definition read_id_v :: "u8 list" where
  "read_id_v =
    [0xBF, 0x00, 0xDF, 0x90, 0x00]"

definition num_bits_address_length :: u8 where "num_bits_address_length = 6"

definition num_bits_data_length :: u8 where "num_bits_data_length = 8"

definition num_bits_write_byte_start :: u8 where "num_bits_write_byte_start = 5"

definition write_byte_start :: u8 where "write_byte_start = 0x90"

definition num_bits_write_byte_end :: u8 where "num_bits_write_byte_end = 3"

definition write_byte_end :: u8 where "write_byte_end = 0xE0"

definition num_bits_block_number_length :: u8 where "num_bits_block_number_length = 8"

definition num_bits_set_block_number :: u8 where "num_bits_set_block_number = 11"

definition set_block_number :: "u8 list" where
  "set_block_number =
    [0x9F, 0x40, 0xE0]"

definition num_bits_set_block_number_end :: u8 where "num_bits_set_block_number_end = 3"

definition set_block_number_end :: u8 where "set_block_number_end = 0xE0"

definition num_bits_wait_and_poll_end :: u8 where "num_bits_wait_and_poll_end = 40"

definition wait_and_poll_end :: "u8 list" where
  "wait_and_poll_end =
    [0x00, 0x00, 0x00, 0x00, 0x00]"

definition read_checksum_v :: "u8 list" where
  "read_checksum_v =
    [0xBF, 0x20, 0xDF, 0x80, 0x80]"

definition num_bits_read_byte_start :: u8 where "num_bits_read_byte_start = 5"

definition num_bits_read_byte_end :: u8 where "num_bits_read_byte_end = 1"

definition read_byte_v :: "u8 list" where
  "read_byte_v =
    [0xB0, 0x80]"

definition num_bits_verify_setup :: u16 where "num_bits_verify_setup = 264"

definition verify_setup_v :: "u8 list" where
  "verify_setup_v =
    [0xDE, 0xE0, 0x1F, 0x7B, 0x00, 0x79, 0xF0, 0x75,
     0xE7, 0xC8, 0x1F, 0xDE, 0xA0, 0x1F, 0x7A, 0x01,
     0xF9, 0xF7, 0x01, 0xF7, 0xC9, 0x87, 0xDF, 0x48,
     0x1F, 0x78, 0x00, 0xFD, 0xF0, 0x01, 0xF7, 0xF8,
     0x97]"

definition num_bits_security :: u16 where "num_bits_security = 308"

definition security_v :: "u8 list" where
  "security_v =
    [0x9F, 0x8A, 0x9E, 0x7F, 0x2B, 0x7D, 0xEE, 0x01,
     0xF7, 0xB0, 0x07, 0x9F, 0x07, 0x5E, 0x7C, 0x81,
     0xFD, 0xEA, 0x01, 0xF7, 0xA0, 0x1F, 0x9F, 0x70,
     0x1F, 0x7C, 0x98, 0x7D, 0xF4, 0x81, 0xF7, 0x80,
     0x27, 0xDF, 0x00, 0x1F, 0x7F, 0x89, 0x70]"

definition num_bits_securityVerification :: u16 where "num_bits_securityVerification = 308"

definition securityVerification_v :: "u8 list" where
  "securityVerification_v =
    [0xDE, 0xE0, 0x1F, 0x7B, 0x00, 0x79, 0xF0, 0x75,
     0xE7, 0xC8, 0x1F, 0x9F, 0xA0, 0x1E, 0x7F, 0x80,
     0x7D, 0xEA, 0x01, 0xF7, 0xA0, 0x1F, 0x9F, 0x70,
     0x1F, 0x7C, 0x98, 0x7D, 0xF4, 0x81, 0xF7, 0x80,
     0x87, 0xDF, 0x0, 0x1F, 0x7F, 0x89, 0x70]"

section \<open>Collections\<close>

lemmas vector_defs =
  target_id_v_def
  checksum_v_def
  program_block_def
  init1_v_def
  init2_v_def
  init3_3v_def
  id_setup_v_def
  erase_all_v_def
  read_id_v_def
  set_block_number_def
  wait_and_poll_end_def
  read_checksum_v_def
  read_byte_v_def
  verify_setup_v_def
  security_v_def
  securityVerification_v_def

lemmas issp_num_defs =
  num_bits_checksum_def
  num_bits_program_block_def
  num_bits_init1_def
  num_bits_init2_def
  num_bits_init3_3v_def
  num_bits_id_setup_def
  num_bits_erase_all_def
  num_bits_address_length_def
  num_bits_data_length_def
  num_bits_write_byte_start_def
  write_byte_start_def
  num_bits_write_byte_end_def
  write_byte_end_def
  num_bits_block_number_length_def
  num_bits_set_block_number_def
  num_bits_set_block_number_end_def
  set_block_number_end_def
  num_bits_wait_and_poll_end_def
  num_bits_read_byte_start_def
  num_bits_read_byte_end_def
  num_bits_verify_setup_def
  num_bits_security_def
  num_bits_securityVerification_def

lemmas issp_size_defs = TARGET_DATABUFF_LEN_def BLOCKS_PER_BANK_def SECURITY_BYTES_PER_BANK_def

section \<open>Every vector holds the bits that are sent from it\<close>

definition vector_fits :: "u8 list \<Rightarrow> nat \<Rightarrow> bool" where
  "vector_fits v n \<longleftrightarrow> n \<le> 8 * length v"

end
