(* ===== verification/IsspWire.thy ===== *)
theory IsspWire
  imports IsspVectors
begin

text \<open>
  The bit-banged serial wire of \<open>hssp/issp.c\<close>: the three pads of port GPIOB that reach the
  target (SDATA, SCLK, XRES), the one-line pin functions, and the routines that clock bits,
  bytes and vectors out of and into the programmer.

  The state of the wire is the output latch and the mode of each pad and the chronological
  trace of everything done to the pads.  The device at the other end is hardware outside the
  repository: it is the parameter \<open>tgt\<close>, a function from the trace so far to the level it puts
  on SDATA, so that its answers may depend on every edge and every earlier sample.
\<close>

section \<open>Pads and their trace\<close>

datatype line = SDATA | SCLK | XRES

datatype pad_mode = PAL_MODE_INPUT | PAL_MODE_OUTPUT_PUSHPULL

datatype pin_event =
    Mode line pad_mode
  | Drive line bool
  | Sample bool
  | Delay nat

record wire =
  latch :: "line \<Rightarrow> bool"
  mode :: "line \<Rightarrow> pad_mode"
  trace :: "pin_event list"

type_synonym target = "pin_event list \<Rightarrow> bool"

definition emit :: "pin_event \<Rightarrow> wire \<Rightarrow> wire" where
  "emit e w = w\<lparr>trace := trace w @ [e]\<rparr>"

definition palSetPadMode :: "line \<Rightarrow> pad_mode \<Rightarrow> wire \<Rightarrow> wire" where
  "palSetPadMode l m w = emit (Mode l m) (w\<lparr>mode := (mode w)(l := m)\<rparr>)"

definition palSetPad :: "line \<Rightarrow> wire \<Rightarrow> wire" where
  "palSetPad l w = emit (Drive l True) (w\<lparr>latch := (latch w)(l := True)\<rparr>)"

definition palClearPad :: "line \<Rightarrow> wire \<Rightarrow> wire" where
  "palClearPad l w = emit (Drive l False) (w\<lparr>latch := (latch w)(l := False)\<rparr>)"

text \<open>
  Reading SDATA: the input register shows the level on the pad, which is the programmer's own
  latch while the pad is a push-pull output and the target's level while it is an input.
\<close>

definition palReadPad :: "target \<Rightarrow> wire \<Rightarrow> bool \<times> wire" where
  "palReadPad tgt w =
     (let b = (if mode w SDATA = PAL_MODE_OUTPUT_PUSHPULL then latch w SDATA else tgt (trace w))
      in (b, emit (Sample b) w))"

definition chThdSleepMilliseconds :: "nat \<Rightarrow> wire \<Rightarrow> wire" where
  "chThdSleepMilliseconds ms w = emit (Delay ms) w"

section \<open>One-line pin functions\<close>

definition sdataHiZ :: "wire \<Rightarrow> wire" where
  "sdataHiZ = palSetPadMode SDATA PAL_MODE_INPUT"

definition sdataPP :: "wire \<Rightarrow> wire" where
  "sdataPP = palSetPadMode SDATA PAL_MODE_OUTPUT_PUSHPULL"

definition sdataLow :: "wire \<Rightarrow> wire" where
  "sdataLow = palClearPad SDATA"

definition sdataHigh :: "wire \<Rightarrow> wire" where
  "sdataHigh = palSetPad SDATA"

definition sclkLow :: "wire \<Rightarrow> wire" where
  "sclkLow = palClearPad SCLK"

definition sclkHigh :: "wire \<Rightarrow> wire" where
  "sclkHigh = palSetPad SCLK"

definition xresAssert :: "wire \<Rightarrow> wire" where
  "xresAssert = palSetPad XRES"

definition xresDeassert :: "wire \<Rightarrow> wire" where
  "xresDeassert = palClearPad XRES"

lemmas pin_defs =
  sdataHiZ_def sdataPP_def sdataLow_def sdataHigh_def sclkLow_def sclkHigh_def
  xresAssert_def xresDeassert_def palSetPadMode_def palSetPad_def palClearPad_def emit_def

section \<open>Waiting for the target\<close>

text \<open>
  One of the two polling loops of \<open>transitionHiLoDetect\<close>: sample SDATA until it has the
  wanted level; give up when the 32-bit counter, decremented after every miss, was already 0.
  The result says whether the wait timed out.
\<close>

function waitSdata :: "target \<Rightarrow> bool \<Rightarrow> u32 \<Rightarrow> wire \<Rightarrow> bool \<times> wire" where
  "waitSdata tgt level timer w =
     (let (b, w') = palReadPad tgt w in
      if b = level then (False, w')
      else if timer = 0 then (True, w')
      else waitSdata tgt level (timer - 1) w')"
  by pat_completeness auto
termination
  by (relation "measure (\<lambda>(tgt, level, timer, w). unat timer)")
    (auto simp: unat_minus_one unat_gt_0)

declare waitSdata.simps [simp del]

definition transitionHiLoDetect :: "target \<Rightarrow> wire \<Rightarrow> u8 \<times> wire" where
  "transitionHiLoDetect tgt w =
     (let (timeout, w1) = waitSdata tgt True TRANSITION_TIMEOUT w in
      if timeout then (0x01, w1)
      else
        let (timeout, w2) = waitSdata tgt False TRANSITION_TIMEOUT w1 in
        if timeout then (0x01, w2) else (0x00, w2))"

section \<open>Receiving\<close>

definition bitReceive :: "target \<Rightarrow> wire \<Rightarrow> u8 \<times> wire" where
  "bitReceive tgt w =
     (let (b, w') = palReadPad tgt (sclkHigh (sclkLow w)) in
      if b then (0x01, w') else (0x00, w'))"

fun byteReceive_loop :: "target \<Rightarrow> nat \<Rightarrow> u8 \<Rightarrow> wire \<Rightarrow> u8 \<times> wire" where
  "byteReceive_loop tgt 0 currByte w = (currByte, w)"
| "byteReceive_loop tgt (Suc n) currByte w =
     (let (b, w') = bitReceive tgt w in byteReceive_loop tgt n (shl1 currByte + b) w')"

definition byteReceive :: "target \<Rightarrow> wire \<Rightarrow> u8 \<times> wire" where
  "byteReceive tgt w = byteReceive_loop tgt 8 0x00 w"

section \<open>Sending\<close>

fun byteSend_loop :: "nat \<Rightarrow> u8 \<Rightarrow> wire \<Rightarrow> wire" where
  "byteSend_loop 0 byte w = w"
| "byteSend_loop (Suc n) byte w =
     (let w = (if byte AND 0x80 \<noteq> 0 then sdataHigh w else sdataLow w);
          w = sclkHigh w;
          w = sclkLow w
      in byteSend_loop n (shl1 byte) w)"

definition byteSend :: "u8 \<Rightarrow> u8 \<Rightarrow> wire \<Rightarrow> wire" where
  "byteSend byte numBits w = byteSend_loop (unat numBits) byte w"

text \<open>
  The body of \<open>vectorSend\<close> between the two mode changes.  The pointer \<open>vect\<close> is the rest of
  the array it points into; \<open>None\<close> is a read past the end of that array.
\<close>

fun vectorSend_loop :: "u8 list \<Rightarrow> u16 \<Rightarrow> wire \<Rightarrow> wire option" where
  "vectorSend_loop [] numBits w = (if numBits > 0 then None else Some w)"
| "vectorSend_loop (v # vect) numBits w =
     (if numBits \<ge> 8 then vectorSend_loop vect (numBits - 8) (byteSend v 8 w)
      else if numBits > 0 then Some (byteSend v (ucast numBits) w)
      else Some w)"

definition vectorSend :: "u8 list \<Rightarrow> u16 \<Rightarrow> wire \<Rightarrow> wire option" where
  "vectorSend vect numBits w =
     (case vectorSend_loop vect numBits (sdataPP w) of
        None \<Rightarrow> None
      | Some w' \<Rightarrow> Some (sdataHiZ w'))"

definition targetReStart :: "wire \<Rightarrow> wire" where
  "targetReStart w = xresDeassert (chThdSleepMilliseconds XRES_CLK_DELAY (xresAssert w))"

section \<open>What the pin functions do to the wire\<close>

lemma sdataHiZ_simps [simp, pin_simps]:
  "trace (sdataHiZ w) = trace w @ [Mode SDATA PAL_MODE_INPUT]"
  "mode (sdataHiZ w) = (mode w)(SDATA := PAL_MODE_INPUT)"
  "latch (sdataHiZ w) = latch w"
  by (simp_all add: pin_defs)

lemma sdataPP_simps [simp, pin_simps]:
  "trace (sdataPP w) = trace w @ [Mode SDATA PAL_MODE_OUTPUT_PUSHPULL]"
  "mode (sdataPP w) = (mode w)(SDATA := PAL_MODE_OUTPUT_PUSHPULL)"
  "latch (sdataPP w) = latch w"
  by (simp_all add: pin_defs)

lemma sclkHigh_simps [simp, pin_simps]:
  "trace (sclkHigh w) = trace w @ [Drive SCLK True]"
  "mode (sclkHigh w) = mode w"
  by (simp_all add: pin_defs)

lemma sclkLow_simps [simp, pin_simps]:
  "trace (sclkLow w) = trace w @ [Drive SCLK False]"
  "mode (sclkLow w) = mode w"
  by (simp_all add: pin_defs)

lemma sdata_drive_simps [simp, pin_simps]:
  "trace (sdataHigh w) = trace w @ [Drive SDATA True]"
  "trace (sdataLow w) = trace w @ [Drive SDATA False]"
  "mode (sdataHigh w) = mode w"
  "mode (sdataLow w) = mode w"
  by (simp_all add: pin_defs)

lemma targetReStart_simps [simp, pin_simps]:
  "trace (targetReStart w) = trace w @ [Drive XRES True, Delay 10, Drive XRES False]"
  "mode (targetReStart w) = mode w"
  by (simp_all add: targetReStart_def chThdSleepMilliseconds_def XRES_CLK_DELAY_def pin_defs)

lemma palReadPad_input:
  "mode w SDATA = PAL_MODE_INPUT \<Longrightarrow>
    palReadPad tgt w = (tgt (trace w), emit (Sample (tgt (trace w))) w)"
  by (simp add: palReadPad_def Let_def)

lemma emit_simps [simp]:
  "trace (emit e w) = trace w @ [e]" "mode (emit e w) = mode w" "latch (emit e w) = latch w"
  by (simp_all add: emit_def)

section \<open>Sending: the bits that go out\<close>

text \<open>
  Reference for the sending routines: one bit is SDATA set to the bit and then one full clock
  pulse, which leaves SCLK low.  \<open>bits_wave\<close> is the trace of a bit sequence.
\<close>

definition send_bit :: "bool \<Rightarrow> wire \<Rightarrow> wire" where
  "send_bit b w = sclkLow (sclkHigh (if b then sdataHigh w else sdataLow w))"

fun send_bits :: "bool list \<Rightarrow> wire \<Rightarrow> wire" where
  "send_bits [] w = w"
| "send_bits (b # bs) w = send_bits bs (send_bit b w)"

definition bit_wave :: "bool \<Rightarrow> pin_event list" where
  "bit_wave b = [Drive SDATA b, Drive SCLK True, Drive SCLK False]"

definition bits_wave :: "bool list \<Rightarrow> pin_event list" where
  "bits_wave bs = concat (map bit_wave bs)"

lemma bits_wave_simps [simp]:
  "bits_wave [] = []"
  "bits_wave (b # bs) = bit_wave b @ bits_wave bs"
  "bits_wave (xs @ ys) = bits_wave xs @ bits_wave ys"
  by (simp_all add: bits_wave_def)

lemma send_bits_append: "send_bits (xs @ ys) w = send_bits ys (send_bits xs w)"
  by (induction xs arbitrary: w) auto

lemma send_bits_simps [simp]:
  "trace (send_bits bs w) = trace w @ bits_wave bs"
  "mode (send_bits bs w) = mode w"
  by (induction bs arbitrary: w) (auto simp: send_bit_def bit_wave_def)

lemma and_0x80: "(x :: u8) AND 0x80 \<noteq> 0 \<longleftrightarrow> bit x 7"
proof -
  have "(0x80 :: u8) = push_bit 7 1" by simp
  then show ?thesis by (metis bit_iff_and_push_bit_not_eq_0)
qed

lemma byteSend_loop_bits: "byteSend_loop n x w = send_bits (msb_bits n x) w"
  by (induction n arbitrary: x w) (auto simp: Let_def and_0x80 send_bit_def)

lemma byteSend_bits: "byteSend x n w = send_bits (msb_bits (unat n) x) w"
  by (simp add: byteSend_def byteSend_loop_bits)

lemma byteSend_mode [simp]: "mode (byteSend x n w) = mode w"
  by (simp add: byteSend_bits)

text \<open>The bits of a vector, first byte first, most significant bit first.\<close>

definition vector_bits :: "u8 list \<Rightarrow> bool list" where
  "vector_bits v = concat (map (msb_bits 8) v)"

lemma vector_bits_simps [simp]:
  "vector_bits [] = []"
  "vector_bits (x # v) = msb_bits 8 x @ vector_bits v"
  by (simp_all add: vector_bits_def)

lemma length_vector_bits [simp]: "length (vector_bits v) = 8 * length v"
  by (induction v) auto

lemma vector_bits_Nil_iff [simp]: "vector_bits v = [] \<longleftrightarrow> v = []" "[] = vector_bits v \<longleftrightarrow> v = []"
  by (metis length_0_conv length_vector_bits mult_eq_0_iff zero_neq_numeral)+

lemma vectorSend_loop_bits:
  "unat n \<le> 8 * length v \<Longrightarrow>
    vectorSend_loop v n w = Some (send_bits (take (unat n) (vector_bits v)) w)"
proof (induction v n w rule: vectorSend_loop.induct)
  case (1 n w)
  then show ?case by (simp add: unat_eq_0 word_neq_0_conv)
next
  case (2 x v n w)
  show ?case
  proof (cases "n \<ge> 8")
    case True
    then have n: "unat (n - 8) = unat n - 8" and ge: "8 \<le> unat n"
      by (simp_all add: unat_sub word_le_nat_alt)
    have "take (unat n) (vector_bits (x # v)) = msb_bits 8 x @ take (unat n - 8) (vector_bits v)"
      using ge by (simp del: msb_bits.simps)
    with True n 2 show ?thesis
      by (simp add: send_bits_append byteSend_bits del: msb_bits.simps)
  next
    case False
    then have lt: "unat n < 8" by (simp add: word_le_nat_alt)
    then have "unat (ucast n :: u8) = unat n" by (simp add: unsigned_ucast_eq take_bit_eq_mod)
    moreover have "take (unat n) (vector_bits (x # v)) = msb_bits (unat n) x"
      using lt by (simp add: take_msb_bits del: msb_bits.simps)
    ultimately show ?thesis
      using False by (cases "n = 0") (auto simp: byteSend_bits word_neq_0_conv)
  qed
qed

lemma vectorSend_loop_past_end:
  "unat n > 8 * length v \<Longrightarrow> vectorSend_loop v n w = None"
proof (induction v n w rule: vectorSend_loop.induct)
  case (1 n w)
  then show ?case by (simp add: word_less_nat_alt)
next
  case (2 x v n w)
  then have "unat n \<ge> 8" by simp
  then have "n \<ge> 8" "unat (n - 8) = unat n - 8"
    by (simp_all add: unat_sub word_le_nat_alt)
  with 2 show ?case by simp
qed

definition vector_wave :: "u8 list \<Rightarrow> nat \<Rightarrow> pin_event list" where
  "vector_wave v n =
     Mode SDATA PAL_MODE_OUTPUT_PUSHPULL # bits_wave (take n (vector_bits v))
       @ [Mode SDATA PAL_MODE_INPUT]"

lemma vectorSend_Some:
  assumes "unat n \<le> 8 * length v"
  obtains w' where "vectorSend v n w = Some w'"
    and "trace w' = trace w @ vector_wave v (unat n)"
    and "mode w' = (mode w)(SDATA := PAL_MODE_INPUT)"
  using assms by (auto simp: vectorSend_def vectorSend_loop_bits vector_wave_def)

lemma vectorSend_None_iff: "vectorSend v n w = None \<longleftrightarrow> 8 * length v < unat n"
  by (cases "unat n \<le> 8 * length v")
    (auto simp: vectorSend_def vectorSend_loop_bits vectorSend_loop_past_end)

lemma vectorSend_SomeD:
  assumes "vectorSend v n w = Some w'"
  shows "trace w' = trace w @ vector_wave v (unat n)"
    and "mode w' = (mode w)(SDATA := PAL_MODE_INPUT)"
proof -
  have "unat n \<le> 8 * length v" using assms vectorSend_None_iff [of v n w] by auto
  then show "trace w' = trace w @ vector_wave v (unat n)"
    and "mode w' = (mode w)(SDATA := PAL_MODE_INPUT)"
    using assms vectorSend_Some [of n v w] by auto
qed

section \<open>Receiving: the samples taken\<close>

text \<open>
  One received bit is a full clock pulse, low then high, followed by a sample of SDATA.
  \<open>receives tgt tr bs\<close> says that \<open>bs\<close> are the levels the target \<open>tgt\<close> puts on SDATA when it is
  clocked that way after the trace \<open>tr\<close>.
\<close>

definition recv_wave :: "bool \<Rightarrow> pin_event list" where
  "recv_wave b = [Drive SCLK False, Drive SCLK True, Sample b]"

definition recvs_wave :: "bool list \<Rightarrow> pin_event list" where
  "recvs_wave bs = concat (map recv_wave bs)"

lemma recvs_wave_simps [simp]:
  "recvs_wave [] = []"
  "recvs_wave (b # bs) = recv_wave b @ recvs_wave bs"
  by (simp_all add: recvs_wave_def)

fun receives :: "target \<Rightarrow> pin_event list \<Rightarrow> bool list \<Rightarrow> bool" where
  "receives tgt tr [] \<longleftrightarrow> True"
| "receives tgt tr (b # bs) \<longleftrightarrow>
     b = tgt (tr @ [Drive SCLK False, Drive SCLK True]) \<and> receives tgt (tr @ recv_wave b) bs"

fun next_bits :: "target \<Rightarrow> nat \<Rightarrow> pin_event list \<Rightarrow> bool list" where
  "next_bits tgt 0 tr = []"
| "next_bits tgt (Suc n) tr =
     (let b = tgt (tr @ [Drive SCLK False, Drive SCLK True])
      in b # next_bits tgt n (tr @ recv_wave b))"

lemma length_next_bits [simp]: "length (next_bits tgt n tr) = n"
  by (induction n arbitrary: tr) (auto simp: Let_def)

lemma receives_next_bits: "receives tgt tr bs \<longleftrightarrow> bs = next_bits tgt (length bs) tr"
  by (induction bs arbitrary: tr) (auto simp: Let_def)

lemma byteReceive_loop_bits:
  assumes "mode w SDATA = PAL_MODE_INPUT"
  shows "\<exists>w'. byteReceive_loop tgt n x w = (msb_value x (next_bits tgt n (trace w)), w') \<and>
    trace w' = trace w @ recvs_wave (next_bits tgt n (trace w)) \<and> mode w' = mode w"
  using assms
proof (induction n arbitrary: x w)
  case 0
  then show ?case by simp
next
  case (Suc n)
  let ?b = "tgt (trace w @ [Drive SCLK False, Drive SCLK True])"
  let ?w = "emit (Sample ?b) (sclkHigh (sclkLow w))"
  have "bitReceive tgt w = (if ?b then 1 else 0, ?w)"
    using Suc.prems by (simp add: bitReceive_def palReadPad_input)
  then have step: "byteReceive_loop tgt (Suc n) x w = byteReceive_loop tgt n (shift_in x ?b) ?w"
    by (simp add: shift_in_def)
  have tr: "trace ?w = trace w @ recv_wave ?b" by (simp add: recv_wave_def)
  obtain w' where
      "byteReceive_loop tgt n (shift_in x ?b) ?w
        = (msb_value (shift_in x ?b) (next_bits tgt n (trace ?w)), w')"
    and "trace w' = trace ?w @ recvs_wave (next_bits tgt n (trace ?w))"
    and "mode w' = mode ?w"
    using Suc.IH [of ?w "shift_in x ?b"] Suc.prems by auto
  then show ?case
    by (simp only: step tr next_bits.simps Let_def msb_value.simps recvs_wave_simps
        append_assoc) simp
qed

lemma byteReceive_bits:
  assumes "mode w SDATA = PAL_MODE_INPUT"
  obtains w' where "byteReceive tgt w = (msb_value 0 (next_bits tgt 8 (trace w)), w')"
    and "trace w' = trace w @ recvs_wave (next_bits tgt 8 (trace w))"
    and "mode w' = mode w"
  using byteReceive_loop_bits [OF assms, of tgt 8 0] that by (auto simp: byteReceive_def)

section \<open>Polling: how a transition is found\<close>

text \<open>
  \<open>first_level tgt tr level k\<close>: polled after the trace \<open>tr\<close>, the target shows \<open>level\<close> for the
  first time at the sample number \<open>k\<close>, counted from 0.
\<close>

definition misses :: "bool \<Rightarrow> nat \<Rightarrow> pin_event list" where
  "misses level k = replicate k (Sample (\<not> level))"

lemma misses_simps [simp]:
  "misses level 0 = []"
  "misses level (Suc k) = Sample (\<not> level) # misses level k"
  "length (misses level k) = k"
  by (simp_all add: misses_def)

definition first_level :: "target \<Rightarrow> pin_event list \<Rightarrow> bool \<Rightarrow> nat \<Rightarrow> bool" where
  "first_level tgt tr level k \<longleftrightarrow>
     (\<forall>i<k. tgt (tr @ misses level i) \<noteq> level) \<and> tgt (tr @ misses level k) = level"

lemma first_level_0: "first_level tgt tr level 0 \<longleftrightarrow> tgt tr = level"
  by (simp add: first_level_def)

lemma first_level_Suc:
  "first_level tgt tr level (Suc k) \<longleftrightarrow>
     tgt tr \<noteq> level \<and> first_level tgt (tr @ [Sample (\<not> level)]) level k"
  by (auto simp: first_level_def less_Suc_eq_0_disj)

lemma first_level_unique:
  "first_level tgt tr level k \<Longrightarrow> first_level tgt tr level k' \<Longrightarrow> k = k'"
  unfolding first_level_def by (metis linorder_neqE_nat)

text \<open>Everything about one polling loop: it succeeds exactly when the level shows up in time.\<close>

lemma waitSdata_found:
  "first_level tgt (trace w) level k \<Longrightarrow> k \<le> unat timer \<Longrightarrow> mode w SDATA = PAL_MODE_INPUT \<Longrightarrow>
    \<exists>w'. waitSdata tgt level timer w = (False, w') \<and>
      trace w' = trace w @ misses level k @ [Sample level] \<and> mode w' = mode w"
proof (induction k arbitrary: w timer)
  case 0
  then show ?case
    by (simp add: first_level_0 waitSdata.simps [of tgt level timer w] palReadPad_input)
next
  case (Suc k)
  let ?w = "emit (Sample (\<not> level)) w"
  have miss: "tgt (trace w) = (\<not> level)" and nxt: "first_level tgt (trace ?w) level k"
    using Suc.prems(1) by (auto simp: first_level_Suc)
  have "timer \<noteq> 0" using Suc.prems(2) by auto
  then have "k \<le> unat (timer - 1)" using Suc.prems(2) by (simp add: unat_minus_one)
  moreover have "mode ?w SDATA = PAL_MODE_INPUT" using Suc.prems(3) by simp
  ultimately obtain w' where w': "waitSdata tgt level (timer - 1) ?w = (False, w')"
      "trace w' = trace ?w @ misses level k @ [Sample level]" "mode w' = mode ?w"
    using Suc.IH [OF nxt] by blast
  have "waitSdata tgt level timer w = waitSdata tgt level (timer - 1) ?w"
    using miss \<open>timer \<noteq> 0\<close> Suc.prems(3)
    by (simp add: waitSdata.simps [of tgt level timer w] palReadPad_input)
  with w' show ?case by simp
qed

lemma waitSdata_timeout:
  "(\<And>i. i \<le> unat timer \<Longrightarrow> tgt (trace w @ misses level i) \<noteq> level) \<Longrightarrow>
    mode w SDATA = PAL_MODE_INPUT \<Longrightarrow>
    \<exists>w'. waitSdata tgt level timer w = (True, w') \<and>
      trace w' = trace w @ misses level (Suc (unat timer)) \<and> mode w' = mode w"
proof (induction "unat timer" arbitrary: w timer)
  case 0
  have "timer = 0" using 0(1) by (simp add: unat_eq_0)
  moreover have "tgt (trace w) = (\<not> level)" using 0(2) [of 0] by auto
  ultimately show ?case using 0(3)
    by (simp add: waitSdata.simps [of tgt level 0 w] palReadPad_input)
next
  case (Suc n)
  let ?w = "emit (Sample (\<not> level)) w"
  have "timer \<noteq> 0" using Suc.hyps(2) by auto
  then have n: "n = unat (timer - 1)" using Suc.hyps(2) by (simp add: unat_minus_one)
  have miss: "tgt (trace w) = (\<not> level)" using Suc.prems(1) [of 0] by auto
  have later: "tgt (trace ?w @ misses level i) \<noteq> level" if "i \<le> unat (timer - 1)" for i
    using Suc.prems(1) [of "Suc i"] Suc.hyps(2) n that by simp
  have "mode ?w SDATA = PAL_MODE_INPUT" using Suc.prems(2) by simp
  from Suc.hyps(1) [OF n later this] obtain w' where
      w': "waitSdata tgt level (timer - 1) ?w = (True, w')"
      "trace w' = trace ?w @ misses level (Suc (unat (timer - 1)))" "mode w' = mode ?w"
    by blast
  have "waitSdata tgt level timer w = waitSdata tgt level (timer - 1) ?w"
    using miss \<open>timer \<noteq> 0\<close> Suc.prems(2)
    by (simp add: waitSdata.simps [of tgt level timer w] palReadPad_input)
  with w' show ?case unfolding Suc.hyps(2) [symmetric] n by simp
qed

lemma first_level_or_none:
  "(\<exists>k\<le>n. first_level tgt tr level k) \<or> (\<forall>i\<le>n. tgt (tr @ misses level i) \<noteq> level)"
proof (induction n)
  case 0
  then show ?case by (auto simp: first_level_0)
next
  case (Suc n)
  then show ?case unfolding first_level_def by (metis le_Suc_eq less_Suc_eq_le)
qed

lemma first_level_not_none:
  "first_level tgt tr level k \<Longrightarrow> k \<le> n \<Longrightarrow> \<not> (\<forall>i\<le>n. tgt (tr @ misses level i) \<noteq> level)"
  by (auto simp: first_level_def)

text \<open>
  Reference for \<open>transitionHiLoDetect\<close>: after the trace \<open>tr\<close> the target shows a high level
  within the timeout and a low level within a second timeout after it.
\<close>

definition hi_lo_in_time :: "target \<Rightarrow> pin_event list \<Rightarrow> nat \<Rightarrow> nat \<Rightarrow> bool" where
  "hi_lo_in_time tgt tr i j \<longleftrightarrow>
     i \<le> unat TRANSITION_TIMEOUT \<and> j \<le> unat TRANSITION_TIMEOUT \<and>
     first_level tgt tr True i \<and>
     first_level tgt (tr @ misses True i @ [Sample True]) False j"

definition hi_lo_wave :: "nat \<Rightarrow> nat \<Rightarrow> pin_event list" where
  "hi_lo_wave i j = misses True i @ [Sample True] @ misses False j @ [Sample False]"

lemma transitionHiLoDetect_ok:
  assumes "hi_lo_in_time tgt (trace w) i j" and "mode w SDATA = PAL_MODE_INPUT"
  shows "\<exists>w'. transitionHiLoDetect tgt w = (0, w') \<and> trace w' = trace w @ hi_lo_wave i j \<and>
    mode w' = mode w"
proof -
  from assms obtain w1 where w1: "waitSdata tgt True TRANSITION_TIMEOUT w = (False, w1)"
      "trace w1 = trace w @ misses True i @ [Sample True]" "mode w1 = mode w"
    using waitSdata_found unfolding hi_lo_in_time_def by blast
  from assms w1 have "first_level tgt (trace w1) False j" and "mode w1 SDATA = PAL_MODE_INPUT"
    and "j \<le> unat TRANSITION_TIMEOUT"
    by (auto simp: hi_lo_in_time_def)
  then obtain w2 where "waitSdata tgt False TRANSITION_TIMEOUT w1 = (False, w2)"
      "trace w2 = trace w1 @ misses False j @ [Sample False]" "mode w2 = mode w1"
    using waitSdata_found by blast
  with w1 show ?thesis by (simp add: transitionHiLoDetect_def hi_lo_wave_def)
qed

lemma transitionHiLoDetect_timeout:
  assumes none: "\<nexists>i j. hi_lo_in_time tgt (trace w) i j" and m: "mode w SDATA = PAL_MODE_INPUT"
  shows "\<exists>w' es. transitionHiLoDetect tgt w = (1, w') \<and> trace w' = trace w @ es \<and>
    length es \<le> 2 * Suc (unat TRANSITION_TIMEOUT) \<and> mode w' = mode w"
proof (cases "\<exists>i \<le> unat TRANSITION_TIMEOUT. first_level tgt (trace w) True i")
  case False
  then have "\<And>i. i \<le> unat TRANSITION_TIMEOUT \<Longrightarrow> tgt (trace w @ misses True i) \<noteq> True"
    using first_level_or_none [of "unat TRANSITION_TIMEOUT" tgt "trace w" True] by blast
  from waitSdata_timeout [of TRANSITION_TIMEOUT tgt w True, OF this m] show ?thesis
    by (auto simp: transitionHiLoDetect_def)
next
  case True
  then obtain i where i: "i \<le> unat TRANSITION_TIMEOUT" "first_level tgt (trace w) True i" by blast
  from waitSdata_found [OF i(2,1) m] obtain w1 where
      w1: "waitSdata tgt True TRANSITION_TIMEOUT w = (False, w1)"
      "trace w1 = trace w @ misses True i @ [Sample True]" "mode w1 = mode w"
    by blast
  then have m1: "mode w1 SDATA = PAL_MODE_INPUT" using m by simp
  have "\<not> (\<exists>j\<le>unat TRANSITION_TIMEOUT. first_level tgt (trace w1) False j)"
    using none i w1(2) by (auto simp: hi_lo_in_time_def)
  then have "\<And>j. j \<le> unat TRANSITION_TIMEOUT \<Longrightarrow> tgt (trace w1 @ misses False j) \<noteq> False"
    using first_level_or_none [of "unat TRANSITION_TIMEOUT" tgt "trace w1" False] by blast
  from waitSdata_timeout [of TRANSITION_TIMEOUT tgt w1 False, OF this m1] obtain w2 where
      "waitSdata tgt False TRANSITION_TIMEOUT w1 = (True, w2)"
      "trace w2 = trace w1 @ misses False (Suc (unat TRANSITION_TIMEOUT))" "mode w2 = mode w1"
    by blast
  with w1 i(1) show ?thesis by (auto simp: transitionHiLoDetect_def)
qed

lemma transitionHiLoDetect_cases:
  assumes "mode w SDATA = PAL_MODE_INPUT"
  obtains (ok) i j w' where "hi_lo_in_time tgt (trace w) i j" "transitionHiLoDetect tgt w = (0, w')"
      "trace w' = trace w @ hi_lo_wave i j" "mode w' = mode w"
    | (timeout) w' es where "\<nexists>i j. hi_lo_in_time tgt (trace w) i j"
      "transitionHiLoDetect tgt w = (1, w')" "trace w' = trace w @ es"
      "length es \<le> 2 * Suc (unat TRANSITION_TIMEOUT)" "mode w' = mode w"
  using transitionHiLoDetect_ok [OF _ assms] transitionHiLoDetect_timeout [OF _ assms] by metis

section \<open>Vectors as total operations\<close>

text \<open>What \<open>vectorSend\<close> does when the vector is long enough.\<close>

definition vsend :: "u8 list \<Rightarrow> nat \<Rightarrow> wire \<Rightarrow> wire" where
  "vsend v n w = sdataHiZ (send_bits (take n (vector_bits v)) (sdataPP w))"

lemma vectorSend_vsend:
  "unat n \<le> 8 * length v \<Longrightarrow> vectorSend v n w = Some (vsend v (unat n) w)"
  by (simp add: vectorSend_def vectorSend_loop_bits vsend_def)

lemma vsend_simps [simp, pin_simps]:
  "trace (vsend v n w) = trace w @ vector_wave v n"
  "mode (vsend v n w) = (mode w)(SDATA := PAL_MODE_INPUT)"
  by (simp_all add: vsend_def vector_wave_def)

section \<open>Bus discipline\<close>

text \<open>
  \<open>bus_ok m es\<close>: started with SDATA in mode \<open>m\<close>, the trace \<open>es\<close> samples SDATA only while the
  pad is an input (the programmer never reads back its own latch) and writes its latch only
  while the pad is driven.  \<open>bus_end m es\<close> is the mode at the end.
\<close>

fun bus_ok :: "pad_mode \<Rightarrow> pin_event list \<Rightarrow> bool" where
  "bus_ok m [] = True"
| "bus_ok m (Mode SDATA m' # es) = bus_ok m' es"
| "bus_ok m (Sample b # es) = (m = PAL_MODE_INPUT \<and> bus_ok m es)"
| "bus_ok m (Drive SDATA b # es) = (m = PAL_MODE_OUTPUT_PUSHPULL \<and> bus_ok m es)"
| "bus_ok m (e # es) = bus_ok m es"

fun bus_end :: "pad_mode \<Rightarrow> pin_event list \<Rightarrow> pad_mode" where
  "bus_end m [] = m"
| "bus_end m (Mode SDATA m' # es) = bus_end m' es"
| "bus_end m (e # es) = bus_end m es"

lemma bus_end_append [simp]: "bus_end m (xs @ ys) = bus_end (bus_end m xs) ys"
  by (induction m xs rule: bus_end.induct) auto

lemma bus_ok_append [simp]: "bus_ok m (xs @ ys) \<longleftrightarrow> bus_ok m xs \<and> bus_ok (bus_end m xs) ys"
  by (induction m xs rule: bus_ok.induct) auto

definition bus_inv :: "pad_mode \<Rightarrow> wire \<Rightarrow> bool" where
  "bus_inv m0 w \<longleftrightarrow> bus_ok m0 (trace w) \<and> bus_end m0 (trace w) = mode w SDATA"

lemma bus_end_bits [simp]: "bus_end m (bits_wave bs) = m"
  by (induction bs) (auto simp: bit_wave_def)

lemma bus_ok_bits [simp]: "bus_ok PAL_MODE_OUTPUT_PUSHPULL (bits_wave bs)"
  by (induction bs) (auto simp: bit_wave_def)

lemma bus_end_misses [simp]: "bus_end m (misses level k) = m"
  by (induction k) auto

lemma bus_ok_misses [simp]: "bus_ok PAL_MODE_INPUT (misses level k)"
  by (induction k) auto

lemma bus_end_recvs [simp]: "bus_end m (recvs_wave bs) = m"
  by (induction bs) (auto simp: recv_wave_def)

lemma bus_ok_recvs [simp]: "bus_ok PAL_MODE_INPUT (recvs_wave bs)"
  by (induction bs) (auto simp: recv_wave_def)

lemma bus_vector [simp]:
  "bus_ok m (vector_wave v n)" "bus_end m (vector_wave v n) = PAL_MODE_INPUT"
  by (simp_all add: vector_wave_def)

lemma bus_inv_pins [simp]:
  "bus_inv m w \<Longrightarrow> bus_inv m (sdataHiZ w)"
  "bus_inv m w \<Longrightarrow> bus_inv m (sdataPP w)"
  "bus_inv m w \<Longrightarrow> bus_inv m (sclkLow w)"
  "bus_inv m w \<Longrightarrow> bus_inv m (sclkHigh w)"
  "bus_inv m w \<Longrightarrow> bus_inv m (targetReStart w)"
  "bus_inv m w \<Longrightarrow> bus_inv m (vsend v n w)"
  by (simp_all add: bus_inv_def)

lemma bus_inv_send [simp]:
  "bus_inv m w \<Longrightarrow> mode w SDATA = PAL_MODE_OUTPUT_PUSHPULL \<Longrightarrow> bus_inv m (byteSend x n w)"
  by (simp add: bus_inv_def byteSend_bits)

lemma bus_inv_wait:
  "bus_inv m w \<Longrightarrow> mode w SDATA = PAL_MODE_INPUT \<Longrightarrow> waitSdata tgt level timer w = (r, w') \<Longrightarrow>
    bus_inv m w' \<and> mode w' = mode w"
proof (induction tgt level timer w rule: waitSdata.induct)
  case (1 tgt level timer w)
  let ?w = "emit (Sample (tgt (trace w))) w"
  have inv: "bus_inv m ?w" using 1(2,3) by (simp add: bus_inv_def)
  show ?case
  proof (cases "tgt (trace w) = level \<or> timer = 0")
    case True
    then have "w' = ?w"
      using 1(3,4)
      by (auto simp: waitSdata.simps [of tgt level timer w] palReadPad_input split: if_splits)
    with inv show ?thesis by simp
  next
    case False
    then have "waitSdata tgt level (timer - 1) ?w = (r, w')"
      using 1(3,4) by (auto simp: waitSdata.simps [of tgt level timer w] palReadPad_input)
    then show ?thesis
      using 1(1) [of "(tgt (trace w), ?w)"] False 1(3) inv by (auto simp: palReadPad_input)
  qed
qed

lemma detect_snd [simp]:
  assumes "mode w SDATA = PAL_MODE_INPUT"
  shows "bus_inv m w \<Longrightarrow> bus_inv m (snd (transitionHiLoDetect tgt w))"
    and "mode (snd (transitionHiLoDetect tgt w)) = mode w"
proof -
  obtain t1 w1 where w1: "waitSdata tgt True TRANSITION_TIMEOUT w = (t1, w1)" by fastforce
  obtain t2 w2 where w2: "waitSdata tgt False TRANSITION_TIMEOUT w1 = (t2, w2)" by fastforce
  show "bus_inv m (snd (transitionHiLoDetect tgt w))" if "bus_inv m w"
  proof -
    have i1: "bus_inv m w1" "mode w1 = mode w" using bus_inv_wait [OF that assms w1] by auto
    have "bus_inv m w2" using bus_inv_wait [OF i1(1) _ w2] i1(2) assms by auto
    with i1 w1 w2 show ?thesis by (simp add: transitionHiLoDetect_def)
  qed
  show "mode (snd (transitionHiLoDetect tgt w)) = mode w"
    using assms by (cases rule: transitionHiLoDetect_cases [of w tgt]) auto
qed

lemma receive_snd [simp]:
  assumes "mode w SDATA = PAL_MODE_INPUT"
  shows "bus_inv m w \<Longrightarrow> bus_inv m (snd (byteReceive tgt w))"
    and "mode (snd (byteReceive tgt w)) = mode w"
    and "trace (snd (byteReceive tgt w)) = trace w @ recvs_wave (next_bits tgt 8 (trace w))"
    and "fst (byteReceive tgt w) = msb_value 0 (next_bits tgt 8 (trace w))"
proof -
  obtain w' where w': "byteReceive tgt w = (msb_value 0 (next_bits tgt 8 (trace w)), w')"
      "trace w' = trace w @ recvs_wave (next_bits tgt 8 (trace w))" "mode w' = mode w"
    using byteReceive_bits [OF assms] by blast
  then show "mode (snd (byteReceive tgt w)) = mode w"
    and "trace (snd (byteReceive tgt w)) = trace w @ recvs_wave (next_bits tgt 8 (trace w))"
    and "fst (byteReceive tgt w) = msb_value 0 (next_bits tgt 8 (trace w))"
    by simp_all
  show "bus_inv m (snd (byteReceive tgt w))" if "bus_inv m w"
    using that w' assms by (simp add: bus_inv_def)
qed

section \<open>Bits clocked in\<close>

text \<open>
  The levels the programmer samples right after a rising edge of SCLK: the bits it receives.
  The samples of the polling loops follow no rising edge and do not count.
\<close>

fun clocked_in :: "pin_event list \<Rightarrow> bool list" where
  "clocked_in (Drive SCLK True # Sample b # es) = b # clocked_in es"
| "clocked_in (e # es) = clocked_in es"
| "clocked_in [] = []"

lemma clocked_in_bits [simp]: "clocked_in (bits_wave bs @ es) = clocked_in es"
  by (induction bs) (auto simp: bit_wave_def)

lemma clocked_in_vector [simp]: "clocked_in (vector_wave v n @ es) = clocked_in es"
  by (simp add: vector_wave_def)

lemma clocked_in_misses [simp]: "clocked_in (misses level k @ es) = clocked_in es"
  by (induction k) auto

lemma clocked_in_recvs [simp]: "clocked_in (recvs_wave bs @ es) = bs @ clocked_in es"
  by (induction bs) (auto simp: recv_wave_def)

lemma clocked_in_hi_lo [simp]: "clocked_in (hi_lo_wave i j @ es) = clocked_in es"
  by (simp add: hi_lo_wave_def)

text \<open>
  What a call of \<open>transitionHiLoDetect\<close> adds to the trace, in a form that composes: nothing is
  clocked in, whatever comes after it.
\<close>

definition quiet :: "pin_event list \<Rightarrow> bool" where
  "quiet es \<longleftrightarrow> (\<forall>ys. clocked_in (es @ ys) = clocked_in ys)"

lemma quietD [simp]: "quiet es \<Longrightarrow> clocked_in (es @ ys) = clocked_in ys"
  by (simp add: quiet_def)

lemma quiet_misses: "quiet (misses level k)"
  by (simp add: quiet_def)

lemma waitSdata_mode:
  assumes "mode w SDATA = PAL_MODE_INPUT"
  shows "mode (snd (waitSdata tgt level timer w)) = mode w"
proof (cases "\<exists>k\<le>unat timer. first_level tgt (trace w) level k")
  case True
  then show ?thesis using waitSdata_found [of tgt w level _ timer] assms by force
next
  case False
  have "\<And>i. i \<le> unat timer \<Longrightarrow> tgt (trace w @ misses level i) \<noteq> level"
    using False first_level_or_none [of "unat timer" tgt "trace w" level] by blast
  from waitSdata_timeout [of timer tgt w level, OF this assms] show ?thesis by force
qed

lemma waitSdata_quiet:
  "mode w SDATA = PAL_MODE_INPUT \<Longrightarrow>
    \<exists>es. trace (snd (waitSdata tgt level timer w)) = trace w @ es \<and> quiet es"
proof (cases "\<exists>k\<le>unat timer. first_level tgt (trace w) level k")
  case True
  assume m: "mode w SDATA = PAL_MODE_INPUT"
  from True obtain k where "k \<le> unat timer" "first_level tgt (trace w) level k" by blast
  then show ?thesis using waitSdata_found [of tgt w level k timer] m by (auto simp: quiet_def)
next
  case False
  assume m: "mode w SDATA = PAL_MODE_INPUT"
  have "\<And>i. i \<le> unat timer \<Longrightarrow> tgt (trace w @ misses level i) \<noteq> level"
    using False first_level_or_none [of "unat timer" tgt "trace w" level] by blast
  from waitSdata_timeout [of timer tgt w level, OF this m] show ?thesis
    using quiet_misses [of level "Suc (unat timer)"] by force
qed

lemma detect_quiet:
  assumes "mode w SDATA = PAL_MODE_INPUT"
  shows "\<exists>es. trace (snd (transitionHiLoDetect tgt w)) = trace w @ es \<and> quiet es"
proof -
  obtain t1 w1 where w1: "waitSdata tgt True TRANSITION_TIMEOUT w = (t1, w1)" by fastforce
  obtain t2 w2 where w2: "waitSdata tgt False TRANSITION_TIMEOUT w1 = (t2, w2)" by fastforce
  obtain es1 where es1: "trace w1 = trace w @ es1" "quiet es1"
    using waitSdata_quiet [OF assms, of tgt True TRANSITION_TIMEOUT] w1 by auto
  have m1: "mode w1 SDATA = PAL_MODE_INPUT"
    using waitSdata_mode [OF assms, of tgt True TRANSITION_TIMEOUT] w1 assms by simp
  obtain es2 where es2: "trace w2 = trace w1 @ es2" "quiet es2"
    using waitSdata_quiet [OF m1, of tgt False TRANSITION_TIMEOUT] w2 by auto
  have "quiet (es1 @ es2)" using es1(2) es2(2) by (simp add: quiet_def)
  with w1 w2 es1 es2 show ?thesis by (auto simp: transitionHiLoDetect_def)
qed

text \<open>
  \<open>rcv w w' bs\<close>: the run from \<open>w\<close> to \<open>w'\<close> only adds to the trace, and exactly the bits \<open>bs\<close>
  are clocked in during it.
\<close>

definition rcv :: "wire \<Rightarrow> wire \<Rightarrow> bool list \<Rightarrow> bool" where
  "rcv w w' bs \<longleftrightarrow>
     (\<exists>es. trace w' = trace w @ es \<and> (\<forall>ys. clocked_in (es @ ys) = bs @ clocked_in ys))"

lemma rcv_refl [simp]: "rcv w w []"
  by (auto simp: rcv_def)

lemma rcv_trans: "rcv w w1 a \<Longrightarrow> rcv w1 w2 b \<Longrightarrow> rcv w w2 (a @ b)"
  by (fastforce simp: rcv_def)

lemma rcv_append:
  "rcv w w1 bs \<Longrightarrow> trace w2 = trace w1 @ es \<Longrightarrow> quiet es \<Longrightarrow> rcv w w2 bs"
  by (auto simp: rcv_def quiet_def)

lemma rcv_clocked_in: "rcv w w' bs \<Longrightarrow> \<exists>es. trace w' = trace w @ es \<and> clocked_in es = bs"
  by (metis append_Nil2 clocked_in.simps(12) rcv_def)

lemma quiet_pieces [simp]:
  "quiet [Mode l m]" "quiet [Drive SCLK True, Drive SCLK False]" "quiet (vector_wave v n)"
  "quiet (bits_wave bs)" "quiet [Drive SCLK False]" "quiet [Drive XRES True, Delay 10, Drive XRES False]"
  by (simp_all add: quiet_def)

lemma pulse_trace: "trace (sclkLow (sclkHigh w)) = trace w @ [Drive SCLK True, Drive SCLK False]"
  by simp

lemma rcv_pins [simp]:
  "rcv w w1 bs \<Longrightarrow> rcv w (sdataHiZ w1) bs"
  "rcv w w1 bs \<Longrightarrow> rcv w (sdataPP w1) bs"
  "rcv w w1 bs \<Longrightarrow> rcv w (sclkLow w1) bs"
  "rcv w w1 bs \<Longrightarrow> rcv w (targetReStart w1) bs"
  "rcv w w1 bs \<Longrightarrow> rcv w (sclkLow (sclkHigh w1)) bs"
  "rcv w w1 bs \<Longrightarrow> rcv w (vsend v n w1) bs"
  "rcv w w1 bs \<Longrightarrow> rcv w (send_bits cs w1) bs"
  "rcv w w1 bs \<Longrightarrow> rcv w (byteSend x k w1) bs"
  by (auto simp: byteSend_bits
      intro: rcv_append [OF _ sdataHiZ_simps(1)] rcv_append [OF _ sdataPP_simps(1)]
        rcv_append [OF _ sclkLow_simps(1)] rcv_append [OF _ targetReStart_simps(1)]
        rcv_append [OF _ pulse_trace] rcv_append [OF _ vsend_simps(1)]
        rcv_append [OF _ send_bits_simps(1)])

lemma rcv_detect [simp]:
  "mode w1 SDATA = PAL_MODE_INPUT \<Longrightarrow> rcv w w1 bs \<Longrightarrow> rcv w (snd (transitionHiLoDetect tgt w1)) bs"
  using detect_quiet [of w1 tgt] rcv_append by blast

lemma rcv_receive:
  assumes "mode w1 SDATA = PAL_MODE_INPUT" and "rcv w w1 bs"
  shows "rcv w (snd (byteReceive tgt w1)) (bs @ msb_bits 8 (fst (byteReceive tgt w1)))"
proof (rule rcv_trans [OF assms(2)])
  have "msb_bits 8 (fst (byteReceive tgt w1)) = next_bits tgt 8 (trace w1)"
    using assms(1) by (simp add: msb_bits_msb_value del: msb_bits.simps)
  then show "rcv w1 (snd (byteReceive tgt w1)) (msb_bits 8 (fst (byteReceive tgt w1)))"
    using assms(1) by (simp add: rcv_def del: msb_bits.simps)
qed

definition pulse :: "target \<Rightarrow> pin_event list \<Rightarrow> bool" where
  "pulse tgt tr \<longleftrightarrow> (\<exists>i j. hi_lo_in_time tgt tr i j)"

lemma detect_fst [simp]:
  "mode w SDATA = PAL_MODE_INPUT \<Longrightarrow>
    fst (transitionHiLoDetect tgt w) = (if pulse tgt (trace w) then 0 else 1)"
  by (cases rule: transitionHiLoDetect_cases [of w tgt]) (auto simp: pulse_def)

end
