(* ===== verification/IsspTarget.thy ===== *)
theory IsspTarget
  imports IsspWire
begin

text \<open>
  The programming operations of \<open>hssp/issp.c\<close> (the \<open>target...\<close> functions), one definition
  each, in the order of the file.  The result of an operation is \<open>None\<close> if it reads past the
  end of one of its arrays and otherwise its C return value with the wire after it.  The
  global buffer \<open>targetDataOUT\<close> is the argument \<open>out\<close>.
\<close>

section \<open>Operations\<close>

text \<open>\<open>sclkHigh(); sclkLow();\<close>\<close>

definition clockPulse :: "wire \<Rightarrow> wire" where
  "clockPulse w = sclkLow (sclkHigh w)"

definition nth_checked :: "'a list \<Rightarrow> nat \<Rightarrow> 'a option" where
  "nth_checked xs i = (if i < length xs then Some (xs ! i) else None)"

definition targetInitialize :: "target \<Rightarrow> wire \<Rightarrow> (u8 \<times> wire) option" where
  "targetInitialize tgt w = do {
     let w = sdataHiZ w;
     let w = sclkLow w;
     let w = targetReStart w;
     w \<leftarrow> vectorSend init1_v num_bits_init1 w;
     let w = clockPulse w;
     let (r, w) = transitionHiLoDetect tgt w;
     if r \<noteq> 0 then Some (0x01, w)
     else do {
       w \<leftarrow> vectorSend wait_and_poll_end (ucast num_bits_wait_and_poll_end) w;
       w \<leftarrow> vectorSend init2_v num_bits_init2 w;
       let w = clockPulse w;
       let (r, w) = transitionHiLoDetect tgt w;
       if r \<noteq> 0 then Some (0x01, w)
       else do {
         w \<leftarrow> vectorSend wait_and_poll_end (ucast num_bits_wait_and_poll_end) w;
         w \<leftarrow> vectorSend init3_3v num_bits_init3_3v w;
         let w = clockPulse w;
         w \<leftarrow> vectorSend wait_and_poll_end (ucast num_bits_wait_and_poll_end) w;
         Some (0, w)
       }
     }
   }"

definition targetSiliconIDVerify :: "target \<Rightarrow> wire \<Rightarrow> (u8 \<times> wire) option" where
  "targetSiliconIDVerify tgt w = do {
     w \<leftarrow> vectorSend id_setup_v num_bits_id_setup w;
     let w = clockPulse w;
     let (r, w) = transitionHiLoDetect tgt w;
     if r \<noteq> 0 then Some (0x01, w)
     else do {
       w \<leftarrow> vectorSend wait_and_poll_end (ucast num_bits_wait_and_poll_end) w;
       w \<leftarrow> vectorSend read_id_v 11 w;
       let w = clockPulse w;
       let w = clockPulse w;
       let (targetID0, w) = byteReceive tgt w;
       let w = clockPulse w;
       w \<leftarrow> vectorSend (drop 2 read_id_v) 12 w;
       let w = clockPulse w;
       let w = clockPulse w;
       let (targetID1, w) = byteReceive tgt w;
       let w = clockPulse w;
       w \<leftarrow> vectorSend (drop 4 read_id_v) 1 w;
       id0 \<leftarrow> nth_checked target_id_v 0;
       id1 \<leftarrow> nth_checked target_id_v 1;
       if targetID0 \<noteq> id0 \<or> targetID1 \<noteq> id1 then Some (0x01, w) else Some (0x00, w)
     }
   }"

definition targetErase :: "target \<Rightarrow> wire \<Rightarrow> (u8 \<times> wire) option" where
  "targetErase tgt w = do {
     w \<leftarrow> vectorSend erase_all_v num_bits_erase_all w;
     let w = clockPulse w;
     let (r, w) = transitionHiLoDetect tgt w;
     if r \<noteq> 0 then Some (0x01, w)
     else do {
       w \<leftarrow> vectorSend wait_and_poll_end (ucast num_bits_wait_and_poll_end) w;
       Some (0x00, w)
     }
   }"

text \<open>The four \<open>byteSend\<close> calls of one WRITE-BYTE command, as both writing loops have them.\<close>

definition writeByte :: "u8 \<Rightarrow> u8 \<Rightarrow> wire \<Rightarrow> wire" where
  "writeByte targetAddress temp w =
     (let w = byteSend write_byte_start num_bits_write_byte_start w;
          w = byteSend targetAddress num_bits_address_length w;
          w = byteSend temp num_bits_data_length w
      in byteSend write_byte_end num_bits_write_byte_end w)"

function targetLoad_loop :: "u8 list \<Rightarrow> u8 \<Rightarrow> u8 \<Rightarrow> u16 \<Rightarrow> wire \<Rightarrow> (u16 \<times> wire) option" where
  "targetLoad_loop out targetAddress targetDataPtr checksum w =
     (if unat targetDataPtr < TARGET_DATABUFF_LEN then do {
        temp \<leftarrow> nth_checked out (unat targetDataPtr);
        targetLoad_loop out (targetAddress + 4) (targetDataPtr + 1) (checksum + ucast temp)
          (writeByte targetAddress temp w)
      }
      else Some (checksum, w))"
  by pat_completeness auto
termination
  by (relation "measure (\<lambda>(out, a, p, c, w). TARGET_DATABUFF_LEN - unat p)")
    (auto simp: TARGET_DATABUFF_LEN_def unat_word_ariths)

definition targetLoad :: "u8 list \<Rightarrow> wire \<Rightarrow> (u16 \<times> wire) option" where
  "targetLoad out w = targetLoad_loop out 0x00 0x00 0x0000 (sdataPP w)"

text \<open>The SET-BLOCK-NUM command, as \<open>targetBlockProgram\<close> and \<open>targetBlockVerify\<close> have it.\<close>

definition setBlockNumber :: "u8 \<Rightarrow> wire \<Rightarrow> wire option" where
  "setBlockNumber blockNumber w = do {
     w \<leftarrow> vectorSend set_block_number (ucast num_bits_set_block_number) w;
     let w = sdataPP w;
     let w = byteSend blockNumber num_bits_block_number_length w;
     Some (byteSend set_block_number_end num_bits_set_block_number_end w)
   }"

definition targetBlockProgram :: "target \<Rightarrow> u8 \<Rightarrow> wire \<Rightarrow> (u8 \<times> wire) option" where
  "targetBlockProgram tgt blockNumber w = do {
     w \<leftarrow> setBlockNumber blockNumber w;
     w \<leftarrow> vectorSend program_block num_bits_program_block w;
     let w = clockPulse w;
     let (r, w) = transitionHiLoDetect tgt w;
     if r \<noteq> 0 then Some (0x01, w)
     else do {
       w \<leftarrow> vectorSend wait_and_poll_end (ucast num_bits_wait_and_poll_end) w;
       Some (0x00, w)
     }
   }"

text \<open>One READ-BYTE command, as both verifying loops have it.\<close>

definition readByte :: "target \<Rightarrow> u8 \<Rightarrow> wire \<Rightarrow> (u8 \<times> wire) option" where
  "readByte tgt targetAddress w = do {
     w \<leftarrow> vectorSend read_byte_v (ucast num_bits_read_byte_start) w;
     let w = sdataPP w;
     let w = byteSend targetAddress num_bits_address_length w;
     let w = clockPulse w;
     let w = clockPulse w;
     let w = sdataHiZ w;
     let (targetDataIN, w) = byteReceive tgt w;
     let w = clockPulse w;
     w \<leftarrow> vectorSend (drop 1 read_byte_v) (ucast num_bits_read_byte_end) w;
     Some (targetDataIN, w)
   }"

text \<open>
  The verifying loop; \<open>len\<close> is \<open>TARGET_DATABUFF_LEN\<close> in \<open>targetBlockVerify\<close> and
  \<open>SECURITY_BYTES_PER_BANK\<close> in \<open>targetSecurityVerify\<close>, where the same loop stands again.

\<close>

function verify_loop :: "target \<Rightarrow> u8 list \<Rightarrow> u8 \<Rightarrow> u8 \<Rightarrow> u8 \<Rightarrow> wire \<Rightarrow> (u8 \<times> wire) option" where
  "verify_loop tgt out len targetAddress targetDataPtr w =
     (if targetDataPtr < len then do {
        (targetDataIN, w) \<leftarrow> readByte tgt targetAddress w;
        expected \<leftarrow> nth_checked out (unat targetDataPtr);
        if targetDataIN \<noteq> expected then Some (0x01, w)
        else verify_loop tgt out len (targetAddress + 4) (targetDataPtr + 1) w
      }
      else Some (0x00, w))"
  by pat_completeness auto
termination
proof (relation "measure (\<lambda>(tgt, out, len, a, p, w). unat len - unat p)", goal_cases)
  case 1
  show ?case by simp
next
  case (2 tgt out len a p w)
  then have "unat p < unat len" by (simp add: word_less_nat_alt)
  moreover have "unat len < 256" using unsigned_less [of len] by simp
  ultimately show ?case by (simp add: unat_word_ariths)
qed

definition targetBlockVerify :: "target \<Rightarrow> u8 list \<Rightarrow> u8 \<Rightarrow> wire \<Rightarrow> (u8 \<times> wire) option" where
  "targetBlockVerify tgt out blockNumber w = do {
     w \<leftarrow> setBlockNumber blockNumber w;
     w \<leftarrow> vectorSend verify_setup_v num_bits_verify_setup w;
     let w = clockPulse w;
     let (r, w) = transitionHiLoDetect tgt w;
     if r \<noteq> 0 then Some (0x01, w)
     else do {
       w \<leftarrow> vectorSend wait_and_poll_end (ucast num_bits_wait_and_poll_end) w;
       verify_loop tgt out (of_nat TARGET_DATABUFF_LEN) 0x00 0x00 w
     }
   }"

text \<open>\<open>acc\<close> is the value behind \<open>pAcc\<close>; it is returned after the C return value.\<close>

definition targetBankChecksumGet :: "target \<Rightarrow> u16 \<Rightarrow> wire \<Rightarrow> (u8 \<times> u16 \<times> wire) option" where
  "targetBankChecksumGet tgt acc w = do {
     w \<leftarrow> vectorSend checksum_v num_bits_checksum w;
     let w = clockPulse w;
     let (r, w) = transitionHiLoDetect tgt w;
     if r \<noteq> 0 then Some (0x01, acc, w)
     else do {
       w \<leftarrow> vectorSend wait_and_poll_end (ucast num_bits_wait_and_poll_end) w;
       w \<leftarrow> vectorSend read_checksum_v 11 w;
       let w = clockPulse w;
       let w = clockPulse w;
       let (b, w) = byteReceive tgt w;
       let acc = acc + push_bit 8 (ucast b);
       let w = clockPulse w;
       w \<leftarrow> vectorSend (drop 2 read_checksum_v) 12 w;
       let w = clockPulse w;
       let w = clockPulse w;
       let (b, w) = byteReceive tgt w;
       let acc = acc + ucast b;
       let w = clockPulse w;
       w \<leftarrow> vectorSend (drop 3 read_checksum_v) 1 w;
       Some (0x00, acc, w)
     }
   }"

function targetSecurityFlash_loop :: "u8 list \<Rightarrow> u8 \<Rightarrow> u8 \<Rightarrow> wire \<Rightarrow> wire option" where
  "targetSecurityFlash_loop out targetAddress targetDataPtr w =
     (if unat targetDataPtr < SECURITY_BYTES_PER_BANK then do {
        temp \<leftarrow> nth_checked out (unat targetDataPtr);
        targetSecurityFlash_loop out (targetAddress + 4) (targetDataPtr + 1)
          (writeByte targetAddress temp w)
      }
      else Some w)"
  by pat_completeness auto
termination
  by (relation "measure (\<lambda>(out, a, p, w). SECURITY_BYTES_PER_BANK - unat p)")
    (auto simp: SECURITY_BYTES_PER_BANK_def unat_word_ariths)

definition targetSecurityFlash :: "target \<Rightarrow> u8 list \<Rightarrow> wire \<Rightarrow> (u8 \<times> wire) option" where
  "targetSecurityFlash tgt out w = do {
     w \<leftarrow> targetSecurityFlash_loop out 0x00 0x00 (sdataPP w);
     w \<leftarrow> vectorSend security_v num_bits_security w;
     let w = clockPulse w;
     let (r, w) = transitionHiLoDetect tgt w;
     if r \<noteq> 0 then Some (0x01, w)
     else do {
       w \<leftarrow> vectorSend wait_and_poll_end (ucast num_bits_wait_and_poll_end) w;
       Some (0x00, w)
     }
   }"

definition targetSecurityVerify :: "target \<Rightarrow> u8 list \<Rightarrow> wire \<Rightarrow> (u8 \<times> wire) option" where
  "targetSecurityVerify tgt out w = do {
     w \<leftarrow> vectorSend securityVerification_v num_bits_securityVerification w;
     let w = clockPulse w;
     let (r, w) = transitionHiLoDetect tgt w;
     if r \<noteq> 0 then Some (0x01, w)
     else do {
       w \<leftarrow> vectorSend wait_and_poll_end (ucast num_bits_wait_and_poll_end) w;
       verify_loop tgt out (of_nat SECURITY_BYTES_PER_BANK) 0x00 0x00 w
     }
   }"

declare targetLoad_loop.simps [simp del]
declare verify_loop.simps [simp del]
declare targetSecurityFlash_loop.simps [simp del]

section \<open>Every vector of the protocol is long enough\<close>

text \<open>
  The lengths in bits are at most the bits stored, so each \<open>vectorSend\<close> of the operations is
  the total operation \<open>vsend\<close>.
\<close>

lemma protocol_vectors [wave_simps]:
  "vectorSend init1_v num_bits_init1 w = Some (vsend init1_v 396 w)"
  "vectorSend init2_v num_bits_init2 w = Some (vsend init2_v 286 w)"
  "vectorSend init3_3v num_bits_init3_3v w = Some (vsend init3_3v 836 w)"
  "vectorSend id_setup_v num_bits_id_setup w = Some (vsend id_setup_v 330 w)"
  "vectorSend erase_all_v num_bits_erase_all w = Some (vsend erase_all_v 308 w)"
  "vectorSend program_block num_bits_program_block w = Some (vsend program_block 308 w)"
  "vectorSend verify_setup_v num_bits_verify_setup w = Some (vsend verify_setup_v 264 w)"
  "vectorSend checksum_v num_bits_checksum w = Some (vsend checksum_v 286 w)"
  "vectorSend security_v num_bits_security w = Some (vsend security_v 308 w)"
  "vectorSend securityVerification_v num_bits_securityVerification w
     = Some (vsend securityVerification_v 308 w)"
  by (simp_all add: vectorSend_vsend vector_defs issp_num_defs)

lemma protocol_short_vectors [wave_simps]:
  "vectorSend wait_and_poll_end (ucast num_bits_wait_and_poll_end) w
     = Some (vsend wait_and_poll_end 40 w)"
  "vectorSend set_block_number (ucast num_bits_set_block_number) w
     = Some (vsend set_block_number 11 w)"
  "vectorSend read_byte_v (ucast num_bits_read_byte_start) w = Some (vsend read_byte_v 5 w)"
  "vectorSend (drop (Suc 0) read_byte_v) (ucast num_bits_read_byte_end) w
     = Some (vsend (drop 1 read_byte_v) 1 w)"
  "vectorSend read_id_v 11 w = Some (vsend read_id_v 11 w)"
  "vectorSend (drop 2 read_id_v) 12 w = Some (vsend (drop 2 read_id_v) 12 w)"
  "vectorSend (drop 4 read_id_v) 1 w = Some (vsend (drop 4 read_id_v) 1 w)"
  "vectorSend read_checksum_v 11 w = Some (vsend read_checksum_v 11 w)"
  "vectorSend (drop 2 read_checksum_v) 12 w = Some (vsend (drop 2 read_checksum_v) 12 w)"
  "vectorSend (drop 3 read_checksum_v) 1 w = Some (vsend (drop 3 read_checksum_v) 1 w)"
  by (simp_all add: vectorSend_vsend vector_defs issp_num_defs)

lemma clockPulse_simps [simp, pin_simps]:
  "trace (clockPulse w) = trace w @ [Drive SCLK True, Drive SCLK False]"
  "mode (clockPulse w) = mode w"
  by (simp_all add: clockPulse_def)

lemma target_id_checked [wave_simps]:
  "nth_checked target_id_v 0 = Some 0x00" "nth_checked target_id_v 1 = Some 0x38"
  "nth_checked target_id_v (Suc 0) = Some 0x38"
  by (simp_all add: nth_checked_def target_id_v_def)

lemma bus_inv_clockPulse [simp]: "bus_inv m w \<Longrightarrow> bus_inv m (clockPulse w)"
  by (simp add: clockPulse_def)

section \<open>Outcome of an operation\<close>

text \<open>
  What every operation guarantees whatever the target does: no array is read past its end, the
  C return value is 0 or 1, the bus discipline is kept, and SDATA is released at the end.
\<close>

definition op_safe :: "pad_mode \<Rightarrow> (u8 \<times> wire) option \<Rightarrow> bool" where
  "op_safe m res \<longleftrightarrow>
     (\<exists>r w. res = Some (r, w) \<and> (r = 0 \<or> r = 1) \<and> bus_inv m w \<and> mode w SDATA = PAL_MODE_INPUT)"

lemma op_safeI [intro]:
  "res = Some (r, w) \<Longrightarrow> r = 0 \<or> r = 1 \<Longrightarrow> bus_inv m w \<Longrightarrow> mode w SDATA = PAL_MODE_INPUT \<Longrightarrow>
    op_safe m res"
  by (auto simp: op_safe_def)

lemma op_safe_Some [simp]:
  "op_safe m (Some (r, w)) \<longleftrightarrow>
    (r = 0 \<or> r = 1) \<and> bus_inv m w \<and> mode w SDATA = PAL_MODE_INPUT"
  by (auto simp: op_safe_def)

lemma targetInitialize_safe: "bus_inv m w \<Longrightarrow> op_safe m (targetInitialize tgt w)"
  by (simp add: targetInitialize_def wave_simps split_beta Let_def)

lemma targetSiliconIDVerify_safe: "bus_inv m w \<Longrightarrow> op_safe m (targetSiliconIDVerify tgt w)"
  by (simp add: targetSiliconIDVerify_def wave_simps split_beta Let_def)

lemma targetErase_safe: "bus_inv m w \<Longrightarrow> op_safe m (targetErase tgt w)"
  by (simp add: targetErase_def wave_simps split_beta Let_def)

section \<open>WRITE-BYTE commands\<close>

text \<open>
  The 22 bits of one WRITE-BYTE command: the start code 10010, the address in the six upper
  bits of its byte, the data, and the end code 111.
\<close>

definition write_bits :: "u8 \<Rightarrow> u8 \<Rightarrow> bool list" where
  "write_bits a x = [True, False, False, True, False] @ msb_bits 6 a @ msb_bits 8 x @ [True, True, True]"

lemma write_code_bits:
  "msb_bits 5 0x90 = [True, False, False, True, False]" "msb_bits 3 0xE0 = [True, True, True]"
  by (simp_all add: numeral_eq_Suc shl1_def)

lemma writeByte_bits: "writeByte a x w = send_bits (write_bits a x) w"
proof -
  have "writeByte a x w
      = send_bits (msb_bits 5 0x90 @ msb_bits 6 a @ msb_bits 8 x @ msb_bits 3 0xE0) w"
    by (simp add: writeByte_def Let_def byteSend_bits send_bits_append issp_num_defs
        del: msb_bits.simps)
  then show ?thesis by (simp only: write_code_bits write_bits_def)
qed

lemma length_write_bits [simp]: "length (write_bits a x) = 22"
  by (simp add: write_bits_def)

fun writes_bits :: "u8 \<Rightarrow> u8 list \<Rightarrow> bool list" where
  "writes_bits a [] = []"
| "writes_bits a (x # xs) = write_bits a x @ writes_bits (a + 4) xs"

definition checksum_of :: "u8 list \<Rightarrow> u16" where
  "checksum_of xs = sum_list (map ucast xs)"

lemma targetLoad_loop_bits:
  assumes "TARGET_DATABUFF_LEN \<le> length out" and "unat p \<le> TARGET_DATABUFF_LEN"
  shows "targetLoad_loop out a p c w =
    (let xs = drop (unat p) (take TARGET_DATABUFF_LEN out)
     in Some (c + checksum_of xs, send_bits (writes_bits a xs) w))"
  using assms
proof (induction out a p c w rule: targetLoad_loop.induct)
  case (1 out a p c w)
  show ?case
  proof (cases "unat p < TARGET_DATABUFF_LEN")
    case True
    then have p: "unat (p + 1) = Suc (unat p)"
      by (simp add: TARGET_DATABUFF_LEN_def unat_word_ariths)
    have x: "nth_checked out (unat p) = Some (out ! unat p)"
      using True 1(2) by (simp add: nth_checked_def)
    have xs: "drop (unat p) (take TARGET_DATABUFF_LEN out)
        = out ! unat p # drop (unat (p + 1)) (take TARGET_DATABUFF_LEN out)"
      using True 1(2) p by (simp add: Cons_nth_drop_Suc [symmetric])
    show ?thesis
      using 1(1) [OF True x] 1(2) True p x
      by (simp add: targetLoad_loop.simps [of out a p] xs writeByte_bits send_bits_append
          checksum_of_def add.assoc Let_def)
  next
    case False
    then show ?thesis using 1(3)
      by (simp add: targetLoad_loop.simps [of out a p] checksum_of_def)
  qed
qed

lemma targetSecurityFlash_loop_bits:
  assumes "SECURITY_BYTES_PER_BANK \<le> length out" and "unat p \<le> SECURITY_BYTES_PER_BANK"
  shows "targetSecurityFlash_loop out a p w =
    Some (send_bits (writes_bits a (drop (unat p) (take SECURITY_BYTES_PER_BANK out))) w)"
  using assms
proof (induction out a p w rule: targetSecurityFlash_loop.induct)
  case (1 out a p w)
  show ?case
  proof (cases "unat p < SECURITY_BYTES_PER_BANK")
    case True
    then have p: "unat (p + 1) = Suc (unat p)"
      by (simp add: SECURITY_BYTES_PER_BANK_def unat_word_ariths)
    have x: "nth_checked out (unat p) = Some (out ! unat p)"
      using True 1(2) by (simp add: nth_checked_def)
    have xs: "drop (unat p) (take SECURITY_BYTES_PER_BANK out)
        = out ! unat p # drop (unat (p + 1)) (take SECURITY_BYTES_PER_BANK out)"
      using True 1(2) p by (simp add: Cons_nth_drop_Suc [symmetric])
    show ?thesis
      using 1(1) [OF True x] 1(2) True p x
      by (simp add: targetSecurityFlash_loop.simps [of out a p] xs writeByte_bits
          send_bits_append)
  next
    case False
    then show ?thesis using 1(3)
      by (simp add: targetSecurityFlash_loop.simps [of out a p])
  qed
qed

lemma targetLoad_bits:
  assumes "length out = TARGET_DATABUFF_LEN"
  shows "targetLoad out w = Some (checksum_of out, send_bits (writes_bits 0 out) (sdataPP w))"
  using targetLoad_loop_bits [of out 0 0 0 "sdataPP w"] assms
  by (simp add: targetLoad_def Let_def)

lemma rcv_clockPulse [simp]: "rcv w w1 bs \<Longrightarrow> rcv w (clockPulse w1) bs"
  by (simp add: clockPulse_def)

section \<open>READ-BYTE commands\<close>

lemma readByte_Some:
  "\<exists>v w'. readByte tgt a w = Some (v, w') \<and> rcv w w' (msb_bits 8 v) \<and>
    mode w' SDATA = PAL_MODE_INPUT \<and> (\<forall>m. bus_inv m w \<longrightarrow> bus_inv m w')"
proof -
  define w1 where "w1 = sdataHiZ (clockPulse (clockPulse (byteSend a num_bits_address_length
               (sdataPP (vsend read_byte_v 5 w)))))"
  let ?w' = "vsend (drop 1 read_byte_v) 1 (clockPulse (snd (byteReceive tgt w1)))"
  have m1: "mode w1 SDATA = PAL_MODE_INPUT" and r1: "rcv w w1 []"
    by (simp_all add: w1_def)
  have inv1: "bus_inv m w1" if "bus_inv m w" for m using that by (simp add: w1_def)
  have "readByte tgt a w = Some (fst (byteReceive tgt w1), ?w')"
    by (simp add: readByte_def wave_simps split_beta Let_def w1_def)
  moreover have "rcv w ?w' (msb_bits 8 (fst (byteReceive tgt w1)))"
    using rcv_receive [OF m1 r1] by (simp del: msb_bits.simps receive_snd)
  ultimately show ?thesis
    using m1 inv1 by (intro exI [of _ "fst (byteReceive tgt w1)"] exI [of _ ?w']) simp
qed

lemma verify_loop_bytes:
  assumes "unat len \<le> length out" and "unat p \<le> unat len" and "mode w SDATA = PAL_MODE_INPUT"
  shows "\<exists>r w' bs. verify_loop tgt out len a p w = Some (r, w') \<and> (r = 0 \<or> r = 1) \<and> rcv w w' bs \<and>
    (r = 0 \<longleftrightarrow> bs = vector_bits (drop (unat p) (take (unat len) out))) \<and>
    mode w' SDATA = PAL_MODE_INPUT \<and> (\<forall>m. bus_inv m w \<longrightarrow> bus_inv m w')"
  using assms
proof (induction tgt out len a p w rule: verify_loop.induct)
  case (1 tgt out len a p w)
  show ?case
  proof (cases "p < len")
    case True
    then have lt: "unat p < unat len" by (simp add: word_less_nat_alt)
    moreover have "unat len < 256" using unsigned_less [of len] by simp
    ultimately have p: "unat (p + 1) = Suc (unat p)" by (simp add: unat_word_ariths)
    obtain v w1 where w1: "readByte tgt a w = Some (v, w1)" "rcv w w1 (msb_bits 8 v)"
        "mode w1 SDATA = PAL_MODE_INPUT" "\<forall>m. bus_inv m w \<longrightarrow> bus_inv m w1"
      using readByte_Some by blast
    have x: "nth_checked out (unat p) = Some (out ! unat p)"
      using lt 1(2) by (simp add: nth_checked_def)
    have xs: "vector_bits (drop (unat p) (take (unat len) out))
        = msb_bits 8 (out ! unat p) @ vector_bits (drop (unat (p + 1)) (take (unat len) out))"
      using lt 1(2) p by (simp add: Cons_nth_drop_Suc [symmetric] del: msb_bits.simps)
    show ?thesis
    proof (cases "v = out ! unat p")
      case False
      then have "msb_bits 8 v \<noteq> msb_bits 8 (out ! unat p)" by (metis msb_value_msb_bits)
      then have "msb_bits 8 v \<noteq> vector_bits (drop (unat p) (take (unat len) out))"
        unfolding xs by (metis append_eq_append_conv append_Nil2 length_msb_bits)
      moreover have "verify_loop tgt out len a p w = Some (1, w1)"
        using False True w1(1) x by (simp add: verify_loop.simps [of tgt out len a p w])
      ultimately show ?thesis using w1(2-4) by auto
    next
      case eq: True
      have "verify_loop tgt out len a p w = verify_loop tgt out len (a + 4) (p + 1) w1"
        using eq True w1(1) x by (simp add: verify_loop.simps [of tgt out len a p w])
      moreover obtain r w' bs where
          "verify_loop tgt out len (a + 4) (p + 1) w1 = Some (r, w')" "r = 0 \<or> r = 1"
          "rcv w1 w' bs" "mode w' SDATA = PAL_MODE_INPUT" "\<forall>m. bus_inv m w1 \<longrightarrow> bus_inv m w'"
          "r = 0 \<longleftrightarrow> bs = vector_bits (drop (unat (p + 1)) (take (unat len) out))"
        using 1(1) [OF True w1(1) refl x] eq 1(2) lt p w1(3) by auto
      moreover have "rcv w w' (msb_bits 8 v @ bs)" using w1(2) \<open>rcv w1 w' bs\<close> by (rule rcv_trans)
      ultimately show ?thesis using eq w1(4) xs by auto
    qed
  next
    case False
    then have "unat p = unat len" using 1(3) by (simp add: word_less_nat_alt)
    then show ?thesis using False 1(4) rcv_refl [of w]
      by (auto simp: verify_loop.simps [of tgt out len a p w])
  qed
qed

section \<open>What the operations guarantee\<close>

lemma op_safe_cases:
  "op_safe m res \<Longrightarrow> (\<And>r w. res = Some (r, w) \<Longrightarrow> r = 0 \<or> r = 1 \<Longrightarrow> bus_inv m w \<Longrightarrow>
    mode w SDATA = PAL_MODE_INPUT \<Longrightarrow> P) \<Longrightarrow> P"
  by (auto simp: op_safe_def)

lemma setBlockNumber_Some:
  "setBlockNumber b w = Some (byteSend set_block_number_end num_bits_set_block_number_end
     (byteSend b num_bits_block_number_length (sdataPP (vsend set_block_number 11 w))))"
  by (simp add: setBlockNumber_def wave_simps Let_def)

lemma targetBlockProgram_safe: "bus_inv m w \<Longrightarrow> op_safe m (targetBlockProgram tgt b w)"
  by (simp add: targetBlockProgram_def setBlockNumber_Some wave_simps split_beta Let_def)

lemma targetSecurityFlash_safe:
  assumes "length out = TARGET_DATABUFF_LEN" and "bus_inv m w"
  shows "op_safe m (targetSecurityFlash tgt out w)"
proof -
  have "bus_inv m (send_bits bs (sdataPP w))" for bs using assms(2) by (simp add: bus_inv_def)
  then show ?thesis
    using assms(1) targetSecurityFlash_loop_bits [of out 0 0 "sdataPP w"]
    by (simp add: targetSecurityFlash_def issp_size_defs wave_simps split_beta Let_def)
qed

lemma verify_loop_safe:
  assumes "unat len \<le> length out" and "mode w SDATA = PAL_MODE_INPUT" and "bus_inv m w"
  shows "op_safe m (verify_loop tgt out len 0 0 w)"
  using verify_loop_bytes [of len out 0 w tgt 0] assms by (auto simp: op_safe_def)

lemma targetBlockVerify_safe:
  "length out = TARGET_DATABUFF_LEN \<Longrightarrow> bus_inv m w \<Longrightarrow> op_safe m (targetBlockVerify tgt out b w)"
  by (simp add: targetBlockVerify_def setBlockNumber_Some wave_simps split_beta Let_def
      verify_loop_safe issp_size_defs)

lemma targetSecurityVerify_safe:
  "length out = TARGET_DATABUFF_LEN \<Longrightarrow> bus_inv m w \<Longrightarrow> op_safe m (targetSecurityVerify tgt out w)"
  by (simp add: targetSecurityVerify_def wave_simps split_beta Let_def verify_loop_safe
      issp_size_defs)

lemma targetBankChecksumGet_safe:
  "bus_inv m w \<Longrightarrow>
    op_safe m (map_option (\<lambda>(r, acc, w). (r, w)) (targetBankChecksumGet tgt acc w))"
  by (simp add: targetBankChecksumGet_def wave_simps split_beta Let_def)

lemma targetLoad_safe:
  "length out = TARGET_DATABUFF_LEN \<Longrightarrow> bus_inv m w \<Longrightarrow>
    \<exists>w'. targetLoad out w = Some (checksum_of out, w') \<and> bus_inv m w'"
  by (auto simp: targetLoad_bits bus_inv_def)

text \<open>
  C3: No operation of the programmer ever reads past the end of one of its vectors or of the
  data buffer; each returns 0 or 1, samples SDATA only while the pad is an input and writes it
  only while it is driven, and (targetLoad apart) leaves SDATA released, whatever the target
  answers.
\<close>

theorem target_operations_safe:
  assumes "length out = TARGET_DATABUFF_LEN" and "bus_inv m w"
  shows "op_safe m (targetInitialize tgt w) \<and> op_safe m (targetSiliconIDVerify tgt w) \<and>
    op_safe m (targetErase tgt w) \<and> op_safe m (targetBlockProgram tgt b w) \<and>
    op_safe m (targetBlockVerify tgt out b w) \<and> op_safe m (targetSecurityFlash tgt out w) \<and>
    op_safe m (targetSecurityVerify tgt out w) \<and>
    op_safe m (map_option (\<lambda>(r, acc, w). (r, w)) (targetBankChecksumGet tgt acc w)) \<and>
    (\<exists>w'. targetLoad out w = Some (checksum_of out, w') \<and> bus_inv m w')"
  using assms
  by (simp_all add: targetInitialize_safe targetSiliconIDVerify_safe targetErase_safe
      targetBlockProgram_safe targetBlockVerify_safe targetSecurityFlash_safe
      targetSecurityVerify_safe targetBankChecksumGet_safe targetLoad_safe)

text \<open>A wire whose pads are released, before anything was done to it.\<close>

definition idle_wire :: wire where
  "idle_wire = \<lparr>latch = (\<lambda>_. False), mode = (\<lambda>_. PAL_MODE_INPUT), trace = []\<rparr>"

theorem target_operations_safe_witness:
  "op_safe PAL_MODE_INPUT (targetInitialize (\<lambda>_. True) idle_wire) \<and>
   op_safe PAL_MODE_INPUT (targetBlockVerify (\<lambda>_. True) (replicate 64 0) 5 idle_wire)"
  using target_operations_safe [of "replicate 64 0" PAL_MODE_INPUT idle_wire "\<lambda>_. True" 5]
  by (simp add: issp_size_defs bus_inv_def idle_wire_def)

text \<open>
  targetSiliconIDVerify returns 0 exactly when the 16 bits it clocks in from the target
  are the silicon ID of the table, 0x00 then 0x38; a target that never answers fails.
\<close>

theorem targetSiliconIDVerify_correct:
  "\<exists>r w' es. targetSiliconIDVerify tgt w = Some (r, w') \<and> (r = 0 \<or> r = 1) \<and>
     trace w' = trace w @ es \<and> (r = 0 \<longleftrightarrow> clocked_in es = vector_bits [0x00, 0x38])"
proof (cases "pulse tgt (trace (clockPulse (vsend id_setup_v 330 w)))")
  case False
  let ?w = "snd (transitionHiLoDetect tgt (clockPulse (vsend id_setup_v 330 w)))"
  have "targetSiliconIDVerify tgt w = Some (1, ?w)"
    using False by (simp add: targetSiliconIDVerify_def wave_simps split_beta Let_def)
  moreover have "rcv w ?w []" by simp
  then obtain es where "trace ?w = trace w @ es" "clocked_in es = []"
    using rcv_clocked_in by blast
  ultimately show ?thesis by (simp del: vector_bits_simps)
next
  case True
  define w1 where "w1 = clockPulse (clockPulse (vsend read_id_v 11 (vsend wait_and_poll_end 40
      (snd (transitionHiLoDetect tgt (clockPulse (vsend id_setup_v 330 w)))))))"
  define w2 where "w2 = clockPulse (clockPulse (vsend (drop 2 read_id_v) 12 (clockPulse
      (snd (byteReceive tgt w1)))))"
  let ?w = "vsend (drop 4 read_id_v) 1 (clockPulse (snd (byteReceive tgt w2)))"
  let ?b0 = "fst (byteReceive tgt w1)" and ?b1 = "fst (byteReceive tgt w2)"
  have m: "mode w1 SDATA = PAL_MODE_INPUT" "mode w2 SDATA = PAL_MODE_INPUT" and r: "rcv w w1 []"
    by (simp_all add: w1_def w2_def)
  have res: "targetSiliconIDVerify tgt w = Some (if ?b0 \<noteq> 0x00 \<or> ?b1 \<noteq> 0x38 then 1 else 0, ?w)"
    using True by (simp add: targetSiliconIDVerify_def wave_simps split_beta Let_def w1_def w2_def)
  have "rcv w w2 (msb_bits 8 ?b0)"
    using rcv_receive [OF m(1) r] by (simp add: w2_def del: msb_bits.simps receive_snd)
  from rcv_receive [OF m(2) this] have "rcv w ?w (msb_bits 8 ?b0 @ msb_bits 8 ?b1)"
    by (simp del: msb_bits.simps receive_snd)
  then obtain es where "trace ?w = trace w @ es" "clocked_in es = msb_bits 8 ?b0 @ msb_bits 8 ?b1"
    using rcv_clocked_in by blast
  moreover have "msb_bits 8 x = msb_bits 8 y \<longleftrightarrow> x = y" for x y by (metis msb_value_msb_bits)
  ultimately show ?thesis unfolding res by (auto simp del: msb_bits.simps receive_snd)
qed

text \<open>
  C7: targetBlockVerify returns 0 exactly when the bits clocked in from the target during the
  call are the 64 bytes of targetDataOUT; it reads no further than the first byte that differs,
  and it reads nothing when the target does not answer.
\<close>

theorem targetBlockVerify_correct:
  assumes "length out = TARGET_DATABUFF_LEN"
  shows "\<exists>r w' es. targetBlockVerify tgt out b w = Some (r, w') \<and> (r = 0 \<or> r = 1) \<and>
     trace w' = trace w @ es \<and> (r = 0 \<longleftrightarrow> clocked_in es = vector_bits out)"
proof -
  define w1 where "w1 = snd (transitionHiLoDetect tgt (clockPulse (vsend verify_setup_v 264
    (byteSend set_block_number_end num_bits_set_block_number_end
     (byteSend b num_bits_block_number_length (sdataPP (vsend set_block_number 11 w)))))))"
  have r1: "rcv w w1 []" by (simp add: w1_def)
  show ?thesis
  proof (cases "pulse tgt (trace (clockPulse (vsend verify_setup_v 264
      (byteSend set_block_number_end num_bits_set_block_number_end
       (byteSend b num_bits_block_number_length (sdataPP (vsend set_block_number 11 w)))))))")
    case False
    then have "targetBlockVerify tgt out b w = Some (1, w1)"
      by (simp add: targetBlockVerify_def setBlockNumber_Some wave_simps split_beta Let_def w1_def)
    moreover obtain es where "trace w1 = trace w @ es" "clocked_in es = []"
      using rcv_clocked_in [OF r1] by blast
    moreover have "out \<noteq> []" using assms by (auto simp: issp_size_defs)
    ultimately show ?thesis by simp
  next
    case True
    let ?w = "vsend wait_and_poll_end 40 w1"
    have eq: "targetBlockVerify tgt out b w = verify_loop tgt out 64 0 0 ?w"
      using True by (simp add: targetBlockVerify_def setBlockNumber_Some wave_simps split_beta
          Let_def w1_def issp_size_defs)
    obtain r w' bs where loop: "verify_loop tgt out 64 0 0 ?w = Some (r, w')" "r = 0 \<or> r = 1"
        "rcv ?w w' bs" "r = 0 \<longleftrightarrow> bs = vector_bits out"
      using verify_loop_bytes [of 64 out 0 ?w tgt 0] assms by (auto simp: issp_size_defs)
    have "rcv w ?w []" using r1 by simp
    from rcv_trans [OF this loop(3)] obtain es where "trace w' = trace w @ es" "clocked_in es = bs"
      using rcv_clocked_in by force
    then show ?thesis unfolding eq using loop by auto
  qed
qed

theorem targetBlockVerify_correct_witness:
  "\<exists>r w' es. targetBlockVerify (\<lambda>_. True) (replicate 64 0) 3 idle_wire = Some (r, w') \<and>
     (r = 0 \<or> r = 1) \<and> trace w' = trace idle_wire @ es \<and>
     (r = 0 \<longleftrightarrow> clocked_in es = vector_bits (replicate 64 0))"
  by (rule targetBlockVerify_correct) (simp add: issp_size_defs)

text \<open>
  targetSecurityVerify returns 0 exactly when the bits clocked in are the first 32 bytes of
  targetDataOUT, the security bytes of one bank.
\<close>

theorem targetSecurityVerify_correct:
  assumes "SECURITY_BYTES_PER_BANK \<le> length out"
  shows "\<exists>r w' es. targetSecurityVerify tgt out w = Some (r, w') \<and> (r = 0 \<or> r = 1) \<and>
     trace w' = trace w @ es \<and> (r = 0 \<longleftrightarrow> clocked_in es = vector_bits (take 32 out))"
proof -
  define w1 where "w1 = snd (transitionHiLoDetect tgt (clockPulse
    (vsend securityVerification_v 308 w)))"
  have r1: "rcv w w1 []" by (simp add: w1_def)
  show ?thesis
  proof (cases "pulse tgt (trace (clockPulse (vsend securityVerification_v 308 w)))")
    case False
    then have "targetSecurityVerify tgt out w = Some (1, w1)"
      by (simp add: targetSecurityVerify_def wave_simps split_beta Let_def w1_def)
    moreover obtain es where "trace w1 = trace w @ es" "clocked_in es = []"
      using rcv_clocked_in [OF r1] by blast
    moreover have "out \<noteq> []" using assms by (auto simp: issp_size_defs)
    ultimately show ?thesis by simp
  next
    case True
    let ?w = "vsend wait_and_poll_end 40 w1"
    have eq: "targetSecurityVerify tgt out w = verify_loop tgt out 32 0 0 ?w"
      using True by (simp add: targetSecurityVerify_def wave_simps split_beta Let_def w1_def
          issp_size_defs)
    obtain r w' bs where loop: "verify_loop tgt out 32 0 0 ?w = Some (r, w')" "r = 0 \<or> r = 1"
        "rcv ?w w' bs" "r = 0 \<longleftrightarrow> bs = vector_bits (take 32 out)"
      using verify_loop_bytes [of 32 out 0 ?w tgt 0] assms by (auto simp: issp_size_defs)
    have "rcv w ?w []" using r1 by simp
    from rcv_trans [OF this loop(3)] obtain es where "trace w' = trace w @ es" "clocked_in es = bs"
      using rcv_clocked_in by force
    then show ?thesis unfolding eq using loop by auto
  qed
qed

theorem targetSecurityVerify_correct_witness:
  "\<exists>r w' es. targetSecurityVerify (\<lambda>_. True) (replicate 64 0) idle_wire = Some (r, w') \<and>
     (r = 0 \<or> r = 1) \<and> trace w' = trace idle_wire @ es \<and>
     (r = 0 \<longleftrightarrow> clocked_in es = vector_bits (take 32 (replicate 64 0)))"
  by (rule targetSecurityVerify_correct) (simp add: issp_size_defs)

lemma targetBankChecksumGet_bits:
  "\<exists>r acc' w' es. targetBankChecksumGet tgt acc w = Some (r, acc', w') \<and> trace w' = trace w @ es \<and>
     (r = 0 \<and> (\<exists>hi lo. clocked_in es = msb_bits 8 hi @ msb_bits 8 lo \<and>
        acc' = acc + of_nat (256 * unat hi + unat lo)) \<or>
      r = 1 \<and> acc' = acc \<and> clocked_in es = [])"
proof (cases "pulse tgt (trace (clockPulse (vsend checksum_v 286 w)))")
  case False
  let ?w = "snd (transitionHiLoDetect tgt (clockPulse (vsend checksum_v 286 w)))"
  have "targetBankChecksumGet tgt acc w = Some (1, acc, ?w)"
    using False by (simp add: targetBankChecksumGet_def wave_simps split_beta Let_def)
  moreover have "rcv w ?w []" by simp
  then obtain es where "trace ?w = trace w @ es" "clocked_in es = []"
    using rcv_clocked_in by blast
  ultimately show ?thesis by auto
next
  case True
  define w1 where "w1 = clockPulse (clockPulse (vsend read_checksum_v 11 (vsend wait_and_poll_end 40
      (snd (transitionHiLoDetect tgt (clockPulse (vsend checksum_v 286 w)))))))"
  define w2 where "w2 = clockPulse (clockPulse (vsend (drop 2 read_checksum_v) 12 (clockPulse
      (snd (byteReceive tgt w1)))))"
  let ?w = "vsend (drop 3 read_checksum_v) 1 (clockPulse (snd (byteReceive tgt w2)))"
  let ?hi = "fst (byteReceive tgt w1)" and ?lo = "fst (byteReceive tgt w2)"
  have m: "mode w1 SDATA = PAL_MODE_INPUT" "mode w2 SDATA = PAL_MODE_INPUT" and r: "rcv w w1 []"
    by (simp_all add: w1_def w2_def)
  have "push_bit 8 (ucast ?hi) + ucast ?lo = (of_nat (256 * unat ?hi + unat ?lo) :: u16)"
    by (simp add: push_bit_eq_mult del: receive_snd)
  then have "targetBankChecksumGet tgt acc w = Some (0, acc + of_nat (256 * unat ?hi + unat ?lo), ?w)"
    using True by (simp add: targetBankChecksumGet_def wave_simps split_beta Let_def w1_def w2_def
        add.assoc del: receive_snd of_nat_add of_nat_mult)
  moreover have "rcv w w2 (msb_bits 8 ?hi)"
    using rcv_receive [OF m(1) r] by (simp add: w2_def del: msb_bits.simps receive_snd)
  from rcv_receive [OF m(2) this] have "rcv w ?w (msb_bits 8 ?hi @ msb_bits 8 ?lo)"
    by (simp del: msb_bits.simps receive_snd)
  then obtain es where "trace ?w = trace w @ es" "clocked_in es = msb_bits 8 ?hi @ msb_bits 8 ?lo"
    using rcv_clocked_in by blast
  ultimately show ?thesis by blast
qed

text \<open>
  targetBankChecksumGet either fails, leaves the accumulator alone and clocks nothing in, or
  adds to it the 16-bit big-endian number formed by the two bytes it clocks in (modulo 2^16).
\<close>

theorem targetBankChecksumGet_correct:
  "\<exists>r acc' w' es. targetBankChecksumGet tgt acc w = Some (r, acc', w') \<and> trace w' = trace w @ es \<and>
     (r = 0 \<and> (\<exists>hi lo. clocked_in es = msb_bits 8 hi @ msb_bits 8 lo \<and>
        acc' = acc + of_nat (256 * unat hi + unat lo)) \<or>
      r = 1 \<and> acc' = acc \<and> clocked_in es = [])"
  by (rule targetBankChecksumGet_bits)

end
