(* ===== verification/IsspSlave.thy ===== *)
theory IsspSlave
  imports IsspTarget
begin

text \<open>
  The receiving end of the wire as a specification: what a device sees that latches SDATA at
  each falling edge of SCLK while the programmer drives the line, and how it reads WRITE-BYTE
  commands out of those bits.  Against it the sending operations of \<open>hssp/issp.c\<close> are
  round trips: the device ends up with exactly the bits and bytes that were to be sent.
\<close>

section \<open>Bits latched by the device\<close>

text \<open>The arguments before the trace: is SDATA driven, its level, the level of SCLK.\<close>

fun latched :: "pad_mode \<Rightarrow> bool \<Rightarrow> bool \<Rightarrow> pin_event list \<Rightarrow> bool list" where
  "latched m d c [] = []"
| "latched m d c (Mode SDATA m' # es) = latched m' d c es"
| "latched m d c (Drive SDATA b # es) = latched m b c es"
| "latched m d c (Drive SCLK b # es) =
     (if c \<and> \<not> b \<and> m = PAL_MODE_OUTPUT_PUSHPULL then d # latched m d b es else latched m d b es)"
| "latched m d c (e # es) = latched m d c es"

lemma latched_bits_wave:
  "latched PAL_MODE_OUTPUT_PUSHPULL d False (bits_wave bs @ es)
    = bs @ latched PAL_MODE_OUTPUT_PUSHPULL (last (d # bs)) False es"
  by (induction bs arbitrary: d) (auto simp: bit_wave_def)

lemma latched_vector_wave: "latched m d False (vector_wave v n) = take n (vector_bits v)"
  by (simp add: vector_wave_def latched_bits_wave)

lemma word_of_nat_unat_eq: "unat (x :: u8) = k \<Longrightarrow> x = of_nat k"
  by auto

section \<open>WRITE-BYTE commands read back\<close>

text \<open>Address and data of each 22-bit command; \<open>None\<close> when the framing bits are wrong.\<close>

function decode_writes :: "bool list \<Rightarrow> (u8 \<times> u8) list option" where
  "decode_writes bs =
     (if bs = [] then Some []
      else if take 5 bs = [True, False, False, True, False]
              \<and> take 3 (drop 19 bs) = [True, True, True] then do {
        rest \<leftarrow> decode_writes (drop 22 bs);
        Some ((msb_value 0 (take 6 (drop 5 bs)), msb_value 0 (take 8 (drop 11 bs))) # rest)
      }
      else None)"
  by pat_completeness auto
termination
  by (relation "measure length") auto

declare decode_writes.simps [simp del]

lemma msb_value_six: "msb_value 0 (msb_bits 6 a) = drop_bit 2 a"
proof (rule bit_word_eqI)
  fix n assume "n < LENGTH(8)"
  then have "n < 8" by simp
  then show "bit (msb_value 0 (msb_bits 6 a)) n = bit (drop_bit 2 a) n"
    by (cases "n < 6")
      (auto simp: bit_msb_value nth_msb_bits bit_drop_bit_eq bit_imp_le_length
        dest: bit_imp_le_length simp del: msb_bits.simps)
qed

lemma decode_writes_step:
  "decode_writes (write_bits a x @ bs) = do {
     rest \<leftarrow> decode_writes bs;
     Some ((drop_bit 2 a, x) # rest)
   }"
proof -
  let ?b = "write_bits a x @ bs"
  have "take 5 ?b = [True, False, False, True, False]" "take 3 (drop 19 ?b) = [True, True, True]"
    "take 6 (drop 5 ?b) = msb_bits 6 a" "take 8 (drop 11 ?b) = msb_bits 8 x" "drop 22 ?b = bs"
    by (simp_all add: write_bits_def del: msb_bits.simps)
  moreover have "?b \<noteq> []" by (simp add: write_bits_def)
  ultimately show ?thesis
    by (subst decode_writes.simps) (simp only: msb_value_six msb_value_msb_bits if_False if_True simp_thms)
qed

text \<open>The addresses a block is written to: from \<open>a\<close> in steps of 4, the upper six bits of each.\<close>

fun addressed :: "u8 \<Rightarrow> u8 list \<Rightarrow> (u8 \<times> u8) list" where
  "addressed a [] = []"
| "addressed a (x # xs) = (drop_bit 2 a, x) # addressed (a + 4) xs"

lemma decode_writes_bits: "decode_writes (writes_bits a xs) = Some (addressed a xs)"
proof (induction xs arbitrary: a)
  case Nil
  then show ?case by (simp add: decode_writes.simps [of "[]"])
next
  case (Cons x xs)
  then show ?case by (simp add: decode_writes_step)
qed

lemma addressed_from:
  "k + length xs \<le> 64 \<Longrightarrow>
    addressed (of_nat (4 * k)) xs = zip (map of_nat [k..<k + length xs]) xs"
proof (induction xs arbitrary: k)
  case Nil
  then show ?case by simp
next
  case (Cons x xs)
  have k: "k < 64" using Cons.prems by simp
  then have four: "unat (of_nat (4 * k) :: u8) = 4 * k" by (subst unat_of_nat) simp
  have "take_bit 8 (4 * k) = 4 * k" using k by (intro take_bit_nat_eq_self) simp
  then have "unat (drop_bit 2 (of_nat (4 * k) :: u8)) = k"
    by (subst unsigned_drop_bit_eq) (simp only: four drop_bit_eq_div, simp)
  then have "drop_bit 2 (of_nat (4 * k) :: u8) = of_nat k"
    by (rule word_of_nat_unat_eq)
  moreover have "(of_nat (4 * k) :: u8) + 4 = of_nat (4 * Suc k)" by simp
  ultimately have "addressed (of_nat (4 * k)) (x # xs)
      = (of_nat k, x) # zip (map of_nat [Suc k..<Suc k + length xs]) xs"
    using Cons.IH [of "Suc k"] Cons.prems by (simp only: addressed.simps) simp
  moreover have "[k..<k + length (x # xs)] = k # [Suc k..<Suc k + length xs]"
    by (simp add: upt_conv_Cons del: upt_Suc)
  ultimately show ?case by (simp only: list.map zip_Cons_Cons)
qed

lemma addressed_block:
  "length xs \<le> 64 \<Longrightarrow> addressed 0 xs = zip (map of_nat [0..<length xs]) xs"
  using addressed_from [of 0 xs] by simp

section \<open>What the device sees of the sending operations\<close>

text \<open>
  C10: vectorSend fails exactly when the vector holds fewer bits than are to be sent;
  otherwise a device that latches SDATA on the falling edges of SCLK receives exactly the
  requested number of leading bits of the vector, and SDATA is released afterwards.
\<close>

theorem vectorSend_received:
  "(vectorSend v n w = None \<longleftrightarrow> 8 * length v < unat n) \<and>
   (vectorSend v n w = None \<or>
     (\<exists>w' es. vectorSend v n w = Some w' \<and> trace w' = trace w @ es \<and>
        latched m d False es = take (unat n) (vector_bits v) \<and> mode w' SDATA = PAL_MODE_INPUT))"
proof (cases "vectorSend v n w")
  case None
  then show ?thesis using vectorSend_None_iff [of v n w] by simp
next
  case (Some w')
  then show ?thesis
    using vectorSend_SomeD [OF Some] vectorSend_None_iff [of v n w]
    by (simp add: latched_vector_wave)
qed

text \<open>
  C6: targetLoad writes the whole buffer: reading the latched bits as WRITE-BYTE commands gives
  each of the 64 bytes once, in order, at the addresses 0 to 63, and the value returned is the
  sum of the bytes modulo 2^16.
\<close>

theorem targetLoad_roundtrip:
  assumes "length out = TARGET_DATABUFF_LEN"
  shows "\<exists>w' es. targetLoad out w = Some (of_nat (sum_list (map unat out)), w') \<and>
     trace w' = trace w @ es \<and>
     decode_writes (latched m d False es) = Some (zip (map of_nat [0..<64]) out)"
proof -
  let ?w' = "send_bits (writes_bits 0 out) (sdataPP w)"
  let ?es = "Mode SDATA PAL_MODE_OUTPUT_PUSHPULL # bits_wave (writes_bits 0 out)"
  have "latched m d False ?es = writes_bits 0 out"
    using latched_bits_wave [of d "writes_bits 0 out" "[]"] by simp
  then have "decode_writes (latched m d False ?es) = Some (zip (map of_nat [0..<64]) out)"
    using assms by (simp only: decode_writes_bits)
      (simp add: addressed_block issp_size_defs del: upt_Suc)
  moreover have "checksum_of xs = of_nat (sum_list (map unat xs))" for xs
    by (induction xs) (simp_all add: checksum_of_def)
  ultimately show ?thesis
    using assms by (auto simp: targetLoad_bits intro!: exI [of _ ?w'] exI [of _ ?es])
qed

theorem targetLoad_roundtrip_witness:
  "\<exists>w' es. targetLoad (replicate 64 7) idle_wire = Some (448, w') \<and>
     trace w' = trace idle_wire @ es \<and>
     decode_writes (latched PAL_MODE_INPUT False False es)
       = Some (zip (map of_nat [0..<64]) (replicate 64 7))"
  using targetLoad_roundtrip [of "replicate 64 7" idle_wire PAL_MODE_INPUT False]
  by (simp add: issp_size_defs sum_list_replicate del: upt_Suc)

lemma latched_vector_wave_append:
  "latched m d False (vector_wave v n @ es)
    = take n (vector_bits v)
        @ latched PAL_MODE_INPUT (last (d # take n (vector_bits v))) False es"
  by (simp add: vector_wave_def latched_bits_wave)

lemma latched_idle_clock:
  "latched PAL_MODE_INPUT d False (Drive SCLK True # Drive SCLK False # es)
    = latched PAL_MODE_INPUT d False es"
  by simp

lemma detect_result:
  assumes "mode w SDATA = PAL_MODE_INPUT"
  shows "transitionHiLoDetect tgt w
    = (if pulse tgt (trace w) then 0 else 1, snd (transitionHiLoDetect tgt w))"
  using detect_fst [OF assms, of tgt] by (metis prod.collapse)

lemma detect_appends:
  "mode w SDATA = PAL_MODE_INPUT \<Longrightarrow> \<exists>es. trace (snd (transitionHiLoDetect tgt w)) = trace w @ es"
  using detect_quiet by blast

text \<open>
  targetBlockProgram sends the SET-BLOCK-NUM command with the number of the block and then
  the whole program vector, gives the target one clock, and reports success exactly when the
  target then pulses SDATA high and low within the timeouts.
\<close>

theorem targetBlockProgram_correct:
  "\<exists>r w' es es'. targetBlockProgram tgt b w = Some (r, w') \<and> (r = 0 \<or> r = 1) \<and>
     trace w' = trace w @ es @ es' \<and>
     latched m d False es = take 11 (vector_bits [0x9F, 0x40]) @ msb_bits 8 b @ [True, True, True] @
       take 308 (vector_bits program_block) \<and>
     (r = 0 \<longleftrightarrow> pulse tgt (trace w @ es))"
proof -
  define w1 where "w1 = clockPulse (vsend program_block 308
    (byteSend set_block_number_end num_bits_set_block_number_end
     (byteSend b num_bits_block_number_length (sdataPP (vsend set_block_number 11 w)))))"
  define es where "es = vector_wave set_block_number 11 @ Mode SDATA PAL_MODE_OUTPUT_PUSHPULL #
    bits_wave (msb_bits 8 b @ msb_bits 3 0xE0) @ vector_wave program_block 308 @
    [Drive SCLK True, Drive SCLK False]"
  let ?w = "snd (transitionHiLoDetect tgt w1)"
  have m1: "mode w1 SDATA = PAL_MODE_INPUT" by (simp add: w1_def)
  have tr1: "trace w1 = trace w @ es"
    by (simp add: w1_def es_def byteSend_bits issp_num_defs del: msb_bits.simps)
  have setb: "take 11 (vector_bits set_block_number) = take 11 (vector_bits [0x9F, 0x40])"
    by (simp add: set_block_number_def vector_bits_def del: msb_bits.simps)
  have lat: "latched m d False es = take 11 (vector_bits set_block_number) @ msb_bits 8 b @
      msb_bits 3 0xE0 @ take 308 (vector_bits program_block)"
    by (simp add: es_def latched_vector_wave_append latched_bits_wave
        del: msb_bits.simps bits_wave_simps(3))
  obtain es0 where es0: "trace ?w = trace w1 @ es0" using detect_appends [OF m1] by blast
  have run: "targetBlockProgram tgt b w =
      (if pulse tgt (trace w1) then Some (0, vsend wait_and_poll_end 40 ?w) else Some (1, ?w))"
    using m1 by (simp add: targetBlockProgram_def setBlockNumber_Some wave_simps split_beta
        Let_def w1_def)
  show ?thesis
  proof (cases "pulse tgt (trace w1)")
    case True
    then show ?thesis using run tr1 lat setb es0 write_code_bits(2)
      by (intro exI [of _ 0] exI [of _ "vsend wait_and_poll_end 40 ?w"] exI [of _ es]
          exI [of _ "es0 @ vector_wave wait_and_poll_end 40"]) (simp del: msb_bits.simps)
  next
    case False
    then show ?thesis using run tr1 lat setb es0 write_code_bits(2)
      by (intro exI [of _ 1] exI [of _ ?w] exI [of _ es] exI [of _ es0])
        (simp del: msb_bits.simps)
  qed
qed

text \<open>
  C31: transitionHiLoDetect returns 0 exactly when the target shows a high level at one of the
  first 0x20001 samples and after it a low level at one of a further 0x20001 samples: the second
  wait has its own full timeout, so the call takes at most 2 * 0x20001 samples in all.
\<close>

theorem transitionHiLoDetect_correct:
  assumes "mode w SDATA = PAL_MODE_INPUT"
  shows "\<exists>r w' es. transitionHiLoDetect tgt w = (r, w') \<and> (r = 0 \<or> r = 1) \<and>
     trace w' = trace w @ es \<and> length es \<le> 2 * 0x20001 \<and>
     (r = 0 \<longleftrightarrow> (\<exists>i j. i \<le> 0x20000 \<and> j \<le> 0x20000 \<and> first_level tgt (trace w) True i \<and>
        first_level tgt (trace w @ misses True i @ [Sample True]) False j))"
proof -
  have T: "unat TRANSITION_TIMEOUT = 0x20000" by (simp add: TRANSITION_TIMEOUT_def)
  show ?thesis
  proof (cases rule: transitionHiLoDetect_cases [OF assms, of tgt])
    case (1 i j w')
    then have "length (hi_lo_wave i j) \<le> 2 * 0x20001"
      by (simp add: hi_lo_in_time_def T hi_lo_wave_def)
    then show ?thesis using 1 by (auto simp: hi_lo_in_time_def T)
  next
    case (2 w' es)
    then show ?thesis by (auto simp: hi_lo_in_time_def T)
  qed
qed

theorem transitionHiLoDetect_correct_witness:
  "\<exists>r w' es. transitionHiLoDetect (\<lambda>_. False) idle_wire = (r, w') \<and> (r = 0 \<or> r = 1) \<and>
     trace w' = trace idle_wire @ es \<and> length es \<le> 2 * 0x20001 \<and>
     (r = 0 \<longleftrightarrow> (\<exists>i j. i \<le> 0x20000 \<and> j \<le> 0x20000 \<and>
        first_level (\<lambda>_. False) (trace idle_wire) True i \<and>
        first_level (\<lambda>_. False) (trace idle_wire @ misses True i @ [Sample True]) False j))"
  by (rule transitionHiLoDetect_correct) (simp add: idle_wire_def)

end
