(* ===== verification/HsspMain.thy ===== *)
theory HsspMain
  imports IsspSlave
begin

text \<open>
  The command loop of the programmer (\<open>hssp/main.c\<close>): two bytes are read from the serial line,
  and a command letter followed by a newline starts one operation on the target, whose outcome
  is reported in a four byte reply.

  The serial driver is seen through its blocking calls: \<open>rx\<close> is what the host has sent and the
  program has not read yet, \<open>tx\<close> what the program has written.  A read that asks for more bytes
  than have arrived blocks; the run then stops in \<open>Blocked\<close>, to be continued when the host
  sends more.  The local \<open>checksum\<close> of \<open>main\<close> has no initialiser, so it is \<open>None\<close> until the
  first command 'c' assigns it; reading it before that, or an array past its end, is \<open>Undefined\<close>.
\<close>

section \<open>State and outcomes\<close>

record hssp =
  wires :: wire
  rx :: "u8 list"
  tx :: "u8 list"
  targetDataOUT :: "u8 list"
  checksum :: "u16 option"
  fRunMain :: bool

datatype outcome = Next hssp | Blocked hssp | Undefined

definition chnRead :: "nat \<Rightarrow> hssp \<Rightarrow> (u8 list \<times> hssp) option" where
  "chnRead n s =
     (if n \<le> length (rx s) then Some (take n (rx s), s\<lparr>rx := drop n (rx s)\<rparr>) else None)"

definition chnWrite :: "u8 list \<Rightarrow> hssp \<Rightarrow> hssp" where
  "chnWrite bs s = s\<lparr>tx := tx s @ bs\<rparr>"

definition newline :: u8 where "newline = 0x0A"

definition reply :: "char \<Rightarrow> char \<Rightarrow> u8 list" where
  "reply c r = [of_char c, newline, of_char r, newline]"

text \<open>Continue with the return value of an operation on the target and the wire after it.\<close>

definition with_target :: "(u8 \<times> wire) option \<Rightarrow> hssp \<Rightarrow> (u8 \<Rightarrow> hssp \<Rightarrow> outcome) \<Rightarrow> outcome" where
  "with_target res s k =
     (case res of None \<Rightarrow> Undefined | Some (r, w) \<Rightarrow> k r (s\<lparr>wires := w\<rparr>))"

section \<open>Commands\<close>

definition cmd_initialize :: "target \<Rightarrow> hssp \<Rightarrow> outcome" where
  "cmd_initialize tgt s =
     with_target (targetInitialize tgt (wires s)) s (\<lambda>r s.
       if r \<noteq> 0 then Next (chnWrite (reply CHR ''a'' CHR ''1'') s)
       else with_target (targetSiliconIDVerify tgt (wires s)) s (\<lambda>r s.
         if r \<noteq> 0 then Next (chnWrite (reply CHR ''a'' CHR ''2'') s)
         else Next (chnWrite (reply CHR ''a'' CHR ''0'') s)))"

definition cmd_erase :: "target \<Rightarrow> hssp \<Rightarrow> outcome" where
  "cmd_erase tgt s =
     with_target (targetErase tgt (wires s)) s (\<lambda>r s.
       if r \<noteq> 0 then Next (chnWrite (reply CHR ''b'' CHR ''1'') s)
       else Next (chnWrite (reply CHR ''b'' CHR ''0'') s))"

function program_loop :: "target \<Rightarrow> u8 \<Rightarrow> hssp \<Rightarrow> outcome" where
  "program_loop tgt blockNum s =
     (if unat blockNum < BLOCKS_PER_BANK then
        (case chnRead TARGET_DATABUFF_LEN s of
           None \<Rightarrow> Blocked s
         | Some (bs, s) \<Rightarrow>
             let s = s\<lparr>targetDataOUT := bs\<rparr> in
             (case targetLoad (targetDataOUT s) (wires s) of
                None \<Rightarrow> Undefined
              | Some (blockSum, w) \<Rightarrow>
                  let s = s\<lparr>wires := w, checksum := map_option (\<lambda>c. c + blockSum) (checksum s)\<rparr> in
                  (case targetBlockProgram tgt blockNum (wires s) of
                     None \<Rightarrow> Undefined
                   | Some (r, w) \<Rightarrow>
                       let s = s\<lparr>wires := w\<rparr> in
                       if r \<noteq> 0 then Next (chnWrite (reply CHR ''c'' CHR ''1'') s)
                       else if unat blockNum < BLOCKS_PER_BANK - 1
                         then program_loop tgt (blockNum + 1)
                                (chnWrite (reply CHR ''c'' CHR ''+'') s)
                         else program_loop tgt (blockNum + 1)
                                (chnWrite (reply CHR ''c'' CHR ''0'') s))))
      else Next s)"
  by pat_completeness auto
termination
  by (relation "measure (\<lambda>(tgt, b, s). BLOCKS_PER_BANK - unat b)")
    (auto simp: BLOCKS_PER_BANK_def unat_word_ariths)

declare program_loop.simps [simp del]

definition cmd_program :: "target \<Rightarrow> hssp \<Rightarrow> outcome" where
  "cmd_program tgt s = program_loop tgt 0 (s\<lparr>checksum := Some 0x0000\<rparr>)"

function verify_blocks :: "target \<Rightarrow> u8 \<Rightarrow> hssp \<Rightarrow> outcome" where
  "verify_blocks tgt blockNum s =
     (if unat blockNum < BLOCKS_PER_BANK then
        (case chnRead TARGET_DATABUFF_LEN s of
           None \<Rightarrow> Blocked s
         | Some (bs, s) \<Rightarrow>
             let s = s\<lparr>targetDataOUT := bs\<rparr> in
             (case targetBlockVerify tgt (targetDataOUT s) blockNum (wires s) of
                None \<Rightarrow> Undefined
              | Some (r, w) \<Rightarrow>
                  let s = s\<lparr>wires := w\<rparr> in
                  if r \<noteq> 0 then Next (chnWrite (reply CHR ''d'' CHR ''1'') s)
                  else if unat blockNum < BLOCKS_PER_BANK - 1
                    then verify_blocks tgt (blockNum + 1) (chnWrite (reply CHR ''d'' CHR ''+'') s)
                    else verify_blocks tgt (blockNum + 1) (chnWrite (reply CHR ''d'' CHR ''0'') s)))
      else Next s)"
  by pat_completeness auto
termination
  by (relation "measure (\<lambda>(tgt, b, s). BLOCKS_PER_BANK - unat b)")
    (auto simp: BLOCKS_PER_BANK_def unat_word_ariths)

declare verify_blocks.simps [simp del]

definition cmd_security_flash :: "target \<Rightarrow> hssp \<Rightarrow> outcome" where
  "cmd_security_flash tgt s =
     (case chnRead TARGET_DATABUFF_LEN s of
        None \<Rightarrow> Blocked s
      | Some (bs, s) \<Rightarrow>
          let s = s\<lparr>targetDataOUT := bs\<rparr> in
          with_target (targetSecurityFlash tgt (targetDataOUT s) (wires s)) s (\<lambda>r s.
            if r \<noteq> 0 then Next (chnWrite (reply CHR ''e'' CHR ''1'') s)
            else Next (chnWrite (reply CHR ''e'' CHR ''0'') s)))"

definition cmd_security_verify :: "target \<Rightarrow> hssp \<Rightarrow> outcome" where
  "cmd_security_verify tgt s =
     (case chnRead TARGET_DATABUFF_LEN s of
        None \<Rightarrow> Blocked s
      | Some (bs, s) \<Rightarrow>
          let s = s\<lparr>targetDataOUT := bs\<rparr> in
          with_target (targetSecurityVerify tgt (targetDataOUT s) (wires s)) s (\<lambda>r s.
            if r \<noteq> 0 then Next (chnWrite (reply CHR ''f'' CHR ''1'') s)
            else Next (chnWrite (reply CHR ''f'' CHR ''0'') s)))"

definition cmd_checksum :: "target \<Rightarrow> hssp \<Rightarrow> outcome" where
  "cmd_checksum tgt s =
     (case targetBankChecksumGet tgt 0x0000 (wires s) of
        None \<Rightarrow> Undefined
      | Some (r, targetChecksum, w) \<Rightarrow>
          let s = s\<lparr>wires := w\<rparr> in
          if r \<noteq> 0 then Next (chnWrite (reply CHR ''g'' CHR ''1'') s)
          else (case checksum s of
                  None \<Rightarrow> Undefined
                | Some c \<Rightarrow>
                    if targetChecksum \<noteq> c then Next (chnWrite (reply CHR ''g'' CHR ''2'') s)
                    else Next (chnWrite (reply CHR ''g'' CHR ''0'') s)))"

definition cmd_restart :: "hssp \<Rightarrow> outcome" where
  "cmd_restart s =
     Next (chnWrite (reply CHR ''x'' CHR ''0'') (s\<lparr>wires := targetReStart (wires s)\<rparr>))"

section \<open>The loop\<close>

text \<open>One pass of \<open>while (fRunMain)\<close>.\<close>

definition main_iter :: "target \<Rightarrow> hssp \<Rightarrow> outcome" where
  "main_iter tgt s =
     (case chnRead 1 s of
        None \<Rightarrow> Blocked s
      | Some (b, s) \<Rightarrow>
          let cmdID = hd b in
          (case chnRead 1 s of
             None \<Rightarrow> Blocked s
           | Some (b, s) \<Rightarrow>
               let cmdTrm = hd b in
               if of_char CHR ''a'' \<le> cmdID \<and> cmdID \<le> of_char CHR ''z'' \<and> cmdTrm = newline then
                 if cmdID = of_char CHR ''a'' then cmd_initialize tgt s
                 else if cmdID = of_char CHR ''b'' then cmd_erase tgt s
                 else if cmdID = of_char CHR ''c'' then cmd_program tgt s
                 else if cmdID = of_char CHR ''d'' then verify_blocks tgt 0 s
                 else if cmdID = of_char CHR ''e'' then cmd_security_flash tgt s
                 else if cmdID = of_char CHR ''f'' then cmd_security_verify tgt s
                 else if cmdID = of_char CHR ''g'' then cmd_checksum tgt s
                 else if cmdID = of_char CHR ''x'' then cmd_restart s
                 else if cmdID = of_char CHR ''z'' then Next (s\<lparr>fRunMain := False\<rparr>)
                 else Next s
               else Next s))"

section \<open>Invariant of the loop\<close>

definition main_inv :: "pad_mode \<Rightarrow> hssp \<Rightarrow> bool" where
  "main_inv m s \<longleftrightarrow> length (targetDataOUT s) = TARGET_DATABUFF_LEN \<and> bus_inv m (wires s)"

text \<open>
  \<open>replied c s s'\<close>: from \<open>s\<close> to \<open>s'\<close> nothing is read back into \<open>rx\<close> and the program only adds
  four byte replies to the command \<open>c\<close>.
\<close>

definition replied :: "char \<Rightarrow> hssp \<Rightarrow> hssp \<Rightarrow> bool" where
  "replied c s s' \<longleftrightarrow>
     length (rx s') \<le> length (rx s) \<and> (\<exists>rs. tx s' = tx s @ concat (map (reply c) rs))"

definition served :: "pad_mode \<Rightarrow> char \<Rightarrow> hssp \<Rightarrow> outcome \<Rightarrow> bool" where
  "served m c s res \<longleftrightarrow>
     (\<exists>s'. res = Blocked s' \<and> main_inv m s' \<and> replied c s s') \<or>
     (\<exists>s'. res = Next s' \<and> main_inv m s' \<and> replied c s s')"

lemma served_Blocked: "main_inv m s' \<Longrightarrow> replied c s s' \<Longrightarrow> served m c s (Blocked s')"
  by (simp add: served_def)

lemma served_Next: "main_inv m s' \<Longrightarrow> replied c s s' \<Longrightarrow> served m c s (Next s')"
  by (simp add: served_def)

lemma replied_refl [simp]: "replied c s s"
  by (auto simp: replied_def intro: exI [of _ "[]"])

lemma replied_trans: "replied c s s1 \<Longrightarrow> replied c s1 s2 \<Longrightarrow> replied c s s2"
  unfolding replied_def by (metis append_assoc concat_append le_trans map_append)

lemma replied_write [simp]: "replied c s (chnWrite (reply c r) s)"
  by (auto simp: replied_def chnWrite_def intro: exI [of _ "[r]"])

lemma replied_updates [simp]:
  "replied c s (s'\<lparr>wires := w\<rparr>) = replied c s s'" "replied c (s\<lparr>wires := w\<rparr>) s' = replied c s s'"
  "replied c s (s'\<lparr>checksum := k\<rparr>) = replied c s s'"
  "replied c (s\<lparr>checksum := k\<rparr>) s' = replied c s s'"
  "replied c s (s'\<lparr>targetDataOUT := bs\<rparr>) = replied c s s'"
  "replied c (s\<lparr>targetDataOUT := bs\<rparr>) s' = replied c s s'"
  "replied c s (s'\<lparr>fRunMain := f\<rparr>) = replied c s s'"
  by (simp_all add: replied_def)

lemma main_inv_updates [simp]:
  "main_inv m (s\<lparr>checksum := k\<rparr>) = main_inv m s" "main_inv m (chnWrite bs s) = main_inv m s"
  "main_inv m (s\<lparr>rx := bs\<rparr>) = main_inv m s" "main_inv m (s\<lparr>fRunMain := f\<rparr>) = main_inv m s"
  "main_inv m s \<Longrightarrow> main_inv m (s\<lparr>wires := w\<rparr>) = bus_inv m w"
  "main_inv m s \<Longrightarrow> main_inv m (s\<lparr>targetDataOUT := bs\<rparr>) \<longleftrightarrow> length bs = TARGET_DATABUFF_LEN"
  by (simp_all add: main_inv_def chnWrite_def)

lemma main_invD:
  "main_inv m s \<Longrightarrow> length (targetDataOUT s) = TARGET_DATABUFF_LEN" "main_inv m s \<Longrightarrow> bus_inv m (wires s)"
  by (simp_all add: main_inv_def)

lemma chnWrite_simps [simp]:
  "wires (chnWrite bs s) = wires s" "rx (chnWrite bs s) = rx s" "tx (chnWrite bs s) = tx s @ bs"
  "targetDataOUT (chnWrite bs s) = targetDataOUT s" "checksum (chnWrite bs s) = checksum s"
  "fRunMain (chnWrite bs s) = fRunMain s"
  by (simp_all add: chnWrite_def)

lemma chnRead_SomeD:
  "chnRead n s = Some (bs, s') \<Longrightarrow>
    length bs = n \<and> rx s = bs @ rx s' \<and> s' = s\<lparr>rx := drop n (rx s)\<rparr>"
  by (auto simp: chnRead_def split: if_splits)

lemma with_target_served:
  assumes "op_safe m res" and "main_inv m s0"
    and "\<And>r w. bus_inv m w \<Longrightarrow> served m c s (k r (s0\<lparr>wires := w\<rparr>))"
  shows "served m c s (with_target res s0 k)"
  using assms by (auto simp: op_safe_def with_target_def)

lemma served_reply [simp]:
  "main_inv m s' \<Longrightarrow> replied c s s' \<Longrightarrow> served m c s (Next (chnWrite (reply c r) s'))"
  by (rule served_Next) (auto intro: replied_trans)

lemma served_read:
  assumes "main_inv m s"
    and "\<And>bs. length bs = TARGET_DATABUFF_LEN \<Longrightarrow> rx s = bs @ drop TARGET_DATABUFF_LEN (rx s) \<Longrightarrow>
      served m c s (k bs (s\<lparr>rx := drop TARGET_DATABUFF_LEN (rx s)\<rparr>))"
  shows "served m c s (case chnRead TARGET_DATABUFF_LEN s of None \<Rightarrow> Blocked s | Some (bs, s) \<Rightarrow> k bs s)"
  using assms by (auto simp: chnRead_def served_Blocked)

lemma replied_rx [simp]: "replied c s (s\<lparr>rx := drop n (rx s)\<rparr>)"
  by (auto simp: replied_def intro: exI [of _ "[]"])

section \<open>Every command keeps the invariant and only replies\<close>

lemma cmd_initialize_served: "main_inv m s \<Longrightarrow> served m CHR ''a'' s (cmd_initialize tgt s)"
  unfolding cmd_initialize_def
  by (auto intro!: with_target_served targetInitialize_safe targetSiliconIDVerify_safe
      dest: main_invD)

lemma cmd_erase_served: "main_inv m s \<Longrightarrow> served m CHR ''b'' s (cmd_erase tgt s)"
  unfolding cmd_erase_def
  by (auto intro!: with_target_served targetErase_safe dest: main_invD)

lemma cmd_security_flash_served:
  "main_inv m s \<Longrightarrow> served m CHR ''e'' s (cmd_security_flash tgt s)"
  unfolding cmd_security_flash_def Let_def
  by (rule served_read, assumption, rule with_target_served)
    (auto intro!: targetSecurityFlash_safe dest: main_invD)

lemma cmd_security_verify_served:
  "main_inv m s \<Longrightarrow> served m CHR ''f'' s (cmd_security_verify tgt s)"
  unfolding cmd_security_verify_def Let_def
  by (rule served_read, assumption, rule with_target_served)
    (auto intro!: targetSecurityVerify_safe dest: main_invD)

lemma cmd_restart_served: "main_inv m s \<Longrightarrow> served m CHR ''x'' s (cmd_restart s)"
  by (simp add: cmd_restart_def main_invD)

lemma cmd_checksum_served:
  assumes "main_inv m s"
  shows "served m CHR ''g'' s (cmd_checksum tgt s) \<or> checksum s = None"
proof -
  from targetBankChecksumGet_safe [OF main_invD(2) [OF assms], of tgt 0]
  obtain r acc w where "targetBankChecksumGet tgt 0 (wires s) = Some (r, acc, w)" "bus_inv m w"
    by (auto simp: op_safe_def)
  then show ?thesis using assms
    by (cases "checksum s") (auto simp: cmd_checksum_def Let_def)
qed

section \<open>The block loops\<close>

text \<open>
  What a run of \<open>n\<close> blocks reports: a '+' for every block but the last, then \<open>r\<close>.
\<close>

definition block_replies :: "char \<Rightarrow> nat \<Rightarrow> char \<Rightarrow> u8 list" where
  "block_replies c n r = concat (replicate (n - 1) (reply c CHR ''+'')) @ reply c r"

text \<open>
  \<open>block_results f b w blocks\<close> carries out the operation \<open>f\<close> on the \<open>blocks\<close> in turn, numbering them
  from \<open>b\<close>, and collects what it returns for each of them, with the wires it leaves.
\<close>

fun block_results :: "(u8 \<Rightarrow> u8 list \<Rightarrow> wire \<Rightarrow> (u8 \<times> wire) option) \<Rightarrow> nat \<Rightarrow> wire \<Rightarrow>
    u8 list list \<Rightarrow> (u8 list \<times> wire) option" where
  "block_results f b w [] = Some ([], w)"
| "block_results f b w (bl # blocks) = do {
     (r, w) \<leftarrow> f (of_nat b) bl w;
     (rs, w) \<leftarrow> block_results f (Suc b) w blocks;
     Some (r # rs, w)
   }"

text \<open>
  \<open>blocks_run f c b s s' blocks\<close>: from block number \<open>b\<close> on, exactly the 64-byte \<open>blocks\<close> were
  read, at least one, and the operation \<open>f\<close> was carried out on each of them. It returned 0 for
  every block but the last one read, and each of these was answered by '+'. The last one is the
  last block of the bank, \<open>f\<close> returned 0 for it and the answer is '0', or \<open>f\<close> failed on it and the
  answer is '1'.
\<close>

definition blocks_run :: "(u8 \<Rightarrow> u8 list \<Rightarrow> wire \<Rightarrow> (u8 \<times> wire) option) \<Rightarrow> char \<Rightarrow> nat \<Rightarrow> hssp \<Rightarrow>
    hssp \<Rightarrow> u8 list list \<Rightarrow> bool" where
  "blocks_run f c b s s' blocks \<longleftrightarrow>
     blocks \<noteq> [] \<and> rx s = concat blocks @ rx s' \<and> list_all (\<lambda>bl. length bl = 64) blocks \<and>
     (\<exists>r. block_results f b (wires s) blocks = Some (replicate (length blocks - 1) 0 @ [r], wires s') \<and>
        (r = 0 \<and> b + length blocks = 128 \<and> tx s' = tx s @ block_replies c (length blocks) CHR ''0'' \<or>
         r \<noteq> 0 \<and> b + length blocks \<le> 128 \<and> tx s' = tx s @ block_replies c (length blocks) CHR ''1''))"

text \<open>
  \<open>blocks_wait f c b s s' blocks\<close>: the \<open>blocks\<close> read so far were all answered by '+', \<open>f\<close> having
  returned 0 for each, the bank is not finished and less than a block is left to read.
\<close>

definition blocks_wait :: "(u8 \<Rightarrow> u8 list \<Rightarrow> wire \<Rightarrow> (u8 \<times> wire) option) \<Rightarrow> char \<Rightarrow> nat \<Rightarrow> hssp \<Rightarrow>
    hssp \<Rightarrow> u8 list list \<Rightarrow> bool" where
  "blocks_wait f c b s s' blocks \<longleftrightarrow>
     rx s = concat blocks @ rx s' \<and> list_all (\<lambda>bl. length bl = 64) blocks \<and> length (rx s') < 64 \<and>
     b + length blocks < 128 \<and>
     block_results f b (wires s) blocks = Some (replicate (length blocks) 0, wires s') \<and>
     tx s' = tx s @ concat (replicate (length blocks) (reply c CHR ''+''))"

lemma blocks_run_last:
  assumes "rx s = bl @ rx s'" and "length bl = 64" and "f (of_nat b) bl (wires s) = Some (r, wires s')"
    and "tx s' = tx s @ reply c (if r = 0 then CHR ''0'' else CHR ''1'')"
    and "if r = 0 then Suc b = 128 else Suc b \<le> 128"
  shows "blocks_run f c b s s' [bl]"
  using assms by (auto simp: blocks_run_def block_replies_def split: if_splits)

lemma blocks_wait_Nil: "length (rx s) < 64 \<Longrightarrow> b < 128 \<Longrightarrow> blocks_wait f c b s s []"
  by (simp add: blocks_wait_def)

text \<open>A block done and answered by '+', in front of the rest of a run.\<close>

definition block_done :: "(u8 \<Rightarrow> u8 list \<Rightarrow> wire \<Rightarrow> (u8 \<times> wire) option) \<Rightarrow> char \<Rightarrow> nat \<Rightarrow> hssp \<Rightarrow>
    hssp \<Rightarrow> u8 list \<Rightarrow> bool" where
  "block_done f c b s s1 bl \<longleftrightarrow>
     rx s = bl @ rx s1 \<and> length bl = 64 \<and> f (of_nat b) bl (wires s) = Some (0, wires s1) \<and>
     tx s1 = tx s @ reply c CHR ''+''"

lemma blocks_run_step:
  assumes "block_done f c b s s1 bl" and "blocks_run f c (Suc b) s1 s' blocks"
  shows "blocks_run f c b s s' (bl # blocks)"
proof -
  obtain k where k: "length blocks = Suc k"
    using assms(2) by (cases blocks) (auto simp: blocks_run_def)
  have "block_replies c (length (bl # blocks)) r
      = reply c CHR ''+'' @ block_replies c (length blocks) r" for r
    by (simp add: block_replies_def k)
  then show ?thesis using assms by (auto simp: blocks_run_def block_done_def k)
qed

lemma blocks_wait_step:
  "block_done f c b s s1 bl \<Longrightarrow> blocks_wait f c (Suc b) s1 s' blocks \<Longrightarrow>
    blocks_wait f c b s s' (bl # blocks)"
  by (simp add: blocks_wait_def block_done_def)

lemma blocks_run_replied:
  assumes "blocks_run f c b s s' blocks"
  shows "replied c s s'" and "length (rx s') < length (rx s)"
proof -
  from assms obtain r where tx: "tx s' = tx s @ block_replies c (length blocks) r"
    and rx: "rx s = concat blocks @ rx s'" and b: "blocks \<noteq> []" "list_all (\<lambda>bl. length bl = 64) blocks"
    by (auto simp: blocks_run_def)
  have "block_replies c (length blocks) r
      = concat (map (reply c) (replicate (length blocks - 1) CHR ''+'' @ [r]))"
    by (simp add: block_replies_def)
  with tx have "\<exists>rs. tx s' = tx s @ concat (map (reply c) rs)" by metis
  then show "replied c s s'" using rx by (simp add: replied_def)
  from b have "concat blocks \<noteq> []" by (cases blocks) auto
  with rx show "length (rx s') < length (rx s)" by simp
qed

lemma blocks_wait_replied:
  assumes "blocks_wait f c b s s' blocks"
  shows "replied c s s'"
proof -
  have "concat (replicate n (reply c x)) = concat (map (reply c) (replicate n x))" for n x by simp
  with assms show ?thesis unfolding blocks_wait_def replied_def
    by (metis le_add2 length_append)
qed

text \<open>
  The contract both block loops of \<open>main\<close> keep, on which their behaviour rests: a pass waits when
  there is no whole block to read; otherwise it consumes one block, carries out the operation
  \<open>f\<close> of the command on it and then stops with the reply '1' when \<open>f\<close> failed, or goes on to the
  next block number after the reply '+' (or '0' for the last block). \<open>P d\<close> is what holds after the
  data \<open>d\<close> were consumed.
\<close>

locale block_loop =
  fixes run :: "u8 \<Rightarrow> hssp \<Rightarrow> outcome" and c :: char and P :: "u8 list \<Rightarrow> hssp \<Rightarrow> bool"
    and f :: "u8 \<Rightarrow> u8 list \<Rightarrow> wire \<Rightarrow> (u8 \<times> wire) option"
  assumes stop: "\<not> unat b < 128 \<Longrightarrow> run b s = Next s"
    and wait: "unat b < 128 \<Longrightarrow> length (rx s) < 64 \<Longrightarrow> run b s = Blocked s"
    and step: "unat b < 128 \<Longrightarrow> P d s \<Longrightarrow> 64 \<le> length (rx s) \<Longrightarrow>
      \<exists>bl s2 r. rx s = bl @ rx s2 \<and> length bl = 64 \<and> tx s2 = tx s \<and> P (d @ bl) s2 \<and>
         f b bl (wires s) = Some (r, wires s2) \<and>
         run b s = (if r \<noteq> 0 then Next (chnWrite (reply c CHR ''1'') s2)
           else run (b + 1) (chnWrite (reply c (if unat b < 127 then CHR ''+'' else CHR ''0'')) s2))"
    and written: "P d s \<Longrightarrow> P d (chnWrite bs s)"
begin

lemma outcome:
  "unat b < 128 \<Longrightarrow> P d s \<Longrightarrow>
    (\<exists>s' blocks. run b s = Blocked s' \<and> P (d @ concat blocks) s' \<and> blocks_wait f c (unat b) s s' blocks) \<or>
    (\<exists>s' blocks. run b s = Next s' \<and> P (d @ concat blocks) s' \<and> blocks_run f c (unat b) s s' blocks)"
proof (induction "128 - unat b" arbitrary: b d s)
  case 0
  then show ?case by simp
next
  case (Suc n)
  have b1: "unat (b + 1) = Suc (unat b)" using Suc.prems(1) by (simp add: unat_word_ariths)
  show ?case
  proof (cases "length (rx s) < 64")
    case True
    then show ?thesis using wait blocks_wait_Nil Suc.prems
      by (intro disjI1 exI [of _ s] exI [of _ "[]"]) simp
  next
    case False
    then have "64 \<le> length (rx s)" by simp
    from step [OF Suc.prems this] obtain bl s2 r
      where bl: "rx s = bl @ rx s2" "length bl = 64" "tx s2 = tx s" "P (d @ bl) s2"
        and f: "f (of_nat (unat b)) bl (wires s) = Some (r, wires s2)"
        and eq: "run b s = (if r \<noteq> 0 then Next (chnWrite (reply c CHR ''1'') s2)
          else run (b + 1) (chnWrite (reply c (if unat b < 127 then CHR ''+'' else CHR ''0'')) s2))"
      by auto
    consider (fail) "r \<noteq> 0" | (more) "r = 0" "unat b < 127" | (last) "r = 0" "unat b = 127"
      using Suc.prems(1) by linarith
    then show ?thesis
    proof cases
      case fail
      have "blocks_run f c (unat b) s (chnWrite (reply c CHR ''1'') s2) [bl]"
        using bl f fail Suc.prems(1) by (intro blocks_run_last) auto
      then show ?thesis using fail eq written [OF bl(4)] by fastforce
    next
      case last
      have "blocks_run f c (unat b) s (chnWrite (reply c CHR ''0'') s2) [bl]"
        using bl f last by (intro blocks_run_last) auto
      moreover have "run b s = Next (chnWrite (reply c CHR ''0'') s2)"
        using last eq b1 stop by simp
      ultimately show ?thesis using written [OF bl(4)] by fastforce
    next
      case more
      let ?s3 = "chnWrite (reply c CHR ''+'') s2"
      have "n = 128 - unat (b + 1)" "unat (b + 1) < 128" using Suc.hyps(2) b1 more by simp_all
      note ih = Suc.hyps(1) [OF this written [OF bl(4), of "reply c CHR ''+''"]]
      have "block_done f c (unat b) s ?s3 bl" using bl f more by (simp add: block_done_def)
      note steps = blocks_run_step [OF this] blocks_wait_step [OF this]
      have go: "run b s = run (b + 1) ?s3" using eq more by simp
      from ih show ?thesis
      proof (elim disjE exE conjE)
        fix s' blocks
        assume "run (b + 1) ?s3 = Blocked s'" "P ((d @ bl) @ concat blocks) s'"
          "blocks_wait f c (unat (b + 1)) ?s3 s' blocks"
        then show ?thesis using go steps(2) [of s' blocks] b1
          by (intro disjI1 exI [of _ s'] exI [of _ "bl # blocks"]) simp
      next
        fix s' blocks
        assume "run (b + 1) ?s3 = Next s'" "P ((d @ bl) @ concat blocks) s'"
          "blocks_run f c (unat (b + 1)) ?s3 s' blocks"
        then show ?thesis using go steps(1) [of s' blocks] b1
          by (intro disjI2 exI [of _ s'] exI [of _ "bl # blocks"]) simp
      qed
    qed
  qed
qed

lemma outcome_served:
  assumes "P d s" and "\<And>d s. P d s \<Longrightarrow> main_inv m s"
  shows "served m c s (run 0 s)"
  using outcome [of 0 d s] assms blocks_run_replied(1) blocks_wait_replied
  by (fastforce simp: served_def)

end

text \<open>
  What the two commands do with a block: loading the target's buffer and programming it into the
  block, and comparing the block with the data.
\<close>

definition program_block :: "target \<Rightarrow> u8 \<Rightarrow> u8 list \<Rightarrow> wire \<Rightarrow> (u8 \<times> wire) option" where
  "program_block tgt b bl w = do { (_, w) \<leftarrow> targetLoad bl w; targetBlockProgram tgt b w }"

definition verify_block :: "target \<Rightarrow> u8 \<Rightarrow> u8 list \<Rightarrow> wire \<Rightarrow> (u8 \<times> wire) option" where
  "verify_block tgt b bl w = targetBlockVerify tgt bl b w"

lemma chnRead_block:
  assumes "64 \<le> length (rx s)"
  obtains bl s1 where "chnRead TARGET_DATABUFF_LEN s = Some (bl, s1)" "length bl = 64"
    "rx s = bl @ rx s1" "s1 = s\<lparr>rx := drop 64 (rx s)\<rparr>"
proof (rule that)
  show "chnRead TARGET_DATABUFF_LEN s = Some (take 64 (rx s), s\<lparr>rx := drop 64 (rx s)\<rparr>)"
    using assms by (simp add: chnRead_def issp_size_defs)
  show "length (take 64 (rx s)) = 64" using assms by simp
  show "rx s = take 64 (rx s) @ rx (s\<lparr>rx := drop 64 (rx s)\<rparr>)" by simp
qed (rule refl)

definition program_track :: "pad_mode \<Rightarrow> u8 list \<Rightarrow> hssp \<Rightarrow> bool" where
  "program_track m d s \<longleftrightarrow> main_inv m s \<and> checksum s = Some (checksum_of d)"

lemma checksum_of_append: "checksum_of (xs @ ys) = checksum_of xs + checksum_of ys"
  by (simp add: checksum_of_def)

lemma program_loop_step:
  assumes "unat b < 128" and "program_track m d s" and "64 \<le> length (rx s)"
  shows "\<exists>bl s2 r. rx s = bl @ rx s2 \<and> length bl = 64 \<and> tx s2 = tx s \<and> program_track m (d @ bl) s2 \<and>
       program_block tgt b bl (wires s) = Some (r, wires s2) \<and>
       program_loop tgt b s = (if r \<noteq> 0 then Next (chnWrite (reply CHR ''c'' CHR ''1'') s2)
         else program_loop tgt (b + 1)
           (chnWrite (reply CHR ''c'' (if unat b < 127 then CHR ''+'' else CHR ''0'')) s2))"
proof -
  from assms(3) obtain bl s1 where read: "chnRead TARGET_DATABUFF_LEN s = Some (bl, s1)"
    and bl: "length bl = 64" "rx s = bl @ rx s1" and s1: "s1 = s\<lparr>rx := drop 64 (rx s)\<rparr>"
    by (rule chnRead_block)
  have inv: "main_inv m s" and chk: "checksum s1 = Some (checksum_of d)"
    using assms(2) by (simp_all add: program_track_def s1)
  obtain w where load: "targetLoad bl (wires s1) = Some (checksum_of bl, w)" "bus_inv m w"
    using targetLoad_safe [of bl m "wires s1"] main_invD [OF inv] bl(1) s1
    by (auto simp: issp_size_defs)
  obtain r w' where prog: "targetBlockProgram tgt b w = Some (r, w')" "bus_inv m w'"
    using targetBlockProgram_safe [OF load(2), of tgt b] by (auto simp: op_safe_def)
  let ?s2 = "s1\<lparr>targetDataOUT := bl, checksum := Some (checksum_of d + checksum_of bl), wires := w'\<rparr>"
  have "program_loop tgt b s = (if r \<noteq> 0 then Next (chnWrite (reply CHR ''c'' CHR ''1'') ?s2)
         else program_loop tgt (b + 1)
           (chnWrite (reply CHR ''c'' (if unat b < 127 then CHR ''+'' else CHR ''0'')) ?s2))"
    using assms(1) read load(1) prog(1) chk
    by (simp add: program_loop.simps [of tgt b s] BLOCKS_PER_BANK_def Let_def)
  moreover have "program_track m (d @ bl) ?s2"
    using inv bl(1) prog(2) by (simp add: s1 issp_size_defs program_track_def checksum_of_append)
  moreover have "rx s = bl @ rx ?s2" "tx ?s2 = tx s" using bl(2) by (simp_all add: s1)
  moreover have "program_block tgt b bl (wires s) = Some (r, wires ?s2)"
    using load(1) prog(1) by (simp add: program_block_def s1)
  ultimately show ?thesis using bl(1) by blast
qed

interpretation prog_run: block_loop "program_loop tgt" "CHR ''c''" "program_track m" "program_block tgt"
  for tgt m
proof
  show "program_loop tgt b s = Next s" if "\<not> unat b < 128" for b s
    using that by (simp add: program_loop.simps [of tgt b s] BLOCKS_PER_BANK_def)
  show "program_loop tgt b s = Blocked s" if "unat b < 128" "length (rx s) < 64" for b s
    using that by (simp add: program_loop.simps [of tgt b s] BLOCKS_PER_BANK_def chnRead_def issp_size_defs)
qed (use program_loop_step in \<open>auto simp: program_track_def\<close>)

lemma verify_blocks_step:
  assumes "unat b < 128" and "main_inv m s" and "64 \<le> length (rx s)"
  shows "\<exists>bl s2 r. rx s = bl @ rx s2 \<and> length bl = 64 \<and> tx s2 = tx s \<and> main_inv m s2 \<and>
       verify_block tgt b bl (wires s) = Some (r, wires s2) \<and>
       verify_blocks tgt b s = (if r \<noteq> 0 then Next (chnWrite (reply CHR ''d'' CHR ''1'') s2)
         else verify_blocks tgt (b + 1)
           (chnWrite (reply CHR ''d'' (if unat b < 127 then CHR ''+'' else CHR ''0'')) s2))"
proof -
  from assms(3) obtain bl s1 where read: "chnRead TARGET_DATABUFF_LEN s = Some (bl, s1)"
    and bl: "length bl = 64" "rx s = bl @ rx s1" and s1: "s1 = s\<lparr>rx := drop 64 (rx s)\<rparr>"
    by (rule chnRead_block)
  obtain r w where ver: "targetBlockVerify tgt bl b (wires s1) = Some (r, w)" "bus_inv m w"
    using targetBlockVerify_safe [of bl m "wires s1" tgt b] main_invD [OF assms(2)] bl(1) s1
    by (auto simp: issp_size_defs op_safe_def)
  let ?s2 = "s1\<lparr>targetDataOUT := bl, wires := w\<rparr>"
  have "verify_blocks tgt b s = (if r \<noteq> 0 then Next (chnWrite (reply CHR ''d'' CHR ''1'') ?s2)
         else verify_blocks tgt (b + 1)
           (chnWrite (reply CHR ''d'' (if unat b < 127 then CHR ''+'' else CHR ''0'')) ?s2))"
    using assms(1) read ver(1)
    by (simp add: verify_blocks.simps [of tgt b s] BLOCKS_PER_BANK_def Let_def)
  moreover have "main_inv m ?s2" using assms(2) bl(1) ver(2) by (simp add: s1 issp_size_defs)
  moreover have "rx s = bl @ rx ?s2" "tx ?s2 = tx s" using bl(2) by (simp_all add: s1)
  moreover have "verify_block tgt b bl (wires s) = Some (r, wires ?s2)"
    using ver(1) by (simp add: verify_block_def s1)
  ultimately show ?thesis using bl(1) by blast
qed

interpretation verify_run: block_loop "verify_blocks tgt" "CHR ''d''" "\<lambda>_. main_inv m" "verify_block tgt"
  for tgt m
proof
  show "verify_blocks tgt b s = Next s" if "\<not> unat b < 128" for b s
    using that by (simp add: verify_blocks.simps [of tgt b s] BLOCKS_PER_BANK_def)
  show "verify_blocks tgt b s = Blocked s" if "unat b < 128" "length (rx s) < 64" for b s
    using that by (simp add: verify_blocks.simps [of tgt b s] BLOCKS_PER_BANK_def chnRead_def issp_size_defs)
qed (use verify_blocks_step in auto)

lemma cmd_program_served: "main_inv m s \<Longrightarrow> served m CHR ''c'' s (cmd_program tgt s)"
  using prog_run.outcome_served [of m "[]" "s\<lparr>checksum := Some 0\<rparr>" m tgt]
  by (auto simp: cmd_program_def program_track_def checksum_of_def served_def)

lemma cmd_verify_served: "main_inv m s \<Longrightarrow> served m CHR ''d'' s (verify_blocks tgt 0 s)"
  using verify_run.outcome_served by blast

section \<open>One pass of the main loop\<close>

lemma main_iter_short:
  assumes "length (rx s) < 2"
  shows "main_iter tgt s = Blocked (s\<lparr>rx := []\<rparr>)"
proof -
  consider "rx s = []" | x where "rx s = [x]"
    using assms by (cases "rx s") (auto simp: Suc_le_eq)
  then show ?thesis
    by cases (auto simp: main_iter_def chnRead_def intro: hssp.equality)
qed

lemma main_iter_two:
  assumes "rx s = x # y # rest"
  shows "main_iter tgt s =
    (let s = s\<lparr>rx := rest\<rparr> in
     if of_char CHR ''a'' \<le> x \<and> x \<le> of_char CHR ''z'' \<and> y = newline then
       if x = of_char CHR ''a'' then cmd_initialize tgt s
       else if x = of_char CHR ''b'' then cmd_erase tgt s
       else if x = of_char CHR ''c'' then cmd_program tgt s
       else if x = of_char CHR ''d'' then verify_blocks tgt 0 s
       else if x = of_char CHR ''e'' then cmd_security_flash tgt s
       else if x = of_char CHR ''f'' then cmd_security_verify tgt s
       else if x = of_char CHR ''g'' then cmd_checksum tgt s
       else if x = of_char CHR ''x'' then cmd_restart s
       else if x = of_char CHR ''z'' then Next (s\<lparr>fRunMain := False\<rparr>)
       else Next s
     else Next s)"
  using assms by (simp add: main_iter_def chnRead_def Let_def del: of_char_Char)

text \<open>
  \<open>pass_ok m s res\<close>: the outcome \<open>res\<close> of one pass from \<open>s\<close> is defined, keeps the invariant,
  only adds four byte replies to one command letter, and a completed pass has consumed input.
\<close>

definition pass_ok :: "pad_mode \<Rightarrow> hssp \<Rightarrow> outcome \<Rightarrow> bool" where
  "pass_ok m s res \<longleftrightarrow>
     (\<exists>s' c. res = Blocked s' \<and> main_inv m s' \<and> replied c s s') \<or>
     (\<exists>s' c. res = Next s' \<and> main_inv m s' \<and> replied c s s' \<and> length (rx s') < length (rx s))"

lemma served_pass_ok:
  assumes "served m c (s\<lparr>rx := rest\<rparr>) res" and "rx s = x # y # rest"
  shows "pass_ok m s res"
proof -
  have "replied c s s' \<and> length (rx s') < length (rx s)" if "replied c (s\<lparr>rx := rest\<rparr>) s'" for s'
    using that assms(2) by (auto simp: replied_def)
  then show ?thesis using assms(1) by (fastforce simp: served_def pass_ok_def)
qed

lemma main_iter_pass_ok:
  assumes "main_inv m s"
  shows "pass_ok m s (main_iter tgt s) \<or>
    (\<exists>rest. rx s = of_char CHR ''g'' # newline # rest) \<and> checksum s = None"
proof (cases "length (rx s) < 2")
  case True
  have "replied c s (s\<lparr>rx := []\<rparr>)" for c by (auto simp: replied_def intro: exI [of _ "[]"])
  then show ?thesis using main_iter_short [OF True, of tgt] assms by (simp add: pass_ok_def)
next
  case False
  then obtain x y rest where rx: "rx s = x # y # rest"
    by (metis Suc_le_length_iff not_less numeral_2_eq_2)
  let ?s = "s\<lparr>rx := rest\<rparr>"
  have inv: "main_inv m ?s" using assms by simp
  have silent: "pass_ok m s (Next ?s)" "pass_ok m s (Next (?s\<lparr>fRunMain := False\<rparr>))"
    using inv rx by (auto intro!: served_pass_ok [of m "CHR ''z''", OF served_Next])
  note served = served_pass_ok [OF cmd_initialize_served [OF inv] rx]
    served_pass_ok [OF cmd_erase_served [OF inv] rx] served_pass_ok [OF cmd_program_served [OF inv] rx]
    served_pass_ok [OF cmd_verify_served [OF inv] rx]
    served_pass_ok [OF cmd_security_flash_served [OF inv] rx]
    served_pass_ok [OF cmd_security_verify_served [OF inv] rx]
    served_pass_ok [OF cmd_restart_served [OF inv] rx]
  have chk: "pass_ok m s (cmd_checksum tgt ?s) \<or> checksum s = None"
    using cmd_checksum_served [OF inv, of tgt] served_pass_ok [OF _ rx] by auto
  show ?thesis
    unfolding main_iter_two [OF rx] Let_def
    using served silent chk rx by (auto simp del: of_char_Char)
qed

section \<open>The whole loop\<close>

text \<open>
  A completed pass has consumed input and keeps an assigned checksum, whatever the state it
  started in; \<open>ini\<close> says that the checksum was assigned.
\<close>

definition eats :: "nat \<Rightarrow> bool \<Rightarrow> outcome \<Rightarrow> bool" where
  "eats n ini res \<longleftrightarrow>
     (\<forall>s'. res = Next s' \<longrightarrow> length (rx s') \<le> n \<and> (ini \<longrightarrow> checksum s' \<noteq> None))"

lemma eats_simps [simp]:
  "eats n ini (Next s) \<longleftrightarrow> length (rx s) \<le> n \<and> (ini \<longrightarrow> checksum s \<noteq> None)"
  "eats n ini (Blocked s)" "eats n ini Undefined"
  by (auto simp: eats_def)

lemma eats_with_target:
  "(\<And>r w. eats n ini (k r (s\<lparr>wires := w\<rparr>))) \<Longrightarrow> eats n ini (with_target res s k)"
  by (auto simp: with_target_def split: option.splits)

lemma eats_program:
  "length (rx s) \<le> n \<Longrightarrow> (ini \<Longrightarrow> checksum s \<noteq> None) \<Longrightarrow> eats n ini (program_loop tgt b s)"
proof (induction tgt b s rule: program_loop.induct)
  case (1 tgt b s)
  then show ?case
    by (auto simp: program_loop.simps [of tgt b s] Let_def chnRead_def split: option.splits)
qed

lemma eats_verify:
  "length (rx s) \<le> n \<Longrightarrow> (ini \<Longrightarrow> checksum s \<noteq> None) \<Longrightarrow> eats n ini (verify_blocks tgt b s)"
proof (induction tgt b s rule: verify_blocks.induct)
  case (1 tgt b s)
  then show ?case
    by (auto simp: verify_blocks.simps [of tgt b s] Let_def chnRead_def split: option.splits)
qed

lemma eats_commands:
  assumes "length (rx s) \<le> n" and "ini \<Longrightarrow> checksum s \<noteq> None"
  shows "eats n ini (cmd_initialize tgt s)" "eats n ini (cmd_erase tgt s)"
    "eats n ini (cmd_program tgt s)" "eats n ini (cmd_security_flash tgt s)"
    "eats n ini (cmd_security_verify tgt s)" "eats n ini (cmd_checksum tgt s)"
    "eats n ini (cmd_restart s)"
  using assms
  by (auto simp: cmd_initialize_def cmd_erase_def cmd_program_def cmd_security_flash_def
      cmd_security_verify_def cmd_checksum_def cmd_restart_def chnRead_def Let_def
      intro!: eats_with_target eats_program split: option.splits)

lemma main_iter_eats:
  assumes "main_iter tgt s = Next s'"
  shows "length (rx s') < length (rx s)" and "checksum s \<noteq> None \<Longrightarrow> checksum s' \<noteq> None"
proof -
  from assms have "\<not> length (rx s) < 2" using main_iter_short [of s tgt] by auto
  then obtain x y rest where rx: "rx s = x # y # rest"
    by (metis Suc_le_length_iff not_less numeral_2_eq_2)
  have "eats (length rest) (checksum s \<noteq> None) (main_iter tgt s)"
    unfolding main_iter_two [OF rx] Let_def
    by (simp add: eats_commands eats_verify del: of_char_Char)
  with assms rx show "length (rx s') < length (rx s)"
    and "checksum s \<noteq> None \<Longrightarrow> checksum s' \<noteq> None" by simp_all
qed

text \<open>
  \<open>while (fRunMain)\<close>, run on the input that has arrived: it ends in \<open>Next\<close> when a command
  cleared the flag, and in \<open>Blocked\<close> when the program waits for the host.
\<close>

function main_loop :: "target \<Rightarrow> hssp \<Rightarrow> outcome" where
  "main_loop tgt s =
     (if fRunMain s then
        (case main_iter tgt s of
           Next s' \<Rightarrow> main_loop tgt s'
         | Blocked s' \<Rightarrow> Blocked s'
         | Undefined \<Rightarrow> Undefined)
      else Next s)"
  by pat_completeness auto
termination
  by (relation "measure (\<lambda>(tgt, s). length (rx s))") (auto simp: main_iter_eats)

declare main_loop.simps [simp del]

section \<open>Properties of the command loop\<close>

text \<open>The state after start-up: nothing read or written, the checksum not assigned.\<close>

definition power_on :: "u8 list \<Rightarrow> hssp" where
  "power_on input =
     \<lparr>wires = idle_wire, rx = input, tx = [], targetDataOUT = replicate 64 0, checksum = None,
      fRunMain = True\<rparr>"

lemma power_on_inv [simp]: "main_inv PAL_MODE_INPUT (power_on input)"
  by (simp add: main_inv_def power_on_def issp_size_defs bus_inv_def idle_wire_def)

text \<open>
  A pass of the command loop never reads outside an array, keeps the data buffer at 64 bytes
  and the bus discipline, answers only with four byte replies to a single command letter, and
  consumes input if it completes; the one exception is the command 'g' before any 'c', which
  reads the checksum variable that nothing has assigned.
\<close>

theorem main_iter_defined:
  assumes "main_inv m s"
  shows "pass_ok m s (main_iter tgt s) \<or>
    (\<exists>rest. rx s = of_char CHR ''g'' # newline # rest) \<and> checksum s = None"
  using assms by (rule main_iter_pass_ok)

theorem main_iter_defined_witness:
  "pass_ok PAL_MODE_INPUT (power_on [of_char CHR ''a'', newline])
     (main_iter (\<lambda>_. True) (power_on [of_char CHR ''a'', newline]))"
  using main_iter_defined [OF power_on_inv, of "[of_char CHR ''a'', newline]" "\<lambda>_. True"]
  by (simp add: power_on_def)

text \<open>
  C2: Once the checksum has been assigned, the whole command loop runs without undefined
  behaviour on any input and any target: it ends stopped by the command 'z' or waiting for
  the host.
\<close>

theorem main_loop_defined:
  assumes "main_inv m s" and "checksum s \<noteq> None"
  shows "\<exists>s'. main_inv m s' \<and> (main_loop tgt s = Blocked s' \<or>
    main_loop tgt s = Next s' \<and> \<not> fRunMain s')"
  using assms
proof (induction tgt s rule: main_loop.induct)
  case (1 tgt s)
  show ?case
  proof (cases "fRunMain s")
    case False
    then show ?thesis using 1(2) by (auto simp: main_loop.simps [of tgt s])
  next
    case True
    from main_iter_pass_ok [OF 1(2), of tgt] 1(3) show ?thesis
      using 1(1) [OF True] True main_iter_eats(2) [of tgt s]
      by (fastforce simp: main_loop.simps [of tgt s] pass_ok_def)
  qed
qed

theorem main_loop_defined_witness:
  "\<exists>s'. main_inv PAL_MODE_INPUT s' \<and>
     (main_loop (\<lambda>_. True) ((power_on [103, 10])\<lparr>checksum := Some 0\<rparr>) = Blocked s' \<or>
      main_loop (\<lambda>_. True) ((power_on [103, 10])\<lparr>checksum := Some 0\<rparr>) = Next s' \<and> \<not> fRunMain s')"
  by (rule main_loop_defined) simp_all

text \<open>A target that answers every wait at once: high first, low after a high sample.\<close>

definition responder :: target where
  "responder tr \<longleftrightarrow> tr = [] \<or> last tr \<noteq> Sample True"

lemma responder_pulse: "responder tr \<Longrightarrow> pulse responder tr"
  unfolding pulse_def hi_lo_in_time_def
  by (rule exI [of _ 0], rule exI [of _ 0]) (simp add: first_level_0 responder_def)

text \<open>
  C38: As the first command after start-up, 'g' on a target that answers reads the
  uninitialised checksum variable of main: its behaviour is undefined.
\<close>

theorem checksum_read_uninitialised:
  "main_loop responder (power_on (of_char CHR ''g'' # newline # rest)) = Undefined"
proof -
  let ?s = "power_on (of_char CHR ''g'' # newline # rest)"
  have "responder (trace (clockPulse (vsend checksum_v 286 (wires (?s\<lparr>rx := rest\<rparr>)))))"
    by (simp add: responder_def)
  then have "cmd_checksum responder (?s\<lparr>rx := rest\<rparr>) = Undefined"
    by (simp add: cmd_checksum_def targetBankChecksumGet_def wave_simps split_beta Let_def
        responder_pulse) (simp add: power_on_def)
  moreover have "rx ?s = of_char CHR ''g'' # newline # rest" by (simp add: power_on_def)
  ultimately have "main_iter responder ?s = Undefined"
    by (simp add: main_iter_two newline_def)
  moreover have "fRunMain ?s" by (simp add: power_on_def)
  ultimately show ?thesis by (simp add: main_loop.simps [of responder ?s] del: of_char_Char)
qed

text \<open>
  C8: The command 'c' reads whole 64-byte blocks, at most 128 of them, and for each of them loads
  the target's buffer and programs it (the block's number is its place). It waits for more data only
  when less than a block is left, every block so far having been programmed and answered by '+'.
  Otherwise it ends: with the answer '0' when all 128 blocks were programmed, and with '1' when
  programming the last block it read failed; every block before the last was programmed
  and answered by '+'. The checksum is the sum, modulo 2^16, of every byte of the blocks it read.
\<close>

theorem cmd_program_correct:
  assumes "main_inv m s"
  shows "(\<exists>s' blocks. cmd_program tgt s = Blocked s' \<and>
       blocks_wait (program_block tgt) CHR ''c'' 0 s s' blocks \<and>
       checksum s' = Some (checksum_of (concat blocks))) \<or>
    (\<exists>s' blocks. cmd_program tgt s = Next s' \<and>
       blocks_run (program_block tgt) CHR ''c'' 0 s s' blocks \<and>
       checksum s' = Some (checksum_of (concat blocks)))"
proof -
  have "program_track m [] (s\<lparr>checksum := Some 0\<rparr>)"
    using assms by (simp add: program_track_def checksum_of_def)
  from prog_run.outcome [OF _ this, of 0 tgt] show ?thesis
    by (simp add: cmd_program_def program_track_def blocks_run_def blocks_wait_def) blast
qed

theorem cmd_program_correct_witness:
  "(\<exists>s' blocks. cmd_program responder (power_on [1, 2]) = Blocked s' \<and>
      blocks_wait (program_block responder) CHR ''c'' 0 (power_on [1, 2]) s' blocks \<and>
      checksum s' = Some (checksum_of (concat blocks))) \<or>
   (\<exists>s' blocks. cmd_program responder (power_on [1, 2]) = Next s' \<and>
      blocks_run (program_block responder) CHR ''c'' 0 (power_on [1, 2]) s' blocks \<and>
      checksum s' = Some (checksum_of (concat blocks)))"
  by (rule cmd_program_correct [OF power_on_inv])

text \<open>
  C9: With the checksum assigned, the command 'g' replies '1' exactly when the target does not
  answer (nothing is clocked in), and '0' exactly when the 16-bit big-endian number clocked in
  equals the checksum; otherwise it replies '2'.
\<close>

theorem cmd_checksum_correct:
  assumes "checksum s = Some c"
  shows "\<exists>s' es r. cmd_checksum tgt s = Next s' \<and> tx s' = tx s @ reply CHR ''g'' r \<and>
     trace (wires s') = trace (wires s) @ es \<and> r \<in> {CHR ''0'', CHR ''1'', CHR ''2''} \<and>
     (r = CHR ''1'' \<longleftrightarrow> clocked_in es = []) \<and>
     (r = CHR ''0'' \<longleftrightarrow> (\<exists>hi lo. clocked_in es = msb_bits 8 hi @ msb_bits 8 lo \<and>
        of_nat (256 * unat hi + unat lo) = c))"
proof -
  obtain r acc w es where get: "targetBankChecksumGet tgt 0 (wires s) = Some (r, acc, w)"
      "trace w = trace (wires s) @ es"
    and alt: "r = 0 \<and> (\<exists>hi lo. clocked_in es = msb_bits 8 hi @ msb_bits 8 lo \<and>
        acc = 0 + of_nat (256 * unat hi + unat lo)) \<or> r = 1 \<and> acc = 0 \<and> clocked_in es = []"
    using targetBankChecksumGet_bits [of tgt 0 "wires s"] by blast
  have ne: "msb_bits 8 x @ ys \<noteq> []" for x ys
    by (metis append_is_Nil_conv length_msb_bits list.size(3) zero_neq_numeral)
  have inj: "msb_bits 8 hi @ msb_bits 8 lo = msb_bits 8 hi' @ msb_bits 8 lo' \<longleftrightarrow>
      hi = hi' \<and> lo = lo'" for hi lo hi' lo'
    by (metis append_eq_append_conv length_msb_bits msb_value_msb_bits)
  from alt show ?thesis
  proof (elim disjE exE conjE)
    fix hi lo assume a: "r = 0" "clocked_in es = msb_bits 8 hi @ msb_bits 8 lo"
      "acc = 0 + of_nat (256 * unat hi + unat lo)"
    define rr where "rr = (if acc \<noteq> c then CHR ''2'' else CHR ''0'')"
    have "cmd_checksum tgt s = Next (chnWrite (reply CHR ''g'' rr) (s\<lparr>wires := w\<rparr>))"
      using a(1) get(1) assms by (simp add: cmd_checksum_def rr_def)
    moreover have "rr = CHR ''0'' \<longleftrightarrow> (\<exists>h l. clocked_in es = msb_bits 8 h @ msb_bits 8 l \<and>
        of_nat (256 * unat h + unat l) = c)"
      unfolding a(2) inj rr_def a(3) add_0_left by auto
    moreover have "rr \<in> {CHR ''0'', CHR ''1'', CHR ''2''}" "rr \<noteq> CHR ''1''"
      by (simp_all add: rr_def)
    ultimately show ?thesis using get(2) a(2) ne [of hi]
      by (intro exI [of _ "chnWrite (reply CHR ''g'' rr) (s\<lparr>wires := w\<rparr>)"] exI [of _ es]
          exI [of _ rr]) auto
  next
    assume a: "r = 1" "clocked_in es = []"
    then have "cmd_checksum tgt s = Next (chnWrite (reply CHR ''g'' CHR ''1'') (s\<lparr>wires := w\<rparr>))"
      using get(1) by (simp add: cmd_checksum_def)
    then show ?thesis using get(2) a(2) ne
      by (intro exI [of _ "chnWrite (reply CHR ''g'' CHR ''1'') (s\<lparr>wires := w\<rparr>)"] exI [of _ es]
          exI [of _ "CHR ''1''"]) (auto dest: sym)
  qed
qed

theorem cmd_checksum_correct_witness:
  "\<exists>s' es r. cmd_checksum responder ((power_on [])\<lparr>checksum := Some 5\<rparr>) = Next s' \<and>
     tx s' = reply CHR ''g'' r \<and>
     trace (wires s') = es \<and> r \<in> {CHR ''0'', CHR ''1'', CHR ''2''} \<and>
     (r = CHR ''1'' \<longleftrightarrow> clocked_in es = []) \<and>
     (r = CHR ''0'' \<longleftrightarrow> (\<exists>hi lo. clocked_in es = msb_bits 8 hi @ msb_bits 8 lo \<and>
        of_nat (256 * unat hi + unat lo) = (5 :: u16)))"
  using cmd_checksum_correct [of "(power_on [])\<lparr>checksum := Some 5\<rparr>" 5 responder]
  by (simp add: power_on_def idle_wire_def del: msb_bits.simps)

end
