(* ===== verification/ThdQueues.thy ===== *)
theory ThdQueues
  imports Prelude
begin

text \<open>
  The intrusive, circular, doubly linked thread queues of the kernel (chschd.c, chschd.h).

  A memory is the two link fields \<open>next\<close> and \<open>prev\<close> of every node and its priority field;
  a queue is named by its header, whose links are part of the ring.  The operations are
  translated link by link.  \<open>ring h hd xs\<close> says that the header \<open>hd\<close> heads a well-formed
  ring through the nodes \<open>xs\<close>; the lemmas show that every pointer operation implements an
  operation on lists, and leaves every queue it shares no node with as it was.
\<close>

section \<open>Link fields and the queue operations\<close>

record 'p links =
  nxt :: "'p \<Rightarrow> 'p"
  prv :: "'p \<Rightarrow> 'p"
  key :: "'p \<Rightarrow> u32"

definition set_nxt :: "'p \<Rightarrow> 'p \<Rightarrow> 'p links \<Rightarrow> 'p links" where
  "set_nxt p q h = h\<lparr>nxt := (nxt h)(p := q)\<rparr>"

definition set_prv :: "'p \<Rightarrow> 'p \<Rightarrow> 'p links \<Rightarrow> 'p links" where
  "set_prv p q h = h\<lparr>prv := (prv h)(p := q)\<rparr>"

lemma set_links_simps [simp]:
  "nxt (set_nxt p q h) = (nxt h)(p := q)" "prv (set_nxt p q h) = prv h" "key (set_nxt p q h) = key h"
  "nxt (set_prv p q h) = nxt h" "prv (set_prv p q h) = (prv h)(p := q)" "key (set_prv p q h) = key h"
  by (simp_all add: set_nxt_def set_prv_def)

definition ptr_queue_init :: "'p \<Rightarrow> 'p links \<Rightarrow> 'p links" where
  "ptr_queue_init tqp h = set_prv tqp tqp (set_nxt tqp tqp h)"

definition ptr_queue_isempty :: "'p \<Rightarrow> 'p links \<Rightarrow> bool" where
  "ptr_queue_isempty tqp h \<longleftrightarrow> nxt h tqp = tqp"

definition ptr_queue_notempty :: "'p \<Rightarrow> 'p links \<Rightarrow> bool" where
  "ptr_queue_notempty tqp h \<longleftrightarrow> nxt h tqp \<noteq> tqp"

text \<open>The four assignments that link \<open>tp\<close> in front of the node \<open>cp\<close>.\<close>

definition link_before :: "'p \<Rightarrow> 'p \<Rightarrow> 'p links \<Rightarrow> 'p links" where
  "link_before tp cp h =
    (let h = set_nxt tp cp h;
         h = set_prv tp (prv h cp) h;
         h = set_nxt (prv h tp) tp h
     in set_prv cp tp h)"

definition ptr_queue_insert :: "'p \<Rightarrow> 'p \<Rightarrow> 'p links \<Rightarrow> 'p links" where
  "ptr_queue_insert tp tqp h =
    (let h = set_nxt tp tqp h;
         h = set_prv tp (prv h tqp) h;
         h = set_nxt (prv h tp) tp h
     in set_prv tqp tp h)"

text \<open>
  The do-while scan of the priority insertions: from \<open>cp\<close> take \<open>next\<close> links until \<open>go\<close>
  fails.  A ring without a stopping node is followed forever, so the scan is a partial
  function.
\<close>

partial_function (option) ptr_scan :: "('p \<Rightarrow> bool) \<Rightarrow> ('p \<Rightarrow> 'p) \<Rightarrow> 'p \<Rightarrow> 'p option" where
  "ptr_scan go n cp =
    (let cp = n cp in if go cp then ptr_scan go n cp else Some cp)"

definition ptr_queue_prio_insert :: "'p \<Rightarrow> 'p \<Rightarrow> 'p links \<Rightarrow> 'p links option" where
  "ptr_queue_prio_insert tp tqp h =
    map_option (\<lambda>cp. link_before tp cp h)
      (ptr_scan (\<lambda>cp. cp \<noteq> tqp \<and> key h cp \<ge> key h tp) (nxt h) tqp)"

definition ptr_chSchReadyI :: "'p \<Rightarrow> 'p \<Rightarrow> 'p links \<Rightarrow> 'p links option" where
  "ptr_chSchReadyI rlist tp h =
    map_option (\<lambda>cp. link_before tp cp h)
      (ptr_scan (\<lambda>cp. key h cp \<ge> key h tp) (nxt h) rlist)"

definition ptr_chSchReadyAheadI :: "'p \<Rightarrow> 'p \<Rightarrow> 'p links \<Rightarrow> 'p links option" where
  "ptr_chSchReadyAheadI rlist tp h =
    map_option (\<lambda>cp. link_before tp cp h)
      (ptr_scan (\<lambda>cp. key h cp > key h tp) (nxt h) rlist)"

definition ptr_queue_fifo_remove :: "'p \<Rightarrow> 'p links \<Rightarrow> 'p \<times> 'p links" where
  "ptr_queue_fifo_remove tqp h =
    (let tp = nxt h tqp;
         h = set_nxt tqp (nxt h tp) h;
         h = set_prv (nxt h tqp) tqp h
     in (tp, h))"

definition ptr_queue_lifo_remove :: "'p \<Rightarrow> 'p links \<Rightarrow> 'p \<times> 'p links" where
  "ptr_queue_lifo_remove tqp h =
    (let tp = prv h tqp;
         h = set_prv tqp (prv h tp) h;
         h = set_nxt (prv h tqp) tqp h
     in (tp, h))"

definition ptr_queue_dequeue :: "'p \<Rightarrow> 'p links \<Rightarrow> 'p links" where
  "ptr_queue_dequeue tp h =
    (let h = set_nxt (prv h tp) (nxt h tp) h
     in set_prv (nxt h tp) (prv h tp) h)"

text \<open>Singly linked thread lists: the header is the last node's successor.\<close>

definition ptr_list_init :: "'p \<Rightarrow> 'p links \<Rightarrow> 'p links" where
  "ptr_list_init tlp h = set_nxt tlp tlp h"

definition ptr_list_isempty :: "'p \<Rightarrow> 'p links \<Rightarrow> bool" where
  "ptr_list_isempty tlp h \<longleftrightarrow> nxt h tlp = tlp"

definition ptr_list_notempty :: "'p \<Rightarrow> 'p links \<Rightarrow> bool" where
  "ptr_list_notempty tlp h \<longleftrightarrow> nxt h tlp \<noteq> tlp"

definition ptr_list_insert :: "'p \<Rightarrow> 'p \<Rightarrow> 'p links \<Rightarrow> 'p links" where
  "ptr_list_insert tp tlp h = (let h = set_nxt tp (nxt h tlp) h in set_nxt tlp tp h)"

definition ptr_list_remove :: "'p \<Rightarrow> 'p links \<Rightarrow> 'p \<times> 'p links" where
  "ptr_list_remove tlp h = (let tp = nxt h tlp in (tp, set_nxt tlp (nxt h tp) h))"

section \<open>Rings\<close>

text \<open>\<open>path f a xs b\<close>: following \<open>f\<close> from \<open>a\<close> visits exactly \<open>xs\<close> and then \<open>b\<close>.\<close>

fun path :: "('p \<Rightarrow> 'p) \<Rightarrow> 'p \<Rightarrow> 'p list \<Rightarrow> 'p \<Rightarrow> bool" where
  "path f a [] b \<longleftrightarrow> f a = b"
| "path f a (x # xs) b \<longleftrightarrow> f a = x \<and> path f x xs b"

lemma path_append [simp]: "path f a (xs @ y # ys) b \<longleftrightarrow> path f a xs y \<and> path f y ys b"
  by (induction xs arbitrary: a) auto

lemma path_upd_other [simp]:
  "p \<notin> set (a # xs) \<Longrightarrow> path (f(p := r)) a xs b \<longleftrightarrow> path f a xs b"
  by (induction xs arbitrary: a) auto

lemma path_upd_last:
  "distinct (a # xs) \<Longrightarrow> path f a xs b \<Longrightarrow> path (f(last (a # xs) := c)) a xs c"
  by (induction xs arbitrary: a) auto

lemma path_last: "path f a xs b \<Longrightarrow> f (last (a # xs)) = b"
  by (induction xs arbitrary: a) auto

definition ring :: "'p links \<Rightarrow> 'p \<Rightarrow> 'p list \<Rightarrow> bool" where
  "ring h q xs \<longleftrightarrow> distinct (q # xs) \<and> path (nxt h) q xs q \<and> path (prv h) q (rev xs) q"

lemma ring_split:
  "ring h q (xs @ y # ys) \<longleftrightarrow>
    distinct (q # xs @ y # ys) \<and>
    path (nxt h) q xs y \<and> path (nxt h) y ys q \<and>
    path (prv h) q (rev ys) y \<and> path (prv h) y (rev xs) q"
  by (auto simp: ring_def)

lemma ring_distinct: "ring h q xs \<Longrightarrow> distinct (q # xs)"
  by (simp add: ring_def)

lemma ring_prv_hd: "ring h q xs \<Longrightarrow> prv h q = last (q # xs)"
  by (cases xs rule: rev_cases) (auto simp: ring_def)

lemma ring_nxt_hd: "ring h q xs \<Longrightarrow> nxt h q = (case xs of [] \<Rightarrow> q | x # _ \<Rightarrow> x)"
  by (cases xs) (auto simp: ring_def)

lemma ptr_queue_init_ring: "ring (ptr_queue_init q h) q []"
  by (simp add: ptr_queue_init_def ring_def)

lemma ptr_queue_isempty_ring: "ring h q xs \<Longrightarrow> ptr_queue_isempty q h \<longleftrightarrow> xs = []"
  by (cases xs) (auto simp: ptr_queue_isempty_def ring_def)

lemma ptr_queue_notempty_ring: "ring h q xs \<Longrightarrow> ptr_queue_notempty q h \<longleftrightarrow> xs \<noteq> []"
  by (cases xs) (auto simp: ptr_queue_notempty_def ring_def)


lemma ring_link_before:
  assumes r: "ring h q (xs @ ys)" and t: "tp \<notin> set (q # xs @ ys)"
    and cp: "cp = (case ys of [] \<Rightarrow> q | y # _ \<Rightarrow> y)"
  shows "ring (link_before tp cp h) q (xs @ tp # ys)"
proof (cases ys)
  case Nil
  then have cp: "cp = q" using cp by simp
  show ?thesis using r t
    by (cases xs rule: rev_cases)
      (auto simp: Nil cp link_before_def Let_def ring_def)
next
  case (Cons y zs)
  then have cp: "cp = y" using cp by simp
  show ?thesis using r t
    by (cases xs rule: rev_cases)
      (auto simp: Cons cp link_before_def Let_def ring_def)
qed

lemma ring_insert:
  "ring h q xs \<Longrightarrow> tp \<notin> set (q # xs) \<Longrightarrow> ring (ptr_queue_insert tp q h) q (xs @ [tp])"
  using ring_link_before [of h q xs "[]" tp q]
  by (simp add: ptr_queue_insert_def link_before_def)

lemma ring_fifo_remove:
  "ring h q (x # xs) \<Longrightarrow>
    fst (ptr_queue_fifo_remove q h) = x \<and> ring (snd (ptr_queue_fifo_remove q h)) q xs"
  by (cases xs) (auto simp: ptr_queue_fifo_remove_def Let_def ring_def)

lemma ring_lifo_remove:
  "ring h q (xs @ [x]) \<Longrightarrow>
    fst (ptr_queue_lifo_remove q h) = x \<and> ring (snd (ptr_queue_lifo_remove q h)) q xs"
  by (cases xs rule: rev_cases) (auto simp: ptr_queue_lifo_remove_def Let_def ring_def)

lemma ring_dequeue:
  "ring h q (xs @ x # ys) \<Longrightarrow> ring (ptr_queue_dequeue x h) q (xs @ ys)"
  by (cases xs rule: rev_cases; cases ys)
    (auto simp: ptr_queue_dequeue_def Let_def ring_def)

section \<open>Queues as lists\<close>

text \<open>
  The kernel model keeps the queues as lists, indexed by their headers.  These are the
  list operations the pointer operations implement; \<open>pr\<close> gives the priority of a thread.
\<close>

type_synonym ('h, 'p) qs = "'h \<Rightarrow> 'p list"

definition ins_where :: "('p \<Rightarrow> bool) \<Rightarrow> 'p \<Rightarrow> 'p list \<Rightarrow> 'p list" where
  "ins_where go tp xs = takeWhile go xs @ tp # dropWhile go xs"

definition q_insert :: "'p \<Rightarrow> 'h \<Rightarrow> ('h, 'p) qs \<Rightarrow> ('h, 'p) qs" where
  "q_insert tp q Q = Q(q := Q q @ [tp])"

definition q_prio_insert :: "('p \<Rightarrow> u32) \<Rightarrow> 'p \<Rightarrow> 'h \<Rightarrow> ('h, 'p) qs \<Rightarrow> ('h, 'p) qs" where
  "q_prio_insert pr tp q Q = Q(q := ins_where (\<lambda>cp. pr cp \<ge> pr tp) tp (Q q))"

definition q_prio_insert_ahead :: "('p \<Rightarrow> u32) \<Rightarrow> 'p \<Rightarrow> 'h \<Rightarrow> ('h, 'p) qs \<Rightarrow> ('h, 'p) qs" where
  "q_prio_insert_ahead pr tp q Q = Q(q := ins_where (\<lambda>cp. pr cp > pr tp) tp (Q q))"

definition q_dequeue :: "'p \<Rightarrow> ('h, 'p) qs \<Rightarrow> ('h, 'p) qs" where
  "q_dequeue tp Q = (\<lambda>q. remove1 tp (Q q))"

lemma ins_where_simps [simp]:
  "ins_where go tp [] = [tp]"
  "ins_where go tp (x # xs) = (if go x then x # ins_where go tp xs else tp # x # xs)"
  by (auto simp: ins_where_def)

lemma set_ins_where [simp]: "set (ins_where go tp xs) = insert tp (set xs)"
  by (induction xs) auto

lemma distinct_ins_where [simp]: "distinct (ins_where go tp xs) \<longleftrightarrow> tp \<notin> set xs \<and> distinct xs"
  by (induction xs) auto

lemma length_ins_where [simp]: "length (ins_where go tp xs) = Suc (length xs)"
  by (induction xs) auto

lemma ins_where_not_Nil [simp]: "ins_where go tp xs \<noteq> []"
  by (cases xs) auto

section \<open>The pointer operations implement the list operations\<close>

lemma path_cong: "(\<And>p. p \<in> set (a # xs) \<Longrightarrow> f p = g p) \<Longrightarrow> path f a xs b \<longleftrightarrow> path g a xs b"
  by (induction xs arbitrary: a) auto

lemma ring_cong:
  assumes "\<And>p. p \<in> set (q # xs) \<Longrightarrow> nxt h' p = nxt h p \<and> prv h' p = prv h p"
  shows "ring h' q xs \<longleftrightarrow> ring h q xs"
proof -
  have "path (nxt h') q xs q = path (nxt h) q xs q"
    by (rule path_cong) (use assms in auto)
  moreover have "path (prv h') q (rev xs) q = path (prv h) q (rev xs) q"
    by (rule path_cong) (use assms in auto)
  ultimately show ?thesis by (simp add: ring_def)
qed

text \<open>A header is the node \<open>Inl q\<close>, a thread the node \<open>Inr tp\<close>.\<close>

definition qrep :: "('h + 'p) links \<Rightarrow> ('h, 'p) qs \<Rightarrow> bool" where
  "qrep h Q \<longleftrightarrow> (\<forall>q. ring h (Inl q) (map Inr (Q q))) \<and>
    (\<forall>q q'. q \<noteq> q' \<longrightarrow> set (Q q) \<inter> set (Q q') = {})"

lemma qrep_ring: "qrep h Q \<Longrightarrow> ring h (Inl q) (map Inr (Q q))"
  by (simp add: qrep_def)

lemma qrep_disjoint: "qrep h Q \<Longrightarrow> x \<in> set (Q q) \<Longrightarrow> x \<in> set (Q q') \<Longrightarrow> q = q'"
  by (auto simp: qrep_def)

lemma qrep_distinct: "qrep h Q \<Longrightarrow> distinct (Q q)"
  using qrep_ring [of h Q q] by (auto simp: ring_def distinct_map)

text \<open>
  The frame rule: an operation that rebuilds the ring of \<open>q\<close> and changes no link outside
  that ring (and the inserted node) keeps every other queue.
\<close>

lemma qrep_frame:
  assumes r: "qrep h Q" and q: "ring h' (Inl q) (map Inr ys)"
    and sub: "set ys \<subseteq> T \<union> set (Q q)" and fresh: "\<And>q'. q' \<noteq> q \<Longrightarrow> T \<inter> set (Q q') = {}"
    and same: "\<And>p. p \<notin> insert (Inl q) (Inr ` (T \<union> set (Q q))) \<Longrightarrow>
      nxt h' p = nxt h p \<and> prv h' p = prv h p"
  shows "qrep h' (Q(q := ys))"
proof -
  have "ring h' (Inl q') (map Inr (Q q'))" if n: "q' \<noteq> q" for q'
  proof -
    have "ring h' (Inl q') (map Inr (Q q')) \<longleftrightarrow> ring h (Inl q') (map Inr (Q q'))"
    proof (rule ring_cong)
      fix p assume "p \<in> set (Inl q' # map Inr (Q q'))"
      then have "p \<notin> insert (Inl q) (Inr ` (T \<union> set (Q q)))"
        using n fresh [OF n] qrep_disjoint [OF r] by auto
      then show "nxt h' p = nxt h p \<and> prv h' p = prv h p" by (rule same)
    qed
    then show ?thesis using qrep_ring [OF r] by simp
  qed
  moreover have disj: "set ys \<inter> set (Q q') = {}" if "q' \<noteq> q" for q'
    using sub fresh [OF that] qrep_disjoint [OF r, of _ q' q] that by blast
  have "set ((Q(q := ys)) q1) \<inter> set ((Q(q := ys)) q2) = {}" if n: "q1 \<noteq> q2" for q1 q2
    using n disj [of q1] disj [of q2] qrep_disjoint [OF r, of _ q1 q2] by (cases "q1 = q"; cases "q2 = q") auto
  ultimately show ?thesis using q by (auto simp: qrep_def)
qed

lemma link_before_frame:
  "p \<notin> {tp, cp, prv h cp} \<Longrightarrow>
    nxt (link_before tp cp h) p = nxt h p \<and> prv (link_before tp cp h) p = prv h p"
  by (auto simp: link_before_def Let_def)

lemma ring_prv_closed: "ring h q xs \<Longrightarrow> p \<in> set (q # xs) \<Longrightarrow> prv h p \<in> set (q # xs)"
proof -
  assume r: "ring h q xs" and p: "p \<in> set (q # xs)"
  show ?thesis
  proof (cases "p = q")
    case True
    then show ?thesis using ring_prv_hd [OF r] by auto
  next
    case False
    then obtain ys zs where xs: "xs = ys @ p # zs" using p by (auto dest: split_list)
    then have "path (prv h) p (rev ys) q" using r by (simp add: ring_split)
    then have "prv h p \<in> set (q # ys)" by (cases ys rule: rev_cases) auto
    then show ?thesis using xs by auto
  qed
qed

lemma ring_nxt_closed: "ring h q xs \<Longrightarrow> p \<in> set (q # xs) \<Longrightarrow> nxt h p \<in> set (q # xs)"
proof -
  assume r: "ring h q xs" and p: "p \<in> set (q # xs)"
  show ?thesis
  proof (cases "p = q")
    case True
    then show ?thesis using r by (cases xs) (auto simp: ring_def)
  next
    case False
    then obtain ys zs where xs: "xs = ys @ p # zs" using p by (auto dest: split_list)
    then have "path (nxt h) p zs q" using r by (simp add: ring_split)
    then have "nxt h p \<in> set (q # zs)" by (cases zs) auto
    then show ?thesis using xs by auto
  qed
qed

text \<open>Linking a free thread into the ring of \<open>q\<close>, between \<open>xs\<close> and \<open>ys\<close>.\<close>

lemma qrep_link_before:
  assumes r: "qrep h Q" and fresh: "\<And>q'. tp \<notin> set (Q q')" and Q: "Q q = xs @ ys"
    and cp: "cp = (case ys of [] \<Rightarrow> Inl q | y # _ \<Rightarrow> Inr y)"
  shows "qrep (link_before (Inr tp) cp h) (Q(q := xs @ tp # ys))"
proof (rule qrep_frame [OF r, where T = "{tp}"])
  have rq: "ring h (Inl q) (map Inr xs @ map Inr ys)" using qrep_ring [OF r, of q] Q by simp
  have cpx: "cp = (case map Inr ys of [] \<Rightarrow> Inl q | y # _ \<Rightarrow> y)"
    using cp by (cases ys) auto
  have t: "Inr tp \<notin> set (Inl q # map Inr xs @ map Inr ys)" using fresh [of q] Q by auto
  show "ring (link_before (Inr tp) cp h) (Inl q) (map Inr (xs @ tp # ys))"
    using ring_link_before [OF rq t cpx] by simp
  show "set (xs @ tp # ys) \<subseteq> {tp} \<union> set (Q q)" using Q by auto
  show "{tp} \<inter> set (Q q') = {}" for q' using fresh by simp
  have c: "cp \<in> set (Inl q # map Inr (Q q))" using cp Q by (cases ys) auto
  have pc: "prv h cp \<in> set (Inl q # map Inr (Q q))"
    by (rule ring_prv_closed [OF qrep_ring [OF r] c])
  show "nxt (link_before (Inr tp) cp h) p = nxt h p \<and> prv (link_before (Inr tp) cp h) p = prv h p"
    if "p \<notin> insert (Inl q) (Inr ` ({tp} \<union> set (Q q)))" for p
    by (rule link_before_frame) (use that c pc in auto)
qed

lemma qrep_queue_init:
  assumes "qrep h Q" and "Q q = []"
  shows "qrep (ptr_queue_init (Inl q) h) Q"
proof -
  have "qrep (ptr_queue_init (Inl q) h) (Q(q := []))"
  proof (rule qrep_frame [OF assms(1), where T = "{}"])
    show "ring (ptr_queue_init (Inl q) h) (Inl q) (map Inr [])" by (simp add: ptr_queue_init_ring)
  qed (auto simp: ptr_queue_init_def)
  then show ?thesis using assms(2) by (metis fun_upd_triv)
qed

lemma qrep_queue_insert:
  "qrep h Q \<Longrightarrow> (\<And>q'. tp \<notin> set (Q q')) \<Longrightarrow>
    qrep (ptr_queue_insert (Inr tp) (Inl q) h) (q_insert tp q Q)"
  using qrep_link_before [of h Q tp q "Q q" "[]" "Inl q"]
  by (simp add: q_insert_def ptr_queue_insert_def link_before_def)

text \<open>The scan stops at the first node of the ring on which \<open>go\<close> fails.\<close>

lemma ptr_scan_path:
  "path n a xs b \<Longrightarrow> \<not> go b \<Longrightarrow>
    ptr_scan go n a = Some (case dropWhile go xs of [] \<Rightarrow> b | y # _ \<Rightarrow> y)"
proof (induction xs arbitrary: a)
  case Nil
  then show ?case by (simp add: ptr_scan.simps [of go n a] Let_def)
next
  case (Cons x xs)
  then show ?case by (simp add: ptr_scan.simps [of go n a] Let_def)
qed

lemma ptr_scan_qrep:
  assumes r: "qrep h Q" and stop: "\<not> go (Inl q)"
  shows "ptr_scan go (nxt h) (Inl q) =
    Some (case dropWhile (\<lambda>t. go (Inr t)) (Q q) of [] \<Rightarrow> Inl q | y # _ \<Rightarrow> Inr y)"
proof -
  have "path (nxt h) (Inl q) (map Inr (Q q)) (Inl q)" using qrep_ring [OF r] by (simp add: ring_def)
  then show ?thesis using ptr_scan_path [of "nxt h" "Inl q" "map Inr (Q q)" "Inl q" go] stop
    by (cases "dropWhile (\<lambda>t. go (Inr t)) (Q q)") (simp_all add: dropWhile_map o_def del: dropWhile_eq_Nil_conv)
qed

lemma qrep_scan_link:
  assumes r: "qrep h Q" and fresh: "\<And>q'. tp \<notin> set (Q q')" and stop: "\<not> go (Inl q)"
  shows "\<exists>h'. map_option (\<lambda>cp. link_before (Inr tp) cp h) (ptr_scan go (nxt h) (Inl q)) = Some h' \<and>
    qrep h' (Q(q := ins_where (\<lambda>t. go (Inr t)) tp (Q q)))"
  using qrep_link_before [OF r fresh, of q "takeWhile (\<lambda>t. go (Inr t)) (Q q)"
      "dropWhile (\<lambda>t. go (Inr t)) (Q q)", OF _ refl]
  by (simp add: ptr_scan_qrep [of h Q go, OF r stop] ins_where_def)

lemma qrep_unlink:
  assumes r: "qrep h Q" and q: "ring h' (Inl q) (map Inr ys)" and sub: "set ys \<subseteq> set (Q q)"
    and same: "\<And>p. p \<notin> set (Inl q # map Inr (Q q)) \<Longrightarrow> nxt h' p = nxt h p \<and> prv h' p = prv h p"
  shows "qrep h' (Q(q := ys))"
  by (rule qrep_frame [OF r q, where T = "{}"]) (use sub same in auto)

lemma qrep_fifo_remove:
  assumes r: "qrep h Q" and Q: "Q q = tp # xs"
  shows "fst (ptr_queue_fifo_remove (Inl q) h) = Inr tp \<and>
    qrep (snd (ptr_queue_fifo_remove (Inl q) h)) (Q(q := xs))"
proof -
  have rq: "ring h (Inl q) (Inr tp # map Inr xs)" using qrep_ring [OF r, of q] Q by simp
  have "nxt h (Inr tp) \<in> set (Inl q # map Inr (Q q))" "nxt h (Inl q) = Inr tp"
    using ring_nxt_closed [OF rq, of "Inr tp"] ring_nxt_hd [OF rq] Q by auto
  then have "qrep (snd (ptr_queue_fifo_remove (Inl q) h)) (Q(q := xs))"
    by (intro qrep_unlink [OF r]) (use ring_fifo_remove [OF rq] Q in \<open>auto simp: ptr_queue_fifo_remove_def Let_def\<close>)
  then show ?thesis using ring_fifo_remove [OF rq] by simp
qed

lemma qrep_lifo_remove:
  assumes r: "qrep h Q" and Q: "Q q = xs @ [tp]"
  shows "fst (ptr_queue_lifo_remove (Inl q) h) = Inr tp \<and>
    qrep (snd (ptr_queue_lifo_remove (Inl q) h)) (Q(q := xs))"
proof -
  have rq: "ring h (Inl q) (map Inr xs @ [Inr tp])" using qrep_ring [OF r, of q] Q by simp
  have "prv h (Inr tp) \<in> set (Inl q # map Inr (Q q))" "prv h (Inl q) = Inr tp"
    using ring_prv_closed [OF rq, of "Inr tp"] ring_prv_hd [OF rq] Q by auto
  then have "qrep (snd (ptr_queue_lifo_remove (Inl q) h)) (Q(q := xs))"
    by (intro qrep_unlink [OF r]) (use ring_lifo_remove [OF rq] Q in \<open>auto simp: ptr_queue_lifo_remove_def Let_def\<close>)
  then show ?thesis using ring_lifo_remove [OF rq] by simp
qed

lemma qrep_dequeue:
  assumes r: "qrep h Q" and t: "tp \<in> set (Q q)"
  shows "qrep (ptr_queue_dequeue (Inr tp) h) (q_dequeue tp Q)"
proof -
  obtain xs ys where Q: "Q q = xs @ tp # ys" using t by (auto dest: split_list)
  have tx: "tp \<notin> set xs" using qrep_distinct [OF r, of q] Q by simp
  have others: "tp \<notin> set (Q q')" if "q' \<noteq> q" for q'
    using that qrep_disjoint [OF r] t by auto
  have eq: "q_dequeue tp Q = Q(q := xs @ ys)"
    by (rule ext) (use tx Q others in \<open>auto simp: q_dequeue_def remove1_append remove1_idem\<close>)
  have rq: "ring h (Inl q) (map Inr xs @ Inr tp # map Inr ys)" using qrep_ring [OF r, of q] Q by simp
  have "prv h (Inr tp) \<in> set (Inl q # map Inr (Q q))" "nxt h (Inr tp) \<in> set (Inl q # map Inr (Q q))"
    using ring_prv_closed [OF rq, of "Inr tp"] ring_nxt_closed [OF rq, of "Inr tp"] Q by auto
  then have "qrep (ptr_queue_dequeue (Inr tp) h) (Q(q := xs @ ys))"
    by (intro qrep_unlink [OF r])
      (use ring_dequeue [OF rq] Q in \<open>auto simp: ptr_queue_dequeue_def Let_def\<close>)
  then show ?thesis by (simp add: eq)
qed

text \<open>
  Claims of the queue operations.  A priority insertion scans until the ring's header; the
  two scheduler insertions rely on the header's priority field, \<open>NOPRIO\<close>, to stop.
\<close>

lemma qrep_prio_insert:
  assumes "qrep h Q" and "\<And>q'. tp \<notin> set (Q q')"
  shows "\<exists>h'. ptr_queue_prio_insert (Inr tp) (Inl q) h = Some h' \<and>
    qrep h' (q_prio_insert (\<lambda>t. key h (Inr t)) tp q Q)"
  using qrep_scan_link [OF assms, of "\<lambda>cp. cp \<noteq> Inl q \<and> key h cp \<ge> key h (Inr tp)" q]
  by (simp add: ptr_queue_prio_insert_def q_prio_insert_def)

lemma qrep_ready:
  assumes "qrep h Q" and "\<And>q'. tp \<notin> set (Q q')" and "key h (Inl q) < key h (Inr tp)"
  shows "\<exists>h'. ptr_chSchReadyI (Inl q) (Inr tp) h = Some h' \<and>
    qrep h' (q_prio_insert (\<lambda>t. key h (Inr t)) tp q Q)"
  using qrep_scan_link [OF assms(1,2), of "\<lambda>cp. key h cp \<ge> key h (Inr tp)" q] assms(3)
  by (simp add: ptr_chSchReadyI_def q_prio_insert_def)

lemma qrep_ready_ahead:
  assumes "qrep h Q" and "\<And>q'. tp \<notin> set (Q q')" and "key h (Inl q) \<le> key h (Inr tp)"
  shows "\<exists>h'. ptr_chSchReadyAheadI (Inl q) (Inr tp) h = Some h' \<and>
    qrep h' (q_prio_insert_ahead (\<lambda>t. key h (Inr t)) tp q Q)"
  using qrep_scan_link [OF assms(1,2), of "\<lambda>cp. key h cp > key h (Inr tp)" q] assms(3)
  by (simp add: ptr_chSchReadyAheadI_def q_prio_insert_ahead_def)

section \<open>Priority order\<close>

text \<open>Highest priority first; equal priorities in any order.\<close>

abbreviation by_prio :: "('p \<Rightarrow> u32) \<Rightarrow> 'p list \<Rightarrow> bool" where
  "by_prio pr xs \<equiv> sorted_wrt (\<lambda>a b. pr a \<ge> pr b) xs"

text \<open>
  A scan condition \<open>stay\<close> is an insertion rule when a node it passes has no lower priority
  than the inserted thread and the node it stops at has no higher one.
\<close>

locale prio_scan =
  fixes stay :: "u32 \<Rightarrow> u32 \<Rightarrow> bool"
  assumes stay_ge: "stay c t \<Longrightarrow> t \<le> c"
    and stop_le: "\<not> stay c t \<Longrightarrow> c \<le> t"
begin

lemma by_prio_insert:
  "by_prio pr xs \<Longrightarrow> by_prio pr (ins_where (\<lambda>c. stay (pr c) (pr t)) t xs)"
proof (induction xs)
  case Nil
  then show ?case by simp
next
  case (Cons x xs)
  then show ?case
    using stay_ge [of "pr x" "pr t"] stop_le [of "pr x" "pr t"] by (auto intro: order_trans)
qed

text \<open>The order of the threads already queued is kept.\<close>

lemma filter_insert:
  "\<not> P t \<Longrightarrow> filter P (ins_where (\<lambda>c. stay (pr c) (pr t)) t xs) = filter P xs"
  by (induction xs) auto

end

interpretation behind: prio_scan "\<lambda>c t. c \<ge> t"
  by unfold_locales auto

interpretation ahead: prio_scan "\<lambda>c t. c > t"
  by unfold_locales auto

text \<open>Among equals, \<open>behind\<close> inserts last and \<open>ahead\<close> inserts first.\<close>

lemma behind_fifo:
  "by_prio pr xs \<Longrightarrow>
    filter (\<lambda>x. pr x = pr t) (ins_where (\<lambda>c. pr c \<ge> pr t) t xs) = filter (\<lambda>x. pr x = pr t) xs @ [t]"
proof (induction xs)
  case Nil
  then show ?case by simp
next
  case (Cons x xs)
  show ?case
  proof (cases "pr x \<ge> pr t")
    case True
    then show ?thesis using Cons by simp
  next
    case False
    then have "filter (\<lambda>y. pr y = pr t) (x # xs) = []"
      using Cons.prems by (auto simp: filter_empty_conv)
    then show ?thesis using False by simp
  qed
qed

lemma ahead_lifo:
  "by_prio pr xs \<Longrightarrow>
    filter (\<lambda>x. pr x = pr t) (ins_where (\<lambda>c. pr c > pr t) t xs) = t # filter (\<lambda>x. pr x = pr t) xs"
  by (induction xs) auto

lemma by_prio_remove1: "by_prio pr xs \<Longrightarrow> by_prio pr (remove1 t xs)"
  by (induction xs) (auto dest: notin_set_remove1 set_remove1_subset [THEN subsetD])

lemma by_prio_cong: "(\<And>x. x \<in> set xs \<Longrightarrow> pr x = pr' x) \<Longrightarrow> by_prio pr xs \<longleftrightarrow> by_prio pr' xs"
  by (induction xs) auto

section \<open>The refinement\<close>

text \<open>
  C13: The link manipulations of the thread queues implement list operations on every family of
  disjoint queues: the insertions of a thread that is in no queue (append, priority insertion,
  the two ready-list insertions, which stop at the header only because its priority field is
  below the thread's) return, and insert it into the one list and nowhere else; removing the
  first, the last or a given element takes exactly that thread out.
\<close>

theorem queue_operations_refine:
  assumes "qrep h Q" and "\<And>q'. tp \<notin> set (Q q')" and "key h (Inl q) < key h (Inr tp)"
  shows "qrep (ptr_queue_insert (Inr tp) (Inl q) h) (q_insert tp q Q) \<and>
    (\<exists>h'. ptr_queue_prio_insert (Inr tp) (Inl q) h = Some h' \<and>
      qrep h' (q_prio_insert (\<lambda>t. key h (Inr t)) tp q Q)) \<and>
    (\<exists>h'. ptr_chSchReadyI (Inl q) (Inr tp) h = Some h' \<and>
      qrep h' (q_prio_insert (\<lambda>t. key h (Inr t)) tp q Q)) \<and>
    (\<exists>h'. ptr_chSchReadyAheadI (Inl q) (Inr tp) h = Some h' \<and>
      qrep h' (q_prio_insert_ahead (\<lambda>t. key h (Inr t)) tp q Q)) \<and>
    (\<forall>x xs. Q q = x # xs \<longrightarrow> fst (ptr_queue_fifo_remove (Inl q) h) = Inr x \<and>
      qrep (snd (ptr_queue_fifo_remove (Inl q) h)) (Q(q := xs))) \<and>
    (\<forall>x xs. Q q = xs @ [x] \<longrightarrow> fst (ptr_queue_lifo_remove (Inl q) h) = Inr x \<and>
      qrep (snd (ptr_queue_lifo_remove (Inl q) h)) (Q(q := xs))) \<and>
    (\<forall>x q'. x \<in> set (Q q') \<longrightarrow> qrep (ptr_queue_dequeue (Inr x) h) (q_dequeue x Q))"
  using qrep_queue_insert [OF assms(1,2)] qrep_prio_insert [OF assms(1,2)]
    qrep_ready [OF assms] qrep_ready_ahead [OF assms(1,2)] assms(3)
    qrep_fifo_remove [OF assms(1)] qrep_lifo_remove [OF assms(1)] qrep_dequeue [OF assms(1)]
  by (simp add: less_imp_le)

text \<open>A memory in which every queue over the headers \<open>bool\<close> is empty.\<close>

definition empty_links :: "(bool + nat) links" where
  "empty_links = \<lparr>nxt = id, prv = id, key = (\<lambda>p. case p of Inl _ \<Rightarrow> 0 | Inr _ \<Rightarrow> 5)\<rparr>"

lemma qrep_empty_links: "qrep empty_links (\<lambda>_. [])"
  by (simp add: qrep_def ring_def empty_links_def)

lemma queue_operations_refine_witness:
  "qrep (ptr_queue_insert (Inr 7) (Inl True) empty_links) (q_insert 7 True (\<lambda>_. [])) \<and>
    (\<exists>h'. ptr_chSchReadyI (Inl True) (Inr 7) empty_links = Some h' \<and>
      qrep h' (q_prio_insert (\<lambda>t. key empty_links (Inr t)) 7 True (\<lambda>_. [])))"
  using queue_operations_refine [OF qrep_empty_links, of 7 True] by (simp add: empty_links_def)

end
