(* ===== verification/VTimers.thy ===== *)
theory VTimers
  imports Prelude
begin

text \<open>
  Virtual timers (chvt.c, chvt.h) in the tick-less configuration of the firmware:
  \<open>CH_CFG_ST_TIMEDELTA = 2\<close> and a 16-bit \<open>systime_t\<close>.

  The delta list hanging off \<open>ch.vtlist\<close> is the list \<open>vtl\<close> of timers with their \<open>delta\<close>
  fields; the list header, whose \<open>delta\<close> is \<open>(systime_t)-1\<close>, is the end of the list.
  The hardware counter \<open>stime\<close> is read by \<open>port_timer_get_time\<close> and the alarm comparator
  \<open>alarm\<close> is written by the port functions; both belong to the state.
\<close>

type_synonym systime = u16

definition CH_CFG_ST_TIMEDELTA :: systime where "CH_CFG_ST_TIMEDELTA = 2"
definition TIME_IMMEDIATE :: systime where "TIME_IMMEDIATE = 0"
definition TIME_INFINITE :: systime where "TIME_INFINITE = - 1"

text \<open>\<open>vfunc\<close> holds a timer's function and parameter, \<open>None\<close> standing for \<open>func == NULL\<close>.\<close>

record ('v, 'f) vtstate =
  vtl :: "('v \<times> systime) list"
  lasttime :: systime
  vfunc :: "'v \<Rightarrow> 'f option"
  alarm :: "systime option"
  stime :: systime

section \<open>Operations\<close>

definition vt_init :: "('v, 'f, 'z) vtstate_scheme \<Rightarrow> ('v, 'f, 'z) vtstate_scheme" where
  "vt_init s = s\<lparr>vtl := [], lasttime := 0\<rparr>"

definition chVTObjectInit :: "'v \<Rightarrow> ('v, 'f, 'z) vtstate_scheme \<Rightarrow> ('v, 'f, 'z) vtstate_scheme" where
  "chVTObjectInit vtp s = s\<lparr>vfunc := (vfunc s)(vtp := None)\<rparr>"

definition chVTGetSystemTimeX :: "('v, 'f, 'z) vtstate_scheme \<Rightarrow> systime" where
  "chVTGetSystemTimeX s = stime s"

definition chVTTimeElapsedSinceX :: "systime \<Rightarrow> ('v, 'f, 'z) vtstate_scheme \<Rightarrow> systime" where
  "chVTTimeElapsedSinceX start s = chVTGetSystemTimeX s - start"

definition chVTIsTimeWithinX :: "systime \<Rightarrow> systime \<Rightarrow> systime \<Rightarrow> bool" where
  "chVTIsTimeWithinX time start end \<longleftrightarrow> time - start < end - start"

definition chVTIsSystemTimeWithinX :: "systime \<Rightarrow> systime \<Rightarrow> ('v, 'f, 'z) vtstate_scheme \<Rightarrow> bool" where
  "chVTIsSystemTimeWithinX start end s = chVTIsTimeWithinX (chVTGetSystemTimeX s) start end"

definition chVTIsArmedI :: "'v \<Rightarrow> ('v, 'f, 'z) vtstate_scheme \<Rightarrow> bool" where
  "chVTIsArmedI vtp s \<longleftrightarrow> vfunc s vtp \<noteq> None"

text \<open>\<open>None\<close> is the result \<open>false\<close>, \<open>Some t\<close> the result \<open>true\<close> with \<open>t\<close> stored in \<open>*timep\<close>.\<close>

definition chVTGetTimersStateI :: "('v, 'f, 'z) vtstate_scheme \<Rightarrow> systime option" where
  "chVTGetTimersStateI s =
    (case vtl s of [] \<Rightarrow> None
     | (v, d) # _ \<Rightarrow> Some (lasttime s + d + CH_CFG_ST_TIMEDELTA - chVTGetSystemTimeX s))"

text \<open>
  The scan \<open>while (p->delta < delta)\<close> and the insertion before \<open>p\<close>.  At the header the
  comparison with \<open>(systime_t)-1\<close> fails for every \<open>delta\<close>, and the header's \<open>delta\<close> is
  restored afterwards.
\<close>

fun vt_scan :: "'v \<Rightarrow> systime \<Rightarrow> ('v \<times> systime) list \<Rightarrow> ('v \<times> systime) list" where
  "vt_scan vtp delta [] = [(vtp, delta)]"
| "vt_scan vtp delta ((p, d) # r) =
    (if d < delta then (p, d) # vt_scan vtp (delta - d) r
     else (vtp, delta) # (p, d - delta) # r)"

text \<open>
  \<open>now - ch.vtlist.lasttime\<close> has type \<open>int\<close>: both operands are 16-bit and are promoted.  The
  assignment to \<open>delta\<close> truncates to 16 bits; the comparison \<open>delta < now - lasttime\<close> is made
  on the promoted, possibly negative, difference.
\<close>

definition chVTDoSetI :: "'v \<Rightarrow> systime \<Rightarrow> 'f \<Rightarrow> ('v, 'f, 'z) vtstate_scheme \<Rightarrow> ('v, 'f, 'z) vtstate_scheme" where
  "chVTDoSetI vtp delay f s =
    (let s = s\<lparr>vfunc := (vfunc s)(vtp := Some f)\<rparr>;
         now = chVTGetSystemTimeX s;
         delay = (if delay < CH_CFG_ST_TIMEDELTA then CH_CFG_ST_TIMEDELTA else delay)
     in case vtl s of
          [] \<Rightarrow> s\<lparr>lasttime := now, vtl := [(vtp, delay)], alarm := Some (now + delay)\<rparr>
        | (p, d) # r \<Rightarrow>
            (let since = uint now - uint (lasttime s);
                 delta = (word_of_int (since + uint delay) :: systime)
             in if uint delta < since
                then s\<lparr>vtl := (p, d) # vt_scan vtp (delta - d) r\<rparr>
                else (let s = (if delta < d then s\<lparr>alarm := Some (lasttime s + delta)\<rparr> else s)
                      in s\<lparr>vtl := vt_scan vtp delta ((p, d) # r)\<rparr>)))"

text \<open>Unlinking a timer; its delta goes to its successor unless that is the header.\<close>

fun vt_unlink :: "'v \<Rightarrow> ('v \<times> systime) list \<Rightarrow> ('v \<times> systime) list" where
  "vt_unlink vtp [] = []"
| "vt_unlink vtp ((p, d) # r) =
    (if p = vtp then (case r of [] \<Rightarrow> [] | (q, e) # r' \<Rightarrow> (q, e + d) # r')
     else (p, d) # vt_unlink vtp r)"

definition chVTDoResetI :: "'v \<Rightarrow> ('v, 'f, 'z) vtstate_scheme \<Rightarrow> ('v, 'f, 'z) vtstate_scheme" where
  "chVTDoResetI vtp s =
    (let first = (case vtl s of [] \<Rightarrow> False | (p, _) # _ \<Rightarrow> p = vtp);
         s = s\<lparr>vtl := vt_unlink vtp (vtl s), vfunc := (vfunc s)(vtp := None)\<rparr>
     in if \<not> first then s
        else case vtl s of
          [] \<Rightarrow> s\<lparr>alarm := None\<rparr>
        | (q, e) # _ \<Rightarrow>
            (let nowdelta = chVTGetSystemTimeX s - lasttime s
             in if nowdelta \<ge> e then s
                else (let delta = e - nowdelta;
                          delta = (if delta < CH_CFG_ST_TIMEDELTA then CH_CFG_ST_TIMEDELTA else delta)
                      in s\<lparr>alarm := Some (lasttime s + nowdelta + delta)\<rparr>)))"

definition chVTResetI :: "'v \<Rightarrow> ('v, 'f, 'z) vtstate_scheme \<Rightarrow> ('v, 'f, 'z) vtstate_scheme" where
  "chVTResetI vtp s = (if chVTIsArmedI vtp s then chVTDoResetI vtp s else s)"

definition chVTSetI :: "'v \<Rightarrow> systime \<Rightarrow> 'f \<Rightarrow> ('v, 'f, 'z) vtstate_scheme \<Rightarrow> ('v, 'f, 'z) vtstate_scheme" where
  "chVTSetI vtp delay f s = chVTDoSetI vtp delay f (chVTResetI vtp s)"

text \<open>
  The tick handler.  \<open>run f\<close> is the effect of the call \<open>fn(vtp->par)\<close>, during which the lock
  is released: it may set and reset timers and time may pass, so the loop need not end and the
  function is partial.  It is also undefined when the loop reaches the header with
  \<open>now - lasttime = 65535\<close>, since the header is not a timer, and when it fires a timer whose
  function is NULL.
\<close>

partial_function (option) chVTDoTickI ::
  "('f \<Rightarrow> ('v, 'f, 'z) vtstate_scheme \<Rightarrow> ('v, 'f, 'z) vtstate_scheme) \<Rightarrow>
    ('v, 'f, 'z) vtstate_scheme \<Rightarrow> ('v, 'f, 'z) vtstate_scheme option" where
  "chVTDoTickI run s =
    (let now = chVTGetSystemTimeX s in
     case vtl s of
       [] \<Rightarrow> if now - lasttime s = - 1 then None else Some s
     | (v, d) # r \<Rightarrow>
         if d \<le> now - lasttime s
         then (case vfunc s v of
                 None \<Rightarrow> None
               | Some f \<Rightarrow> chVTDoTickI run (run f
                   (s\<lparr>lasttime := lasttime s + d, vtl := r, vfunc := (vfunc s)(v := None),
                      alarm := (if r = [] then None else alarm s)\<rparr>)))
         else (let delta = lasttime s + d - now;
                   delta = (if delta < CH_CFG_ST_TIMEDELTA then CH_CFG_ST_TIMEDELTA else delta)
               in Some (s\<lparr>alarm := Some (now + delta)\<rparr>)))"

section \<open>Deadlines\<close>

text \<open>
  The deadline of every timer, in ticks after \<open>lasttime\<close> and not truncated: the sum of the
  deltas up to it.
\<close>

fun deadlines :: "nat \<Rightarrow> ('v \<times> systime) list \<Rightarrow> ('v \<times> nat) list" where
  "deadlines t [] = []"
| "deadlines t ((v, d) # r) = (v, t + unat d) # deadlines (t + unat d) r"

definition elapsed :: "('v, 'f, 'z) vtstate_scheme \<Rightarrow> nat" where
  "elapsed s = unat (stime s - lasttime s)"

lemma map_fst_deadlines [simp]: "map fst (deadlines t l) = map fst l"
  by (induction t l rule: deadlines.induct) auto

lemma deadlines_ge: "(v, c) \<in> set (deadlines t l) \<Longrightarrow> t \<le> c"
  by (induction t l rule: deadlines.induct) (auto intro: order_trans)

lemma sorted_deadlines: "sorted (map snd (deadlines t l))"
  by (induction t l rule: deadlines.induct) (auto dest: deadlines_ge)

lemma deadlines_shift: "deadlines (a + t) l = map (\<lambda>(v, c). (v, a + c)) (deadlines t l)"
  by (induction t l rule: deadlines.induct) (auto simp: add.assoc)

text \<open>Inserting a deadline before the first that is not earlier.\<close>

definition ins_deadline :: "'v \<Rightarrow> nat \<Rightarrow> ('v \<times> nat) list \<Rightarrow> ('v \<times> nat) list" where
  "ins_deadline v c L = takeWhile (\<lambda>(_, c'). c' < c) L @ (v, c) # dropWhile (\<lambda>(_, c'). c' < c) L"

lemma unat_diff_word: "(b :: systime) \<le> a \<Longrightarrow> unat (a - b) = unat a - unat b"
  by (rule unat_sub)

lemma deadlines_vt_scan:
  "deadlines t (vt_scan v d l) = ins_deadline v (t + unat d) (deadlines t l)"
proof (induction v d l arbitrary: t rule: vt_scan.induct)
  case (1 vtp delta)
  then show ?case by (simp add: ins_deadline_def)
next
  case (2 vtp delta p d r)
  show ?case
  proof (cases "d < delta")
    case True
    then have "unat (delta - d) = unat delta - unat d" "unat d < unat delta"
      by (auto intro!: unat_diff_word simp: word_less_nat_alt less_imp_le)
    then show ?thesis using True 2 by (simp add: ins_deadline_def)
  next
    case False
    then have "unat (d - delta) = unat d - unat delta" "unat delta \<le> unat d"
      by (auto intro!: unat_diff_word simp: word_le_nat_alt not_less)
    then show ?thesis using False by (simp add: ins_deadline_def)
  qed
qed

text \<open>
  A timer list is consistent when its timers are different and are exactly the armed ones.
\<close>

definition vt_inv :: "('v, 'f, 'z) vtstate_scheme \<Rightarrow> bool" where
  "vt_inv s \<longleftrightarrow> distinct (map fst (vtl s)) \<and> (\<forall>v. v \<in> fst ` set (vtl s) \<longleftrightarrow> vfunc s v \<noteq> None)"

lemma map_fst_vt_scan: "set (map fst (vt_scan v d l)) = insert v (set (map fst l))"
  by (induction v d l rule: vt_scan.induct) auto

lemma fst_image_vt_scan [simp]: "fst ` set (vt_scan v d l) = insert v (fst ` set l)"
  using map_fst_vt_scan [of v d l] by simp

lemma distinct_vt_scan:
  "v \<notin> fst ` set l \<Longrightarrow> distinct (map fst l) \<Longrightarrow> distinct (map fst (vt_scan v d l))"
  by (induction v d l rule: vt_scan.induct) auto

lemma map_fst_vt_unlink: "map fst (vt_unlink v l) = remove1 v (map fst l)"
  by (induction v l rule: vt_unlink.induct) (auto split: list.splits)

text \<open>The base of the list: setting a timer in an empty list moves it to the current time.\<close>

definition timeline :: "('v, 'f, 'z) vtstate_scheme \<Rightarrow> ('v \<times> nat) list" where
  "timeline s = deadlines 0 (vtl s)"

text \<open>
  The two 16-bit computations are exact when the promoted difference \<open>now - lasttime\<close> is not
  negative, or the sum of the elapsed time and the delay fits in 16 bits.
\<close>

definition min_delay :: "systime \<Rightarrow> nat" where
  "min_delay delay = max 2 (unat delay)"

lemma min_delay_unat:
  "unat (if delay < CH_CFG_ST_TIMEDELTA then CH_CFG_ST_TIMEDELTA else delay) = min_delay delay"
  by (auto simp: min_delay_def CH_CFG_ST_TIMEDELTA_def word_less_nat_alt)

lemma elapsed_le: "elapsed s < 65536"
  unfolding elapsed_def using unsigned_less [of "stime s - lasttime s"] by simp

lemma int_elapsed: "int (elapsed s) = (uint (stime s) - uint (lasttime s)) mod 65536"
proof -
  have "int (elapsed s) = uint (stime s - lasttime s)" by (simp add: elapsed_def)
  then show ?thesis by (simp only: uint_word_ariths) simp
qed

lemma uint_diff_elapsed:
  assumes "lasttime s \<le> stime s"
  shows "uint (stime s) - uint (lasttime s) = int (elapsed s)"
proof -
  have "uint (lasttime s) \<le> uint (stime s)" using assms by (simp add: word_le_def)
  moreover have "uint (stime s) < 65536" using unsigned_less [of "stime s"] by simp
  moreover have "0 \<le> uint (lasttime s)" by simp
  ultimately show ?thesis
    by (simp only: int_elapsed, intro mod_pos_pos_trivial [symmetric]) linarith+
qed

lemma unat_delta:
  "unat (word_of_int (uint (stime s) - uint (lasttime s) + uint d) :: systime) =
    (elapsed s + unat d) mod 65536"
proof -
  have "int (unat (word_of_int (uint (stime s) - uint (lasttime s) + uint d) :: systime)) =
      (uint (stime s) - uint (lasttime s) + uint d) mod 65536"
    by (simp only: uint_nat [symmetric] uint_word_of_int) simp
  also have "\<dots> = (int (elapsed s) + int (unat d)) mod 65536"
    by (simp add: int_elapsed mod_add_left_eq)
  also have "\<dots> = int ((elapsed s + unat d) mod 65536)" by (simp add: zmod_int)
  finally show ?thesis by (simp only: of_nat_eq_iff)
qed

section \<open>Setting a timer\<close>

text \<open>What a correct insertion does: the new deadline is \<open>elapsed + delay\<close>, all others stay.\<close>

lemma chVTDoSetI_fields [simp]:
  "stime (chVTDoSetI v d f s) = stime s"
  "vfunc (chVTDoSetI v d f s) = (vfunc s)(v := Some f)"
  by (auto simp: chVTDoSetI_def Let_def split: list.splits)

lemma chVTDoSetI_lasttime: "vtl s \<noteq> [] \<Longrightarrow> lasttime (chVTDoSetI v d f s) = lasttime s"
  by (auto simp: chVTDoSetI_def Let_def split: list.splits)

lemma chVTDoSetI_empty:
  assumes "vtl s = []"
  shows "timeline (chVTDoSetI v d f s) = [(v, min_delay d)] \<and>
    lasttime (chVTDoSetI v d f s) = stime s"
  using assms min_delay_unat [of d]
  by (simp add: chVTDoSetI_def Let_def timeline_def chVTGetSystemTimeX_def)

lemma chVTDoSetI_vtl:
  fixes delay v f s
  defines "dl \<equiv> if delay < CH_CFG_ST_TIMEDELTA then CH_CFG_ST_TIMEDELTA else delay"
  defines "dd \<equiv> word_of_int (uint (stime s) - uint (lasttime s) + uint dl) :: systime"
  assumes "vtl s = (p, d) # r"
  shows "vtl (chVTDoSetI v delay f s) =
    (if uint dd < uint (stime s) - uint (lasttime s)
     then (p, d) # vt_scan v (dd - d) r else vt_scan v dd ((p, d) # r))"
  using assms(3) unfolding dd_def dl_def
  by (simp add: chVTDoSetI_def Let_def chVTGetSystemTimeX_def)

lemma timeline_vt_scan:
  "deadlines 0 (vt_scan v d l) = ins_deadline v (unat d) (deadlines 0 l)"
  by (simp add: deadlines_vt_scan)

lemma chVTDoSetI_timers:
  "fst ` set (vtl (chVTDoSetI v d f s)) = insert v (fst ` set (vtl s)) \<and>
    (v \<notin> fst ` set (vtl s) \<longrightarrow> distinct (map fst (vtl s)) \<longrightarrow> distinct (map fst (vtl (chVTDoSetI v d f s))))"
proof (cases "vtl s")
  case Nil
  then show ?thesis by (simp add: chVTDoSetI_def Let_def)
next
  case (Cons pd r)
  obtain p e where pd: "pd = (p, e)" by (cases pd)
  have l: "vtl s = (p, e) # r" using Cons pd by simp
  show ?thesis
    unfolding chVTDoSetI_vtl [OF l] unfolding l
    by (auto simp: distinct_vt_scan simp del: vt_scan.simps)
qed

lemma vt_set_inv:
  assumes "vt_inv s" and "vfunc s v = None"
  shows "vt_inv (chVTDoSetI v d f s)"
proof -
  have v: "v \<notin> fst ` set (vtl s)" using assms by (auto simp: vt_inv_def)
  show ?thesis unfolding vt_inv_def
    using chVTDoSetI_timers [of v d f s] v assms(1) by (simp add: vt_inv_def)
qed

text \<open>
  In a list that is not empty the insertion is exact when either the sum fits in 16 bits,
  or the promoted difference is not negative and the first timer is not overdue.
\<close>

definition set_exact :: "systime \<Rightarrow> ('v, 'f, 'z) vtstate_scheme \<Rightarrow> bool" where
  "set_exact delay s \<longleftrightarrow> elapsed s + min_delay delay < 65536 \<or>
    lasttime s \<le> stime s \<and> (\<forall>p d. (p, d) = hd (vtl s) \<longrightarrow> elapsed s \<le> unat d)"

lemma chVTDoSetI_nonempty:
  assumes ne: "vtl s \<noteq> []" and ex: "set_exact delay s"
  shows "timeline (chVTDoSetI v delay f s) =
    ins_deadline v (elapsed s + min_delay delay) (timeline s)"
proof -
  obtain p d r where l: "vtl s = (p, d) # r" using ne by (cases "vtl s") auto
  define dl where "dl = (if delay < CH_CFG_ST_TIMEDELTA then CH_CFG_ST_TIMEDELTA else delay)"
  define dd :: systime where "dd = word_of_int (uint (stime s) - uint (lasttime s) + uint dl)"
  let ?m = "min_delay delay"
  have dl: "unat dl = ?m" unfolding dl_def by (rule min_delay_unat)
  have m: "2 \<le> ?m" "?m < 65536" using unsigned_less [of delay] by (auto simp: min_delay_def)
  have ddm: "unat dd = (elapsed s + ?m) mod 65536" unfolding dd_def unat_delta dl ..
  have e: "elapsed s < 65536" by (rule elapsed_le)
  have vtl: "vtl (chVTDoSetI v delay f s) =
      (if uint dd < uint (stime s) - uint (lasttime s)
       then (p, d) # vt_scan v (dd - d) r else vt_scan v dd ((p, d) # r))"
    unfolding dd_def dl_def by (rule chVTDoSetI_vtl [OF l])
  show ?thesis
  proof (cases "elapsed s + ?m < 65536")
    case True
    then have dd: "unat dd = elapsed s + ?m" using ddm by simp
    have "uint (stime s) - uint (lasttime s) \<le> int (elapsed s)"
    proof (cases "lasttime s \<le> stime s")
      case True
      then show ?thesis using uint_diff_elapsed [OF True] by simp
    next
      case False
      then show ?thesis by (simp add: word_le_def)
    qed
    moreover have "uint dd = int (elapsed s + ?m)" using dd by (metis uint_nat)
    ultimately have "\<not> uint dd < uint (stime s) - uint (lasttime s)" by linarith
    then show ?thesis
      unfolding timeline_def vtl l using dd deadlines_vt_scan [of 0 v dd "(p, d) # r"] by simp
  next
    case False
    then have le: "lasttime s \<le> stime s" and ed: "elapsed s \<le> unat d"
      using ex l by (auto simp: set_exact_def)
    have dd: "unat dd = elapsed s + ?m - 65536" using ddm False e m by (simp add: mod_if)
    have "uint dd = int (elapsed s + ?m - 65536)" using dd by (metis uint_nat)
    moreover have "elapsed s + ?m - 65536 < elapsed s" using m False by linarith
    ultimately have "uint dd < uint (stime s) - uint (lasttime s)"
      unfolding uint_diff_elapsed [OF le] by linarith
    then have vtl: "vtl (chVTDoSetI v delay f s) = (p, d) # vt_scan v (dd - d) r" using vtl by simp
    have lt: "dd < d" using dd m ed False by (simp add: word_less_nat_alt)
    have "unat (dd - d) = elapsed s + ?m - unat d"
      using lt dd False by (simp add: unat_sub_if' word_less_nat_alt)
    moreover have du: "unat d < elapsed s + ?m" using False unsigned_less [of d, where ?'a = nat] by simp
    ultimately have dc: "unat d + unat (dd - d) = elapsed s + ?m" by simp
    show ?thesis
      unfolding timeline_def vtl l
      using dc du deadlines_vt_scan [of "unat d" v "dd - d" r] by (simp add: ins_deadline_def)
  qed
qed

section \<open>Resetting a timer\<close>

text \<open>The delta handed to the successor must fit in 16 bits.\<close>

fun unlink_fits :: "'v \<Rightarrow> ('v \<times> systime) list \<Rightarrow> bool" where
  "unlink_fits vtp [] \<longleftrightarrow> True"
| "unlink_fits vtp ((p, d) # r) \<longleftrightarrow>
    (if p = vtp then (case r of [] \<Rightarrow> True | (q, e) # _ \<Rightarrow> unat d + unat e < 65536)
     else unlink_fits vtp r)"

lemma deadlines_vt_unlink:
  "unlink_fits v l \<Longrightarrow> distinct (map fst l) \<Longrightarrow>
    deadlines t (vt_unlink v l) = filter (\<lambda>(w, _). w \<noteq> v) (deadlines t l)"
proof (induction v l arbitrary: t rule: vt_unlink.induct)
  case (1 vtp)
  then show ?case by simp
next
  case (2 vtp p d r)
  show ?case
  proof (cases "p = vtp")
    case True
    have "filter (\<lambda>(w, _). w \<noteq> vtp) (deadlines u r) = deadlines u r" for u
    proof (rule filter_True, clarify)
      fix c assume "(vtp, c) \<in> set (deadlines u r)"
      then have "fst (vtp, c) \<in> set (map fst (deadlines u r))" unfolding set_map by (rule imageI)
      then show False using 2 True by simp
    qed
    moreover have "unat (e + d) = unat d + unat e" if "r = (q, e) # r'" for q e r'
      using 2(2) True that by (simp add: unat_word_ariths)
    ultimately show ?thesis using True 2(2,3)
      by (cases r) (auto simp: add.assoc)
  next
    case False
    then show ?thesis using 2 by simp
  qed
qed

lemma chVTDoResetI_fields [simp]:
  "vtl (chVTDoResetI v s) = vt_unlink v (vtl s)"
  "vfunc (chVTDoResetI v s) = (vfunc s)(v := None)"
  "lasttime (chVTDoResetI v s) = lasttime s"
  "stime (chVTDoResetI v s) = stime s"
  by (auto simp: chVTDoResetI_def Let_def split: list.splits)

lemma vt_reset_inv: "vt_inv s \<Longrightarrow> vt_inv (chVTDoResetI v s)"
proof -
  assume i: "vt_inv s"
  have "set (map fst (vt_unlink v (vtl s))) = set (map fst (vtl s)) - {v}"
    using i unfolding map_fst_vt_unlink by (simp add: vt_inv_def set_remove1_eq)
  then have "fst ` set (vt_unlink v (vtl s)) = fst ` set (vtl s) - {v}" by simp
  then show ?thesis
    using i by (auto simp: vt_inv_def map_fst_vt_unlink)
qed

section \<open>The tick handler\<close>

text \<open>Observing the handler: every callback appends its function to a log.\<close>

record ('v, 'f) vtlog = "('v, 'f) vtstate" +
  fired :: "'f list"

definition log_run :: "'f \<Rightarrow> ('v, 'f, 'z) vtlog_scheme \<Rightarrow> ('v, 'f, 'z) vtlog_scheme" where
  "log_run f s = s\<lparr>fired := fired s @ [f]\<rparr>"

definition due :: "('v, 'f, 'z) vtstate_scheme \<Rightarrow> ('v \<times> nat) list" where
  "due s = takeWhile (\<lambda>(v, c). c \<le> elapsed s) (timeline s)"

text \<open>
  \<open>fires s s'\<close>: from \<open>s\<close> to \<open>s'\<close> exactly the due timers were called, in deadline order, and
  every other timer keeps its deadline, \<open>lasttime\<close> having moved by \<open>b\<close>.
\<close>

definition fires :: "('v, 'f, 'z) vtlog_scheme \<Rightarrow> ('v, 'f, 'z) vtlog_scheme \<Rightarrow> bool" where
  "fires s s' \<longleftrightarrow>
    fired s' = fired s @ map (\<lambda>(v, _). the (vfunc s v)) (due s) \<and>
    (\<exists>b. timeline s = due s @ map (\<lambda>(v, c). (v, b + c)) (timeline s') \<and>
      lasttime s' = lasttime s + of_nat b \<and> b + elapsed s' = elapsed s) \<and>
    stime s' = stime s \<and> vt_inv s'"

lemma elapsed_step:
  "d \<le> stime s - lasttime s \<Longrightarrow>
    unat (stime s - (lasttime s + d)) + unat d = elapsed s"
proof -
  assume d: "d \<le> stime s - lasttime s"
  have "stime s - (lasttime s + d) = (stime s - lasttime s) - d" by simp
  then have "unat (stime s - (lasttime s + d)) = elapsed s - unat d"
    using unat_diff_word [OF d] by (simp only: elapsed_def)
  then show ?thesis using d by (simp add: elapsed_def word_le_nat_alt)
qed

text \<open>The first timer is due: what is left when it is removed, in any state that agrees on the list and the time.\<close>

lemma due_step:
  assumes l: "vtl s = (v, d) # r" and d: "d \<le> stime s - lasttime s"
    and t: "vtl t = r" "lasttime t = lasttime s + d" "stime t = stime s"
  shows "elapsed t + unat d = elapsed s"
    and "timeline s = (v, unat d) # map (\<lambda>(w, c). (w, unat d + c)) (timeline t)"
    and "due s = (v, unat d) # map (\<lambda>(w, c). (w, unat d + c)) (due t)"
proof -
  show el: "elapsed t + unat d = elapsed s" using elapsed_step [OF d] t by (simp add: elapsed_def)
  show tl: "timeline s = (v, unat d) # map (\<lambda>(w, c). (w, unat d + c)) (timeline t)"
    using deadlines_shift [of "unat d" 0 r] by (simp add: timeline_def l t)
  have "takeWhile (\<lambda>(w, c). c \<le> elapsed s) (map (\<lambda>(w, c). (w, unat d + c)) L)
      = map (\<lambda>(w, c). (w, unat d + c)) (takeWhile (\<lambda>(w, c). c \<le> elapsed t) L)" for L :: "('a \<times> nat) list"
    by (induction L) (use el in auto)
  then show "due s = (v, unat d) # map (\<lambda>(w, c). (w, unat d + c)) (due t)"
    unfolding due_def tl using el by simp
qed

lemma due_none: "vtl s = [] \<or> \<not> snd (hd (vtl s)) \<le> stime s - lasttime s \<Longrightarrow> due s = []"
  by (cases "vtl s") (auto simp: due_def timeline_def elapsed_def word_le_nat_alt)

definition fire_first :: "'f \<Rightarrow> systime \<Rightarrow> ('v \<times> systime) list \<Rightarrow> 'v \<Rightarrow> ('v, 'f, 'z) vtlog_scheme \<Rightarrow> ('v, 'f, 'z) vtlog_scheme" where
  "fire_first f d r v s =
    log_run f (s\<lparr>lasttime := lasttime s + d, vtl := r, vfunc := (vfunc s)(v := None),
      alarm := (if r = [] then None else alarm s)\<rparr>)"

lemma fires_step:
  assumes i: "vt_inv s" and l: "vtl s = (v, d) # r" and d: "d \<le> stime s - lasttime s"
    and f: "vfunc s v = Some f"
  shows "vt_inv (fire_first f d r v s) \<and> elapsed (fire_first f d r v s) + unat d = elapsed s \<and>
    (fires (fire_first f d r v s) s' \<longrightarrow> fires s s')"
proof -
  let ?t = "fire_first f d r v s"
  have dist: "v \<notin> fst ` set r" "distinct (map fst r)" using i l by (auto simp: vt_inv_def)
  have inv: "vt_inv ?t"
    using i l dist by (auto simp: vt_inv_def fire_first_def log_run_def)
  have same: "vtl ?t = r" "lasttime ?t = lasttime s + d" "stime ?t = stime s"
    by (simp_all add: fire_first_def log_run_def)
  note el = due_step(1) [OF l d same] and tl = due_step(2) [OF l d same] and dues = due_step(3) [OF l d same]
  have vs: "w \<noteq> v" if "(w, c) \<in> set (due ?t)" for w c
  proof -
    have "(w, c) \<in> set (timeline ?t)" using that unfolding due_def by (meson set_takeWhileD)
    then have "w \<in> set (map fst (timeline ?t))" by force
    then show ?thesis using dist by (auto simp: timeline_def fire_first_def log_run_def)
  qed
  have "fires s s'" if fs: "fires ?t s'"
  proof -
    obtain b where b: "timeline ?t = due ?t @ map (\<lambda>(v, c). (v, b + c)) (timeline s')"
      "lasttime s' = lasttime ?t + of_nat b" "b + elapsed s' = elapsed ?t"
      using fs by (auto simp: fires_def)
    have "timeline s = due s @ map (\<lambda>(v, c). (v, (unat d + b) + c)) (timeline s')"
      unfolding tl dues b(1) by (simp add: o_def split_beta)
    moreover have "lasttime s' = lasttime s + of_nat (unat d + b)"
      using b(2) by (simp add: fire_first_def log_run_def)
    moreover have "(unat d + b) + elapsed s' = elapsed s" using b(3) el by simp
    moreover have "fired s' = fired s @ map (\<lambda>(v, _). the (vfunc s v)) (due s)"
      using fs f vs unfolding dues fires_def by (auto simp: fire_first_def log_run_def)
    moreover have "stime s' = stime s" "vt_inv s'"
      using fs by (auto simp: fires_def fire_first_def log_run_def)
    ultimately show ?thesis unfolding fires_def by blast
  qed
  then show ?thesis using inv el by blast
qed

lemma fires_done:
  assumes "vt_inv s" and "vtl s = [] \<or> \<not> snd (hd (vtl s)) \<le> stime s - lasttime s"
  shows "fires s (s\<lparr>alarm := a\<rparr>)"
proof -
  have due: "due s = []" by (rule due_none [OF assms(2)])
  have "timeline s = due s @ map (\<lambda>(v, c). (v, 0 + c)) (timeline (s\<lparr>alarm := a\<rparr>)) \<and>
      lasttime (s\<lparr>alarm := a\<rparr>) = lasttime s + of_nat 0 \<and> 0 + elapsed (s\<lparr>alarm := a\<rparr>) = elapsed s"
    using due by (simp add: timeline_def elapsed_def)
  moreover have "vt_inv (s\<lparr>alarm := a\<rparr>)" using assms(1) by (simp add: vt_inv_def)
  ultimately show ?thesis unfolding fires_def using due by auto
qed

text \<open>No timer is due: the handler ends with the alarm set for the first deadline.\<close>

lemma tick_rest:
  assumes e: "elapsed s < 65535" and n: "vtl s = [] \<or> \<not> snd (hd (vtl s)) \<le> stime s - lasttime s"
  shows "\<exists>a. chVTDoTickI run s = Some (s\<lparr>alarm := a\<rparr>) \<and>
    (vtl s = [] \<or> (\<exists>v c. hd (timeline s) = (v, c) \<and> elapsed s < c \<and> a = Some (stime s + of_nat (max 2 (c - elapsed s)))))"
proof (cases "vtl s")
  case Nil
  have "stime s - lasttime s \<noteq> - 1"
  proof
    assume "stime s - lasttime s = - 1"
    then show False using e by (simp add: elapsed_def unsigned_minus_1_eq_mask mask_eq_exp_minus_1)
  qed
  then have "chVTDoTickI run s = Some s"
    by (simp add: chVTDoTickI.simps [of run s] Nil chVTGetSystemTimeX_def)
  then show ?thesis using Nil by (auto intro: exI [of _ "alarm s"])
next
  case (Cons pd r)
  obtain v d where l: "vtl s = (v, d) # r" using Cons by (cases pd) auto
  then have nd: "\<not> d \<le> stime s - lasttime s" using n by simp
  let ?w = "lasttime s + d - stime s"
  let ?a = "if ?w < CH_CFG_ST_TIMEDELTA then CH_CFG_ST_TIMEDELTA else ?w"
  have "?w = d - (stime s - lasttime s)" by simp
  moreover have "stime s - lasttime s \<le> d" using nd by simp
  ultimately have w: "unat ?w = unat d - elapsed s"
    unfolding elapsed_def by (simp only: unat_diff_word)
  have lt: "elapsed s < unat d" using nd by (simp add: elapsed_def word_le_nat_alt)
  have "unat ?a = max 2 (unat d - elapsed s)"
    using min_delay_unat [of ?w] w by (simp add: min_delay_def)
  moreover have "of_nat (unat ?a) = ?a" by simp
  ultimately have a: "?a = of_nat (max 2 (unat d - elapsed s))" by simp
  have "chVTDoTickI run s = Some (s\<lparr>alarm := Some (stime s + ?a)\<rparr>)"
    using nd l by (simp add: chVTDoTickI.simps [of run s] chVTGetSystemTimeX_def Let_def)
  then show ?thesis using l lt a by (auto simp: timeline_def)
qed

lemma tick_fires:
  "vt_inv s \<Longrightarrow> elapsed s < 65535 \<Longrightarrow>
    \<exists>s'. chVTDoTickI log_run s = Some s' \<and> fires s s' \<and>
      (vtl s' = [] \<or> (\<exists>v c. hd (timeline s') = (v, c) \<and> elapsed s' < c \<and>
        alarm s' = Some (stime s + of_nat (max 2 (c - elapsed s')))))"
proof (induction "length (vtl s)" arbitrary: s rule: less_induct)
  case less
  note inv = less.prems(1)
  show ?case
  proof (cases "vtl s = [] \<or> \<not> snd (hd (vtl s)) \<le> stime s - lasttime s")
    case True
    obtain a where "chVTDoTickI log_run s = Some (s\<lparr>alarm := a\<rparr>)"
      "vtl s = [] \<or> (\<exists>v c. hd (timeline s) = (v, c) \<and> elapsed s < c \<and> a = Some (stime s + of_nat (max 2 (c - elapsed s))))"
      using tick_rest [OF less.prems(2) True] by blast
    then show ?thesis using fires_done [OF inv True, of a] by (auto simp: timeline_def elapsed_def)
  next
    case False
    then obtain v d r where l: "vtl s = (v, d) # r" and d: "d \<le> stime s - lasttime s" by (cases "vtl s") auto
    obtain f where f: "vfunc s v = Some f"
      using inv l by (force simp: vt_inv_def)
    let ?t = "fire_first f d r v s"
    have st: "vt_inv ?t" "elapsed ?t + unat d = elapsed s" "\<And>s'. fires ?t s' \<Longrightarrow> fires s s'"
      using fires_step [OF inv l d f] by blast+
    have "length (vtl ?t) < length (vtl s)" using l by (simp add: fire_first_def log_run_def)
    from less.hyps [OF this st(1)] st(2) less.prems(2) obtain s' where s':
      "chVTDoTickI log_run ?t = Some s'" "fires ?t s'"
      "vtl s' = [] \<or> (\<exists>v c. hd (timeline s') = (v, c) \<and> elapsed s' < c \<and>
        alarm s' = Some (stime ?t + of_nat (max 2 (c - elapsed s'))))" by auto
    have "chVTDoTickI log_run s = chVTDoTickI log_run ?t"
      using d f l by (simp add: chVTDoTickI.simps [of log_run s] chVTGetSystemTimeX_def fire_first_def Let_def)
    moreover have "stime ?t = stime s" by (simp add: fire_first_def log_run_def)
    ultimately show ?thesis using s' st(3) by auto
  qed
qed

section \<open>Claims\<close>

text \<open>
  Setting a timer that is not armed keeps the list consistent; in an empty list it becomes
  the only deadline, \<open>max 2 delay\<close> ticks from now; otherwise, when the 16-bit computation is
  exact, its deadline is \<open>elapsed + max 2 delay\<close> ticks after \<open>lasttime\<close>, inserted in
  order, and no other deadline changes.
\<close>

theorem chVTDoSetI_correct:
  assumes "vt_inv s" and "vfunc s v = None" and "set_exact delay s"
  shows "vt_inv (chVTDoSetI v delay f s) \<and> vfunc (chVTDoSetI v delay f s) v = Some f \<and>
    (if vtl s = []
     then timeline (chVTDoSetI v delay f s) = [(v, min_delay delay)] \<and>
       lasttime (chVTDoSetI v delay f s) = stime s
     else timeline (chVTDoSetI v delay f s) =
         ins_deadline v (elapsed s + min_delay delay) (timeline s) \<and>
       lasttime (chVTDoSetI v delay f s) = lasttime s)"
  using vt_set_inv [OF assms(1,2)] chVTDoSetI_empty [of s v delay f]
    chVTDoSetI_nonempty [OF _ assms(3)] chVTDoSetI_lasttime [of s v delay f] by simp

text \<open>Two armed timers, 16 and 100 ticks after \<open>lasttime\<close>.\<close>

definition vt_example :: "(nat, nat) vtstate" where
  "vt_example = \<lparr>vtl = [(1, 16), (2, 84)], lasttime = 1000,
    vfunc = (\<lambda>v. if v = 1 then Some 10 else if v = 2 then Some 20 else None),
    alarm = Some 1016, stime = 1010\<rparr>"

lemma vt_example_inv: "vt_inv vt_example"
  by (auto simp: vt_inv_def vt_example_def)

lemma chVTDoSetI_correct_witness:
  "timeline (chVTDoSetI 3 50 30 vt_example) = [(1, 16), (3, 60), (2, 100)]"
proof -
  have "set_exact 50 vt_example"
    by (simp add: set_exact_def elapsed_def vt_example_def min_delay_def)
  from chVTDoSetI_correct [OF vt_example_inv _ this, of 3 30]
  show ?thesis
    by (simp add: timeline_def vt_example_def ins_deadline_def elapsed_def min_delay_def)
qed

text \<open>
  Resetting an armed timer removes its deadline and no other one, disarms it, and, when it
  was the next deadline, stops the alarm of an empty list.
\<close>

theorem chVTDoResetI_correct:
  assumes "vt_inv s" and "unlink_fits v (vtl s)"
  shows "vt_inv (chVTDoResetI v s) \<and> vfunc (chVTDoResetI v s) v = None \<and>
    timeline (chVTDoResetI v s) = filter (\<lambda>(w, _). w \<noteq> v) (timeline s) \<and>
    lasttime (chVTDoResetI v s) = lasttime s \<and>
    (map fst (vtl s) = [v] \<longrightarrow> alarm (chVTDoResetI v s) = None)"
proof -
  have "alarm (chVTDoResetI v s) = None" if l: "map fst (vtl s) = [v]"
  proof -
    from l obtain d where "vtl s = [(v, d)]" by (cases "vtl s") auto
    then show ?thesis by (simp add: chVTDoResetI_def)
  qed
  then show ?thesis
    using assms vt_reset_inv [OF assms(1)] deadlines_vt_unlink [OF assms(2), of 0]
    by (simp add: timeline_def vt_inv_def)
qed

lemma chVTDoResetI_correct_witness:
  "timeline (chVTDoResetI 1 vt_example) = [(2, 100)]"
  using chVTDoResetI_correct [OF vt_example_inv, of 1]
  by (simp add: timeline_def vt_example_def)

text \<open>
  C18: When less than 65535 ticks have elapsed, the tick handler returns; it calls exactly the
  functions of the timers that are due, in deadline order, disarms them, keeps the deadline of
  every other timer, and programs the alarm for the next deadline, at least two ticks ahead.
\<close>

theorem chVTDoTickI_correct:
  assumes "vt_inv s" and "elapsed s < 65535"
  shows "\<exists>s'. chVTDoTickI log_run s = Some s' \<and> fires s s' \<and>
    (vtl s' = [] \<or> (\<exists>v c. hd (timeline s') = (v, c) \<and> elapsed s' < c \<and>
      alarm s' = Some (stime s + of_nat (max 2 (c - elapsed s')))))"
  using tick_fires [OF assms] .

definition vt_log_example :: "(nat, nat) vtlog" where
  "vt_log_example = vtstate.extend vt_example \<lparr>fired = []\<rparr>\<lparr>stime := 1020\<rparr>"

lemma chVTDoTickI_correct_witness:
  "\<exists>s'. chVTDoTickI log_run vt_log_example = Some s' \<and> fired s' = [10]"
proof -
  have i: "vt_inv vt_log_example"
    by (auto simp: vt_inv_def vt_log_example_def vt_example_def vtstate.defs)
  have e: "elapsed vt_log_example < 65535"
    by (simp add: elapsed_def vt_log_example_def vt_example_def vtstate.defs)
  from chVTDoTickI_correct [OF i e] obtain s' where
    "chVTDoTickI log_run vt_log_example = Some s'" "fires vt_log_example s'" by blast
  then show ?thesis
    by (auto simp: fires_def due_def timeline_def elapsed_def vt_log_example_def vt_example_def vtstate.defs)
qed

text \<open>
  The overflow test of chVTDoSetI compares a 16-bit value with a promoted difference that
  is negative when the counter has wrapped since \<open>lasttime\<close>: a timer set for 65535 ticks, 6
  ticks after \<open>lasttime\<close>, is inserted with a deadline that is already in the past, and the
  tick handler fires it at once.
\<close>

definition vt_wrap_example :: "(nat, nat) vtlog" where
  "vt_wrap_example = \<lparr>vtl = [(1, 100)], lasttime = 65535,
    vfunc = (\<lambda>v. if v = 1 then Some 10 else None), alarm = Some 99, stime = 5, fired = []\<rparr>"

theorem chVTDoSetI_wrap_fires_early:
  "timeline (chVTDoSetI 2 65535 20 vt_wrap_example) = [(2, 5), (1, 100)] \<and>
    elapsed (chVTDoSetI 2 65535 20 vt_wrap_example) = 6 \<and>
    map_option fired (chVTDoTickI log_run (chVTDoSetI 2 65535 20 vt_wrap_example)) = Some [20]"
proof -
  let ?s = "chVTDoSetI 2 65535 20 vt_wrap_example"
  have s: "?s = vt_wrap_example\<lparr>vtl := [(2, 5), (1, 95)], alarm := Some 4,
      vfunc := (\<lambda>v. if v = 2 then Some 20 else if v = 1 then Some 10 else None)\<rparr>"
    by (simp add: chVTDoSetI_def vt_wrap_example_def chVTGetSystemTimeX_def CH_CFG_ST_TIMEDELTA_def fun_eq_iff)
  have "vt_inv ?s" unfolding s vt_inv_def by (auto simp: vt_wrap_example_def)
  moreover have e: "elapsed ?s = 6" unfolding s by (simp add: elapsed_def vt_wrap_example_def)
  ultimately obtain s' where "chVTDoTickI log_run ?s = Some s'" "fires ?s s'"
    using tick_fires [of ?s] by auto
  moreover have "timeline ?s = [(2, 5), (1, 100)]" unfolding s by (simp add: timeline_def)
  moreover have "fired ?s = []" "vfunc ?s 2 = Some 20" unfolding s by (simp_all add: vt_wrap_example_def)
  ultimately show ?thesis
    using e by (auto simp: fires_def due_def)
qed

text \<open>
  Deltas can add up to more than 16 bits.  Resetting the first timer then truncates the
  deadline of its successor: from 110000 ticks it becomes 44464, although 50000 have elapsed.
\<close>

definition vt_carry_example :: "(nat, nat) vtstate" where
  "vt_carry_example = chVTDoSetI 2 60000 20
    (chVTDoSetI 1 60000 10 \<lparr>vtl = [], lasttime = 0, vfunc = (\<lambda>_. None), alarm = None, stime = 0\<rparr>
      \<lparr>stime := 50000\<rparr>)"

theorem chVTDoResetI_carry_truncates:
  "timeline vt_carry_example = [(1, 60000), (2, 110000)] \<and>
    timeline (chVTDoResetI 1 vt_carry_example) = [(2, 44464)] \<and>
    elapsed (chVTDoResetI 1 vt_carry_example) = 50000"
  by (simp add: vt_carry_example_def chVTDoSetI_def chVTDoResetI_def chVTGetSystemTimeX_def
      CH_CFG_ST_TIMEDELTA_def timeline_def elapsed_def)

end
