(* ===== verification/Kernel.thy ===== *)
theory Kernel
  imports ThdQueues VTimers
begin

text \<open>
  The kernel state and the scheduler (chschd.c, chschd.h).

  A pointer is a 32-bit word, \<open>NULL\<close> is 0.  Every thread queue is a list indexed by the
  address of its header (ThdQueues shows that the links in memory implement these lists).
  The union \<open>u\<close> of a thread is the 32-bit word its members share.  The state extends the
  virtual timer state, since a sleep with timeout arms a timer on the sleeping thread's stack.
  A switch of context is the change of \<open>current\<close>; what a sleeping thread does when it is
  scheduled again is the separate definition with the suffix \<open>_resume\<close>.
\<close>

section \<open>Data\<close>

type_synonym ptr = u32
type_synonym tprio = u32
type_synonym msg = u32
text \<open>
  \<open>cnt_t\<close> is a signed 32-bit integer whose overflow is undefined behaviour in C; counters are
  integers here, and no operation is claimed to be correct beyond \<open>2 ^ 31\<close> pending signals.
\<close>

type_synonym cnt = int

abbreviation NULL :: ptr where "NULL \<equiv> 0"

definition MSG_OK :: msg where "MSG_OK = 0"
definition MSG_TIMEOUT :: msg where "MSG_TIMEOUT = - 1"
definition MSG_RESET :: msg where "MSG_RESET = - 2"

definition NOPRIO :: tprio where "NOPRIO = 0"
definition IDLEPRIO :: tprio where "IDLEPRIO = 1"
definition LOWPRIO :: tprio where "LOWPRIO = 2"
definition NORMALPRIO :: tprio where "NORMALPRIO = 128"
definition HIGHPRIO :: tprio where "HIGHPRIO = 255"

datatype tstate =
    CH_STATE_READY | CH_STATE_CURRENT | CH_STATE_WTSTART | CH_STATE_SUSPENDED | CH_STATE_QUEUED
  | CH_STATE_WTSEM | CH_STATE_WTMTX | CH_STATE_WTCOND | CH_STATE_SLEEPING | CH_STATE_WTEXIT
  | CH_STATE_WTOREVT | CH_STATE_WTANDEVT | CH_STATE_SNDMSGQ | CH_STATE_SNDMSG | CH_STATE_WTMSG
  | CH_STATE_FINAL

text \<open>
  A queue header: the ready list, the \<open>queue\<close> field at offset 0 of a semaphore, mutex,
  condition variable or threads queue object, or the \<open>msgqueue\<close> field of a thread.
\<close>

datatype qhdr = RLIST | QOBJ ptr | MSGQ ptr

text \<open>
  The fields of \<open>struct ch_thread\<close> that the code reads outside the port layer.  \<open>waiting\<close>
  is the thread list of \<open>chThdWait\<close>, \<open>mtxlist\<close> the chain of owned mutexes, newest first.
  The links \<open>newer\<close> and \<open>older\<close> form the list \<open>registry\<close> of the kernel, oldest thread first.
\<close>

record thread =
  prio :: tprio
  state :: tstate
  flags :: u8
  refs :: u8
  u :: u32
  waiting :: "ptr list"
  epending :: u32
  mtxlist :: "ptr list"
  realprio :: tprio
  tname :: string
  wabase :: ptr
  mpool :: ptr

text \<open>Timers: those on the stack of a sleeping thread, and those of the application.\<close>

datatype vtref = StackVt ptr | Vt ptr
datatype vtfn = Wakeup ptr | Callback u32 u32

text \<open>An event listener; the listeners of a source are the list hanging off it, newest first.\<close>

record listener =
  el_listener :: ptr
  el_events :: u32
  el_flags :: u32
  el_wflags :: u32

text \<open>
  The state of the kernel, and the values drivers last wrote to the control registers of the
  devices (\<open>mmio\<close>, by address).
\<close>

record kernel = "(vtref, vtfn) vtstate" +
  thd :: "ptr \<Rightarrow> thread"
  qs :: "qhdr \<Rightarrow> ptr list"
  current :: ptr
  sem_cnt :: "ptr \<Rightarrow> cnt"
  mtx_owner :: "ptr \<Rightarrow> ptr"
  refvar :: "ptr \<Rightarrow> ptr"
  registry :: "ptr list"
  evt_src :: "ptr \<Rightarrow> ptr list"
  evt_lis :: "ptr \<Rightarrow> listener"
  mmio :: "u32 \<Rightarrow> u32"

abbreviation tprio :: "kernel \<Rightarrow> ptr \<Rightarrow> tprio" where "tprio k t \<equiv> prio (thd k t)"
abbreviation tstate :: "kernel \<Rightarrow> ptr \<Rightarrow> tstate" where "tstate k t \<equiv> state (thd k t)"

definition upd_thd :: "ptr \<Rightarrow> (thread \<Rightarrow> thread) \<Rightarrow> kernel \<Rightarrow> kernel" where
  "upd_thd t f k = k\<lparr>thd := (thd k)(t := f (thd k t))\<rparr>"

definition set_state :: "ptr \<Rightarrow> tstate \<Rightarrow> kernel \<Rightarrow> kernel" where
  "set_state t st = upd_thd t (\<lambda>x. x\<lparr>state := st\<rparr>)"

definition set_u :: "ptr \<Rightarrow> u32 \<Rightarrow> kernel \<Rightarrow> kernel" where
  "set_u t w = upd_thd t (\<lambda>x. x\<lparr>u := w\<rparr>)"

definition set_prio :: "ptr \<Rightarrow> tprio \<Rightarrow> kernel \<Rightarrow> kernel" where
  "set_prio t p = upd_thd t (\<lambda>x. x\<lparr>prio := p\<rparr>)"

section \<open>Queue operations\<close>

definition queue_init :: "qhdr \<Rightarrow> kernel \<Rightarrow> kernel" where
  "queue_init q k = k\<lparr>qs := (qs k)(q := [])\<rparr>"

definition queue_isempty :: "qhdr \<Rightarrow> kernel \<Rightarrow> bool" where
  "queue_isempty q k \<longleftrightarrow> qs k q = []"

definition queue_notempty :: "qhdr \<Rightarrow> kernel \<Rightarrow> bool" where
  "queue_notempty q k \<longleftrightarrow> qs k q \<noteq> []"

definition queue_insert :: "ptr \<Rightarrow> qhdr \<Rightarrow> kernel \<Rightarrow> kernel" where
  "queue_insert tp q k = k\<lparr>qs := q_insert tp q (qs k)\<rparr>"

definition queue_prio_insert :: "ptr \<Rightarrow> qhdr \<Rightarrow> kernel \<Rightarrow> kernel" where
  "queue_prio_insert tp q k = k\<lparr>qs := q_prio_insert (tprio k) tp q (qs k)\<rparr>"

definition queue_dequeue :: "ptr \<Rightarrow> kernel \<Rightarrow> kernel" where
  "queue_dequeue tp k = k\<lparr>qs := q_dequeue tp (qs k)\<rparr>"

text \<open>
  The removals are only called on queues that are not empty; on an empty queue the code would
  take the header itself for a thread, here the thread is \<open>NULL\<close> and nothing changes.
\<close>

definition queue_fifo_remove :: "qhdr \<Rightarrow> kernel \<Rightarrow> ptr \<times> kernel" where
  "queue_fifo_remove q k =
    (case qs k q of [] \<Rightarrow> (NULL, k) | t # r \<Rightarrow> (t, k\<lparr>qs := (qs k)(q := r)\<rparr>))"

definition queue_lifo_remove :: "qhdr \<Rightarrow> kernel \<Rightarrow> ptr \<times> kernel" where
  "queue_lifo_remove q k =
    (case qs k q of [] \<Rightarrow> (NULL, k)
     | _ # _ \<Rightarrow> (last (qs k q), k\<lparr>qs := (qs k)(q := butlast (qs k q))\<rparr>))"

section \<open>The scheduler\<close>

text \<open>\<open>firstprio\<close> of an empty ready list is the priority field of the header.\<close>

definition firstprio :: "kernel \<Rightarrow> tprio" where
  "firstprio k = (case qs k RLIST of [] \<Rightarrow> NOPRIO | t # _ \<Rightarrow> tprio k t)"

definition scheduler_init :: "kernel \<Rightarrow> kernel" where
  "scheduler_init k = (queue_init RLIST k)\<lparr>registry := []\<rparr>"

definition chSchReadyI :: "ptr \<Rightarrow> kernel \<Rightarrow> kernel" where
  "chSchReadyI tp k =
    (let k = set_state tp CH_STATE_READY k
     in k\<lparr>qs := q_prio_insert (tprio k) tp RLIST (qs k)\<rparr>)"

definition chSchReadyAheadI :: "ptr \<Rightarrow> kernel \<Rightarrow> kernel" where
  "chSchReadyAheadI tp k =
    (let k = set_state tp CH_STATE_READY k
     in k\<lparr>qs := q_prio_insert_ahead (tprio k) tp RLIST (qs k)\<rparr>)"

text \<open>The first ready thread becomes current; the two assignments every switch shares.\<close>

definition take_first :: "kernel \<Rightarrow> kernel" where
  "take_first k =
    (let (t, k) = queue_fifo_remove RLIST k
     in set_state t CH_STATE_CURRENT (k\<lparr>current := t\<rparr>))"

definition chSchGoSleepS :: "tstate \<Rightarrow> kernel \<Rightarrow> kernel" where
  "chSchGoSleepS newstate k = take_first (set_state (current k) newstate k)"

text \<open>The timer callback of a sleep with timeout.\<close>

definition wakeup :: "ptr \<Rightarrow> kernel \<Rightarrow> kernel" where
  "wakeup tp k =
    (if tstate k tp = CH_STATE_READY then k
     else
       (let k = (case tstate k tp of
                   CH_STATE_SUSPENDED \<Rightarrow> k\<lparr>refvar := (refvar k)(u (thd k tp) := NULL)\<rparr>
                 | CH_STATE_WTSEM \<Rightarrow>
                     (let sp = u (thd k tp)
                      in queue_dequeue tp (k\<lparr>sem_cnt := (sem_cnt k)(sp := sem_cnt k sp + 1)\<rparr>))
                 | CH_STATE_WTCOND \<Rightarrow> queue_dequeue tp k
                 | CH_STATE_QUEUED \<Rightarrow> queue_dequeue tp k
                 | _ \<Rightarrow> k)
        in chSchReadyI tp (set_u tp MSG_TIMEOUT k)))"

definition chSchGoSleepTimeoutS :: "tstate \<Rightarrow> systime \<Rightarrow> kernel \<Rightarrow> kernel" where
  "chSchGoSleepTimeoutS newstate time k =
    (if time \<noteq> TIME_INFINITE
     then chSchGoSleepS newstate (chVTDoSetI (StackVt (current k)) time (Wakeup (current k)) k)
     else chSchGoSleepS newstate k)"

definition chSchGoSleepTimeoutS_resume :: "systime \<Rightarrow> kernel \<Rightarrow> msg \<times> kernel" where
  "chSchGoSleepTimeoutS_resume time k =
    (let k = (if time \<noteq> TIME_INFINITE \<and> chVTIsArmedI (StackVt (current k)) k
              then chVTDoResetI (StackVt (current k)) k else k)
     in (u (thd k (current k)), k))"

definition chSchWakeupS :: "ptr \<Rightarrow> msg \<Rightarrow> kernel \<Rightarrow> kernel" where
  "chSchWakeupS ntp m k =
    (let otp = current k;
         k = set_u ntp m k
     in if tprio k ntp \<le> tprio k otp then chSchReadyI ntp k
        else set_state ntp CH_STATE_CURRENT ((chSchReadyI otp k)\<lparr>current := ntp\<rparr>))"

definition chSchIsRescRequiredI :: "kernel \<Rightarrow> bool" where
  "chSchIsRescRequiredI k \<longleftrightarrow> firstprio k > tprio k (current k)"

definition chSchCanYieldS :: "kernel \<Rightarrow> bool" where
  "chSchCanYieldS k \<longleftrightarrow> firstprio k \<ge> tprio k (current k)"

definition chSchDoRescheduleBehind :: "kernel \<Rightarrow> kernel" where
  "chSchDoRescheduleBehind k = (let otp = current k in chSchReadyI otp (take_first k))"

definition chSchDoRescheduleAhead :: "kernel \<Rightarrow> kernel" where
  "chSchDoRescheduleAhead k = (let otp = current k in chSchReadyAheadI otp (take_first k))"

text \<open>With \<open>CH_CFG_TIME_QUANTUM = 0\<close> the following two branches coincide with the above.\<close>

definition chSchDoReschedule :: "kernel \<Rightarrow> kernel" where
  "chSchDoReschedule k = (let otp = current k in chSchReadyAheadI otp (take_first k))"

definition chSchRescheduleS :: "kernel \<Rightarrow> kernel" where
  "chSchRescheduleS k = (if chSchIsRescRequiredI k then chSchDoRescheduleAhead k else k)"

definition chSchIsPreemptionRequired :: "kernel \<Rightarrow> bool" where
  "chSchIsPreemptionRequired k \<longleftrightarrow> firstprio k > tprio k (current k)"

definition chSchPreemption :: "kernel \<Rightarrow> kernel" where
  "chSchPreemption k =
    (if firstprio k > tprio k (current k) then chSchDoRescheduleAhead k else k)"

definition chSchDoYieldS :: "kernel \<Rightarrow> kernel" where
  "chSchDoYieldS k = (if chSchCanYieldS k then chSchDoRescheduleBehind k else k)"

section \<open>Effects on the fields\<close>

lemma upd_thd_fields [simp]:
  "thd (upd_thd t f k) = (thd k)(t := f (thd k t))"
  "qs (upd_thd t f k) = qs k" "current (upd_thd t f k) = current k"
  "sem_cnt (upd_thd t f k) = sem_cnt k" "mtx_owner (upd_thd t f k) = mtx_owner k"
  "refvar (upd_thd t f k) = refvar k" "vtl (upd_thd t f k) = vtl k" "vfunc (upd_thd t f k) = vfunc k"
  "stime (upd_thd t f k) = stime k" "lasttime (upd_thd t f k) = lasttime k"
  "registry (upd_thd t f k) = registry k"
  by (simp_all add: upd_thd_def)

lemma set_thd_simps [simp]:
  "thd (set_state t st k) = (thd k)(t := (thd k t)\<lparr>state := st\<rparr>)"
  "thd (set_u t w k) = (thd k)(t := (thd k t)\<lparr>u := w\<rparr>)"
  "thd (set_prio t p k) = (thd k)(t := (thd k t)\<lparr>prio := p\<rparr>)"
  "qs (set_state t st k) = qs k" "qs (set_u t w k) = qs k" "qs (set_prio t p k) = qs k"
  "current (set_state t st k) = current k" "current (set_u t w k) = current k" "current (set_prio t p k) = current k"
  "sem_cnt (set_state t st k) = sem_cnt k" "sem_cnt (set_u t w k) = sem_cnt k" "sem_cnt (set_prio t p k) = sem_cnt k"
  "mtx_owner (set_state t st k) = mtx_owner k" "mtx_owner (set_u t w k) = mtx_owner k" "mtx_owner (set_prio t p k) = mtx_owner k"
  "refvar (set_state t st k) = refvar k" "refvar (set_u t w k) = refvar k"
  "vfunc (set_state t st k) = vfunc k" "vfunc (set_u t w k) = vfunc k"
  "vtl (set_state t st k) = vtl k" "vtl (set_u t w k) = vtl k"
  by (simp_all add: set_state_def set_u_def set_prio_def)

lemma queue_fields [simp]:
  "thd (queue_insert t q k) = thd k" "thd (queue_prio_insert t q k) = thd k" "thd (queue_dequeue t k) = thd k"
  "current (queue_insert t q k) = current k" "current (queue_prio_insert t q k) = current k"
  "current (queue_dequeue t k) = current k"
  "sem_cnt (queue_insert t q k) = sem_cnt k" "sem_cnt (queue_prio_insert t q k) = sem_cnt k"
  "sem_cnt (queue_dequeue t k) = sem_cnt k"
  "mtx_owner (queue_insert t q k) = mtx_owner k" "mtx_owner (queue_prio_insert t q k) = mtx_owner k"
  "mtx_owner (queue_dequeue t k) = mtx_owner k"
  "refvar (queue_insert t q k) = refvar k" "refvar (queue_prio_insert t q k) = refvar k"
  "refvar (queue_dequeue t k) = refvar k"
  "vfunc (queue_insert t q k) = vfunc k" "vfunc (queue_prio_insert t q k) = vfunc k"
  "vfunc (queue_dequeue t k) = vfunc k"
  "qs (queue_insert t q k) = q_insert t q (qs k)"
  "qs (queue_prio_insert t q k) = q_prio_insert (tprio k) t q (qs k)"
  "qs (queue_dequeue t k) = q_dequeue t (qs k)"
  by (simp_all add: queue_insert_def queue_prio_insert_def queue_dequeue_def)

lemma chSchReadyI_fields [simp]:
  "thd (chSchReadyI t k) = (thd k)(t := (thd k t)\<lparr>state := CH_STATE_READY\<rparr>)"
  "current (chSchReadyI t k) = current k" "sem_cnt (chSchReadyI t k) = sem_cnt k"
  "mtx_owner (chSchReadyI t k) = mtx_owner k" "refvar (chSchReadyI t k) = refvar k"
  "vtl (chSchReadyI t k) = vtl k" "vfunc (chSchReadyI t k) = vfunc k"
  by (simp_all add: chSchReadyI_def Let_def)

lemma fun_upd_prio:
  "(\<lambda>x. prio ((f(t := (f t)\<lparr>state := st\<rparr>)) x)) = (\<lambda>x. prio (f x))"
  "(\<lambda>x. prio ((f(t := (f t)\<lparr>u := w\<rparr>)) x)) = (\<lambda>x. prio (f x))"
  by (auto simp: fun_eq_iff)

lemma qs_chSchReadyI [simp]:
  "qs (chSchReadyI t k) = q_prio_insert (tprio k) t RLIST (qs k)"
  unfolding chSchReadyI_def Let_def by (simp only: set_thd_simps fun_upd_prio) simp

lemma qs_chSchReadyAheadI [simp]:
  "qs (chSchReadyAheadI t k) = q_prio_insert_ahead (tprio k) t RLIST (qs k)"
  "thd (chSchReadyAheadI t k) = (thd k)(t := (thd k t)\<lparr>state := CH_STATE_READY\<rparr>)"
  "current (chSchReadyAheadI t k) = current k" "sem_cnt (chSchReadyAheadI t k) = sem_cnt k"
  unfolding chSchReadyAheadI_def Let_def by (simp_all only: set_thd_simps fun_upd_prio) simp_all

section \<open>The kernel invariant\<close>

text \<open>
  Every object whose address heads a queue has a kind.  A thread is in a queue exactly as its
  state says: \<open>allowed\<close> lists the queue headers a state permits, \<open>queued\<close> the states of
  threads that are in some queue.
\<close>

datatype okind = KSem | KMtx | KCond | KQueue

fun allowed :: "(ptr \<Rightarrow> okind) \<Rightarrow> tstate \<Rightarrow> u32 \<Rightarrow> qhdr \<Rightarrow> bool" where
  "allowed kd CH_STATE_READY w q \<longleftrightarrow> q = RLIST"
| "allowed kd CH_STATE_WTSEM w q \<longleftrightarrow> q = QOBJ w \<and> kd w = KSem"
| "allowed kd CH_STATE_WTMTX w q \<longleftrightarrow> q = QOBJ w \<and> kd w = KMtx"
| "allowed kd CH_STATE_WTCOND w q \<longleftrightarrow> q = QOBJ w \<and> kd w = KCond"
| "allowed kd CH_STATE_QUEUED w q \<longleftrightarrow> (case q of QOBJ p \<Rightarrow> kd p = KQueue | _ \<Rightarrow> False)"
| "allowed kd CH_STATE_SNDMSGQ w q \<longleftrightarrow> (case q of MSGQ _ \<Rightarrow> True | _ \<Rightarrow> False)"
| "allowed kd _ w q \<longleftrightarrow> False"

definition queued :: "tstate \<Rightarrow> bool" where
  "queued st \<longleftrightarrow> st \<in> {CH_STATE_READY, CH_STATE_WTSEM, CH_STATE_WTMTX, CH_STATE_WTCOND,
    CH_STATE_QUEUED, CH_STATE_SNDMSGQ}"

definition in_queue :: "kernel \<Rightarrow> ptr \<Rightarrow> bool" where
  "in_queue k t \<longleftrightarrow> (\<exists>q. t \<in> set (qs k q))"

definition placed :: "(ptr \<Rightarrow> okind) \<Rightarrow> kernel \<Rightarrow> ptr \<Rightarrow> bool" where
  "placed kd k t \<longleftrightarrow>
    (\<forall>q. t \<in> set (qs k q) \<longrightarrow> allowed kd (tstate k t) (u (thd k t)) q) \<and>
    (queued (tstate k t) \<longrightarrow> in_queue k t) \<and>
    (tstate k t = CH_STATE_CURRENT \<longleftrightarrow> t = current k)"

definition queues_ok :: "(qhdr \<Rightarrow> ptr list) \<Rightarrow> bool" where
  "queues_ok Q \<longleftrightarrow> (\<forall>q. distinct (Q q)) \<and> (\<forall>q q'. q \<noteq> q' \<longrightarrow> set (Q q) \<inter> set (Q q') = {})"

text \<open>
  The invariant, except for the threads \<open>D\<close> that an operation has in hand: the queues are
  disjoint and without repetition, the ready list is in priority order, every thread is where
  its state says, priorities are above \<open>NOPRIO\<close>, and the idle thread never blocks.
\<close>

definition kinv :: "(ptr \<Rightarrow> okind) \<Rightarrow> ptr \<Rightarrow> ptr set \<Rightarrow> kernel \<Rightarrow> bool" where
  "kinv kd idle D k \<longleftrightarrow>
    queues_ok (qs k) \<and> by_prio (tprio k) (qs k RLIST) \<and>
    (\<forall>t. t \<notin> D \<longrightarrow> placed kd k t) \<and> (\<forall>t \<in> D. t \<notin> set (qs k RLIST)) \<and>
    (\<forall>t. 0 < tprio k t \<and> 0 < realprio (thd k t)) \<and>
    (idle \<notin> D \<longrightarrow> tstate k idle \<in> {CH_STATE_READY, CH_STATE_CURRENT})"

lemma queues_ok_disj: "queues_ok Q \<Longrightarrow> t \<in> set (Q q) \<Longrightarrow> t \<in> set (Q q') \<Longrightarrow> q = q'"
  by (auto simp: queues_ok_def)

lemma queues_ok_insert:
  "queues_ok Q \<Longrightarrow> (\<And>q'. t \<notin> set (Q q')) \<Longrightarrow> set xs = insert t (set (Q q)) \<Longrightarrow> distinct xs \<Longrightarrow>
    queues_ok (Q(q := xs))"
  by (auto simp: queues_ok_def)

lemma queues_ok_dequeue: "queues_ok Q \<Longrightarrow> queues_ok (q_dequeue t Q)"
  by (auto simp: queues_ok_def q_dequeue_def)

lemma q_dequeue_mem: "queues_ok Q \<Longrightarrow> x \<in> set (q_dequeue t Q q) \<longleftrightarrow> x \<in> set (Q q) \<and> x \<noteq> t"
  by (auto simp: queues_ok_def q_dequeue_def set_remove1_eq)

lemma fifo_is_dequeue:
  "queues_ok Q \<Longrightarrow> Q q = t # r \<Longrightarrow> Q(q := r) = q_dequeue t Q"
  using queues_ok_disj [of Q t q]
  by (auto simp: q_dequeue_def fun_eq_iff intro!: remove1_idem [symmetric])

lemma lifo_is_dequeue:
  assumes "queues_ok Q" and "Q q = r @ [t]"
  shows "Q(q := r) = q_dequeue t Q"
proof -
  have "distinct (r @ [t])" using assms unfolding queues_ok_def by metis
  then have "t \<notin> set r" by simp
  then show ?thesis
    using queues_ok_disj [OF assms(1), of t q] assms(2)
    by (auto simp: q_dequeue_def fun_eq_iff remove1_append intro!: remove1_idem [symmetric])
qed

section \<open>The primitive updates keep the invariant\<close>

lemma kinv_queues: "kinv kd idle D k \<Longrightarrow> queues_ok (qs k)"
  by (simp add: kinv_def)

lemma kinv_placed: "kinv kd idle D k \<Longrightarrow> t \<notin> D \<Longrightarrow> placed kd k t"
  by (simp add: kinv_def)

lemma kinv_sorted: "kinv kd idle D k \<Longrightarrow> by_prio (tprio k) (qs k RLIST)"
  by (simp add: kinv_def)

lemma current_not_queued: "kinv kd idle D k \<Longrightarrow> current k \<notin> D \<Longrightarrow> current k \<notin> set (qs k q)"
  by (auto simp: kinv_def placed_def)

lemma current_state:
  "kinv kd idle D k \<Longrightarrow> t \<notin> D \<Longrightarrow> tstate k t = CH_STATE_CURRENT \<longleftrightarrow> t = current k"
  by (simp add: kinv_def placed_def)

lemma allowed_queued: "allowed kd st w q \<Longrightarrow> queued st"
  by (cases st) (simp_all add: queued_def)

lemma not_queued_state:
  "kinv kd idle D k \<Longrightarrow> t \<notin> D \<Longrightarrow> \<not> queued (tstate k t) \<Longrightarrow> t \<notin> set (qs k q)"
  using allowed_queued by (meson kinv_placed placed_def)

lemma ready_state: "kinv kd idle D k \<Longrightarrow> t \<in> set (qs k RLIST) \<Longrightarrow> tstate k t = CH_STATE_READY"
proof -
  assume i: "kinv kd idle D k" and t: "t \<in> set (qs k RLIST)"
  then have "t \<notin> D" by (auto simp: kinv_def)
  then have "allowed kd (tstate k t) (u (thd k t)) RLIST" using i t by (auto simp: kinv_def placed_def)
  then show ?thesis by (cases "tstate k t") auto
qed

lemma ready_member: "kinv kd idle D k \<Longrightarrow> t \<notin> D \<Longrightarrow> tstate k t = CH_STATE_READY \<Longrightarrow> t \<in> set (qs k RLIST)"
proof -
  assume i: "kinv kd idle D k" and D: "t \<notin> D" and r: "tstate k t = CH_STATE_READY"
  then have p: "placed kd k t" by (simp add: kinv_def)
  then obtain q where q: "t \<in> set (qs k q)" using r by (auto simp: placed_def queued_def in_queue_def)
  then have "allowed kd (tstate k t) (u (thd k t)) q" using p by (simp add: placed_def)
  then show ?thesis using q r by simp
qed

lemma kinv_take: "kinv kd idle D k \<Longrightarrow> t \<notin> set (qs k RLIST) \<Longrightarrow> kinv kd idle (insert t D) k"
  by (auto simp: kinv_def)

lemma kinv_settle:
  "kinv kd idle (insert t D) k \<Longrightarrow> placed kd k t \<Longrightarrow>
    (t = idle \<Longrightarrow> tstate k t \<in> {CH_STATE_READY, CH_STATE_CURRENT}) \<Longrightarrow> kinv kd idle D k"
  unfolding kinv_def by (metis insert_iff)

lemma kinv_upd':
  assumes i: "kinv kd idle D k" and q: "qs k' = qs k"
    and pl: "\<And>x. x \<notin> D \<Longrightarrow> placed kd k x \<Longrightarrow> placed kd k' x"
    and st: "idle \<notin> D \<Longrightarrow> tstate k' idle = tstate k idle"
    and p: "\<And>x. tprio k' x = tprio k x" "\<And>x. realprio (thd k' x) = realprio (thd k x)"
  shows "kinv kd idle D k'"
  using assms unfolding kinv_def by simp

lemma kinv_upd:
  assumes i: "kinv kd idle D k" and q: "qs k' = qs k" and c: "current k' = current k"
    and same: "\<And>x. x \<notin> D \<Longrightarrow> tstate k' x = tstate k x \<and> u (thd k' x) = u (thd k x)"
    and p: "\<And>x. tprio k' x = tprio k x" "\<And>x. realprio (thd k' x) = realprio (thd k x)"
  shows "kinv kd idle D k'"
proof (rule kinv_upd' [OF i q])
  show "placed kd k' x" if "x \<notin> D" "placed kd k x" for x
    using that same [OF that(1)] q c by (simp add: placed_def in_queue_def)
  show "tstate k' idle = tstate k idle" if "idle \<notin> D" using same [OF that] by simp
qed (simp_all add: p)

lemma kinv_set_state [intro]: "kinv kd idle D k \<Longrightarrow> t \<in> D \<Longrightarrow> kinv kd idle D (set_state t st k)"
  by (erule kinv_upd) auto

lemma kinv_set_u [intro]: "kinv kd idle D k \<Longrightarrow> t \<in> D \<Longrightarrow> kinv kd idle D (set_u t w k)"
  by (erule kinv_upd) auto

lemma kinv_set_current:
  assumes i: "kinv kd idle D k" and "current k \<in> D" and "c \<in> D" and "k' = k\<lparr>current := c\<rparr>"
  shows "kinv kd idle D k'"
  using assms unfolding kinv_def placed_def in_queue_def by auto

lemma allowed_u: "st \<notin> {CH_STATE_WTSEM, CH_STATE_WTMTX, CH_STATE_WTCOND} \<Longrightarrow> allowed kd st w q = allowed kd st w' q"
  by (cases st) auto

lemma kinv_set_u_other:
  assumes i: "kinv kd idle D k" and st: "tstate k t \<notin> {CH_STATE_WTSEM, CH_STATE_WTMTX, CH_STATE_WTCOND}"
  shows "kinv kd idle D (set_u t w k)"
proof -
  have "placed kd (set_u t w k) x" if "placed kd k x" for x
    using that allowed_u [OF st, of kd w _ "u (thd k t)"] unfolding placed_def in_queue_def
    by (cases "x = t") auto
  then show ?thesis by (intro kinv_upd' [OF i]) auto
qed

lemma kinv_dequeue:
  assumes i: "kinv kd idle D k" and t: "t \<in> D"
  shows "kinv kd idle D (queue_dequeue t k)"
proof -
  have q: "queues_ok (qs k)" using i by (simp add: kinv_def)
  have "placed kd (queue_dequeue t k) x" if "x \<notin> D" for x
  proof -
    have "x \<noteq> t" using that t by auto
    then have "in_queue (queue_dequeue t k) x = in_queue k x"
      by (simp add: in_queue_def q_dequeue_mem [OF q])
    moreover have "placed kd k x" using i that by (simp add: kinv_def)
    ultimately show ?thesis using q_dequeue_mem [OF q] by (simp add: placed_def)
  qed
  moreover have "by_prio (tprio k) (q_dequeue t (qs k) RLIST)"
    using i by (simp add: q_dequeue_def kinv_def by_prio_remove1)
  ultimately show ?thesis
    using i q_dequeue_mem [OF q] by (auto simp: kinv_def queues_ok_dequeue)
qed

lemma kinv_dequeue_take:
  assumes i: "kinv kd idle D k"
  shows "kinv kd idle (insert t D) (queue_dequeue t k)"
proof -
  have q: "queues_ok (qs k)" using i by (simp add: kinv_def)
  have "placed kd (queue_dequeue t k) x" if "x \<notin> insert t D" for x
  proof -
    have "in_queue (queue_dequeue t k) x = in_queue k x"
      using that by (simp add: in_queue_def q_dequeue_mem [OF q])
    moreover have "placed kd k x" using i that by (simp add: kinv_def)
    ultimately show ?thesis using q_dequeue_mem [OF q] by (simp add: placed_def)
  qed
  moreover have "by_prio (tprio k) (q_dequeue t (qs k) RLIST)"
    using i by (simp add: q_dequeue_def kinv_def by_prio_remove1)
  ultimately show ?thesis
    using i q_dequeue_mem [OF q] by (auto simp: kinv_def queues_ok_dequeue)
qed

text \<open>Inserting a thread in hand, at any place of a queue other than the ready list.\<close>

lemma kinv_insert:
  assumes i: "kinv kd idle D k" and t: "t \<in> D" and free: "\<not> in_queue k t" and q: "q \<noteq> RLIST"
    and xs: "set xs = insert t (set (qs k q))" "distinct xs" and k': "k' = k\<lparr>qs := (qs k)(q := xs)\<rparr>"
  shows "kinv kd idle D k'"
proof -
  have f: "t \<notin> set (qs k q')" for q' using free by (auto simp: in_queue_def)
  have "queues_ok (qs k')" unfolding k'
    using queues_ok_insert [OF kinv_queues [OF i] f xs] by simp
  moreover have "placed kd k' x" if x: "x \<notin> D" for x
  proof -
    have p: "placed kd k x" using i x by (simp add: kinv_def)
    have "x \<noteq> t" using x t by auto
    then have m: "x \<in> set (qs k' q') \<longleftrightarrow> x \<in> set (qs k q')" for q'
      unfolding k' using xs by auto
    then have "in_queue k' x = in_queue k x" by (simp add: in_queue_def)
    then show ?thesis using p m unfolding placed_def by (simp add: k')
  qed
  ultimately show ?thesis using i q unfolding kinv_def k' by auto
qed

lemma kinv_queue_insert:
  assumes "kinv kd idle D k" and "t \<in> D" and "\<not> in_queue k t" and "q \<noteq> RLIST"
  shows "kinv kd idle D (queue_insert t q k)"
proof (rule kinv_insert [OF assms])
  show "set (qs k q @ [t]) = insert t (set (qs k q))" by auto
  show "distinct (qs k q @ [t])"
    using assms by (auto simp: kinv_def queues_ok_def in_queue_def)
qed (simp add: queue_insert_def q_insert_def)

lemma kinv_queue_prio_insert:
  assumes "kinv kd idle D k" and "t \<in> D" and "\<not> in_queue k t" and "q \<noteq> RLIST"
  shows "kinv kd idle D (queue_prio_insert t q k)"
proof (rule kinv_insert [OF assms])
  show "set (ins_where (\<lambda>cp. tprio k t \<le> tprio k cp) t (qs k q)) = insert t (set (qs k q))" by simp
  show "distinct (ins_where (\<lambda>cp. tprio k t \<le> tprio k cp) t (qs k q))"
    using assms by (auto simp: kinv_def queues_ok_def in_queue_def)
qed (simp add: queue_prio_insert_def q_prio_insert_def)

lemma kinv_fifo_take:
  assumes i: "kinv kd idle D k" and q: "qs k q = t # r"
  shows "fst (queue_fifo_remove q k) = t \<and> kinv kd idle (insert t D) (snd (queue_fifo_remove q k)) \<and>
    snd (queue_fifo_remove q k) = queue_dequeue t k"
  using kinv_dequeue_take [OF i, of t] fifo_is_dequeue [OF kinv_queues [OF i] q] q
  by (simp add: queue_fifo_remove_def queue_dequeue_def)

lemma kinv_lifo_take:
  assumes i: "kinv kd idle D k" and q: "qs k q = r @ [t]"
  shows "fst (queue_lifo_remove q k) = t \<and> kinv kd idle (insert t D) (snd (queue_lifo_remove q k)) \<and>
    snd (queue_lifo_remove q k) = queue_dequeue t k"
  using kinv_dequeue_take [OF i, of t] lifo_is_dequeue [OF kinv_queues [OF i] q] q
  by (cases r) (simp_all add: queue_lifo_remove_def queue_dequeue_def)

lemma not_in_queue_dequeue: "queues_ok (qs k) \<Longrightarrow> \<not> in_queue (queue_dequeue t k) t"
  by (simp add: in_queue_def q_dequeue_mem)

section \<open>The scheduler operations keep the invariant\<close>

text \<open>A thread in hand that is in no queue becomes ready.\<close>

lemma kinv_ready_list:
  assumes i: "kinv kd idle (insert t D) k" and free: "\<not> in_queue k t" and c: "t \<noteq> current k"
    and xs: "set xs = insert t (set (qs k RLIST))" "distinct xs" "by_prio (tprio k) xs"
    and k': "qs k' = (qs k)(RLIST := xs)" "thd k' = (thd k)(t := (thd k t)\<lparr>state := CH_STATE_READY\<rparr>)"
      "current k' = current k"
  shows "kinv kd idle (D - {t}) k'"
proof -
  have f: "t \<notin> set (qs k q')" for q' using free by (auto simp: in_queue_def)
  have "queues_ok (qs k')" unfolding k'
    using queues_ok_insert [OF kinv_queues [OF i] f xs(1,2)] by simp
  moreover have "placed kd k' x" if x: "x \<notin> D - {t}" for x
  proof (cases "x = t")
    case True
    then show ?thesis using f c xs k' by (auto simp: placed_def in_queue_def queued_def)
  next
    case False
    then have p: "placed kd k x" using i x by (simp add: kinv_def)
    have m: "x \<in> set (qs k' q') \<longleftrightarrow> x \<in> set (qs k q')" for q'
      unfolding k' using xs False by auto
    then have "in_queue k' x = in_queue k x" by (simp add: in_queue_def)
    then show ?thesis using p m False unfolding placed_def by (simp add: k')
  qed
  moreover have "by_prio (tprio k') (qs k' RLIST)"
  proof -
    have "tprio k' x = tprio k x" for x by (simp add: k')
    then show ?thesis using xs(3) by (simp only: k'(1)) simp
  qed
  moreover have "x \<notin> set (qs k' RLIST)" if "x \<in> D - {t}" for x
    using i that unfolding kinv_def k' using xs by auto
  moreover have "idle \<notin> D - {t} \<longrightarrow> tstate k' idle \<in> {CH_STATE_READY, CH_STATE_CURRENT}"
    using i unfolding kinv_def k' by auto
  moreover have "0 < tprio k' x \<and> 0 < realprio (thd k' x)" for x
    using i unfolding kinv_def k' by simp
  ultimately show ?thesis unfolding kinv_def by blast
qed

lemma kinv_chSchReadyI:
  assumes i: "kinv kd idle (insert t D) k" and free: "\<not> in_queue k t" and c: "t \<noteq> current k"
  shows "kinv kd idle (D - {t}) (chSchReadyI t k)"
proof (rule kinv_ready_list [OF assms])
  let ?xs = "ins_where (\<lambda>cp. tprio k cp \<ge> tprio k t) t (qs k RLIST)"
  show "set ?xs = insert t (set (qs k RLIST))" by simp
  show "distinct ?xs" using free kinv_queues [OF i] by (auto simp: in_queue_def queues_ok_def)
  show "by_prio (tprio k) ?xs" by (rule behind.by_prio_insert [OF kinv_sorted [OF i]])
qed (simp_all add: q_prio_insert_def)

lemma kinv_chSchReadyAheadI:
  assumes i: "kinv kd idle (insert t D) k" and free: "\<not> in_queue k t" and c: "t \<noteq> current k"
  shows "kinv kd idle (D - {t}) (chSchReadyAheadI t k)"
proof (rule kinv_ready_list [OF assms])
  let ?xs = "ins_where (\<lambda>cp. tprio k cp > tprio k t) t (qs k RLIST)"
  show "set ?xs = insert t (set (qs k RLIST))" by simp
  show "distinct ?xs" using free kinv_queues [OF i] by (auto simp: in_queue_def queues_ok_def)
  show "by_prio (tprio k) ?xs" by (rule ahead.by_prio_insert [OF kinv_sorted [OF i]])
qed (simp_all add: q_prio_insert_ahead_def)

lemma ready_nonempty:
  "kinv kd idle D k \<Longrightarrow> idle \<notin> D \<Longrightarrow> idle \<noteq> current k \<Longrightarrow> qs k RLIST \<noteq> []"
proof -
  assume i: "kinv kd idle D k" and d: "idle \<notin> D" and c: "idle \<noteq> current k"
  then have "tstate k idle = CH_STATE_READY" by (auto simp: kinv_def placed_def)
  then show ?thesis using ready_member [OF i d] by auto
qed

text \<open>
  The switch: the first ready thread becomes current and has the highest priority of the ready
  threads; the thread that was current is in hand.
\<close>

lemma take_first_fields:
  assumes "qs k RLIST = t # r"
  shows "current (take_first k) = t" "qs (take_first k) = (qs k)(RLIST := r)"
    "thd (take_first k) = (thd k)(t := (thd k t)\<lparr>state := CH_STATE_CURRENT\<rparr>)"
    "sem_cnt (take_first k) = sem_cnt k" "mtx_owner (take_first k) = mtx_owner k"
    "refvar (take_first k) = refvar k" "vfunc (take_first k) = vfunc k" "vtl (take_first k) = vtl k"
  using assms by (simp_all add: take_first_def queue_fifo_remove_def set_state_def upd_thd_def)

text \<open>No ready thread has a higher priority than the running one.\<close>

definition highest :: "kernel \<Rightarrow> bool" where
  "highest k \<longleftrightarrow> (\<forall>t \<in> set (qs k RLIST). tprio k t \<le> tprio k (current k))"

lemma kinv_take_first:
  assumes i: "kinv kd idle D k" and c: "current k \<in> D" and ne: "qs k RLIST \<noteq> []"
  shows "kinv kd idle D (take_first k) \<and> highest (take_first k) \<and>
    current (take_first k) = hd (qs k RLIST) \<and> hd (qs k RLIST) \<notin> D"
proof -
  obtain t r where q: "qs k RLIST = t # r" using ne by (cases "qs k RLIST") auto
  have tD: "t \<notin> D" using i q by (auto simp: kinv_def)
  have tk: "kinv kd idle (insert t D) (queue_dequeue t k)" by (rule kinv_dequeue_take [OF i])
  let ?k1 = "queue_dequeue t k"
  let ?k2 = "set_state t CH_STATE_CURRENT (?k1\<lparr>current := t\<rparr>)"
  have eq: "take_first k = ?k2"
    using kinv_fifo_take [OF i q] by (simp add: take_first_def split_beta Let_def)
  have k1c: "kinv kd idle (insert t D) (?k1\<lparr>current := t\<rparr>)"
    by (rule kinv_set_current [OF tk _ _ refl]) (use c in simp_all)
  then have "kinv kd idle (insert t D) ?k2" by blast
  moreover have "placed kd ?k2 t"
    using q_dequeue_mem [OF kinv_queues [OF i]] by (simp add: placed_def queued_def)
  ultimately have "kinv kd idle D ?k2" by (rule kinv_settle) simp
  moreover have "highest ?k2"
    using kinv_sorted [OF i] q by (auto simp: highest_def q_dequeue_def)
  ultimately show ?thesis using eq q tD by simp
qed

text \<open>
  Going to sleep: the running thread has been put where its new state belongs; the first ready
  thread runs, the invariant holds again and the running thread has the highest priority.
\<close>

lemma placed_set_state:
  assumes "\<And>q. t \<in> set (qs k q) \<Longrightarrow> allowed kd st (u (thd k t)) q" and "queued st \<Longrightarrow> in_queue k t"
    and "st \<noteq> CH_STATE_CURRENT" and "st \<noteq> CH_STATE_READY"
    and q: "qs k' = (qs k)(RLIST := r)" and th: "thd k' t = (thd k t)\<lparr>state := st\<rparr>" and c: "current k' \<noteq> t"
    and r: "set r \<subseteq> set (qs k RLIST)"
  shows "placed kd k' t"
proof -
  have "t \<notin> set (qs k RLIST)" using assms(1) [of RLIST] assms(4) by (cases st) auto
  then have "t \<in> set (qs k' q') \<longleftrightarrow> t \<in> set (qs k q')" for q' using r q by auto
  then show ?thesis using assms by (auto simp: placed_def in_queue_def)
qed

lemma kinv_chSchGoSleepS:
  assumes i: "kinv kd idle {current k} k"
    and pl: "\<And>q. current k \<in> set (qs k q) \<Longrightarrow> allowed kd st (u (thd k (current k))) q"
      "queued st \<Longrightarrow> in_queue k (current k)"
    and st: "st \<noteq> CH_STATE_CURRENT" "st \<noteq> CH_STATE_READY" and idle: "current k \<noteq> idle"
  shows "kinv kd idle {} (chSchGoSleepS st k) \<and> highest (chSchGoSleepS st k) \<and>
    current (chSchGoSleepS st k) = hd (qs k RLIST) \<and> hd (qs k RLIST) \<noteq> current k"
proof -
  let ?c = "current k" and ?k = "set_state (current k) st k"
  have i': "kinv kd idle {?c} ?k" using i by blast
  have ne: "qs ?k RLIST \<noteq> []" by (rule ready_nonempty [OF i']) (use idle in auto)
  then obtain t r where q: "qs k RLIST = t # r" by (cases "qs k RLIST") auto
  have tf: "kinv kd idle {?c} (take_first ?k)" "highest (take_first ?k)"
    "current (take_first ?k) = t" "t \<noteq> ?c"
    using kinv_take_first [OF i' _ ne] q by auto
  have "placed kd (take_first ?k) ?c"
    by (rule placed_set_state [OF pl st, where r = r])
      (use q tf take_first_fields [of ?k t r] in auto)
  then have "kinv kd idle {} (take_first ?k)"
    by (intro kinv_settle [OF tf(1)]) (use idle in auto)
  then show ?thesis using tf q by (simp add: chSchGoSleepS_def)
qed

text \<open>A thread in hand is woken: whichever of the two has the higher priority runs.\<close>

lemma kinv_chSchWakeupS:
  assumes i: "kinv kd idle {ntp} k" and free: "\<not> in_queue k ntp" and c: "ntp \<noteq> current k"
  shows "kinv kd idle {} (chSchWakeupS ntp m k) \<and>
    (highest k \<longrightarrow> highest (chSchWakeupS ntp m k)) \<and>
    current (chSchWakeupS ntp m k) = (if tprio k ntp \<le> tprio k (current k) then current k else ntp)"
proof -
  let ?c = "current k" and ?k = "set_u ntp m k"
  have i1: "kinv kd idle {ntp} ?k" using i by blast
  have free1: "\<not> in_queue ?k ntp" using free by (simp add: in_queue_def)
  show ?thesis
  proof (cases "tprio k ntp \<le> tprio k ?c")
    case True
    then have "chSchWakeupS ntp m k = chSchReadyI ntp ?k" by (simp add: chSchWakeupS_def Let_def)
    moreover have "kinv kd idle {} (chSchReadyI ntp ?k)"
      using kinv_chSchReadyI [OF i1 free1] c by simp
    ultimately show ?thesis using True by (auto simp: highest_def q_prio_insert_def)
  next
    case False
    have cq: "?c \<notin> set (qs k q)" for q using current_not_queued [OF i] c by auto
    have i2: "kinv kd idle {ntp, ?c} ?k" using kinv_take [OF i1, of ?c] cq by (simp add: insert_commute)
    have i3: "kinv kd idle {ntp, ?c} (?k\<lparr>current := ntp\<rparr>)"
      by (rule kinv_set_current [OF i2 _ _ refl]) simp_all
    have "kinv kd idle ({ntp} - {?c}) (chSchReadyI ?c (?k\<lparr>current := ntp\<rparr>))"
      by (rule kinv_chSchReadyI) (use i3 cq c in \<open>simp_all add: insert_commute in_queue_def\<close>)
    then have i4: "kinv kd idle {ntp} (chSchReadyI ?c (?k\<lparr>current := ntp\<rparr>))" using c by simp
    let ?r = "set_state ntp CH_STATE_CURRENT (chSchReadyI ?c (?k\<lparr>current := ntp\<rparr>))"
    have comm: "(chSchReadyI ?c ?k)\<lparr>current := ntp\<rparr> = chSchReadyI ?c (?k\<lparr>current := ntp\<rparr>)"
      by (simp add: chSchReadyI_def Let_def set_state_def upd_thd_def)
    have i5: "kinv kd idle {ntp} ?r" using i4 by blast
    have "placed kd ?r ntp"
      using free c by (auto simp: placed_def queued_def in_queue_def q_prio_insert_def)
    then have "kinv kd idle {} ?r" by (intro kinv_settle [OF i5]) simp_all
    moreover have "chSchWakeupS ntp m k = ?r"
      using False c by (auto simp: chSchWakeupS_def Let_def comm)
    ultimately show ?thesis using False by (auto simp: highest_def q_prio_insert_def)
  qed
qed

text \<open>Rescheduling puts the running thread back and runs the first ready thread.\<close>

lemma kinv_swap:
  assumes i: "kinv kd idle {} k" and ne: "qs k RLIST \<noteq> []"
  shows "kinv kd idle {} (chSchReadyI (current k) (take_first k)) \<and>
    kinv kd idle {} (chSchReadyAheadI (current k) (take_first k)) \<and>
    current (take_first k) = hd (qs k RLIST)"
proof -
  let ?c = "current k"
  obtain t r where q: "qs k RLIST = t # r" using ne by (cases "qs k RLIST") auto
  have cq: "?c \<notin> set (qs k q)" for q using current_not_queued [OF i] by simp
  have i1: "kinv kd idle {?c} k" using kinv_take [OF i cq] .
  have tf: "kinv kd idle {?c} (take_first k)" "current (take_first k) = t" "t \<noteq> ?c"
    using kinv_take_first [OF i1 _ ne] q by auto
  have free: "\<not> in_queue (take_first k) ?c"
    using cq q take_first_fields(2) [OF q] unfolding in_queue_def by (metis fun_upd_apply list.set_intros(2))
  show ?thesis
    using kinv_chSchReadyI [of kd idle ?c "{?c}" "take_first k"] kinv_chSchReadyAheadI [of kd idle ?c "{?c}" "take_first k"]
      tf free q by simp
qed

lemma by_prio_hd: "by_prio pr (t # r) \<Longrightarrow> x \<in> set (t # r) \<Longrightarrow> pr x \<le> pr t"
  by auto

lemma firstprio_le:
  "kinv kd idle D k \<Longrightarrow> firstprio k \<le> p \<longleftrightarrow> (\<forall>t \<in> set (qs k RLIST). tprio k t \<le> p)"
  using kinv_sorted [of kd idle D k] by (cases "qs k RLIST") (auto simp: firstprio_def NOPRIO_def intro: order_trans)

lemma highest_firstprio: "kinv kd idle D k \<Longrightarrow> highest k \<longleftrightarrow> \<not> chSchIsRescRequiredI k"
  by (simp add: highest_def chSchIsRescRequiredI_def firstprio_le [symmetric] not_less)

lemma kinv_chSchRescheduleS:
  assumes i: "kinv kd idle {} k"
  shows "kinv kd idle {} (chSchRescheduleS k) \<and> highest (chSchRescheduleS k)"
proof (cases "chSchIsRescRequiredI k")
  case False
  then show ?thesis using i highest_firstprio [OF i] by (simp add: chSchRescheduleS_def)
next
  case True
  then obtain t r where q: "qs k RLIST = t # r" "tprio k (current k) < tprio k t"
    by (cases "qs k RLIST") (auto simp: chSchIsRescRequiredI_def firstprio_def NOPRIO_def)
  have "highest (chSchReadyAheadI (current k) (take_first k))"
    using q kinv_sorted [OF i] take_first_fields [OF q(1)]
    by (auto simp: highest_def q_prio_insert_ahead_def less_imp_le)
  then show ?thesis
    using kinv_swap [OF i] q True by (simp add: chSchRescheduleS_def chSchDoRescheduleAhead_def Let_def)
qed

lemma kinv_chSchDoYieldS:
  assumes i: "kinv kd idle {} k" and h: "highest k"
  shows "kinv kd idle {} (chSchDoYieldS k) \<and> highest (chSchDoYieldS k)"
proof (cases "chSchCanYieldS k")
  case False
  then show ?thesis using i h by (simp add: chSchDoYieldS_def)
next
  case True
  have "0 < tprio k (current k)" using i by (simp add: kinv_def)
  then obtain t r where q: "qs k RLIST = t # r" "tprio k (current k) \<le> tprio k t"
    using True by (cases "qs k RLIST") (auto simp: chSchCanYieldS_def firstprio_def NOPRIO_def)
  have "highest (chSchReadyI (current k) (take_first k))"
    using q kinv_sorted [OF i] take_first_fields [OF q(1)]
    by (auto simp: highest_def q_prio_insert_def)
  then show ?thesis
    using kinv_swap [OF i] q True by (simp add: chSchDoYieldS_def chSchDoRescheduleBehind_def Let_def)
qed

text \<open>
  The timeout callback: a thread that sleeps in one of the states with timeout leaves its queue
  and becomes ready with the message \<open>MSG_TIMEOUT\<close>.
\<close>

definition timed :: "tstate \<Rightarrow> bool" where
  "timed st \<longleftrightarrow> st \<in> {CH_STATE_SUSPENDED, CH_STATE_QUEUED, CH_STATE_WTSEM, CH_STATE_WTCOND,
    CH_STATE_SLEEPING, CH_STATE_WTOREVT, CH_STATE_WTANDEVT}"

definition wakeup_wait :: "ptr \<Rightarrow> kernel \<Rightarrow> kernel" where
  "wakeup_wait tp k = (case tstate k tp of
       CH_STATE_SUSPENDED \<Rightarrow> k\<lparr>refvar := (refvar k)(u (thd k tp) := NULL)\<rparr>
     | CH_STATE_WTSEM \<Rightarrow>
         (let sp = u (thd k tp)
          in queue_dequeue tp (k\<lparr>sem_cnt := (sem_cnt k)(sp := sem_cnt k sp + 1)\<rparr>))
     | CH_STATE_WTCOND \<Rightarrow> queue_dequeue tp k
     | CH_STATE_QUEUED \<Rightarrow> queue_dequeue tp k
     | _ \<Rightarrow> k)"

lemma wakeup_eq:
  "wakeup tp k = (if tstate k tp = CH_STATE_READY then k
     else chSchReadyI tp (set_u tp MSG_TIMEOUT (wakeup_wait tp k)))"
  by (simp add: wakeup_def wakeup_wait_def Let_def)

lemma kinv_sem_cnt [simp]:
  "kinv kd idle D (k\<lparr>sem_cnt := f\<rparr>) = kinv kd idle D k" "in_queue (k\<lparr>sem_cnt := f\<rparr>) = in_queue k"
  "kinv kd idle D (k\<lparr>refvar := g\<rparr>) = kinv kd idle D k" "in_queue (k\<lparr>refvar := g\<rparr>) = in_queue k"
  by (simp_all add: kinv_def placed_def in_queue_def fun_eq_iff)

lemma kinv_vt [simp]:
  "kinv kd idle D (k\<lparr>vtl := a\<rparr>) = kinv kd idle D k" "kinv kd idle D (k\<lparr>vfunc := b\<rparr>) = kinv kd idle D k"
  "kinv kd idle D (k\<lparr>lasttime := c\<rparr>) = kinv kd idle D k" "kinv kd idle D (k\<lparr>alarm := d\<rparr>) = kinv kd idle D k"
  "kinv kd idle D (k\<lparr>registry := e\<rparr>) = kinv kd idle D k" "kinv kd idle D (k\<lparr>mtx_owner := m\<rparr>) = kinv kd idle D k"
  by (simp_all add: kinv_def placed_def in_queue_def)

lemma kernel_vt_fields [simp]:
  "thd (chVTDoSetI v d f k) = thd k" "qs (chVTDoSetI v d f k) = qs k"
  "current (chVTDoSetI v d f k) = current k" "sem_cnt (chVTDoSetI v d f k) = sem_cnt k"
  "mtx_owner (chVTDoSetI v d f k) = mtx_owner k" "refvar (chVTDoSetI v d f k) = refvar k"
  "registry (chVTDoSetI v d f k) = registry k" "evt_src (chVTDoSetI v d f k) = evt_src k"
  "evt_lis (chVTDoSetI v d f k) = evt_lis k" "mmio (chVTDoSetI v d f k) = mmio k"
  "thd (chVTDoResetI v k) = thd k" "qs (chVTDoResetI v k) = qs k"
  "current (chVTDoResetI v k) = current k" "sem_cnt (chVTDoResetI v k) = sem_cnt k"
  "mtx_owner (chVTDoResetI v k) = mtx_owner k" "refvar (chVTDoResetI v k) = refvar k"
  "registry (chVTDoResetI v k) = registry k" "evt_src (chVTDoResetI v k) = evt_src k"
  "evt_lis (chVTDoResetI v k) = evt_lis k" "mmio (chVTDoResetI v k) = mmio k"
  by (auto simp: chVTDoSetI_def chVTDoResetI_def Let_def split: list.splits prod.splits)

lemma kinv_fields_cong:
  "thd k' = thd k \<Longrightarrow> qs k' = qs k \<Longrightarrow> current k' = current k \<Longrightarrow> kinv kd idle D k' = kinv kd idle D k"
  by (simp add: kinv_def placed_def in_queue_def)

lemma wakeup_wait_inv:
  assumes i: "kinv kd idle {} k" and st: "timed (tstate k t)"
  shows "kinv kd idle {t} (wakeup_wait t k) \<and> \<not> in_queue (wakeup_wait t k) t \<and>
    current (wakeup_wait t k) = current k \<and> thd (wakeup_wait t k) = thd k"
proof (cases "queued (tstate k t)")
  case True
  then have s: "tstate k t \<in> {CH_STATE_QUEUED, CH_STATE_WTSEM, CH_STATE_WTCOND}"
    using st by (auto simp: timed_def queued_def)
  have "kinv kd idle {t} (queue_dequeue t (k\<lparr>sem_cnt := f\<rparr>))" for f
    using kinv_dequeue_take [of kd idle "{}" "k\<lparr>sem_cnt := f\<rparr>" t] i by simp
  moreover have "kinv kd idle {t} (queue_dequeue t k)" using kinv_dequeue_take [OF i, of t] by simp
  moreover have "\<not> in_queue (queue_dequeue t (k\<lparr>sem_cnt := f\<rparr>)) t" for f
    using not_in_queue_dequeue [of "k\<lparr>sem_cnt := f\<rparr>" t] kinv_queues [OF i] by simp
  moreover have "\<not> in_queue (queue_dequeue t k) t"
    using not_in_queue_dequeue [OF kinv_queues [OF i]] .
  ultimately show ?thesis using s by (auto simp: wakeup_wait_def Let_def)
next
  case False
  then have s: "tstate k t \<in> {CH_STATE_SUSPENDED, CH_STATE_SLEEPING, CH_STATE_WTOREVT, CH_STATE_WTANDEVT}"
    using st by (auto simp: timed_def queued_def)
  have nq: "t \<notin> set (qs k q)" for q using not_queued_state [OF i _ False] by simp
  then have "kinv kd idle {t} k" "\<not> in_queue k t" using kinv_take [OF i, of t] by (auto simp: in_queue_def)
  then show ?thesis using s by (auto simp: wakeup_wait_def)
qed

lemma kinv_wakeup:
  assumes i: "kinv kd idle {} k" and st: "timed (tstate k t) \<or> tstate k t = CH_STATE_READY"
  shows "kinv kd idle {} (wakeup t k) \<and> current (wakeup t k) = current k \<and>
    tstate (wakeup t k) t = CH_STATE_READY \<and>
    (timed (tstate k t) \<longrightarrow> u (thd (wakeup t k) t) = MSG_TIMEOUT)"
proof (cases "tstate k t = CH_STATE_READY")
  case True
  then show ?thesis using i by (simp add: wakeup_eq timed_def)
next
  case False
  then have t: "timed (tstate k t)" using st by simp
  note w = wakeup_wait_inv [OF i t]
  have c: "t \<noteq> current k" using t current_state [OF i, of "current k"] by (auto simp: timed_def)
  have "kinv kd idle {t} (set_u t MSG_TIMEOUT (wakeup_wait t k))" using w by blast
  moreover have "\<not> in_queue (set_u t MSG_TIMEOUT (wakeup_wait t k)) t" using w by (simp add: in_queue_def)
  ultimately have "kinv kd idle {} (chSchReadyI t (set_u t MSG_TIMEOUT (wakeup_wait t k)))"
    using kinv_chSchReadyI [of kd idle t "{t}"] w c by simp
  then show ?thesis using False w by (simp add: wakeup_eq)
qed

section \<open>The links in memory\<close>

text \<open>
  A memory \<open>h\<close> holds the kernel's queues when its rings are the lists of \<open>qs\<close>, its priority
  fields are those of the threads and the priority field of the ready list is \<open>NOPRIO\<close>.
\<close>

definition holds :: "(qhdr + ptr) links \<Rightarrow> kernel \<Rightarrow> bool" where
  "holds h k \<longleftrightarrow> qrep h (qs k) \<and> (\<forall>t. key h (Inr t) = tprio k t) \<and> key h (Inl RLIST) = NOPRIO"

lemma key_link_before [simp]: "key (link_before t c h) = key h"
  by (simp add: link_before_def Let_def)

text \<open>
  In every memory that holds the kernel's queues, the ready-list insertions written with
  links terminate for a thread that is in no queue, because every priority is above the
  \<open>NOPRIO\<close> of the list header, and leave a memory that holds the queues of the kernel after
  chSchReadyI and chSchReadyAheadI.
\<close>

theorem ready_refines:
  assumes "kinv kd idle (insert t D) k" and "\<not> in_queue k t" and "holds h k"
  shows "(\<exists>h'. ptr_chSchReadyI (Inl RLIST) (Inr t) h = Some h' \<and> holds h' (chSchReadyI t k)) \<and>
    (\<exists>h'. ptr_chSchReadyAheadI (Inl RLIST) (Inr t) h = Some h' \<and> holds h' (chSchReadyAheadI t k))"
proof -
  have q: "qrep h (qs k)" and f: "\<And>q'. t \<notin> set (qs k q')"
    and key: "key h \<circ> Inr = tprio k" "(\<lambda>t. key h (Inr t)) = tprio k"
    using assms by (auto simp: holds_def in_queue_def)
  have lt: "key h (Inl RLIST) < key h (Inr t)"
    using assms by (simp add: holds_def kinv_def NOPRIO_def)
  obtain h1 where "ptr_chSchReadyI (Inl RLIST) (Inr t) h = Some h1"
    "qrep h1 (q_prio_insert (tprio k) t RLIST (qs k))"
    using qrep_ready [OF q f lt] key by auto
  moreover from this have "holds h1 (chSchReadyI t k)"
    using assms(3) by (auto simp: holds_def ptr_chSchReadyI_def)
  moreover obtain h2 where "ptr_chSchReadyAheadI (Inl RLIST) (Inr t) h = Some h2"
    "qrep h2 (q_prio_insert_ahead (tprio k) t RLIST (qs k))"
    using qrep_ready_ahead [OF q f less_imp_le [OF lt]] key by auto
  moreover from this have "holds h2 (chSchReadyAheadI t k)"
    using assms(3) by (auto simp: holds_def ptr_chSchReadyAheadI_def)
  ultimately show ?thesis by blast
qed

section \<open>An initial state\<close>

text \<open>The kernel after start-up: thread 1 runs, thread 2 is the idle thread, no other exists.\<close>

definition boot_thread :: "ptr \<Rightarrow> thread" where
  "boot_thread t =
    \<lparr>prio = (if t = 1 then NORMALPRIO else IDLEPRIO),
     state = (if t = 1 then CH_STATE_CURRENT else if t = 2 then CH_STATE_READY else CH_STATE_WTSTART),
     flags = 0, refs = 1, u = 0, waiting = [], epending = 0, mtxlist = [],
     realprio = (if t = 1 then NORMALPRIO else IDLEPRIO), tname = [], wabase = 0, mpool = 0\<rparr>"

definition boot :: kernel where
  "boot = \<lparr>vtl = [], lasttime = 0, vfunc = (\<lambda>_. None), alarm = None, stime = 0,
    thd = boot_thread, qs = (\<lambda>q. if q = RLIST then [2] else []), current = 1,
    sem_cnt = (\<lambda>_. 0), mtx_owner = (\<lambda>_. NULL), refvar = (\<lambda>_. NULL), registry = [1, 2],
    evt_src = (\<lambda>_. []), evt_lis = (\<lambda>_. \<lparr>el_listener = 1, el_events = 1, el_flags = 0, el_wflags = - 1\<rparr>),
    mmio = (\<lambda>_. 0)\<rparr>"

lemma boot_simps:
  "qs boot q = (if q = RLIST then [2] else [])" "current boot = 1" "sem_cnt boot = (\<lambda>_. 0)"
  "mtx_owner boot = (\<lambda>_. NULL)" "thd boot = boot_thread" "vfunc boot = (\<lambda>_. None)" "vtl boot = []"
  "refvar boot = (\<lambda>_. NULL)" "registry boot = [1, 2]" "evt_src boot = (\<lambda>_. [])"
  by (simp_all add: boot_def)

lemma kinv_boot: "kinv kd 2 {} boot"
  by (auto simp: kinv_def boot_def boot_thread_def queues_ok_def placed_def in_queue_def queued_def
      NORMALPRIO_def IDLEPRIO_def)

lemma highest_boot: "highest boot"
  by (simp add: highest_def boot_def boot_thread_def NORMALPRIO_def IDLEPRIO_def)

text \<open>Boot with thread 3, of the normal priority, suspended and in hand.\<close>

definition boot_links :: "(qhdr + ptr) links" where
  "boot_links = \<lparr>nxt = id(Inl RLIST := Inr 2, Inr 2 := Inl RLIST),
    prv = id(Inl RLIST := Inr 2, Inr 2 := Inl RLIST),
    key = (\<lambda>p. case p of Inl _ \<Rightarrow> NOPRIO | Inr t \<Rightarrow> tprio boot t)\<rparr>"

lemma holds_boot: "holds boot_links boot"
  by (auto simp: holds_def qrep_def ring_def boot_links_def boot_def)

lemma ready_refines_witness:
  "\<exists>h'. ptr_chSchReadyI (Inl RLIST) (Inr 3) boot_links = Some h' \<and> holds h' (chSchReadyI 3 boot)"
  using ready_refines [OF kinv_take [OF kinv_boot, of 3] _ holds_boot]
  by (simp add: boot_def in_queue_def)

section \<open>Claims of the scheduler\<close>

text \<open>The ready threads that have the priority \<open>p\<close>, in the order in which they will run.\<close>

definition peers :: "tprio \<Rightarrow> kernel \<Rightarrow> ptr list" where
  "peers p k = filter (\<lambda>t. tprio k t = p) (qs k RLIST)"

lemma peers_swap:
  assumes i: "kinv kd idle {} k" and q: "qs k RLIST = t # r"
  shows "peers (tprio k (current k)) (chSchReadyAheadI (current k) (take_first k)) =
      current k # filter (\<lambda>x. tprio k x = tprio k (current k)) r \<and>
    peers (tprio k (current k)) (chSchReadyI (current k) (take_first k)) =
      filter (\<lambda>x. tprio k x = tprio k (current k)) r @ [current k]"
proof -
  have same: "tprio (take_first k) x = tprio k x" for x using take_first_fields [OF q] by simp
  have same2: "tprio (chSchReadyAheadI t k) x = tprio k x" "tprio (chSchReadyI t k) x = tprio k x" for t k x
    by simp_all
  have r: "by_prio (tprio k) r" using kinv_sorted [OF i] q by simp
  show ?thesis
    using ahead_lifo [OF r, of "current k"] behind_fifo [OF r, of "current k"] take_first_fields(2) [OF q]
    unfolding peers_def same2 same
    by (simp add: q_prio_insert_def q_prio_insert_ahead_def same)
qed

text \<open>
  C12: The preemptive scheduler.  From a state that satisfies the invariant, chSchRescheduleS
  reaches one in which no ready thread has a higher priority than the running one: it changes
  nothing when that holds already, and otherwise runs the first ready thread and puts the
  preempted one back before all threads of its priority.  chSchDoYieldS in such a state runs
  the first ready thread of the same priority, if any, and puts the caller behind its peers.
\<close>

theorem scheduler_correct:
  assumes "kinv kd idle {} k"
  shows "kinv kd idle {} (chSchRescheduleS k) \<and> highest (chSchRescheduleS k) \<and>
    (highest k \<longrightarrow> chSchRescheduleS k = k) \<and>
    (\<not> highest k \<longrightarrow> current (chSchRescheduleS k) = hd (qs k RLIST) \<and>
      peers (tprio k (current k)) (chSchRescheduleS k) = current k # peers (tprio k (current k)) k) \<and>
    (highest k \<longrightarrow> kinv kd idle {} (chSchDoYieldS k) \<and> highest (chSchDoYieldS k) \<and>
      (case peers (tprio k (current k)) k of
         [] \<Rightarrow> chSchDoYieldS k = k
       | t # r \<Rightarrow> current (chSchDoYieldS k) = t \<and>
           peers (tprio k (current k)) (chSchDoYieldS k) = r @ [current k]))"
proof -
  let ?p = "tprio k (current k)"
  have 1: "current (chSchRescheduleS k) = hd (qs k RLIST) \<and>
      peers ?p (chSchRescheduleS k) = current k # peers ?p k" if n: "\<not> highest k"
  proof -
    from n have r: "chSchIsRescRequiredI k" using highest_firstprio [OF assms] by simp
    then obtain t l where q: "qs k RLIST = t # l" "?p < tprio k t"
      by (cases "qs k RLIST") (auto simp: chSchIsRescRequiredI_def firstprio_def NOPRIO_def)
    then show ?thesis using r kinv_swap [OF assms] peers_swap [OF assms q(1)]
      by (simp add: chSchRescheduleS_def chSchDoRescheduleAhead_def Let_def peers_def)
  qed
  have 2: "case peers ?p k of [] \<Rightarrow> chSchDoYieldS k = k
       | t # r \<Rightarrow> current (chSchDoYieldS k) = t \<and> peers ?p (chSchDoYieldS k) = r @ [current k]"
    if h: "highest k"
  proof (cases "chSchCanYieldS k")
    case True
    have "0 < ?p" using assms by (simp add: kinv_def)
    then obtain t l where q: "qs k RLIST = t # l" "?p \<le> tprio k t"
      using True by (cases "qs k RLIST") (auto simp: chSchCanYieldS_def firstprio_def NOPRIO_def)
    then have "tprio k t = ?p" using h by (auto simp: highest_def)
    then show ?thesis using True q kinv_swap [OF assms] peers_swap [OF assms q(1)]
      by (simp add: chSchDoYieldS_def chSchDoRescheduleBehind_def Let_def peers_def)
  next
    case False
    then have "firstprio k < ?p" by (simp add: chSchCanYieldS_def)
    then have "peers ?p k = []"
      using kinv_sorted [OF assms] by (cases "qs k RLIST") (auto simp: peers_def firstprio_def filter_empty_conv)
    then show ?thesis using False by (simp add: chSchDoYieldS_def)
  qed
  have 3: "highest k \<longrightarrow> chSchRescheduleS k = k"
    using highest_firstprio [OF assms] by (simp add: chSchRescheduleS_def)
  show ?thesis
    using kinv_chSchRescheduleS [OF assms] kinv_chSchDoYieldS [OF assms] 1 2 3 by blast
qed

lemma scheduler_correct_witness:
  "kinv (\<lambda>_. KSem) 2 {} (chSchRescheduleS boot) \<and> chSchRescheduleS boot = boot"
  using scheduler_correct [OF kinv_boot, of "\<lambda>_. KSem"] highest_boot by blast

text \<open>
  A timeout.  The wakeup callback keeps the invariant for every thread that sleeps in a
  state with timeout or has been woken meanwhile; a sleeper leaves the queue it waits in,
  becomes ready with the message MSG_TIMEOUT, and a semaphore waiter gives its count back.
\<close>

theorem wakeup_correct:
  assumes "kinv kd idle {} k" and "timed (tstate k t) \<or> tstate k t = CH_STATE_READY"
  shows "kinv kd idle {} (wakeup t k) \<and> current (wakeup t k) = current k \<and>
    t \<in> set (qs (wakeup t k) RLIST) \<and>
    (timed (tstate k t) \<longrightarrow> u (thd (wakeup t k) t) = MSG_TIMEOUT) \<and>
    (tstate k t = CH_STATE_READY \<longrightarrow> wakeup t k = k) \<and>
    (tstate k t = CH_STATE_WTSEM \<longrightarrow>
      sem_cnt (wakeup t k) = (sem_cnt k)(u (thd k t) := sem_cnt k (u (thd k t)) + 1) \<and>
      qs (wakeup t k) (QOBJ (u (thd k t))) = remove1 t (qs k (QOBJ (u (thd k t)))))"
proof -
  note w = kinv_wakeup [OF assms]
  then have "t \<in> set (qs (wakeup t k) RLIST)"
    using ready_member [of kd idle "{}" "wakeup t k" t] by simp
  then show ?thesis
    using w by (auto simp: wakeup_def Let_def q_prio_insert_def q_dequeue_def)
qed

text \<open>Boot with thread 3 sleeping.\<close>

definition sleeper :: kernel where
  "sleeper = set_state 3 CH_STATE_SLEEPING boot"

lemma kinv_sleeper: "kinv kd 2 {} sleeper"
proof -
  have "kinv kd 2 {3} boot" using kinv_take [OF kinv_boot, of 3] by (simp add: boot_def)
  then have "kinv kd 2 {3} sleeper" unfolding sleeper_def by blast
  moreover have "placed kd sleeper 3"
    by (simp add: sleeper_def placed_def queued_def boot_def)
  ultimately show ?thesis by (rule kinv_settle) simp
qed

lemma wakeup_correct_witness:
  "3 \<in> set (qs (wakeup 3 sleeper) RLIST) \<and> u (thd (wakeup 3 sleeper) 3) = MSG_TIMEOUT"
  using wakeup_correct [OF kinv_sleeper, of 3 "\<lambda>_. KSem"] by (simp add: sleeper_def timed_def)

section \<open>What the synchronisation objects share\<close>

text \<open>The result of a call that may block: a value, or the caller has been switched out.\<close>

datatype 'a outcome = Ret 'a | Switched

lemma chSchGoSleepS_fields [simp]:
  "qs (chSchGoSleepS st k) q = (if q = RLIST then tl (qs k RLIST) else qs k q)"
  "sem_cnt (chSchGoSleepS st k) = sem_cnt k" "mtx_owner (chSchGoSleepS st k) = mtx_owner k"
  "refvar (chSchGoSleepS st k) = refvar k" "vfunc (chSchGoSleepS st k) = vfunc k"
  "vtl (chSchGoSleepS st k) = vtl k"
  by (auto simp: chSchGoSleepS_def take_first_def queue_fifo_remove_def split: list.splits)

lemma chSchGoSleepS_data [simp]:
  "tprio (chSchGoSleepS st k) t = tprio k t" "realprio (thd (chSchGoSleepS st k) t) = realprio (thd k t)"
  "mtxlist (thd (chSchGoSleepS st k) t) = mtxlist (thd k t)" "u (thd (chSchGoSleepS st k) t) = u (thd k t)"
  "epending (thd (chSchGoSleepS st k) t) = epending (thd k t)" "waiting (thd (chSchGoSleepS st k) t) = waiting (thd k t)"
  "flags (thd (chSchGoSleepS st k) t) = flags (thd k t)" "refs (thd (chSchGoSleepS st k) t) = refs (thd k t)"
  by (auto simp: chSchGoSleepS_def take_first_def queue_fifo_remove_def split: list.splits)

lemma chSchWakeupS_data [simp]:
  "tprio (chSchWakeupS x m k) t = tprio k t" "realprio (thd (chSchWakeupS x m k) t) = realprio (thd k t)"
  "mtxlist (thd (chSchWakeupS x m k) t) = mtxlist (thd k t)"
  "epending (thd (chSchWakeupS x m k) t) = epending (thd k t)" "waiting (thd (chSchWakeupS x m k) t) = waiting (thd k t)"
  "flags (thd (chSchWakeupS x m k) t) = flags (thd k t)" "refs (thd (chSchWakeupS x m k) t) = refs (thd k t)"
  "x \<noteq> t \<Longrightarrow> u (thd (chSchWakeupS x m k) t) = u (thd k t)"
  by (auto simp: chSchWakeupS_def Let_def)

lemma chSchGoSleepS_thd:
  assumes "qs k RLIST \<noteq> []" and "hd (qs k RLIST) \<noteq> current k"
  shows "thd (chSchGoSleepS st k) t =
    (if t = current k then (thd k t)\<lparr>state := st\<rparr>
     else if t = hd (qs k RLIST) then (thd k t)\<lparr>state := CH_STATE_CURRENT\<rparr> else thd k t)"
  using assms by (cases "qs k RLIST")
    (auto simp: chSchGoSleepS_def take_first_fields)

lemma chSchWakeupS_fields [simp]:
  "q \<noteq> RLIST \<Longrightarrow> qs (chSchWakeupS t m k) q = qs k q"
  "sem_cnt (chSchWakeupS t m k) = sem_cnt k" "mtx_owner (chSchWakeupS t m k) = mtx_owner k"
  "refvar (chSchWakeupS t m k) = refvar k" "vfunc (chSchWakeupS t m k) = vfunc k"
  "u (thd (chSchWakeupS t m k) t) = m"
  by (auto simp: chSchWakeupS_def Let_def q_prio_insert_def)

lemma chSchRescheduleS_fields [simp]:
  "q \<noteq> RLIST \<Longrightarrow> qs (chSchRescheduleS k) q = qs k q"
  "sem_cnt (chSchRescheduleS k) = sem_cnt k"
  "u (thd (chSchRescheduleS k) t) = u (thd k t)" "mtxlist (thd (chSchRescheduleS k) t) = mtxlist (thd k t)"
  "tprio (chSchRescheduleS k) t = tprio k t" "realprio (thd (chSchRescheduleS k) t) = realprio (thd k t)"
  by (auto simp: chSchRescheduleS_def chSchDoRescheduleAhead_def Let_def take_first_def
      queue_fifo_remove_def q_prio_insert_ahead_def split: list.splits)

lemma mtx_owner_chSchRescheduleS [simp]: "mtx_owner (chSchRescheduleS k) = mtx_owner k"
  by (auto simp: chSchRescheduleS_def chSchDoRescheduleAhead_def Let_def take_first_def
      chSchReadyAheadI_def queue_fifo_remove_def split: list.splits)

text \<open>The running thread waits in the queue of an object, appended or by priority.\<close>

lemma kinv_block:
  assumes i: "kinv kd idle {} k" and idle: "current k \<noteq> idle"
    and st: "allowed kd st w (QOBJ ob)" and ins: "ins = queue_insert \<or> ins = queue_prio_insert"
  shows "kinv kd idle {} (chSchGoSleepS st (ins (current k) (QOBJ ob) (set_u (current k) w k))) \<and>
    highest (chSchGoSleepS st (ins (current k) (QOBJ ob) (set_u (current k) w k)))"
proof -
  let ?c = "current k" and ?k1 = "set_u (current k) w k"
  let ?k = "ins ?c (QOBJ ob) ?k1"
  have cq: "?c \<notin> set (qs k q)" for q using current_not_queued [OF i] by simp
  have i1: "kinv kd idle {?c} ?k1" using kinv_take [OF i cq] by blast
  have nq: "\<not> in_queue ?k1 ?c" using cq by (simp add: in_queue_def)
  have i2: "kinv kd idle {?c} ?k"
    using ins kinv_queue_insert [OF i1 _ nq, of "QOBJ ob"] kinv_queue_prio_insert [OF i1 _ nq, of "QOBJ ob"] by auto
  have mem: "?c \<in> set (qs ?k q) \<longleftrightarrow> q = QOBJ ob" for q
    using ins cq by (auto simp: q_insert_def q_prio_insert_def split: if_splits)
  have cur: "current ?k = ?c" "u (thd ?k ?c) = w" using ins by auto
  have stq: "st \<noteq> CH_STATE_CURRENT" "st \<noteq> CH_STATE_READY" using st by auto
  show ?thesis
    using kinv_chSchGoSleepS [of kd idle ?k st] i2 mem st stq idle cur
    by (auto simp: in_queue_def)
qed

text \<open>The running thread sleeps outside all queues.\<close>

lemma kinv_sleep:
  assumes i: "kinv kd idle {} k" and idle: "current k \<noteq> idle"
    and st: "\<not> queued st" "st \<noteq> CH_STATE_CURRENT"
  shows "kinv kd idle {} (chSchGoSleepS st k) \<and> highest (chSchGoSleepS st k)"
proof -
  have cq: "current k \<notin> set (qs k q)" for q using current_not_queued [OF i] by simp
  have "st \<noteq> CH_STATE_READY" using st by (auto simp: queued_def)
  then show ?thesis
    using kinv_chSchGoSleepS [of kd idle k st] kinv_take [OF i cq] cq st idle by auto
qed

text \<open>A thread taken out of the queue it waits in becomes ready with a message.\<close>

lemma queued_not_current: "kinv kd idle {} k \<Longrightarrow> t \<in> set (qs k q) \<Longrightarrow> t \<noteq> current k"
  using current_not_queued [of kd idle "{}" k q] by auto

lemma kinv_release:
  assumes i: "kinv kd idle {} k" and t: "t \<in> set (qs k q)"
  shows "kinv kd idle {} (chSchReadyI t (set_u t m (queue_dequeue t k))) \<and>
    kinv kd idle {} (set_u t m (chSchReadyI t (queue_dequeue t k))) \<and>
    kinv kd idle {} (chSchReadyI t (queue_dequeue t k)) \<and>
    kinv kd idle {} (chSchWakeupS t m (queue_dequeue t k)) \<and>
    (highest k \<longrightarrow> highest (chSchWakeupS t m (queue_dequeue t k)))"
proof -
  have i1: "kinv kd idle {t} (queue_dequeue t k)" using kinv_dequeue_take [OF i, of t] by simp
  have nq: "\<not> in_queue (queue_dequeue t k) t" by (rule not_in_queue_dequeue [OF kinv_queues [OF i]])
  have c: "t \<noteq> current k" by (rule queued_not_current [OF i t])
  have "kinv kd idle {t} (set_u t m (queue_dequeue t k))" using i1 by blast
  then have a: "kinv kd idle {} (chSchReadyI t (set_u t m (queue_dequeue t k)))"
    using kinv_chSchReadyI [of kd idle t "{t}" "set_u t m (queue_dequeue t k)"] nq c
    by (simp add: in_queue_def)
  have b: "kinv kd idle {} (chSchReadyI t (queue_dequeue t k))"
    using kinv_chSchReadyI [of kd idle t "{t}" "queue_dequeue t k"] i1 nq c by simp
  then have "kinv kd idle {} (set_u t m (chSchReadyI t (queue_dequeue t k)))"
    by (rule kinv_set_u_other) simp
  moreover have "highest (queue_dequeue t k)" if "highest k"
    using that q_dequeue_mem [OF kinv_queues [OF i]] by (simp add: highest_def)
  ultimately show ?thesis using a b kinv_chSchWakeupS [OF i1 nq] c by simp
qed

lemma fifo_remove_eq:
  "kinv kd idle D k \<Longrightarrow> qs k q = t # r \<Longrightarrow> queue_fifo_remove q k = (t, queue_dequeue t k)"
  using kinv_fifo_take [of kd idle D k q t r] by (simp add: prod_eq_iff)

lemma lifo_remove_eq:
  "kinv kd idle D k \<Longrightarrow> qs k q = r @ [t] \<Longrightarrow> queue_lifo_remove q k = (t, queue_dequeue t k)"
  using kinv_lifo_take [of kd idle D k q r t] by (simp add: prod_eq_iff)

lemma q_dequeue_other:
  "queues_ok Q \<Longrightarrow> t \<in> set (Q q) \<Longrightarrow> q' \<noteq> q \<Longrightarrow> q_dequeue t Q q' = Q q'"
  using queues_ok_disj [of Q t q q'] by (auto simp: q_dequeue_def intro!: remove1_idem)

lemma q_dequeue_hd: "Q q = t # r \<Longrightarrow> q_dequeue t Q q = r"
  by (simp add: q_dequeue_def)

text \<open>Arming the timer of a sleep with timeout changes nothing but the timers.\<close>

lemma sleep_timeout_view [simp]:
  "thd (chSchGoSleepTimeoutS st time k) = thd (chSchGoSleepS st k)"
  "qs (chSchGoSleepTimeoutS st time k) = qs (chSchGoSleepS st k)"
  "current (chSchGoSleepTimeoutS st time k) = current (chSchGoSleepS st k)"
  "sem_cnt (chSchGoSleepTimeoutS st time k) = sem_cnt (chSchGoSleepS st k)"
  "mtx_owner (chSchGoSleepTimeoutS st time k) = mtx_owner (chSchGoSleepS st k)"
  "refvar (chSchGoSleepTimeoutS st time k) = refvar (chSchGoSleepS st k)"
  by (cases "qs k RLIST";
      simp add: chSchGoSleepTimeoutS_def chSchGoSleepS_def take_first_def queue_fifo_remove_def
        set_state_def upd_thd_def)+

lemma sleep_resume_view [simp]:
  "fst (chSchGoSleepTimeoutS_resume time k) = u (thd k (current k))"
  "thd (snd (chSchGoSleepTimeoutS_resume time k)) = thd k"
  "qs (snd (chSchGoSleepTimeoutS_resume time k)) = qs k"
  "current (snd (chSchGoSleepTimeoutS_resume time k)) = current k"
  "sem_cnt (snd (chSchGoSleepTimeoutS_resume time k)) = sem_cnt k"
  "mtx_owner (snd (chSchGoSleepTimeoutS_resume time k)) = mtx_owner k"
  by (simp_all add: chSchGoSleepTimeoutS_resume_def)

lemma highest_cong:
  "thd k' = thd k \<Longrightarrow> qs k' = qs k \<Longrightarrow> current k' = current k \<Longrightarrow> highest k' = highest k"
  by (simp add: highest_def)

end
