(* ===== verification/Mutexes.thy ===== *)
theory Mutexes
  imports Kernel
begin

text \<open>
  Mutexes with priority inheritance (chmtx.c, chmtx.h), not recursive
  (\<open>CH_CFG_USE_MUTEXES_RECURSIVE\<close> is off).  The \<open>next\<close> links of the mutexes owned by a thread
  are its list \<open>mtxlist\<close>.
\<close>

section \<open>Operations\<close>

definition set_owner :: "ptr \<Rightarrow> ptr \<Rightarrow> kernel \<Rightarrow> kernel" where
  "set_owner mp t k = k\<lparr>mtx_owner := (mtx_owner k)(mp := t)\<rparr>"

definition set_mtxlist :: "ptr \<Rightarrow> ptr list \<Rightarrow> kernel \<Rightarrow> kernel" where
  "set_mtxlist t ms = upd_thd t (\<lambda>x. x\<lparr>mtxlist := ms\<rparr>)"

definition chMtxObjectInit :: "ptr \<Rightarrow> kernel \<Rightarrow> kernel" where
  "chMtxObjectInit mp k = set_owner mp NULL (queue_init (QOBJ mp) k)"

definition chMtxQueueNotEmptyS :: "ptr \<Rightarrow> kernel \<Rightarrow> bool" where
  "chMtxQueueNotEmptyS mp k = queue_notempty (QOBJ mp) k"

definition chMtxGetNextMutexS :: "kernel \<Rightarrow> ptr" where
  "chMtxGetNextMutexS k = (case mtxlist (thd k (current k)) of [] \<Rightarrow> NULL | m # _ \<Rightarrow> m)"

text \<open>Dequeuing a thread and inserting it again by its new priority.\<close>

definition requeue :: "ptr \<Rightarrow> kernel \<Rightarrow> kernel" where
  "requeue tp k = queue_prio_insert tp (QOBJ (u (thd k tp))) (queue_dequeue tp k)"

text \<open>
  The inheritance loop.  A thread waiting on a condition variable is moved in the queue
  \<open>u.wtmtxp->queue\<close>: the union holds the condition variable, whose queue is also its first
  field.  Every pass raises a thread that is below \<open>ctp\<close>, of which there are finitely many.
\<close>

function chMtxLockS_boost :: "ptr \<Rightarrow> ptr \<Rightarrow> kernel \<Rightarrow> kernel" where
  "chMtxLockS_boost ctp tp k =
    (if tprio k tp < tprio k ctp
     then (let k1 = set_prio tp (tprio k ctp) k in
           case tstate k1 tp of
             CH_STATE_WTMTX \<Rightarrow>
               (let k2 = requeue tp k1
                in chMtxLockS_boost ctp (mtx_owner k2 (u (thd k2 tp))) k2)
           | CH_STATE_WTCOND \<Rightarrow> requeue tp k1
           | CH_STATE_READY \<Rightarrow> chSchReadyI tp (queue_dequeue tp k1)
           | _ \<Rightarrow> k1)
     else k)"
  by pat_completeness auto

lemma requeue_thd [simp]: "thd (requeue t k) = thd k"
  by (simp add: requeue_def)

termination chMtxLockS_boost
proof (relation "measure (\<lambda>(c, t, k). card {x. tprio k x < tprio k c})", goal_cases)
  case 1
  show ?case by simp
next
  case (2 c t k k1 k2)
  have "{x. tprio k2 x < tprio k2 c} \<subset> {x. tprio k x < tprio k c}"
    using 2 by auto
  moreover have "finite {x. tprio k x < tprio k c}" by simp
  ultimately show ?case by (simp add: psubset_card_mono)
qed

declare chMtxLockS_boost.simps [simp del]

definition chMtxLockS :: "ptr \<Rightarrow> kernel \<Rightarrow> unit outcome \<times> kernel" where
  "chMtxLockS mp k =
    (let ctp = current k in
     if mtx_owner k mp \<noteq> NULL
     then (let k = chMtxLockS_boost ctp (mtx_owner k mp) k;
               k = queue_prio_insert ctp (QOBJ mp) k;
               k = set_u ctp mp k
           in (Switched, chSchGoSleepS CH_STATE_WTMTX k))
     else (let k = set_owner mp ctp k
           in (Ret (), set_mtxlist ctp (mp # mtxlist (thd k ctp)) k)))"

definition chMtxLock :: "ptr \<Rightarrow> kernel \<Rightarrow> unit outcome \<times> kernel" where
  "chMtxLock mp k = chMtxLockS mp k"

definition chMtxTryLockS :: "ptr \<Rightarrow> kernel \<Rightarrow> bool \<times> kernel" where
  "chMtxTryLockS mp k =
    (if mtx_owner k mp \<noteq> NULL then (False, k)
     else (let k = set_owner mp (current k) k
           in (True, set_mtxlist (current k) (mp # mtxlist (thd k (current k))) k)))"

definition chMtxTryLock :: "ptr \<Rightarrow> kernel \<Rightarrow> bool \<times> kernel" where
  "chMtxTryLock mp k = chMtxTryLockS mp k"

text \<open>\<open>ctp->mtxlist = mp->next\<close>: what follows \<open>mp\<close> in the chain.\<close>

definition mtx_next :: "ptr \<Rightarrow> ptr list \<Rightarrow> ptr list" where
  "mtx_next mp ms = tl (dropWhile (\<lambda>m. m \<noteq> mp) ms)"

text \<open>The highest priority among \<open>p\<close> and the first waiters of the mutexes still owned.\<close>

fun mtx_newprio :: "tprio \<Rightarrow> ptr list \<Rightarrow> kernel \<Rightarrow> tprio" where
  "mtx_newprio p [] k = p"
| "mtx_newprio p (lmp # ms) k =
    (if chMtxQueueNotEmptyS lmp k \<and> tprio k (hd (qs k (QOBJ lmp))) > p
     then mtx_newprio (tprio k (hd (qs k (QOBJ lmp)))) ms k
     else mtx_newprio p ms k)"

text \<open>Handing a mutex over to its first waiter, which becomes ready.\<close>

definition mtx_pass :: "ptr \<Rightarrow> kernel \<Rightarrow> kernel" where
  "mtx_pass mp k =
    (let (tp, k) = queue_fifo_remove (QOBJ mp) k;
         k = set_owner mp tp k;
         k = set_mtxlist tp (mp # mtxlist (thd k tp)) k
     in chSchReadyI tp k)"

definition chMtxUnlockS :: "ptr \<Rightarrow> kernel \<Rightarrow> kernel" where
  "chMtxUnlockS mp k =
    (let ctp = current k;
         k = set_mtxlist ctp (mtx_next mp (mtxlist (thd k ctp))) k
     in if chMtxQueueNotEmptyS mp k
        then (let newprio = mtx_newprio (realprio (thd k ctp)) (mtxlist (thd k ctp)) k;
                  k = set_prio ctp newprio k
              in mtx_pass mp k)
        else set_owner mp NULL k)"

definition chMtxUnlock :: "ptr \<Rightarrow> kernel \<Rightarrow> kernel" where
  "chMtxUnlock mp k =
    (let ctp = current k;
         k = set_mtxlist ctp (mtx_next mp (mtxlist (thd k ctp))) k
     in if chMtxQueueNotEmptyS mp k
        then (let newprio = mtx_newprio (realprio (thd k ctp)) (mtxlist (thd k ctp)) k;
                  k = set_prio ctp newprio k
              in chSchRescheduleS (mtx_pass mp k))
        else set_owner mp NULL k)"

text \<open>
  The loop that releases all mutexes of \<open>ctp\<close>.  It ends: a pass takes one mutex off the list,
  or, should \<open>ctp\<close> be its own first waiter, one thread off a queue.
\<close>

definition mtx_release :: "ptr \<Rightarrow> kernel \<Rightarrow> kernel" where
  "mtx_release mp k =
    (if chMtxQueueNotEmptyS mp k then mtx_pass mp k else set_owner mp NULL k)"

function chMtxUnlockAll_loop :: "ptr \<Rightarrow> kernel \<Rightarrow> kernel" where
  "chMtxUnlockAll_loop ctp k =
    (case mtxlist (thd k ctp) of
       [] \<Rightarrow> k
     | mp # ms \<Rightarrow> chMtxUnlockAll_loop ctp (mtx_release mp (set_mtxlist ctp ms k)))"
  by pat_completeness auto

definition waiters :: "kernel \<Rightarrow> nat" where
  "waiters k = (\<Sum>p \<in> UNIV. length (qs k (QOBJ p)))"

lemma set_mtx_fields [simp]:
  "thd (set_owner m t k) = thd k" "qs (set_owner m t k) = qs k" "current (set_owner m t k) = current k"
  "mtx_owner (set_owner m t k) = (mtx_owner k)(m := t)" "sem_cnt (set_owner m t k) = sem_cnt k"
  "thd (set_mtxlist t ms k) = (thd k)(t := (thd k t)\<lparr>mtxlist := ms\<rparr>)" "qs (set_mtxlist t ms k) = qs k"
  "current (set_mtxlist t ms k) = current k" "mtx_owner (set_mtxlist t ms k) = mtx_owner k"
  "sem_cnt (set_mtxlist t ms k) = sem_cnt k"
  by (simp_all add: set_owner_def set_mtxlist_def)

lemma mtx_pass_eq:
  "qs k (QOBJ mp) = t # r \<Longrightarrow> mtx_pass mp k = chSchReadyI t (set_mtxlist t (mp # mtxlist (thd k t))
    (set_owner mp t (k\<lparr>qs := (qs k)(QOBJ mp := r)\<rparr>)))"
  by (simp add: mtx_pass_def queue_fifo_remove_def)

lemma waiters_pass:
  assumes "qs k (QOBJ mp) = t # r"
  shows "Suc (waiters (mtx_pass mp k)) = waiters k"
proof -
  have "waiters (mtx_pass mp k) = (\<Sum>p \<in> UNIV. length (((qs k)(QOBJ mp := r)) (QOBJ p)))"
    using assms by (simp add: waiters_def mtx_pass_eq q_prio_insert_def)
  also have "\<dots> = length r + (\<Sum>p \<in> UNIV - {mp}. length (qs k (QOBJ p)))"
    by (subst sum.remove [of _ mp]) auto
  finally show ?thesis
    using assms by (simp add: waiters_def sum.remove [of _ mp "\<lambda>p. length (qs k (QOBJ p))"])
qed

termination chMtxUnlockAll_loop
proof (relation "measure (\<lambda>(c, k). length (mtxlist (thd k c)) + waiters k)", goal_cases)
  case 1
  show ?case by simp
next
  case (2 c k mp ms)
  show ?case
  proof (cases "qs k (QOBJ mp)")
    case Nil
    then show ?thesis using 2 by (simp add: mtx_release_def chMtxQueueNotEmptyS_def queue_notempty_def waiters_def)
  next
    case (Cons t r)
    let ?k = "set_mtxlist c ms k"
    have q: "qs ?k (QOBJ mp) = t # r" using Cons by simp
    have "Suc (waiters (mtx_pass mp ?k)) = waiters ?k" by (rule waiters_pass [OF q])
    moreover have "waiters ?k = waiters k" by (simp add: waiters_def)
    moreover have "length (mtxlist (thd (mtx_pass mp ?k) c)) \<le> Suc (length ms)"
      using mtx_pass_eq [OF q] by (cases "t = c") auto
    ultimately show ?thesis using 2 Cons
      by (simp add: mtx_release_def chMtxQueueNotEmptyS_def queue_notempty_def)
  qed
qed

declare chMtxUnlockAll_loop.simps [simp del]

definition chMtxUnlockAllS :: "kernel \<Rightarrow> kernel" where
  "chMtxUnlockAllS k =
    (let ctp = current k;
         k = chMtxUnlockAll_loop ctp k
     in set_prio ctp (realprio (thd k ctp)) k)"

definition chMtxUnlockAll :: "kernel \<Rightarrow> kernel" where
  "chMtxUnlockAll k =
    (let ctp = current k in
     if mtxlist (thd k ctp) \<noteq> []
     then (let k = chMtxUnlockAll_loop ctp k;
               k = set_prio ctp (realprio (thd k ctp)) k
           in chSchRescheduleS k)
     else k)"

section \<open>Invariant\<close>

text \<open>
  Mutex queues are in priority order, a free mutex has no waiters, the list of a thread holds
  exactly the mutexes it owns, and the null pointer is no thread.
\<close>

definition mtx_struct :: "(ptr \<Rightarrow> okind) \<Rightarrow> kernel \<Rightarrow> bool" where
  "mtx_struct kd k \<longleftrightarrow>
    (\<forall>m. kd m = KMtx \<longrightarrow> by_prio (tprio k) (qs k (QOBJ m)) \<and>
      (mtx_owner k m = NULL \<longrightarrow> qs k (QOBJ m) = [])) \<and>
    (\<forall>t m. m \<in> set (mtxlist (thd k t)) \<longleftrightarrow> kd m = KMtx \<and> mtx_owner k m = t \<and> t \<noteq> NULL) \<and>
    (\<forall>t. distinct (mtxlist (thd k t))) \<and>
    current k \<noteq> NULL \<and> (\<forall>q. NULL \<notin> set (qs k q))"

text \<open>
  No inversion: the owner of a mutex has at least the priority of every waiter.  A thread may have
  lowered its priority below that of a waiter by chThdSetPriority; the threads that did are the
  set \<open>X\<close>, for which nothing is claimed.  No operation on mutexes adds to it.
\<close>

definition pi_ok :: "(ptr \<Rightarrow> okind) \<Rightarrow> ptr set \<Rightarrow> kernel \<Rightarrow> bool" where
  "pi_ok kd X k \<longleftrightarrow> (\<forall>m w. kd m = KMtx \<longrightarrow> w \<in> set (qs k (QOBJ m)) \<longrightarrow> mtx_owner k m \<notin> X \<longrightarrow>
     tprio k w \<le> tprio k (mtx_owner k m))"

text \<open>A priority is the thread's own, or inherited from a waiter that has exactly it.\<close>

definition justified :: "(ptr \<Rightarrow> okind) \<Rightarrow> kernel \<Rightarrow> ptr \<Rightarrow> bool" where
  "justified kd k t \<longleftrightarrow> tprio k t = realprio (thd k t) \<or>
    realprio (thd k t) < tprio k t \<and>
      (\<exists>m w. kd m = KMtx \<and> mtx_owner k m = t \<and> w \<in> set (qs k (QOBJ m)) \<and> tprio k w = tprio k t)"

definition mtxk :: "(ptr \<Rightarrow> okind) \<Rightarrow> ptr \<Rightarrow> ptr set \<Rightarrow> kernel \<Rightarrow> bool" where
  "mtxk kd idle X k \<longleftrightarrow> kinv kd idle {} k \<and> mtx_struct kd k \<and> pi_ok kd X k \<and> (\<forall>t. justified kd k t)"

lemma mtx_waiter_state:
  assumes "kinv kd idle D k" and "kd m = KMtx" and "t \<in> set (qs k (QOBJ m))" and "t \<notin> D"
  shows "tstate k t = CH_STATE_WTMTX \<and> u (thd k t) = m"
proof -
  have "allowed kd (tstate k t) (u (thd k t)) (QOBJ m)"
    using assms by (auto simp: kinv_def placed_def)
  then show ?thesis using assms(2) by (cases "tstate k t") auto
qed

lemma wtmtx_queue:
  assumes "kinv kd idle D k" and "tstate k t \<in> {CH_STATE_WTMTX, CH_STATE_WTCOND}" and "t \<notin> D"
  shows "t \<in> set (qs k q) \<longleftrightarrow> q = QOBJ (u (thd k t))"
    and "allowed kd (tstate k t) (u (thd k t)) (QOBJ (u (thd k t)))"
proof -
  have p: "placed kd k t" by (rule kinv_placed [OF assms(1,3)])
  then obtain q' where q': "t \<in> set (qs k q')"
    using assms(2) by (auto simp: placed_def queued_def in_queue_def)
  have al: "q = QOBJ (u (thd k t))" if "t \<in> set (qs k q)" for q
  proof -
    have "allowed kd (tstate k t) (u (thd k t)) q" using p that by (simp add: placed_def)
    then show ?thesis using assms(2) by auto
  qed
  then show "t \<in> set (qs k q) \<longleftrightarrow> q = QOBJ (u (thd k t))" using q' by blast
  have "allowed kd (tstate k t) (u (thd k t)) q'" using p q' by (simp add: placed_def)
  then show "allowed kd (tstate k t) (u (thd k t)) (QOBJ (u (thd k t)))" using al [OF q'] by simp
qed

section \<open>Raising one thread\<close>

lemma kinv_set_prio:
  assumes i: "kinv kd idle D k" and t: "t \<notin> set (qs k RLIST)" and p: "0 < p"
  shows "kinv kd idle D (set_prio t p k)"
proof -
  have "placed kd (set_prio t p k) x" if "placed kd k x" for x
    using that by (cases "x = t") (simp_all add: placed_def in_queue_def)
  moreover have "by_prio (tprio (set_prio t p k)) (qs k RLIST) = by_prio (tprio k) (qs k RLIST)"
    by (rule by_prio_cong) (use t in auto)
  ultimately show ?thesis using i p unfolding kinv_def by (auto split: if_splits)
qed

lemma kinv_requeue:
  assumes i: "kinv kd idle {} k" and st: "tstate k t \<in> {CH_STATE_WTMTX, CH_STATE_WTCOND}"
  shows "kinv kd idle {} (requeue t k)"
proof -
  let ?q = "QOBJ (u (thd k t))"
  have i1: "kinv kd idle {t} (queue_dequeue t k)" using kinv_dequeue_take [OF i, of t] by simp
  have nq: "\<not> in_queue (queue_dequeue t k) t" by (rule not_in_queue_dequeue [OF kinv_queues [OF i]])
  have i2: "kinv kd idle {t} (requeue t k)"
    unfolding requeue_def using kinv_queue_prio_insert [OF i1 _ nq, of ?q] by simp
  have "t \<notin> set (q_dequeue t (qs k) q)" for q using nq by (simp add: in_queue_def)
  then have m: "t \<in> set (qs (requeue t k) q) \<longleftrightarrow> q = ?q" for q
    by (simp add: requeue_def q_prio_insert_def)
  have al: "allowed kd (tstate k t) (u (thd k t)) ?q" using wtmtx_queue(2) [OF i st] by simp
  have c: "current (requeue t k) = current k" by (simp add: requeue_def)
  have nc: "tstate k t \<noteq> CH_STATE_CURRENT" using st by auto
  then have "t \<noteq> current k" using current_state [OF i, of t] by simp
  then have "placed kd (requeue t k) t"
    by (simp add: placed_def in_queue_def m al c nc)
  moreover have "t \<noteq> idle" using i st by (auto simp: kinv_def)
  ultimately show ?thesis by (intro kinv_settle [OF i2]) simp_all
qed

lemma set_qs_requeue:
  assumes i: "kinv kd idle {} k" and st: "tstate k t \<in> {CH_STATE_WTMTX, CH_STATE_WTCOND}"
  shows "set (qs (requeue t k) q) = set (qs k q)"
proof (rule set_eqI)
  fix x
  have Q: "queues_ok (qs k)" by (rule kinv_queues [OF i])
  have w: "t \<in> set (qs k q) \<longleftrightarrow> q = QOBJ (u (thd k t))" using wtmtx_queue(1) [OF i st] by simp
  have "x \<in> set (qs (requeue t k) q) \<longleftrightarrow>
      x \<in> set (q_dequeue t (qs k) q) \<or> x = t \<and> q = QOBJ (u (thd k t))"
    by (auto simp: requeue_def q_prio_insert_def)
  then show "x \<in> set (qs (requeue t k) q) \<longleftrightarrow> x \<in> set (qs k q)"
    using w q_dequeue_mem [OF Q] by auto
qed

text \<open>The effect of one pass on the thread that is raised, whatever its state.\<close>

definition raised :: "ptr \<Rightarrow> tprio \<Rightarrow> kernel \<Rightarrow> kernel \<Rightarrow> bool" where
  "raised t p k k' \<longleftrightarrow>
    thd k' = (thd k)(t := (thd k t)\<lparr>prio := p\<rparr>) \<and> (\<forall>q. set (qs k' q) = set (qs k q)) \<and>
    mtx_owner k' = mtx_owner k \<and> current k' = current k \<and> sem_cnt k' = sem_cnt k"

lemma set_prio_dequeue: "queue_dequeue t (set_prio t p k) = set_prio t p (queue_dequeue t k)"
  by (simp add: queue_dequeue_def set_prio_def upd_thd_def)

lemma raise_ready:
  assumes i: "kinv kd idle {} k" and st: "tstate k t = CH_STATE_READY" and p: "0 < p"
  defines "k' \<equiv> chSchReadyI t (queue_dequeue t (set_prio t p k))"
  shows "kinv kd idle {} k' \<and> raised t p k k' \<and> (\<forall>q. q \<noteq> RLIST \<longrightarrow> qs k' q = qs k q)"
proof -
  have Q: "queues_ok (qs k)" by (rule kinv_queues [OF i])
  have tr: "t \<in> set (qs k RLIST)" using ready_member [OF i _ st] by simp
  have c: "t \<noteq> current k" using current_state [OF i, of t] st by simp
  have i1: "kinv kd idle {t} (queue_dequeue t k)" using kinv_dequeue_take [OF i, of t] by simp
  have nq: "\<not> in_queue (queue_dequeue t k) t" by (rule not_in_queue_dequeue [OF Q])
  then have "t \<notin> set (qs (queue_dequeue t k) RLIST)" by (auto simp: in_queue_def)
  from kinv_set_prio [OF i1 this p]
  have "kinv kd idle {} k'"
    unfolding k'_def set_prio_dequeue
    using kinv_chSchReadyI [of kd idle t "{t}" "set_prio t p (queue_dequeue t k)"] nq c
    by (simp add: in_queue_def)
  moreover have "raised t p k k'"
    unfolding raised_def k'_def using st tr q_dequeue_mem [OF Q] queues_ok_disj [OF Q tr]
    by (auto simp: q_prio_insert_def fun_eq_iff)
  moreover have "qs k' q = qs k q" if "q \<noteq> RLIST" for q
    using that q_dequeue_other [OF Q tr] by (simp add: k'_def q_prio_insert_def)
  ultimately show ?thesis by blast
qed

lemma raise_requeue:
  assumes i: "kinv kd idle {} k" and st: "tstate k t \<in> {CH_STATE_WTMTX, CH_STATE_WTCOND}" and p: "0 < p"
  defines "k' \<equiv> requeue t (set_prio t p k)"
  shows "kinv kd idle {} k' \<and> raised t p k k' \<and>
    (\<forall>q. q \<noteq> QOBJ (u (thd k t)) \<longrightarrow> qs k' q = qs k q) \<and>
    qs k' (QOBJ (u (thd k t))) =
      ins_where (\<lambda>cp. p \<le> tprio k' cp) t (remove1 t (qs k (QOBJ (u (thd k t)))))"
proof -
  have tq: "t \<notin> set (qs k RLIST)" using wtmtx_queue(1) [OF i st] by simp
  have i1: "kinv kd idle {} (set_prio t p k)" by (rule kinv_set_prio [OF i tq p])
  have st1: "tstate (set_prio t p k) t \<in> {CH_STATE_WTMTX, CH_STATE_WTCOND}" using st by simp
  have "raised t p k k'"
    unfolding raised_def k'_def
    using set_qs_requeue [OF i1 st1] by (simp add: requeue_def)
  moreover have "qs k' q = qs k q" if "q \<noteq> QOBJ (u (thd k t))" for q
    using that q_dequeue_other [OF kinv_queues [OF i], of t "QOBJ (u (thd k t))" q] wtmtx_queue(1) [OF i st]
    by (simp add: k'_def requeue_def q_prio_insert_def)
  moreover have "qs k' (QOBJ (u (thd k t))) =
      ins_where (\<lambda>cp. p \<le> tprio k' cp) t (remove1 t (qs k (QOBJ (u (thd k t)))))"
    by (simp add: k'_def requeue_def q_prio_insert_def q_dequeue_def)
  ultimately show ?thesis using kinv_requeue [OF i1 st1] by (simp add: k'_def)
qed

definition mtx_sorted :: "(ptr \<Rightarrow> okind) \<Rightarrow> kernel \<Rightarrow> bool" where
  "mtx_sorted kd k \<longleftrightarrow> (\<forall>m. kd m = KMtx \<longrightarrow> by_prio (tprio k) (qs k (QOBJ m)))"

lemma sorted_raised:
  assumes s: "mtx_sorted kd k" and r: "raised t p k k'" and kd: "kd m = KMtx"
    and t: "t \<notin> set (qs k (QOBJ m))" and q: "qs k' (QOBJ m) = qs k (QOBJ m)"
  shows "by_prio (tprio k') (qs k' (QOBJ m))"
proof -
  have "by_prio (tprio k') (qs k (QOBJ m)) = by_prio (tprio k) (qs k (QOBJ m))"
    by (rule by_prio_cong) (use t r in \<open>auto simp: raised_def\<close>)
  then show ?thesis using s kd q by (simp add: mtx_sorted_def)
qed

text \<open>One pass of the loop in each of its four branches.\<close>

definition boost_one :: "ptr \<Rightarrow> tprio \<Rightarrow> kernel \<Rightarrow> kernel" where
  "boost_one t p k =
    (let k1 = set_prio t p k in
     case tstate k t of
       CH_STATE_WTMTX \<Rightarrow> requeue t k1
     | CH_STATE_WTCOND \<Rightarrow> requeue t k1
     | CH_STATE_READY \<Rightarrow> chSchReadyI t (queue_dequeue t k1)
     | _ \<Rightarrow> k1)"

lemma boost_one_raises:
  assumes i: "kinv kd idle {} k" and s: "mtx_sorted kd k" and p: "0 < p"
  shows "kinv kd idle {} (boost_one t p k) \<and> raised t p k (boost_one t p k) \<and> mtx_sorted kd (boost_one t p k)"
proof -
  consider (ready) "tstate k t = CH_STATE_READY" | (wait) "tstate k t \<in> {CH_STATE_WTMTX, CH_STATE_WTCOND}"
    | (other) "tstate k t \<notin> {CH_STATE_READY, CH_STATE_WTMTX, CH_STATE_WTCOND}" by blast
  then show ?thesis
  proof cases
    case ready
    then have k': "boost_one t p k = chSchReadyI t (queue_dequeue t (set_prio t p k))"
      by (simp add: boost_one_def)
    note r = raise_ready [OF i ready p, folded k']
    have "t \<notin> set (qs k (QOBJ m))" for m
      using ready_member [OF i _ ready] queues_ok_disj [OF kinv_queues [OF i], of t RLIST "QOBJ m"] by auto
    then have "mtx_sorted kd (boost_one t p k)"
      unfolding mtx_sorted_def using sorted_raised [OF s, of t p "boost_one t p k"] r by simp
    then show ?thesis using r by blast
  next
    case wait
    then have k': "boost_one t p k = requeue t (set_prio t p k)" by (auto simp: boost_one_def)
    let ?q = "QOBJ (u (thd k t))" and ?k = "boost_one t p k"
    note r = raise_requeue [OF i wait p, folded k']
    have "by_prio (tprio ?k) (qs ?k (QOBJ m))" if kd: "kd m = KMtx" for m
    proof (cases "QOBJ m = ?q")
      case False
      then show ?thesis using sorted_raised [OF s _ kd, of t p ?k] r wtmtx_queue(1) [OF i wait, of "QOBJ m"] by simp
    next
      case True
      have "by_prio (tprio k) (remove1 t (qs k ?q))"
        using s kd True by (simp add: mtx_sorted_def by_prio_remove1)
      moreover have "t \<notin> set (remove1 t (qs k ?q))"
        using kinv_queues [OF i] by (simp add: queues_ok_def set_remove1_eq)
      then have "tprio ?k x = tprio k x" if "x \<in> set (remove1 t (qs k ?q))" for x
        using that r by (auto simp: raised_def)
      then have "by_prio (tprio ?k) (remove1 t (qs k ?q)) = by_prio (tprio k) (remove1 t (qs k ?q))"
        by (intro by_prio_cong) simp
      moreover have "tprio ?k t = p" using r by (simp add: raised_def)
      ultimately show ?thesis
        using True r behind.by_prio_insert [of "tprio ?k" "remove1 t (qs k ?q)" t] by simp
    qed
    then show ?thesis using r by (simp add: mtx_sorted_def)
  next
    case other
    then have k': "boost_one t p k = set_prio t p k"
      by (cases "tstate k t") (auto simp: boost_one_def)
    have tr: "t \<notin> set (qs k RLIST)" using ready_state [OF i, of t] other by auto
    have nm: "t \<notin> set (qs k (QOBJ m))" if "kd m = KMtx" for m
      using mtx_waiter_state [of kd idle "{}" k m t] i other that by auto
    have "raised t p k (set_prio t p k)" by (simp add: raised_def)
    then show ?thesis
      using kinv_set_prio [OF i tr p] sorted_raised [OF s, of t p "set_prio t p k"] nm k'
      by (simp add: mtx_sorted_def)
  qed
qed

lemma boost_eq:
  "chMtxLockS_boost ctp tp k =
    (if tprio k tp < tprio k ctp
     then (let k' = boost_one tp (tprio k ctp) k in
           if tstate k tp = CH_STATE_WTMTX then chMtxLockS_boost ctp (mtx_owner k' (u (thd k tp))) k' else k')
     else k)"
  by (subst chMtxLockS_boost.simps) (auto simp: boost_one_def Let_def split: tstate.splits)

section \<open>The inheritance loop\<close>

text \<open>From \<open>k\<close> to \<open>k'\<close> priorities were raised, queues reordered, and nothing else changed.\<close>

definition only_raised :: "kernel \<Rightarrow> kernel \<Rightarrow> bool" where
  "only_raised k k' \<longleftrightarrow>
    (\<forall>t. thd k' t = (thd k t)\<lparr>prio := tprio k' t\<rparr> \<and> tprio k t \<le> tprio k' t) \<and>
    (\<forall>q. set (qs k' q) = set (qs k q)) \<and> mtx_owner k' = mtx_owner k \<and> current k' = current k \<and>
    sem_cnt k' = sem_cnt k"

lemma only_raised_refl: "only_raised k k"
  by (simp add: only_raised_def)

lemma only_raised_trans: "only_raised k k1 \<Longrightarrow> only_raised k1 k2 \<Longrightarrow> only_raised k k2"
proof -
  assume a: "only_raised k k1" and b: "only_raised k1 k2"
  have "thd k2 t = (thd k t)\<lparr>prio := tprio k2 t\<rparr> \<and> tprio k t \<le> tprio k2 t" for t
  proof -
    have 1: "thd k1 t = (thd k t)\<lparr>prio := tprio k1 t\<rparr>" "tprio k t \<le> tprio k1 t"
      using a unfolding only_raised_def by blast+
    have 2: "thd k2 t = (thd k1 t)\<lparr>prio := tprio k2 t\<rparr>" "tprio k1 t \<le> tprio k2 t"
      using b unfolding only_raised_def by blast+
    note 2(1)
    also have "(thd k1 t)\<lparr>prio := tprio k2 t\<rparr> = (thd k t)\<lparr>prio := tprio k1 t\<rparr>\<lparr>prio := tprio k2 t\<rparr>"
      using arg_cong [OF 1(1), of "\<lambda>x. x\<lparr>prio := tprio k2 t\<rparr>"] .
    also have "\<dots> = (thd k t)\<lparr>prio := tprio k2 t\<rparr>" by simp
    finally show ?thesis using order_trans [OF 1(2) 2(2)] by simp
  qed
  then show ?thesis using a b by (simp add: only_raised_def)
qed

lemma raised_only: "raised t p k k' \<Longrightarrow> tprio k t \<le> p \<Longrightarrow> only_raised k k'"
  by (auto simp: raised_def only_raised_def)

text \<open>
  The loop invariant: every inversion (at no thread of \<open>X\<close>) is at the thread \<open>tp\<close> about to be examined and is
  bounded by \<open>p\<close>; a priority without justification is that of the first owner, raised for the
  thread that is going to wait, or that of \<open>tp\<close>, which is going to be raised.
\<close>

definition boosting :: "(ptr \<Rightarrow> okind) \<Rightarrow> ptr set \<Rightarrow> ptr \<Rightarrow> tprio \<Rightarrow> ptr \<Rightarrow> kernel \<Rightarrow> bool" where
  "boosting kd X own p tp k \<longleftrightarrow>
    (\<forall>m w. kd m = KMtx \<longrightarrow> w \<in> set (qs k (QOBJ m)) \<longrightarrow> mtx_owner k m \<notin> X \<longrightarrow>
      tprio k w \<le> tprio k (mtx_owner k m) \<or> mtx_owner k m = tp \<and> tprio k w \<le> p) \<and>
    (\<forall>t. justified kd k t \<or> t = own \<and> tprio k t = p \<and> realprio (thd k t) < p \<or> t = tp \<and> tprio k t < p) \<and>
    (tp = own \<or> (\<exists>m w. kd m = KMtx \<and> mtx_owner k m = tp \<and> w \<in> set (qs k (QOBJ m)) \<and> tprio k w = p)) \<and>
    (\<forall>t. realprio (thd k t) \<le> tprio k t)"

definition boosted :: "(ptr \<Rightarrow> okind) \<Rightarrow> ptr set \<Rightarrow> ptr \<Rightarrow> tprio \<Rightarrow> kernel \<Rightarrow> bool" where
  "boosted kd X own p k \<longleftrightarrow> pi_ok kd X k \<and>
    (\<forall>t. justified kd k t \<or> t = own \<and> tprio k t = p \<and> realprio (thd k t) < p)"

lemma boosting_stop:
  assumes b: "boosting kd X own p tp k" and p: "p \<le> tprio k tp"
  shows "boosted kd X own p k"
proof -
  have "tprio k w \<le> tprio k (mtx_owner k m)" if "kd m = KMtx" "w \<in> set (qs k (QOBJ m))" "mtx_owner k m \<notin> X" for m w
  proof -
    from b that consider "tprio k w \<le> tprio k (mtx_owner k m)" | "mtx_owner k m = tp" "tprio k w \<le> p"
      unfolding boosting_def by blast
    then show ?thesis using p by cases (auto intro: order_trans)
  qed
  moreover have "justified kd k t \<or> t = own \<and> tprio k t = p \<and> realprio (thd k t) < p" for t
  proof -
    have "\<not> (t = tp \<and> tprio k t < p)" using p by auto
    then show ?thesis using b unfolding boosting_def by blast
  qed
  ultimately show ?thesis by (simp add: boosted_def pi_ok_def)
qed

lemma boosting_step:
  assumes i: "kinv kd idle {} k" and b: "boosting kd X own p tp k" and lt: "tprio k tp < p"
    and r: "raised tp p k k'"
  shows "(if tstate k tp = CH_STATE_WTMTX then boosting kd X own p (mtx_owner k (u (thd k tp))) k'
    else boosted kd X own p k')"
proof -
  have tpp: "tprio k' tp = p" "\<And>x. x \<noteq> tp \<Longrightarrow> thd k' x = thd k x" "realprio (thd k' x) = realprio (thd k x)"
    "u (thd k' x) = u (thd k x)" for x
    using r by (auto simp: raised_def)
  have mem: "x \<in> set (qs k' q) \<longleftrightarrow> x \<in> set (qs k q)" and own: "mtx_owner k' = mtx_owner k" for x q
    using r by (auto simp: raised_def)
  have mono: "tprio k x \<le> tprio k' x" for x using tpp lt by (cases "x = tp") auto
  have edge: "m = u (thd k tp) \<and> tstate k tp = CH_STATE_WTMTX"
    if "kd m = KMtx" "tp \<in> set (qs k (QOBJ m))" for m
    using mtx_waiter_state [OF i that] by simp
  have e1: "tprio k' w \<le> tprio k' (mtx_owner k' m) \<or> w = tp \<and> tprio k' w = p"
    if "kd m = KMtx" "w \<in> set (qs k (QOBJ m))" "mtx_owner k m \<notin> X" for m w
  proof (cases "w = tp")
    case False
    from b that consider "tprio k w \<le> tprio k (mtx_owner k m)" | "mtx_owner k m = tp" "tprio k w \<le> p"
      unfolding boosting_def by blast
    then show ?thesis
    proof cases
      case 1
      then show ?thesis using False tpp own mono [of "mtx_owner k m"] by (auto intro: order_trans)
    next
      case 2
      then show ?thesis using False tpp own by simp
    qed
  qed (use tpp in simp)
  have rp: "realprio (thd k' t) \<le> tprio k' t" for t
    using b mono [of t] tpp(3) by (auto simp: boosting_def intro: order_trans)
  have tpj: "justified kd k' tp \<or> tp = own \<and> tprio k' tp = p \<and> realprio (thd k' tp) < p"
  proof -
    have rlt: "realprio (thd k' tp) < p"
      using b lt tpp(3) by (auto simp: boosting_def intro: le_less_trans)
    from b consider "tp = own" | m w where "kd m = KMtx" "mtx_owner k m = tp" "w \<in> set (qs k (QOBJ m))" "tprio k w = p"
      unfolding boosting_def by blast
    then show ?thesis
    proof cases
      case 1
      then show ?thesis using tpp rlt by simp
    next
      case 2
      then have "w \<noteq> tp" using lt by auto
      then have "tprio k' w = p" using tpp(2) 2 by simp
      then show ?thesis using 2 rlt tpp mem own by (auto simp: justified_def)
    qed
  qed
  have just: "justified kd k' t \<or> t = own \<and> tprio k' t = p \<and> realprio (thd k' t) < p \<or>
      tstate k tp = CH_STATE_WTMTX \<and> t = mtx_owner k (u (thd k tp)) \<and> tprio k' t < p" for t
  proof (cases "t = tp")
    case True
    then show ?thesis using tpj by blast
  next
    case False
    then have same: "thd k' t = thd k t" by (rule tpp(2))
    from b False consider "justified kd k t" | "t = own" "tprio k t = p" "realprio (thd k t) < p"
      unfolding boosting_def by blast
    then show ?thesis
    proof cases
      case 1
      then consider "tprio k t = realprio (thd k t)"
        | m w where "realprio (thd k t) < tprio k t" "kd m = KMtx" "mtx_owner k m = t"
            "w \<in> set (qs k (QOBJ m))" "tprio k w = tprio k t"
        unfolding justified_def by blast
      then show ?thesis
      proof cases
        case 1
        then show ?thesis using same by (simp add: justified_def)
      next
        case 2
        show ?thesis
        proof (cases "w = tp")
          case True
          then show ?thesis using 2 edge [of m] same lt by auto
        next
          case wn: False
          then have "tprio k' w = tprio k' t" using 2 same tpp(2) by simp
          then show ?thesis using 2 same mem own by (auto simp: justified_def)
        qed
      qed
    next
      case 2
      then show ?thesis using same by simp
    qed
  qed
  show ?thesis
  proof (cases "tstate k tp = CH_STATE_WTMTX")
    case True
    let ?m = "u (thd k tp)"
    have q: "tp \<in> set (qs k (QOBJ ?m))" and kd: "kd ?m = KMtx"
      using wtmtx_queue [OF i, of tp] True by auto
    have "boosting kd X own p (mtx_owner k ?m) k'"
      unfolding boosting_def
    proof (intro conjI allI impI)
      fix m w assume a: "kd m = KMtx" "w \<in> set (qs k' (QOBJ m))" "mtx_owner k' m \<notin> X"
      show "tprio k' w \<le> tprio k' (mtx_owner k' m) \<or> mtx_owner k' m = mtx_owner k ?m \<and> tprio k' w \<le> p"
        using e1 [of m w] edge [of m] a mem own by auto
    next
      fix t
      show "justified kd k' t \<or> t = own \<and> tprio k' t = p \<and> realprio (thd k' t) < p \<or>
          t = mtx_owner k ?m \<and> tprio k' t < p" using just [of t] by blast
    next
      show "mtx_owner k ?m = own \<or> (\<exists>m w. kd m = KMtx \<and> mtx_owner k' m = mtx_owner k ?m \<and>
          w \<in> set (qs k' (QOBJ m)) \<and> tprio k' w = p)"
        using kd q mem own tpp(1) by metis
    qed (rule rp)
    then show ?thesis using True by simp
  next
    case False
    have "pi_ok kd X k'" unfolding pi_ok_def using e1 edge False mem own by metis
    then show ?thesis using just False by (auto simp: boosted_def)
  qed
qed

lemma boost_loop:
  "kinv kd idle {} k \<Longrightarrow> mtx_sorted kd k \<Longrightarrow> boosting kd X own (tprio k ctp) tp k \<Longrightarrow>
    kinv kd idle {} (chMtxLockS_boost ctp tp k) \<and> mtx_sorted kd (chMtxLockS_boost ctp tp k) \<and>
    boosted kd X own (tprio k ctp) (chMtxLockS_boost ctp tp k) \<and>
    only_raised k (chMtxLockS_boost ctp tp k) \<and> tprio k ctp \<le> tprio (chMtxLockS_boost ctp tp k) tp \<and>
    tprio (chMtxLockS_boost ctp tp k) ctp = tprio k ctp"
proof (induction "card {x. tprio k x < tprio k ctp}" arbitrary: tp k rule: less_induct)
  case less
  let ?p = "tprio k ctp"
  show ?case
  proof (cases "tprio k tp < ?p")
    case False
    then show ?thesis
      using less.prems boosting_stop [OF less.prems(3)] by (simp add: boost_eq [of ctp tp k] only_raised_refl)
  next
    case True
    define k' where "k' = boost_one tp ?p k"
    have "0 < ?p" using less.prems(1) by (simp add: kinv_def)
    then have r: "kinv kd idle {} k'" "raised tp ?p k k'" "mtx_sorted kd k'"
      using boost_one_raises [OF less.prems(1,2)] by (simp_all add: k'_def)
    have ne: "tp \<noteq> ctp" using True by auto
    have p': "tprio k' ctp = ?p" and tp': "tprio k' tp = ?p" using r(2) ne by (simp_all add: raised_def)
    have only: "only_raised k k'" by (rule raised_only [OF r(2)]) (use True in simp)
    note st = boosting_step [OF less.prems(1,3) True r(2)]
    show ?thesis
    proof (cases "tstate k tp = CH_STATE_WTMTX")
      case False
      then have "chMtxLockS_boost ctp tp k = k'"
        using True by (simp add: boost_eq [of ctp tp k] k'_def)
      then show ?thesis using r st False only p' tp' by simp
    next
      case wt: True
      let ?t = "mtx_owner k' (u (thd k tp))"
      have eq: "chMtxLockS_boost ctp tp k = chMtxLockS_boost ctp ?t k'"
        using True wt by (simp add: boost_eq [of ctp tp k] k'_def Let_def)
      have "{x. tprio k' x < tprio k' ctp} \<subset> {x. tprio k x < ?p}"
        using r(2) p' tp' True by (auto simp: raised_def split: if_splits)
      then have card: "card {x. tprio k' x < tprio k' ctp} < card {x. tprio k x < ?p}"
        by (simp add: psubset_card_mono)
      have b: "boosting kd X own (tprio k' ctp) ?t k'"
        using st wt p' r(2) by (simp add: raised_def)
      note IH = less.hyps [OF card r(1,3) b, unfolded p']
      have "tprio k' tp \<le> tprio (chMtxLockS_boost ctp ?t k') tp" using IH by (simp add: only_raised_def)
      then show ?thesis unfolding eq using IH only_raised_trans [OF only] tp' by simp
    qed
  qed
qed

section \<open>Locking\<close>

lemma set_u_prio_insert: "set_u t w (queue_prio_insert x q k) = queue_prio_insert x q (set_u t w k)"
proof -
  have "tprio (set_u t w k) = tprio k" by (simp add: fun_eq_iff)
  then show ?thesis by (simp add: queue_prio_insert_def set_u_def upd_thd_def)
qed

lemma qs_prio_insert_set_u [simp]:
  "qs (queue_prio_insert x q (set_u t w k)) = q_prio_insert (tprio k) x q (qs k)"
proof -
  have "tprio (set_u t w k) = tprio k" by (simp add: fun_eq_iff)
  then show ?thesis by (simp add: queue_prio_insert_def)
qed

lemma mtxk_sorted: "mtx_struct kd k \<Longrightarrow> mtx_sorted kd k"
  by (simp add: mtx_struct_def mtx_sorted_def)

lemma justified_ge: "justified kd k t \<Longrightarrow> realprio (thd k t) \<le> tprio k t"
  by (auto simp: justified_def)

lemma boosting_start:
  "mtxk kd idle X k \<Longrightarrow> boosting kd X tp p tp k"
  using justified_ge [of kd k] unfolding boosting_def mtxk_def pi_ok_def by blast

lemma struct_only_raised:
  assumes s: "mtx_struct kd k" and o: "only_raised k k'" and so: "mtx_sorted kd k'"
  shows "mtx_struct kd k'"
proof -
  have set: "set (qs k' q) = set (qs k q)" for q using o by (simp add: only_raised_def)
  then have nil: "qs k' q = [] \<longleftrightarrow> qs k q = []" for q by (metis set_empty)
  have ml: "mtxlist (thd k' t) = mtxlist (thd k t)" for t
  proof -
    have "thd k' t = (thd k t)\<lparr>prio := tprio k' t\<rparr>" using o unfolding only_raised_def by blast
    then have "mtxlist (thd k' t) = mtxlist ((thd k t)\<lparr>prio := tprio k' t\<rparr>)" by (rule arg_cong)
    then show ?thesis by simp
  qed
  have c: "mtx_owner k' = mtx_owner k" "current k' = current k" using o by (simp_all add: only_raised_def)
  show ?thesis using s so unfolding mtx_struct_def mtx_sorted_def by (simp add: set nil ml c)
qed

text \<open>Locking a mutex that another thread owns.\<close>

lemma lock_contended:
  assumes m: "mtxk kd idle X k" and kd: "kd mp = KMtx" and idle: "current k \<noteq> idle"
    and own: "mtx_owner k mp \<noteq> NULL" 
  defines "k' \<equiv> snd (chMtxLockS mp k)"
  shows "mtxk kd idle X k' \<and> highest k' \<and> current k \<in> set (qs k' (QOBJ mp)) \<and>
    tprio k (current k) \<le> tprio k' (mtx_owner k mp) \<and> mtx_owner k' = mtx_owner k"
proof -
  let ?c = "current k" and ?o = "mtx_owner k mp"
  define k1 where "k1 = chMtxLockS_boost ?c ?o k"
  let ?p = "tprio k ?c"
  have i: "kinv kd idle {} k" and st: "mtx_struct kd k" using m by (simp_all add: mtxk_def)
  note l = boost_loop [OF i mtxk_sorted [OF st] boosting_start [OF m, of ?o ?p], folded k1_def]
  have only: "only_raised k k1" using l by simp
  have c1: "current k1 = ?c" and o1: "mtx_owner k1 = mtx_owner k" and p1: "tprio k1 ?c = ?p"
    using only l by (simp_all add: only_raised_def)
  have s1: "mtx_struct kd k1" using struct_only_raised [OF st only] l by simp
  have k': "k' = chSchGoSleepS CH_STATE_WTMTX (queue_prio_insert ?c (QOBJ mp) (set_u ?c mp k1))"
    using own by (simp add: k'_def chMtxLockS_def Let_def k1_def set_u_prio_insert)
  have kin: "kinv kd idle {} k' \<and> highest k'"
    unfolding k' using kinv_block [of kd idle k1 CH_STATE_WTMTX mp mp queue_prio_insert] l kd idle c1 by simp
  have q: "qs k' (QOBJ m) = (if m = mp then ins_where (\<lambda>x. ?p \<le> tprio k1 x) ?c (qs k1 (QOBJ mp)) else qs k1 (QOBJ m))" for m
    using p1 by (simp add: k' q_prio_insert_def del: queue_fields)
  have pr: "tprio k' t = tprio k1 t" "realprio (thd k' t) = realprio (thd k1 t)" "mtxlist (thd k' t) = mtxlist (thd k1 t)" for t
    by (simp_all add: k')
  have ow: "mtx_owner k' = mtx_owner k" by (simp add: k' o1)
  have "mtx_struct kd k'"
  proof -
    have "by_prio (tprio k1) (qs k' (QOBJ m))" if "kd m = KMtx" for m
      using s1 that behind.by_prio_insert [of "tprio k1" "qs k1 (QOBJ mp)" ?c] p1 unfolding mtx_struct_def q by auto
    moreover have "NULL \<notin> set (qs k' qq)" for qq
    proof -
      have "set (qs k' qq) \<subseteq> insert ?c (set (qs k1 qq))"
        by (auto simp: k' q_prio_insert_def dest: in_set_tl)
      then show ?thesis using s1 c1 unfolding mtx_struct_def by (metis insert_iff subsetD)
    qed
    moreover have "current k' \<noteq> NULL"
    proof -
      have "qs k1 RLIST \<noteq> []" using ready_nonempty [of kd idle "{}" k1] l idle c1 by simp
      then have "hd (qs k1 RLIST) \<in> set (qs k1 RLIST)" by simp
      then have "hd (qs k1 RLIST) \<noteq> NULL" using s1 unfolding mtx_struct_def by metis
      moreover have "current k' = hd (qs k1 RLIST)"
        using \<open>qs k1 RLIST \<noteq> []\<close> by (cases "qs k1 RLIST") (simp_all add: k' chSchGoSleepS_def take_first_fields q_prio_insert_def)
      ultimately show ?thesis by simp
    qed
    ultimately show ?thesis
      using s1 unfolding mtx_struct_def using q own ow o1 by (simp add: pr)
  qed
  moreover have "pi_ok kd X k'"
    using l p1 unfolding boosted_def pi_ok_def by (simp add: q pr ow o1)
  moreover have "justified kd k' t" for t
  proof -
    from l have "justified kd k1 t \<or> t = ?o \<and> tprio k1 t = ?p \<and> realprio (thd k1 t) < ?p"
      unfolding boosted_def by blast
    then show ?thesis
    proof
      assume "justified kd k1 t"
      then show ?thesis unfolding justified_def pr ow o1 q by force
    next
      assume a: "t = ?o \<and> tprio k1 t = ?p \<and> realprio (thd k1 t) < ?p"
      then have "kd mp = KMtx \<and> mtx_owner k' mp = t \<and> ?c \<in> set (qs k' (QOBJ mp)) \<and> tprio k' ?c = tprio k' t"
        using kd p1 a by (auto simp: q pr ow)
      moreover have "realprio (thd k1 t) < tprio k1 t" using a by metis
      ultimately show ?thesis unfolding justified_def pr by blast
    qed
  qed
  ultimately show ?thesis using kin l by (simp add: mtxk_def q pr ow)
qed

text \<open>Taking a free mutex.\<close>

lemma lock_free:
  assumes m: "mtxk kd idle X k" and kd: "kd mp = KMtx" and own: "mtx_owner k mp = NULL"
  defines "k' \<equiv> set_mtxlist (current k) (mp # mtxlist (thd k (current k))) (set_owner mp (current k) k)"
  shows "mtxk kd idle X k'"
proof -
  let ?c = "current k"
  have i: "kinv kd idle {} k" and st: "mtx_struct kd k" and pi: "pi_ok kd X k" and j: "\<And>t. justified kd k t"
    using m by (simp_all add: mtxk_def)
  have e: "qs k (QOBJ mp) = []" and c: "?c \<noteq> NULL" using st kd own by (auto simp: mtx_struct_def)
  have pr: "tprio k' t = tprio k t" "realprio (thd k' t) = realprio (thd k t)" "qs k' = qs k" "current k' = ?c"
    "mtx_owner k' = (mtx_owner k)(mp := ?c)" "mtxlist (thd k' t) = (if t = ?c then mp # mtxlist (thd k ?c) else mtxlist (thd k t))"
    for t by (simp_all add: k'_def)
  have "kinv kd idle {} k'" by (rule kinv_upd [OF i]) (simp_all add: k'_def)
  moreover have "mtx_struct kd k'"
    using st kd own c unfolding mtx_struct_def pr by auto
  moreover have "pi_ok kd X k'" using pi e unfolding pi_ok_def pr by auto
  moreover have "justified kd k' t" for t
  proof -
    have "justified kd k t" by (rule j)
    then show ?thesis unfolding justified_def pr using e by fastforce
  qed
  ultimately show ?thesis by (simp add: mtxk_def)
qed

section \<open>Unlocking\<close>

lemma mtx_newprio_bounds:
  "mtx_sorted kd k \<Longrightarrow> \<forall>m \<in> set ms. kd m = KMtx \<Longrightarrow>
    p \<le> mtx_newprio p ms k \<and>
    (\<forall>m \<in> set ms. \<forall>w \<in> set (qs k (QOBJ m)). tprio k w \<le> mtx_newprio p ms k) \<and>
    (mtx_newprio p ms k = p \<or> p < mtx_newprio p ms k \<and>
      (\<exists>m \<in> set ms. \<exists>w \<in> set (qs k (QOBJ m)). tprio k w = mtx_newprio p ms k))"
proof (induction p ms k rule: mtx_newprio.induct)
  case (1 p k)
  then show ?case by simp
next
  case (2 p lmp ms k)
  show ?case
  proof (cases "qs k (QOBJ lmp)")
    case Nil
    then show ?thesis using 2 by (simp add: chMtxQueueNotEmptyS_def queue_notempty_def)
  next
    case (Cons t r)
    have "by_prio (tprio k) (qs k (QOBJ lmp))" using 2(3,4) unfolding mtx_sorted_def by simp
    then have so: "by_prio (tprio k) (t # r)" using Cons by simp
    show ?thesis
    proof (cases "tprio k t > p")
      case True
      then have eq: "mtx_newprio p (lmp # ms) k = mtx_newprio (tprio k t) ms k"
        using Cons by (simp add: chMtxQueueNotEmptyS_def queue_notempty_def)
      have "tprio k t \<le> mtx_newprio (tprio k t) ms k \<and>
        (\<forall>m \<in> set ms. \<forall>w \<in> set (qs k (QOBJ m)). tprio k w \<le> mtx_newprio (tprio k t) ms k) \<and>
        (mtx_newprio (tprio k t) ms k = tprio k t \<or> tprio k t < mtx_newprio (tprio k t) ms k \<and>
          (\<exists>m \<in> set ms. \<exists>w \<in> set (qs k (QOBJ m)). tprio k w = mtx_newprio (tprio k t) ms k))"
        using 2(1) 2(3,4) Cons True by (simp add: chMtxQueueNotEmptyS_def queue_notempty_def)
      then show ?thesis unfolding eq using so Cons True by (auto intro: order_trans)
    next
      case False
      then have eq: "mtx_newprio p (lmp # ms) k = mtx_newprio p ms k"
        using Cons by (simp add: chMtxQueueNotEmptyS_def queue_notempty_def)
      have "p \<le> mtx_newprio p ms k \<and>
        (\<forall>m \<in> set ms. \<forall>w \<in> set (qs k (QOBJ m)). tprio k w \<le> mtx_newprio p ms k) \<and>
        (mtx_newprio p ms k = p \<or> p < mtx_newprio p ms k \<and>
          (\<exists>m \<in> set ms. \<exists>w \<in> set (qs k (QOBJ m)). tprio k w = mtx_newprio p ms k))"
        using 2(2) 2(3,4) Cons False by (simp add: chMtxQueueNotEmptyS_def queue_notempty_def)
      moreover have "tprio k w \<le> p" if "w \<in> set (t # r)" for w
        using so that False by (auto intro: order_trans)
      ultimately show ?thesis unfolding eq using Cons by (auto intro: order_trans)
    qed
  qed
qed

text \<open>The invariant while the thread \<open>c\<close> is releasing mutexes: its priority may be too high.\<close>

definition mtxj :: "(ptr \<Rightarrow> okind) \<Rightarrow> ptr \<Rightarrow> ptr set \<Rightarrow> ptr \<Rightarrow> kernel \<Rightarrow> bool" where
  "mtxj kd idle X c k \<longleftrightarrow> kinv kd idle {} k \<and> mtx_struct kd k \<and> pi_ok kd X k \<and>
    (\<forall>t. t \<noteq> c \<longrightarrow> justified kd k t)"

lemma mtxj_mtxk: "mtxj kd idle X c k \<Longrightarrow> justified kd k c \<Longrightarrow> mtxk kd idle X k"
  unfolding mtxj_def mtxk_def by metis

lemma mtxk_mtxj: "mtxk kd idle X k \<Longrightarrow> mtxj kd idle X c k"
  by (simp add: mtxj_def mtxk_def)

lemma pass_inv:
  assumes m: "mtxj kd idle X c k" and c: "c = current k" and ml: "mtxlist (thd k c) = mp # ms"
    and q: "qs k (QOBJ mp) = t # r" and n: "0 < n"
    and bd: "c \<notin> X \<Longrightarrow> \<forall>m \<in> set ms. \<forall>w \<in> set (qs k (QOBJ m)). tprio k w \<le> n"
  defines "k' \<equiv> mtx_pass mp (set_prio c n (set_mtxlist c ms k))"
  shows "mtxj kd idle X c k' \<and> current k' = c \<and> tprio k' c = n \<and> mtxlist (thd k' c) = ms \<and>
    realprio (thd k' c) = realprio (thd k c) \<and> mtx_owner k' = (mtx_owner k)(mp := t) \<and>
    (\<forall>p. p \<noteq> mp \<longrightarrow> qs k' (QOBJ p) = qs k (QOBJ p)) \<and> (\<forall>x. x \<noteq> c \<longrightarrow> tprio k' x = tprio k x) \<and> t \<noteq> c"
proof -
  let ?k1 = "set_prio c n (set_mtxlist c ms k)"
  have i: "kinv kd idle {} k" and st: "mtx_struct kd k" and pi: "pi_ok kd X k"
    and j: "\<And>t. t \<noteq> c \<Longrightarrow> justified kd k t" using m by (simp_all add: mtxj_def)
  have cq: "c \<notin> set (qs k x)" for x using current_not_queued [OF i] c by simp
  have tc: "t \<noteq> c" using cq [of "QOBJ mp"] q by auto
  have i0: "kinv kd idle {} (set_mtxlist c ms k)" by (rule kinv_upd [OF i]) simp_all
  have i1: "kinv kd idle {} ?k1" by (rule kinv_set_prio [OF i0 _ n]) (simp add: cq)
  have q1: "qs ?k1 (QOBJ mp) = t # r" using q by simp
  let ?k2 = "set_mtxlist t (mp # mtxlist (thd k t)) (set_owner mp t (queue_dequeue t ?k1))"
  have k': "k' = chSchReadyI t ?k2"
    using mtx_pass_eq [OF q1] fifo_is_dequeue [of "qs k" "QOBJ mp" t r] kinv_queues [OF i] q tc
    by (simp add: k'_def queue_dequeue_def)
  have d: "kinv kd idle {t} (queue_dequeue t ?k1)" using kinv_dequeue_take [OF i1, of t] by simp
  have "kinv kd idle {t} ?k2" by (rule kinv_upd [OF d]) simp_all
  moreover have "\<not> in_queue ?k2 t"
    using not_in_queue_dequeue [of k t] kinv_queues [OF i] by (simp add: in_queue_def)
  ultimately have kin: "kinv kd idle {} k'"
    unfolding k' using kinv_chSchReadyI [of kd idle t "{t}" ?k2] tc c by simp
  have Q: "qs k' (QOBJ p) = (if p = mp then r else qs k (QOBJ p))" for p
    using q q_dequeue_other [OF kinv_queues [OF i], of t "QOBJ mp" "QOBJ p"]
    by (simp add: k' q_prio_insert_def q_dequeue_def)
  have ow: "mtx_owner k' = (mtx_owner k)(mp := t)" by (simp add: k' set_prio_def)
  have cur: "current k' = c" using c by (simp add: k')
  have data: "tprio k' x = (if x = c then n else tprio k x)" "realprio (thd k' x) = realprio (thd k x)"
    "mtxlist (thd k' x) = (if x = c then ms else if x = t then mp # mtxlist (thd k t) else mtxlist (thd k x))" for x
    using tc by (simp_all add: k')
  have own: "mtx_owner k mp = c" "kd mp = KMtx" "c \<noteq> NULL" "mp \<notin> set ms" "distinct ms"
    using st ml unfolding mtx_struct_def by (metis list.set_intros(1), metis list.set_intros(1),
      metis list.set_intros(1), metis distinct.simps(2), metis distinct.simps(2))
  have so: "by_prio (tprio k) (t # r)" using st own(2) q unfolding mtx_struct_def by metis
  have struct: "mtx_struct kd k'"
  proof -
    have "by_prio (tprio k') (qs k' (QOBJ p))" if "kd p = KMtx" for p
    proof -
      have "c \<notin> set (qs k' (QOBJ p))" using cq [of "QOBJ p"] cq [of "QOBJ mp"] q by (auto simp: Q)
      then have "by_prio (tprio k') (qs k' (QOBJ p)) = by_prio (tprio k) (qs k' (QOBJ p))"
        by (intro by_prio_cong) (auto simp: data)
      then show ?thesis using st that so unfolding mtx_struct_def Q by auto
    qed
    moreover have tn: "t \<noteq> NULL" using st q unfolding mtx_struct_def by (metis list.set_intros(1))
    moreover have "NULL \<notin> set (qs k' x)" for x
    proof -
      have "set (qs k' x) \<subseteq> insert t (set (qs k x))"
        using q_dequeue_mem [OF kinv_queues [OF i]] by (auto simp: k' q_prio_insert_def)
      then show ?thesis using st tn unfolding mtx_struct_def by (metis insert_iff subsetD)
    qed
    moreover have "p \<in> set (mtxlist (thd k' x)) \<longleftrightarrow> kd p = KMtx \<and> mtx_owner k' p = x \<and> x \<noteq> NULL" for p x
    proof -
      have "p \<in> set (mtxlist (thd k x)) \<longleftrightarrow> kd p = KMtx \<and> mtx_owner k p = x \<and> x \<noteq> NULL"
        using st unfolding mtx_struct_def by metis
      moreover have "p \<in> set (mp # ms) \<longleftrightarrow> kd p = KMtx \<and> mtx_owner k p = c \<and> c \<noteq> NULL"
        using st ml unfolding mtx_struct_def by metis
      ultimately show ?thesis unfolding data ow using own tc tn by (auto simp: ml)
    qed
    moreover have "distinct (mtxlist (thd k' x))" for x
    proof -
      have "mp \<notin> set (mtxlist (thd k t))" using st own(1) tc unfolding mtx_struct_def by metis
      then show ?thesis using st own(5) unfolding mtx_struct_def data by simp
    qed
    moreover have "mtx_owner k' p = NULL \<longrightarrow> qs k' (QOBJ p) = []" if "kd p = KMtx" for p
      using st that tn unfolding mtx_struct_def ow Q by simp
    ultimately show ?thesis using own(3) cur unfolding mtx_struct_def by blast
  qed
  have "pi_ok kd X k'"
    unfolding pi_ok_def
  proof (intro allI impI)
    fix p w assume p: "kd p = KMtx" and w: "w \<in> set (qs k' (QOBJ p))" and nX: "mtx_owner k' p \<notin> X"
    have wc: "w \<noteq> c" using w cq [of "QOBJ p"] cq [of "QOBJ mp"] q by (auto simp: Q split: if_splits)
    show "tprio k' w \<le> tprio k' (mtx_owner k' p)"
    proof (cases "p = mp")
      case True
      then show ?thesis using w wc so tc by (auto simp: Q ow data)
    next
      case False
      then have wq: "w \<in> set (qs k (QOBJ p))" using w by (simp add: Q)
      show ?thesis
      proof (cases "mtx_owner k p = c")
        case True
        then have "p \<in> set (mtxlist (thd k c))" using st p own(3) unfolding mtx_struct_def by metis
        then have "p \<in> set ms" using ml False by simp
        moreover have "c \<notin> X" using nX True False by (simp add: ow)
        ultimately show ?thesis using bd wq True False wc by (simp add: ow data)
      next
        case oc: False
        then show ?thesis using pi p wq False wc nX unfolding pi_ok_def by (simp add: ow data)
      qed
    qed
  qed
  moreover have "justified kd k' x" if x: "x \<noteq> c" for x
  proof -
    have nc: "w \<noteq> c" if "w \<in> set (qs k y)" for w y using cq that by auto
    from j [OF x] show ?thesis
      unfolding justified_def data using x
    proof (elim disjE conjE exE)
      fix p w
      assume a: "kd p = KMtx" "mtx_owner k p = x" "w \<in> set (qs k (QOBJ p))" "tprio k w = tprio k x"
        "realprio (thd k x) < tprio k x"
      then have "p \<noteq> mp" using own(1) x by auto
      then have "mtx_owner k' p = x \<and> w \<in> set (qs k' (QOBJ p)) \<and> w \<noteq> c" using a nc by (simp add: ow Q)
      then show "(if x = c then n else tprio k x) = realprio (thd k x) \<or>
        realprio (thd k x) < (if x = c then n else tprio k x) \<and>
        (\<exists>m w. kd m = KMtx \<and> mtx_owner k' m = x \<and> w \<in> set (qs k' (QOBJ m)) \<and>
          (if w = c then n else tprio k w) = (if x = c then n else tprio k x))"
        using a x by auto
    qed simp
  qed
  ultimately show ?thesis using kin struct cur tc by (simp add: mtxj_def data ow Q)
qed

lemma free_inv:
  assumes m: "mtxj kd idle X c k" and c: "c = current k" and ml: "mtxlist (thd k c) = mp # ms"
    and q: "qs k (QOBJ mp) = []"
  defines "k' \<equiv> set_owner mp NULL (set_mtxlist c ms k)"
  shows "mtxj kd idle X c k' \<and> (justified kd k c \<longrightarrow> justified kd k' c)"
proof -
  have i: "kinv kd idle {} k" and st: "mtx_struct kd k" and pi: "pi_ok kd X k"
    and j: "\<And>t. t \<noteq> c \<Longrightarrow> justified kd k t" using m by (simp_all add: mtxj_def)
  have own: "mtx_owner k mp = c" "c \<noteq> NULL" "mp \<notin> set ms"
    using st ml unfolding mtx_struct_def by (metis list.set_intros(1),
      metis list.set_intros(1), metis distinct.simps(2))
  have pr: "tprio k' t = tprio k t" "realprio (thd k' t) = realprio (thd k t)" "qs k' = qs k" "current k' = current k"
    "mtx_owner k' = (mtx_owner k)(mp := NULL)" "mtxlist (thd k' t) = (if t = c then ms else mtxlist (thd k t))"
    for t by (simp_all add: k'_def)
  have "kinv kd idle {} k'" by (rule kinv_upd [OF i]) (simp_all add: k'_def)
  moreover have "mtx_struct kd k'"
  proof -
    have "p \<in> set (mtxlist (thd k' x)) \<longleftrightarrow> kd p = KMtx \<and> mtx_owner k' p = x \<and> x \<noteq> NULL" for p x
    proof -
      have "p \<in> set (mtxlist (thd k x)) \<longleftrightarrow> kd p = KMtx \<and> mtx_owner k p = x \<and> x \<noteq> NULL"
        using st unfolding mtx_struct_def by metis
      moreover have "p \<in> set (mp # ms) \<longleftrightarrow> kd p = KMtx \<and> mtx_owner k p = c \<and> c \<noteq> NULL"
        using st ml unfolding mtx_struct_def by metis
      ultimately show ?thesis unfolding pr using own by auto
    qed
    moreover have "distinct (mtxlist (thd k' x))" for x
      using st ml unfolding mtx_struct_def pr by (metis distinct.simps(2))
    ultimately show ?thesis using st q unfolding mtx_struct_def pr(1,3,4,5) by simp
  qed
  moreover have "pi_ok kd X k'" using pi q unfolding pi_ok_def pr by auto
  moreover have "justified kd k' t" if "justified kd k t" for t
    using that q unfolding justified_def pr by (auto split: if_splits) (metis empty_iff list.set(1))+
  ultimately show ?thesis using j by (simp add: mtxj_def)
qed

lemma mtxj_reschedule:
  assumes "mtxk kd idle X k"
  shows "mtxk kd idle X (chSchRescheduleS k) \<and> highest (chSchRescheduleS k)"
proof -
  have i: "kinv kd idle {} k" and st: "mtx_struct kd k" and pi: "pi_ok kd X k" and j: "\<And>t. justified kd k t"
    using assms by (simp_all add: mtxk_def)
  let ?k = "chSchRescheduleS k"
  have cur: "current ?k \<in> insert (current k) (set (qs k RLIST))"
    and mem: "set (qs ?k x) \<subseteq> insert (current k) (set (qs k x))" for x
  proof -
    have "current ?k \<in> insert (current k) (set (qs k RLIST)) \<and> set (qs ?k x) \<subseteq> insert (current k) (set (qs k x))"
    proof (cases "chSchIsRescRequiredI k")
      case False
      then show ?thesis by (auto simp: chSchRescheduleS_def)
    next
      case True
      then obtain t r where "qs k RLIST = t # r"
        by (cases "qs k RLIST") (auto simp: chSchIsRescRequiredI_def firstprio_def NOPRIO_def)
      then show ?thesis using True
        by (auto simp: chSchRescheduleS_def chSchDoRescheduleAhead_def Let_def take_first_fields q_prio_insert_ahead_def)
    qed
    then show "current ?k \<in> insert (current k) (set (qs k RLIST))" "set (qs ?k x) \<subseteq> insert (current k) (set (qs k x))"
      by blast+
  qed
  have nn: "current k \<noteq> NULL" "NULL \<notin> set (qs k x)" for x using st unfolding mtx_struct_def by blast+
  have "current ?k \<noteq> NULL" using cur nn by auto
  moreover have "NULL \<notin> set (qs ?k x)" for x using mem [of x] nn by auto
  ultimately have "mtx_struct kd ?k" using st unfolding mtx_struct_def by simp
  moreover have "pi_ok kd X ?k" using pi by (simp add: pi_ok_def)
  moreover have "justified kd ?k t" for t using j [of t] by (simp add: justified_def)
  ultimately show ?thesis using kinv_chSchRescheduleS [OF i] by (simp add: mtxk_def)
qed

lemma unlock_inv:
  assumes m: "mtxk kd idle X k" and ml: "mtxlist (thd k (current k)) = mp # ms"
  shows "mtxk kd idle X (chMtxUnlockS mp k) \<and> current (chMtxUnlockS mp k) = current k \<and>
    mtxlist (thd (chMtxUnlockS mp k) (current k)) = ms \<and>
    mtx_owner (chMtxUnlockS mp k) = (mtx_owner k)(mp := (case qs k (QOBJ mp) of [] \<Rightarrow> NULL | t # _ \<Rightarrow> t)) \<and>
    chMtxUnlock mp k = (if qs k (QOBJ mp) = [] then chMtxUnlockS mp k else chSchRescheduleS (chMtxUnlockS mp k))"
proof -
  let ?c = "current k" and ?k1 = "set_mtxlist (current k) ms k"
  have nx: "mtx_next mp (mtxlist (thd k ?c)) = ms" using ml by (simp add: mtx_next_def)
  show ?thesis
  proof (cases "qs k (QOBJ mp)")
    case Nil
    have "chMtxUnlockS mp k = set_owner mp NULL ?k1" "chMtxUnlock mp k = set_owner mp NULL ?k1"
      using Nil nx by (simp_all add: chMtxUnlockS_def chMtxUnlock_def Let_def chMtxQueueNotEmptyS_def queue_notempty_def)
    then show ?thesis
      using free_inv [OF mtxk_mtxj [OF m] refl ml Nil] Nil mtxj_mtxk m by (auto simp: mtxk_def)
  next
    case (Cons t r)
    have st: "mtx_struct kd k" using m by (simp add: mtxk_def)
    let ?n = "mtx_newprio (realprio (thd k ?c)) ms ?k1"
    have ms: "\<forall>m \<in> set ms. kd m = KMtx" using st ml unfolding mtx_struct_def by (metis list.set_intros(2))
    have "tprio ?k1 x = tprio k x" "qs ?k1 = qs k" for x by simp_all
    then have "mtx_sorted kd ?k1" using mtxk_sorted [OF st] by (simp only: mtx_sorted_def)
    note nb = mtx_newprio_bounds [OF this ms, of "realprio (thd k ?c)"]
    have "0 < realprio (thd k ?c)" using m by (simp add: mtxk_def kinv_def)
    then have n0: "0 < ?n" using nb by (auto intro: less_le_trans)
    have bd: "\<forall>m \<in> set ms. \<forall>w \<in> set (qs k (QOBJ m)). tprio k w \<le> ?n"
    proof (intro ballI)
      fix m w assume "m \<in> set ms" "w \<in> set (qs k (QOBJ m))"
      then have "tprio ?k1 w \<le> ?n" using nb by simp
      then show "tprio k w \<le> ?n" by (simp split: if_splits)
    qed
    have eq: "chMtxUnlockS mp k = mtx_pass mp (set_prio ?c ?n ?k1)"
      "chMtxUnlock mp k = chSchRescheduleS (mtx_pass mp (set_prio ?c ?n ?k1))"
      using Cons nx by (simp_all add: chMtxUnlockS_def chMtxUnlock_def Let_def chMtxQueueNotEmptyS_def queue_notempty_def)
    note p = pass_inv [OF mtxk_mtxj [OF m] refl ml Cons n0 bd, folded eq]
    have "justified kd (chMtxUnlockS mp k) ?c"
    proof -
      from nb consider "?n = realprio (thd k ?c)"
        | m w where "realprio (thd k ?c) < ?n" "m \<in> set ms" "w \<in> set (qs k (QOBJ m))" "tprio ?k1 w = ?n" by auto
      then show ?thesis
      proof cases
        case 1
        then show ?thesis using p by (simp add: justified_def)
      next
        case 2
        have "kinv kd idle {} k" using m by (simp add: mtxk_def)
        then have wc: "w \<noteq> ?c" using current_not_queued [of kd idle "{}" k "QOBJ m"] 2 by auto
        have "distinct (mp # ms)" "kd m = KMtx \<and> mtx_owner k m = ?c"
          using st ml 2(2) unfolding mtx_struct_def by (metis, metis list.set_intros(2))
        then have mm: "m \<noteq> mp" "kd m = KMtx" "mtx_owner k m = ?c" using 2(2) by auto
        have tw: "tprio (chMtxUnlockS mp k) w = ?n" using p wc 2(4) by simp
        have ow: "mtx_owner (chMtxUnlockS mp k) m = ?c" using p mm by simp
        have qq: "w \<in> set (qs (chMtxUnlockS mp k) (QOBJ m))" using p mm 2(3) by simp
        have "tprio (chMtxUnlockS mp k) ?c = ?n" "realprio (thd (chMtxUnlockS mp k) ?c) = realprio (thd k ?c)"
          using p by simp_all
        then show ?thesis unfolding justified_def using 2(1) mm(2) tw ow qq by metis
      qed
    qed
    then have "mtxk kd idle X (chMtxUnlockS mp k)" using p mtxj_mtxk by blast
    then show ?thesis using p Cons eq by simp
  qed
qed

lemma mtx_struct_cong:
  assumes "mtx_struct kd k" and "qs k' = qs k" and "current k' = current k" and "mtx_owner k' = mtx_owner k"
    and "\<And>t. mtxlist (thd k' t) = mtxlist (thd k t)" and "mtx_sorted kd k'"
  shows "mtx_struct kd k'"
  using assms unfolding mtx_struct_def mtx_sorted_def by simp

text \<open>Releasing everything.\<close>

lemma release_inv:
  assumes m: "mtxj kd idle X c k" and c: "c = current k" and ml: "mtxlist (thd k c) = mp # ms"
  defines "k' \<equiv> mtx_release mp (set_mtxlist c ms k)"
  shows "mtxj kd idle X c k' \<and> current k' = c \<and> mtxlist (thd k' c) = ms \<and>
    realprio (thd k' c) = realprio (thd k c) \<and>
    mtx_owner k' = (mtx_owner k)(mp := (case qs k (QOBJ mp) of [] \<Rightarrow> NULL | t # _ \<Rightarrow> t))"
proof (cases "qs k (QOBJ mp)")
  case Nil
  then have "k' = set_owner mp NULL (set_mtxlist c ms k)"
    by (simp add: k'_def mtx_release_def chMtxQueueNotEmptyS_def queue_notempty_def)
  then show ?thesis using free_inv [OF m c ml Nil] Nil c by simp
next
  case (Cons t r)
  have st: "mtx_struct kd k" and pi: "pi_ok kd X k" using m by (simp_all add: mtxj_def)
  have n0: "0 < tprio k c" using m by (simp add: mtxj_def kinv_def)
  have bd: "\<forall>p \<in> set ms. \<forall>w \<in> set (qs k (QOBJ p)). tprio k w \<le> tprio k c" if nX: "c \<notin> X"
  proof (intro ballI)
    fix p w assume p: "p \<in> set ms" and w: "w \<in> set (qs k (QOBJ p))"
    have "kd p = KMtx \<and> mtx_owner k p = c" using st ml p unfolding mtx_struct_def by (metis list.set_intros(2))
    then show "tprio k w \<le> tprio k c" using pi w nX unfolding pi_ok_def by metis
  qed
  have "set_prio c (tprio k c) (set_mtxlist c ms k) = set_mtxlist c ms k"
    by (simp add: set_prio_def set_mtxlist_def upd_thd_def)
  then have "k' = mtx_pass mp (set_prio c (tprio k c) (set_mtxlist c ms k))"
    using Cons by (simp add: k'_def mtx_release_def chMtxQueueNotEmptyS_def queue_notempty_def)
  then show ?thesis using pass_inv [OF m c ml Cons n0 bd] Cons by simp
qed

lemma release_all_inv:
  "mtxj kd idle X c k \<Longrightarrow> c = current k \<Longrightarrow>
    mtxj kd idle X c (chMtxUnlockAll_loop c k) \<and> current (chMtxUnlockAll_loop c k) = c \<and>
    mtxlist (thd (chMtxUnlockAll_loop c k) c) = [] \<and>
    realprio (thd (chMtxUnlockAll_loop c k) c) = realprio (thd k c)"
proof (induction "length (mtxlist (thd k c))" arbitrary: k)
  case 0
  have "chMtxUnlockAll_loop c k = k"
    using 0(1) by (subst chMtxUnlockAll_loop.simps) simp
  then show ?case using 0 by simp
next
  case (Suc n)
  then obtain mp ms where ml: "mtxlist (thd k c) = mp # ms" by (cases "mtxlist (thd k c)") auto
  let ?k = "mtx_release mp (set_mtxlist c ms k)"
  note r = release_inv [OF Suc.prems ml]
  have "n = length (mtxlist (thd ?k c))" using r Suc(2) ml by simp
  from Suc(1) [OF this] r have IH:
    "mtxj kd idle X c (chMtxUnlockAll_loop c ?k) \<and> current (chMtxUnlockAll_loop c ?k) = c \<and>
     mtxlist (thd (chMtxUnlockAll_loop c ?k) c) = [] \<and>
     realprio (thd (chMtxUnlockAll_loop c ?k) c) = realprio (thd ?k c)" by simp
  have "chMtxUnlockAll_loop c k = chMtxUnlockAll_loop c ?k"
    using ml by (simp add: chMtxUnlockAll_loop.simps [of c k])
  then show ?case using IH r by simp
qed

lemma unlock_all_inv:
  assumes m: "mtxk kd idle X k"
  shows "mtxk kd idle X (chMtxUnlockAllS k) \<and> current (chMtxUnlockAllS k) = current k \<and>
    mtxlist (thd (chMtxUnlockAllS k) (current k)) = [] \<and>
    tprio (chMtxUnlockAllS k) (current k) = realprio (thd k (current k))"
proof -
  let ?c = "current k" and ?k = "chMtxUnlockAll_loop (current k) k"
  let ?r = "realprio (thd ?k ?c)"
  note l = release_all_inv [OF mtxk_mtxj [OF m] refl]
  have i: "kinv kd idle {} ?k" and st: "mtx_struct kd ?k" and pi: "pi_ok kd X ?k"
    and j: "\<And>t. t \<noteq> ?c \<Longrightarrow> justified kd ?k t" using l by (simp_all add: mtxj_def)
  have eq: "chMtxUnlockAllS k = set_prio ?c ?r ?k" by (simp add: chMtxUnlockAllS_def Let_def)
  have cq: "?c \<notin> set (qs ?k x)" for x using current_not_queued [OF i] l by simp
  have kin: "kinv kd idle {} (set_prio ?c ?r ?k)"
    by (rule kinv_set_prio [OF i cq]) (use i in \<open>simp add: kinv_def\<close>)
  have no: "mtx_owner ?k p \<noteq> ?c" if "kd p = KMtx" for p
  proof -
    have "?c \<noteq> NULL" using st l unfolding mtx_struct_def by metis
    moreover have "p \<notin> set (mtxlist (thd ?k ?c))" using l by simp
    ultimately show ?thesis using st that unfolding mtx_struct_def by metis
  qed
  have wc: "w \<noteq> ?c" if "w \<in> set (qs ?k x)" for w x using cq that by auto
  have "mtx_struct kd (set_prio ?c ?r ?k)"
  proof -
    have "by_prio (tprio (set_prio ?c ?r ?k)) (qs ?k x) = by_prio (tprio ?k) (qs ?k x)" for x
      by (rule by_prio_cong) (use wc in simp)
    then have "mtx_sorted kd (set_prio ?c ?r ?k)"
      using mtxk_sorted [OF st] unfolding mtx_sorted_def by (metis set_thd_simps(6))
    then show ?thesis by (intro mtx_struct_cong [OF st]) simp_all
  qed
  moreover have "pi_ok kd X (set_prio ?c ?r ?k)"
    using pi no wc unfolding pi_ok_def by auto
  moreover have "justified kd (set_prio ?c ?r ?k) t" for t
    using j [of t] wc unfolding justified_def by (cases "t = ?c") auto
  ultimately show ?thesis using kin l by (simp add: eq mtxk_def)
qed

section \<open>Claims\<close>

text \<open>
  C15: Locking a mutex.  A free mutex is taken and the call returns.  Otherwise the caller waits
  in its queue, and along the whole chain of owners, each waiting for the next, priorities are
  raised: afterwards the owner has at least the caller's priority, no owner of any mutex has a
  lower priority than a waiter, and every priority above a thread's own is that of a waiter.
  chMtxTryLockS takes a free mutex and otherwise changes nothing.
\<close>

theorem mutex_lock_correct:
  assumes "mtxk kd idle X k" and "kd mp = KMtx" and "current k \<noteq> idle"
  shows "mtxk kd idle X (snd (chMtxLockS mp k)) \<and>
    (if mtx_owner k mp = NULL
     then fst (chMtxLockS mp k) = Ret () \<and> mtx_owner (snd (chMtxLockS mp k)) = (mtx_owner k)(mp := current k) \<and>
       chMtxTryLockS mp k = (True, snd (chMtxLockS mp k))
     else fst (chMtxLockS mp k) = Switched \<and> mtx_owner (snd (chMtxLockS mp k)) = mtx_owner k \<and>
       current k \<in> set (qs (snd (chMtxLockS mp k)) (QOBJ mp)) \<and>
       tprio k (current k) \<le> tprio (snd (chMtxLockS mp k)) (mtx_owner k mp) \<and>
       highest (snd (chMtxLockS mp k)) \<and>
       chMtxTryLockS mp k = (False, k))"
proof (cases "mtx_owner k mp = NULL")
  case True
  have eq: "chMtxLockS mp k = (Ret (), set_mtxlist (current k) (mp # mtxlist (thd k (current k))) (set_owner mp (current k) k))"
    using True by (simp add: chMtxLockS_def Let_def)
  then show ?thesis using lock_free [OF assms(1,2) True] True
    by (simp add: chMtxTryLockS_def Let_def)
next
  case False
  have "fst (chMtxLockS mp k) = Switched" using False by (simp add: chMtxLockS_def Let_def)
  then show ?thesis using lock_contended [OF assms False] False by (simp add: chMtxTryLockS_def)
qed

definition mtx_kind :: "ptr \<Rightarrow> okind" where
  "mtx_kind p = (if p = 100 then KMtx else KQueue)"

text \<open>Boot with mutex 100 owned by the idle thread.\<close>

definition mtx_boot :: kernel where
  "mtx_boot = set_mtxlist 2 [100] (set_owner 100 2 boot)"

lemma mtxk_mtx_boot: "mtxk mtx_kind 2 {} mtx_boot"
proof -
  have "kinv mtx_kind 2 {} mtx_boot" by (rule kinv_upd [OF kinv_boot]) (simp_all add: mtx_boot_def)
  moreover have "mtx_struct mtx_kind mtx_boot"
    by (auto simp: mtx_struct_def mtx_boot_def boot_simps boot_thread_def mtx_kind_def)
  moreover have "pi_ok mtx_kind {} mtx_boot" by (simp add: pi_ok_def mtx_boot_def boot_simps)
  moreover have "justified mtx_kind mtx_boot t" for t
    by (simp add: justified_def mtx_boot_def boot_simps boot_thread_def)
  ultimately show ?thesis by (simp add: mtxk_def)
qed

lemma mtx_boot_simps:
  "mtx_owner mtx_boot 100 = 2" "current mtx_boot = 1" "tprio mtx_boot 1 = NORMALPRIO" "tprio mtx_boot 2 = IDLEPRIO"
  by (simp_all add: mtx_boot_def boot_simps boot_thread_def)

lemma mutex_lock_correct_witness:
  "1 \<in> set (qs (snd (chMtxLockS 100 mtx_boot)) (QOBJ 100)) \<and>
    NORMALPRIO \<le> tprio (snd (chMtxLockS 100 mtx_boot)) 2"
proof -
  have "mtx_kind 100 = KMtx" "current mtx_boot \<noteq> 2" by (simp_all add: mtx_kind_def mtx_boot_simps)
  from mutex_lock_correct [OF mtxk_mtx_boot this] show ?thesis by (simp add: mtx_boot_simps)
qed

text \<open>
  C16: Unlocking the mutex locked last.  It passes to its first waiter, which has the highest
  priority of its waiters, or becomes free; the caller's priority falls back to its own or to
  the highest still inherited through the mutexes it keeps, so that no inversion remains; and
  chMtxUnlock ends with the thread of highest priority running when it woke a waiter.
\<close>

theorem mutex_unlock_correct:
  assumes "mtxk kd idle X k" and "mtxlist (thd k (current k)) = mp # ms"
  shows "mtxk kd idle X (chMtxUnlockS mp k) \<and> mtxk kd idle X (chMtxUnlock mp k) \<and>
    mtx_owner (chMtxUnlockS mp k) = (mtx_owner k)(mp := (case qs k (QOBJ mp) of [] \<Rightarrow> NULL | t # _ \<Rightarrow> t)) \<and>
    mtx_owner (chMtxUnlock mp k) = mtx_owner (chMtxUnlockS mp k) \<and>
    mtxlist (thd (chMtxUnlockS mp k) (current k)) = ms \<and>
    (qs k (QOBJ mp) \<noteq> [] \<longrightarrow> highest (chMtxUnlock mp k)) \<and>
    (\<forall>w \<in> set (qs k (QOBJ mp)). tprio k w \<le> tprio k (hd (qs k (QOBJ mp))))"
proof -
  note ul = unlock_inv [OF assms]
  have "by_prio (tprio k) (qs k (QOBJ mp))"
    using assms unfolding mtxk_def mtx_struct_def by (metis list.set_intros(1))
  then have "\<forall>w \<in> set (qs k (QOBJ mp)). tprio k w \<le> tprio k (hd (qs k (QOBJ mp)))"
    by (cases "qs k (QOBJ mp)") auto
  then show ?thesis using ul mtxj_reschedule [of kd idle X "chMtxUnlockS mp k"] by auto
qed

text \<open>Boot with mutex 100 owned by the running thread.\<close>

definition own_boot :: kernel where
  "own_boot = snd (chMtxLockS 100 boot)"

lemma mtxk_boot: "mtxk mtx_kind 2 {} boot"
  using kinv_boot by (auto simp: mtxk_def mtx_struct_def pi_ok_def justified_def boot_simps boot_thread_def mtx_kind_def)

lemma mtxk_own_boot: "mtxk mtx_kind 2 {} own_boot \<and> mtxlist (thd own_boot (current own_boot)) = [100]"
proof -
  have e: "own_boot = set_mtxlist 1 [100] (set_owner 100 1 boot)"
    by (simp add: own_boot_def chMtxLockS_def boot_simps boot_thread_def Let_def)
  have "mtxlist (thd boot (current boot)) = []" by (simp add: boot_simps boot_thread_def)
  then have "mtxk mtx_kind 2 {} own_boot"
    using lock_free [OF mtxk_boot, of 100] unfolding e by (simp add: boot_simps mtx_kind_def)
  then show ?thesis by (simp add: e boot_simps)
qed

lemma mutex_unlock_correct_witness:
  "mtx_owner (chMtxUnlock 100 own_boot) 100 = NULL"
proof -
  have "qs own_boot (QOBJ 100) = []" by (simp add: own_boot_def chMtxLockS_def boot_simps Let_def)
  then show ?thesis
    using mutex_unlock_correct [of mtx_kind 2 "{}" own_boot 100 "[]"] mtxk_own_boot by simp
qed

text \<open>
  chMtxUnlockAll terminates, leaves the caller without mutexes and with its own priority,
  hands every mutex over or frees it without creating an inversion, and, when there was a mutex
  to release, runs the thread of highest priority.
\<close>

theorem mutex_unlock_all_correct:
  assumes "mtxk kd idle X k"
  shows "mtxk kd idle X (chMtxUnlockAllS k) \<and> mtxk kd idle X (chMtxUnlockAll k) \<and>
    mtxlist (thd (chMtxUnlockAllS k) (current k)) = [] \<and>
    mtxlist (thd (chMtxUnlockAll k) (current k)) = [] \<and>
    tprio (chMtxUnlockAllS k) (current k) = realprio (thd k (current k)) \<and>
    (mtxlist (thd k (current k)) \<noteq> [] \<longrightarrow> highest (chMtxUnlockAll k))"
proof -
  note ua = unlock_all_inv [OF assms]
  have "chMtxUnlockAll k = (if mtxlist (thd k (current k)) \<noteq> [] then chSchRescheduleS (chMtxUnlockAllS k) else k)"
    by (simp add: chMtxUnlockAll_def chMtxUnlockAllS_def Let_def)
  then show ?thesis using ua assms mtxj_reschedule [of kd idle X "chMtxUnlockAllS k"] by simp
qed

lemma mutex_unlock_all_correct_witness:
  "highest (chMtxUnlockAll own_boot) \<and> mtxk mtx_kind 2 {} (chMtxUnlockAll own_boot)"
  using mutex_unlock_all_correct [of mtx_kind 2 "{}" own_boot] mtxk_own_boot by simp

end
