(* ===== verification/Threads.thy ===== *)
theory Threads
  imports Mutexes
begin

text \<open>
  Threads (chthreads.c, chthreads.h), thread queues and the registry (chregistry.c).

  The working area of a thread ends with its \<open>thread_t\<close>: the size of that structure, rounded
  up to the stack alignment, is the parameter \<open>tsz\<close>.  The initial port context of a thread
  belongs to the port layer.
\<close>

section \<open>Registry links\<close>

definition REG_INSERT :: "ptr \<Rightarrow> kernel \<Rightarrow> kernel" where
  "REG_INSERT tp k = k\<lparr>registry := registry k @ [tp]\<rparr>"

definition REG_REMOVE :: "ptr \<Rightarrow> kernel \<Rightarrow> kernel" where
  "REG_REMOVE tp k = k\<lparr>registry := remove1 tp (registry k)\<rparr>"

section \<open>Creation\<close>

definition CH_FLAG_MODE_MASK :: u8 where "CH_FLAG_MODE_MASK = 3"
definition CH_FLAG_MODE_STATIC :: u8 where "CH_FLAG_MODE_STATIC = 0"
definition CH_FLAG_MODE_HEAP :: u8 where "CH_FLAG_MODE_HEAP = 1"
definition CH_FLAG_MODE_MPOOL :: u8 where "CH_FLAG_MODE_MPOOL = 2"
definition CH_FLAG_TERMINATE :: u8 where "CH_FLAG_TERMINATE = 4"

record thread_descriptor =
  td_name :: string
  td_wbase :: ptr
  td_wend :: ptr
  td_prio :: tprio

definition thread_init :: "ptr \<Rightarrow> string \<Rightarrow> tprio \<Rightarrow> kernel \<Rightarrow> kernel" where
  "thread_init tp nm p k =
    (let k = upd_thd tp (\<lambda>x. x\<lparr>prio := p, state := CH_STATE_WTSTART, flags := CH_FLAG_MODE_STATIC,
               realprio := p, mtxlist := [], epending := 0, refs := 1, tname := nm\<rparr>) k;
         k = REG_INSERT tp k;
         k = upd_thd tp (\<lambda>x. x\<lparr>waiting := []\<rparr>) k
     in queue_init (MSGQ tp) k)"

definition chThdCreateSuspendedI :: "u32 \<Rightarrow> thread_descriptor \<Rightarrow> kernel \<Rightarrow> ptr \<times> kernel" where
  "chThdCreateSuspendedI tsz td k =
    (let tp = td_wend td - tsz;
         k = upd_thd tp (\<lambda>x. x\<lparr>wabase := td_wbase td\<rparr>) k
     in (tp, thread_init tp (td_name td) (td_prio td) k))"

definition chThdCreateSuspended :: "u32 \<Rightarrow> thread_descriptor \<Rightarrow> kernel \<Rightarrow> ptr \<times> kernel" where
  "chThdCreateSuspended tsz td k = chThdCreateSuspendedI tsz td k"

definition chThdCreateI :: "u32 \<Rightarrow> thread_descriptor \<Rightarrow> kernel \<Rightarrow> ptr \<times> kernel" where
  "chThdCreateI tsz td k =
    (let (tp, k) = chThdCreateSuspendedI tsz td k in (tp, chSchReadyI tp k))"

definition chThdCreate :: "u32 \<Rightarrow> thread_descriptor \<Rightarrow> kernel \<Rightarrow> ptr \<times> kernel" where
  "chThdCreate tsz td k =
    (let (tp, k) = chThdCreateSuspendedI tsz td k in (tp, chSchWakeupS tp MSG_OK k))"

definition chThdCreateStatic :: "u32 \<Rightarrow> ptr \<Rightarrow> u32 \<Rightarrow> tprio \<Rightarrow> kernel \<Rightarrow> ptr \<times> kernel" where
  "chThdCreateStatic tsz wsp sz p k =
    (let tp = wsp + sz - tsz;
         k = upd_thd tp (\<lambda>x. x\<lparr>wabase := wsp\<rparr>) k;
         k = thread_init tp ''noname'' p k
     in (tp, chSchWakeupS tp MSG_OK k))"

definition chThdStart :: "ptr \<Rightarrow> kernel \<Rightarrow> kernel" where
  "chThdStart tp k = chSchWakeupS tp MSG_OK k"

definition chThdStartI :: "ptr \<Rightarrow> kernel \<Rightarrow> kernel" where
  "chThdStartI tp k = chSchReadyI tp k"

section \<open>References and termination\<close>

definition chThdAddRef :: "ptr \<Rightarrow> kernel \<Rightarrow> kernel" where
  "chThdAddRef tp k = upd_thd tp (\<lambda>x. x\<lparr>refs := refs x + 1\<rparr>) k"

text \<open>What chThdRelease does with the working area after leaving the critical section.\<close>

datatype reclaim = Keep | FreeHeap ptr | FreePool ptr ptr

definition chThdRelease :: "ptr \<Rightarrow> kernel \<Rightarrow> reclaim \<times> kernel" where
  "chThdRelease tp k =
    (let k = upd_thd tp (\<lambda>x. x\<lparr>refs := refs x - 1\<rparr>) k in
     if refs (thd k tp) = 0 \<and> tstate k tp = CH_STATE_FINAL
     then (let k = REG_REMOVE tp k;
               mode = flags (thd k tp) AND CH_FLAG_MODE_MASK
           in (if mode = CH_FLAG_MODE_HEAP then FreeHeap (wabase (thd k tp))
               else if mode = CH_FLAG_MODE_MPOOL then FreePool (mpool (thd k tp)) (wabase (thd k tp))
               else Keep, k))
     else (Keep, k))"

text \<open>The loop of chThdExitS over the singly linked list of waiting threads.\<close>

fun wake_waiting :: "ptr list \<Rightarrow> kernel \<Rightarrow> kernel" where
  "wake_waiting [] k = k"
| "wake_waiting (w # ws) k = wake_waiting ws (chSchReadyI w k)"

definition chThdExitS :: "msg \<Rightarrow> kernel \<Rightarrow> kernel" where
  "chThdExitS m k =
    (let tp = current k;
         k = set_u tp m k;
         ws = waiting (thd k tp);
         k = wake_waiting ws (upd_thd tp (\<lambda>x. x\<lparr>waiting := []\<rparr>) k);
         k = (if refs (thd k tp) = 0 \<and> flags (thd k tp) AND CH_FLAG_MODE_MASK = CH_FLAG_MODE_STATIC
              then REG_REMOVE tp k else k)
     in chSchGoSleepS CH_STATE_FINAL k)"

definition chThdExit :: "msg \<Rightarrow> kernel \<Rightarrow> kernel" where
  "chThdExit m k = chThdExitS m k"

definition chThdWait_resume :: "ptr \<Rightarrow> kernel \<Rightarrow> (msg \<times> reclaim) \<times> kernel" where
  "chThdWait_resume tp k =
    (let m = u (thd k tp); (r, k) = chThdRelease tp k in ((m, r), k))"

definition chThdWait :: "ptr \<Rightarrow> kernel \<Rightarrow> (msg \<times> reclaim) outcome \<times> kernel" where
  "chThdWait tp k =
    (if tstate k tp \<noteq> CH_STATE_FINAL
     then (let k = upd_thd tp (\<lambda>x. x\<lparr>waiting := current k # waiting x\<rparr>) k
           in (Switched, chSchGoSleepS CH_STATE_WTEXIT k))
     else (let (r, k) = chThdWait_resume tp k in (Ret r, k)))"

definition chThdTerminate :: "ptr \<Rightarrow> kernel \<Rightarrow> kernel" where
  "chThdTerminate tp k = upd_thd tp (\<lambda>x. x\<lparr>flags := flags x OR CH_FLAG_TERMINATE\<rparr>) k"

definition chThdShouldTerminateX :: "kernel \<Rightarrow> bool" where
  "chThdShouldTerminateX k \<longleftrightarrow> flags (thd k (current k)) AND CH_FLAG_TERMINATE \<noteq> 0"

definition chThdTerminatedX :: "ptr \<Rightarrow> kernel \<Rightarrow> bool" where
  "chThdTerminatedX tp k \<longleftrightarrow> tstate k tp = CH_STATE_FINAL"

section \<open>Priority and time\<close>

definition chThdSetPriority :: "tprio \<Rightarrow> kernel \<Rightarrow> tprio \<times> kernel" where
  "chThdSetPriority newprio k =
    (let c = current k;
         oldprio = realprio (thd k c);
         k = (if tprio k c = realprio (thd k c) \<or> newprio > tprio k c then set_prio c newprio k else k);
         k = upd_thd c (\<lambda>x. x\<lparr>realprio := newprio\<rparr>) k
     in (oldprio, chSchRescheduleS k))"

definition chThdYield :: "kernel \<Rightarrow> kernel" where
  "chThdYield k = chSchDoYieldS k"

definition chThdSleepS :: "systime \<Rightarrow> kernel \<Rightarrow> kernel" where
  "chThdSleepS time k = chSchGoSleepTimeoutS CH_STATE_SLEEPING time k"

definition chThdSleep :: "systime \<Rightarrow> kernel \<Rightarrow> kernel" where
  "chThdSleep time k = chThdSleepS time k"

text \<open>The sleeps return whether the caller has been switched out.\<close>

definition chThdSleepUntil :: "systime \<Rightarrow> kernel \<Rightarrow> unit outcome \<times> kernel" where
  "chThdSleepUntil time k =
    (let time = time - chVTGetSystemTimeX k
     in if time > 0 then (Switched, chThdSleepS time k) else (Ret (), k))"

definition chThdSleepUntilWindowed :: "systime \<Rightarrow> systime \<Rightarrow> kernel \<Rightarrow> systime outcome \<times> kernel" where
  "chThdSleepUntilWindowed prev next k =
    (let time = chVTGetSystemTimeX k
     in if chVTIsTimeWithinX time prev next then (Switched, chThdSleepS (next - time) k)
        else (Ret next, k))"

section \<open>References to suspended threads and thread queues\<close>

definition chThdSuspendS :: "ptr \<Rightarrow> kernel \<Rightarrow> kernel" where
  "chThdSuspendS trp k =
    (let tp = current k;
         k = k\<lparr>refvar := (refvar k)(trp := tp)\<rparr>;
         k = set_u tp trp k
     in chSchGoSleepS CH_STATE_SUSPENDED k)"

definition chThdSuspendTimeoutS :: "ptr \<Rightarrow> systime \<Rightarrow> kernel \<Rightarrow> msg outcome \<times> kernel" where
  "chThdSuspendTimeoutS trp timeout k =
    (if TIME_IMMEDIATE = timeout then (Ret MSG_TIMEOUT, k)
     else (let tp = current k;
               k = k\<lparr>refvar := (refvar k)(trp := tp)\<rparr>;
               k = set_u tp trp k
           in (Switched, chSchGoSleepTimeoutS CH_STATE_SUSPENDED timeout k)))"

definition chThdResumeI :: "ptr \<Rightarrow> msg \<Rightarrow> kernel \<Rightarrow> kernel" where
  "chThdResumeI trp m k =
    (if refvar k trp \<noteq> NULL
     then (let tp = refvar k trp;
               k = k\<lparr>refvar := (refvar k)(trp := NULL)\<rparr>
           in chSchReadyI tp (set_u tp m k))
     else k)"

definition chThdResumeS :: "ptr \<Rightarrow> msg \<Rightarrow> kernel \<Rightarrow> kernel" where
  "chThdResumeS trp m k =
    (if refvar k trp \<noteq> NULL
     then (let tp = refvar k trp;
               k = k\<lparr>refvar := (refvar k)(trp := NULL)\<rparr>
           in chSchWakeupS tp m k)
     else k)"

definition chThdResume :: "ptr \<Rightarrow> msg \<Rightarrow> kernel \<Rightarrow> kernel" where
  "chThdResume trp m k = chThdResumeS trp m k"

definition chThdEnqueueTimeoutS :: "ptr \<Rightarrow> systime \<Rightarrow> kernel \<Rightarrow> msg outcome \<times> kernel" where
  "chThdEnqueueTimeoutS tqp timeout k =
    (if TIME_IMMEDIATE = timeout then (Ret MSG_TIMEOUT, k)
     else (let k = queue_insert (current k) (QOBJ tqp) k
           in (Switched, chSchGoSleepTimeoutS CH_STATE_QUEUED timeout k)))"

definition chThdDoDequeueNextI :: "ptr \<Rightarrow> msg \<Rightarrow> kernel \<Rightarrow> kernel" where
  "chThdDoDequeueNextI tqp m k =
    (let (tp, k) = queue_fifo_remove (QOBJ tqp) k in chSchReadyI tp (set_u tp m k))"

definition chThdDequeueNextI :: "ptr \<Rightarrow> msg \<Rightarrow> kernel \<Rightarrow> kernel" where
  "chThdDequeueNextI tqp m k =
    (if queue_notempty (QOBJ tqp) k then chThdDoDequeueNextI tqp m k else k)"

function chThdDequeueAllI :: "ptr \<Rightarrow> msg \<Rightarrow> kernel \<Rightarrow> kernel" where
  "chThdDequeueAllI tqp m k =
    (if queue_notempty (QOBJ tqp) k then chThdDequeueAllI tqp m (chThdDoDequeueNextI tqp m k) else k)"
  by pat_completeness auto
termination
  by (relation "measure (\<lambda>(q, m, k). length (qs k (QOBJ q)))")
    (auto simp: queue_notempty_def chThdDoDequeueNextI_def queue_fifo_remove_def q_prio_insert_def
      split: list.splits)

declare chThdDequeueAllI.simps [simp del]

section \<open>The registry\<close>

text \<open>\<open>NULL\<close> stands for the end of the registry, where the code finds the list header.\<close>

definition chRegFirstThread :: "kernel \<Rightarrow> ptr \<times> kernel" where
  "chRegFirstThread k =
    (let tp = (case registry k of [] \<Rightarrow> NULL | t # _ \<Rightarrow> t)
     in (tp, upd_thd tp (\<lambda>x. x\<lparr>refs := refs x + 1\<rparr>) k))"

definition reg_newer :: "ptr \<Rightarrow> kernel \<Rightarrow> ptr" where
  "reg_newer tp k = (case dropWhile (\<lambda>t. t \<noteq> tp) (registry k) of _ # n # _ \<Rightarrow> n | _ \<Rightarrow> NULL)"

definition chRegNextThread :: "ptr \<Rightarrow> kernel \<Rightarrow> (ptr \<times> reclaim) \<times> kernel" where
  "chRegNextThread tp k =
    (let ntp = reg_newer tp k;
         k = (if ntp = NULL then k else upd_thd ntp (\<lambda>x. x\<lparr>refs := refs x + 1\<rparr>) k);
         (r, k) = chThdRelease tp k
     in ((ntp, r), k))"

text \<open>
  The search loop shared by the three find functions; \<open>P\<close> is the test of the loop.  The
  result carries what the releases of the threads passed over asked to reclaim.
\<close>

partial_function (option) chRegFind_loop ::
  "(ptr \<Rightarrow> thread \<Rightarrow> bool) \<Rightarrow> ptr \<Rightarrow> reclaim list \<Rightarrow> kernel \<Rightarrow> (ptr \<times> reclaim list \<times> kernel) option" where
  "chRegFind_loop P ctp rs k =
    (if P ctp (thd k ctp) then Some (ctp, rs, k)
     else (let ((n, r), k) = chRegNextThread ctp k
           in if n \<noteq> NULL then chRegFind_loop P n (rs @ [r]) k else Some (NULL, rs @ [r], k)))"

definition chRegFindThreadByName :: "string \<Rightarrow> kernel \<Rightarrow> (ptr \<times> reclaim list \<times> kernel) option" where
  "chRegFindThreadByName nm k =
    (let (ctp, k) = chRegFirstThread k in chRegFind_loop (\<lambda>_ x. tname x = nm) ctp [] k)"

definition chRegFindThreadByPointer :: "ptr \<Rightarrow> kernel \<Rightarrow> (ptr \<times> reclaim list \<times> kernel) option" where
  "chRegFindThreadByPointer tp k =
    (let (ctp, k) = chRegFirstThread k in chRegFind_loop (\<lambda>t _. t = tp) ctp [] k)"

definition chRegFindThreadByWorkingArea :: "ptr \<Rightarrow> kernel \<Rightarrow> (ptr \<times> reclaim list \<times> kernel) option" where
  "chRegFindThreadByWorkingArea wa k =
    (let (ctp, k) = chRegFirstThread k in chRegFind_loop (\<lambda>_ x. wabase x = wa) ctp [] k)"

section \<open>Waking threads that are in no queue\<close>

lemma kinv_start:
  assumes i: "kinv kd idle {} k" and st: "\<not> queued (tstate k t)" and c: "t \<noteq> current k"
  shows "kinv kd idle {} (chSchReadyI t k)" "kinv kd idle {} (chSchReadyI t (set_u t m k))"
    "kinv kd idle {} (chSchWakeupS t m k)" "highest k \<Longrightarrow> highest (chSchWakeupS t m k)"
    "current (chSchWakeupS t m k) = (if tprio k t \<le> tprio k (current k) then current k else t)"
proof -
  have nq: "\<not> in_queue k t" using not_queued_state [OF i _ st] by (simp add: in_queue_def)
  have i1: "kinv kd idle {t} k" using kinv_take [OF i, of t] nq by (simp add: in_queue_def)
  show "kinv kd idle {} (chSchReadyI t k)"
    using kinv_chSchReadyI [of kd idle t "{t}" k] i1 nq c by simp
  have "kinv kd idle {t} (set_u t m k)" using i1 by blast
  then show "kinv kd idle {} (chSchReadyI t (set_u t m k))"
    using kinv_chSchReadyI [of kd idle t "{t}" "set_u t m k"] nq c by (simp add: in_queue_def)
  show "kinv kd idle {} (chSchWakeupS t m k)" "highest k \<Longrightarrow> highest (chSchWakeupS t m k)"
    "current (chSchWakeupS t m k) = (if tprio k t \<le> tprio k (current k) then current k else t)"
    using kinv_chSchWakeupS [OF i1 nq c] by blast+
qed

lemma kinv_other_fields:
  assumes i: "kinv kd idle D k"
    and f: "\<And>x. state (f x) = state x \<and> u (f x) = u x \<and> prio (f x) = prio x \<and> realprio (f x) = realprio x"
  shows "kinv kd idle D (upd_thd t f k)"
  by (rule kinv_upd [OF i]) (use f in auto)

section \<open>Suspending and resuming\<close>

text \<open>
  A thread suspended on a reference.  chThdSuspendS stores the caller in the reference and
  switches to the ready thread of highest priority.  chThdResumeI and chThdResumeS of a
  reference to a suspended thread clear the reference, give the thread the message and make it
  ready (chThdResumeS runs it when its priority is higher); on a null reference they do nothing.
\<close>

theorem suspend_resume_correct:
  assumes "kinv kd idle {} k" and "current k \<noteq> idle"
    and "tstate k t = CH_STATE_SUSPENDED" and "refvar k trp = t" and "t \<noteq> NULL" and "refvar k tr0 = NULL"
  shows "kinv kd idle {} (chThdSuspendS tr0 k) \<and> highest (chThdSuspendS tr0 k) \<and>
    refvar (chThdSuspendS tr0 k) = (refvar k)(tr0 := current k) \<and>
    kinv kd idle {} (chThdResumeI trp m k) \<and> kinv kd idle {} (chThdResumeS trp m k) \<and>
    refvar (chThdResumeI trp m k) = (refvar k)(trp := NULL) \<and>
    refvar (chThdResumeS trp m k) = (refvar k)(trp := NULL) \<and>
    u (thd (chThdResumeI trp m k) t) = m \<and> u (thd (chThdResumeS trp m k) t) = m \<and>
    tstate (chThdResumeI trp m k) t = CH_STATE_READY \<and>
    current (chThdResumeS trp m k) = (if tprio k t \<le> tprio k (current k) then current k else t) \<and>
    chThdResumeI tr0 m k = k \<and> chThdResumeS tr0 m k = k"
proof -
  let ?r = "k\<lparr>refvar := (refvar k)(trp := NULL)\<rparr>"
  let ?s = "k\<lparr>refvar := (refvar k)(tr0 := current k)\<rparr>"
  have c: "t \<noteq> current ?r" using current_state [OF assms(1), of t] assms(3) by simp
  have i: "kinv kd idle {} ?r" "kinv kd idle {} ?s" using assms(1) by simp_all
  have nq: "\<not> queued (tstate ?r t)" using assms(3) by (simp add: queued_def)
  have "tstate k (current k) = CH_STATE_CURRENT" using current_state [OF assms(1)] by simp
  then have i2: "kinv kd idle {} (set_u (current k) tr0 ?s)"
    by (intro kinv_set_u_other [OF i(2)]) simp
  show ?thesis
    using kinv_start [OF i(1) nq c] kinv_sleep [OF i2, of CH_STATE_SUSPENDED] assms
    by (simp add: chThdSuspendS_def chThdResumeI_def chThdResumeS_def Let_def queued_def)
qed

definition suspended_boot :: kernel where
  "suspended_boot = (set_state 3 CH_STATE_SUSPENDED boot)\<lparr>refvar := (\<lambda>_. NULL)(500 := 3)\<rparr>"

lemma kinv_suspended_boot: "kinv kd 2 {} suspended_boot"
proof -
  have "kinv kd 2 {3} boot" using kinv_take [OF kinv_boot, of 3] by (simp add: boot_simps)
  then have "kinv kd 2 {3} suspended_boot" unfolding suspended_boot_def by auto
  moreover have "placed kd suspended_boot 3"
    by (simp add: suspended_boot_def placed_def queued_def boot_simps)
  ultimately show ?thesis by (rule kinv_settle) simp
qed

lemma suspend_resume_correct_witness:
  "u (thd (chThdResumeS 500 7 suspended_boot) 3) = 7 \<and> refvar (chThdResumeS 500 7 suspended_boot) 500 = NULL"
  using suspend_resume_correct [of "\<lambda>_. KQueue" 2 suspended_boot 3 500 600 7, OF kinv_suspended_boot]
  by (simp add: suspended_boot_def boot_simps)

section \<open>Thread queues\<close>

lemma dequeue_next_inv:
  assumes i: "kinv kd idle {} k" and q: "qs k (QOBJ tqp) = t # r"
  shows "kinv kd idle {} (chThdDoDequeueNextI tqp m k) \<and> qs (chThdDoDequeueNextI tqp m k) (QOBJ tqp) = r \<and>
    current (chThdDoDequeueNextI tqp m k) = current k \<and>
    thd (chThdDoDequeueNextI tqp m k) = (thd k)(t := (thd k t)\<lparr>u := m, state := CH_STATE_READY\<rparr>) \<and> t \<notin> set r"
proof -
  have eq: "chThdDoDequeueNextI tqp m k = chSchReadyI t (set_u t m (queue_dequeue t k))"
    using fifo_remove_eq [OF i q] by (simp add: chThdDoDequeueNextI_def)
  have "t \<in> set (qs k (QOBJ tqp))" using q by simp
  moreover have "t \<notin> set r" using kinv_queues [OF i] q unfolding queues_ok_def by (metis distinct.simps(2))
  ultimately show ?thesis unfolding eq
    using kinv_release [OF i, of t "QOBJ tqp" m] q by (auto simp: q_prio_insert_def q_dequeue_def)
qed

lemma dequeue_all_inv:
  "kinv kd idle {} k \<Longrightarrow>
    kinv kd idle {} (chThdDequeueAllI tqp m k) \<and> qs (chThdDequeueAllI tqp m k) (QOBJ tqp) = [] \<and>
    current (chThdDequeueAllI tqp m k) = current k \<and>
    thd (chThdDequeueAllI tqp m k) = (\<lambda>t. if t \<in> set (qs k (QOBJ tqp))
      then (thd k t)\<lparr>u := m, state := CH_STATE_READY\<rparr> else thd k t)"
proof (induction "qs k (QOBJ tqp)" arbitrary: k)
  case Nil
  then have "chThdDequeueAllI tqp m k = k"
    by (subst chThdDequeueAllI.simps) (simp add: queue_notempty_def)
  then show ?case using Nil by simp
next
  case (Cons t r)
  note d = dequeue_next_inv [OF Cons.prems Cons.hyps(2) [symmetric], of m]
  have "chThdDequeueAllI tqp m k = chThdDequeueAllI tqp m (chThdDoDequeueNextI tqp m k)"
    using Cons.hyps(2) by (subst chThdDequeueAllI.simps) (metis list.distinct(1) queue_notempty_def)
  moreover have "set (qs k (QOBJ tqp)) = insert t (set r)" using Cons.hyps(2) by (metis list.simps(15))
  ultimately show ?case
    using Cons.hyps(1) [of "chThdDoDequeueNextI tqp m k"] d by (auto simp: fun_eq_iff)
qed

lemma dequeue_next_any:
  assumes "kinv kd idle {} k"
  shows "kinv kd idle {} (chThdDequeueNextI tqp m k) \<and> current (chThdDequeueNextI tqp m k) = current k \<and>
    qs (chThdDequeueNextI tqp m k) (QOBJ tqp) = tl (qs k (QOBJ tqp)) \<and>
    (\<forall>t. tprio (chThdDequeueNextI tqp m k) t = tprio k t)"
  using assms dequeue_next_inv [OF assms, of tqp _ _ m]
  by (cases "qs k (QOBJ tqp)") (simp_all add: chThdDequeueNextI_def queue_notempty_def)

lemma enqueue_timeout_inv:
  assumes i: "kinv kd idle {} k" and kd: "kd tqp = KQueue" and idle: "current k \<noteq> idle"
  shows "if time = TIME_IMMEDIATE then chThdEnqueueTimeoutS tqp time k = (Ret MSG_TIMEOUT, k)
    else fst (chThdEnqueueTimeoutS tqp time k) = Switched \<and>
      kinv kd idle {} (snd (chThdEnqueueTimeoutS tqp time k)) \<and> highest (snd (chThdEnqueueTimeoutS tqp time k)) \<and>
      qs (snd (chThdEnqueueTimeoutS tqp time k)) (QOBJ tqp) = qs k (QOBJ tqp) @ [current k]"
proof -
  let ?c = "current k"
  let ?k = "queue_insert ?c (QOBJ tqp) k"
  have "set_u ?c (u (thd k ?c)) k = k" by (simp add: set_u_def upd_thd_def)
  then have en: "kinv kd idle {} (chSchGoSleepS CH_STATE_QUEUED ?k) \<and> highest (chSchGoSleepS CH_STATE_QUEUED ?k)"
    using kinv_block [OF i idle, of CH_STATE_QUEUED "u (thd k ?c)" tqp queue_insert] kd by simp
  have "kinv kd idle {} (chSchGoSleepTimeoutS CH_STATE_QUEUED time ?k) = kinv kd idle {} (chSchGoSleepS CH_STATE_QUEUED ?k)"
    "highest (chSchGoSleepTimeoutS CH_STATE_QUEUED time ?k) = highest (chSchGoSleepS CH_STATE_QUEUED ?k)"
    by (rule kinv_fields_cong highest_cong; simp only: sleep_timeout_view)+
  then show ?thesis using en by (simp add: chThdEnqueueTimeoutS_def q_insert_def)
qed

text \<open>
  A threads queue.  Enqueuing with a timeout other than TIME_IMMEDIATE appends the caller
  and switches; dequeuing takes the longest waiting thread, if any, and makes it ready with the
  message; dequeuing all empties the queue, giving every waiter the message, and returns.
\<close>

theorem thread_queue_correct:
  assumes "kinv kd idle {} k" and "kd tqp = KQueue" and "current k \<noteq> idle"
  shows "chThdEnqueueTimeoutS tqp TIME_IMMEDIATE k = (Ret MSG_TIMEOUT, k) \<and>
    fst (chThdEnqueueTimeoutS tqp TIME_INFINITE k) = Switched \<and>
    kinv kd idle {} (snd (chThdEnqueueTimeoutS tqp TIME_INFINITE k)) \<and>
    qs (snd (chThdEnqueueTimeoutS tqp TIME_INFINITE k)) (QOBJ tqp) = qs k (QOBJ tqp) @ [current k] \<and>
    kinv kd idle {} (chThdDequeueNextI tqp m k) \<and>
    qs (chThdDequeueNextI tqp m k) (QOBJ tqp) = tl (qs k (QOBJ tqp)) \<and>
    kinv kd idle {} (chThdDequeueAllI tqp m k) \<and> qs (chThdDequeueAllI tqp m k) (QOBJ tqp) = [] \<and>
    thd (chThdDequeueAllI tqp m k) = (\<lambda>t. if t \<in> set (qs k (QOBJ tqp))
      then (thd k t)\<lparr>u := m, state := CH_STATE_READY\<rparr> else thd k t)"
proof -
  let ?c = "current k"
  have inf: "TIME_INFINITE \<noteq> TIME_IMMEDIATE" by (simp add: TIME_INFINITE_def TIME_IMMEDIATE_def)
  have cs: "tstate k ?c = CH_STATE_CURRENT" using current_state [OF assms(1)] by simp
  have "set_u ?c (u (thd k ?c)) k = k" by (simp add: set_u_def upd_thd_def)
  then have en: "kinv kd idle {} (chSchGoSleepS CH_STATE_QUEUED (queue_insert ?c (QOBJ tqp) k))"
    using kinv_block [OF assms(1,3), of CH_STATE_QUEUED "u (thd k ?c)" tqp queue_insert] assms(2) by simp
  have "kinv kd idle {} (chThdDequeueNextI tqp m k) \<and>
      qs (chThdDequeueNextI tqp m k) (QOBJ tqp) = tl (qs k (QOBJ tqp))"
    using assms(1) dequeue_next_inv [OF assms(1), of tqp _ _ m]
    by (cases "qs k (QOBJ tqp)") (simp_all add: chThdDequeueNextI_def queue_notempty_def)
  then show ?thesis
    using en inf dequeue_all_inv [OF assms(1), of tqp m]
    by (simp add: chThdEnqueueTimeoutS_def chSchGoSleepTimeoutS_def q_insert_def)
qed

lemma thread_queue_correct_witness:
  "qs (snd (chThdEnqueueTimeoutS 300 TIME_INFINITE boot)) (QOBJ 300) = [1]"
  using thread_queue_correct [of "\<lambda>_. KQueue" 2 boot 300 0, OF kinv_boot] by (simp add: boot_simps)

section \<open>Creating threads\<close>

lemma kinv_hand:
  assumes i: "kinv kd idle D k" and q: "qs k' = qs k" and c: "current k' = current k"
    and same: "\<And>x. x \<notin> D \<Longrightarrow> thd k' x = thd k x"
    and p: "\<And>x. x \<in> D \<Longrightarrow> 0 < tprio k' x \<and> 0 < realprio (thd k' x)"
  shows "kinv kd idle D k'"
proof -
  have "by_prio (tprio k') (qs k RLIST) = by_prio (tprio k) (qs k RLIST)"
    by (rule by_prio_cong) (use same i in \<open>auto simp: kinv_def\<close>)
  moreover have "placed kd k' x" if "x \<notin> D" for x
    using i that same [OF that] q c by (simp add: kinv_def placed_def in_queue_def)
  moreover have "0 < tprio k' x \<and> 0 < realprio (thd k' x)" for x
    using p [of x] same [of x] i by (cases "x \<in> D") (auto simp: kinv_def)
  ultimately show ?thesis using i q same [of idle] unfolding kinv_def by auto
qed

text \<open>The structure of a new thread: not in use, or in use by a thread that is in no queue.\<close>

definition vacant :: "ptr \<Rightarrow> ptr \<Rightarrow> kernel \<Rightarrow> bool" where
  "vacant idle t k \<longleftrightarrow> \<not> queued (tstate k t) \<and> t \<noteq> current k \<and> t \<noteq> idle \<and> qs k (MSGQ t) = []"

lemma thread_init_inv:
  assumes i: "kinv kd idle {} k" and v: "vacant idle t k" and p: "0 < p"
  shows "kinv kd idle {} (thread_init t nm p k) \<and> tstate (thread_init t nm p k) t = CH_STATE_WTSTART \<and>
    current (thread_init t nm p k) = current k \<and> tprio (thread_init t nm p k) t = p \<and>
    (\<forall>x. x \<noteq> t \<longrightarrow> thd (thread_init t nm p k) x = thd k x) \<and> qs (thread_init t nm p k) = qs k \<and>
    registry (thread_init t nm p k) = registry k @ [t]"
proof -
  let ?k = "thread_init t nm p k"
  have nq: "t \<notin> set (qs k q)" for q using not_queued_state [OF i, of t q] v by (simp add: vacant_def)
  have i1: "kinv kd idle {t} k" using kinv_take [OF i, of t] nq by simp
  have f: "qs ?k = qs k" "current ?k = current k" "\<And>x. x \<noteq> t \<Longrightarrow> thd ?k x = thd k x"
    "tprio ?k t = p" "realprio (thd ?k t) = p" "tstate ?k t = CH_STATE_WTSTART" "registry ?k = registry k @ [t]"
    using v by (auto simp: thread_init_def Let_def REG_INSERT_def queue_init_def upd_thd_def vacant_def)
  have "kinv kd idle {t} ?k" by (rule kinv_hand [OF i1]) (use f p in auto)
  moreover have "placed kd ?k t"
    using nq f v by (simp add: placed_def queued_def vacant_def)
  ultimately have "kinv kd idle {} ?k" by (rule kinv_settle) (use v in \<open>simp add: vacant_def\<close>)
  then show ?thesis using f by blast
qed

lemma create_suspended_inv:
  assumes i: "kinv kd idle {} k" and v: "vacant idle (td_wend td - tsz) k" and p: "0 < td_prio td"
  defines "t \<equiv> td_wend td - tsz"
  shows "fst (chThdCreateSuspendedI tsz td k) = t \<and>
    kinv kd idle {} (snd (chThdCreateSuspendedI tsz td k)) \<and>
    tstate (snd (chThdCreateSuspendedI tsz td k)) t = CH_STATE_WTSTART \<and>
    tprio (snd (chThdCreateSuspendedI tsz td k)) t = td_prio td \<and>
    current (snd (chThdCreateSuspendedI tsz td k)) = current k \<and>
    (\<forall>x. x \<noteq> t \<longrightarrow> thd (snd (chThdCreateSuspendedI tsz td k)) x = thd k x) \<and>
    qs (snd (chThdCreateSuspendedI tsz td k)) = qs k \<and>
    registry (snd (chThdCreateSuspendedI tsz td k)) = registry k @ [t]"
proof -
  let ?k = "upd_thd t (\<lambda>x. x\<lparr>wabase := td_wbase td\<rparr>) k"
  have i1: "kinv kd idle {} ?k" by (rule kinv_other_fields [OF i]) simp
  have v1: "vacant idle t ?k" using v by (simp add: vacant_def t_def)
  show ?thesis
    using thread_init_inv [OF i1 v1 p, of "td_name td"] by (simp add: chThdCreateSuspendedI_def Let_def t_def)
qed

text \<open>
  Creating a thread in a working area whose structure is in no queue.  The new thread has
  the descriptor's priority, is the last of the registry, and starts suspended; chThdCreate
  then runs it at once when its priority is higher than the caller's, and otherwise makes it
  ready, leaving the thread of highest priority running.
\<close>

theorem thread_create_correct:
  assumes "kinv kd idle {} k" and "vacant idle (td_wend td - tsz) k" and "0 < td_prio td"
  shows "fst (chThdCreateSuspended tsz td k) = td_wend td - tsz \<and>
    tstate (snd (chThdCreateSuspended tsz td k)) (td_wend td - tsz) = CH_STATE_WTSTART \<and>
    kinv kd idle {} (snd (chThdCreateSuspended tsz td k)) \<and>
    kinv kd idle {} (snd (chThdCreateI tsz td k)) \<and> current (snd (chThdCreateI tsz td k)) = current k \<and>
    kinv kd idle {} (snd (chThdCreate tsz td k)) \<and>
    (highest k \<longrightarrow> highest (snd (chThdCreate tsz td k))) \<and>
    current (snd (chThdCreate tsz td k)) =
      (if td_prio td \<le> tprio k (current k) then current k else td_wend td - tsz) \<and>
    registry (snd (chThdCreateSuspended tsz td k)) = registry k @ [td_wend td - tsz]"
proof -
  let ?t = "td_wend td - tsz" and ?k = "snd (chThdCreateSuspendedI tsz td k)"
  note c = create_suspended_inv [OF assms]
  have tc: "?t \<noteq> current ?k" using c assms(2) by (simp add: vacant_def)
  have nq: "\<not> queued (tstate ?k ?t)" using c by (simp add: queued_def)
  have "kinv kd idle {} ?k" using c by simp
  note s = kinv_start [OF this nq tc]
  have other: "thd ?k x = thd k x" if "x \<noteq> ?t" for x using c that by blast
  have "current k \<noteq> ?t" using assms(2) by (auto simp: vacant_def)
  then have cp: "tprio ?k (current k) = tprio k (current k)" by (simp add: other)
  have "tprio ?k x = tprio k x" if "x \<in> set (qs k RLIST)" for x
  proof -
    have "x \<noteq> ?t" using that assms(2) ready_state [OF assms(1) that] by (auto simp: vacant_def queued_def)
    then show ?thesis by (simp add: other)
  qed
  then have "highest k \<longrightarrow> highest ?k" using c cp by (simp add: highest_def)
  then show ?thesis
    using c s cp by (simp add: chThdCreateSuspended_def chThdCreateI_def chThdCreate_def split_beta Let_def)
qed

lemma thread_create_correct_witness:
  "current (snd (chThdCreate 96 \<lparr>td_name = ''blinker'', td_wbase = 1000, td_wend = 1224, td_prio = 130\<rparr> boot)) = 1128"
  using thread_create_correct [of "\<lambda>_. KSem" 2 boot "\<lparr>td_name = ''blinker'', td_wbase = 1000, td_wend = 1224, td_prio = 130\<rparr>" 96,
      OF kinv_boot]
  by (simp add: vacant_def boot_simps boot_thread_def queued_def NORMALPRIO_def)

section \<open>Termination of threads\<close>

text \<open>
  The waiting lists: the threads in them wait for the exit of one thread each.
\<close>

definition winv :: "kernel \<Rightarrow> bool" where
  "winv k \<longleftrightarrow> (\<forall>t. distinct (waiting (thd k t)) \<and> (\<forall>w \<in> set (waiting (thd k t)). tstate k w = CH_STATE_WTEXIT)) \<and>
    (\<forall>t t'. t \<noteq> t' \<longrightarrow> set (waiting (thd k t)) \<inter> set (waiting (thd k t')) = {})"

lemma wake_waiting_inv:
  "kinv kd idle {} k \<Longrightarrow> distinct ws \<Longrightarrow> \<forall>w \<in> set ws. tstate k w = CH_STATE_WTEXIT \<Longrightarrow>
    kinv kd idle {} (wake_waiting ws k) \<and> current (wake_waiting ws k) = current k \<and>
    thd (wake_waiting ws k) = (\<lambda>t. if t \<in> set ws then (thd k t)\<lparr>state := CH_STATE_READY\<rparr> else thd k t)"
proof (induction ws arbitrary: k)
  case Nil
  then show ?case by simp
next
  case (Cons w ws)
  have nq: "\<not> queued (tstate k w)" using Cons.prems by (simp add: queued_def)
  have wc: "w \<noteq> current k" using current_state [OF Cons.prems(1), of w] Cons.prems(3) by simp
  have i: "kinv kd idle {} (chSchReadyI w k)" by (rule kinv_start(1) [OF Cons.prems(1) nq wc])
  have "\<forall>x \<in> set ws. tstate (chSchReadyI w k) x = CH_STATE_WTEXIT" using Cons.prems by auto
  note IH = Cons.IH [OF i _ this]
  show ?case using IH Cons.prems(2) by (auto simp: fun_eq_iff)
qed

lemma wake_waiting_refvar [simp]: "refs (thd (wake_waiting ws k) t) = refs (thd k t)"
  by (induction ws arbitrary: k) auto

lemma kinv_registry [simp]:
  "kinv kd idle D (REG_REMOVE t k) = kinv kd idle D k" "thd (REG_REMOVE t k) = thd k"
  "qs (REG_REMOVE t k) = qs k" "current (REG_REMOVE t k) = current k"
  by (simp_all add: REG_REMOVE_def)

text \<open>What exit and wait keep, and what they do to the threads.\<close>

lemma exit_wait_facts:
  assumes "kinv kd idle {} k" and "winv k" and "current k \<noteq> idle" and "tstate k t \<noteq> CH_STATE_FINAL"
    and "t \<noteq> current k"
  shows "kinv kd idle {} (chThdExitS m k) \<and> winv (chThdExitS m k) \<and> highest (chThdExitS m k) \<and>
    tstate (chThdExitS m k) (current k) = CH_STATE_FINAL \<and>
    fst (fst (chThdWait_resume (current k) (chThdExitS m k))) = m \<and>
    (\<forall>w \<in> set (waiting (thd k (current k))).
      tstate (chThdExitS m k) w \<in> {CH_STATE_READY, CH_STATE_CURRENT}) \<and>
    kinv kd idle {} (snd (chThdWait t k)) \<and> winv (snd (chThdWait t k)) \<and> highest (snd (chThdWait t k)) \<and>
    fst (chThdWait t k) = Switched \<and>
    waiting (thd (snd (chThdWait t k)) t) = current k # waiting (thd k t) \<and>
    tstate (snd (chThdWait t k)) (current k) = CH_STATE_WTEXIT"
proof -
  let ?c = "current k"
  have cs: "tstate k ?c = CH_STATE_CURRENT" using current_state [OF assms(1)] by simp
  have w: "distinct (waiting (thd k x))" "\<And>y. y \<in> set (waiting (thd k x)) \<Longrightarrow> tstate k y = CH_STATE_WTEXIT"
    "\<And>x'. x \<noteq> x' \<Longrightarrow> set (waiting (thd k x)) \<inter> set (waiting (thd k x')) = {}" for x
    using assms(2) unfolding winv_def by blast+
  have cw: "?c \<notin> set (waiting (thd k x))" for x using w(2) cs by fastforce
  have rw: "y \<notin> set (waiting (thd k x))" if "y \<in> set (qs k RLIST)" for x y
    using w(2) ready_state [OF assms(1) that] by fastforce
  \<comment> \<open>exit\<close>
  let ?k1 = "upd_thd ?c (\<lambda>x. x\<lparr>waiting := []\<rparr>) (set_u ?c m k)"
  let ?ws = "waiting (thd k ?c)"
  let ?k2 = "wake_waiting ?ws ?k1"
  have i0: "kinv kd idle {} (set_u ?c m k)" by (rule kinv_set_u_other [OF assms(1)]) (simp add: cs)
  have i1: "kinv kd idle {} ?k1" by (rule kinv_other_fields [OF i0]) simp
  have ws1: "\<forall>x \<in> set ?ws. tstate ?k1 x = CH_STATE_WTEXIT" using w(2) [of _ ?c] by auto
  note wk = wake_waiting_inv [OF i1 w(1) ws1]
  define k3 where "k3 = (if refs (thd ?k2 ?c) = 0 \<and> flags (thd ?k2 ?c) AND CH_FLAG_MODE_MASK = CH_FLAG_MODE_STATIC
              then REG_REMOVE ?c ?k2 else ?k2)"
  have ex: "chThdExitS m k = chSchGoSleepS CH_STATE_FINAL k3"
    by (simp add: chThdExitS_def Let_def k3_def)
  have k3: "kinv kd idle {} k3" "thd k3 = thd ?k2" "current k3 = ?c" using wk by (auto simp: k3_def)
  have cidle: "current k3 \<noteq> idle" using assms(3) k3 by simp
  have sl: "kinv kd idle {} (chSchGoSleepS CH_STATE_FINAL k3) \<and> highest (chSchGoSleepS CH_STATE_FINAL k3)"
    by (rule kinv_sleep [OF k3(1) cidle]) (simp_all add: queued_def)
  have ne: "qs k3 RLIST \<noteq> []" by (rule ready_nonempty [OF k3(1)]) (use cidle in auto)
  have "tstate k3 (current k3) = CH_STATE_CURRENT" using current_state [OF k3(1)] by simp
  then have hc: "hd (qs k3 RLIST) \<noteq> current k3"
    using ready_state [OF k3(1), of "hd (qs k3 RLIST)"] ne by auto
  note th = chSchGoSleepS_thd [OF ne hc, of CH_STATE_FINAL]
  have t3: "thd k3 x = (if x \<in> set ?ws then (thd ?k1 x)\<lparr>state := CH_STATE_READY\<rparr> else thd ?k1 x)" for x
    using wk k3 by simp
  have "winv (chThdExitS m k)"
  proof -
    have wt: "waiting (thd (chThdExitS m k) x) = (if x = ?c then [] else waiting (thd k x))" for x
      unfolding ex by (simp add: t3)
    have "tstate (chThdExitS m k) y = CH_STATE_WTEXIT" if y: "y \<in> set (waiting (thd k x))" and x: "x \<noteq> ?c" for x y
    proof -
      have "y \<notin> set ?ws" using w(3) [OF x] y by blast
      then have st: "tstate k3 y = CH_STATE_WTEXIT" using w(2) [OF y] cs by (auto simp: t3)
      then have "y \<noteq> hd (qs k3 RLIST)" using ready_state [OF k3(1), of "hd (qs k3 RLIST)"] ne by auto
      moreover have "y \<noteq> ?c" using cw y by auto
      ultimately show ?thesis using st unfolding ex th k3(3) by simp
    qed
    then show ?thesis using w unfolding winv_def wt by auto
  qed
  moreover have "tstate (chThdExitS m k) x \<in> {CH_STATE_READY, CH_STATE_CURRENT}" if "x \<in> set ?ws" for x
    using that cw [of ?c] unfolding ex th k3(3) by (auto simp: t3)
  moreover have "tstate (chThdExitS m k) ?c = CH_STATE_FINAL" "u (thd (chThdExitS m k) ?c) = m"
    using cw [of ?c] unfolding ex th k3(3) by (auto simp: t3)
  moreover have "fst (fst (chThdWait_resume ?c k')) = u (thd k' ?c)" for k'
    by (simp add: chThdWait_resume_def split_beta Let_def)
  \<comment> \<open>wait\<close>
  moreover have "kinv kd idle {} (snd (chThdWait t k)) \<and> winv (snd (chThdWait t k)) \<and> highest (snd (chThdWait t k)) \<and>
    fst (chThdWait t k) = Switched \<and>
    waiting (thd (snd (chThdWait t k)) t) = ?c # waiting (thd k t) \<and>
    tstate (snd (chThdWait t k)) ?c = CH_STATE_WTEXIT"
  proof -
    let ?k1 = "upd_thd t (\<lambda>x. x\<lparr>waiting := ?c # waiting x\<rparr>) k"
    have wa: "chThdWait t k = (Switched, chSchGoSleepS CH_STATE_WTEXIT ?k1)"
      using assms(4) by (simp add: chThdWait_def Let_def)
    have i1: "kinv kd idle {} ?k1" by (rule kinv_other_fields [OF assms(1)]) simp
    have c1: "current ?k1 \<noteq> idle" using assms(3) by simp
    have sl: "kinv kd idle {} (chSchGoSleepS CH_STATE_WTEXIT ?k1) \<and> highest (chSchGoSleepS CH_STATE_WTEXIT ?k1)"
      by (rule kinv_sleep [OF i1 c1]) (simp_all add: queued_def)
    have ne: "qs ?k1 RLIST \<noteq> []" by (rule ready_nonempty [OF i1]) (use c1 in auto)
    then have hr: "hd (qs k RLIST) \<in> set (qs k RLIST)" by simp
    have hc: "hd (qs ?k1 RLIST) \<noteq> current ?k1" using ready_state [OF assms(1) hr] cs by auto
    note th = chSchGoSleepS_thd [OF ne hc, of CH_STATE_WTEXIT]
    have wt: "waiting (thd (chSchGoSleepS CH_STATE_WTEXIT ?k1) x) =
        (if x = t then ?c # waiting (thd k t) else waiting (thd k x))" for x by simp
    have "tstate (chSchGoSleepS CH_STATE_WTEXIT ?k1) y = CH_STATE_WTEXIT" if "y \<in> set (waiting (thd k x))" for x y
    proof -
      have "y \<noteq> hd (qs k RLIST)" using rw [OF hr] that by auto
      then show ?thesis using w(2) [OF that] unfolding th by auto
    qed
    moreover have "tstate (chSchGoSleepS CH_STATE_WTEXIT ?k1) ?c = CH_STATE_WTEXIT" unfolding th by simp
    ultimately have "winv (chSchGoSleepS CH_STATE_WTEXIT ?k1)"
      using w cw unfolding winv_def wt by auto
    then show ?thesis using wa sl \<open>tstate (chSchGoSleepS CH_STATE_WTEXIT ?k1) ?c = CH_STATE_WTEXIT\<close> by simp
  qed
  ultimately show ?thesis using sl ex by simp
qed

lemma registry_fields:
  "registry (chSchReadyI t k) = registry k" "registry (set_u t m k) = registry k"
  "registry (chSchGoSleepS st k) = registry k"
  by (auto simp: chSchReadyI_def set_u_def set_state_def upd_thd_def chSchGoSleepS_def take_first_def
      queue_fifo_remove_def Let_def split: list.splits)

lemma wake_waiting_fields [simp]:
  "registry (wake_waiting ws k) = registry k" "flags (thd (wake_waiting ws k) t) = flags (thd k t)"
  by (induction ws arbitrary: k) (auto simp: registry_fields)

lemma exit_registry:
  "registry (chThdExitS m k) =
    (if refs (thd k (current k)) = 0 \<and> flags (thd k (current k)) AND CH_FLAG_MODE_MASK = CH_FLAG_MODE_STATIC
     then remove1 (current k) (registry k) else registry k)"
  by (simp add: chThdExitS_def Let_def REG_REMOVE_def registry_fields)

text \<open>
  C27: Exit and wait.  chThdExitS makes every thread waiting for the caller ready, leaves the
  caller in the final state with its exit code and switches to the ready thread of highest
  priority; the exited thread leaves the registry if nobody holds a reference and its working
  area is static.  chThdWait on a thread that has not exited puts the caller on its waiting
  list and switches.  Both keep the kernel invariant and the consistency of the waiting lists,
  and a wait that resumes after the exit returns the exit code.
\<close>

theorem thread_exit_wait_correct:
  assumes "kinv kd idle {} k" and "winv k" and "current k \<noteq> idle" and "tstate k t \<noteq> CH_STATE_FINAL"
    and "t \<noteq> current k"
  shows "kinv kd idle {} (chThdExitS m k) \<and> winv (chThdExitS m k) \<and> highest (chThdExitS m k) \<and>
    tstate (chThdExitS m k) (current k) = CH_STATE_FINAL \<and>
    registry (chThdExitS m k) =
      (if refs (thd k (current k)) = 0 \<and> flags (thd k (current k)) AND CH_FLAG_MODE_MASK = CH_FLAG_MODE_STATIC
       then remove1 (current k) (registry k) else registry k) \<and>
    fst (fst (chThdWait_resume (current k) (chThdExitS m k))) = m \<and>
    (\<forall>w \<in> set (waiting (thd k (current k))).
      tstate (chThdExitS m k) w \<in> {CH_STATE_READY, CH_STATE_CURRENT}) \<and>
    kinv kd idle {} (snd (chThdWait t k)) \<and> winv (snd (chThdWait t k)) \<and> highest (snd (chThdWait t k)) \<and>
    fst (chThdWait t k) = Switched \<and>
    waiting (thd (snd (chThdWait t k)) t) = current k # waiting (thd k t) \<and>
    tstate (snd (chThdWait t k)) (current k) = CH_STATE_WTEXIT"
  using exit_wait_facts [OF assms, of m] exit_registry [of m k] by blast

lemma thread_exit_wait_correct_witness:
  "tstate (chThdExitS 5 boot) 1 = CH_STATE_FINAL \<and> waiting (thd (snd (chThdWait 2 boot)) 2) = [1]"
  using thread_exit_wait_correct [of "\<lambda>_. KSem" 2 boot 2 5, OF kinv_boot]
  by (simp add: winv_def boot_simps boot_thread_def)

section \<open>Changing the priority\<close>

text \<open>
  The call lowers the priority of its caller below that of a thread which waits for one of its
  mutexes: the caller has its own priority, though a thread waits, and asks for one below the
  waiter's.
\<close>

definition lowers :: "(ptr \<Rightarrow> okind) \<Rightarrow> tprio \<Rightarrow> kernel \<Rightarrow> bool" where
  "lowers kd np k \<longleftrightarrow> tprio k (current k) = realprio (thd k (current k)) \<and>
     (\<exists>m w. kd m = KMtx \<and> mtx_owner k m = current k \<and> w \<in> set (qs k (QOBJ m)) \<and> np < tprio k w)"

lemma set_priority_inv:
  assumes "mtxk kd idle X k" and "0 < np" and Y: "Y = (if lowers kd np k then insert (current k) X else X)"
  shows "fst (chThdSetPriority np k) = realprio (thd k (current k)) \<and>
    mtxk kd idle Y (snd (chThdSetPriority np k)) \<and> highest (snd (chThdSetPriority np k)) \<and>
    realprio (thd (snd (chThdSetPriority np k)) (current k)) = np"
proof -
  let ?c = "current k"
  let ?p = "if tprio k ?c = realprio (thd k ?c) \<or> np > tprio k ?c then np else tprio k ?c"
  let ?k = "upd_thd ?c (\<lambda>x. x\<lparr>prio := ?p, realprio := np\<rparr>) k"
  have i: "kinv kd idle {} k" and st: "mtx_struct kd k" and pi: "pi_ok kd X k" and j: "\<And>t. justified kd k t"
    using assms(1) by (simp_all add: mtxk_def)
  have eq: "chThdSetPriority np k = (realprio (thd k ?c), chSchRescheduleS ?k)"
    by (auto simp: chThdSetPriority_def Let_def upd_thd_def set_prio_def)
  have cq: "?c \<notin> set (qs k q)" for q using current_not_queued [OF i] by simp
  have wc: "w \<noteq> ?c" if "w \<in> set (qs k q)" for w q using cq that by auto
  have data: "tprio ?k x = (if x = ?c then ?p else tprio k x)" "realprio (thd ?k x) = (if x = ?c then np else realprio (thd k x))"
    "mtxlist (thd ?k x) = mtxlist (thd k x)" for x by simp_all
  have p0: "0 < ?p" using assms(2) i by (simp add: kinv_def)
  have i1: "kinv kd idle {?c} k" by (rule kinv_take [OF i cq])
  have i2: "kinv kd idle {?c} ?k"
    by (rule kinv_hand [OF i1]) (use p0 assms(2) in auto)
  have "placed kd ?k ?c" using current_state [OF i, of ?c] cq by (simp add: placed_def queued_def)
  moreover have "tstate ?k ?c = CH_STATE_CURRENT" using current_state [OF i] by simp
  ultimately have kin: "kinv kd idle {} ?k" by (intro kinv_settle [OF i2]) simp_all
  have "mtx_sorted kd ?k"
    unfolding mtx_sorted_def
  proof (intro allI impI)
    fix m assume "kd m = KMtx"
    then have "by_prio (tprio k) (qs k (QOBJ m))" using st unfolding mtx_struct_def by blast
    moreover have "by_prio (tprio ?k) (qs k (QOBJ m)) = by_prio (tprio k) (qs k (QOBJ m))"
      by (rule by_prio_cong) (use wc in auto)
    moreover have "qs ?k = qs k" by simp
    ultimately show "by_prio (tprio ?k) (qs ?k (QOBJ m))" by metis
  qed
  then have "mtx_struct kd ?k" by (intro mtx_struct_cong [OF st]) simp_all
  moreover have "pi_ok kd Y ?k"
    unfolding pi_ok_def
  proof (intro allI impI)
    fix m w assume a: "kd m = KMtx" "w \<in> set (qs ?k (QOBJ m))" "mtx_owner ?k m \<notin> Y"
    then have w: "w \<in> set (qs k (QOBJ m))" "w \<noteq> ?c" using wc by auto
    have nX: "mtx_owner k m \<notin> X" using a(3) Y by (auto split: if_splits)
    have le: "tprio k w \<le> tprio k (mtx_owner k m)" using pi a(1) w(1) nX by (simp add: pi_ok_def)
    have "tprio k w \<le> np" if "mtx_owner k m = ?c" "tprio k ?c = realprio (thd k ?c)"
      using that a(1,3) w(1) Y unfolding lowers_def by (auto simp: not_less split: if_splits)
    then show "tprio ?k w \<le> tprio ?k (mtx_owner ?k m)"
      using le w(2) by (auto simp: data)
  qed
  moreover have "justified kd ?k t" for t
  proof (cases "t = ?c")
    case False
    have wit: "mtx_owner ?k m = t \<and> w \<in> set (qs ?k (QOBJ m)) \<and> tprio ?k w = tprio ?k t"
      if "mtx_owner k m = t" "w \<in> set (qs k (QOBJ m))" "tprio k w = tprio k t" for m w
      using that wc [OF that(2)] False by simp
    have "tprio ?k t = tprio k t" "realprio (thd ?k t) = realprio (thd k t)" using False by simp_all
    then show ?thesis using j [of t] wit unfolding justified_def by metis
  next
    case True
    have wit: "mtx_owner ?k m = ?c \<and> w \<in> set (qs ?k (QOBJ m)) \<and> tprio ?k w = tprio k ?c"
      if "mtx_owner k m = ?c" "w \<in> set (qs k (QOBJ m))" "tprio k w = tprio k ?c" for m w
      using that wc [OF that(2)] by simp
    show ?thesis
    proof (cases "?p = np")
      case True
      then show ?thesis using \<open>t = ?c\<close> by (simp add: justified_def)
    next
      case False
      then have p: "?p = tprio k ?c" "tprio k ?c \<noteq> realprio (thd k ?c)" "np < tprio k ?c"
        by (auto split: if_splits)
      then have "tprio ?k ?c = tprio k ?c" "realprio (thd ?k ?c) = np" by simp_all
      then show ?thesis using j [of ?c] wit p(2,3) \<open>t = ?c\<close> unfolding justified_def by metis
    qed
  qed
  ultimately have "mtxk kd idle Y ?k" using kin by (simp add: mtxk_def)
  then show ?thesis using mtxj_reschedule [of kd idle Y ?k] by (simp add: eq)
qed

text \<open>
  chThdSetPriority returns the previous real priority, records the new one, and keeps all
  mutex invariants, ending with the thread of highest priority running; only the caller may end
  below a waiter of its mutexes, and only if its priority was not inherited (it equals the real one) and
  a thread that waits for one of its mutexes has a priority above the new one.
\<close>

theorem set_priority_correct:
  assumes "mtxk kd idle X k" and "0 < np"
  shows "fst (chThdSetPriority np k) = realprio (thd k (current k)) \<and>
    mtxk kd idle (if lowers kd np k then insert (current k) X else X) (snd (chThdSetPriority np k)) \<and>
    highest (snd (chThdSetPriority np k)) \<and>
    realprio (thd (snd (chThdSetPriority np k)) (current k)) = np"
  by (rule set_priority_inv [OF assms refl])

lemma set_priority_correct_witness:
  "fst (chThdSetPriority 50 boot) = NORMALPRIO \<and> highest (snd (chThdSetPriority 50 boot))"
  using set_priority_correct [of mtx_kind 2 "{}" boot 50, OF mtxk_boot] by (simp add: boot_simps boot_thread_def)

text \<open>
  In that case chThdSetPriority loses a priority inheritance.  The test
  \<open>prio == realprio\<close> does not tell that nobody waits: a thread of priority 128 owns a mutex
  that a thread of priority 100 waits for; setting the owner's priority to 50 leaves it running
  at 50, below the waiter it blocks.
\<close>

definition inherit_boot :: kernel where
  "inherit_boot = set_mtxlist 1 [100] (set_owner 100 1 (boot\<lparr>qs := (qs boot)(QOBJ 100 := [3]),
    thd := boot_thread(3 := (boot_thread 3)\<lparr>prio := 100, realprio := 100, state := CH_STATE_WTMTX, u := 100\<rparr>)\<rparr>))"

lemma inherit_boot_simps:
  "qs inherit_boot q = (if q = QOBJ 100 then [3] else if q = RLIST then [2] else [])"
  "current inherit_boot = 1" "mtx_owner inherit_boot m = (if m = 100 then 1 else NULL)"
  "thd inherit_boot t = (if t = 1 then (boot_thread 1)\<lparr>mtxlist := [100]\<rparr>
    else if t = 3 then (boot_thread 3)\<lparr>prio := 100, realprio := 100, state := CH_STATE_WTMTX, u := 100\<rparr>
    else boot_thread t)"
  by (simp_all add: inherit_boot_def boot_simps)

lemma mtxk_inherit_boot: "mtxk mtx_kind 2 {} inherit_boot"
proof -
  have "kinv mtx_kind 2 {} inherit_boot"
    by (auto simp: kinv_def queues_ok_def placed_def in_queue_def queued_def inherit_boot_simps
        boot_thread_def mtx_kind_def NORMALPRIO_def IDLEPRIO_def)
  moreover have "mtx_struct mtx_kind inherit_boot"
    by (auto simp: mtx_struct_def inherit_boot_simps boot_thread_def mtx_kind_def)
  moreover have "pi_ok mtx_kind {} inherit_boot"
    by (auto simp: pi_ok_def inherit_boot_simps boot_thread_def NORMALPRIO_def)
  moreover have "justified mtx_kind inherit_boot t" for t
    by (simp add: justified_def inherit_boot_simps boot_thread_def)
  ultimately show ?thesis by (simp add: mtxk_def)
qed

lemma set_priority_loses_inheritance:
  "mtxk mtx_kind 2 {} inherit_boot \<and> \<not> pi_ok mtx_kind {} (snd (chThdSetPriority 50 inherit_boot)) \<and>
    current (snd (chThdSetPriority 50 inherit_boot)) = 1 \<and>
    tprio (snd (chThdSetPriority 50 inherit_boot)) 1 = 50 \<and>
    3 \<in> set (qs (snd (chThdSetPriority 50 inherit_boot)) (QOBJ 100)) \<and>
    tprio (snd (chThdSetPriority 50 inherit_boot)) 3 = 100"
proof -
  let ?k = "snd (chThdSetPriority 50 inherit_boot)"
  have eq: "?k = upd_thd 1 (\<lambda>x. x\<lparr>realprio := 50\<rparr>) (set_prio 1 50 inherit_boot)"
    by (simp add: chThdSetPriority_def Let_def inherit_boot_simps boot_thread_def chSchRescheduleS_def
        chSchIsRescRequiredI_def firstprio_def IDLEPRIO_def)
  have f: "qs ?k (QOBJ 100) = [3]" "tprio ?k 3 = 100" "tprio ?k 1 = 50" "mtx_owner ?k 100 = 1" "current ?k = 1"
    unfolding eq by (simp_all add: inherit_boot_simps)
  then have "\<not> pi_ok mtx_kind {} ?k"
    unfolding pi_ok_def by (intro notI) (drule spec [of _ 100], simp add: mtx_kind_def)
  then show ?thesis using mtxk_inherit_boot f by simp
qed

section \<open>Searching the registry\<close>

definition ref_inc :: "ptr \<Rightarrow> kernel \<Rightarrow> kernel" where
  "ref_inc t = upd_thd t (\<lambda>x. x\<lparr>refs := refs x + 1\<rparr>)"

text \<open>A registry without exited threads that only wait for their last release.\<close>

definition reg_ok :: "kernel \<Rightarrow> bool" where
  "reg_ok k \<longleftrightarrow> distinct (registry k) \<and> NULL \<notin> set (registry k) \<and>
    (\<forall>t \<in> set (registry k). \<not> (refs (thd k t) = 0 \<and> tstate k t = CH_STATE_FINAL))"

lemma release_inc:
  assumes "\<not> (refs (thd k t) = 0 \<and> tstate k t = CH_STATE_FINAL)" and "n \<noteq> t"
  shows "chThdRelease t (ref_inc n (ref_inc t k)) = (Keep, ref_inc n k)"
    and "chThdRelease t (ref_inc t k) = (Keep, k)"
proof -
  have "upd_thd t (\<lambda>x. x\<lparr>refs := refs x - 1\<rparr>) (ref_inc n (ref_inc t k)) = ref_inc n k"
  proof -
    have "(thd k)(n := x, t := thd k t) = (thd k)(n := x)" for x
      using assms(2) by (simp add: fun_eq_iff)
    then show ?thesis using assms(2) by (simp add: ref_inc_def upd_thd_def fun_upd_twist [of t n])
  qed
  moreover have "upd_thd t (\<lambda>x. x\<lparr>refs := refs x - 1\<rparr>) (ref_inc t k) = k"
    by (simp add: ref_inc_def upd_thd_def)
  moreover have "refs (thd (ref_inc n k) t) = refs (thd k t)" "tstate (ref_inc n k) t = tstate k t"
    using assms(2) by (simp_all add: ref_inc_def)
  ultimately show "chThdRelease t (ref_inc n (ref_inc t k)) = (Keep, ref_inc n k)"
    "chThdRelease t (ref_inc t k) = (Keep, k)"
    using assms(1) by (auto simp: chThdRelease_def Let_def)
qed

lemma reg_next:
  assumes ok: "reg_ok k" and reg: "registry k = pre @ t # post"
  shows "chRegNextThread t (ref_inc t k) =
    (case post of [] \<Rightarrow> ((NULL, Keep), k) | n # _ \<Rightarrow> ((n, Keep), ref_inc n k))"
proof -
  have d: "t \<notin> set pre" "t \<notin> set post" using ok reg by (auto simp: reg_ok_def)
  have dw: "dropWhile (\<lambda>x. x \<noteq> t) (pre @ t # post) = t # post" using d(1) by (induction pre) auto
  have r: "reg_newer t (ref_inc t k) = (case post of [] \<Rightarrow> NULL | n # _ \<Rightarrow> n)"
    using dw by (simp add: reg_newer_def ref_inc_def reg split: list.splits)
  have nf: "\<not> (refs (thd k t) = 0 \<and> tstate k t = CH_STATE_FINAL)" using ok reg unfolding reg_ok_def by auto
  show ?thesis
  proof (cases post)
    case Nil
    have "t \<noteq> NULL" using ok reg by (auto simp: reg_ok_def)
    then show ?thesis using Nil r release_inc(2) [OF nf, of NULL] by (simp add: chRegNextThread_def Let_def)
  next
    case (Cons n ns)
    have n: "n \<noteq> NULL" "n \<noteq> t" using ok reg d Cons by (auto simp: reg_ok_def)
    then show ?thesis using Cons r release_inc(1) [OF nf n(2)]
      by (simp add: chRegNextThread_def Let_def ref_inc_def [of n, symmetric])
  qed
qed

lemma reg_find_loop:
  assumes P: "\<And>x y r. P x (y\<lparr>refs := r\<rparr>) = P x y" and ok: "reg_ok k"
  shows "registry k = pre @ t # post \<Longrightarrow> \<exists>rs'. set rs' \<subseteq> {Keep} \<and>
    chRegFind_loop P t rs (ref_inc t k) =
      Some (case filter (\<lambda>x. P x (thd k x)) (t # post) of
        [] \<Rightarrow> (NULL, rs @ rs', k) | x # _ \<Rightarrow> (x, rs @ rs', ref_inc x k))"
proof (induction post arbitrary: pre t rs)
  case Nil
  have "P t (thd (ref_inc t k) t) = P t (thd k t)" using P by (simp add: ref_inc_def)
  then show ?case
    using reg_next [OF ok Nil] by (subst chRegFind_loop.simps) (auto intro: exI [of _ "[]"] exI [of _ "[Keep]"])
next
  case (Cons n post)
  have Pt: "P t (thd (ref_inc t k) t) = P t (thd k t)" using P by (simp add: ref_inc_def)
  show ?case
  proof (cases "P t (thd k t)")
    case True
    then show ?thesis using Pt by (subst chRegFind_loop.simps) (auto intro: exI [of _ "[]"])
  next
    case False
    have n: "n \<noteq> NULL" using ok Cons.prems by (auto simp: reg_ok_def)
    have "registry k = (pre @ [t]) @ n # post" using Cons.prems by simp
    from Cons.IH [OF this, of "rs @ [Keep]"] obtain rs' where rs': "set rs' \<subseteq> {Keep}"
      "chRegFind_loop P n (rs @ [Keep]) (ref_inc n k) =
        Some (case filter (\<lambda>x. P x (thd k x)) (n # post) of
          [] \<Rightarrow> (NULL, (rs @ [Keep]) @ rs', k) | x # _ \<Rightarrow> (x, (rs @ [Keep]) @ rs', ref_inc x k))" by blast
    have "chRegFind_loop P t rs (ref_inc t k) = chRegFind_loop P n (rs @ [Keep]) (ref_inc n k)"
      using False Pt n reg_next [OF ok Cons.prems] by (subst chRegFind_loop.simps) simp
    then show ?thesis
      using rs' False by (intro exI [of _ "Keep # rs'"]) (simp split: list.splits)
  qed
qed

lemma reg_find_first:
  assumes "\<And>x y r. P x (y\<lparr>refs := r\<rparr>) = P x y" and "reg_ok k" and reg: "registry k = t # post"
  shows "\<exists>rs. chRegFind_loop P t [] (ref_inc t k) =
    Some (case filter (\<lambda>x. P x (thd k x)) (registry k) of
      [] \<Rightarrow> (NULL, rs, k) | x # _ \<Rightarrow> (x, rs, ref_inc x k)) \<and> set rs \<subseteq> {Keep}"
proof -
  have "registry k = [] @ t # post" using reg by simp
  from reg_find_loop [of P k "[]" t post "[]", OF assms(1,2) this] show ?thesis
    unfolding reg append_Nil by blast
qed

text \<open>
  Searching the registry terminates and returns the oldest thread with the wanted name,
  address or working area, holding one new reference to it and to no other thread; when there
  is none it returns NULL and leaves every reference count as it was.
\<close>

theorem registry_find_correct:
  assumes "reg_ok k" and "registry k \<noteq> []"
  shows "(\<exists>rs. chRegFindThreadByName nm k =
      Some (case filter (\<lambda>x. tname (thd k x) = nm) (registry k) of
        [] \<Rightarrow> (NULL, rs, k) | x # _ \<Rightarrow> (x, rs, ref_inc x k)) \<and> set rs \<subseteq> {Keep}) \<and>
    (\<exists>rs. chRegFindThreadByPointer tp k =
      Some (if tp \<in> set (registry k) then (tp, rs, ref_inc tp k) else (NULL, rs, k)) \<and> set rs \<subseteq> {Keep}) \<and>
    (\<exists>rs. chRegFindThreadByWorkingArea wa k =
      Some (case filter (\<lambda>x. wabase (thd k x) = wa) (registry k) of
        [] \<Rightarrow> (NULL, rs, k) | x # _ \<Rightarrow> (x, rs, ref_inc x k)) \<and> set rs \<subseteq> {Keep})"
proof -
  obtain t post where reg: "registry k = t # post" using assms(2) by (cases "registry k") auto
  have first: "chRegFirstThread k = (t, ref_inc t k)"
    using reg by (simp add: chRegFirstThread_def ref_inc_def Let_def)
  have d: "distinct (registry k)" using assms(1) by (simp add: reg_ok_def)
  have fp: "filter (\<lambda>x. x = tp) xs = (if tp \<in> set xs then [tp] else [])" if "distinct xs" for xs :: "ptr list"
    using that by (induction xs) (auto simp: filter_empty_conv)
  have "\<exists>rs. chRegFindThreadByPointer tp k =
      Some (case filter (\<lambda>x. x = tp) (registry k) of
        [] \<Rightarrow> (NULL, rs, k) | x # _ \<Rightarrow> (x, rs, ref_inc x k)) \<and> set rs \<subseteq> {Keep}"
    using reg_find_first [of "\<lambda>x _. x = tp", OF _ assms(1) reg]
    by (simp add: chRegFindThreadByPointer_def first)
  then have 2: "\<exists>rs. chRegFindThreadByPointer tp k =
      Some (if tp \<in> set (registry k) then (tp, rs, ref_inc tp k) else (NULL, rs, k)) \<and> set rs \<subseteq> {Keep}"
    unfolding fp [OF d] by (cases "tp \<in> set (registry k)") simp_all
  show ?thesis
    using reg_find_first [of "\<lambda>_ x. tname x = nm", OF _ assms(1) reg] 2
      reg_find_first [of "\<lambda>_ x. wabase x = wa", OF _ assms(1) reg]
    by (simp add: chRegFindThreadByName_def chRegFindThreadByWorkingArea_def first)
qed

lemma registry_find_correct_witness:
  "\<exists>rs. chRegFindThreadByPointer 2 boot = Some (2, rs, ref_inc 2 boot)"
  using registry_find_correct [of boot "[]" 2 0] by (auto simp: reg_ok_def boot_simps boot_thread_def)

end
