(* ===== verification/Conds.thy ===== *)
theory Conds
  imports Mutexes
begin

text \<open>
  Condition variables (chcond.c), waited on with a mutex locked.  A waiter releases its last
  mutex, sleeps in priority order in the queue of the condition variable and locks the mutex
  again when it is woken, except after a timeout.
\<close>

section \<open>Operations\<close>

definition chCondObjectInit :: "ptr \<Rightarrow> kernel \<Rightarrow> kernel" where
  "chCondObjectInit cp k = queue_init (QOBJ cp) k"

definition chCondSignal :: "ptr \<Rightarrow> kernel \<Rightarrow> kernel" where
  "chCondSignal cp k =
    (if queue_notempty (QOBJ cp) k
     then (let (t, k) = queue_fifo_remove (QOBJ cp) k in chSchWakeupS t MSG_OK k)
     else k)"

definition chCondSignalI :: "ptr \<Rightarrow> kernel \<Rightarrow> kernel" where
  "chCondSignalI cp k =
    (if queue_notempty (QOBJ cp) k
     then (let (t, k) = queue_fifo_remove (QOBJ cp) k in chSchReadyI t (set_u t MSG_OK k))
     else k)"

function chCondBroadcastI :: "ptr \<Rightarrow> kernel \<Rightarrow> kernel" where
  "chCondBroadcastI cp k =
    (if queue_notempty (QOBJ cp) k
     then (let (t, k) = queue_fifo_remove (QOBJ cp) k
           in chCondBroadcastI cp (set_u t MSG_RESET (chSchReadyI t k)))
     else k)"
  by pat_completeness auto
termination
  by (relation "measure (\<lambda>(q, k). length (qs k (QOBJ q)))")
    (auto simp: queue_notempty_def queue_fifo_remove_def q_prio_insert_def split: list.splits)

declare chCondBroadcastI.simps [simp del]

definition chCondBroadcast :: "ptr \<Rightarrow> kernel \<Rightarrow> kernel" where
  "chCondBroadcast cp k = chSchRescheduleS (chCondBroadcastI cp k)"

text \<open>The part up to the switch; the result names the mutex the resumed call locks again.\<close>

definition chCondWaitS :: "ptr \<Rightarrow> kernel \<Rightarrow> ptr \<times> kernel" where
  "chCondWaitS cp k =
    (let ctp = current k;
         mp = chMtxGetNextMutexS k;
         k = chMtxUnlockS mp k;
         k = set_u ctp cp k;
         k = queue_prio_insert ctp (QOBJ cp) k
     in (mp, chSchGoSleepS CH_STATE_WTCOND k))"

text \<open>
  The part after the switch: the message is read, then the mutex is locked, which may switch
  again; the call returns the message in both cases.
\<close>

definition chCondWaitS_resume :: "ptr \<Rightarrow> kernel \<Rightarrow> (msg \<times> unit outcome) \<times> kernel" where
  "chCondWaitS_resume mp k =
    (let m = u (thd k (current k));
         (r, k) = chMtxLockS mp k
     in ((m, r), k))"

definition chCondWaitTimeoutS :: "ptr \<Rightarrow> systime \<Rightarrow> kernel \<Rightarrow> ptr \<times> kernel" where
  "chCondWaitTimeoutS cp time k =
    (let mp = chMtxGetNextMutexS k;
         k = chMtxUnlockS mp k;
         k = set_u (current k) cp k;
         k = queue_prio_insert (current k) (QOBJ cp) k
     in (mp, chSchGoSleepTimeoutS CH_STATE_WTCOND time k))"

definition chCondWaitTimeoutS_resume :: "ptr \<Rightarrow> systime \<Rightarrow> kernel \<Rightarrow> (msg \<times> unit outcome) \<times> kernel" where
  "chCondWaitTimeoutS_resume mp time k =
    (let (m, k) = chSchGoSleepTimeoutS_resume time k
     in if m \<noteq> MSG_TIMEOUT then (let (r, k) = chMtxLockS mp k in ((m, r), k))
        else ((m, Ret ()), k))"

definition chCondWait :: "ptr \<Rightarrow> kernel \<Rightarrow> ptr \<times> kernel" where
  "chCondWait cp k = chCondWaitS cp k"

definition chCondWaitTimeout :: "ptr \<Rightarrow> systime \<Rightarrow> kernel \<Rightarrow> ptr \<times> kernel" where
  "chCondWaitTimeout cp time k = chCondWaitTimeoutS cp time k"

section \<open>The mutex invariant only sees the mutexes\<close>

definition null_ok :: "kernel \<Rightarrow> bool" where
  "null_ok k \<longleftrightarrow> current k \<noteq> NULL \<and> (\<forall>q. NULL \<notin> set (qs k q))"

lemma mtxk_null_ok: "mtxk kd idle X k \<Longrightarrow> null_ok k"
  unfolding mtxk_def mtx_struct_def null_ok_def by blast

lemma mtxk_view:
  assumes m: "mtxk kd idle X k" and i: "kinv kd idle {} k'" and n: "null_ok k'"
    and q: "\<And>p. kd p = KMtx \<Longrightarrow> qs k' (QOBJ p) = qs k (QOBJ p)" and ow: "mtx_owner k' = mtx_owner k"
    and d: "\<And>t. tprio k' t = tprio k t" "\<And>t. realprio (thd k' t) = realprio (thd k t)"
      "\<And>t. mtxlist (thd k' t) = mtxlist (thd k t)"
  shows "mtxk kd idle X k'"
proof -
  have "mtx_struct kd k'"
    using m n unfolding mtxk_def mtx_struct_def null_ok_def by (simp add: q ow d)
  moreover have "pi_ok kd X k'" using m unfolding mtxk_def pi_ok_def by (simp add: q ow d)
  moreover have "justified kd k' t" for t
  proof -
    have "justified kd k t" using m by (simp add: mtxk_def)
    then show ?thesis unfolding justified_def d ow using q by metis
  qed
  ultimately show ?thesis using i by (simp add: mtxk_def)
qed

lemma null_ok_sleep:
  assumes "null_ok k" and "qs k RLIST \<noteq> []"
  shows "null_ok (chSchGoSleepS st k)"
proof -
  obtain t r where q: "qs k RLIST = t # r" using assms(2) by (cases "qs k RLIST") auto
  have "t \<noteq> NULL" "\<And>x. NULL \<notin> set (qs k x)" using assms(1) q unfolding null_ok_def by (metis list.set_intros(1), metis)
  moreover have "current (chSchGoSleepS st k) = t"
    using q by (simp add: chSchGoSleepS_def take_first_fields)
  moreover have "NULL \<notin> set r" using assms(1) q unfolding null_ok_def by (metis list.set_intros(2))
  ultimately show ?thesis using q unfolding null_ok_def by simp
qed

lemma null_ok_wake:
  assumes "null_ok k" and "t \<noteq> NULL"
  shows "null_ok (chSchReadyI t k)" "null_ok (set_u t' m k)" "null_ok (queue_dequeue t' k)"
    "null_ok (chSchWakeupS t m k)"
proof -
  show a: "null_ok (chSchReadyI t k)" using assms by (simp add: null_ok_def q_prio_insert_def)
  show "null_ok (set_u t' m k)" using assms by (simp add: null_ok_def)
  show "null_ok (queue_dequeue t' k)"
    using assms(1) notin_set_remove1 by (fastforce simp: null_ok_def q_dequeue_def)
  show "null_ok (chSchWakeupS t m k)"
    using assms by (auto simp: null_ok_def chSchWakeupS_def Let_def q_prio_insert_def)
qed

section \<open>Waiting\<close>

lemma mtxk_block_cond:
  assumes m: "mtxk kd idle X k" and kd: "kd cp = KCond" and idle: "current k \<noteq> idle"
  defines "k' \<equiv> chSchGoSleepS CH_STATE_WTCOND (queue_prio_insert (current k) (QOBJ cp) (set_u (current k) cp k))"
  shows "mtxk kd idle X k' \<and> highest k' \<and> current k \<in> set (qs k' (QOBJ cp)) \<and> mtx_owner k' = mtx_owner k"
proof -
  let ?k = "queue_prio_insert (current k) (QOBJ cp) (set_u (current k) cp k)"
  have i: "kinv kd idle {} k" using m by (simp add: mtxk_def)
  have b: "kinv kd idle {} k' \<and> highest k'"
    unfolding k'_def using kinv_block [OF i idle, of CH_STATE_WTCOND cp cp queue_prio_insert] kd by simp
  have n: "null_ok ?k" using mtxk_null_ok [OF m] by (auto simp: null_ok_def q_prio_insert_def)
  have "qs k RLIST \<noteq> []" using ready_nonempty [OF i] idle by auto
  then have "null_ok k'" unfolding k'_def by (intro null_ok_sleep [OF n]) (simp add: q_prio_insert_def)
  moreover have "qs k' (QOBJ p) = qs k (QOBJ p)" if "kd p = KMtx" for p
    using that kd by (auto simp: k'_def q_prio_insert_def)
  moreover have "mtx_owner k' = mtx_owner k" "tprio k' t = tprio k t" "realprio (thd k' t) = realprio (thd k t)"
    "mtxlist (thd k' t) = mtxlist (thd k t)" for t by (simp_all add: k'_def)
  ultimately have "mtxk kd idle X k'" using b by (intro mtxk_view [OF m]) simp_all
  then show ?thesis using b by (simp add: k'_def q_prio_insert_def)
qed

text \<open>
  Waiting on a condition variable with a mutex locked.  The last mutex is handed to its
  first waiter or freed and the caller is switched out in the queue of the condition variable,
  atomically and with all mutex invariants; when it runs again it returns the message it was
  woken with and owns the mutex if it was free, else waits for it.
\<close>

theorem cond_wait_correct:
  assumes "mtxk kd idle X k" and "mtxlist (thd k (current k)) = mp # ms" and "kd cp = KCond"
    and "current k \<noteq> idle" and "mtxk kd idle X k2" and "current k2 \<noteq> idle"
  shows "fst (chCondWaitS cp k) = mp \<and> mtxk kd idle X (snd (chCondWaitS cp k)) \<and>
    highest (snd (chCondWaitS cp k)) \<and> current k \<in> set (qs (snd (chCondWaitS cp k)) (QOBJ cp)) \<and>
    mtx_owner (snd (chCondWaitS cp k)) =
      (mtx_owner k)(mp := (case qs k (QOBJ mp) of [] \<Rightarrow> NULL | t # _ \<Rightarrow> t)) \<and>
    mtxk kd idle X (snd (chCondWaitS_resume mp k2)) \<and>
    fst (fst (chCondWaitS_resume mp k2)) = u (thd k2 (current k2)) \<and>
    (mtx_owner k2 mp = NULL \<longrightarrow> snd (fst (chCondWaitS_resume mp k2)) = Ret () \<and>
      mtx_owner (snd (chCondWaitS_resume mp k2)) mp = current k2)"
proof -
  have kd: "kd mp = KMtx" using assms(1,2) unfolding mtxk_def mtx_struct_def by (metis list.set_intros(1))
  note ul = unlock_inv [OF assms(1,2)]
  have mp: "chMtxGetNextMutexS k = mp" using assms(2) by (simp add: chMtxGetNextMutexS_def)
  have eq: "chCondWaitS cp k = (mp, chSchGoSleepS CH_STATE_WTCOND
      (queue_prio_insert (current k) (QOBJ cp) (set_u (current k) cp (chMtxUnlockS mp k))))"
    by (simp add: chCondWaitS_def Let_def mp)
  have lk: "mtxk kd idle X (snd (chMtxLockS mp k2))"
    using lock_free [OF assms(5) kd] lock_contended [OF assms(5) kd assms(6)]
    by (cases "mtx_owner k2 mp = NULL") (simp_all add: chMtxLockS_def [of mp k2] Let_def)
  have idle: "current (chMtxUnlockS mp k) \<noteq> idle" using ul assms(4) by simp
  show ?thesis
    using mtxk_block_cond [of kd idle X "chMtxUnlockS mp k" cp] ul assms(3) idle lk
    by (auto simp: eq chCondWaitS_resume_def split_beta Let_def chMtxLockS_def)
qed

definition cond_kind :: "ptr \<Rightarrow> okind" where
  "cond_kind p = (if p = 100 then KMtx else if p = 200 then KCond else KQueue)"

lemma mtxk_cond_boot: "mtxk cond_kind 2 {} boot"
  using kinv_boot by (auto simp: mtxk_def mtx_struct_def pi_ok_def justified_def boot_simps boot_thread_def)

lemma mtxk_cond_own: "mtxk cond_kind 2 {} own_boot \<and> mtxlist (thd own_boot (current own_boot)) = [100] \<and> current own_boot = 1"
proof -
  have e: "own_boot = set_mtxlist 1 [100] (set_owner 100 1 boot)"
    by (simp add: own_boot_def chMtxLockS_def boot_simps boot_thread_def Let_def)
  have "mtxlist (thd boot (current boot)) = []" by (simp add: boot_simps boot_thread_def)
  then have "mtxk cond_kind 2 {} own_boot"
    using lock_free [OF mtxk_cond_boot, of 100] unfolding e by (simp add: boot_simps cond_kind_def)
  then show ?thesis by (simp add: e boot_simps)
qed

lemma cond_wait_correct_witness:
  "fst (chCondWaitS 200 own_boot) = 100 \<and> 1 \<in> set (qs (snd (chCondWaitS 200 own_boot)) (QOBJ 200))"
proof -
  have b: "current boot \<noteq> 2" "cond_kind 200 = KCond" by (simp_all add: boot_simps cond_kind_def)
  have o: "mtxk cond_kind 2 {} own_boot" "mtxlist (thd own_boot (current own_boot)) = [100]" "current own_boot \<noteq> 2"
    "current own_boot = 1" using mtxk_cond_own by auto
  from cond_wait_correct [OF o(1,2) b(2) o(3) mtxk_cond_boot b(1)] o(4) show ?thesis by simp
qed

section \<open>Signalling\<close>

lemma mtxk_release_cond:
  assumes m: "mtxk kd idle X k" and kd: "kd cp = KCond" and q: "qs k (QOBJ cp) = t # r"
  shows "mtxk kd idle X (chSchReadyI t (set_u t w (queue_dequeue t k))) \<and>
    mtxk kd idle X (set_u t w (chSchReadyI t (queue_dequeue t k))) \<and>
    mtxk kd idle X (chSchWakeupS t w (queue_dequeue t k))"
proof -
  have i: "kinv kd idle {} k" using m by (simp add: mtxk_def)
  have t: "t \<in> set (qs k (QOBJ cp))" using q by simp
  have n: "null_ok k" and tn: "t \<noteq> NULL" using mtxk_null_ok [OF m] t unfolding null_ok_def by auto
  have nd: "null_ok (queue_dequeue t k)" by (rule null_ok_wake(3) [OF n tn])
  have other: "q_dequeue t (qs k) (QOBJ p) = qs k (QOBJ p)" if "kd p = KMtx" for p
  proof -
    have "p \<noteq> cp" using that kd by auto
    then show ?thesis using q_dequeue_other [of "qs k" t "QOBJ cp" "QOBJ p"] kinv_queues [OF i] t by simp
  qed
  note r = kinv_release [OF i t, of w]
  have "mtxk kd idle X (chSchReadyI t (set_u t w (queue_dequeue t k)))"
    by (rule mtxk_view [OF m]) (use r other null_ok_wake(1) [OF null_ok_wake(2) [OF nd tn] tn] in \<open>auto simp: q_prio_insert_def\<close>)
  moreover have "mtxk kd idle X (set_u t w (chSchReadyI t (queue_dequeue t k)))"
    by (rule mtxk_view [OF m]) (use r other null_ok_wake(2) [OF null_ok_wake(1) [OF nd tn] tn] in \<open>auto simp: q_prio_insert_def\<close>)
  moreover have "mtxk kd idle X (chSchWakeupS t w (queue_dequeue t k))"
    by (rule mtxk_view [OF m]) (use r other null_ok_wake(4) [OF nd tn] in auto)
  ultimately show ?thesis by blast
qed

lemma broadcast_inv:
  "mtxk kd idle X k \<Longrightarrow> kd cp = KCond \<Longrightarrow>
    mtxk kd idle X (chCondBroadcastI cp k) \<and> qs (chCondBroadcastI cp k) (QOBJ cp) = [] \<and>
    current (chCondBroadcastI cp k) = current k \<and>
    thd (chCondBroadcastI cp k) = (\<lambda>t. if t \<in> set (qs k (QOBJ cp))
      then (thd k t)\<lparr>u := MSG_RESET, state := CH_STATE_READY\<rparr> else thd k t)"
proof (induction "qs k (QOBJ cp)" arbitrary: k)
  case Nil
  then have "chCondBroadcastI cp k = k"
    by (subst chCondBroadcastI.simps) (simp add: queue_notempty_def)
  then show ?case using Nil by simp
next
  case (Cons t r)
  have q: "qs k (QOBJ cp) = t # r" using Cons.hyps(2) by simp
  have i: "kinv kd idle {} k" using Cons.prems by (simp add: mtxk_def)
  let ?k = "set_u t MSG_RESET (chSchReadyI t (queue_dequeue t k))"
  have step: "chCondBroadcastI cp k = chCondBroadcastI cp ?k"
    using q fifo_remove_eq [OF i q] by (subst chCondBroadcastI.simps) (simp add: queue_notempty_def)
  have qk: "qs ?k (QOBJ cp) = r" using q by (simp add: q_prio_insert_def q_dequeue_def)
  have tr: "t \<notin> set r" using kinv_queues [OF i] q unfolding queues_ok_def by (metis distinct.simps(2))
  have "mtxk kd idle X ?k" using mtxk_release_cond [OF Cons.prems q] by blast
  from Cons.hyps(1) [OF qk [symmetric] this Cons.prems(2)] show ?case
    unfolding step using qk q tr by (auto simp: fun_eq_iff)
qed

text \<open>
  chCondSignal wakes the first waiter of the queue with MSG_OK, and chCondBroadcast returns
  after waking all of them with MSG_RESET; without waiters they change nothing.  All mutex
  invariants are kept and the thread of highest priority runs.
\<close>

theorem cond_signal_correct:
  assumes "mtxk kd idle X k" and "kd cp = KCond" and "highest k"
  shows "mtxk kd idle X (chCondSignal cp k) \<and> mtxk kd idle X (chCondSignalI cp k) \<and> highest (chCondSignal cp k) \<and>
    (case qs k (QOBJ cp) of
       [] \<Rightarrow> chCondSignal cp k = k \<and> chCondSignalI cp k = k
     | t # r \<Rightarrow> u (thd (chCondSignal cp k) t) = MSG_OK \<and> qs (chCondSignal cp k) (QOBJ cp) = r \<and>
         qs (chCondSignalI cp k) (QOBJ cp) = r) \<and>
    mtxk kd idle X (chCondBroadcast cp k) \<and> highest (chCondBroadcast cp k) \<and>
    qs (chCondBroadcast cp k) (QOBJ cp) = [] \<and>
    (\<forall>t \<in> set (qs k (QOBJ cp)). u (thd (chCondBroadcast cp k) t) = MSG_RESET)"
proof -
  have i: "kinv kd idle {} k" using assms(1) by (simp add: mtxk_def)
  note b = broadcast_inv [OF assms(1,2)]
  have br: "mtxk kd idle X (chCondBroadcast cp k) \<and> highest (chCondBroadcast cp k) \<and>
    qs (chCondBroadcast cp k) (QOBJ cp) = [] \<and>
    (\<forall>t \<in> set (qs k (QOBJ cp)). u (thd (chCondBroadcast cp k) t) = MSG_RESET)"
    using b mtxj_reschedule [of kd idle X "chCondBroadcastI cp k"] by (simp add: chCondBroadcast_def)
  show ?thesis
  proof (cases "qs k (QOBJ cp)")
    case Nil
    then have "chCondSignal cp k = k" "chCondSignalI cp k = k"
      by (simp_all add: chCondSignal_def chCondSignalI_def queue_notempty_def)
    then show ?thesis using Nil br assms by simp
  next
    case (Cons t r)
    then have t: "t \<in> set (qs k (QOBJ cp))" by simp
    have "chCondSignal cp k = chSchWakeupS t MSG_OK (queue_dequeue t k)"
      "chCondSignalI cp k = chSchReadyI t (set_u t MSG_OK (queue_dequeue t k))"
      using Cons fifo_remove_eq [OF i Cons] by (simp_all add: chCondSignal_def chCondSignalI_def queue_notempty_def)
    then show ?thesis
      using Cons br assms mtxk_release_cond [OF assms(1,2) Cons, of MSG_OK] kinv_release [OF i t, of MSG_OK]
      by (simp add: q_dequeue_def q_prio_insert_def)
  qed
qed

lemma cond_signal_correct_witness:
  "chCondSignal 200 boot = boot \<and> mtxk cond_kind 2 {} (chCondBroadcast 200 boot)"
proof -
  have "cond_kind 200 = KCond" by (simp add: cond_kind_def)
  from cond_signal_correct [OF mtxk_cond_boot this highest_boot] show ?thesis by (simp add: boot_simps)
qed

end
