(* ===== verification/Messages.thy ===== *)
theory Messages
  imports Kernel
begin

text \<open>
  Synchronous messages (chmsg.c, chmsg.h), with \<open>CH_CFG_USE_MESSAGES_PRIORITY\<close> off: a sender
  queues at the receiver, sleeps until the receiver has fetched and released it, and returns
  the message the receiver answers.
\<close>

section \<open>Operations\<close>

definition chMsgSend :: "ptr \<Rightarrow> msg \<Rightarrow> kernel \<Rightarrow> msg outcome \<times> kernel" where
  "chMsgSend tp m k =
    (let ctp = current k;
         k = set_u ctp m k;
         k = queue_insert ctp (MSGQ tp) k;
         k = (if tstate k tp = CH_STATE_WTMSG then chSchReadyI tp k else k)
     in (Switched, chSchGoSleepS CH_STATE_SNDMSGQ k))"

definition chMsgSend_resume :: "kernel \<Rightarrow> msg" where
  "chMsgSend_resume k = u (thd k (current k))"

definition chMsgIsPendingI :: "ptr \<Rightarrow> kernel \<Rightarrow> bool" where
  "chMsgIsPendingI tp k \<longleftrightarrow> qs k (MSGQ tp) \<noteq> []"

definition chMsgWait_resume :: "kernel \<Rightarrow> ptr \<times> kernel" where
  "chMsgWait_resume k =
    (let (tp, k) = queue_fifo_remove (MSGQ (current k)) k
     in (tp, set_state tp CH_STATE_SNDMSG k))"

definition chMsgWait :: "kernel \<Rightarrow> ptr outcome \<times> kernel" where
  "chMsgWait k =
    (if \<not> chMsgIsPendingI (current k) k then (Switched, chSchGoSleepS CH_STATE_WTMSG k)
     else (let (tp, k) = chMsgWait_resume k in (Ret tp, k)))"

definition chMsgGet :: "ptr \<Rightarrow> kernel \<Rightarrow> msg" where
  "chMsgGet tp k = u (thd k tp)"

definition chMsgReleaseS :: "ptr \<Rightarrow> msg \<Rightarrow> kernel \<Rightarrow> kernel" where
  "chMsgReleaseS tp m k = chSchWakeupS tp m k"

definition chMsgRelease :: "ptr \<Rightarrow> msg \<Rightarrow> kernel \<Rightarrow> kernel" where
  "chMsgRelease tp m k = chMsgReleaseS tp m k"

section \<open>Sending\<close>

lemma send_inv:
  fixes m :: msg
  assumes i: "kinv kd idle {} k" and idle: "current k \<noteq> idle" and tc: "tp \<noteq> current k"
  defines "k' \<equiv> snd (chMsgSend tp m k)"
  shows "kinv kd idle {} k' \<and> highest k' \<and> qs k' (MSGQ tp) = qs k (MSGQ tp) @ [current k] \<and>
    u (thd k' (current k)) = m \<and> tstate k' (current k) = CH_STATE_SNDMSGQ \<and>
    (tstate k tp = CH_STATE_WTMSG \<longrightarrow> tstate k' tp \<in> {CH_STATE_READY, CH_STATE_CURRENT})"
proof -
  let ?c = "current k"
  have cq: "?c \<notin> set (qs k q)" for q using current_not_queued [OF i] by simp
  have i1: "kinv kd idle {?c} (set_u ?c m k)" using kinv_take [OF i cq] by blast
  have nq: "\<not> in_queue (set_u ?c m k) ?c" using cq by (simp add: in_queue_def)
  let ?k1 = "queue_insert ?c (MSGQ tp) (set_u ?c m k)"
  have i2: "kinv kd idle {?c} ?k1" by (rule kinv_queue_insert [OF i1 _ nq]) simp_all
  define k2 where "k2 = (if tstate ?k1 tp = CH_STATE_WTMSG then chSchReadyI tp ?k1 else ?k1)"
  have i3: "kinv kd idle {?c} k2"
  proof (cases "tstate ?k1 tp = CH_STATE_WTMSG")
    case True
    then have "\<not> queued (tstate k tp)" using tc by (simp add: queued_def)
    then have tq: "tp \<notin> set (qs k q)" for q using not_queued_state [OF i, of tp q] by simp
    then have tq1: "tp \<notin> set (qs ?k1 q)" for q using tc by (simp add: q_insert_def)
    have "kinv kd idle {tp, ?c} ?k1" using kinv_take [OF i2 tq1] by simp
    then have "kinv kd idle ({?c} - {tp}) (chSchReadyI tp ?k1)"
      by (intro kinv_chSchReadyI) (use tq1 tc in \<open>simp_all add: in_queue_def\<close>)
    then show ?thesis using True tc by (simp add: k2_def)
  qed (use i2 in \<open>simp add: k2_def\<close>)
  have mem: "?c \<in> set (qs k2 q) \<longleftrightarrow> q = MSGQ tp" for q
    using cq tc by (auto simp: k2_def q_insert_def q_prio_insert_def split: if_splits)
  have c2: "current k2 = ?c" by (simp add: k2_def)
  have gs: "kinv kd idle {} (chSchGoSleepS CH_STATE_SNDMSGQ k2) \<and> highest (chSchGoSleepS CH_STATE_SNDMSGQ k2) \<and>
      current (chSchGoSleepS CH_STATE_SNDMSGQ k2) = hd (qs k2 RLIST) \<and> hd (qs k2 RLIST) \<noteq> ?c"
    using kinv_chSchGoSleepS [of kd idle k2 CH_STATE_SNDMSGQ] i3 mem c2 idle by (auto simp: in_queue_def)
  have k': "k' = chSchGoSleepS CH_STATE_SNDMSGQ k2" by (simp add: k'_def chMsgSend_def Let_def k2_def)
  have "idle \<notin> {?c}" "idle \<noteq> current k2" using idle c2 by simp_all
  then have ne: "qs k2 RLIST \<noteq> []" using ready_nonempty [OF i3] by blast
  have hc: "hd (qs k2 RLIST) \<noteq> current k2" using gs c2 by simp
  note th = chSchGoSleepS_thd [OF ne hc, of CH_STATE_SNDMSGQ]
  have q: "qs k' (MSGQ tp) = qs k (MSGQ tp) @ [?c]"
    by (simp add: k' k2_def q_insert_def q_prio_insert_def)
  have uu: "u (thd k' ?c) = m" using tc by (simp add: k' k2_def)
  have st: "tstate k' ?c = CH_STATE_SNDMSGQ" unfolding k' th c2 by simp
  have rt: "tstate k' tp \<in> {CH_STATE_READY, CH_STATE_CURRENT}" if "tstate k tp = CH_STATE_WTMSG"
  proof -
    have "tstate k2 tp = CH_STATE_READY" using that tc by (simp add: k2_def)
    then show ?thesis unfolding k' th c2 using tc by auto
  qed
  show ?thesis using gs k' q uu st rt by simp
qed

lemma receive_inv:
  assumes i: "kinv kd idle {} k" and q: "qs k (MSGQ (current k)) = t # r"
  shows "chMsgWait k = (Ret t, snd (chMsgWait k)) \<and> kinv kd idle {} (snd (chMsgWait k)) \<and>
    qs (snd (chMsgWait k)) (MSGQ (current k)) = r \<and> u (thd (snd (chMsgWait k)) t) = u (thd k t) \<and>
    tstate (snd (chMsgWait k)) t = CH_STATE_SNDMSG \<and> current (snd (chMsgWait k)) = current k"
proof -
  have t: "t \<in> set (qs k (MSGQ (current k)))" using q by simp
  have eq: "chMsgWait k = (Ret t, set_state t CH_STATE_SNDMSG (queue_dequeue t k))"
    using fifo_remove_eq [OF i q] q by (simp add: chMsgWait_def chMsgIsPendingI_def chMsgWait_resume_def)
  have i1: "kinv kd idle {t} (set_state t CH_STATE_SNDMSG (queue_dequeue t k))"
    using kinv_dequeue_take [OF i, of t] by auto
  have "t \<noteq> current k" by (rule queued_not_current [OF i t])
  moreover have "t \<notin> set (q_dequeue t (qs k) x)" for x using q_dequeue_mem [OF kinv_queues [OF i]] by simp
  ultimately have "placed kd (set_state t CH_STATE_SNDMSG (queue_dequeue t k)) t"
    by (simp add: placed_def queued_def)
  moreover have "t \<noteq> idle"
  proof
    assume "t = idle"
    then have "tstate k t \<in> {CH_STATE_READY, CH_STATE_CURRENT}" using i by (simp add: kinv_def)
    moreover have "allowed kd (tstate k t) (u (thd k t)) (MSGQ (current k))"
      using kinv_placed [OF i, of t] t by (simp add: placed_def)
    ultimately show False by auto
  qed
  ultimately have "kinv kd idle {} (set_state t CH_STATE_SNDMSG (queue_dequeue t k))"
    by (intro kinv_settle [OF i1]) simp_all
  then show ?thesis using eq q by (simp add: q_dequeue_def)
qed

text \<open>
  A message exchange.  Sending queues the caller with its message at the receiver, waking
  it if it waits, and switches; a receiver with pending messages gets the longest waiting
  sender, whose message is the one sent; releasing that sender gives it the answer and runs it
  if its priority is higher.  Each step keeps the kernel invariant.
\<close>

theorem message_exchange_correct:
  assumes "kinv kd idle {} k1" and "current k1 \<noteq> idle" and "tp \<noteq> current k1"
    and "kinv kd idle {} k2" and "qs k2 (MSGQ (current k2)) = t # r"
    and "kinv kd idle {} k3" and "tstate k3 t = CH_STATE_SNDMSG"
  shows "kinv kd idle {} (snd (chMsgSend tp m k1)) \<and> highest (snd (chMsgSend tp m k1)) \<and>
    qs (snd (chMsgSend tp m k1)) (MSGQ tp) = qs k1 (MSGQ tp) @ [current k1] \<and>
    chMsgGet (current k1) (snd (chMsgSend tp m k1)) = m \<and>
    (tstate k1 tp = CH_STATE_WTMSG \<longrightarrow> tstate (snd (chMsgSend tp m k1)) tp \<in> {CH_STATE_READY, CH_STATE_CURRENT}) \<and>
    fst (chMsgWait k2) = Ret t \<and> kinv kd idle {} (snd (chMsgWait k2)) \<and>
    qs (snd (chMsgWait k2)) (MSGQ (current k2)) = r \<and> chMsgGet t (snd (chMsgWait k2)) = u (thd k2 t) \<and>
    tstate (snd (chMsgWait k2)) t = CH_STATE_SNDMSG \<and>
    kinv kd idle {} (chMsgRelease t a k3) \<and> u (thd (chMsgRelease t a k3) t) = a \<and>
    current (chMsgRelease t a k3) = (if tprio k3 t \<le> tprio k3 (current k3) then current k3 else t)"
proof -
  have c3: "t \<noteq> current k3" using current_state [OF assms(6), of t] assms(7) by simp
  have nq: "t \<notin> set (qs k3 q)" for q
    using not_queued_state [OF assms(6), of t q] assms(7) by (simp add: queued_def)
  have "kinv kd idle {t} k3" using kinv_take [OF assms(6) nq] .
  then have "kinv kd idle {} (chSchWakeupS t a k3) \<and>
      current (chSchWakeupS t a k3) = (if tprio k3 t \<le> tprio k3 (current k3) then current k3 else t)"
    using kinv_chSchWakeupS [of kd idle t k3 a] c3 nq by (simp add: in_queue_def)
  moreover have "fst (chMsgWait k2) = Ret t" using receive_inv [OF assms(4,5)] by (metis fst_conv)
  ultimately show ?thesis
    using send_inv [OF assms(1-3), of m] receive_inv [OF assms(4,5)]
    by (simp add: chMsgRelease_def chMsgReleaseS_def chMsgGet_def)
qed

text \<open>A sender queued at the running thread, and a fetched one.\<close>

definition sent_boot :: kernel where
  "sent_boot = queue_insert 3 (MSGQ 1) (set_u 3 42 (set_state 3 CH_STATE_SNDMSGQ boot))"

definition fetched_boot :: kernel where
  "fetched_boot = set_state 3 CH_STATE_SNDMSG boot"

lemma kinv_sent_boot: "kinv kd 2 {} sent_boot"
proof -
  have "kinv kd 2 {3} boot" using kinv_take [OF kinv_boot, of 3] by (simp add: boot_simps)
  then have "kinv kd 2 {3} sent_boot"
    unfolding sent_boot_def by (intro kinv_queue_insert) (auto simp: in_queue_def boot_simps)
  moreover have "placed kd sent_boot 3"
    by (auto simp: sent_boot_def placed_def queued_def boot_simps q_insert_def in_queue_def split: if_splits)
  ultimately show ?thesis by (rule kinv_settle) simp
qed

lemma kinv_fetched_boot: "kinv kd 2 {} fetched_boot"
proof -
  have "kinv kd 2 {3} boot" using kinv_take [OF kinv_boot, of 3] by (simp add: boot_simps)
  then have "kinv kd 2 {3} fetched_boot" unfolding fetched_boot_def by blast
  moreover have "placed kd fetched_boot 3" by (simp add: fetched_boot_def placed_def queued_def boot_simps)
  ultimately show ?thesis by (rule kinv_settle) simp
qed

lemma message_exchange_correct_witness:
  "chMsgGet 1 (snd (chMsgSend 2 9 boot)) = 9 \<and> fst (chMsgWait sent_boot) = Ret 3 \<and>
    u (thd (chMsgRelease 3 8 fetched_boot) 3) = 8"
proof -
  have a: "current boot \<noteq> 2" "2 \<noteq> current boot" "qs sent_boot (MSGQ (current sent_boot)) = 3 # []"
    "tstate fetched_boot 3 = CH_STATE_SNDMSG"
    by (simp_all add: boot_simps sent_boot_def q_insert_def fetched_boot_def)
  from message_exchange_correct [of "\<lambda>_. KSem", OF kinv_boot a(1,2) kinv_sent_boot a(3) kinv_fetched_boot a(4)]
  show ?thesis by (simp add: boot_simps)
qed

end
