(* ===== verification/Events.thy ===== *)
theory Events
  imports Kernel
begin

text \<open>
  Event flags (chevents.c, chevents.h).  A thread has a set of pending events and may sleep
  until one, or all, of a mask are pending.  Event sources broadcast to the listeners
  registered on them; the listeners of a source are the list \<open>evt_src\<close>, newest first, a
  listener being registered on one source at a time.  Lengths of words: \<open>eventmask_t\<close> and
  \<open>eventflags_t\<close> have 32 bits.
\<close>

section \<open>Operations\<close>

definition EVENT_MASK :: "nat \<Rightarrow> u32" where
  "EVENT_MASK eid = push_bit eid 1"

definition chEvtObjectInit :: "ptr \<Rightarrow> kernel \<Rightarrow> kernel" where
  "chEvtObjectInit esp k = k\<lparr>evt_src := (evt_src k)(esp := [])\<rparr>"

definition chEvtRegisterMaskWithFlags :: "ptr \<Rightarrow> ptr \<Rightarrow> u32 \<Rightarrow> u32 \<Rightarrow> kernel \<Rightarrow> kernel" where
  "chEvtRegisterMaskWithFlags esp elp events wflags k =
    k\<lparr>evt_src := (evt_src k)(esp := elp # evt_src k esp),
      evt_lis := (evt_lis k)(elp :=
        \<lparr>el_listener = current k, el_events = events, el_flags = 0, el_wflags = wflags\<rparr>)\<rparr>"

definition chEvtRegisterMask :: "ptr \<Rightarrow> ptr \<Rightarrow> u32 \<Rightarrow> kernel \<Rightarrow> kernel" where
  "chEvtRegisterMask esp elp events k = chEvtRegisterMaskWithFlags esp elp events (- 1) k"

definition chEvtRegister :: "ptr \<Rightarrow> ptr \<Rightarrow> nat \<Rightarrow> kernel \<Rightarrow> kernel" where
  "chEvtRegister esp elp eid k = chEvtRegisterMask esp elp (EVENT_MASK eid) k"

text \<open>The loop of \<open>chEvtUnregister\<close>, over the listeners still to visit.\<close>

fun unregister_loop :: "ptr \<Rightarrow> ptr list \<Rightarrow> ptr list" where
  "unregister_loop elp [] = []"
| "unregister_loop elp (p # r) = (if p = elp then r else p # unregister_loop elp r)"

definition chEvtUnregister :: "ptr \<Rightarrow> ptr \<Rightarrow> kernel \<Rightarrow> kernel" where
  "chEvtUnregister esp elp k =
    k\<lparr>evt_src := (evt_src k)(esp := unregister_loop elp (evt_src k esp))\<rparr>"

definition chEvtIsListeningI :: "ptr \<Rightarrow> kernel \<Rightarrow> bool" where
  "chEvtIsListeningI esp k \<longleftrightarrow> evt_src k esp \<noteq> []"

definition set_pending :: "ptr \<Rightarrow> u32 \<Rightarrow> kernel \<Rightarrow> kernel" where
  "set_pending t w = upd_thd t (\<lambda>x. x\<lparr>epending := w\<rparr>)"

abbreviation pending :: "kernel \<Rightarrow> ptr \<Rightarrow> u32" where "pending k t \<equiv> epending (thd k t)"

definition chEvtGetAndClearEvents :: "u32 \<Rightarrow> kernel \<Rightarrow> u32 \<times> kernel" where
  "chEvtGetAndClearEvents events k =
    (pending k (current k) AND events,
     set_pending (current k) (pending k (current k) AND NOT events) k)"

definition chEvtAddEvents :: "u32 \<Rightarrow> kernel \<Rightarrow> u32 \<times> kernel" where
  "chEvtAddEvents events k =
    (let k = set_pending (current k) (pending k (current k) OR events) k
     in (pending k (current k), k))"

definition chEvtSignalI :: "ptr \<Rightarrow> u32 \<Rightarrow> kernel \<Rightarrow> kernel" where
  "chEvtSignalI tp events k =
    (let k = set_pending tp (pending k tp OR events) k
     in if (tstate k tp = CH_STATE_WTOREVT \<and> pending k tp AND u (thd k tp) \<noteq> 0) \<or>
           (tstate k tp = CH_STATE_WTANDEVT \<and> pending k tp AND u (thd k tp) = u (thd k tp))
        then chSchReadyI tp (set_u tp MSG_OK k) else k)"

definition chEvtSignal :: "ptr \<Rightarrow> u32 \<Rightarrow> kernel \<Rightarrow> kernel" where
  "chEvtSignal tp events k = chSchRescheduleS (chEvtSignalI tp events k)"

definition add_flags :: "ptr \<Rightarrow> u32 \<Rightarrow> kernel \<Rightarrow> kernel" where
  "add_flags elp fl k =
    k\<lparr>evt_lis := (evt_lis k)(elp := (evt_lis k elp)\<lparr>el_flags := el_flags (evt_lis k elp) OR fl\<rparr>)\<rparr>"

fun broadcast_loop :: "u32 \<Rightarrow> ptr list \<Rightarrow> kernel \<Rightarrow> kernel" where
  "broadcast_loop fl [] k = k"
| "broadcast_loop fl (elp # r) k =
    (let k = add_flags elp fl k;
         l = evt_lis k elp;
         k = (if fl = 0 \<or> el_flags l AND el_wflags l \<noteq> 0
              then chEvtSignalI (el_listener l) (el_events l) k else k)
     in broadcast_loop fl r k)"

definition chEvtBroadcastFlagsI :: "ptr \<Rightarrow> u32 \<Rightarrow> kernel \<Rightarrow> kernel" where
  "chEvtBroadcastFlagsI esp fl k = broadcast_loop fl (evt_src k esp) k"

definition chEvtBroadcastFlags :: "ptr \<Rightarrow> u32 \<Rightarrow> kernel \<Rightarrow> kernel" where
  "chEvtBroadcastFlags esp fl k = chSchRescheduleS (chEvtBroadcastFlagsI esp fl k)"

definition chEvtBroadcastI :: "ptr \<Rightarrow> kernel \<Rightarrow> kernel" where
  "chEvtBroadcastI esp k = chEvtBroadcastFlagsI esp 0 k"

definition chEvtBroadcast :: "ptr \<Rightarrow> kernel \<Rightarrow> kernel" where
  "chEvtBroadcast esp k = chEvtBroadcastFlags esp 0 k"

definition chEvtGetAndClearFlagsI :: "ptr \<Rightarrow> kernel \<Rightarrow> u32 \<times> kernel" where
  "chEvtGetAndClearFlagsI elp k =
    (el_flags (evt_lis k elp), k\<lparr>evt_lis := (evt_lis k)(elp := (evt_lis k elp)\<lparr>el_flags := 0\<rparr>)\<rparr>)"

definition chEvtGetAndClearFlags :: "ptr \<Rightarrow> kernel \<Rightarrow> u32 \<times> kernel" where
  "chEvtGetAndClearFlags elp k = chEvtGetAndClearFlagsI elp k"

text \<open>
  The dispatch loop may run for ever when started past the lowest event, so it is a partial
  function; \<open>dispatch_correct\<close> shows that from identifier 0 it returns.  The handlers act on a
  state of any type.
\<close>

partial_function (option) dispatch_loop :: "(nat \<Rightarrow> 's \<Rightarrow> 's) \<Rightarrow> nat \<Rightarrow> u32 \<Rightarrow> 's \<Rightarrow> 's option" where
  "dispatch_loop handlers eid events s =
    (if events \<noteq> 0
     then if events AND EVENT_MASK eid \<noteq> 0
          then dispatch_loop handlers (eid + 1) (events AND NOT (EVENT_MASK eid)) (handlers eid s)
          else dispatch_loop handlers (eid + 1) events s
     else Some s)"

definition chEvtDispatch :: "(nat \<Rightarrow> 's \<Rightarrow> 's) \<Rightarrow> u32 \<Rightarrow> 's \<Rightarrow> 's option" where
  "chEvtDispatch handlers events s = dispatch_loop handlers 0 events s"

subsection \<open>Waiting\<close>

text \<open>The end of a wait for one event: only the lowest of the events \<open>m\<close> is kept and cleared.\<close>

definition take_one :: "u32 \<Rightarrow> kernel \<Rightarrow> u32 \<times> kernel" where
  "take_one m k =
    (let ctp = current k; m = m XOR (m AND (m - 1))
     in (m, set_pending ctp (pending k ctp AND NOT m) k))"

definition take_any :: "u32 \<Rightarrow> kernel \<Rightarrow> u32 \<times> kernel" where
  "take_any m k = (let ctp = current k in (m, set_pending ctp (pending k ctp AND NOT m) k))"

definition chEvtWaitOne :: "u32 \<Rightarrow> kernel \<Rightarrow> u32 outcome \<times> kernel" where
  "chEvtWaitOne events k =
    (let ctp = current k; m = pending k ctp AND events
     in if m = 0 then (Switched, chSchGoSleepS CH_STATE_WTOREVT (set_u ctp events k))
        else (let (m, k) = take_one m k in (Ret m, k)))"

definition chEvtWaitOne_resume :: "u32 \<Rightarrow> kernel \<Rightarrow> u32 \<times> kernel" where
  "chEvtWaitOne_resume events k = take_one (pending k (current k) AND events) k"

definition chEvtWaitAny :: "u32 \<Rightarrow> kernel \<Rightarrow> u32 outcome \<times> kernel" where
  "chEvtWaitAny events k =
    (let ctp = current k; m = pending k ctp AND events
     in if m = 0 then (Switched, chSchGoSleepS CH_STATE_WTOREVT (set_u ctp events k))
        else (let (m, k) = take_any m k in (Ret m, k)))"

definition chEvtWaitAny_resume :: "u32 \<Rightarrow> kernel \<Rightarrow> u32 \<times> kernel" where
  "chEvtWaitAny_resume events k = take_any (pending k (current k) AND events) k"

definition chEvtWaitAll :: "u32 \<Rightarrow> kernel \<Rightarrow> u32 outcome \<times> kernel" where
  "chEvtWaitAll events k =
    (let ctp = current k
     in if pending k ctp AND events \<noteq> events
        then (Switched, chSchGoSleepS CH_STATE_WTANDEVT (set_u ctp events k))
        else (Ret events, set_pending ctp (pending k ctp AND NOT events) k))"

definition chEvtWaitAll_resume :: "u32 \<Rightarrow> kernel \<Rightarrow> u32 \<times> kernel" where
  "chEvtWaitAll_resume events k =
    (events, set_pending (current k) (pending k (current k) AND NOT events) k)"

definition chEvtWaitOneTimeout :: "u32 \<Rightarrow> systime \<Rightarrow> kernel \<Rightarrow> u32 outcome \<times> kernel" where
  "chEvtWaitOneTimeout events time k =
    (let ctp = current k; m = pending k ctp AND events
     in if m = 0
        then if time = TIME_IMMEDIATE then (Ret 0, k)
             else (Switched, chSchGoSleepTimeoutS CH_STATE_WTOREVT time (set_u ctp events k))
        else (let (m, k) = take_one m k in (Ret m, k)))"

text \<open>Negative messages, seen as signed integers, end the wait without events.\<close>

definition chEvtWaitOneTimeout_resume :: "u32 \<Rightarrow> systime \<Rightarrow> kernel \<Rightarrow> u32 \<times> kernel" where
  "chEvtWaitOneTimeout_resume events time k =
    (let (m, k) = chSchGoSleepTimeoutS_resume time k
     in if m <s MSG_OK then (0, k) else take_one (pending k (current k) AND events) k)"

definition chEvtWaitAnyTimeout :: "u32 \<Rightarrow> systime \<Rightarrow> kernel \<Rightarrow> u32 outcome \<times> kernel" where
  "chEvtWaitAnyTimeout events time k =
    (let ctp = current k; m = pending k ctp AND events
     in if m = 0
        then if time = TIME_IMMEDIATE then (Ret 0, k)
             else (Switched, chSchGoSleepTimeoutS CH_STATE_WTOREVT time (set_u ctp events k))
        else (let (m, k) = take_any m k in (Ret m, k)))"

definition chEvtWaitAnyTimeout_resume :: "u32 \<Rightarrow> systime \<Rightarrow> kernel \<Rightarrow> u32 \<times> kernel" where
  "chEvtWaitAnyTimeout_resume events time k =
    (let (m, k) = chSchGoSleepTimeoutS_resume time k
     in if m <s MSG_OK then (0, k) else take_any (pending k (current k) AND events) k)"

definition chEvtWaitAllTimeout :: "u32 \<Rightarrow> systime \<Rightarrow> kernel \<Rightarrow> u32 outcome \<times> kernel" where
  "chEvtWaitAllTimeout events time k =
    (let ctp = current k
     in if pending k ctp AND events \<noteq> events
        then if time = TIME_IMMEDIATE then (Ret 0, k)
             else (Switched, chSchGoSleepTimeoutS CH_STATE_WTANDEVT time (set_u ctp events k))
        else (Ret events, set_pending ctp (pending k ctp AND NOT events) k))"

definition chEvtWaitAllTimeout_resume :: "u32 \<Rightarrow> systime \<Rightarrow> kernel \<Rightarrow> u32 \<times> kernel" where
  "chEvtWaitAllTimeout_resume events time k =
    (let (m, k) = chSchGoSleepTimeoutS_resume time k
     in if m <s MSG_OK then (0, k)
        else (events, set_pending (current k) (pending k (current k) AND NOT events) k))"


section \<open>Signals\<close>

text \<open>No thread sleeps although the events it waits for are pending.\<close>

definition satisfied :: "kernel \<Rightarrow> ptr \<Rightarrow> bool" where
  "satisfied k t \<longleftrightarrow>
    (tstate k t = CH_STATE_WTOREVT \<and> pending k t AND u (thd k t) \<noteq> 0) \<or>
    (tstate k t = CH_STATE_WTANDEVT \<and> pending k t AND u (thd k t) = u (thd k t))"

definition evinv :: "kernel \<Rightarrow> bool" where
  "evinv k \<longleftrightarrow> (\<forall>t. \<not> satisfied k t)"

lemma set_pending_simps [simp]:
  "thd (set_pending t w k) = (thd k)(t := (thd k t)\<lparr>epending := w\<rparr>)"
  "qs (set_pending t w k) = qs k" "current (set_pending t w k) = current k"
  "evt_src (set_pending t w k) = evt_src k" "evt_lis (set_pending t w k) = evt_lis k"
  by (simp_all add: set_pending_def upd_thd_def)

lemma evt_fields [simp]:
  "evt_src (set_u t w k) = evt_src k" "evt_lis (set_u t w k) = evt_lis k"
  "evt_src (chSchReadyI t k) = evt_src k" "evt_lis (chSchReadyI t k) = evt_lis k"
  by (simp_all add: set_u_def upd_thd_def chSchReadyI_def set_state_def Let_def)

lemma kinv_set_pending [intro]: "kinv kd idle D k \<Longrightarrow> kinv kd idle D (set_pending t w k)"
  by (erule kinv_upd) auto

lemma signal_eq:
  "chEvtSignalI tp ev k =
    (let k1 = set_pending tp (pending k tp OR ev) k
     in if satisfied k1 tp then chSchReadyI tp (set_u tp MSG_OK k1) else k1)"
  by (simp add: chEvtSignalI_def satisfied_def Let_def)

lemma signal_inv:
  assumes i: "kinv kd idle {} k" and e: "\<And>t. t \<noteq> tp \<Longrightarrow> \<not> satisfied k t"
  shows "kinv kd idle {} (chEvtSignalI tp ev k) \<and> evinv (chEvtSignalI tp ev k) \<and>
    current (chEvtSignalI tp ev k) = current k \<and>
    evt_src (chEvtSignalI tp ev k) = evt_src k \<and> evt_lis (chEvtSignalI tp ev k) = evt_lis k \<and>
    pending (chEvtSignalI tp ev k) = (pending k)(tp := pending k tp OR ev) \<and>
    (\<forall>t. t \<noteq> tp \<longrightarrow> thd (chEvtSignalI tp ev k) t = thd k t) \<and>
    (if satisfied (set_pending tp (pending k tp OR ev) k) tp
     then tstate (chEvtSignalI tp ev k) tp = CH_STATE_READY \<and> u (thd (chEvtSignalI tp ev k) tp) = MSG_OK
     else tstate (chEvtSignalI tp ev k) tp = tstate k tp \<and> u (thd (chEvtSignalI tp ev k) tp) = u (thd k tp))"
proof -
  let ?k1 = "set_pending tp (pending k tp OR ev) k"
  have i1: "kinv kd idle {} ?k1" using i by blast
  show ?thesis
  proof (cases "satisfied ?k1 tp")
    case True
    then have nq: "\<not> queued (tstate k tp)" and c: "tp \<noteq> current k"
      using current_state [OF i, of tp] by (auto simp: satisfied_def queued_def)
    have q: "tp \<notin> set (qs k q)" for q using not_queued_state [OF i _ nq] by simp
    have "kinv kd idle {tp} ?k1" using kinv_take [OF i1, of tp] q by simp
    then have "kinv kd idle {tp} (set_u tp MSG_OK ?k1)" by blast
    then have "kinv kd idle {} (chSchReadyI tp (set_u tp MSG_OK ?k1))"
      using kinv_chSchReadyI [of kd idle tp "{tp}" "set_u tp MSG_OK ?k1"] q c by (simp add: in_queue_def)
    moreover have "\<not> satisfied (chSchReadyI tp (set_u tp MSG_OK ?k1)) t" for t
      using e [of t] by (cases "t = tp") (auto simp: satisfied_def)
    ultimately show ?thesis using True by (simp add: signal_eq Let_def evinv_def fun_eq_iff)
  next
    case False
    have "\<not> satisfied ?k1 t" for t
      using e [of t] False by (cases "t = tp") (auto simp: satisfied_def)
    then show ?thesis using False i1 by (simp add: signal_eq Let_def evinv_def fun_eq_iff)
  qed
qed

lemma reschedule_thd:
  "thd (chSchRescheduleS k) t = (thd k t)\<lparr>state := tstate (chSchRescheduleS k) t\<rparr>"
  by (auto simp: chSchRescheduleS_def chSchDoRescheduleAhead_def Let_def take_first_def
      queue_fifo_remove_def split: list.splits)

lemma reschedule_states:
  "tstate (chSchRescheduleS k) t = tstate k t \<or>
    tstate (chSchRescheduleS k) t \<in> {CH_STATE_READY, CH_STATE_CURRENT}"
  by (auto simp: chSchRescheduleS_def chSchDoRescheduleAhead_def Let_def take_first_def
      queue_fifo_remove_def split: list.splits)

lemma reschedule_evt [simp]:
  "evt_src (chSchRescheduleS k) = evt_src k" "evt_lis (chSchRescheduleS k) = evt_lis k"
  by (auto simp: chSchRescheduleS_def chSchDoRescheduleAhead_def Let_def take_first_def set_state_def
      upd_thd_def queue_fifo_remove_def chSchReadyAheadI_def split: list.splits)

lemma pending_reschedule [simp]: "pending (chSchRescheduleS k) t = pending k t"
  by (subst reschedule_thd) simp

lemma evinv_reschedule: "evinv k \<Longrightarrow> evinv (chSchRescheduleS k)"
  using reschedule_states [of k] unfolding evinv_def satisfied_def
  by (metis pending_reschedule chSchRescheduleS_fields(3) tstate.distinct insertE empty_iff)

text \<open>
  Signalling events.  The events are added to the pending set of the thread, and the thread
  is made ready with MSG_OK exactly if it now has what it waits for; no other thread changes.
  The kernel invariant and the absence of lost events (no thread sleeps on satisfied events)
  are kept, and the highest priority thread runs.
\<close>

theorem event_signal_correct:
  assumes "kinv kd idle {} k" and "evinv k"
  shows "kinv kd idle {} (chEvtSignalI tp ev k) \<and> evinv (chEvtSignalI tp ev k) \<and>
    pending (chEvtSignalI tp ev k) = (pending k)(tp := pending k tp OR ev) \<and>
    (\<forall>t. t \<noteq> tp \<longrightarrow> thd (chEvtSignalI tp ev k) t = thd k t) \<and>
    (if (tstate k tp = CH_STATE_WTOREVT \<and> (pending k tp OR ev) AND u (thd k tp) \<noteq> 0) \<or>
        (tstate k tp = CH_STATE_WTANDEVT \<and> (pending k tp OR ev) AND u (thd k tp) = u (thd k tp))
     then tp \<in> set (qs (chEvtSignalI tp ev k) RLIST) \<and> u (thd (chEvtSignalI tp ev k) tp) = MSG_OK
     else qs (chEvtSignalI tp ev k) = qs k) \<and>
    kinv kd idle {} (chEvtSignal tp ev k) \<and> evinv (chEvtSignal tp ev k) \<and> highest (chEvtSignal tp ev k)"
proof -
  note s = signal_inv [OF assms(1), of tp ev]
  have n: "\<not> satisfied k t" for t using assms(2) by (simp add: evinv_def)
  have s: "kinv kd idle {} (chEvtSignalI tp ev k) \<and> evinv (chEvtSignalI tp ev k) \<and>
    pending (chEvtSignalI tp ev k) = (pending k)(tp := pending k tp OR ev) \<and>
    (\<forall>t. t \<noteq> tp \<longrightarrow> thd (chEvtSignalI tp ev k) t = thd k t)"
    using s n by blast
  moreover have "kinv kd idle {} (chEvtSignal tp ev k) \<and> highest (chEvtSignal tp ev k)"
    unfolding chEvtSignal_def using kinv_chSchRescheduleS [of kd idle "chEvtSignalI tp ev k"] s by blast
  moreover have "evinv (chEvtSignal tp ev k)"
    unfolding chEvtSignal_def using evinv_reschedule s by blast
  moreover have "if (tstate k tp = CH_STATE_WTOREVT \<and> (pending k tp OR ev) AND u (thd k tp) \<noteq> 0) \<or>
        (tstate k tp = CH_STATE_WTANDEVT \<and> (pending k tp OR ev) AND u (thd k tp) = u (thd k tp))
     then tp \<in> set (qs (chEvtSignalI tp ev k) RLIST) \<and> u (thd (chEvtSignalI tp ev k) tp) = MSG_OK
     else qs (chEvtSignalI tp ev k) = qs k"
    by (simp add: chEvtSignalI_def Let_def q_prio_insert_def)
  ultimately show ?thesis by blast
qed

section \<open>Waiting\<close>

lemma bit_EVENT_MASK: "bit (EVENT_MASK n) i \<longleftrightarrow> n < 32 \<and> i = n"
  unfolding EVENT_MASK_def bit_push_bit_iff bit_1_iff by auto

lemma lowest_bit_exists:
  assumes "m \<noteq> (0 :: u32)"
  obtains n where "n < 32" "bit m n" "\<And>i. i < n \<Longrightarrow> \<not> bit m i"
proof -
  have "\<exists>n. bit m n" using assms by (auto simp: bit_eq_iff)
  then have b: "bit m (LEAST n. bit m n)" by (rule LeastI_ex)
  then have "(LEAST n. bit m n) < 32" using bit_imp_le_length [OF b] by simp
  then show ?thesis using that b not_less_Least by blast
qed

lemma isolate_lowest:
  assumes n: "n < 32" "bit (m :: u32) n" and low: "\<And>i. i < n \<Longrightarrow> \<not> bit m i"
  shows "m XOR (m AND (m - 1)) = EVENT_MASK n"
proof -
  define h where "h = m AND NOT (mask (Suc n))"
  have bh: "bit h i \<longleftrightarrow> n < i \<and> bit m i" for i
    by (auto simp: h_def bit_and_iff bit_not_iff bit_mask_iff bit_imp_le_length) (use bit_imp_le_length in fastforce)
  have "m = h OR EVENT_MASK n"
    by (rule bit_eqI) (use n low in \<open>auto simp: bit_or_iff bh bit_EVENT_MASK intro: linorder_neqE_nat\<close>)
  also have "\<dots> = h + EVENT_MASK n"
    by (rule disjunctive_add [symmetric]) (auto simp: bh bit_EVENT_MASK)
  finally have "m - 1 = h + mask n" by (simp add: mask_eq_exp_minus_1 EVENT_MASK_def push_bit_eq_mult)
  also have "\<dots> = h OR mask n" by (rule disjunctive_add) (auto simp: bh bit_mask_iff)
  finally have m1: "m - 1 = h OR mask n" .
  show ?thesis
  proof (rule bit_eqI)
    fix i :: nat
    show "bit (m XOR (m AND (m - 1))) i \<longleftrightarrow> bit (EVENT_MASK n) i"
      unfolding m1 by (cases i n rule: linorder_cases)
        (use n low in \<open>auto simp: bit_xor_iff bit_and_iff bit_or_iff bit_mask_iff bh bit_EVENT_MASK\<close>)
  qed
qed

lemma event_sleep:
  assumes i: "kinv kd idle {} k" and e: "evinv k" and idle: "current k \<noteq> idle"
    and st: "st = CH_STATE_WTOREVT \<and> pending k (current k) AND ev = 0 \<or>
      st = CH_STATE_WTANDEVT \<and> pending k (current k) AND ev \<noteq> ev"
  defines "k' \<equiv> chSchGoSleepS st (set_u (current k) ev k)"
  shows "kinv kd idle {} k' \<and> evinv k' \<and> highest k' \<and> tstate k' (current k) = st \<and>
    u (thd k' (current k)) = ev \<and> pending k' = pending k"
proof -
  let ?c = "current k" and ?k1 = "set_u (current k) ev k"
  have nq: "\<not> queued st" "st \<noteq> CH_STATE_CURRENT" using st by (auto simp: queued_def)
  have cs: "tstate k ?c = CH_STATE_CURRENT" using current_state [OF i, of ?c] by simp
  have i1: "kinv kd idle {} ?k1" using kinv_set_u_other [OF i, of ?c ev] cs by simp
  have inv: "kinv kd idle {} k' \<and> highest k'" unfolding k'_def using kinv_sleep [OF i1 _ nq] idle by simp
  have ne: "qs ?k1 RLIST \<noteq> []" using ready_nonempty [OF i1] idle by auto
  have hd: "hd (qs ?k1 RLIST) \<noteq> current ?k1"
    using current_not_queued [OF i1, of RLIST] hd_in_set [OF ne] by (metis empty_iff)
  note th = chSchGoSleepS_thd [OF ne hd, of st, folded k'_def]
  have pe: "pending k' = pending k" by (simp add: k'_def fun_eq_iff)
  have "\<not> satisfied k' t" for t
  proof (cases "t = ?c")
    case True
    then show ?thesis using st th [of t] pe by (auto simp: satisfied_def)
  next
    case False
    then show ?thesis using e th [of t] by (auto simp: satisfied_def evinv_def split: if_splits)
  qed
  then show ?thesis using inv pe th [of ?c] by (simp add: evinv_def)
qed

text \<open>Taking events away from the running thread satisfies no sleeper.\<close>

lemma evinv_set_pending:
  assumes i: "kinv kd idle {} k" and e: "evinv k"
  shows "evinv (set_pending (current k) w k)"
proof -
  have "tstate k (current k) = CH_STATE_CURRENT" using current_state [OF i, of "current k"] by simp
  then show ?thesis using e unfolding evinv_def satisfied_def by simp
qed

text \<open>The result of a wait for one event: the lowest of \<open>p AND ev\<close>.\<close>

definition is_lowest :: "u32 \<Rightarrow> nat \<Rightarrow> bool" where
  "is_lowest m n \<longleftrightarrow> n < 32 \<and> bit m n \<and> (\<forall>i < n. \<not> bit m i)"

lemma take_one_eq:
  assumes "m \<noteq> 0"
  obtains n where "is_lowest m n"
    "take_one m k = (EVENT_MASK n, set_pending (current k) (pending k (current k) AND NOT (EVENT_MASK n)) k)"
proof -
  obtain n where n: "n < 32" "bit m n" "\<And>i. i < n \<Longrightarrow> \<not> bit m i" by (rule lowest_bit_exists [OF assms]) blast
  then show ?thesis using that [of n] isolate_lowest [OF n] by (simp add: is_lowest_def take_one_def Let_def)
qed

text \<open>
  Waiting for events.  If none (for WaitAll: not all) of the awaited events are pending the
  caller sleeps with its mask recorded, its pending events untouched, and the highest priority
  ready thread runs.  Otherwise it returns at once: WaitOne exactly the lowest awaited event,
  WaitAny all awaited pending events, WaitAll the mask, and precisely these are cleared.  A
  resumed wait that finds events does the same.  The kernel invariant and the absence of lost
  events are kept.
\<close>

theorem event_wait_correct:
  assumes i: "kinv kd idle {} k" and e: "evinv k" and idle: "current k \<noteq> idle"
  shows "(\<forall>w \<in> {chEvtWaitOne, chEvtWaitAny}. pending k (current k) AND ev = 0 \<longrightarrow>
      fst (w ev k) = Switched \<and> highest (snd (w ev k)) \<and>
      tstate (snd (w ev k)) (current k) = CH_STATE_WTOREVT \<and>
      u (thd (snd (w ev k)) (current k)) = ev \<and> pending (snd (w ev k)) = pending k) \<and>
    (pending k (current k) AND ev \<noteq> 0 \<longrightarrow>
      (\<exists>n. is_lowest (pending k (current k) AND ev) n \<and>
        chEvtWaitOne ev k = (Ret (EVENT_MASK n),
          set_pending (current k) (pending k (current k) AND NOT (EVENT_MASK n)) k) \<and>
        chEvtWaitOne_resume ev k = (EVENT_MASK n, snd (chEvtWaitOne ev k))) \<and>
      chEvtWaitAny ev k = (Ret (pending k (current k) AND ev),
        set_pending (current k) (pending k (current k) AND NOT ev) k) \<and>
      chEvtWaitAny_resume ev k = (pending k (current k) AND ev, snd (chEvtWaitAny ev k))) \<and>
    (if pending k (current k) AND ev = ev
     then chEvtWaitAll ev k = (Ret ev, set_pending (current k) (pending k (current k) AND NOT ev) k)
     else fst (chEvtWaitAll ev k) = Switched \<and> highest (snd (chEvtWaitAll ev k)) \<and>
      tstate (snd (chEvtWaitAll ev k)) (current k) = CH_STATE_WTANDEVT \<and>
      u (thd (snd (chEvtWaitAll ev k)) (current k)) = ev \<and> pending (snd (chEvtWaitAll ev k)) = pending k) \<and>
    (\<forall>w \<in> {chEvtWaitOne, chEvtWaitAny, chEvtWaitAll}. kinv kd idle {} (snd (w ev k)) \<and> evinv (snd (w ev k)))"
proof -
  let ?p = "pending k (current k)"
  have any: "?p AND NOT (?p AND ev) = ?p AND NOT ev"
    by (rule bit_eqI) (auto simp: bit_and_iff bit_or_iff bit_not_iff)
  note sl = event_sleep [OF i e idle, of CH_STATE_WTOREVT ev] event_sleep [OF i e idle, of CH_STATE_WTANDEVT ev]
  have keep: "kinv kd idle {} (set_pending (current k) w k) \<and> evinv (set_pending (current k) w k)" for w
    using kinv_set_pending [OF i] evinv_set_pending [OF i e] by blast
  have one: "\<exists>n. is_lowest (?p AND ev) n \<and>
      chEvtWaitOne ev k = (Ret (EVENT_MASK n), set_pending (current k) (?p AND NOT (EVENT_MASK n)) k) \<and>
      chEvtWaitOne_resume ev k = (EVENT_MASK n, snd (chEvtWaitOne ev k))" if nz: "?p AND ev \<noteq> 0"
  proof -
    obtain n where "is_lowest (?p AND ev) n"
      "take_one (?p AND ev) k = (EVENT_MASK n, set_pending (current k) (?p AND NOT (EVENT_MASK n)) k)"
      using take_one_eq [OF nz] by blast
    then show ?thesis using nz
      by (intro exI [of _ n]) (simp add: chEvtWaitOne_def chEvtWaitOne_resume_def Let_def)
  qed
  have anyc: "chEvtWaitAny ev k = (Ret (?p AND ev), set_pending (current k) (?p AND NOT ev) k) \<and>
      chEvtWaitAny_resume ev k = (?p AND ev, snd (chEvtWaitAny ev k))" if "?p AND ev \<noteq> 0"
    using that any by (simp add: chEvtWaitAny_def chEvtWaitAny_resume_def take_any_def Let_def)
  have sw: "chEvtWaitOne ev k = (Switched, chSchGoSleepS CH_STATE_WTOREVT (set_u (current k) ev k)) \<and>
      chEvtWaitAny ev k = (Switched, chSchGoSleepS CH_STATE_WTOREVT (set_u (current k) ev k))"
    if "?p AND ev = 0" using that by (simp add: chEvtWaitOne_def chEvtWaitAny_def Let_def)
  have all: "chEvtWaitAll ev k =
      (if ?p AND ev = ev then (Ret ev, set_pending (current k) (?p AND NOT ev) k)
       else (Switched, chSchGoSleepS CH_STATE_WTANDEVT (set_u (current k) ev k)))"
    by (simp add: chEvtWaitAll_def Let_def)
  have inv1: "kinv kd idle {} (snd (chEvtWaitOne ev k)) \<and> evinv (snd (chEvtWaitOne ev k))"
    by (cases "?p AND ev = 0") (use sw sl(1) one keep in auto)
  have inv2: "kinv kd idle {} (snd (chEvtWaitAny ev k)) \<and> evinv (snd (chEvtWaitAny ev k))"
    by (cases "?p AND ev = 0") (use sw sl(1) anyc keep in auto)
  have inv3: "kinv kd idle {} (snd (chEvtWaitAll ev k)) \<and> evinv (snd (chEvtWaitAll ev k))"
    unfolding all using sl(2) keep by simp
  have s: "\<forall>w \<in> {chEvtWaitOne, chEvtWaitAny}. ?p AND ev = 0 \<longrightarrow>
      fst (w ev k) = Switched \<and> highest (snd (w ev k)) \<and>
      tstate (snd (w ev k)) (current k) = CH_STATE_WTOREVT \<and>
      u (thd (snd (w ev k)) (current k)) = ev \<and> pending (snd (w ev k)) = pending k"
    using sw sl(1) by auto
  have a: "if ?p AND ev = ev
     then chEvtWaitAll ev k = (Ret ev, set_pending (current k) (?p AND NOT ev) k)
     else fst (chEvtWaitAll ev k) = Switched \<and> highest (snd (chEvtWaitAll ev k)) \<and>
      tstate (snd (chEvtWaitAll ev k)) (current k) = CH_STATE_WTANDEVT \<and>
      u (thd (snd (chEvtWaitAll ev k)) (current k)) = ev \<and> pending (snd (chEvtWaitAll ev k)) = pending k"
    unfolding all using sl(2) by simp
  show ?thesis using s a one anyc inv1 inv2 inv3 by blast
qed

section \<open>Broadcasting\<close>

text \<open>A broadcast of \<open>fl\<close> signals this listener.\<close>

definition hit :: "u32 \<Rightarrow> listener \<Rightarrow> bool" where
  "hit fl l \<longleftrightarrow> fl = 0 \<or> (el_flags l OR fl) AND el_wflags l \<noteq> 0"

lemma add_flags_simps [simp]:
  "thd (add_flags e fl k) = thd k" "qs (add_flags e fl k) = qs k" "current (add_flags e fl k) = current k"
  "evt_src (add_flags e fl k) = evt_src k"
  "evt_lis (add_flags e fl k) = (evt_lis k)(e := (evt_lis k e)\<lparr>el_flags := el_flags (evt_lis k e) OR fl\<rparr>)"
  by (simp_all add: add_flags_def)

lemma unregister_loop_eq: "unregister_loop elp ls = remove1 elp ls"
  by (induction ls) auto

lemma broadcast_step:
  fixes elp :: ptr and fl :: u32
  assumes i: "kinv kd idle {} k" and e: "evinv k"
  defines "l \<equiv> evt_lis k elp"
  defines "k' \<equiv> (if hit fl l then chEvtSignalI (el_listener l) (el_events l) (add_flags elp fl k)
    else add_flags elp fl k)"
  shows "kinv kd idle {} k' \<and> evinv k' \<and> current k' = current k \<and> evt_src k' = evt_src k \<and>
    evt_lis k' = (evt_lis k)(elp := l\<lparr>el_flags := el_flags l OR fl\<rparr>) \<and>
    (\<forall>t. pending k' t = (if hit fl l \<and> t = el_listener l then pending k t OR el_events l else pending k t))"
proof -
  have i1: "kinv kd idle {} (add_flags elp fl k)" using i by (simp add: kinv_fields_cong [of "add_flags elp fl k" k])
  have n: "\<not> satisfied (add_flags elp fl k) t" for t using e by (simp add: evinv_def satisfied_def)
  show ?thesis
    using signal_inv [OF i1, of "el_listener l" "el_events l"] n i1
    unfolding k'_def l_def by (auto simp: evinv_def fun_eq_iff)
qed

lemma broadcast_loop_Cons:
  "broadcast_loop fl (e # r) k =
    broadcast_loop fl r (if hit fl (evt_lis k e)
      then chEvtSignalI (el_listener (evt_lis k e)) (el_events (evt_lis k e)) (add_flags e fl k)
      else add_flags e fl k)"
  by (simp add: hit_def Let_def)

lemma broadcast_loop_inv:
  assumes "kinv kd idle {} k" and "evinv k" and "distinct ls"
  shows "kinv kd idle {} (broadcast_loop fl ls k) \<and> evinv (broadcast_loop fl ls k) \<and>
    (\<forall>l. evt_lis (broadcast_loop fl ls k) l =
      (if l \<in> set ls then (evt_lis k l)\<lparr>el_flags := el_flags (evt_lis k l) OR fl\<rparr> else evt_lis k l)) \<and>
    (\<forall>t n. bit (pending (broadcast_loop fl ls k) t) n \<longleftrightarrow> bit (pending k t) n \<or>
      (\<exists>l \<in> set ls. hit fl (evt_lis k l) \<and> el_listener (evt_lis k l) = t \<and> bit (el_events (evt_lis k l)) n))"
  using assms
proof (induction ls arbitrary: k)
  case Nil
  then show ?case by simp
next
  case (Cons e r)
  let ?k = "if hit fl (evt_lis k e)
      then chEvtSignalI (el_listener (evt_lis k e)) (el_events (evt_lis k e)) (add_flags e fl k)
      else add_flags e fl k"
  note st = broadcast_step [OF Cons.prems(1,2), where elp = e and fl = fl]
  have lis: "evt_lis ?k l = evt_lis k l" if "l \<in> set r" for l
    using st that Cons.prems(3) by (auto simp: fun_eq_iff)
  note ih = Cons.IH [of ?k]
  have ih: "kinv kd idle {} (broadcast_loop fl r ?k) \<and> evinv (broadcast_loop fl r ?k) \<and>
    (\<forall>l. evt_lis (broadcast_loop fl r ?k) l =
      (if l \<in> set r then (evt_lis ?k l)\<lparr>el_flags := el_flags (evt_lis ?k l) OR fl\<rparr> else evt_lis ?k l)) \<and>
    (\<forall>t n. bit (pending (broadcast_loop fl r ?k) t) n \<longleftrightarrow> bit (pending ?k t) n \<or>
      (\<exists>l \<in> set r. hit fl (evt_lis ?k l) \<and> el_listener (evt_lis ?k l) = t \<and> bit (el_events (evt_lis ?k l)) n))"
    using ih st Cons.prems(3) by auto
  have l: "evt_lis (broadcast_loop fl r ?k) l =
      (if l \<in> set (e # r) then (evt_lis k l)\<lparr>el_flags := el_flags (evt_lis k l) OR fl\<rparr> else evt_lis k l)" for l
    using ih st lis Cons.prems(3) by (cases "l = e") auto
  have p: "bit (pending (broadcast_loop fl r ?k) t) n \<longleftrightarrow> bit (pending k t) n \<or>
      (\<exists>l \<in> set (e # r). hit fl (evt_lis k l) \<and> el_listener (evt_lis k l) = t \<and> bit (el_events (evt_lis k l)) n)" for t n
  proof -
    have "bit (pending ?k t) n \<longleftrightarrow> bit (pending k t) n \<or>
        (hit fl (evt_lis k e) \<and> el_listener (evt_lis k e) = t \<and> bit (el_events (evt_lis k e)) n)"
      using st by (auto simp: bit_or_iff split: if_splits)
    moreover have "(\<exists>l \<in> set r. hit fl (evt_lis ?k l) \<and> el_listener (evt_lis ?k l) = t \<and> bit (el_events (evt_lis ?k l)) n) \<longleftrightarrow>
        (\<exists>l \<in> set r. hit fl (evt_lis k l) \<and> el_listener (evt_lis k l) = t \<and> bit (el_events (evt_lis k l)) n)"
      using lis by (intro bex_cong) auto
    ultimately show ?thesis using ih by (metis (no_types, lifting) list.set_intros set_ConsD)
  qed
  show ?case unfolding broadcast_loop_Cons using ih l p by blast
qed

text \<open>
  Broadcasting on an event source.  The flags are added to every listener of the source and
  to no other; a thread gets exactly the events of its listeners that watch one of the flags
  they now have (all of them when no flag is given); the kernel invariant and the absence of
  lost events are kept, and the broadcasting call leaves the highest priority thread running.
\<close>

theorem event_broadcast_correct:
  assumes "kinv kd idle {} k" and "evinv k" and "distinct (evt_src k esp)"
  shows "(\<forall>l. evt_lis (chEvtBroadcastFlagsI esp fl k) l =
      (if l \<in> set (evt_src k esp) then (evt_lis k l)\<lparr>el_flags := el_flags (evt_lis k l) OR fl\<rparr>
       else evt_lis k l)) \<and>
    (\<forall>t n. bit (pending (chEvtBroadcastFlagsI esp fl k) t) n \<longleftrightarrow> bit (pending k t) n \<or>
      (\<exists>l \<in> set (evt_src k esp). hit fl (evt_lis k l) \<and> el_listener (evt_lis k l) = t \<and>
        bit (el_events (evt_lis k l)) n)) \<and>
    kinv kd idle {} (chEvtBroadcastFlagsI esp fl k) \<and> evinv (chEvtBroadcastFlagsI esp fl k) \<and>
    kinv kd idle {} (chEvtBroadcastFlags esp fl k) \<and> evinv (chEvtBroadcastFlags esp fl k) \<and>
    highest (chEvtBroadcastFlags esp fl k)"
  unfolding chEvtBroadcastFlags_def chEvtBroadcastFlagsI_def
  using broadcast_loop_inv [OF assms, of fl]
    kinv_chSchRescheduleS [of kd idle "broadcast_loop fl (evt_src k esp) k"] evinv_reschedule
  by blast

section \<open>Dispatching\<close>

lemma dispatch_loop_eq:
  assumes "eid \<le> 32" and "\<And>i. i < eid \<Longrightarrow> \<not> bit ev i"
  shows "dispatch_loop h eid ev s = Some (fold h (filter (bit ev) [eid..<32]) s)"
  using assms
proof (induction "32 - eid" arbitrary: eid ev s)
  case 0
  then have "ev = 0" by (intro bit_word_eqI) auto
  then show ?case by (subst dispatch_loop.simps) simp
next
  case (Suc d)
  then have lt: "eid < 32" and d: "d = 32 - (eid + 1)" by auto
  have up: "[eid..<32] = eid # [eid + 1..<32]" using lt by (simp add: upt_rec)
  have m: "ev AND EVENT_MASK eid \<noteq> 0 \<longleftrightarrow> bit ev eid"
    unfolding bit_eq_iff [of "ev AND EVENT_MASK eid"] using lt by (auto simp: bit_and_iff bit_EVENT_MASK)
  show ?case
  proof (cases "bit ev eid")
    case True
    have b: "bit (ev AND NOT (EVENT_MASK eid)) i \<longleftrightarrow> bit ev i \<and> i \<noteq> eid" for i
      using lt by (auto simp: bit_and_iff bit_not_iff bit_EVENT_MASK bit_imp_le_length dest: bit_imp_le_length)
    have "dispatch_loop h (eid + 1) (ev AND NOT (EVENT_MASK eid)) (h eid s) =
        Some (fold h (filter (bit (ev AND NOT (EVENT_MASK eid))) [eid + 1..<32]) (h eid s))"
      using Suc.prems lt by (intro Suc.hyps(1) [OF d]) (auto simp: b less_Suc_eq)
    moreover have "filter (bit (ev AND NOT (EVENT_MASK eid))) [eid + 1..<32] = filter (bit ev) [eid + 1..<32]"
      by (intro filter_cong) (auto simp: b)
    moreover have "ev \<noteq> 0" using True by auto
    ultimately show ?thesis using True m up by (subst dispatch_loop.simps) simp
  next
    case False
    have "dispatch_loop h (eid + 1) ev s = Some (fold h (filter (bit ev) [eid + 1..<32]) s)"
      using Suc.prems lt False by (intro Suc.hyps(1) [OF d]) (auto simp: less_Suc_eq)
    moreover have "Some s = Some (fold h (filter (bit ev) [eid + 1..<32]) s)" if "ev = 0" using that by simp
    ultimately show ?thesis using False m up by (subst dispatch_loop.simps) auto
  qed
qed

text \<open>
  Dispatching returns for every event mask and calls the handlers of exactly the events in
  the mask, once each, in ascending order of their identifiers.
\<close>

theorem event_dispatch_correct:
  "chEvtDispatch handlers ev s = Some (fold handlers (filter (bit ev) [0..<32]) s)"
  unfolding chEvtDispatch_def by (rule dispatch_loop_eq) simp_all

section \<open>Witnesses\<close>

lemma evinv_boot: "evinv boot"
  by (simp add: evinv_def satisfied_def boot_simps boot_thread_def)

text \<open>Thread 1 has the events 2 and 4 pending; listener 7 of source 6 is registered on it.\<close>

definition event_boot :: kernel where
  "event_boot = set_pending 1 12 (chEvtRegisterMaskWithFlags 6 7 16 3 boot)"

lemma register_boot: "kinv kd 2 {} event_boot" "evinv event_boot"
proof -
  have "kinv kd 2 {} (chEvtRegisterMaskWithFlags 6 7 16 3 boot)"
    using kinv_boot kinv_fields_cong [of "chEvtRegisterMaskWithFlags 6 7 16 3 boot" boot]
    by (simp add: chEvtRegisterMaskWithFlags_def)
  then show "kinv kd 2 {} event_boot" unfolding event_boot_def by blast
  show "evinv event_boot"
    by (simp add: event_boot_def evinv_def satisfied_def boot_simps boot_thread_def chEvtRegisterMaskWithFlags_def)
qed

lemma event_boot_simps:
  "current event_boot = 1" "evt_src event_boot 6 = [7]" "pending event_boot 1 = 12"
  "el_flags (evt_lis event_boot 7) = 0"
  by (simp_all add: event_boot_def chEvtRegisterMaskWithFlags_def boot_simps)

lemma event_signal_correct_witness: "pending (chEvtSignalI 3 5 boot) 3 = 5"
proof -
  have "pending (chEvtSignalI 3 5 boot) = (pending boot)(3 := pending boot 3 OR 5)"
    using event_signal_correct [of "\<lambda>_. KSem", OF kinv_boot evinv_boot, of 3 5] by blast
  then show ?thesis by (simp add: fun_eq_iff boot_simps boot_thread_def)
qed

lemma event_wait_correct_witness:
  "chEvtWaitAll 4 event_boot = (Ret 4, set_pending 1 8 event_boot) \<and>
    tstate (snd (chEvtWaitAny 1 event_boot)) 1 = CH_STATE_WTOREVT"
  using event_wait_correct [of "\<lambda>_. KSem" 2 event_boot 4, OF register_boot]
    event_wait_correct [of "\<lambda>_. KSem" 2 event_boot 1, OF register_boot]
  by (simp add: event_boot_simps)

lemma event_broadcast_correct_witness:
  "el_flags (evt_lis (chEvtBroadcastFlagsI 6 2 event_boot) 7) = 2"
  using event_broadcast_correct [of "\<lambda>_. KSem" 2 event_boot 6 2, OF register_boot]
  by (simp add: event_boot_simps)

end
