(* ===== verification/Semaphores.thy ===== *)
theory Semaphores
  imports Kernel
begin

text \<open>
  Counting semaphores (chsem.c, chsem.h), with \<open>CH_CFG_USE_SEMAPHORES_PRIORITY\<close> off: waiters
  queue in FIFO order.
\<close>

section \<open>Operations\<close>

definition set_sem :: "ptr \<Rightarrow> cnt \<Rightarrow> kernel \<Rightarrow> kernel" where
  "set_sem sp n k = k\<lparr>sem_cnt := (sem_cnt k)(sp := n)\<rparr>"

definition chSemObjectInit :: "ptr \<Rightarrow> cnt \<Rightarrow> kernel \<Rightarrow> kernel" where
  "chSemObjectInit sp n k = set_sem sp n (queue_init (QOBJ sp) k)"

definition chSemFastWaitI :: "ptr \<Rightarrow> kernel \<Rightarrow> kernel" where
  "chSemFastWaitI sp k = set_sem sp (sem_cnt k sp - 1) k"

definition chSemFastSignalI :: "ptr \<Rightarrow> kernel \<Rightarrow> kernel" where
  "chSemFastSignalI sp k = set_sem sp (sem_cnt k sp + 1) k"

definition chSemGetCounterI :: "ptr \<Rightarrow> kernel \<Rightarrow> cnt" where
  "chSemGetCounterI sp k = sem_cnt k sp"

text \<open>The loop \<open>while (++cnt <= 0)\<close> of the reset: the last waiter first.\<close>

function chSemResetI_loop :: "cnt \<Rightarrow> ptr \<Rightarrow> kernel \<Rightarrow> kernel" where
  "chSemResetI_loop n sp k =
    (if n + 1 \<le> 0
     then (let (t, k) = queue_lifo_remove (QOBJ sp) k
           in chSemResetI_loop (n + 1) sp (set_u t MSG_RESET (chSchReadyI t k)))
     else k)"
  by pat_completeness auto
termination by (relation "measure (\<lambda>(n, sp, k). nat (- n))") auto

definition chSemResetI :: "ptr \<Rightarrow> cnt \<Rightarrow> kernel \<Rightarrow> kernel" where
  "chSemResetI sp n k = chSemResetI_loop (sem_cnt k sp) sp (set_sem sp n k)"

definition chSemReset :: "ptr \<Rightarrow> cnt \<Rightarrow> kernel \<Rightarrow> kernel" where
  "chSemReset sp n k = chSchRescheduleS (chSemResetI sp n k)"

definition chSemWaitS :: "ptr \<Rightarrow> kernel \<Rightarrow> msg outcome \<times> kernel" where
  "chSemWaitS sp k =
    (let k = set_sem sp (sem_cnt k sp - 1) k in
     if sem_cnt k sp < 0
     then (let k = set_u (current k) sp k;
               k = queue_insert (current k) (QOBJ sp) k
           in (Switched, chSchGoSleepS CH_STATE_WTSEM k))
     else (Ret MSG_OK, k))"

text \<open>What a switched-out waiter returns when it runs again.\<close>

definition chSemWaitS_resume :: "kernel \<Rightarrow> msg" where
  "chSemWaitS_resume k = u (thd k (current k))"

definition chSemWait :: "ptr \<Rightarrow> kernel \<Rightarrow> msg outcome \<times> kernel" where
  "chSemWait sp k = chSemWaitS sp k"

definition chSemWaitTimeoutS :: "ptr \<Rightarrow> systime \<Rightarrow> kernel \<Rightarrow> msg outcome \<times> kernel" where
  "chSemWaitTimeoutS sp time k =
    (let k = set_sem sp (sem_cnt k sp - 1) k in
     if sem_cnt k sp < 0
     then (if TIME_IMMEDIATE = time
           then (Ret MSG_TIMEOUT, set_sem sp (sem_cnt k sp + 1) k)
           else (let k = set_u (current k) sp k;
                     k = queue_insert (current k) (QOBJ sp) k
                 in (Switched, chSchGoSleepTimeoutS CH_STATE_WTSEM time k)))
     else (Ret MSG_OK, k))"

definition chSemWaitTimeout :: "ptr \<Rightarrow> systime \<Rightarrow> kernel \<Rightarrow> msg outcome \<times> kernel" where
  "chSemWaitTimeout sp time k = chSemWaitTimeoutS sp time k"

definition chSemSignal :: "ptr \<Rightarrow> kernel \<Rightarrow> kernel" where
  "chSemSignal sp k =
    (let k = set_sem sp (sem_cnt k sp + 1) k in
     if sem_cnt k sp \<le> 0
     then (let (t, k) = queue_fifo_remove (QOBJ sp) k in chSchWakeupS t MSG_OK k)
     else k)"

definition chSemSignalI :: "ptr \<Rightarrow> kernel \<Rightarrow> kernel" where
  "chSemSignalI sp k =
    (let k = set_sem sp (sem_cnt k sp + 1) k in
     if sem_cnt k sp \<le> 0
     then (let (t, k) = queue_fifo_remove (QOBJ sp) k in chSchReadyI t (set_u t MSG_OK k))
     else k)"

function chSemAddCounterI :: "ptr \<Rightarrow> cnt \<Rightarrow> kernel \<Rightarrow> kernel" where
  "chSemAddCounterI sp n k =
    (if n > 0
     then (let k = set_sem sp (sem_cnt k sp + 1) k;
               k = (if sem_cnt k sp \<le> 0
                    then (let (t, k) = queue_fifo_remove (QOBJ sp) k
                          in set_u t MSG_OK (chSchReadyI t k))
                    else k)
           in chSemAddCounterI sp (n - 1) k)
     else k)"
  by pat_completeness auto
termination by (relation "measure (\<lambda>(sp, n, k). nat n)") auto

definition chSemSignalWait :: "ptr \<Rightarrow> ptr \<Rightarrow> kernel \<Rightarrow> msg outcome \<times> kernel" where
  "chSemSignalWait sps spw k =
    (let k = set_sem sps (sem_cnt k sps + 1) k;
         k = (if sem_cnt k sps \<le> 0
              then (let (t, k) = queue_fifo_remove (QOBJ sps) k
                    in set_u t MSG_OK (chSchReadyI t k))
              else k);
         k = set_sem spw (sem_cnt k spw - 1) k
     in if sem_cnt k spw < 0
        then (let ctp = current k;
                  k = queue_insert ctp (QOBJ spw) k;
                  k = set_u ctp spw k
              in (Switched, chSchGoSleepS CH_STATE_WTSEM k))
        else (Ret MSG_OK, chSchRescheduleS k))"

declare chSemResetI_loop.simps [simp del] chSemAddCounterI.simps [simp del]

section \<open>Invariant\<close>

text \<open>A negative count is the number of waiters; otherwise nobody waits.\<close>

definition sem_ok :: "ptr \<Rightarrow> kernel \<Rightarrow> bool" where
  "sem_ok sp k \<longleftrightarrow> length (qs k (QOBJ sp)) = nat (- sem_cnt k sp)"

definition sems_ok :: "(ptr \<Rightarrow> okind) \<Rightarrow> kernel \<Rightarrow> bool" where
  "sems_ok kd k \<longleftrightarrow> (\<forall>sp. kd sp = KSem \<longrightarrow> sem_ok sp k)"

text \<open>The invariant of the kernel with its semaphores.\<close>

definition semk :: "(ptr \<Rightarrow> okind) \<Rightarrow> ptr \<Rightarrow> kernel \<Rightarrow> bool" where
  "semk kd idle k \<longleftrightarrow> kinv kd idle {} k \<and> sems_ok kd k"

lemma set_sem_fields [simp]:
  "thd (set_sem sp n k) = thd k" "qs (set_sem sp n k) = qs k" "current (set_sem sp n k) = current k"
  "sem_cnt (set_sem sp n k) = (sem_cnt k)(sp := n)" "kinv kd idle D (set_sem sp n k) = kinv kd idle D k"
  "highest (set_sem sp n k) = highest k" "in_queue (set_sem sp n k) = in_queue k"
  by (simp_all add: set_sem_def highest_def)

lemma sem_waiters:
  "sem_ok sp k \<Longrightarrow> sem_cnt k sp < 0 \<longleftrightarrow> qs k (QOBJ sp) \<noteq> []"
  by (cases "qs k (QOBJ sp)") (auto simp: sem_ok_def)

lemma sems_ok_upd:
  assumes ok: "sems_ok kd k" and other: "\<And>s. s \<noteq> sp \<Longrightarrow> kd s = KSem \<Longrightarrow>
      qs k' (QOBJ s) = qs k (QOBJ s) \<and> sem_cnt k' s = sem_cnt k s"
    and this: "sem_ok sp k'"
  shows "sems_ok kd k'"
  using assms unfolding sems_ok_def sem_ok_def by metis

section \<open>Blocking and waking\<close>

lemma semk_block:
  assumes s: "semk kd idle k" and kd: "kd sp = KSem" and idle: "current k \<noteq> idle" and c: "sem_cnt k sp \<le> 0"
  defines "k' \<equiv> chSchGoSleepS CH_STATE_WTSEM
    (queue_insert (current k) (QOBJ sp) (set_u (current k) sp (set_sem sp (sem_cnt k sp - 1) k)))"
  shows "semk kd idle k' \<and> highest k' \<and> sem_cnt k' = (sem_cnt k)(sp := sem_cnt k sp - 1) \<and>
    qs k' (QOBJ sp) = qs k (QOBJ sp) @ [current k]"
proof -
  let ?k = "set_sem sp (sem_cnt k sp - 1) k"
  have "kinv kd idle {} k' \<and> highest k'"
    unfolding k'_def using kinv_block [of kd idle ?k CH_STATE_WTSEM sp sp queue_insert] s idle kd
    by (simp add: semk_def)
  moreover have q: "qs k' (QOBJ s) = (if s = sp then qs k (QOBJ sp) @ [current k] else qs k (QOBJ s))" for s
    by (simp add: k'_def q_insert_def)
  moreover have cn: "sem_cnt k' = (sem_cnt k)(sp := sem_cnt k sp - 1)" by (simp add: k'_def)
  moreover have "sem_ok sp k" using s kd by (simp add: semk_def sems_ok_def)
  then have "sem_ok sp k'" using q cn c by (simp add: sem_ok_def)
  then have "sems_ok kd k'"
    using sems_ok_upd [of kd k sp k'] s q cn by (simp add: semk_def)
  ultimately show ?thesis by (simp add: semk_def)
qed

text \<open>The first or the last waiter leaves the queue while the count goes up by one.\<close>

lemma semk_wake:
  assumes s: "semk kd idle k" and kd: "kd sp = KSem" and t: "t \<in> set (qs k (QOBJ sp))"
    and k': "k' \<in> {chSchReadyI t (set_u t m (queue_dequeue t k0)), set_u t m (chSchReadyI t (queue_dequeue t k0)),
      chSchWakeupS t m (queue_dequeue t k0)}" and k0: "k0 = set_sem sp (sem_cnt k sp + 1) k"
  shows "semk kd idle k' \<and> sem_cnt k' = (sem_cnt k)(sp := sem_cnt k sp + 1) \<and>
    qs k' (QOBJ sp) = remove1 t (qs k (QOBJ sp)) \<and> u (thd k' t) = m"
proof -
  have i: "kinv kd idle {} k0" and ts: "t \<in> set (qs k0 (QOBJ sp))"
    using s t by (simp_all add: semk_def k0)
  have "kinv kd idle {} k'" using kinv_release [OF i ts, of m] k' by auto
  moreover have q: "qs k' (QOBJ s) = q_dequeue t (qs k) (QOBJ s)" for s
    using k' k0 by (auto simp: q_prio_insert_def)
  moreover have cn: "sem_cnt k' = (sem_cnt k)(sp := sem_cnt k sp + 1)" using k' k0 by auto
  moreover have "sem_ok sp k" using s kd by (simp add: semk_def sems_ok_def)
  then have "sem_ok sp k'"
    using q cn t sem_waiters [of sp k] by (auto simp: sem_ok_def q_dequeue_def length_remove1)
  moreover have "q_dequeue t (qs k) (QOBJ s) = qs k (QOBJ s)" if "s \<noteq> sp" for s
    using q_dequeue_other [of "qs k" t "QOBJ sp" "QOBJ s"] t kinv_queues [of kd idle "{}" k] s that
    by (simp add: semk_def)
  ultimately have "sems_ok kd k'"
    using sems_ok_upd [of kd k sp k'] s by (simp add: semk_def)
  moreover have "u (thd k' t) = m" using k' by auto
  moreover have "kinv kd idle {} k'" using kinv_release [OF i ts, of m] k' by auto
  ultimately show ?thesis using q cn by (simp add: semk_def q_dequeue_def)
qed

text \<open>Nobody waits: the count goes up.\<close>

lemma semk_count:
  assumes s: "semk kd idle k" and n: "0 \<le> n" and e: "qs k (QOBJ sp) = []"
  shows "semk kd idle (set_sem sp n k)"
proof -
  have ok: "sems_ok kd k" using s by (simp add: semk_def)
  have "sem_ok sp (set_sem sp n k)" using n e by (simp add: sem_ok_def)
  then have "sems_ok kd (set_sem sp n k)"
    using sems_ok_upd [OF ok, of sp "set_sem sp n k"] by simp
  then show ?thesis using s by (simp add: semk_def)
qed

lemma semk_fifo:
  "semk kd idle k \<Longrightarrow> qs k (QOBJ sp) = t # r \<Longrightarrow>
    queue_fifo_remove (QOBJ sp) (set_sem sp n k) = (t, queue_dequeue t (set_sem sp n k))"
  by (rule fifo_remove_eq [where D = "{}" and kd = kd and idle = idle]) (simp_all add: semk_def)

lemma semk_sem_ok: "semk kd idle k \<Longrightarrow> kd sp = KSem \<Longrightarrow> sem_ok sp k"
  by (simp add: semk_def sems_ok_def)

lemma chSemWaitS_eq:
  "chSemWaitS sp k =
    (if sem_cnt k sp \<le> 0
     then (Switched, chSchGoSleepS CH_STATE_WTSEM
       (queue_insert (current k) (QOBJ sp) (set_u (current k) sp (set_sem sp (sem_cnt k sp - 1) k))))
     else (Ret MSG_OK, set_sem sp (sem_cnt k sp - 1) k))"
  by (simp add: chSemWaitS_def Let_def)

lemma chSemSignal_eq:
  assumes s: "semk kd idle k" and kd: "kd sp = KSem"
  shows "chSemSignal sp k = (case qs k (QOBJ sp) of
      [] \<Rightarrow> set_sem sp (sem_cnt k sp + 1) k
    | t # r \<Rightarrow> chSchWakeupS t MSG_OK (queue_dequeue t (set_sem sp (sem_cnt k sp + 1) k)))"
    "chSemSignalI sp k = (case qs k (QOBJ sp) of
      [] \<Rightarrow> set_sem sp (sem_cnt k sp + 1) k
    | t # r \<Rightarrow> chSchReadyI t (set_u t MSG_OK (queue_dequeue t (set_sem sp (sem_cnt k sp + 1) k))))"
proof -
  have w: "sem_cnt k sp < 0 \<longleftrightarrow> qs k (QOBJ sp) \<noteq> []" by (rule sem_waiters [OF semk_sem_ok [OF s kd]])
  have iff: "sem_cnt k sp + 1 \<le> 0 \<longleftrightarrow> sem_cnt k sp < 0" by linarith
  show "chSemSignal sp k = (case qs k (QOBJ sp) of
      [] \<Rightarrow> set_sem sp (sem_cnt k sp + 1) k
    | t # r \<Rightarrow> chSchWakeupS t MSG_OK (queue_dequeue t (set_sem sp (sem_cnt k sp + 1) k)))"
    using w semk_fifo [OF s] by (simp add: chSemSignal_def Let_def iff split: list.splits)
  show "chSemSignalI sp k = (case qs k (QOBJ sp) of
      [] \<Rightarrow> set_sem sp (sem_cnt k sp + 1) k
    | t # r \<Rightarrow> chSchReadyI t (set_u t MSG_OK (queue_dequeue t (set_sem sp (sem_cnt k sp + 1) k))))"
    using w semk_fifo [OF s] by (simp add: chSemSignalI_def Let_def iff split: list.splits)
qed

lemma semk_reschedule: "semk kd idle k \<Longrightarrow> semk kd idle (chSchRescheduleS k) \<and> highest (chSchRescheduleS k)"
  using kinv_chSchRescheduleS [of kd idle k] by (auto simp: semk_def sems_ok_def sem_ok_def)

text \<open>1 if some thread waits on the semaphore: a signal then grants its count to that thread.\<close>

definition waits :: "ptr \<Rightarrow> kernel \<Rightarrow> nat" where
  "waits sp k = (if qs k (QOBJ sp) = [] then 0 else 1)"

lemma waits_cong: "qs k' = qs k \<Longrightarrow> waits sp k' = waits sp k"
  by (simp add: waits_def)

lemma semk_waits:
  "semk kd idle k \<Longrightarrow> kd sp = KSem \<Longrightarrow> waits sp k = (if sem_cnt k sp < 0 then 1 else 0)"
  using sem_waiters [OF semk_sem_ok] by (simp add: waits_def)

lemma semk_cong:
  "thd k' = thd k \<Longrightarrow> qs k' = qs k \<Longrightarrow> current k' = current k \<Longrightarrow> sem_cnt k' = sem_cnt k \<Longrightarrow>
    semk kd idle k' = semk kd idle k"
  by (simp add: semk_def sems_ok_def sem_ok_def kinv_fields_cong [of k' k])

text \<open>Waiting with a timeout, on every branch.\<close>

lemma semk_wait_timeout:
  assumes s: "semk kd idle k" and kd: "kd sp = KSem" and idle: "current k \<noteq> idle"
  shows "if 0 < sem_cnt k sp then
      chSemWaitTimeoutS sp time k = (Ret MSG_OK, set_sem sp (sem_cnt k sp - 1) k) \<and>
      semk kd idle (set_sem sp (sem_cnt k sp - 1) k)
    else if time = TIME_IMMEDIATE then chSemWaitTimeoutS sp time k = (Ret MSG_TIMEOUT, k)
    else fst (chSemWaitTimeoutS sp time k) = Switched \<and> semk kd idle (snd (chSemWaitTimeoutS sp time k)) \<and>
      highest (snd (chSemWaitTimeoutS sp time k)) \<and>
      sem_cnt (snd (chSemWaitTimeoutS sp time k)) = (sem_cnt k)(sp := sem_cnt k sp - 1) \<and>
      qs (snd (chSemWaitTimeoutS sp time k)) (QOBJ sp) = qs k (QOBJ sp) @ [current k]"
proof (cases "0 < sem_cnt k sp")
  case True
  then have "semk kd idle (set_sem sp (sem_cnt k sp - 1) k)"
    using semk_count [OF s, of "sem_cnt k sp - 1" sp] sem_waiters [OF semk_sem_ok [OF s kd]]
    by (cases "qs k (QOBJ sp)") auto
  then show ?thesis using True by (simp add: chSemWaitTimeoutS_def Let_def)
next
  case False
  let ?k = "queue_insert (current k) (QOBJ sp) (set_u (current k) sp (set_sem sp (sem_cnt k sp - 1) k))"
  have "sem_cnt k sp \<le> 0" using False by simp
  note b = semk_block [OF s kd idle this]
  have eq: "chSemWaitTimeoutS sp time k =
      (if time = TIME_IMMEDIATE then (Ret MSG_TIMEOUT, k) else (Switched, chSchGoSleepTimeoutS CH_STATE_WTSEM time ?k))"
    using False by (auto simp: chSemWaitTimeoutS_def Let_def set_sem_def)
  have v: "semk kd idle (chSchGoSleepTimeoutS CH_STATE_WTSEM time ?k) = semk kd idle (chSchGoSleepS CH_STATE_WTSEM ?k)"
    "highest (chSchGoSleepTimeoutS CH_STATE_WTSEM time ?k) = highest (chSchGoSleepS CH_STATE_WTSEM ?k)"
    by (rule semk_cong highest_cong; simp only: sleep_timeout_view)+
  show ?thesis unfolding eq using False b v by simp
qed

lemma semk_signals:
  assumes s: "semk kd idle k" and kd: "kd sp = KSem"
  shows "semk kd idle (chSemSignal sp k) \<and> semk kd idle (chSemSignalI sp k) \<and>
    sem_cnt (chSemSignal sp k) = (sem_cnt k)(sp := sem_cnt k sp + 1) \<and>
    sem_cnt (chSemSignalI sp k) = (sem_cnt k)(sp := sem_cnt k sp + 1) \<and>
    qs (chSemSignal sp k) (QOBJ sp) = tl (qs k (QOBJ sp)) \<and>
    qs (chSemSignalI sp k) (QOBJ sp) = tl (qs k (QOBJ sp)) \<and>
    (highest k \<longrightarrow> highest (chSemSignal sp k))"
proof (cases "qs k (QOBJ sp)")
  case Nil
  then have "\<not> sem_cnt k sp < 0" using sem_waiters [OF semk_sem_ok [OF s kd]] by simp
  then show ?thesis using Nil semk_count [OF s _ Nil] by (simp add: chSemSignal_eq [OF s kd])
next
  case (Cons t r)
  then have t: "t \<in> set (qs k (QOBJ sp))" by simp
  let ?k0 = "set_sem sp (sem_cnt k sp + 1) k"
  have i: "kinv kd idle {} ?k0" and ts: "t \<in> set (qs ?k0 (QOBJ sp))" using s t by (simp_all add: semk_def)
  show ?thesis
    using semk_wake [OF s kd t _ refl, of "chSchWakeupS t MSG_OK (queue_dequeue t ?k0)" MSG_OK]
      semk_wake [OF s kd t _ refl, of "chSchReadyI t (set_u t MSG_OK (queue_dequeue t ?k0))" MSG_OK]
      kinv_release [OF i ts, of MSG_OK] Cons
    by (simp add: chSemSignal_eq [OF s kd])
qed

lemma semk_reset_loop:
  "kinv kd idle {} k \<Longrightarrow> length (qs k (QOBJ sp)) = nat (- n) \<Longrightarrow>
    kinv kd idle {} (chSemResetI_loop n sp k) \<and> qs (chSemResetI_loop n sp k) (QOBJ sp) = [] \<and>
    sem_cnt (chSemResetI_loop n sp k) = sem_cnt k \<and>
    (\<forall>q. q \<noteq> RLIST \<longrightarrow> q \<noteq> QOBJ sp \<longrightarrow> qs (chSemResetI_loop n sp k) q = qs k q) \<and>
    current (chSemResetI_loop n sp k) = current k \<and>
    (\<forall>t \<in> set (qs k (QOBJ sp)). tstate (chSemResetI_loop n sp k) t = CH_STATE_READY \<and>
      u (thd (chSemResetI_loop n sp k) t) = MSG_RESET) \<and>
    (\<forall>t. t \<notin> set (qs k (QOBJ sp)) \<longrightarrow> thd (chSemResetI_loop n sp k) t = thd k t)"
proof (induction n sp k rule: chSemResetI_loop.induct)
  case (1 n sp k)
  show ?case
  proof (cases "n + 1 \<le> 0")
    case False
    then show ?thesis using 1 by (simp add: chSemResetI_loop.simps [of n])
  next
    case True
    then have "qs k (QOBJ sp) \<noteq> []" using 1(3) by auto
    then obtain r t where q: "qs k (QOBJ sp) = r @ [t]" by (cases "qs k (QOBJ sp)" rule: rev_cases) auto
    have fr: "queue_lifo_remove (QOBJ sp) k = (t, queue_dequeue t k)"
      by (rule lifo_remove_eq [OF 1(2) q])
    let ?k = "set_u t MSG_RESET (chSchReadyI t (queue_dequeue t k))"
    have tm: "t \<in> set (qs k (QOBJ sp))" using q by simp
    have i: "kinv kd idle {} ?k" using kinv_release [OF 1(2) tm] by simp
    have Q: "queues_ok (qs k)" by (rule kinv_queues [OF 1(2)])
    have "distinct (qs k (QOBJ sp))" using Q unfolding queues_ok_def by blast
    then have tr: "t \<notin> set r" using q by simp
    have qk: "qs ?k (QOBJ sp) = r" using q tr by (simp add: q_prio_insert_def q_dequeue_def remove1_append)
    have len: "length (qs ?k (QOBJ sp)) = nat (- (n + 1))" using qk q 1(3) by simp
    have step: "chSemResetI_loop n sp k = chSemResetI_loop (n + 1) sp ?k"
      using True fr by (simp add: chSemResetI_loop.simps [of n])
    have others: "qs ?k q' = qs k q'" if "q' \<noteq> RLIST" "q' \<noteq> QOBJ sp" for q'
      using that q_dequeue_other [of "qs k" t "QOBJ sp" q'] Q tm by (simp add: q_prio_insert_def)
    note IH = 1(1) [OF True fr [symmetric] refl i len]
    show ?thesis
      unfolding step using IH others qk q tr by auto
  qed
qed

text \<open>
  Waiting on a semaphore.  With a positive count the call returns MSG_OK and takes one; with
  TIME_IMMEDIATE and no count it returns MSG_TIMEOUT and changes nothing; otherwise the caller
  is switched out as the last waiter, and the kernel and semaphore invariants hold.
\<close>

theorem sem_wait_correct:
  assumes "semk kd idle k" and "kd sp = KSem" and "current k \<noteq> idle"
  shows "(if 0 < sem_cnt k sp
      then chSemWaitS sp k = (Ret MSG_OK, set_sem sp (sem_cnt k sp - 1) k)
      else fst (chSemWaitS sp k) = Switched \<and>
        qs (snd (chSemWaitS sp k)) (QOBJ sp) = qs k (QOBJ sp) @ [current k] \<and>
        sem_cnt (snd (chSemWaitS sp k)) = (sem_cnt k)(sp := sem_cnt k sp - 1) \<and>
        highest (snd (chSemWaitS sp k))) \<and>
    semk kd idle (snd (chSemWaitS sp k)) \<and>
    chSemWaitTimeoutS sp TIME_IMMEDIATE k =
      (if 0 < sem_cnt k sp then (Ret MSG_OK, set_sem sp (sem_cnt k sp - 1) k) else (Ret MSG_TIMEOUT, k)) \<and>
    chSemWaitTimeoutS sp TIME_INFINITE k = chSemWaitS sp k"
proof -
  have inf: "TIME_INFINITE \<noteq> TIME_IMMEDIATE" by (simp add: TIME_INFINITE_def TIME_IMMEDIATE_def)
  have "semk kd idle (set_sem sp (sem_cnt k sp - 1) k)" if "0 < sem_cnt k sp"
    using semk_count [OF assms(1), of "sem_cnt k sp - 1" sp] that sem_waiters [OF semk_sem_ok [OF assms(1,2)]]
    by (cases "qs k (QOBJ sp)") auto
  then show ?thesis
    using semk_block [OF assms] inf
    by (auto simp: chSemWaitS_eq chSemWaitTimeoutS_def chSchGoSleepTimeoutS_def Let_def set_sem_def)
qed

definition sem_example :: "ptr \<Rightarrow> okind" where
  "sem_example p = (if p = 100 then KSem else KQueue)"

lemma semk_boot: "semk kd 2 boot"
  by (simp add: semk_def kinv_boot sems_ok_def sem_ok_def boot_simps)

lemma sem_wait_correct_witness:
  "fst (chSemWaitS 100 boot) = Switched \<and> qs (snd (chSemWaitS 100 boot)) (QOBJ 100) = [1]"
proof -
  have kd: "sem_example 100 = KSem" by (simp add: sem_example_def)
  have "current boot \<noteq> 2" by (simp add: boot_simps)
  from sem_wait_correct [of sem_example 2 boot 100, OF semk_boot kd this] show ?thesis by (simp add: boot_simps)
qed



lemma semk_reset:
  assumes "semk kd idle k" and "kd sp = KSem" and "0 \<le> n"
  shows "semk kd idle (chSemResetI sp n k) \<and>
    sem_cnt (chSemResetI sp n k) = (sem_cnt k)(sp := n) \<and> qs (chSemResetI sp n k) (QOBJ sp) = [] \<and>
    (\<forall>t \<in> set (qs k (QOBJ sp)). tstate (chSemResetI sp n k) t = CH_STATE_READY \<and>
      u (thd (chSemResetI sp n k) t) = MSG_RESET) \<and>
    (\<forall>t. t \<notin> set (qs k (QOBJ sp)) \<longrightarrow> thd (chSemResetI sp n k) t = thd k t) \<and>
    current (chSemResetI sp n k) = current k \<and>
    (\<forall>q. q \<noteq> RLIST \<longrightarrow> q \<noteq> QOBJ sp \<longrightarrow> qs (chSemResetI sp n k) q = qs k q) \<and>
    semk kd idle (chSemReset sp n k) \<and> highest (chSemReset sp n k)"
proof -
  have ok: "sem_ok sp k" by (rule semk_sem_ok [OF assms(1,2)])
  have i: "kinv kd idle {} (set_sem sp n k)" and l: "length (qs (set_sem sp n k) (QOBJ sp)) = nat (- sem_cnt k sp)"
    using assms(1) ok by (simp_all add: semk_def sem_ok_def)
  note r = semk_reset_loop [OF i l, folded chSemResetI_def]
  have "sem_ok sp (chSemResetI sp n k)" using r assms(3) by (simp add: sem_ok_def)
  then have "sems_ok kd (chSemResetI sp n k)"
    using sems_ok_upd [of kd k sp "chSemResetI sp n k"] r assms(1) by (simp add: semk_def)
  then have "semk kd idle (chSemResetI sp n k)" using r by (simp add: semk_def)
  then show ?thesis using r semk_reschedule by (simp add: chSemReset_def)
qed

text \<open>
  Resetting a semaphore.  The count becomes the new value, every waiter leaves the queue and
  becomes ready with MSG_RESET, nobody else is touched, the caller keeps running, and all
  invariants are kept; chSemReset then runs the thread of highest priority.
\<close>

theorem sem_reset_correct:
  assumes "semk kd idle k" and "kd sp = KSem" and "0 \<le> n"
  shows "semk kd idle (chSemResetI sp n k) \<and>
    sem_cnt (chSemResetI sp n k) = (sem_cnt k)(sp := n) \<and> qs (chSemResetI sp n k) (QOBJ sp) = [] \<and>
    (\<forall>t \<in> set (qs k (QOBJ sp)). tstate (chSemResetI sp n k) t = CH_STATE_READY \<and>
      u (thd (chSemResetI sp n k) t) = MSG_RESET) \<and>
    (\<forall>t. t \<notin> set (qs k (QOBJ sp)) \<longrightarrow> thd (chSemResetI sp n k) t = thd k t) \<and>
    current (chSemResetI sp n k) = current k \<and>
    semk kd idle (chSemReset sp n k) \<and> highest (chSemReset sp n k)"
  using semk_reset [OF assms] by blast

lemma sem_reset_correct_witness:
  "sem_cnt (chSemResetI 100 7 boot) 100 = 7 \<and> semk sem_example 2 (chSemReset 100 7 boot)"
proof -
  have kd: "sem_example 100 = KSem" by (simp add: sem_example_def)
  from sem_reset_correct [of sem_example 2 boot 100 7, OF semk_boot kd] show ?thesis by simp
qed

lemma sem_wake_later:
  assumes s: "semk kd idle k" and kd: "kd sp = KSem"
  defines "k1 \<equiv> set_sem sp (sem_cnt k sp + 1) k"
  defines "k' \<equiv> (if sem_cnt k1 sp \<le> 0
      then (let (t, k) = queue_fifo_remove (QOBJ sp) k1 in set_u t MSG_OK (chSchReadyI t k)) else k1)"
  shows "semk kd idle k' \<and> sem_cnt k' = (sem_cnt k)(sp := sem_cnt k sp + 1) \<and>
    qs k' (QOBJ sp) = tl (qs k (QOBJ sp)) \<and> current k' = current k"
proof (cases "qs k (QOBJ sp)")
  case Nil
  then have "\<not> sem_cnt k sp < 0" using sem_waiters [OF semk_sem_ok [OF s kd]] by simp
  then show ?thesis using Nil semk_count [OF s _ Nil] by (simp add: k'_def k1_def)
next
  case (Cons t r)
  then have "sem_cnt k sp < 0" using sem_waiters [OF semk_sem_ok [OF s kd]] by simp
  then have k': "k' = set_u t MSG_OK (chSchReadyI t (queue_dequeue t k1))"
    using semk_fifo [OF s Cons] by (simp add: k'_def k1_def)
  have t: "t \<in> set (qs k (QOBJ sp))" using Cons by simp
  show ?thesis using semk_wake [OF s kd t _ k1_def [THEN meta_eq_to_obj_eq], of k' MSG_OK] k' Cons
    by (simp add: k1_def)
qed

text \<open>
  Adding \<open>n\<close> to a counter is \<open>n\<close> signals without rescheduling: the count goes up by \<open>n\<close>,
  the first \<open>n\<close> waiters leave the queue, the caller keeps running and the invariants hold.
\<close>

theorem sem_add_counter_correct:
  assumes "semk kd idle k" and "kd sp = KSem" and "0 \<le> n"
  shows "semk kd idle (chSemAddCounterI sp n k) \<and>
    sem_cnt (chSemAddCounterI sp n k) = (sem_cnt k)(sp := sem_cnt k sp + n) \<and>
    qs (chSemAddCounterI sp n k) (QOBJ sp) = drop (nat n) (qs k (QOBJ sp)) \<and>
    current (chSemAddCounterI sp n k) = current k"
  using assms
proof (induction sp n k rule: chSemAddCounterI.induct)
  case (1 sp n k)
  show ?case
  proof (cases "0 < n")
    case False
    then have "chSemAddCounterI sp n k = k" by (subst chSemAddCounterI.simps) simp
    moreover have "n = 0" using False 1(4) by simp
    ultimately show ?thesis using 1(2) by (simp add: fun_upd_idem)
  next
    case True
    define k1 where "k1 = set_sem sp (sem_cnt k sp + 1) k"
    define k2 where "k2 = (if sem_cnt k1 sp \<le> 0
      then (let (t, k) = queue_fifo_remove (QOBJ sp) k1 in set_u t MSG_OK (chSchReadyI t k)) else k1)"
    note w = sem_wake_later [OF 1(2,3), folded k1_def, folded k2_def]
    have step: "chSemAddCounterI sp n k = chSemAddCounterI sp (n - 1) k2"
      using True by (simp add: chSemAddCounterI.simps [of sp n] k2_def k1_def Let_def)
    have "nat n = Suc (nat (n - 1))" using True by simp
    then show ?thesis
      unfolding step using 1(1) [OF True k1_def k2_def] w True 1(3)
      by (auto simp: drop_Suc)
  qed
qed

lemma sem_add_counter_correct_witness:
  "sem_cnt (chSemAddCounterI 100 5 boot) 100 = 5"
proof -
  have kd: "sem_example 100 = KSem" by (simp add: sem_example_def)
  from sem_add_counter_correct [of sem_example 2 boot 100 5, OF semk_boot kd] show ?thesis by (simp add: boot_simps)
qed

text \<open>
  The atomic signal and wait gives one count to the first semaphore and takes one from the
  second: it returns MSG_OK when the second has one, and otherwise switches the caller out as
  its last waiter; the invariants hold and the thread of highest priority runs.
\<close>

theorem sem_signal_wait_correct:
  assumes "semk kd idle k" and "kd sps = KSem" and "kd spw = KSem" and "current k \<noteq> idle"
  defines "c \<equiv> ((sem_cnt k)(sps := sem_cnt k sps + 1)) spw"
  shows "semk kd idle (snd (chSemSignalWait sps spw k)) \<and> highest (snd (chSemSignalWait sps spw k)) \<and>
    sem_cnt (snd (chSemSignalWait sps spw k)) = ((sem_cnt k)(sps := sem_cnt k sps + 1))(spw := c - 1) \<and>
    fst (chSemSignalWait sps spw k) = (if 0 < c then Ret MSG_OK else Switched)"
proof -
  define k1 where "k1 = set_sem sps (sem_cnt k sps + 1) k"
  define k2 where "k2 = (if sem_cnt k1 sps \<le> 0
      then (let (t, k) = queue_fifo_remove (QOBJ sps) k1 in set_u t MSG_OK (chSchReadyI t k)) else k1)"
  note w = sem_wake_later [OF assms(1,2), folded k1_def, folded k2_def]
  have c: "sem_cnt k2 spw = c" using w by (simp add: c_def)
  define k3 where "k3 = set_sem spw (sem_cnt k2 spw - 1) k2"
  have eq: "chSemSignalWait sps spw k =
      (if sem_cnt k3 spw < 0
       then (Switched, chSchGoSleepS CH_STATE_WTSEM
         (set_u (current k3) spw (queue_insert (current k3) (QOBJ spw) k3)))
       else (Ret MSG_OK, chSchRescheduleS k3))"
    by (simp add: chSemSignalWait_def Let_def k1_def k2_def k3_def)
  have comm: "set_u t w (queue_insert t q k) = queue_insert t q (set_u t w k)" for t w q k
    by (simp add: set_u_def upd_thd_def queue_insert_def)
  show ?thesis
  proof (cases "0 < c")
    case True
    then have "qs k2 (QOBJ spw) = []"
      using sem_waiters [OF semk_sem_ok [of kd idle k2 spw]] w assms(3) c by fastforce
    then have "semk kd idle k3" using semk_count [of kd idle k2 "c - 1" spw] w c True by (simp add: k3_def)
    then show ?thesis using True w c semk_reschedule [of kd idle k3] by (simp add: eq k3_def)
  next
    case False
    then show ?thesis
      using semk_block [of kd idle k2 spw] w c assms(3,4) by (simp add: eq comm k3_def)
  qed
qed

lemma sem_signal_wait_correct_witness:
  "fst (chSemSignalWait 100 100 boot) = Ret MSG_OK"
proof -
  have kd: "sem_example 100 = KSem" by (simp add: sem_example_def)
  have "current boot \<noteq> 2" by (simp add: boot_simps)
  from sem_signal_wait_correct [of sem_example 2 boot 100 100, OF semk_boot kd kd this] show ?thesis by (simp add: boot_simps)
qed

end
