(* ===== verification/BinSems.thy ===== *)
theory BinSems
  imports Semaphores
begin

text \<open>
  Binary semaphores (chbsem.h): a counting semaphore whose count stays at most 1.  The address of
  a binary semaphore is that of the semaphore in it.
\<close>

section \<open>Operations\<close>

definition chBSemObjectInit :: "ptr \<Rightarrow> bool \<Rightarrow> kernel \<Rightarrow> kernel" where
  "chBSemObjectInit bsp taken k = chSemObjectInit bsp (if taken then 0 else 1) k"

definition chBSemWait :: "ptr \<Rightarrow> kernel \<Rightarrow> msg outcome \<times> kernel" where
  "chBSemWait bsp k = chSemWait bsp k"

definition chBSemWaitS :: "ptr \<Rightarrow> kernel \<Rightarrow> msg outcome \<times> kernel" where
  "chBSemWaitS bsp k = chSemWaitS bsp k"

definition chBSemWaitTimeoutS :: "ptr \<Rightarrow> systime \<Rightarrow> kernel \<Rightarrow> msg outcome \<times> kernel" where
  "chBSemWaitTimeoutS bsp time k = chSemWaitTimeoutS bsp time k"

definition chBSemWaitTimeout :: "ptr \<Rightarrow> systime \<Rightarrow> kernel \<Rightarrow> msg outcome \<times> kernel" where
  "chBSemWaitTimeout bsp time k = chSemWaitTimeout bsp time k"

definition chBSemResetI :: "ptr \<Rightarrow> bool \<Rightarrow> kernel \<Rightarrow> kernel" where
  "chBSemResetI bsp taken k = chSemResetI bsp (if taken then 0 else 1) k"

definition chBSemReset :: "ptr \<Rightarrow> bool \<Rightarrow> kernel \<Rightarrow> kernel" where
  "chBSemReset bsp taken k = chSemReset bsp (if taken then 0 else 1) k"

definition chBSemSignalI :: "ptr \<Rightarrow> kernel \<Rightarrow> kernel" where
  "chBSemSignalI bsp k = (if sem_cnt k bsp < 1 then chSemSignalI bsp k else k)"

definition chBSemSignal :: "ptr \<Rightarrow> kernel \<Rightarrow> kernel" where
  "chBSemSignal bsp k = chSchRescheduleS (chBSemSignalI bsp k)"

definition chBSemGetStateI :: "ptr \<Rightarrow> kernel \<Rightarrow> bool" where
  "chBSemGetStateI bsp k = (if sem_cnt k bsp > 0 then False else True)"

section \<open>A token and its waiters\<close>

text \<open>
  The abstract semaphore is free with nobody waiting, or taken with a queue of waiters; giving
  it back passes it to the first waiter.
\<close>

datatype bsem = Free | Taken "ptr list"

definition bsem_of :: "ptr \<Rightarrow> kernel \<Rightarrow> bsem" where
  "bsem_of bsp k = (if sem_cnt k bsp > 0 then Free else Taken (qs k (QOBJ bsp)))"

fun bsem_take :: "ptr \<Rightarrow> bsem \<Rightarrow> bsem" where
  "bsem_take t Free = Taken []"
| "bsem_take t (Taken ws) = Taken (ws @ [t])"

fun bsem_give :: "bsem \<Rightarrow> bsem" where
  "bsem_give Free = Free"
| "bsem_give (Taken []) = Free"
| "bsem_give (Taken (w # ws)) = Taken ws"

definition bsem_ok :: "(ptr \<Rightarrow> okind) \<Rightarrow> ptr \<Rightarrow> ptr \<Rightarrow> kernel \<Rightarrow> bool" where
  "bsem_ok kd idle bsp k \<longleftrightarrow> semk kd idle k \<and> kd bsp = KSem \<and> sem_cnt k bsp \<le> 1"

lemma bsem_taken_count: "bsem_ok kd idle bsp k \<Longrightarrow> sem_cnt k bsp = 1 \<or> sem_cnt k bsp = - int (length (qs k (QOBJ bsp)))"
  using semk_sem_ok [of kd idle k bsp] by (auto simp: bsem_ok_def sem_ok_def)

lemma vfunc_sleep_timeout:
  "vfunc (chSchGoSleepTimeoutS st time k) =
    (if time = TIME_INFINITE then vfunc k else (vfunc k)(StackVt (current k) := Some (Wakeup (current k))))"
  by (auto simp: chSchGoSleepTimeoutS_def chVTDoSetI_def Let_def split: list.splits)

text \<open>The wait with a timeout, on every branch; without a limit it is the plain wait.\<close>

lemma bsem_wait_timeout:
  assumes ok: "bsem_ok kd idle bsp k" and idle: "current k \<noteq> idle"
  shows "bsem_ok kd idle bsp (snd (chBSemWaitTimeoutS bsp time k))" (is ?ok)
    and "fst (chBSemWaitTimeoutS bsp time k) =
      (if bsem_of bsp k = Free then Ret MSG_OK else if time = TIME_IMMEDIATE then Ret MSG_TIMEOUT else Switched)" (is ?res)
    and "bsem_of bsp (snd (chBSemWaitTimeoutS bsp time k)) =
      (if bsem_of bsp k \<noteq> Free \<and> time = TIME_IMMEDIATE then bsem_of bsp k
       else bsem_take (current k) (bsem_of bsp k))" (is ?tok)
    and "bsem_of bsp k \<noteq> Free \<Longrightarrow> time = TIME_IMMEDIATE \<Longrightarrow> snd (chBSemWaitTimeoutS bsp time k) = k"
    and "vfunc (snd (chBSemWaitTimeoutS bsp time k)) =
      (if bsem_of bsp k = Free \<or> time \<in> {TIME_IMMEDIATE, TIME_INFINITE} then vfunc k
       else (vfunc k)(StackVt (current k) := Some (Wakeup (current k))))" (is ?timer)
proof -
  have s: "semk kd idle k" and kd: "kd bsp = KSem" and c: "sem_cnt k bsp \<le> 1" using ok by (simp_all add: bsem_ok_def)
  note wt = semk_wait_timeout [OF s kd idle, of time]
  have q: "0 < sem_cnt k bsp \<Longrightarrow> qs k (QOBJ bsp) = []"
    using semk_sem_ok [OF s kd] by (auto simp: sem_ok_def)
  have eq: "chBSemWaitTimeoutS bsp time k = chSemWaitTimeoutS bsp time k" by (simp add: chBSemWaitTimeoutS_def)
  have "?ok \<and> ?res \<and> ?tok"
  proof (cases "0 < sem_cnt k bsp")
    case True
    then show ?thesis using wt q kd c unfolding eq by (simp add: bsem_of_def bsem_ok_def)
  next
    case False
    then show ?thesis using wt kd s unfolding eq
      by (cases "time = TIME_IMMEDIATE") (simp_all add: bsem_of_def bsem_ok_def)
  qed
  then show ?ok ?res ?tok by blast+
  show "snd (chBSemWaitTimeoutS bsp time k) = k" if "bsem_of bsp k \<noteq> Free" "time = TIME_IMMEDIATE"
    using wt that by (auto simp: chBSemWaitTimeoutS_def bsem_of_def split: if_splits)
  have "TIME_INFINITE \<noteq> TIME_IMMEDIATE" by (simp add: TIME_INFINITE_def TIME_IMMEDIATE_def)
  then show ?timer
    by (auto simp: chBSemWaitTimeoutS_def chSemWaitTimeoutS_def bsem_of_def Let_def vfunc_sleep_timeout set_sem_def)
qed

text \<open>The limit of a waiter expires: it leaves the waiters, whatever its place, with MSG_TIMEOUT.\<close>

lemma bsem_timeout:
  assumes ok: "bsem_ok kd idle bsp k" and w: "bsem_of bsp k = Taken ws" "t \<in> set ws"
  shows "bsem_of bsp (wakeup t k) = Taken (remove1 t ws)" and "bsem_ok kd idle bsp (wakeup t k)"
    and "tstate (wakeup t k) t = CH_STATE_READY" and "u (thd (wakeup t k) t) = MSG_TIMEOUT"
proof -
  have s: "semk kd idle k" and kd: "kd bsp = KSem" and i: "kinv kd idle {} k" using ok by (simp_all add: bsem_ok_def semk_def)
  have ws: "qs k (QOBJ bsp) = ws" and c: "sem_cnt k bsp \<le> 0" using w(1) by (auto simp: bsem_of_def split: if_splits)
  have tq: "t \<in> set (qs k (QOBJ bsp))" using w(2) ws by simp
  then have "allowed kd (tstate k t) (u (thd k t)) (QOBJ bsp)"
    using i by (auto simp: kinv_def placed_def)
  then have st: "tstate k t = CH_STATE_WTSEM" "u (thd k t) = bsp" using kd by (cases "tstate k t"; auto)+
  have eq: "wakeup t k = chSchReadyI t (set_u t MSG_TIMEOUT (queue_dequeue t (set_sem bsp (sem_cnt k bsp + 1) k)))"
    using st by (simp add: wakeup_def set_sem_def)
  note sw = semk_wake [OF s kd tq _ refl, of "wakeup t k" MSG_TIMEOUT]
  have neg: "sem_cnt k bsp < 0" using sem_waiters [OF semk_sem_ok [OF s kd]] tq by auto
  show "bsem_of bsp (wakeup t k) = Taken (remove1 t ws)" "bsem_ok kd idle bsp (wakeup t k)"
    using sw eq ws neg kd by (auto simp: bsem_of_def bsem_ok_def)
  show "tstate (wakeup t k) t = CH_STATE_READY" "u (thd (wakeup t k) t) = MSG_TIMEOUT"
    using kinv_wakeup [OF i, of t] st by (simp_all add: timed_def)
qed



text \<open>A new binary semaphore is free or taken as asked.\<close>

lemma bsem_init: "bsem_of bsp (chBSemObjectInit bsp taken k) = (if taken then Taken [] else Free)"
  by (simp add: chBSemObjectInit_def chSemObjectInit_def bsem_of_def set_sem_def queue_init_def)

end
