(* ===== verification/RingBuffers.thy ===== *)
theory RingBuffers
  imports Prelude
begin

text \<open>
  Ring buffers: a buffer of fixed size with a read and a write position, both wrapping to 0 at
  the end.  The mailboxes and the I/O queues store their items this way.  This theory holds what
  their index arithmetic means for the sequence of stored items, and the contract of a bounded
  FIFO both fulfil.
\<close>

section \<open>Contents of a ring\<close>

definition ring_at :: "'a list \<Rightarrow> nat \<Rightarrow> nat \<Rightarrow> 'a list" where
  "ring_at b r n = map (\<lambda>i. b ! ((r + i) mod length b)) [0..<n]"

lemma length_ring_at [simp]: "length (ring_at b r n) = n"
  by (simp add: ring_at_def)

lemma ring_at_0 [simp]: "ring_at b r 0 = []"
  by (simp add: ring_at_def)

lemma ring_at_Nil [simp]: "ring_at b r n = [] \<longleftrightarrow> n = 0"
  by (simp add: ring_at_def)

lemma ring_pos_inj:
  assumes "i < n" and "n < N"
  shows "(r + i) mod N \<noteq> (r + n) mod (N :: nat)"
proof
  assume "(r + i) mod N = (r + n) mod N"
  then have "(r + n) mod N = (r + i) mod N" by simp
  then have "N dvd (r + n) - (r + i)" using assms by (subst mod_eq_dvd_iff_nat [symmetric]) auto
  then show False using assms by (auto dest: dvd_imp_le)
qed

lemma wrap_next: "i < N \<Longrightarrow> (if N \<le> i + 1 then 0 else i + 1) = (i + 1) mod (N :: nat)"
  by (cases "i + 1 = N") auto

lemma wrap_prev: "i < N \<Longrightarrow> ((if i = 0 then N - 1 else i - 1) + 1) mod N = (i :: nat)"
  by auto

lemma ring_write:
  assumes "n < length b"
  shows "ring_at (b[(r + n) mod length b := x]) r (Suc n) = ring_at b r n @ [x]"
proof -
  have "(r + n) mod length b \<noteq> (r + i) mod length b" if "i < n" for i
    using ring_pos_inj [OF that assms] by metis
  moreover have "(r + n) mod length b < length b" using assms by (intro mod_less_divisor) linarith
  ultimately show ?thesis by (auto simp: ring_at_def)
qed

lemma ring_read:
  assumes "0 < n" and "r < length b"
  shows "ring_at b r n = b ! r # ring_at b ((r + 1) mod length b) (n - 1)"
proof -
  obtain m where m: "n = Suc m" using assms(1) by (cases n) auto
  have up: "[0..<n] = 0 # map Suc [0..<m]" unfolding m by (simp add: map_Suc_upt upt_conv_Cons)
  have "((r + 1) mod length b + i) mod length b = (r + Suc i) mod length b" for i
    by (simp add: mod_add_left_eq)
  then show ?thesis unfolding ring_at_def up using assms(2) m by simp
qed

lemma ring_write_ahead:
  assumes "n < length b" and "r < length b" and r': "r' = (if r = 0 then length b - 1 else r - 1)"
  shows "ring_at (b[r' := x]) r' (Suc n) = x # ring_at b r n"
proof -
  have lt: "r' < length b" using assms by auto
  have nx: "(r' + 1) mod length b = r" using wrap_prev [OF assms(2)] r' by simp
  have "r' \<noteq> (r + i) mod length b" if "i < n" for i
  proof -
    have "(r + i) mod length b = (r' + (1 + i)) mod length b"
      using nx by (metis add.assoc mod_add_left_eq)
    moreover have "(r' + 0) mod length b \<noteq> (r' + (1 + i)) mod length b"
      using that assms(1) by (intro ring_pos_inj) auto
    ultimately show ?thesis using lt by simp
  qed
  then have "ring_at (b[r' := x]) r n = ring_at b r n"
    unfolding ring_at_def by (intro map_cong) auto
  then show ?thesis using ring_read [of "Suc n" r' "b[r' := x]"] lt nx by simp
qed

text \<open>A ring of \<open>n\<close> items in the buffer \<open>b\<close> of size \<open>sz\<close>, read at \<open>r\<close> and written at \<open>w\<close>.\<close>

definition ring_ok :: "nat \<Rightarrow> 'a list \<Rightarrow> nat \<Rightarrow> nat \<Rightarrow> nat \<Rightarrow> bool" where
  "ring_ok sz b r w n \<longleftrightarrow> length b = sz \<and> n \<le> sz \<and> r < sz \<and> w = (r + n) mod sz"

lemma ring_ok_reset: "length b = sz \<Longrightarrow> 0 < sz \<Longrightarrow> ring_ok sz b 0 0 0"
  by (simp add: ring_ok_def)

lemma ring_ok_full: "ring_ok sz b r w n \<Longrightarrow> w = r \<longleftrightarrow> n = 0 \<or> n = sz"
  by (auto simp: ring_ok_def mod_if)

lemma ring_ok_store:
  assumes "ring_ok sz b r w n" and "n < sz"
  shows "ring_ok sz (b[w := x]) r (if sz \<le> w + 1 then 0 else w + 1) (Suc n) \<and>
    ring_at (b[w := x]) r (Suc n) = ring_at b r n @ [x]"
proof -
  have w: "w = (r + n) mod sz" and len: "length b = sz" using assms by (simp_all add: ring_ok_def)
  have "w < sz" unfolding w using assms(2) by (intro mod_less_divisor) linarith
  then have "(if sz \<le> w + 1 then 0 else w + 1) = (w + 1) mod sz" by (rule wrap_next)
  then show ?thesis using assms ring_write [of n b r x] len w by (simp add: ring_ok_def mod_simps)
qed

lemma ring_ok_store_ahead:
  assumes "ring_ok sz b r w n" and "n < sz" and r': "r' = (if r = 0 then sz - 1 else r - 1)"
  shows "ring_ok sz (b[r' := x]) r' w (Suc n) \<and> ring_at (b[r' := x]) r' (Suc n) = x # ring_at b r n"
proof -
  have lt: "r < sz" and len: "length b = sz" using assms by (simp_all add: ring_ok_def)
  have nx: "(r' + 1) mod sz = r" using wrap_prev [OF lt] by (simp add: r')
  have "(r' + Suc n) mod sz = ((r' + 1) mod sz + n) mod sz" by (simp add: mod_simps)
  then show ?thesis
    using assms lt nx len ring_write_ahead [of n b r r' x] by (auto simp: ring_ok_def)
qed

lemma ring_ok_load:
  assumes "ring_ok sz b r w n" and n: "0 < n"
  shows "ring_ok sz b (if sz \<le> r + 1 then 0 else r + 1) w (n - 1) \<and>
    ring_at b r n = b ! r # ring_at b (if sz \<le> r + 1 then 0 else r + 1) (n - 1)"
proof -
  have lt: "r < sz" and len: "length b = sz" using assms by (simp_all add: ring_ok_def)
  obtain j where j: "n = Suc j" using n by (cases n) auto
  have "((r + 1) mod sz + (n - 1)) mod sz = (r + n) mod sz" unfolding j by (simp add: mod_simps)
  moreover have "(if sz \<le> r + 1 then 0 else r + 1) = (r + 1) mod sz" using lt by (rule wrap_next)
  ultimately show ?thesis using assms lt len ring_read [OF n, of r b] by (auto simp: ring_ok_def)
qed

section \<open>The contract of a bounded FIFO\<close>

text \<open>
  \<open>put\<close> is only used while there is room and \<open>get\<close> while there is an item; what the
  implementations answer otherwise is part of their own properties.
\<close>

text \<open>Taking \<open>n\<close> items out, one after the other.\<close>

fun gets :: "('q \<Rightarrow> 'a \<times> 'q) \<Rightarrow> nat \<Rightarrow> 'q \<Rightarrow> 'a list \<times> 'q" where
  "gets get 0 q = ([], q)"
| "gets get (Suc n) q = (let (x, q) = get q; (xs, q) = gets get n q in (x # xs, q))"

locale bounded_fifo =
  fixes inv :: "'q \<Rightarrow> bool"
    and cap :: "'q \<Rightarrow> nat"
    and content :: "'q \<Rightarrow> 'a list"
    and put :: "'a \<Rightarrow> 'q \<Rightarrow> 'q"
    and get :: "'q \<Rightarrow> 'a \<times> 'q"
  assumes put: "inv q \<Longrightarrow> length (content q) < cap q \<Longrightarrow>
      inv (put x q) \<and> cap (put x q) = cap q \<and> content (put x q) = content q @ [x]"
    and get: "inv q \<Longrightarrow> content q \<noteq> [] \<Longrightarrow>
      inv (snd (get q)) \<and> cap (snd (get q)) = cap q \<and>
      fst (get q) = hd (content q) \<and> content (snd (get q)) = tl (content q)"
begin

lemma puts:
  "inv q \<Longrightarrow> length (content q) + length xs \<le> cap q \<Longrightarrow>
    inv (fold put xs q) \<and> cap (fold put xs q) = cap q \<and> content (fold put xs q) = content q @ xs"
proof (induction xs arbitrary: q)
  case Nil
  then show ?case by simp
next
  case (Cons x xs)
  then show ?case using put [of q x] Cons.IH [of "put x q"] by simp
qed

lemma gets_take:
  "inv q \<Longrightarrow> n \<le> length (content q) \<Longrightarrow>
    inv (snd (gets get n q)) \<and> fst (gets get n q) = take n (content q) \<and>
    content (snd (gets get n q)) = drop n (content q)"
proof (induction n arbitrary: q)
  case 0
  then show ?case by simp
next
  case (Suc n)
  then have ne: "content q \<noteq> []" by auto
  note g = get [OF Suc.prems(1) ne]
  have "n \<le> length (content (snd (get q)))" using g Suc.prems(2) by simp
  then show ?case using Suc.IH [of "snd (get q)"] g ne
    by (cases "content q") (simp_all add: Let_def split_beta)
qed

lemma fill_drain:
  assumes "inv q" and "content q = []" and "length xs \<le> cap q"
  shows "fst (gets get (length xs) (fold put xs q)) = xs \<and>
    content (snd (gets get (length xs) (fold put xs q))) = []"
  using puts [OF assms(1), of xs] gets_take [of "fold put xs q" "length xs"] assms by simp

end

end
