(* ===== verification/Mailboxes.thy ===== *)
theory Mailboxes
  imports Semaphores RingBuffers
begin

text \<open>
  Mailboxes (chmboxes.c, chmboxes.h): a ring of messages with one semaphore counting its free
  and one counting its used slots.  Pointers into the buffer are indices; \<open>mb_fullsem\<close> and
  \<open>mb_emptysem\<close> are the addresses of the two semaphores.  A posted or fetched message is moved
  by the calling thread itself, after its semaphore wait has succeeded, so between the grant of
  a slot to a sleeping thread and that thread's run the counters and the ring disagree by the
  number of such grants.
\<close>

section \<open>Operations\<close>

record mailbox =
  mb_buffer :: "msg list"
  mb_top :: nat
  mb_wrptr :: nat
  mb_rdptr :: nat
  mb_fullsem :: ptr
  mb_emptysem :: ptr

definition chMBObjectInit :: "mailbox \<Rightarrow> msg list \<Rightarrow> nat \<Rightarrow> kernel \<Rightarrow> mailbox \<times> kernel" where
  "chMBObjectInit mb buf n k =
    (let mb = mb\<lparr>mb_buffer := buf, mb_rdptr := 0, mb_wrptr := 0, mb_top := n\<rparr>;
         k = chSemObjectInit (mb_emptysem mb) (int n) k;
         k = chSemObjectInit (mb_fullsem mb) 0 k
     in (mb, k))"

definition chMBGetSizeI :: "mailbox \<Rightarrow> nat" where
  "chMBGetSizeI mb = mb_top mb"

definition chMBGetFreeCountI :: "mailbox \<Rightarrow> kernel \<Rightarrow> cnt" where
  "chMBGetFreeCountI mb k = chSemGetCounterI (mb_emptysem mb) k"

definition chMBGetUsedCountI :: "mailbox \<Rightarrow> kernel \<Rightarrow> cnt" where
  "chMBGetUsedCountI mb k = chSemGetCounterI (mb_fullsem mb) k"

definition chMBPeekI :: "mailbox \<Rightarrow> msg" where
  "chMBPeekI mb = mb_buffer mb ! mb_rdptr mb"

definition chMBResetI :: "mailbox \<Rightarrow> kernel \<Rightarrow> mailbox \<times> kernel" where
  "chMBResetI mb k =
    (let mb = mb\<lparr>mb_wrptr := 0, mb_rdptr := 0\<rparr>;
         k = chSemResetI (mb_emptysem mb) (int (mb_top mb)) k;
         k = chSemResetI (mb_fullsem mb) 0 k
     in (mb, k))"

definition chMBReset :: "mailbox \<Rightarrow> kernel \<Rightarrow> mailbox \<times> kernel" where
  "chMBReset mb k = (let (mb, k) = chMBResetI mb k in (mb, chSchRescheduleS k))"

text \<open>The three movements in the ring that the operations below share.\<close>

definition mb_write :: "msg \<Rightarrow> mailbox \<Rightarrow> mailbox" where
  "mb_write m mb =
    (let mb = mb\<lparr>mb_buffer := (mb_buffer mb)[mb_wrptr mb := m], mb_wrptr := mb_wrptr mb + 1\<rparr>
     in if mb_wrptr mb \<ge> mb_top mb then mb\<lparr>mb_wrptr := 0\<rparr> else mb)"

text \<open>The code decrements first and then compares with the start of the buffer.\<close>

definition mb_write_ahead :: "msg \<Rightarrow> mailbox \<Rightarrow> mailbox" where
  "mb_write_ahead m mb =
    (let mb = (if int (mb_rdptr mb) - 1 < 0 then mb\<lparr>mb_rdptr := mb_top mb - 1\<rparr>
               else mb\<lparr>mb_rdptr := mb_rdptr mb - 1\<rparr>)
     in mb\<lparr>mb_buffer := (mb_buffer mb)[mb_rdptr mb := m]\<rparr>)"

definition mb_read :: "mailbox \<Rightarrow> msg \<times> mailbox" where
  "mb_read mb =
    (let m = mb_buffer mb ! mb_rdptr mb;
         mb = mb\<lparr>mb_rdptr := mb_rdptr mb + 1\<rparr>
     in (m, if mb_rdptr mb \<ge> mb_top mb then mb\<lparr>mb_rdptr := 0\<rparr> else mb))"

definition chMBPostS :: "mailbox \<Rightarrow> msg \<Rightarrow> systime \<Rightarrow> kernel \<Rightarrow> msg outcome \<times> mailbox \<times> kernel" where
  "chMBPostS mb m timeout k =
    (let (rdymsg, k) = chSemWaitTimeoutS (mb_emptysem mb) timeout k
     in if rdymsg = Ret MSG_OK
        then (rdymsg, mb_write m mb, chSchRescheduleS (chSemSignalI (mb_fullsem mb) k))
        else (rdymsg, mb, k))"

definition chMBPostS_resume :: "mailbox \<Rightarrow> msg \<Rightarrow> systime \<Rightarrow> kernel \<Rightarrow> msg \<times> mailbox \<times> kernel" where
  "chMBPostS_resume mb m timeout k =
    (let (rdymsg, k) = chSchGoSleepTimeoutS_resume timeout k
     in if rdymsg = MSG_OK
        then (rdymsg, mb_write m mb, chSchRescheduleS (chSemSignalI (mb_fullsem mb) k))
        else (rdymsg, mb, k))"

definition chMBPost :: "mailbox \<Rightarrow> msg \<Rightarrow> systime \<Rightarrow> kernel \<Rightarrow> msg outcome \<times> mailbox \<times> kernel" where
  "chMBPost mb m timeout k = chMBPostS mb m timeout k"

definition chMBPostI :: "mailbox \<Rightarrow> msg \<Rightarrow> kernel \<Rightarrow> msg \<times> mailbox \<times> kernel" where
  "chMBPostI mb m k =
    (if chSemGetCounterI (mb_emptysem mb) k \<le> 0 then (MSG_TIMEOUT, mb, k)
     else (MSG_OK, mb_write m mb, chSemSignalI (mb_fullsem mb) (chSemFastWaitI (mb_emptysem mb) k)))"

definition chMBPostAheadS :: "mailbox \<Rightarrow> msg \<Rightarrow> systime \<Rightarrow> kernel \<Rightarrow> msg outcome \<times> mailbox \<times> kernel" where
  "chMBPostAheadS mb m timeout k =
    (let (rdymsg, k) = chSemWaitTimeoutS (mb_emptysem mb) timeout k
     in if rdymsg = Ret MSG_OK
        then (rdymsg, mb_write_ahead m mb, chSchRescheduleS (chSemSignalI (mb_fullsem mb) k))
        else (rdymsg, mb, k))"

definition chMBPostAheadS_resume :: "mailbox \<Rightarrow> msg \<Rightarrow> systime \<Rightarrow> kernel \<Rightarrow> msg \<times> mailbox \<times> kernel" where
  "chMBPostAheadS_resume mb m timeout k =
    (let (rdymsg, k) = chSchGoSleepTimeoutS_resume timeout k
     in if rdymsg = MSG_OK
        then (rdymsg, mb_write_ahead m mb, chSchRescheduleS (chSemSignalI (mb_fullsem mb) k))
        else (rdymsg, mb, k))"

definition chMBPostAhead :: "mailbox \<Rightarrow> msg \<Rightarrow> systime \<Rightarrow> kernel \<Rightarrow> msg outcome \<times> mailbox \<times> kernel" where
  "chMBPostAhead mb m timeout k = chMBPostAheadS mb m timeout k"

definition chMBPostAheadI :: "mailbox \<Rightarrow> msg \<Rightarrow> kernel \<Rightarrow> msg \<times> mailbox \<times> kernel" where
  "chMBPostAheadI mb m k =
    (if chSemGetCounterI (mb_emptysem mb) k \<le> 0 then (MSG_TIMEOUT, mb, k)
     else (MSG_OK, mb_write_ahead m mb, chSemSignalI (mb_fullsem mb) (chSemFastWaitI (mb_emptysem mb) k)))"

text \<open>A fetch returns the status and, where it stores one, the message.\<close>

definition chMBFetchS :: "mailbox \<Rightarrow> systime \<Rightarrow> kernel \<Rightarrow> (msg outcome \<times> msg option) \<times> mailbox \<times> kernel" where
  "chMBFetchS mb timeout k =
    (let (rdymsg, k) = chSemWaitTimeoutS (mb_fullsem mb) timeout k
     in if rdymsg = Ret MSG_OK
        then (let (m, mb) = mb_read mb
              in ((rdymsg, Some m), mb, chSchRescheduleS (chSemSignalI (mb_emptysem mb) k)))
        else ((rdymsg, None), mb, k))"

definition chMBFetchS_resume :: "mailbox \<Rightarrow> systime \<Rightarrow> kernel \<Rightarrow> (msg \<times> msg option) \<times> mailbox \<times> kernel" where
  "chMBFetchS_resume mb timeout k =
    (let (rdymsg, k) = chSchGoSleepTimeoutS_resume timeout k
     in if rdymsg = MSG_OK
        then (let (m, mb) = mb_read mb
              in ((rdymsg, Some m), mb, chSchRescheduleS (chSemSignalI (mb_emptysem mb) k)))
        else ((rdymsg, None), mb, k))"

definition chMBFetch :: "mailbox \<Rightarrow> systime \<Rightarrow> kernel \<Rightarrow> (msg outcome \<times> msg option) \<times> mailbox \<times> kernel" where
  "chMBFetch mb timeout k = chMBFetchS mb timeout k"

definition chMBFetchI :: "mailbox \<Rightarrow> kernel \<Rightarrow> (msg \<times> msg option) \<times> mailbox \<times> kernel" where
  "chMBFetchI mb k =
    (if chSemGetCounterI (mb_fullsem mb) k \<le> 0 then ((MSG_TIMEOUT, None), mb, k)
     else (let k = chSemFastWaitI (mb_fullsem mb) k;
               (m, mb) = mb_read mb
           in ((MSG_OK, Some m), mb, chSemSignalI (mb_emptysem mb) k)))"

section \<open>The ring\<close>

definition mb_ring :: "nat \<Rightarrow> mailbox \<Rightarrow> bool" where
  "mb_ring n mb \<longleftrightarrow> ring_ok (mb_top mb) (mb_buffer mb) (mb_rdptr mb) (mb_wrptr mb) n"

text \<open>The \<open>n\<close> messages in the box, the next to fetch first.\<close>

definition mb_messages :: "nat \<Rightarrow> mailbox \<Rightarrow> msg list" where
  "mb_messages n mb = ring_at (mb_buffer mb) (mb_rdptr mb) n"

lemma mb_fixed [simp]:
  "mb_top (mb_write m mb) = mb_top mb" "mb_fullsem (mb_write m mb) = mb_fullsem mb"
  "mb_emptysem (mb_write m mb) = mb_emptysem mb"
  "mb_top (mb_write_ahead m mb) = mb_top mb" "mb_fullsem (mb_write_ahead m mb) = mb_fullsem mb"
  "mb_emptysem (mb_write_ahead m mb) = mb_emptysem mb"
  "mb_top (snd (mb_read mb)) = mb_top mb" "mb_fullsem (snd (mb_read mb)) = mb_fullsem mb"
  "mb_emptysem (snd (mb_read mb)) = mb_emptysem mb"
  by (simp_all add: mb_write_def mb_write_ahead_def mb_read_def Let_def)

lemma ring_mb_write:
  assumes "mb_ring n mb" and "n < mb_top mb"
  shows "mb_ring (Suc n) (mb_write m mb) \<and> mb_messages (Suc n) (mb_write m mb) = mb_messages n mb @ [m]"
proof -
  have "mb_write m mb = mb\<lparr>mb_buffer := (mb_buffer mb)[mb_wrptr mb := m],
      mb_wrptr := (if mb_top mb \<le> mb_wrptr mb + 1 then 0 else mb_wrptr mb + 1)\<rparr>"
    by (simp add: mb_write_def Let_def)
  then show ?thesis
    using ring_ok_store [OF assms [unfolded mb_ring_def], of m] by (simp add: mb_ring_def mb_messages_def)
qed

lemma ring_mb_write_ahead:
  assumes "mb_ring n mb" and "n < mb_top mb"
  shows "mb_ring (Suc n) (mb_write_ahead m mb) \<and> mb_messages (Suc n) (mb_write_ahead m mb) = m # mb_messages n mb"
proof -
  define r' where "r' = (if mb_rdptr mb = 0 then mb_top mb - 1 else mb_rdptr mb - 1)"
  have "mb_write_ahead m mb = mb\<lparr>mb_buffer := (mb_buffer mb)[r' := m], mb_rdptr := r'\<rparr>"
    by (auto simp: mb_write_ahead_def Let_def r'_def)
  then show ?thesis
    using ring_ok_store_ahead [OF assms [unfolded mb_ring_def] r'_def, of m] by (simp add: mb_ring_def mb_messages_def)
qed

lemma ring_mb_read:
  assumes "mb_ring n mb" and n: "0 < n"
  shows "mb_ring (n - 1) (snd (mb_read mb)) \<and> fst (mb_read mb) = hd (mb_messages n mb) \<and>
    mb_messages (n - 1) (snd (mb_read mb)) = tl (mb_messages n mb)"
proof -
  have "mb_read mb = (mb_buffer mb ! mb_rdptr mb,
      mb\<lparr>mb_rdptr := (if mb_top mb \<le> mb_rdptr mb + 1 then 0 else mb_rdptr mb + 1)\<rparr>)"
    by (simp add: mb_read_def Let_def)
  then show ?thesis
    using ring_ok_load [OF assms [unfolded mb_ring_def]] by (simp add: mb_ring_def mb_messages_def)
qed

section \<open>The invariant\<close>

text \<open>
  \<open>P\<close> slots are granted to posters and \<open>F\<close> messages to fetchers that have been made ready but
  have not run yet.  Every slot is free, granted to a poster or used, and every used slot is
  free to fetch or granted to a fetcher.
\<close>

definition mb_used :: "nat \<Rightarrow> mailbox \<Rightarrow> kernel \<Rightarrow> nat" where
  "mb_used F mb k = nat (sem_cnt k (mb_fullsem mb)) + F"

definition mbk :: "(ptr \<Rightarrow> okind) \<Rightarrow> ptr \<Rightarrow> nat \<Rightarrow> nat \<Rightarrow> mailbox \<Rightarrow> kernel \<Rightarrow> bool" where
  "mbk kd idle P F mb k \<longleftrightarrow> semk kd idle k \<and>
    kd (mb_emptysem mb) = KSem \<and> kd (mb_fullsem mb) = KSem \<and> mb_emptysem mb \<noteq> mb_fullsem mb \<and>
    mb_ring (mb_used F mb k) mb \<and>
    mb_top mb = nat (sem_cnt k (mb_emptysem mb)) + P + mb_used F mb k"

abbreviation mb_content :: "nat \<Rightarrow> mailbox \<Rightarrow> kernel \<Rightarrow> msg list" where
  "mb_content F mb k \<equiv> mb_messages (mb_used F mb k) mb"

lemma mbk_waits:
  "mbk kd idle P F mb k \<Longrightarrow> waits (mb_fullsem mb) k = (if sem_cnt k (mb_fullsem mb) < 0 then 1 else 0)"
  "mbk kd idle P F mb k \<Longrightarrow> waits (mb_emptysem mb) k = (if sem_cnt k (mb_emptysem mb) < 0 then 1 else 0)"
  using sem_waiters semk_sem_ok unfolding mbk_def waits_def by metis+

text \<open>A message goes into a granted slot and the count of used slots is signalled.\<close>

lemma mbk_fill:
  assumes i: "mbk kd idle (Suc P) F mb k"
    and w: "(w, c) \<in> {(mb_write m, mb_content F mb k @ [m]), (mb_write_ahead m, m # mb_content F mb k)}"
  defines "k' \<equiv> chSemSignalI (mb_fullsem mb) k" and "F' \<equiv> F + waits (mb_fullsem mb) k"
  shows "mbk kd idle P F' (w mb) k' \<and> mb_used F' mb k' = Suc (mb_used F mb k) \<and>
    mb_content F' (w mb) k' = c"
proof -
  let ?E = "mb_emptysem mb" and ?F = "mb_fullsem mb"
  have s: "semk kd idle k" and kd: "kd ?F = KSem" "kd ?E = KSem" "?E \<noteq> ?F" and ring: "mb_ring (mb_used F mb k) mb"
    and top: "mb_top mb = nat (sem_cnt k ?E) + Suc P + mb_used F mb k"
    using i by (simp_all add: mbk_def)
  note sg = semk_signals [OF s kd(1), folded k'_def]
  have fixed: "mb_fullsem (w mb) = ?F" "mb_emptysem (w mb) = ?E" "mb_top (w mb) = mb_top mb" using w by auto
  have used: "mb_used F' mb k' = Suc (mb_used F mb k)"
    unfolding F'_def using sg mbk_waits(1) [OF i] by (auto simp: mb_used_def nat_add_distrib)
  have room: "mb_used F mb k < mb_top mb" using top by simp
  have usedw: "mb_used F' (w mb) k' = Suc (mb_used F mb k)" using used fixed by (simp add: mb_used_def)
  have "mb_ring (Suc (mb_used F mb k)) (w mb) \<and> mb_messages (Suc (mb_used F mb k)) (w mb) = c"
    using w ring_mb_write [OF ring room, of m] ring_mb_write_ahead [OF ring room, of m] by auto
  moreover have "sem_cnt k' ?E = sem_cnt k ?E" using sg kd by simp
  ultimately show ?thesis using sg kd fixed top used usedw by (simp add: mbk_def)
qed

lemma mbk_fills:
  assumes "mbk kd idle (Suc P) F mb k"
  defines "k' \<equiv> chSemSignalI (mb_fullsem mb) k" and "F' \<equiv> F + waits (mb_fullsem mb) k"
  shows "mbk kd idle P F' (mb_write m mb) k' \<and> mb_content F' (mb_write m mb) k' = mb_content F mb k @ [m]"
    "mbk kd idle P F' (mb_write_ahead m mb) k' \<and> mb_content F' (mb_write_ahead m mb) k' = m # mb_content F mb k"
  using mbk_fill [OF assms(1), where w = "mb_write m" and c = "mb_content F mb k @ [m]" and m = m]
    mbk_fill [OF assms(1), where w = "mb_write_ahead m" and c = "m # mb_content F mb k" and m = m]
  by (simp_all add: k'_def F'_def)

text \<open>A granted message leaves the ring and the count of free slots is signalled.\<close>

lemma mbk_drain:
  assumes i: "mbk kd idle P (Suc F) mb k"
  defines "k' \<equiv> chSemSignalI (mb_emptysem mb) k" and "P' \<equiv> P + waits (mb_emptysem mb) k"
    and "mb' \<equiv> snd (mb_read mb)"
  shows "mbk kd idle P' F mb' k' \<and> mb_content (Suc F) mb k \<noteq> [] \<and>
    fst (mb_read mb) = hd (mb_content (Suc F) mb k) \<and> mb_content F mb' k' = tl (mb_content (Suc F) mb k)"
proof -
  let ?E = "mb_emptysem mb" and ?F = "mb_fullsem mb"
  have s: "semk kd idle k" and kd: "kd ?F = KSem" "kd ?E = KSem" "?E \<noteq> ?F" and ring: "mb_ring (mb_used (Suc F) mb k) mb"
    and top: "mb_top mb = nat (sem_cnt k ?E) + P + mb_used (Suc F) mb k"
    using i by (simp_all add: mbk_def)
  note sg = semk_signals [OF s kd(2), folded k'_def]
  have fixed: "mb_fullsem mb' = ?F" "mb_emptysem mb' = ?E" "mb_top mb' = mb_top mb" by (simp_all add: mb'_def)
  have used: "mb_used (Suc F) mb k = Suc (mb_used F mb' k')"
    using sg kd fixed by (simp add: mb_used_def)
  have free: "nat (sem_cnt k' ?E) + P' = Suc (nat (sem_cnt k ?E) + P)"
    unfolding P'_def using sg mbk_waits(2) [OF i] by (auto simp: nat_add_distrib)
  have pos: "0 < mb_used (Suc F) mb k" by (simp add: mb_used_def)
  note rd = ring_mb_read [OF ring pos, folded mb'_def]
  have "mb_content (Suc F) mb k \<noteq> []" using pos by (metis length_ring_at list.size(3) mb_messages_def less_irrefl)
  then show ?thesis using sg kd fixed top used free rd by (simp add: mbk_def)
qed

lemma mbk_reschedule: "mbk kd idle P F mb k \<Longrightarrow>
    mbk kd idle P F mb (chSchRescheduleS k) \<and> highest (chSchRescheduleS k) \<and>
    mb_content F mb (chSchRescheduleS k) = mb_content F mb k"
  using semk_reschedule [of kd idle k] by (simp add: mbk_def mb_used_def)

text \<open>A count is taken: the slot or message is granted to the running thread.\<close>

lemma mbk_take_empty:
  assumes i: "mbk kd idle P F mb k" and c: "0 < sem_cnt k (mb_emptysem mb)"
  defines "k' \<equiv> set_sem (mb_emptysem mb) (sem_cnt k (mb_emptysem mb) - 1) k"
  shows "mbk kd idle (Suc P) F mb k' \<and> mb_content F mb k' = mb_content F mb k \<and>
    waits (mb_fullsem mb) k' = waits (mb_fullsem mb) k"
proof -
  have e: "qs k (QOBJ (mb_emptysem mb)) = []" using mbk_waits(2) [OF i] c by (simp add: waits_def split: if_splits)
  have "semk kd idle k'" unfolding k'_def using semk_count [of kd idle k _ "mb_emptysem mb"] i c e by (simp add: mbk_def)
  moreover have "nat (sem_cnt k (mb_emptysem mb)) = Suc (nat (sem_cnt k (mb_emptysem mb) - 1))" using c by simp
  ultimately show ?thesis using i by (auto simp: mbk_def k'_def mb_used_def waits_def)
qed

lemma mbk_take_full:
  assumes i: "mbk kd idle P F mb k" and c: "0 < sem_cnt k (mb_fullsem mb)"
  defines "k' \<equiv> set_sem (mb_fullsem mb) (sem_cnt k (mb_fullsem mb) - 1) k"
  shows "mbk kd idle P (Suc F) mb k' \<and> mb_content (Suc F) mb k' = mb_content F mb k \<and>
    waits (mb_emptysem mb) k' = waits (mb_emptysem mb) k"
proof -
  have e: "qs k (QOBJ (mb_fullsem mb)) = []" using mbk_waits(1) [OF i] c by (simp add: waits_def split: if_splits)
  have "semk kd idle k'" unfolding k'_def using semk_count [of kd idle k _ "mb_fullsem mb"] i c e by (simp add: mbk_def)
  moreover have u: "mb_used (Suc F) mb k' = mb_used F mb k" using c by (simp add: mb_used_def k'_def nat_diff_distrib)
  ultimately show ?thesis using i unfolding mbk_def u by (auto simp: k'_def waits_def)
qed

section \<open>Properties\<close>

lemma postI_ok:
  assumes i: "mbk kd idle P F mb k" and c: "0 < sem_cnt k (mb_emptysem mb)"
  defines "F' \<equiv> F + waits (mb_fullsem mb) k"
    and "k' \<equiv> chSemSignalI (mb_fullsem mb) (chSemFastWaitI (mb_emptysem mb) k)"
  shows "chMBPostI mb m k = (MSG_OK, mb_write m mb, k') \<and> mbk kd idle P F' (mb_write m mb) k' \<and>
    mb_content F' (mb_write m mb) k' = mb_content F mb k @ [m] \<and>
    chMBPostAheadI mb m k = (MSG_OK, mb_write_ahead m mb, k') \<and> mbk kd idle P F' (mb_write_ahead m mb) k' \<and>
    mb_content F' (mb_write_ahead m mb) k' = m # mb_content F mb k \<and>
    sem_cnt k' = (sem_cnt k)(mb_emptysem mb := sem_cnt k (mb_emptysem mb) - 1,
      mb_fullsem mb := sem_cnt k (mb_fullsem mb) + 1)"
proof -
  let ?k1 = "chSemFastWaitI (mb_emptysem mb) k"
  have t: "mbk kd idle (Suc P) F mb ?k1 \<and> mb_content F mb ?k1 = mb_content F mb k \<and>
      waits (mb_fullsem mb) ?k1 = waits (mb_fullsem mb) k"
    using mbk_take_empty [OF i c] by (simp add: chSemFastWaitI_def)
  have "semk kd idle ?k1" "kd (mb_fullsem mb) = KSem" "mb_emptysem mb \<noteq> mb_fullsem mb" using t by (simp_all add: mbk_def)
  then have "sem_cnt k' = (sem_cnt k)(mb_emptysem mb := sem_cnt k (mb_emptysem mb) - 1,
      mb_fullsem mb := sem_cnt k (mb_fullsem mb) + 1)"
    unfolding k'_def using semk_signals [of kd idle ?k1 "mb_fullsem mb"] by (simp add: chSemFastWaitI_def)
  then show ?thesis
    using t mbk_fills [of kd idle P F mb ?k1 m] c
    by (simp add: chMBPostI_def chMBPostAheadI_def chSemGetCounterI_def k'_def F'_def)
qed

lemma fetchI_ok:
  assumes i: "mbk kd idle P F mb k" and c: "0 < sem_cnt k (mb_fullsem mb)"
  defines "P' \<equiv> P + waits (mb_emptysem mb) k" and "mb' \<equiv> snd (mb_read mb)"
    and "k' \<equiv> chSemSignalI (mb_emptysem mb) (chSemFastWaitI (mb_fullsem mb) k)"
  shows "chMBFetchI mb k = ((MSG_OK, Some (hd (mb_content F mb k))), mb', k') \<and>
    mb_content F mb k \<noteq> [] \<and> mbk kd idle P' F mb' k' \<and> mb_content F mb' k' = tl (mb_content F mb k) \<and>
    sem_cnt k' = (sem_cnt k)(mb_fullsem mb := sem_cnt k (mb_fullsem mb) - 1,
      mb_emptysem mb := sem_cnt k (mb_emptysem mb) + 1)"
proof -
  let ?k2 = "chSemFastWaitI (mb_fullsem mb) k"
  have t: "mbk kd idle P (Suc F) mb ?k2 \<and> mb_content (Suc F) mb ?k2 = mb_content F mb k \<and>
      waits (mb_emptysem mb) ?k2 = waits (mb_emptysem mb) k"
    using mbk_take_full [OF i c] by (simp add: chSemFastWaitI_def)
  have "semk kd idle ?k2" "kd (mb_emptysem mb) = KSem" "mb_emptysem mb \<noteq> mb_fullsem mb" using t by (simp_all add: mbk_def)
  then have "sem_cnt k' = (sem_cnt k)(mb_fullsem mb := sem_cnt k (mb_fullsem mb) - 1,
      mb_emptysem mb := sem_cnt k (mb_emptysem mb) + 1)"
    unfolding k'_def using semk_signals [of kd idle ?k2 "mb_emptysem mb"] by (simp add: chSemFastWaitI_def)
  then show ?thesis
    using t mbk_drain [of kd idle P F mb ?k2] c
    by (simp add: chMBFetchI_def chSemGetCounterI_def Let_def split_beta k'_def P'_def mb'_def)
qed

text \<open>
  Posting and fetching from interrupt level.  With a free slot (a message) the operation
  returns MSG_OK and appends, prepends or takes out one message in FIFO order; otherwise it
  returns MSG_TIMEOUT and changes nothing.  A waiting peer is granted the message or the slot,
  and the mailbox invariant, which ties the ring to both semaphores, is kept.
\<close>

theorem mailbox_interrupt_correct:
  assumes i: "mbk kd idle P F mb k"
  shows "(if sem_cnt k (mb_emptysem mb) \<le> 0
      then chMBPostI mb m k = (MSG_TIMEOUT, mb, k) \<and> chMBPostAheadI mb m k = (MSG_TIMEOUT, mb, k)
      else (\<exists>mb' k'. chMBPostI mb m k = (MSG_OK, mb', k') \<and>
          mbk kd idle P (F + waits (mb_fullsem mb) k) mb' k' \<and>
          mb_content (F + waits (mb_fullsem mb) k) mb' k' = mb_content F mb k @ [m]) \<and>
        (\<exists>mb' k'. chMBPostAheadI mb m k = (MSG_OK, mb', k') \<and>
          mbk kd idle P (F + waits (mb_fullsem mb) k) mb' k' \<and>
          mb_content (F + waits (mb_fullsem mb) k) mb' k' = m # mb_content F mb k)) \<and>
    (if sem_cnt k (mb_fullsem mb) \<le> 0 then chMBFetchI mb k = ((MSG_TIMEOUT, None), mb, k)
     else \<exists>mb' k'. chMBFetchI mb k = ((MSG_OK, Some (hd (mb_content F mb k))), mb', k') \<and>
       mb_content F mb k \<noteq> [] \<and> mbk kd idle (P + waits (mb_emptysem mb) k) F mb' k' \<and>
       mb_content F mb' k' = tl (mb_content F mb k))"
proof -
  have "chMBPostI mb m k = (MSG_TIMEOUT, mb, k) \<and> chMBPostAheadI mb m k = (MSG_TIMEOUT, mb, k)"
    if "sem_cnt k (mb_emptysem mb) \<le> 0" using that by (simp add: chMBPostI_def chMBPostAheadI_def chSemGetCounterI_def)
  moreover have "chMBFetchI mb k = ((MSG_TIMEOUT, None), mb, k)" if "sem_cnt k (mb_fullsem mb) \<le> 0"
    using that by (simp add: chMBFetchI_def chSemGetCounterI_def)
  ultimately show ?thesis using postI_ok [OF i, of m] fetchI_ok [OF i] by auto
qed

text \<open>The running thread blocks on either semaphore: the mailbox does not change.\<close>

lemma mbk_block:
  assumes i: "mbk kd idle P F mb k" and idle: "current k \<noteq> idle" and sp: "sp \<in> {mb_emptysem mb, mb_fullsem mb}"
    and c: "sem_cnt k sp \<le> 0" and t: "time \<noteq> TIME_IMMEDIATE"
  defines "k' \<equiv> snd (chSemWaitTimeoutS sp time k)"
  shows "fst (chSemWaitTimeoutS sp time k) = Switched \<and> mbk kd idle P F mb k' \<and> highest k' \<and>
    mb_content F mb k' = mb_content F mb k \<and> qs k' (QOBJ sp) = qs k (QOBJ sp) @ [current k]"
proof -
  have s: "semk kd idle k" and kd: "kd sp = KSem" using i sp by (auto simp: mbk_def)
  note w = semk_wait_timeout [OF s kd idle, of time, folded k'_def]
  have cn: "nat (sem_cnt k' q) = nat (sem_cnt k q)" for q using w c t by simp
  have "mb_used F mb k' = mb_used F mb k" by (simp add: mb_used_def cn)
  then show ?thesis using i w c t unfolding mbk_def by (simp add: cn)
qed

lemma msg_timeout_ok [simp]: "MSG_TIMEOUT \<noteq> MSG_OK" "MSG_RESET \<noteq> MSG_OK"
  by (simp_all add: MSG_TIMEOUT_def MSG_RESET_def MSG_OK_def)

text \<open>
  Posting and fetching with a timeout.  While a slot (a message) is free the call moves its
  message at once, returns MSG_OK and leaves the highest priority thread running; without one
  it returns MSG_TIMEOUT for TIME_IMMEDIATE and otherwise switches, as the last waiter, with the
  mailbox unchanged.  The mailbox invariant is kept on every branch.
\<close>

theorem mailbox_wait_correct:
  assumes i: "mbk kd idle P F mb k" and idle: "current k \<noteq> idle"
  shows "(\<forall>(post, c) \<in> {(chMBPostS mb m t k, mb_content F mb k @ [m]), (chMBPostAheadS mb m t k, m # mb_content F mb k)}.
      case post of (r, mb', k') \<Rightarrow>
        if 0 < sem_cnt k (mb_emptysem mb)
        then r = Ret MSG_OK \<and> mbk kd idle P (F + waits (mb_fullsem mb) k) mb' k' \<and> highest k' \<and>
          mb_content (F + waits (mb_fullsem mb) k) mb' k' = c
        else if t = TIME_IMMEDIATE then r = Ret MSG_TIMEOUT \<and> mb' = mb \<and> k' = k
        else r = Switched \<and> mb' = mb \<and> mbk kd idle P F mb k' \<and> highest k' \<and>
          mb_content F mb k' = mb_content F mb k \<and>
          qs k' (QOBJ (mb_emptysem mb)) = qs k (QOBJ (mb_emptysem mb)) @ [current k]) \<and>
    (case chMBFetchS mb t k of ((r, x), mb', k') \<Rightarrow>
        if 0 < sem_cnt k (mb_fullsem mb)
        then r = Ret MSG_OK \<and> mb_content F mb k \<noteq> [] \<and> x = Some (hd (mb_content F mb k)) \<and>
          mbk kd idle (P + waits (mb_emptysem mb) k) F mb' k' \<and> highest k' \<and>
          mb_content F mb' k' = tl (mb_content F mb k)
        else if t = TIME_IMMEDIATE then r = Ret MSG_TIMEOUT \<and> x = None \<and> mb' = mb \<and> k' = k
        else r = Switched \<and> x = None \<and> mb' = mb \<and> mbk kd idle P F mb k' \<and> highest k' \<and>
          mb_content F mb k' = mb_content F mb k \<and>
          qs k' (QOBJ (mb_fullsem mb)) = qs k (QOBJ (mb_fullsem mb)) @ [current k])"
proof -
  let ?E = "mb_emptysem mb" and ?F = "mb_fullsem mb"
  have s: "semk kd idle k" and kd: "kd ?E = KSem" "kd ?F = KSem" using i by (simp_all add: mbk_def)
  note we = semk_wait_timeout [OF s kd(1) idle, of t] and wf = semk_wait_timeout [OF s kd(2) idle, of t]
  let ?k1 = "set_sem ?E (sem_cnt k ?E - 1) k" and ?k2 = "set_sem ?F (sem_cnt k ?F - 1) k"
  have fills: "mbk kd idle P (F + waits ?F k) (mb_write m mb) (chSemSignalI ?F ?k1) \<and>
      mb_content (F + waits ?F k) (mb_write m mb) (chSemSignalI ?F ?k1) = mb_content F mb k @ [m] \<and>
      mbk kd idle P (F + waits ?F k) (mb_write_ahead m mb) (chSemSignalI ?F ?k1) \<and>
      mb_content (F + waits ?F k) (mb_write_ahead m mb) (chSemSignalI ?F ?k1) = m # mb_content F mb k"
    if c: "0 < sem_cnt k ?E"
    using mbk_take_empty [OF i c] mbk_fills [of kd idle P F mb ?k1 m] by simp
  have drain: "mb_content F mb k \<noteq> [] \<and> mbk kd idle (P + waits ?E k) F (snd (mb_read mb)) (chSemSignalI ?E ?k2) \<and>
      fst (mb_read mb) = hd (mb_content F mb k) \<and>
      mb_content F (snd (mb_read mb)) (chSemSignalI ?E ?k2) = tl (mb_content F mb k)"
    if c: "0 < sem_cnt k ?F"
    using mbk_take_full [OF i c] mbk_drain [of kd idle P F mb ?k2] by simp
  have be: "fst (chSemWaitTimeoutS ?E t k) = Switched \<and> mbk kd idle P F mb (snd (chSemWaitTimeoutS ?E t k)) \<and>
      highest (snd (chSemWaitTimeoutS ?E t k)) \<and>
      mb_content F mb (snd (chSemWaitTimeoutS ?E t k)) = mb_content F mb k \<and>
      qs (snd (chSemWaitTimeoutS ?E t k)) (QOBJ ?E) = qs k (QOBJ ?E) @ [current k]"
    if "\<not> 0 < sem_cnt k ?E" "t \<noteq> TIME_IMMEDIATE"
    using mbk_block [OF i idle, of ?E t] that by simp
  have bf: "fst (chSemWaitTimeoutS ?F t k) = Switched \<and> mbk kd idle P F mb (snd (chSemWaitTimeoutS ?F t k)) \<and>
      highest (snd (chSemWaitTimeoutS ?F t k)) \<and>
      mb_content F mb (snd (chSemWaitTimeoutS ?F t k)) = mb_content F mb k \<and>
      qs (snd (chSemWaitTimeoutS ?F t k)) (QOBJ ?F) = qs k (QOBJ ?F) @ [current k]"
    if "\<not> 0 < sem_cnt k ?F" "t \<noteq> TIME_IMMEDIATE"
    using mbk_block [OF i idle, of ?F t] that by simp
  have post: "case chMBPostS mb m t k of (r, mb', k') \<Rightarrow>
        if 0 < sem_cnt k ?E
        then r = Ret MSG_OK \<and> mbk kd idle P (F + waits ?F k) mb' k' \<and> highest k' \<and>
          mb_content (F + waits ?F k) mb' k' = mb_content F mb k @ [m]
        else if t = TIME_IMMEDIATE then r = Ret MSG_TIMEOUT \<and> mb' = mb \<and> k' = k
        else r = Switched \<and> mb' = mb \<and> mbk kd idle P F mb k' \<and> highest k' \<and>
          mb_content F mb k' = mb_content F mb k \<and> qs k' (QOBJ ?E) = qs k (QOBJ ?E) @ [current k]"
    using we be fills mbk_reschedule [of kd idle P "F + waits ?F k" "mb_write m mb" "chSemSignalI ?F ?k1"]
    by (simp add: chMBPostS_def split_beta split: if_splits)
  have ahead: "case chMBPostAheadS mb m t k of (r, mb', k') \<Rightarrow>
        if 0 < sem_cnt k ?E
        then r = Ret MSG_OK \<and> mbk kd idle P (F + waits ?F k) mb' k' \<and> highest k' \<and>
          mb_content (F + waits ?F k) mb' k' = m # mb_content F mb k
        else if t = TIME_IMMEDIATE then r = Ret MSG_TIMEOUT \<and> mb' = mb \<and> k' = k
        else r = Switched \<and> mb' = mb \<and> mbk kd idle P F mb k' \<and> highest k' \<and>
          mb_content F mb k' = mb_content F mb k \<and> qs k' (QOBJ ?E) = qs k (QOBJ ?E) @ [current k]"
    using we be fills mbk_reschedule [of kd idle P "F + waits ?F k" "mb_write_ahead m mb" "chSemSignalI ?F ?k1"]
    by (simp add: chMBPostAheadS_def split_beta split: if_splits)
  have fetch: "case chMBFetchS mb t k of ((r, x), mb', k') \<Rightarrow>
        if 0 < sem_cnt k ?F
        then r = Ret MSG_OK \<and> mb_content F mb k \<noteq> [] \<and> x = Some (hd (mb_content F mb k)) \<and>
          mbk kd idle (P + waits ?E k) F mb' k' \<and> highest k' \<and> mb_content F mb' k' = tl (mb_content F mb k)
        else if t = TIME_IMMEDIATE then r = Ret MSG_TIMEOUT \<and> x = None \<and> mb' = mb \<and> k' = k
        else r = Switched \<and> x = None \<and> mb' = mb \<and> mbk kd idle P F mb k' \<and> highest k' \<and>
          mb_content F mb k' = mb_content F mb k \<and> qs k' (QOBJ ?F) = qs k (QOBJ ?F) @ [current k]"
    using wf bf drain mbk_reschedule [of kd idle "P + waits ?E k" F "snd (mb_read mb)" "chSemSignalI ?E ?k2"]
    by (simp add: chMBFetchS_def split_beta Let_def split: if_splits)
  show ?thesis using post ahead fetch by simp
qed

lemma mbk_cong:
  "thd k' = thd k \<Longrightarrow> qs k' = qs k \<Longrightarrow> current k' = current k \<Longrightarrow> sem_cnt k' = sem_cnt k \<Longrightarrow>
    mbk kd idle P F mb k' = mbk kd idle P F mb k \<and> mb_used F mb k' = mb_used F mb k"
  by (simp add: mbk_def mb_used_def semk_cong [of k' k])

text \<open>
  A thread that runs again after it slept in a post or fetch.  If it was granted a slot
  (message MSG_OK) it moves its message, using up the grant, and the highest priority thread
  runs; after a timeout or a reset it returns that status and leaves the mailbox alone.
\<close>

theorem mailbox_resume_correct:
  assumes "mbk kd idle (if u (thd k (current k)) = MSG_OK then Suc P else P) F mb k"
    and "mbk kd idle P' (if u (thd k' (current k')) = MSG_OK then Suc F' else F') mb' k'"
  shows "(case chMBPostS_resume mb m t k of (r, mb1, k1) \<Rightarrow>
        r = u (thd k (current k)) \<and>
        (if r = MSG_OK
         then mbk kd idle P (F + waits (mb_fullsem mb) k) mb1 k1 \<and> highest k1 \<and>
           mb_content (F + waits (mb_fullsem mb) k) mb1 k1 = mb_content F mb k @ [m]
         else mb1 = mb \<and> mbk kd idle P F mb k1 \<and> mb_content F mb k1 = mb_content F mb k)) \<and>
    (case chMBFetchS_resume mb' t k' of ((r, x), mb1, k1) \<Rightarrow>
        r = u (thd k' (current k')) \<and>
        (if r = MSG_OK
         then mb_content (Suc F') mb' k' \<noteq> [] \<and> x = Some (hd (mb_content (Suc F') mb' k')) \<and>
           mbk kd idle (P' + waits (mb_emptysem mb') k') F' mb1 k1 \<and> highest k1 \<and>
           mb_content F' mb1 k1 = tl (mb_content (Suc F') mb' k')
         else x = None \<and> mb1 = mb' \<and> mbk kd idle P' F' mb' k1 \<and> mb_content F' mb' k1 = mb_content F' mb' k'))"
proof -
  let ?r = "snd (chSchGoSleepTimeoutS_resume t k)" and ?r' = "snd (chSchGoSleepTimeoutS_resume t k')"
  have v: "mbk kd idle P F mb ?r = mbk kd idle P F mb k \<and> mb_used F mb ?r = mb_used F mb k" for kd idle P F mb
    by (rule mbk_cong) simp_all
  have v': "mbk kd idle P F mb ?r' = mbk kd idle P F mb k' \<and> mb_used F mb ?r' = mb_used F mb k'" for kd idle P F mb
    by (rule mbk_cong) simp_all
  have w: "waits sp ?r = waits sp k" "waits sp ?r' = waits sp k'" for sp by (rule waits_cong; simp)+
  have 1: "mbk kd idle P (F + waits (mb_fullsem mb) k) (mb_write m mb) (chSemSignalI (mb_fullsem mb) ?r) \<and>
      mb_content (F + waits (mb_fullsem mb) k) (mb_write m mb) (chSemSignalI (mb_fullsem mb) ?r) = mb_content F mb k @ [m]"
    if "u (thd k (current k)) = MSG_OK"
    using mbk_fills(1) [of kd idle P F mb ?r m] v w that assms(1) by simp
  have 2: "mbk kd idle (P' + waits (mb_emptysem mb') k') F' (snd (mb_read mb')) (chSemSignalI (mb_emptysem mb') ?r') \<and>
      mb_content (Suc F') mb' k' \<noteq> [] \<and> fst (mb_read mb') = hd (mb_content (Suc F') mb' k') \<and>
      mb_content F' (snd (mb_read mb')) (chSemSignalI (mb_emptysem mb') ?r') = tl (mb_content (Suc F') mb' k')"
    if "u (thd k' (current k')) = MSG_OK"
    using mbk_drain [of kd idle P' F' mb' ?r'] v' w that assms(2) by simp
  have post: "chMBPostS_resume mb m t k =
      (if u (thd k (current k)) = MSG_OK
       then (MSG_OK, mb_write m mb, chSchRescheduleS (chSemSignalI (mb_fullsem mb) ?r))
       else (u (thd k (current k)), mb, ?r))"
    by (simp add: chMBPostS_resume_def split_beta)
  have fetch: "chMBFetchS_resume mb' t k' =
      (if u (thd k' (current k')) = MSG_OK
       then ((MSG_OK, Some (fst (mb_read mb'))), snd (mb_read mb'), chSchRescheduleS (chSemSignalI (mb_emptysem mb') ?r'))
       else ((u (thd k' (current k')), None), mb', ?r'))"
    by (simp add: chMBFetchS_resume_def split_beta Let_def)
  have A: "case chMBPostS_resume mb m t k of (r, mb1, k1) \<Rightarrow>
        r = u (thd k (current k)) \<and>
        (if r = MSG_OK
         then mbk kd idle P (F + waits (mb_fullsem mb) k) mb1 k1 \<and> highest k1 \<and>
           mb_content (F + waits (mb_fullsem mb) k) mb1 k1 = mb_content F mb k @ [m]
         else mb1 = mb \<and> mbk kd idle P F mb k1 \<and> mb_content F mb k1 = mb_content F mb k)"
  proof (cases "u (thd k (current k)) = MSG_OK")
    case True
    then show ?thesis unfolding post
      using 1 [OF True] mbk_reschedule [OF conjunct1 [OF 1 [OF True]]] by simp
  next
    case False
    then show ?thesis unfolding post using assms(1) v by simp
  qed
  have B: "case chMBFetchS_resume mb' t k' of ((r, x), mb1, k1) \<Rightarrow>
        r = u (thd k' (current k')) \<and>
        (if r = MSG_OK
         then mb_content (Suc F') mb' k' \<noteq> [] \<and> x = Some (hd (mb_content (Suc F') mb' k')) \<and>
           mbk kd idle (P' + waits (mb_emptysem mb') k') F' mb1 k1 \<and> highest k1 \<and>
           mb_content F' mb1 k1 = tl (mb_content (Suc F') mb' k')
         else x = None \<and> mb1 = mb' \<and> mbk kd idle P' F' mb' k1 \<and> mb_content F' mb' k1 = mb_content F' mb' k')"
  proof (cases "u (thd k' (current k')) = MSG_OK")
    case True
    then show ?thesis unfolding fetch
      using 2 [OF True] mbk_reschedule [OF conjunct1 [OF 2 [OF True]]] by simp
  next
    case False
    then show ?thesis unfolding fetch using assms(2) v' by simp
  qed
  show ?thesis using A B by blast
qed

text \<open>
  Without waiting threads a mailbox used from interrupt level is a bounded FIFO.
\<close>

definition mb_quiet :: "(ptr \<Rightarrow> okind) \<Rightarrow> ptr \<Rightarrow> mailbox \<times> kernel \<Rightarrow> bool" where
  "mb_quiet kd idle s \<longleftrightarrow> mbk kd idle 0 0 (fst s) (snd s) \<and>
    0 \<le> sem_cnt (snd s) (mb_fullsem (fst s)) \<and> 0 \<le> sem_cnt (snd s) (mb_emptysem (fst s))"

definition mb_put :: "msg \<Rightarrow> mailbox \<times> kernel \<Rightarrow> mailbox \<times> kernel" where
  "mb_put m s = snd (chMBPostI (fst s) m (snd s))"

definition mb_get :: "mailbox \<times> kernel \<Rightarrow> msg \<times> mailbox \<times> kernel" where
  "mb_get s = (let (r, s') = chMBFetchI (fst s) (snd s) in (the (snd r), s'))"

lemma mb_quietD:
  "mb_quiet kd idle (mb, k) \<Longrightarrow> mbk kd idle 0 0 mb k \<and>
    waits (mb_fullsem mb) k = 0 \<and> waits (mb_emptysem mb) k = 0 \<and>
    int (length (mb_content 0 mb k)) = sem_cnt k (mb_fullsem mb) \<and>
    int (mb_top mb) = sem_cnt k (mb_emptysem mb) + sem_cnt k (mb_fullsem mb) \<and>
    0 \<le> sem_cnt k (mb_fullsem mb) \<and> 0 \<le> sem_cnt k (mb_emptysem mb) \<and> mb_emptysem mb \<noteq> mb_fullsem mb"
  using mbk_waits [of kd idle 0 0 mb k] by (simp add: mb_quiet_def mbk_def mb_used_def mb_messages_def)

interpretation mbox: bounded_fifo "mb_quiet kd idle" "\<lambda>s. mb_top (fst s)" "\<lambda>s. mb_content 0 (fst s) (snd s)"
  mb_put mb_get for kd idle
proof (unfold_locales, goal_cases)
  case (1 s m)
  obtain mb k where s: "s = (mb, k)" by (cases s)
  note q = mb_quietD [OF 1(1) [unfolded s]]
  have c: "0 < sem_cnt k (mb_emptysem mb)" using q 1(2) by (simp add: s)
  have i: "mbk kd idle 0 0 mb k" using q by simp
  show ?case using postI_ok [OF i c, of m] q c by (simp add: s mb_put_def mb_quiet_def)
next
  case (2 s)
  obtain mb k where s: "s = (mb, k)" by (cases s)
  note q = mb_quietD [OF 2(1) [unfolded s]]
  have "0 < length (mb_content 0 mb k)" using 2(2) by (simp add: s)
  then have c: "0 < sem_cnt k (mb_fullsem mb)" using q by linarith
  have i: "mbk kd idle 0 0 mb k" using q by simp
  show ?case using fetchI_ok [OF i c] q c by (simp add: s mb_get_def mb_quiet_def)
qed

text \<open>
  A mailbox is a bounded FIFO: posting any messages that fit into an empty mailbox on which
  nobody waits, and fetching as many, returns them in the order they were posted, and leaves
  the mailbox empty.
\<close>

theorem mailbox_fifo:
  assumes "mb_quiet kd idle (mb, k)" and "mb_content 0 mb k = []" and "length ms \<le> mb_top mb"
  shows "fst (gets mb_get (length ms) (fold mb_put ms (mb, k))) = ms \<and>
    (case snd (gets mb_get (length ms) (fold mb_put ms (mb, k))) of (mb', k') \<Rightarrow> mb_content 0 mb' k' = [])"
  using mbox.fill_drain [OF assms(1), of ms] assms(2,3) by (simp add: split_beta)

text \<open>
  Resetting a mailbox with no grant outstanding empties it: all slots are free again, every
  thread waiting to post or to fetch becomes ready with MSG_RESET, and the invariant is kept.
\<close>

theorem mailbox_reset_correct:
  assumes i: "mbk kd idle 0 0 mb k"
  shows "(case chMBResetI mb k of (mb', k') \<Rightarrow> mbk kd idle 0 0 mb' k' \<and> mb_content 0 mb' k' = [] \<and>
      chMBGetUsedCountI mb' k' = 0 \<and> chMBGetFreeCountI mb' k' = int (chMBGetSizeI mb) \<and>
      (\<forall>t \<in> set (qs k (QOBJ (mb_emptysem mb))) \<union> set (qs k (QOBJ (mb_fullsem mb))).
        tstate k' t = CH_STATE_READY \<and> u (thd k' t) = MSG_RESET)) \<and>
    (case chMBReset mb k of (mb', k') \<Rightarrow> mbk kd idle 0 0 mb' k' \<and> mb_content 0 mb' k' = [] \<and> highest k')"
proof -
  let ?E = "mb_emptysem mb" and ?F = "mb_fullsem mb"
  have s: "semk kd idle k" and kd: "kd ?E = KSem" "kd ?F = KSem" "?E \<noteq> ?F" using i by (simp_all add: mbk_def)
  define k1 where "k1 = chSemResetI ?E (int (mb_top mb)) k"
  define k2 where "k2 = chSemResetI ?F 0 k1"
  note r1 = semk_reset [OF s kd(1), of "int (mb_top mb)", folded k1_def]
  have s1: "semk kd idle k1" using r1 by simp
  note r2 = semk_reset [OF s1 kd(2), of 0, folded k2_def]
  let ?mb = "mb\<lparr>mb_wrptr := 0, mb_rdptr := 0\<rparr>"
  have eq: "chMBResetI mb k = (?mb, k2)" by (simp add: chMBResetI_def Let_def k1_def k2_def)
  have cn: "sem_cnt k2 = (sem_cnt k)(?E := int (mb_top mb), ?F := 0)" using r1 r2 by simp
  have "0 < mb_top mb" "length (mb_buffer mb) = mb_top mb" using i by (auto simp: mbk_def mb_ring_def ring_ok_def)
  then have m: "mbk kd idle 0 0 ?mb k2" using conjunct1 [OF r2] kd by (simp add: mbk_def mb_used_def mb_ring_def ring_ok_def cn)
  have c: "mb_content 0 ?mb k2 = []" using cn by (simp add: mb_used_def mb_messages_def)
  have Q: "queues_ok (qs k)" using s kinv_queues by (auto simp: semk_def)
  have disj: "t \<notin> set (qs k (QOBJ ?F))" if "t \<in> set (qs k (QOBJ ?E))" for t
    using queues_ok_disj [OF Q that, of "QOBJ ?F"] kd by auto
  have qF: "qs k1 (QOBJ ?F) = qs k (QOBJ ?F)" using r1 kd by auto
  have w: "tstate k2 t = CH_STATE_READY \<and> u (thd k2 t) = MSG_RESET"
    if "t \<in> set (qs k (QOBJ ?E)) \<union> set (qs k (QOBJ ?F))" for t
  proof (cases "t \<in> set (qs k (QOBJ ?F))")
    case True
    then show ?thesis using r2 qF by simp
  next
    case False
    then show ?thesis using that r1 r2 qF by simp
  qed
  show ?thesis
    using m c w cn kd mbk_reschedule [OF m]
    by (auto simp: chMBReset_def eq chMBGetUsedCountI_def chMBGetFreeCountI_def chMBGetSizeI_def chSemGetCounterI_def)
qed

text \<open>
  A thread that fetches from an empty mailbox without limit goes to sleep as its only fetcher;
  the next lower thread runs.
\<close>

lemma fetch_sleeps:
  assumes i: "mbk kd idle 0 0 mb k" and idle: "current k \<noteq> idle" and e: "sem_cnt k (mb_fullsem mb) = 0"
  obtains k1 where "chMBFetchS mb TIME_INFINITE k = ((Switched, None), mb, k1)" "mbk kd idle 0 0 mb k1"
    "sem_cnt k1 = (sem_cnt k)(mb_fullsem mb := - 1)" "qs k1 (QOBJ (mb_fullsem mb)) = [current k]"
    "current k1 \<in> set (qs k RLIST)" "set (qs k1 RLIST) \<subseteq> set (qs k RLIST)"
    "\<And>t. tprio k1 t = tprio k t"
proof -
  let ?F = "mb_fullsem mb"
  have s: "semk kd idle k" and kd: "kd ?F = KSem" using i by (simp_all add: mbk_def)
  have ki: "kinv kd idle {} k" using s by (simp add: semk_def)
  have q0: "qs k (QOBJ ?F) = []" using semk_sem_ok [OF s kd] e by (simp add: sem_ok_def)
  have r: "qs k RLIST \<noteq> []" using ready_nonempty [OF ki] idle by auto
  have inf: "TIME_INFINITE \<noteq> TIME_IMMEDIATE" by (simp add: TIME_INFINITE_def TIME_IMMEDIATE_def)
  define k1 where "k1 = snd (chSemWaitTimeoutS ?F TIME_INFINITE k)"
  have k1: "k1 = chSchGoSleepS CH_STATE_WTSEM (queue_insert (current k) (QOBJ ?F) (set_u (current k) ?F (set_sem ?F (- 1) k)))"
    using e inf by (simp add: k1_def chSemWaitTimeoutS_def Let_def chSchGoSleepTimeoutS_def)
  note w = semk_wait_timeout [OF s kd idle, of TIME_INFINITE, folded k1_def]
  have w: "fst (chSemWaitTimeoutS ?F TIME_INFINITE k) = Switched" "semk kd idle k1"
    "sem_cnt k1 = (sem_cnt k)(?F := - 1)" "qs k1 (QOBJ ?F) = [current k]"
    using w e inf q0 by simp_all
  obtain x l where x: "qs k RLIST = x # l" using r by (cases "qs k RLIST") auto
  have "current k1 = x" unfolding k1 chSchGoSleepS_def
    by (rule take_first_fields(1)) (use x in \<open>simp add: q_insert_def\<close>)
  moreover have "qs k1 RLIST = l" using x by (simp add: k1 q_insert_def)
  moreover have "tprio k1 t = tprio k t" for t by (simp add: k1)
  moreover have "mbk kd idle 0 0 mb k1" using i e w by (simp add: mbk_def mb_used_def)
  moreover have "chMBFetchS mb TIME_INFINITE k = ((Switched, None), mb, k1)"
    using w(1) by (simp add: chMBFetchS_def split_beta k1_def)
  ultimately show ?thesis using that w(3,4) x by (simp add: subset_insertI)
qed

text \<open>A post to a mailbox with one sleeping fetcher makes it ready, first of all if it is the highest.\<close>

lemma post_grants:
  assumes i: "mbk kd idle 0 0 mb k" and q: "qs k (QOBJ (mb_fullsem mb)) = [c]"
    and free: "0 < sem_cnt k (mb_emptysem mb)" and hi: "\<forall>t \<in> set (qs k RLIST). tprio k t < tprio k c"
  obtains k' where "chMBPostI mb m k = (MSG_OK, mb_write m mb, k')" "mbk kd idle 0 1 (mb_write m mb) k'"
    "mb_content 1 (mb_write m mb) k' = mb_content 0 mb k @ [m]"
    "sem_cnt k' = (sem_cnt k)(mb_emptysem mb := sem_cnt k (mb_emptysem mb) - 1,
      mb_fullsem mb := sem_cnt k (mb_fullsem mb) + 1)"
    "qs k' RLIST = c # qs k RLIST" "tstate k' c = CH_STATE_READY" "u (thd k' c) = MSG_OK"
    "current k' = current k" "\<And>t. tprio k' t = tprio k t"
proof -
  let ?E = "mb_emptysem mb" and ?F = "mb_fullsem mb"
  let ?K = "chSemFastWaitI ?E k" and ?S = "set_sem ?F (sem_cnt k ?F + 1) (chSemFastWaitI ?E k)"
  have s: "semk kd idle k" and kd: "kd ?F = KSem" "kd ?E = KSem" "?E \<noteq> ?F" using i by (simp_all add: mbk_def)
  have "qs k (QOBJ ?E) = []" using semk_sem_ok [OF s kd(2)] free by (simp add: sem_ok_def)
  then have sK: "semk kd idle ?K" using semk_count [OF s, of "sem_cnt k ?E - 1" ?E] free by (simp add: chSemFastWaitI_def)
  have eq: "chSemSignalI ?F ?K = chSchReadyI c (set_u c MSG_OK (queue_dequeue c ?S))"
    using chSemSignal_eq(2) [OF sK kd(1)] q kd(3) by (simp add: chSemFastWaitI_def)
  have "c \<notin> set (qs k RLIST)" using hi by blast
  then have "remove1 c (qs k RLIST) = qs k RLIST" by (rule remove1_idem)
  moreover have "ins_where (\<lambda>x. x \<noteq> c \<longrightarrow> tprio k c \<le> tprio k x) c (qs k RLIST) = c # qs k RLIST"
    using hi by (cases "qs k RLIST") (auto simp: not_le)
  ultimately have "qs (chSemSignalI ?F ?K) RLIST = c # qs k RLIST"
    unfolding eq qs_chSchReadyI q_prio_insert_def by (simp add: q_dequeue_def chSemFastWaitI_def)
  moreover have "tprio (chSemSignalI ?F ?K) t = tprio k t" for t unfolding eq by (simp add: chSemFastWaitI_def)
  moreover have "current (chSemSignalI ?F ?K) = current k" unfolding eq by (simp add: chSemFastWaitI_def)
  moreover have "tstate (chSemSignalI ?F ?K) c = CH_STATE_READY" "u (thd (chSemSignalI ?F ?K) c) = MSG_OK"
    unfolding eq by simp_all
  moreover have "waits ?F k = 1" using q by (simp add: waits_def)
  ultimately show ?thesis using that [of "chSemSignalI ?F ?K"] postI_ok [OF i free, of m] by simp
qed

text \<open>
  C39: A defect of the reset.  A thread that fetches from an empty mailbox sleeps; an interrupt
  posts a message, which makes the thread ready with MSG_OK, and resets the mailbox. The reset
  empties the mailbox and makes all its slots free, but the thread, no longer in a queue, keeps its
  MSG_OK. When it runs, at the end of the interrupt, it returns MSG_OK with whatever the first slot of
  the empty buffer holds, not MSG_RESET, moves the read position, and signals a free slot: the
  mailbox counts one free slot more than it has, and from then on no number of granted slots
  and messages explains its counters.
\<close>

theorem mailbox_reset_race:
  assumes i: "mbk kd idle 0 0 mb k" and idle: "current k \<noteq> idle" and e: "sem_cnt k (mb_fullsem mb) = 0"
    and hi: "\<forall>t \<in> set (qs k RLIST). tprio k t < tprio k (current k)"
  shows "case chMBFetchS mb TIME_INFINITE k of ((r1, x1), mb1, k1) \<Rightarrow>
    r1 = Switched \<and> x1 = None \<and> qs k1 (QOBJ (mb_fullsem mb)) = [current k] \<and>
    (case chMBPostI mb1 m k1 of (r2, mb2, k2) \<Rightarrow>
      r2 = MSG_OK \<and> tstate k2 (current k) = CH_STATE_READY \<and> u (thd k2 (current k)) = MSG_OK \<and>
      (case chMBResetI mb2 k2 of (mb3, k3) \<Rightarrow>
        mb_content 0 mb3 k3 = [] \<and> chMBGetUsedCountI mb3 k3 = 0 \<and> chMBGetFreeCountI mb3 k3 = int (chMBGetSizeI mb) \<and>
        current (chSchRescheduleS k3) = current k \<and>
        (case chMBFetchS_resume mb3 TIME_INFINITE (chSchRescheduleS k3) of ((r4, x4), mb4, k4) \<Rightarrow>
          r4 = MSG_OK \<and> x4 = Some (mb_buffer mb3 ! 0) \<and> mb_top mb4 = chMBGetSizeI mb \<and>
          chMBGetFreeCountI mb4 k4 = int (chMBGetSizeI mb) + 1 \<and> (\<forall>P F. \<not> mbk kd idle P F mb4 k4))))"
proof -
  let ?E = "mb_emptysem mb" and ?F = "mb_fullsem mb" and ?c = "current k"
  have kd: "kd ?F = KSem" "kd ?E = KSem" "?E \<noteq> ?F" using i by (simp_all add: mbk_def)
  have "0 < mb_top mb" "mb_top mb = nat (sem_cnt k ?E)" using i e by (auto simp: mbk_def mb_used_def mb_ring_def ring_ok_def)
  then have top: "sem_cnt k ?E = int (mb_top mb)" "0 < mb_top mb" by simp_all
  obtain k1 where f: "chMBFetchS mb TIME_INFINITE k = ((Switched, None), mb, k1)" "mbk kd idle 0 0 mb k1"
      "sem_cnt k1 = (sem_cnt k)(?F := - 1)" "qs k1 (QOBJ ?F) = [?c]"
      "current k1 \<in> set (qs k RLIST)" "set (qs k1 RLIST) \<subseteq> set (qs k RLIST)" "\<And>t. tprio k1 t = tprio k t"
    by (rule fetch_sleeps [OF i idle e]) blast
  have free: "0 < sem_cnt k1 ?E" using f(3) top kd(3) by simp
  have "\<forall>t \<in> set (qs k1 RLIST). tprio k1 t < tprio k1 ?c" using hi f(6,7) by auto
  then obtain k2 where g: "chMBPostI mb m k1 = (MSG_OK, mb_write m mb, k2)" "mbk kd idle 0 1 (mb_write m mb) k2"
      "sem_cnt k2 = (sem_cnt k1)(?E := sem_cnt k1 ?E - 1, ?F := sem_cnt k1 ?F + 1)"
      "qs k2 RLIST = ?c # qs k1 RLIST" "tstate k2 ?c = CH_STATE_READY" "u (thd k2 ?c) = MSG_OK"
      "current k2 = current k1" "\<And>t. tprio k2 t = tprio k1 t"
    by (rule post_grants [OF f(2,4) free, of m]) blast
  have c2: "sem_cnt k2 = (sem_cnt k)(?E := int (mb_top mb) - 1, ?F := 0)" using g(3) f(3) top kd(3) by auto
  define mb3 where "mb3 = (mb_write m mb)\<lparr>mb_wrptr := 0, mb_rdptr := 0\<rparr>"
  define k3 where "k3 = set_sem ?F 0 (set_sem ?E (int (mb_top mb)) k2)"
  have r: "chMBResetI (mb_write m mb) k2 = (mb3, k3)"
    using c2 top kd(3) by (simp add: chMBResetI_def Let_def chSemResetI_def chSemResetI_loop.simps mb3_def k3_def)
  have s2: "semk kd idle k2" using g(2) by (simp add: mbk_def)
  have "qs k2 (QOBJ ?F) = []" "qs k2 (QOBJ ?E) = []"
    using semk_sem_ok [OF s2 kd(1)] semk_sem_ok [OF s2 kd(2)] c2 top kd(3) by (simp_all add: sem_ok_def)
  then have s3: "semk kd idle k3" unfolding k3_def by (intro semk_count) (use s2 in simp_all)
  define k4 where "k4 = chSchRescheduleS k3"
  have s4: "semk kd idle k4" using semk_reschedule [OF s3] by (simp add: k4_def)
  have "chSchIsRescRequiredI k3" using g(4,7,8) f(5,7) hi
    by (simp add: chSchIsRescRequiredI_def firstprio_def k3_def)
  moreover have "qs k3 RLIST = ?c # qs k1 RLIST" using g(4) by (simp add: k3_def)
  ultimately have cur: "current k4 = ?c"
    by (simp add: k4_def chSchRescheduleS_def chSchDoRescheduleAhead_def Let_def take_first_fields)
  have c4: "sem_cnt k4 = (sem_cnt k)(?E := int (mb_top mb), ?F := 0)" using c2 kd(3) by (auto simp: k4_def k3_def)
  have u4: "u (thd k4 ?c) = MSG_OK" using g(6) by (simp add: k4_def k3_def)
  let ?r = "snd (chSchGoSleepTimeoutS_resume TIME_INFINITE k4)"
  have "semk kd idle ?r" using s4 semk_cong [of ?r k4] by simp
  note sg = semk_signals [OF this kd(2)]
  define mb4 where "mb4 = snd (mb_read mb3)"
  define k5 where "k5 = chSchRescheduleS (chSemSignalI ?E ?r)"
  have fixed: "mb_emptysem mb3 = ?E" "mb_fullsem mb3 = ?F" "mb_top mb3 = mb_top mb" "mb_top mb4 = mb_top mb"
    "mb_emptysem mb4 = ?E" by (simp_all add: mb3_def mb4_def)
  have x: "fst (mb_read mb3) = mb_buffer mb3 ! 0" by (simp add: mb_read_def mb3_def Let_def)
  have res: "chMBFetchS_resume mb3 TIME_INFINITE k4 = ((MSG_OK, Some (mb_buffer mb3 ! 0)), mb4, k5)"
    using u4 cur x fixed by (simp add: chMBFetchS_resume_def split_beta Let_def mb4_def k5_def)
  have c5: "sem_cnt k5 ?E = int (mb_top mb) + 1" using sg c4 kd(3) by (simp add: k5_def)
  have "\<not> mbk kd idle P F mb4 k5" for P F
    using c5 fixed by (auto simp: mbk_def)
  moreover have "mb_content 0 mb3 k3 = []" using fixed c2 kd(3) by (simp add: mb_used_def mb_messages_def k3_def)
  ultimately show ?thesis
    unfolding f(1) prod.case g(1) r k4_def [symmetric] res
    using f(4) g(5,6) cur c5 fixed kd(3)
    by (simp add: chMBGetFreeCountI_def chMBGetUsedCountI_def chMBGetSizeI_def chSemGetCounterI_def k3_def)
qed

section \<open>Witnesses\<close>

text \<open>A mailbox of two slots with one message in it; its semaphores are at 100 and 101.\<close>

definition mb_kinds :: "ptr \<Rightarrow> okind" where
  "mb_kinds p = (if p \<in> {100, 101} then KSem else KQueue)"

definition mb_one :: mailbox where
  "mb_one = \<lparr>mb_buffer = [7, 0], mb_top = 2, mb_wrptr = 1, mb_rdptr = 0, mb_fullsem = 100, mb_emptysem = 101\<rparr>"

definition mb_boot :: kernel where
  "mb_boot = set_sem 101 1 (set_sem 100 1 boot)"

lemma semk_mb_boot: "semk kd 2 mb_boot"
  by (simp add: mb_boot_def semk_def kinv_boot sems_ok_def sem_ok_def boot_simps)

lemma mbk_boot: "mbk mb_kinds 2 0 0 mb_one mb_boot"
  using semk_mb_boot by (simp add: mbk_def mb_kinds_def mb_one_def mb_ring_def ring_ok_def mb_used_def) (simp add: mb_boot_def)

lemma mailbox_interrupt_correct_witness:
  "\<exists>mb' k'. chMBFetchI mb_one mb_boot = ((MSG_OK, Some 7), mb', k') \<and> mb_content 0 mb' k' = []"
proof -
  have "mb_content 0 mb_one mb_boot = [7]"
    by (simp add: mb_messages_def mb_used_def mb_one_def mb_boot_def ring_at_def)
  moreover have "\<not> sem_cnt mb_boot (mb_fullsem mb_one) \<le> 0" by (simp add: mb_boot_def mb_one_def)
  ultimately show ?thesis
    using conjunct2 [OF mailbox_interrupt_correct [OF mbk_boot, of 0]] by auto
qed

lemma mailbox_wait_correct_witness:
  "fst (chMBPostS mb_one 9 TIME_INFINITE mb_boot) = Ret MSG_OK"
proof -
  have c: "current mb_boot \<noteq> 2" "0 < sem_cnt mb_boot (mb_emptysem mb_one)"
    by (simp_all add: mb_boot_def mb_one_def boot_simps)
  show ?thesis using conjunct1 [OF mailbox_wait_correct [OF mbk_boot c(1), of 9 TIME_INFINITE]] c(2)
    by (simp add: split_beta)
qed

text \<open>The same mailbox while thread 1 has been granted its free slot, or its message.\<close>

lemma mbk_granted:
  "mbk mb_kinds 2 (Suc 0) 0 mb_one (set_sem 101 0 mb_boot)"
  "mbk mb_kinds 2 0 (Suc 0) mb_one (set_sem 100 0 mb_boot)"
proof -
  have "semk mb_kinds 2 (set_sem p 0 mb_boot)" for p
    using semk_count [OF semk_mb_boot, of 0] by (simp add: mb_boot_def boot_simps)
  then show "mbk mb_kinds 2 (Suc 0) 0 mb_one (set_sem 101 0 mb_boot)"
    "mbk mb_kinds 2 0 (Suc 0) mb_one (set_sem 100 0 mb_boot)"
    by (simp_all add: mbk_def mb_kinds_def mb_one_def mb_ring_def ring_ok_def mb_used_def) (simp_all add: mb_boot_def)
qed

lemma granted_ok: "u (thd (set_sem p 0 mb_boot) (current (set_sem p 0 mb_boot))) = MSG_OK"
  by (simp add: mb_boot_def boot_simps boot_thread_def MSG_OK_def)

lemma mailbox_resume_correct_witness:
  "fst (chMBPostS_resume mb_one 9 TIME_INFINITE (set_sem 101 0 mb_boot)) = MSG_OK \<and>
    fst (chMBFetchS_resume mb_one TIME_INFINITE (set_sem 100 0 mb_boot)) = (MSG_OK, Some 7)"
proof -
  have c: "mb_content (Suc 0) mb_one (set_sem 100 0 mb_boot) = [7]"
    by (simp add: mb_messages_def mb_used_def mb_one_def mb_boot_def ring_at_def)
  from mailbox_resume_correct [of mb_kinds 2 "set_sem 101 0 mb_boot" 0 0 mb_one 0 "set_sem 100 0 mb_boot" 0 mb_one
      9 TIME_INFINITE, unfolded granted_ok if_P [OF refl], OF mbk_granted]
  show ?thesis using c by (simp add: split_beta granted_ok prod_eq_iff)
qed

lemma mailbox_fifo_witness:
  "\<exists>mb k. fst (gets mb_get 2 (fold mb_put [5, 6] (mb, k))) = [5, 6]"
proof -
  let ?mb = "mb_one\<lparr>mb_wrptr := 0\<rparr>" and ?k = "set_sem 101 2 boot"
  have "semk mb_kinds 2 ?k"
    using semk_count [OF semk_boot, of 2] by (simp add: boot_simps)
  then have q: "mb_quiet mb_kinds 2 (?mb, ?k)"
    by (simp add: mb_quiet_def mbk_def mb_kinds_def mb_one_def mb_ring_def ring_ok_def mb_used_def boot_simps)
  have c: "mb_content 0 ?mb ?k = []" by (simp add: mb_messages_def mb_used_def mb_one_def boot_simps)
  have l: "length [5, 6 :: msg] \<le> mb_top ?mb" by (simp add: mb_one_def)
  have "length [5, 6 :: msg] = 2" by simp
  from conjunct1 [OF mailbox_fifo [OF q c l], unfolded this] show ?thesis by blast
qed

lemma mailbox_reset_correct_witness:
  "chMBGetFreeCountI (fst (chMBResetI mb_one mb_boot)) (snd (chMBResetI mb_one mb_boot)) = 2"
  using conjunct1 [OF mailbox_reset_correct [OF mbk_boot]]
  by (simp add: split_beta chMBGetSizeI_def mb_one_def)

text \<open>The main thread fetches from the empty mailbox of two slots whose first slot was 7 once.\<close>

lemma mailbox_reset_race_witness:
  "\<exists>mb k. mb_top mb = 2 \<and> (case chMBFetchS mb TIME_INFINITE k of (_, mb1, k1) \<Rightarrow>
    tstate k1 1 = CH_STATE_WTSEM \<and>
    (case chMBPostI mb1 9 k1 of (_, mb2, k2) \<Rightarrow>
    (case chMBResetI mb2 k2 of (mb3, k3) \<Rightarrow>
    (case chMBFetchS_resume mb3 TIME_INFINITE (chSchRescheduleS k3) of ((r, x), mb4, k4) \<Rightarrow>
      r = MSG_OK \<and> chMBGetFreeCountI mb4 k4 = 3))))"
proof -
  let ?mb = "mb_one\<lparr>mb_wrptr := 0\<rparr>" and ?k = "set_sem 101 2 boot"
  have "semk mb_kinds 2 ?k" using semk_count [OF semk_boot, of 2] by (simp add: boot_simps)
  then have m: "mbk mb_kinds 2 0 0 ?mb ?k"
    by (simp add: mbk_def mb_kinds_def mb_one_def mb_ring_def ring_ok_def mb_used_def boot_simps)
  have c: "current ?k \<noteq> 2" "sem_cnt ?k (mb_fullsem ?mb) = 0" "current ?k = 1" by (simp_all add: boot_simps mb_one_def)
  have h: "\<forall>t \<in> set (qs ?k RLIST). tprio ?k t < tprio ?k (current ?k)"
    by (simp add: boot_simps boot_thread_def NORMALPRIO_def IDLEPRIO_def)
  obtain k1 where f: "chMBFetchS ?mb TIME_INFINITE ?k = ((Switched, None), ?mb, k1)" "mbk mb_kinds 2 0 0 ?mb k1"
      "qs k1 (QOBJ (mb_fullsem ?mb)) = [current ?k]"
    by (rule fetch_sleeps [OF m c(1,2)]) blast
  have "placed mb_kinds k1 1" using f(2) by (simp add: mbk_def semk_def kinv_def)
  then have "allowed mb_kinds (tstate k1 1) (u (thd k1 1)) (QOBJ 100)"
    using f(3) c(3) by (auto simp: placed_def mb_one_def)
  then have "tstate k1 1 = CH_STATE_WTSEM" by (cases "tstate k1 1") (auto simp: mb_kinds_def)
  then show ?thesis using mailbox_reset_race [OF m c(1,2) h, of 9] f(1)
    by (intro exI [of _ ?mb] exI [of _ ?k]) (simp add: split_beta chMBGetSizeI_def mb_one_def)
qed

end
