(* ===== verification/IoQueues.thy ===== *)
theory IoQueues
  imports Threads RingBuffers
begin

text \<open>
  The I/O queues of the HAL (hal_queues.c, hal_queues.h): byte rings between a thread and an
  interrupt handler.  In an input queue \<open>q_counter\<close> counts the bytes stored, in an output queue
  the free places.  Pointers into the buffer are indices.  The notification callback belongs to
  the driver: it is the argument \<open>nfy\<close>, a function on the queue and the kernel, or \<open>None\<close> for a
  null pointer.  Between two bytes of a long transfer the code opens the critical zone; the
  loops below run their passes one after the other, and a call that sleeps stops and is carried
  on by its \<open>_resume\<close> from any later state.
\<close>

section \<open>Data\<close>

record ioq =
  q_waiting :: ptr
  q_counter :: nat
  q_buffer :: "u8 list"
  q_top :: nat
  q_wrptr :: nat
  q_rdptr :: nat

type_synonym notify = "(ioq \<times> kernel \<Rightarrow> ioq \<times> kernel) option"

definition qSizeX :: "ioq \<Rightarrow> nat" where "qSizeX q = q_top q"

definition iqIsEmptyI :: "ioq \<Rightarrow> bool" where "iqIsEmptyI q \<longleftrightarrow> q_counter q = 0"

definition iqIsFullI :: "ioq \<Rightarrow> bool" where
  "iqIsFullI q \<longleftrightarrow> q_wrptr q = q_rdptr q \<and> q_counter q \<noteq> 0"

definition oqIsEmptyI :: "ioq \<Rightarrow> bool" where
  "oqIsEmptyI q \<longleftrightarrow> q_wrptr q = q_rdptr q \<and> q_counter q \<noteq> 0"

definition oqIsFullI :: "ioq \<Rightarrow> bool" where "oqIsFullI q \<longleftrightarrow> q_counter q = 0"

definition run_notify :: "notify \<Rightarrow> ioq \<times> kernel \<Rightarrow> ioq \<times> kernel" where
  "run_notify nfy s = (case nfy of None \<Rightarrow> s | Some f \<Rightarrow> f s)"

text \<open>Storing and loading a byte, with the wrap of the pointer.\<close>

definition q_store :: "u8 \<Rightarrow> ioq \<Rightarrow> ioq" where
  "q_store b q =
    (let q = q\<lparr>q_buffer := (q_buffer q)[q_wrptr q := b], q_wrptr := q_wrptr q + 1\<rparr>
     in if q_wrptr q \<ge> q_top q then q\<lparr>q_wrptr := 0\<rparr> else q)"

definition q_load :: "ioq \<Rightarrow> u8 \<times> ioq" where
  "q_load q =
    (let b = q_buffer q ! q_rdptr q;
         q = q\<lparr>q_rdptr := q_rdptr q + 1\<rparr>
     in (b, if q_rdptr q \<ge> q_top q then q\<lparr>q_rdptr := 0\<rparr> else q))"

section \<open>Input queues\<close>

definition iqObjectInit :: "ptr \<Rightarrow> u8 list \<Rightarrow> nat \<Rightarrow> kernel \<Rightarrow> ioq \<times> kernel" where
  "iqObjectInit tqp bp n k =
    (\<lparr>q_waiting = tqp, q_counter = 0, q_buffer = bp, q_top = n, q_wrptr = 0, q_rdptr = 0\<rparr>,
     queue_init (QOBJ tqp) k)"

definition iqResetI :: "ioq \<Rightarrow> kernel \<Rightarrow> ioq \<times> kernel" where
  "iqResetI q k =
    (let q = q\<lparr>q_rdptr := 0, q_wrptr := 0, q_counter := 0\<rparr>
     in (q, chThdDequeueAllI (q_waiting q) MSG_RESET k))"

definition iqPutI :: "ioq \<Rightarrow> u8 \<Rightarrow> kernel \<Rightarrow> msg \<times> ioq \<times> kernel" where
  "iqPutI q b k =
    (if iqIsFullI q then (MSG_TIMEOUT, q, k)
     else (let q = q\<lparr>q_counter := q_counter q + 1\<rparr>;
               q = q_store b q
           in (MSG_OK, q, chThdDequeueNextI (q_waiting q) MSG_OK k)))"

text \<open>
  One turn of the wait loop.  A queue sleep that returns without a switch has timed out
  (\<open>enqueue_result\<close>), so the loop is left at once; after a switch the loop turns again.
\<close>

definition iqGetTimeout :: "notify \<Rightarrow> systime \<Rightarrow> ioq \<Rightarrow> kernel \<Rightarrow> msg outcome \<times> ioq \<times> kernel" where
  "iqGetTimeout nfy timeout q k =
    (if iqIsEmptyI q
     then (let (r, k) = chThdEnqueueTimeoutS (q_waiting q) timeout k in (r, q, k))
     else (let q = q\<lparr>q_counter := q_counter q - 1\<rparr>;
               (b, q) = q_load q;
               (q, k) = run_notify nfy (q, k)
           in (Ret (ucast b), q, k)))"

definition iqGetTimeout_resume :: "notify \<Rightarrow> systime \<Rightarrow> ioq \<Rightarrow> kernel \<Rightarrow> msg outcome \<times> ioq \<times> kernel" where
  "iqGetTimeout_resume nfy timeout q k =
    (let (m, k) = chSchGoSleepTimeoutS_resume timeout k
     in if m <s MSG_OK then (Ret m, q, k) else iqGetTimeout nfy timeout q k)"

text \<open>
  A long transfer is done, or sleeps with a number of bytes to go, the timeout of its sleep and
  the bytes moved so far.
\<close>

datatype 'a transfer = Done 'a | Blocked nat systime 'a

text \<open>The timeout for the next sleep; \<open>None\<close> if the deadline has passed.\<close>

definition next_sleep :: "systime \<Rightarrow> systime \<Rightarrow> kernel \<Rightarrow> systime option" where
  "next_sleep deadline timeout k =
    (if timeout = TIME_INFINITE \<or> timeout = TIME_IMMEDIATE then Some timeout
     else (let next_timeout = deadline - chVTGetSystemTimeX k
           in if next_timeout > timeout then None else Some next_timeout))"

fun iqRead_loop :: "notify \<Rightarrow> systime \<Rightarrow> systime \<Rightarrow> nat \<Rightarrow> u8 list \<Rightarrow> ioq \<Rightarrow> kernel \<Rightarrow>
    u8 list transfer \<times> ioq \<times> kernel" where
  "iqRead_loop nfy deadline timeout 0 acc q k = (Done acc, q, k)"
| "iqRead_loop nfy deadline timeout (Suc n) acc q k =
    (if iqIsEmptyI q
     then (case next_sleep deadline timeout k of
             None \<Rightarrow> (Done acc, q, k)
           | Some t \<Rightarrow>
               (case chThdEnqueueTimeoutS (q_waiting q) t k of
                  (Switched, k) \<Rightarrow> (Blocked (Suc n) t acc, q, k)
                | (Ret _, k) \<Rightarrow> (Done acc, q, k)))
     else (let q = q\<lparr>q_counter := q_counter q - 1\<rparr>;
               (b, q) = q_load q;
               (q, k) = run_notify nfy (q, k)
           in iqRead_loop nfy deadline timeout n (acc @ [b]) q k))"

definition iqReadTimeout :: "notify \<Rightarrow> nat \<Rightarrow> systime \<Rightarrow> ioq \<Rightarrow> kernel \<Rightarrow> u8 list transfer \<times> ioq \<times> kernel" where
  "iqReadTimeout nfy n timeout q k =
    iqRead_loop nfy (chVTGetSystemTimeX k + timeout) timeout n [] q k"

definition iqReadTimeout_resume :: "notify \<Rightarrow> systime \<Rightarrow> systime \<Rightarrow> nat \<Rightarrow> systime \<Rightarrow> u8 list \<Rightarrow>
    ioq \<Rightarrow> kernel \<Rightarrow> u8 list transfer \<times> ioq \<times> kernel" where
  "iqReadTimeout_resume nfy deadline timeout n t acc q k =
    (let (m, k) = chSchGoSleepTimeoutS_resume t k
     in if m \<noteq> MSG_OK then (Done acc, q, k) else iqRead_loop nfy deadline timeout n acc q k)"

section \<open>Output queues\<close>

definition oqObjectInit :: "ptr \<Rightarrow> u8 list \<Rightarrow> nat \<Rightarrow> kernel \<Rightarrow> ioq \<times> kernel" where
  "oqObjectInit tqp bp n k =
    (\<lparr>q_waiting = tqp, q_counter = n, q_buffer = bp, q_top = n, q_wrptr = 0, q_rdptr = 0\<rparr>,
     queue_init (QOBJ tqp) k)"

definition oqResetI :: "ioq \<Rightarrow> kernel \<Rightarrow> ioq \<times> kernel" where
  "oqResetI q k =
    (let q = q\<lparr>q_rdptr := 0, q_wrptr := 0, q_counter := qSizeX q\<rparr>
     in (q, chThdDequeueAllI (q_waiting q) MSG_RESET k))"

definition oqPutTimeout :: "notify \<Rightarrow> u8 \<Rightarrow> systime \<Rightarrow> ioq \<Rightarrow> kernel \<Rightarrow> msg outcome \<times> ioq \<times> kernel" where
  "oqPutTimeout nfy b timeout q k =
    (if oqIsFullI q
     then (let (r, k) = chThdEnqueueTimeoutS (q_waiting q) timeout k in (r, q, k))
     else (let q = q\<lparr>q_counter := q_counter q - 1\<rparr>;
               q = q_store b q;
               (q, k) = run_notify nfy (q, k)
           in (Ret MSG_OK, q, k)))"

definition oqPutTimeout_resume :: "notify \<Rightarrow> u8 \<Rightarrow> systime \<Rightarrow> ioq \<Rightarrow> kernel \<Rightarrow> msg outcome \<times> ioq \<times> kernel" where
  "oqPutTimeout_resume nfy b timeout q k =
    (let (m, k) = chSchGoSleepTimeoutS_resume timeout k
     in if m <s MSG_OK then (Ret m, q, k) else oqPutTimeout nfy b timeout q k)"

definition oqGetI :: "ioq \<Rightarrow> kernel \<Rightarrow> msg \<times> ioq \<times> kernel" where
  "oqGetI q k =
    (if oqIsEmptyI q then (MSG_TIMEOUT, q, k)
     else (let q = q\<lparr>q_counter := q_counter q + 1\<rparr>;
               (b, q) = q_load q
           in (ucast b, q, chThdDequeueNextI (q_waiting q) MSG_OK k)))"

text \<open>The write loop over the bytes still to send; \<open>w\<close> counts those already stored.\<close>

fun oqWrite_loop :: "notify \<Rightarrow> systime \<Rightarrow> systime \<Rightarrow> u8 list \<Rightarrow> nat \<Rightarrow> ioq \<Rightarrow> kernel \<Rightarrow>
    nat transfer \<times> ioq \<times> kernel" where
  "oqWrite_loop nfy deadline timeout [] w q k = (Done w, q, k)"
| "oqWrite_loop nfy deadline timeout (b # bs) w q k =
    (if oqIsFullI q
     then (case next_sleep deadline timeout k of
             None \<Rightarrow> (Done w, q, k)
           | Some t \<Rightarrow>
               (case chThdEnqueueTimeoutS (q_waiting q) t k of
                  (Switched, k) \<Rightarrow> (Blocked (length (b # bs)) t w, q, k)
                | (Ret _, k) \<Rightarrow> (Done w, q, k)))
     else (let q = q\<lparr>q_counter := q_counter q - 1\<rparr>;
               q = q_store b q;
               (q, k) = run_notify nfy (q, k)
           in oqWrite_loop nfy deadline timeout bs (w + 1) q k))"

definition oqWriteTimeout :: "notify \<Rightarrow> u8 list \<Rightarrow> systime \<Rightarrow> ioq \<Rightarrow> kernel \<Rightarrow> nat transfer \<times> ioq \<times> kernel" where
  "oqWriteTimeout nfy bs timeout q k =
    oqWrite_loop nfy (chVTGetSystemTimeX k + timeout) timeout bs 0 q k"

definition oqWriteTimeout_resume :: "notify \<Rightarrow> systime \<Rightarrow> systime \<Rightarrow> u8 list \<Rightarrow> systime \<Rightarrow> nat \<Rightarrow>
    ioq \<Rightarrow> kernel \<Rightarrow> nat transfer \<times> ioq \<times> kernel" where
  "oqWriteTimeout_resume nfy deadline timeout bs t w q k =
    (let (m, k) = chSchGoSleepTimeoutS_resume t k
     in if m \<noteq> MSG_OK then (Done w, q, k) else oqWrite_loop nfy deadline timeout bs w q k)"

lemma enqueue_result:
  "fst (chThdEnqueueTimeoutS tqp timeout k) \<in> {Ret MSG_TIMEOUT, Switched}" "MSG_TIMEOUT <s MSG_OK"
  by (simp_all add: chThdEnqueueTimeoutS_def Let_def MSG_TIMEOUT_def MSG_OK_def word_sless_alt)

section \<open>Rings of bytes\<close>

definition q_ring :: "nat \<Rightarrow> ioq \<Rightarrow> bool" where
  "q_ring n q \<longleftrightarrow> ring_ok (q_top q) (q_buffer q) (q_rdptr q) (q_wrptr q) n"

definition q_items :: "nat \<Rightarrow> ioq \<Rightarrow> u8 list" where
  "q_items n q = ring_at (q_buffer q) (q_rdptr q) n"

lemma length_q_items [simp]: "length (q_items n q) = n"
  by (simp add: q_items_def)

lemma q_fixed [simp]:
  "q_waiting (q_store b q) = q_waiting q" "q_top (q_store b q) = q_top q" "q_counter (q_store b q) = q_counter q"
  "q_waiting (snd (q_load q)) = q_waiting q" "q_top (snd (q_load q)) = q_top q"
  "q_counter (snd (q_load q)) = q_counter q"
  "q_ring n (q\<lparr>q_counter := c\<rparr>) = q_ring n q" "q_items n (q\<lparr>q_counter := c\<rparr>) = q_items n q"
  by (simp_all add: q_store_def q_load_def Let_def q_ring_def q_items_def)

lemma q_ring_store:
  assumes "q_ring n q" and "n < q_top q"
  shows "q_ring (Suc n) (q_store b q) \<and> q_items (Suc n) (q_store b q) = q_items n q @ [b]"
proof -
  have "q_store b q = q\<lparr>q_buffer := (q_buffer q)[q_wrptr q := b],
      q_wrptr := (if q_top q \<le> q_wrptr q + 1 then 0 else q_wrptr q + 1)\<rparr>"
    by (simp add: q_store_def Let_def)
  then show ?thesis
    using ring_ok_store [OF assms [unfolded q_ring_def], of b] by (simp add: q_ring_def q_items_def)
qed

lemma q_ring_load:
  assumes "q_ring n q" and "0 < n"
  shows "q_ring (n - 1) (snd (q_load q)) \<and> fst (q_load q) = hd (q_items n q) \<and>
    q_items (n - 1) (snd (q_load q)) = tl (q_items n q)"
proof -
  have "q_load q = (q_buffer q ! q_rdptr q,
      q\<lparr>q_rdptr := (if q_top q \<le> q_rdptr q + 1 then 0 else q_rdptr q + 1)\<rparr>)"
    by (simp add: q_load_def Let_def)
  then show ?thesis
    using ring_ok_load [OF assms(1) [unfolded q_ring_def] assms(2)] by (simp add: q_ring_def q_items_def)
qed

text \<open>
  A queue and the kernel fit together.  The counter of an input queue is the number of bytes, of
  an output queue the number of free places.
\<close>

definition ioq_ok :: "(ptr \<Rightarrow> okind) \<Rightarrow> ptr \<Rightarrow> nat \<Rightarrow> ioq \<Rightarrow> kernel \<Rightarrow> bool" where
  "ioq_ok kd idle n q k \<longleftrightarrow> kinv kd idle {} k \<and> kd (q_waiting q) = KQueue \<and> q_ring n q"

definition iq_ok :: "(ptr \<Rightarrow> okind) \<Rightarrow> ptr \<Rightarrow> ioq \<Rightarrow> kernel \<Rightarrow> bool" where
  "iq_ok kd idle q k \<longleftrightarrow> ioq_ok kd idle (q_counter q) q k"

definition oq_ok :: "(ptr \<Rightarrow> okind) \<Rightarrow> ptr \<Rightarrow> ioq \<Rightarrow> kernel \<Rightarrow> bool" where
  "oq_ok kd idle q k \<longleftrightarrow> q_counter q \<le> q_top q \<and> ioq_ok kd idle (q_top q - q_counter q) q k"

abbreviation iq_bytes :: "ioq \<Rightarrow> u8 list" where "iq_bytes q \<equiv> q_items (q_counter q) q"
abbreviation oq_bytes :: "ioq \<Rightarrow> u8 list" where "oq_bytes q \<equiv> q_items (q_top q - q_counter q) q"

text \<open>A notification that leaves the queue, the clock and the running thread alone.\<close>

definition calm :: "(ptr \<Rightarrow> okind) \<Rightarrow> ptr \<Rightarrow> notify \<Rightarrow> bool" where
  "calm kd idle nfy \<longleftrightarrow> (\<forall>q k. kinv kd idle {} k \<longrightarrow>
    fst (run_notify nfy (q, k)) = q \<and> kinv kd idle {} (snd (run_notify nfy (q, k))) \<and>
    current (snd (run_notify nfy (q, k))) = current k \<and> stime (snd (run_notify nfy (q, k))) = stime k)"

lemma calm_None: "calm kd idle None"
  by (simp add: calm_def run_notify_def)

lemma calmD:
  assumes "calm kd idle nfy" and "ioq_ok kd idle n q k"
  obtains k' where "run_notify nfy (q, k) = (q, k')" "ioq_ok kd idle n q k'" "current k' = current k" "stime k' = stime k"
proof (rule that)
  have c: "fst (run_notify nfy (q, k)) = q \<and> kinv kd idle {} (snd (run_notify nfy (q, k))) \<and>
      current (snd (run_notify nfy (q, k))) = current k \<and> stime (snd (run_notify nfy (q, k))) = stime k"
    using assms by (simp add: calm_def ioq_ok_def)
  then show "run_notify nfy (q, k) = (q, snd (run_notify nfy (q, k)))" by (simp add: prod_eq_iff)
  show "ioq_ok kd idle n q (snd (run_notify nfy (q, k)))" using c assms(2) by (simp add: ioq_ok_def)
qed (use assms in \<open>simp_all add: calm_def ioq_ok_def\<close>)

lemma ioq_full: "ioq_ok kd idle n q k \<Longrightarrow> q_wrptr q = q_rdptr q \<longleftrightarrow> n = 0 \<or> n = q_top q"
  unfolding ioq_ok_def q_ring_def by (blast dest: ring_ok_full)

lemma ioq_bound: "ioq_ok kd idle n q k \<Longrightarrow> n \<le> q_top q \<and> 0 < q_top q"
  by (auto simp: ioq_ok_def q_ring_def ring_ok_def)

lemma ioq_store:
  assumes "ioq_ok kd idle n q k" and "n < q_top q"
  shows "ioq_ok kd idle (Suc n) (q_store b (q\<lparr>q_counter := c\<rparr>)) k \<and>
    q_items (Suc n) (q_store b (q\<lparr>q_counter := c\<rparr>)) = q_items n q @ [b]"
  using assms q_ring_store [of n "q\<lparr>q_counter := c\<rparr>" b] by (simp add: ioq_ok_def)

lemma ioq_load:
  assumes "ioq_ok kd idle n q k" and "0 < n"
  shows "ioq_ok kd idle (n - 1) (snd (q_load (q\<lparr>q_counter := c\<rparr>))) k \<and>
    fst (q_load (q\<lparr>q_counter := c\<rparr>)) = hd (q_items n q) \<and>
    q_items (n - 1) (snd (q_load (q\<lparr>q_counter := c\<rparr>))) = tl (q_items n q)"
  using assms q_ring_load [of n "q\<lparr>q_counter := c\<rparr>"] by (simp add: ioq_ok_def)

lemma ioq_wake:
  "ioq_ok kd idle n q k \<Longrightarrow> ioq_ok kd idle n q (chThdDequeueNextI tqp m k) \<and>
    qs (chThdDequeueNextI tqp m k) (QOBJ tqp) = tl (qs k (QOBJ tqp))"
  using dequeue_next_any [of kd idle k tqp m] by (simp add: ioq_ok_def)

lemma ioq_sleep:
  assumes "ioq_ok kd idle n q k" and "current k \<noteq> idle" and "t \<noteq> TIME_IMMEDIATE"
  shows "\<exists>k'. chThdEnqueueTimeoutS (q_waiting q) t k = (Switched, k') \<and> ioq_ok kd idle n q k' \<and> highest k' \<and>
    qs k' (QOBJ (q_waiting q)) = qs k (QOBJ (q_waiting q)) @ [current k]"
  using enqueue_timeout_inv [of kd idle k "q_waiting q" t] assms
  by (intro exI [of _ "snd (chThdEnqueueTimeoutS (q_waiting q) t k)"]) (simp add: ioq_ok_def prod_eq_iff)

lemma enqueue_immediate: "chThdEnqueueTimeoutS tqp TIME_IMMEDIATE k = (Ret MSG_TIMEOUT, k)"
  by (simp add: chThdEnqueueTimeoutS_def)

section \<open>Single bytes\<close>

lemma iqPutI_eq:
  assumes i: "iq_ok kd idle q k"
  defines "k' \<equiv> chThdDequeueNextI (q_waiting q) MSG_OK k"
  shows "if q_counter q = q_top q then iqPutI q b k = (MSG_TIMEOUT, q, k)
    else \<exists>q'. iqPutI q b k = (MSG_OK, q', k') \<and> iq_ok kd idle q' k' \<and> iq_bytes q' = iq_bytes q @ [b] \<and>
      q_waiting q' = q_waiting q \<and> q_top q' = q_top q \<and>
      qs k' (QOBJ (q_waiting q)) = tl (qs k (QOBJ (q_waiting q)))"
proof -
  have i': "ioq_ok kd idle (q_counter q) q k" using i by (simp add: iq_ok_def)
  have full: "iqIsFullI q \<longleftrightarrow> q_counter q = q_top q"
    using ioq_full [OF i'] ioq_bound [OF i'] by (auto simp: iqIsFullI_def)
  show ?thesis
    using ioq_store [OF i', of b "q_counter q + 1"] ioq_bound [OF i'] ioq_wake [of kd idle "q_counter q + 1" _ k "q_waiting q" MSG_OK]
      full by (auto simp: iqPutI_def iq_ok_def Let_def k'_def)
qed

lemma iqGetTimeout_eq:
  assumes i: "iq_ok kd idle q k" and c: "calm kd idle nfy" and idle: "current k \<noteq> idle"
  shows "if iq_bytes q \<noteq> []
    then \<exists>q' k'. iqGetTimeout nfy t q k = (Ret (ucast (hd (iq_bytes q))), q', k') \<and> iq_ok kd idle q' k' \<and>
      iq_bytes q' = tl (iq_bytes q) \<and> q_waiting q' = q_waiting q \<and> q_top q' = q_top q \<and>
      current k' = current k \<and> stime k' = stime k
    else if t = TIME_IMMEDIATE then iqGetTimeout nfy t q k = (Ret MSG_TIMEOUT, q, k)
    else \<exists>k'. iqGetTimeout nfy t q k = (Switched, q, k') \<and> iq_ok kd idle q k' \<and> highest k' \<and>
      qs k' (QOBJ (q_waiting q)) = qs k (QOBJ (q_waiting q)) @ [current k]"
proof -
  have i': "ioq_ok kd idle (q_counter q) q k" using i by (simp add: iq_ok_def)
  have e: "iq_bytes q \<noteq> [] \<longleftrightarrow> \<not> iqIsEmptyI q" by (simp add: iqIsEmptyI_def q_items_def)
  show ?thesis
  proof (cases "iqIsEmptyI q")
    case True
    then show ?thesis using e ioq_sleep [OF i' idle, of t] enqueue_immediate
      by (auto simp: iqGetTimeout_def iq_ok_def)
  next
    case False
    let ?q = "snd (q_load (q\<lparr>q_counter := q_counter q - 1\<rparr>))"
    have "0 < q_counter q" using False by (simp add: iqIsEmptyI_def)
    note l = ioq_load [OF i' this, of "q_counter q - 1"]
    obtain k' where r: "run_notify nfy (?q, k) = (?q, k')" "ioq_ok kd idle (q_counter q - 1) ?q k'"
      "current k' = current k" "stime k' = stime k"
      using calmD [OF c conjunct1 [OF l]] .
    then have "iqGetTimeout nfy t q k = (Ret (ucast (hd (iq_bytes q))), ?q, k') \<and> iq_ok kd idle ?q k'"
      using False l by (simp add: iqGetTimeout_def Let_def split_beta iq_ok_def)
    then show ?thesis using l False e r by auto
  qed
qed

lemma oqPutTimeout_eq:
  assumes i: "oq_ok kd idle q k" and c: "calm kd idle nfy" and idle: "current k \<noteq> idle"
  shows "if length (oq_bytes q) < q_top q
    then \<exists>q' k'. oqPutTimeout nfy b t q k = (Ret MSG_OK, q', k') \<and> oq_ok kd idle q' k' \<and>
      oq_bytes q' = oq_bytes q @ [b] \<and> q_waiting q' = q_waiting q \<and> q_top q' = q_top q \<and>
      current k' = current k \<and> stime k' = stime k
    else if t = TIME_IMMEDIATE then oqPutTimeout nfy b t q k = (Ret MSG_TIMEOUT, q, k)
    else \<exists>k'. oqPutTimeout nfy b t q k = (Switched, q, k') \<and> oq_ok kd idle q k' \<and> highest k' \<and>
      qs k' (QOBJ (q_waiting q)) = qs k (QOBJ (q_waiting q)) @ [current k]"
proof -
  let ?n = "q_top q - q_counter q"
  have i': "ioq_ok kd idle ?n q k" and le: "q_counter q \<le> q_top q" using i by (simp_all add: oq_ok_def)
  have e: "length (oq_bytes q) < q_top q \<longleftrightarrow> \<not> oqIsFullI q"
    using le ioq_bound [OF i'] by (auto simp: oqIsFullI_def)
  show ?thesis
  proof (cases "oqIsFullI q")
    case True
    then show ?thesis using e ioq_sleep [OF i' idle, of t] enqueue_immediate le
      by (auto simp: oqPutTimeout_def oq_ok_def)
  next
    case False
    let ?q = "q_store b (q\<lparr>q_counter := q_counter q - 1\<rparr>)"
    have lt: "?n < q_top q" and n: "q_top q - (q_counter q - 1) = Suc ?n"
      using False e le by (auto simp: oqIsFullI_def)
    note l = ioq_store [OF i' lt, of b "q_counter q - 1"]
    obtain k' where r: "run_notify nfy (?q, k) = (?q, k')" "ioq_ok kd idle (Suc ?n) ?q k'"
      "current k' = current k" "stime k' = stime k"
      using calmD [OF c conjunct1 [OF l]] .
    then have "oqPutTimeout nfy b t q k = (Ret MSG_OK, ?q, k') \<and> oq_ok kd idle ?q k'"
      using False le n by (simp add: oqPutTimeout_def Let_def split_beta oq_ok_def)
    then show ?thesis using l False e r n by auto
  qed
qed

lemma oqGetI_eq:
  assumes i: "oq_ok kd idle q k"
  defines "k' \<equiv> chThdDequeueNextI (q_waiting q) MSG_OK k"
  shows "if oq_bytes q = [] then oqGetI q k = (MSG_TIMEOUT, q, k)
    else \<exists>q'. oqGetI q k = (ucast (hd (oq_bytes q)), q', k') \<and> oq_ok kd idle q' k' \<and> oq_bytes q' = tl (oq_bytes q) \<and>
      q_waiting q' = q_waiting q \<and> q_top q' = q_top q \<and>
      qs k' (QOBJ (q_waiting q)) = tl (qs k (QOBJ (q_waiting q)))"
proof -
  let ?n = "q_top q - q_counter q"
  have i': "ioq_ok kd idle ?n q k" and le: "q_counter q \<le> q_top q" using i by (simp_all add: oq_ok_def)
  have e: "oq_bytes q = [] \<longleftrightarrow> ?n = 0" by (simp add: q_items_def)
  have emp: "oqIsEmptyI q \<longleftrightarrow> ?n = 0"
    using ioq_full [OF i'] ioq_bound [OF i'] le by (auto simp: oqIsEmptyI_def)
  show ?thesis
  proof (cases "?n = 0")
    case True
    then show ?thesis using e emp by (simp add: oqGetI_def)
  next
    case False
    then have n: "q_top q - (q_counter q + 1) = ?n - 1" "q_counter q + 1 \<le> q_top q" and pos: "0 < ?n" by auto
    note l = ioq_load [OF i' pos, of "q_counter q + 1"]
    show ?thesis
      using l e emp n False ioq_wake [OF conjunct1 [OF l], of "q_waiting q" MSG_OK]
      by (auto simp: oqGetI_def Let_def split_beta oq_ok_def k'_def)
  qed
qed

text \<open>
  Input queues, one byte at a time.  The producer appends a byte and wakes the longest waiting
  reader with MSG_OK, or answers MSG_TIMEOUT when the queue is full; the reader gets the oldest
  byte, or MSG_TIMEOUT for TIME_IMMEDIATE, or sleeps as the last waiter.  Ring, counter and kernel
  invariant stay consistent, whatever the notification does that leaves the queue alone.
\<close>

theorem input_queue_correct:
  assumes "iq_ok kd idle q k" and "calm kd idle nfy" and "current k \<noteq> idle"
  shows "(if length (iq_bytes q) = q_top q then iqPutI q b k = (MSG_TIMEOUT, q, k)
     else \<exists>q' k'. iqPutI q b k = (MSG_OK, q', k') \<and> iq_ok kd idle q' k' \<and> iq_bytes q' = iq_bytes q @ [b] \<and>
       qs k' (QOBJ (q_waiting q)) = tl (qs k (QOBJ (q_waiting q)))) \<and>
    (if iq_bytes q \<noteq> []
     then \<exists>q' k'. iqGetTimeout nfy t q k = (Ret (ucast (hd (iq_bytes q))), q', k') \<and> iq_ok kd idle q' k' \<and>
       iq_bytes q' = tl (iq_bytes q)
     else if t = TIME_IMMEDIATE then iqGetTimeout nfy t q k = (Ret MSG_TIMEOUT, q, k)
     else \<exists>k'. iqGetTimeout nfy t q k = (Switched, q, k') \<and> iq_ok kd idle q k' \<and> highest k' \<and>
       qs k' (QOBJ (q_waiting q)) = qs k (QOBJ (q_waiting q)) @ [current k])"
  using iqPutI_eq [OF assms(1), of b] iqGetTimeout_eq [OF assms, of t] by (auto split: if_splits)

text \<open>
  Output queues, one byte at a time.  The writer appends a byte, or answers MSG_TIMEOUT for
  TIME_IMMEDIATE on a full queue, or sleeps as the last waiter; the consumer takes the oldest byte
  and wakes the longest waiting writer, or answers MSG_TIMEOUT on an empty queue.
\<close>

theorem output_queue_correct:
  assumes "oq_ok kd idle q k" and "calm kd idle nfy" and "current k \<noteq> idle"
  shows "(if length (oq_bytes q) < q_top q
     then \<exists>q' k'. oqPutTimeout nfy b t q k = (Ret MSG_OK, q', k') \<and> oq_ok kd idle q' k' \<and>
       oq_bytes q' = oq_bytes q @ [b]
     else if t = TIME_IMMEDIATE then oqPutTimeout nfy b t q k = (Ret MSG_TIMEOUT, q, k)
     else \<exists>k'. oqPutTimeout nfy b t q k = (Switched, q, k') \<and> oq_ok kd idle q k' \<and> highest k' \<and>
       qs k' (QOBJ (q_waiting q)) = qs k (QOBJ (q_waiting q)) @ [current k]) \<and>
    (if oq_bytes q = [] then oqGetI q k = (MSG_TIMEOUT, q, k)
     else \<exists>q' k'. oqGetI q k = (ucast (hd (oq_bytes q)), q', k') \<and> oq_ok kd idle q' k' \<and>
       oq_bytes q' = tl (oq_bytes q) \<and> qs k' (QOBJ (q_waiting q)) = tl (qs k (QOBJ (q_waiting q))))"
  using oqPutTimeout_eq [OF assms, of b t] oqGetI_eq [OF assms(1)] by (auto split: if_splits)

section \<open>Long transfers\<close>

text \<open>A pass that moves a byte is the single byte operation.\<close>

lemma iqRead_loop_step:
  "\<not> iqIsEmptyI q \<Longrightarrow> iqGetTimeout nfy t q k = (Ret m, q', k') \<Longrightarrow>
    iqRead_loop nfy d timeout (Suc n) acc q k = iqRead_loop nfy d timeout n (acc @ [ucast m]) q' k'"
  by (auto simp: iqGetTimeout_def Let_def split_beta)

lemma oqWrite_loop_step:
  "\<not> oqIsFullI q \<Longrightarrow> oqPutTimeout nfy b t q k = (Ret m, q', k') \<Longrightarrow>
    oqWrite_loop nfy d timeout (b # bs) w q k = oqWrite_loop nfy d timeout bs (w + 1) q' k'"
  by (auto simp: oqPutTimeout_def Let_def split_beta)

declare iqRead_loop.simps(2) [simp del] oqWrite_loop.simps(2) [simp del]

lemma next_sleep_fresh:
  "d = stime k + t \<or> t = TIME_INFINITE \<Longrightarrow> next_sleep d t k = Some t"
  by (auto simp: next_sleep_def chVTGetSystemTimeX_def)

text \<open>How a read of \<open>n\<close> bytes ends when \<open>xs\<close> are there, and a write of \<open>n\<close> into \<open>room\<close> places.\<close>

definition read_end :: "systime \<Rightarrow> nat \<Rightarrow> u8 list \<Rightarrow> u8 list \<Rightarrow> u8 list transfer" where
  "read_end t n xs acc =
    (if n \<le> length xs then Done (acc @ take n xs)
     else if t = TIME_IMMEDIATE then Done (acc @ xs) else Blocked (n - length xs) t (acc @ xs))"

definition write_end :: "systime \<Rightarrow> nat \<Rightarrow> nat \<Rightarrow> nat \<Rightarrow> nat transfer" where
  "write_end t n room w =
    (if n \<le> room then Done (w + n)
     else if t = TIME_IMMEDIATE then Done (w + room) else Blocked (n - room) t (w + room))"

lemma transfer_end_step:
  "read_end t (Suc n) (b # xs) acc = read_end t n xs (acc @ [b])"
  "write_end t (Suc n) (Suc room) w = write_end t n room (w + 1)"
  by (simp_all add: read_end_def write_end_def)

lemma iqRead_loop_eq:
  assumes "iq_ok kd idle q k" and "calm kd idle nfy" and "current k \<noteq> idle" and "d = stime k + t \<or> t = TIME_INFINITE"
  shows "\<exists>q' k'. iqRead_loop nfy d t n acc q k = (read_end t n (iq_bytes q) acc, q', k') \<and>
    iq_ok kd idle q' k' \<and> iq_bytes q' = drop n (iq_bytes q) \<and> q_top q' = q_top q \<and> q_waiting q' = q_waiting q"
  using assms
proof (induction n arbitrary: acc q k)
  case 0
  then show ?case by (auto simp: read_end_def)
next
  case (Suc n)
  note g = iqGetTimeout_eq [OF Suc.prems(1-3), of t]
  have e: "iqIsEmptyI q \<longleftrightarrow> iq_bytes q = []" by (simp add: iqIsEmptyI_def q_items_def)
  show ?case
  proof (cases "iq_bytes q")
    case Nil
    have i': "ioq_ok kd idle (q_counter q) q k" using Suc.prems(1) by (simp add: iq_ok_def)
    show ?thesis
      using Nil e ioq_sleep [OF i' Suc.prems(3), of t] enqueue_immediate [of "q_waiting q" k] Suc.prems(1)
        next_sleep_fresh [OF Suc.prems(4)]
      by (cases "t = TIME_IMMEDIATE") (auto simp: iq_ok_def iqRead_loop.simps(2) read_end_def)
  next
    case (Cons b bs)
    then obtain q' k' where st: "iqGetTimeout nfy t q k = (Ret (ucast b), q', k')" "iq_ok kd idle q' k'"
      "iq_bytes q' = bs" "current k' = current k" "stime k' = stime k" "q_waiting q' = q_waiting q" "q_top q' = q_top q"
      using g by auto
    have "iqRead_loop nfy d t (Suc n) acc q k = iqRead_loop nfy d t n (acc @ [b]) q' k'"
      using iqRead_loop_step [OF _ st(1)] e Cons by simp
    moreover have "current k' \<noteq> idle" "d = stime k' + t \<or> t = TIME_INFINITE" using st(4,5) Suc.prems(3,4) by simp_all
    ultimately show ?thesis
      using Suc.IH [OF st(2) Suc.prems(2), of "acc @ [b]"] unfolding st(3,6,7) Cons by (simp add: transfer_end_step)
  qed
qed

lemma oqWrite_loop_eq:
  assumes "oq_ok kd idle q k" and "calm kd idle nfy" and "current k \<noteq> idle" and "d = stime k + t \<or> t = TIME_INFINITE"
  defines "room \<equiv> q_top q - length (oq_bytes q)"
  shows "\<exists>q' k'. oqWrite_loop nfy d t bs w q k = (write_end t (length bs) room w, q', k') \<and>
    oq_ok kd idle q' k' \<and> oq_bytes q' = oq_bytes q @ take room bs \<and> q_top q' = q_top q \<and> q_waiting q' = q_waiting q"
  using assms(1-4) unfolding room_def
proof (induction bs arbitrary: w q k)
  case Nil
  then show ?case by (auto simp: write_end_def)
next
  case (Cons b bs)
  note g = oqPutTimeout_eq [OF Cons.prems(1-3), of b t]
  let ?n = "q_top q - q_counter q"
  have i': "ioq_ok kd idle ?n q k" and le: "q_counter q \<le> q_top q" using Cons.prems(1) by (simp_all add: oq_ok_def)
  have e: "oqIsFullI q \<longleftrightarrow> \<not> length (oq_bytes q) < q_top q"
    using le ioq_bound [OF i'] by (auto simp: oqIsFullI_def)
  show ?case
  proof (cases "oqIsFullI q")
    case True
    then have c: "q_counter q = 0" by (simp add: oqIsFullI_def)
    show ?thesis
      using True c ioq_sleep [OF i' Cons.prems(3), of t] enqueue_immediate [of "q_waiting q" k] Cons.prems(1)
        next_sleep_fresh [OF Cons.prems(4)]
      by (cases "t = TIME_IMMEDIATE") (auto simp: oq_ok_def oqWrite_loop.simps(2) write_end_def)
  next
    case False
    then obtain q' k' where st: "oqPutTimeout nfy b t q k = (Ret MSG_OK, q', k')" "oq_ok kd idle q' k'"
      "oq_bytes q' = oq_bytes q @ [b]" "q_top q' = q_top q" "current k' = current k" "stime k' = stime k"
      "q_waiting q' = q_waiting q"
      using g e by auto
    have len: "length (oq_bytes q') = Suc (length (oq_bytes q))" using st(3) by (metis length_append_singleton)
    have room: "q_top q - length (oq_bytes q) = Suc (q_top q' - length (oq_bytes q'))"
      using len False e st(4) by (simp del: length_q_items)
    have "oqWrite_loop nfy d t (b # bs) w q k = oqWrite_loop nfy d t bs (w + 1) q' k'"
      by (rule oqWrite_loop_step [OF False st(1)])
    moreover have "current k' \<noteq> idle" "d = stime k' + t \<or> t = TIME_INFINITE" using st(5,6) Cons.prems(3,4) by simp_all
    ultimately show ?thesis
      using Cons.IH [OF st(2) Cons.prems(2), of "w + 1"] unfolding room st(3,7) by (simp add: transfer_end_step st(4))
  qed
qed

text \<open>
  Long transfers.  A read of \<open>n\<close> bytes takes the oldest \<open>n\<close> bytes of the queue if they are
  there; otherwise it empties the queue and ends with the bytes it has for TIME_IMMEDIATE, or
  sleeps for the rest.  A write appends its bytes as far as they fit and reports their number, or
  sleeps with the rest.  A sleeper that times out or is reset ends with what it moved; one that
  is woken goes on with the loop.
\<close>

theorem transfer_correct:
  assumes "calm kd idle nfy"
    and "iq_ok kd idle iq k" and "current k \<noteq> idle"
    and "oq_ok kd idle oq k'" and "current k' \<noteq> idle"
  defines "room \<equiv> q_top oq - length (oq_bytes oq)"
  shows "(case iqReadTimeout nfy n t iq k of (r, iq2, k2) \<Rightarrow>
      r = (if n \<le> length (iq_bytes iq) then Done (take n (iq_bytes iq))
        else if t = TIME_IMMEDIATE then Done (iq_bytes iq)
        else Blocked (n - length (iq_bytes iq)) t (iq_bytes iq)) \<and>
      iq_ok kd idle iq2 k2 \<and> iq_bytes iq2 = drop n (iq_bytes iq)) \<and>
    (case oqWriteTimeout nfy bs t oq k' of (r, oq2, k2) \<Rightarrow>
      r = (if length bs \<le> room then Done (length bs)
        else if t = TIME_IMMEDIATE then Done room else Blocked (length bs - room) t room) \<and>
      oq_ok kd idle oq2 k2 \<and> oq_bytes oq2 = oq_bytes oq @ take room bs) \<and>
    (\<forall>m d acc. m = u (thd k (current k)) \<longrightarrow>
      iqReadTimeout_resume nfy d t n t' acc iq k =
        (let k = snd (chSchGoSleepTimeoutS_resume t' k)
         in if m = MSG_OK then iqRead_loop nfy d t n acc iq k else (Done acc, iq, k)))"
proof -
  have "stime k + t = stime k + t \<or> t = TIME_INFINITE" by simp
  note r = iqRead_loop_eq [OF assms(2,1,3) this, of n "[]"]
  have "stime k' + t = stime k' + t \<or> t = TIME_INFINITE" by simp
  note w = oqWrite_loop_eq [OF assms(4,1,5) this, of bs 0, folded room_def]
  have "case iqReadTimeout nfy n t iq k of (r, iq2, k2) \<Rightarrow>
      r = (if n \<le> length (iq_bytes iq) then Done (take n (iq_bytes iq))
        else if t = TIME_IMMEDIATE then Done (iq_bytes iq)
        else Blocked (n - length (iq_bytes iq)) t (iq_bytes iq)) \<and>
      iq_ok kd idle iq2 k2 \<and> iq_bytes iq2 = drop n (iq_bytes iq)"
    using r unfolding iqReadTimeout_def chVTGetSystemTimeX_def read_end_def by auto
  moreover have "case oqWriteTimeout nfy bs t oq k' of (r, oq2, k2) \<Rightarrow>
      r = (if length bs \<le> room then Done (length bs)
        else if t = TIME_IMMEDIATE then Done room else Blocked (length bs - room) t room) \<and>
      oq_ok kd idle oq2 k2 \<and> oq_bytes oq2 = oq_bytes oq @ take room bs"
    using w unfolding oqWriteTimeout_def chVTGetSystemTimeX_def write_end_def by auto
  ultimately show ?thesis by (simp add: iqReadTimeout_resume_def split_beta Let_def)
qed

section \<open>Both queues are bounded FIFOs\<close>

definition iq_fifo :: "(ptr \<Rightarrow> okind) \<Rightarrow> ptr \<Rightarrow> ioq \<times> kernel \<Rightarrow> bool" where
  "iq_fifo kd idle s \<longleftrightarrow> iq_ok kd idle (fst s) (snd s) \<and> current (snd s) \<noteq> idle"

definition oq_fifo :: "(ptr \<Rightarrow> okind) \<Rightarrow> ptr \<Rightarrow> ioq \<times> kernel \<Rightarrow> bool" where
  "oq_fifo kd idle s \<longleftrightarrow> oq_ok kd idle (fst s) (snd s) \<and> current (snd s) \<noteq> idle"

definition iq_put :: "u8 \<Rightarrow> ioq \<times> kernel \<Rightarrow> ioq \<times> kernel" where
  "iq_put b s = snd (iqPutI (fst s) b (snd s))"

definition iq_get :: "ioq \<times> kernel \<Rightarrow> u8 \<times> ioq \<times> kernel" where
  "iq_get s =
    (let (r, s') = iqGetTimeout None TIME_IMMEDIATE (fst s) (snd s)
     in (case r of Ret m \<Rightarrow> ucast m | Switched \<Rightarrow> 0, s'))"

definition oq_put :: "u8 \<Rightarrow> ioq \<times> kernel \<Rightarrow> ioq \<times> kernel" where
  "oq_put b s = snd (oqPutTimeout None b TIME_IMMEDIATE (fst s) (snd s))"

definition oq_get :: "ioq \<times> kernel \<Rightarrow> u8 \<times> ioq \<times> kernel" where
  "oq_get s = (let (m, s') = oqGetI (fst s) (snd s) in (ucast m, s'))"

lemma iq_put_kernel: "current (snd (snd (iqPutI q b k))) = current k" if "kinv kd idle {} k"
  using dequeue_next_any [OF that] by (simp add: iqPutI_def Let_def)

lemma oq_get_kernel: "current (snd (snd (oqGetI q k))) = current k" if "kinv kd idle {} k"
  using dequeue_next_any [OF that] by (simp add: oqGetI_def Let_def split_beta)

lemma ioq_ok_kinv: "ioq_ok kd idle n q k \<Longrightarrow> kinv kd idle {} k"
  by (simp add: ioq_ok_def)

interpretation iq: bounded_fifo "iq_fifo kd idle" "\<lambda>s. q_top (fst s)" "\<lambda>s. iq_bytes (fst s)" iq_put iq_get
  for kd idle
proof (unfold_locales, goal_cases)
  case (1 s b)
  have i: "iq_ok kd idle (fst s) (snd s)" using 1 by (simp add: iq_fifo_def)
  have "current (snd (iq_put b s)) = current (snd s)"
    unfolding iq_put_def by (rule iq_put_kernel [where kd = kd and idle = idle])
      (use i in \<open>simp add: iq_ok_def ioq_ok_def\<close>)
  moreover have "q_counter (fst s) \<noteq> q_top (fst s)" using 1(2) by simp
  ultimately show ?case using iqPutI_eq [OF i, of b] 1(1) by (auto simp: iq_fifo_def iq_put_def)
next
  case (2 s)
  have i: "iq_ok kd idle (fst s) (snd s)" "current (snd s) \<noteq> idle" using 2 by (simp_all add: iq_fifo_def)
  have "iq_bytes (fst s) \<noteq> []" using 2(2) by simp
  then obtain q' k' where "iqGetTimeout None TIME_IMMEDIATE (fst s) (snd s) = (Ret (ucast (hd (iq_bytes (fst s)))), q', k')"
    "iq_ok kd idle q' k'" "iq_bytes q' = tl (iq_bytes (fst s))" "q_top q' = q_top (fst s)" "current k' = current (snd s)"
    using iqGetTimeout_eq [OF i(1) calm_None i(2), of TIME_IMMEDIATE] by metis
  then show ?case using i(2) by (simp add: iq_get_def iq_fifo_def)
qed

interpretation oq: bounded_fifo "oq_fifo kd idle" "\<lambda>s. q_top (fst s)" "\<lambda>s. oq_bytes (fst s)" oq_put oq_get
  for kd idle
proof (unfold_locales, goal_cases)
  case (1 s b)
  have i: "oq_ok kd idle (fst s) (snd s)" "current (snd s) \<noteq> idle" using 1 by (simp_all add: oq_fifo_def)
  obtain q' k' where "oqPutTimeout None b TIME_IMMEDIATE (fst s) (snd s) = (Ret MSG_OK, q', k')"
    "oq_ok kd idle q' k'" "oq_bytes q' = oq_bytes (fst s) @ [b]" "q_top q' = q_top (fst s)" "current k' = current (snd s)"
    using oqPutTimeout_eq [OF i(1) calm_None i(2), of b TIME_IMMEDIATE] 1(2) by metis
  then show ?case using i(2) by (simp add: oq_put_def oq_fifo_def)
next
  case (2 s)
  have i: "oq_ok kd idle (fst s) (snd s)" "current (snd s) \<noteq> idle" using 2 by (simp_all add: oq_fifo_def)
  have c: "current (snd (snd (oqGetI (fst s) (snd s)))) = current (snd s)"
    by (rule oq_get_kernel [where kd = kd and idle = idle]) (use i in \<open>simp add: oq_ok_def ioq_ok_def\<close>)
  obtain q' k' where "oqGetI (fst s) (snd s) = (ucast (hd (oq_bytes (fst s))), q', k')"
    "oq_ok kd idle q' k'" "oq_bytes q' = tl (oq_bytes (fst s))" "q_top q' = q_top (fst s)"
    using oqGetI_eq [OF i(1)] 2(2) by metis
  then show ?case using i(2) c by (simp add: oq_get_def oq_fifo_def)
qed

text \<open>
  The byte queues lose, invent and reorder nothing: bytes that fit, put into an empty input
  queue by the interrupt handler (an empty output queue by the writer) come out on the other
  side in the same order, and leave the queue empty.
\<close>

theorem ioq_fifo:
  assumes "iq_fifo kd idle (iq, k)" and "iq_bytes iq = []" and "length bs \<le> q_top iq"
    and "oq_fifo kd idle (oq, k')" and "oq_bytes oq = []" and "length bs \<le> q_top oq"
  shows "fst (gets iq_get (length bs) (fold iq_put bs (iq, k))) = bs \<and>
    iq_bytes (fst (snd (gets iq_get (length bs) (fold iq_put bs (iq, k))))) = [] \<and>
    fst (gets oq_get (length bs) (fold oq_put bs (oq, k'))) = bs \<and>
    oq_bytes (fst (snd (gets oq_get (length bs) (fold oq_put bs (oq, k'))))) = []"
  using iq.fill_drain [OF assms(1), of bs] oq.fill_drain [OF assms(4), of bs] assms(2,3,5,6) by simp

text \<open>
  Resetting a queue empties it, makes every waiting thread ready with MSG_RESET and keeps
  queue and kernel consistent; a new queue is empty as well.
\<close>

theorem ioq_reset_correct:
  assumes "iq_ok kd idle iq k" and "oq_ok kd idle oq k"
  shows "(case iqResetI iq k of (q', k') \<Rightarrow> iq_ok kd idle q' k' \<and> iq_bytes q' = [] \<and>
      qs k' (QOBJ (q_waiting iq)) = [] \<and> (\<forall>t \<in> set (qs k (QOBJ (q_waiting iq))).
        tstate k' t = CH_STATE_READY \<and> u (thd k' t) = MSG_RESET)) \<and>
    (case oqResetI oq k of (q', k') \<Rightarrow> oq_ok kd idle q' k' \<and> oq_bytes q' = [] \<and>
      qs k' (QOBJ (q_waiting oq)) = [] \<and> (\<forall>t \<in> set (qs k (QOBJ (q_waiting oq))).
        tstate k' t = CH_STATE_READY \<and> u (thd k' t) = MSG_RESET))"
proof -
  have r: "ring_ok (q_top q) (q_buffer q) 0 0 0" if "q_ring n q" for n q
    using that by (intro ring_ok_reset) (auto simp: q_ring_def ring_ok_def)
  show ?thesis
    using assms dequeue_all_inv [of kd idle k] r
    by (auto simp: iqResetI_def oqResetI_def Let_def iq_ok_def oq_ok_def ioq_ok_def q_ring_def q_items_def qSizeX_def)
qed

section \<open>Witnesses\<close>

definition iq_two :: ioq where
  "iq_two = \<lparr>q_waiting = 300, q_counter = 2, q_buffer = [8, 9, 7], q_top = 3, q_wrptr = 1, q_rdptr = 2\<rparr>"

definition oq_two :: ioq where
  "oq_two = iq_two\<lparr>q_counter := 1\<rparr>"

lemma io_examples:
  "iq_ok (\<lambda>_. KQueue) 2 iq_two boot" "oq_ok (\<lambda>_. KQueue) 2 oq_two boot" "iq_bytes iq_two = [7, 8]" "oq_bytes oq_two = [7, 8]"
  "q_top iq_two = 3" "q_top oq_two = 3" "current boot \<noteq> 2"
  "q_counter oq_two = 1" "q_items 2 oq_two = [7, 8]"
  by (simp_all add: iq_ok_def oq_ok_def ioq_ok_def kinv_boot q_ring_def ring_ok_def iq_two_def oq_two_def q_items_def
      ring_at_def boot_simps upt_rec)

lemma input_queue_correct_witness:
  "\<exists>q' k'. iqGetTimeout None TIME_INFINITE iq_two boot = (Ret 7, q', k') \<and> iq_bytes q' = [8]"
  using conjunct2 [OF input_queue_correct [OF io_examples(1) calm_None io_examples(7), of 0 TIME_INFINITE]]
  by (auto simp: io_examples)

lemma output_queue_correct_witness:
  "\<exists>q' k'. oqPutTimeout None 5 TIME_INFINITE oq_two boot = (Ret MSG_OK, q', k') \<and> oq_bytes q' = [7, 8, 5]"
  using conjunct1 [OF output_queue_correct [OF io_examples(2) calm_None io_examples(7), of 5 TIME_INFINITE]]
  by (auto simp add: io_examples)

lemma transfer_correct_witness:
  "fst (iqReadTimeout None 5 TIME_IMMEDIATE iq_two boot) = Done [7, 8] \<and>
    fst (oqWriteTimeout None [1, 2] TIME_INFINITE oq_two boot) = Blocked 1 TIME_INFINITE 1"
  using transfer_correct [OF calm_None io_examples(1,7,2,7), of 5 TIME_IMMEDIATE "[]" TIME_INFINITE]
    transfer_correct [OF calm_None io_examples(1,7,2,7), of 5 TIME_INFINITE "[1, 2]" TIME_INFINITE]
  by (simp add: io_examples split_beta TIME_IMMEDIATE_def TIME_INFINITE_def)

lemma ioq_fifo_witness:
  "\<exists>q k. fst (gets iq_get 3 (fold iq_put [1, 2, 3] (q, k))) = [1, 2, 3]"
proof -
  let ?i = "\<lparr>q_waiting = 300, q_counter = 0, q_buffer = [0, 0, 0], q_top = 3, q_wrptr = 0, q_rdptr = 0\<rparr> :: ioq"
  let ?o = "?i\<lparr>q_counter := 3\<rparr>"
  have "iq_fifo (\<lambda>_. KQueue) 2 (?i, boot)" "oq_fifo (\<lambda>_. KQueue) 2 (?o, boot)"
    "iq_bytes ?i = []" "oq_bytes ?o = []" "length [1, 2, 3 :: u8] \<le> q_top ?i" "length [1, 2, 3 :: u8] \<le> q_top ?o"
    by (simp_all add: iq_fifo_def oq_fifo_def iq_ok_def oq_ok_def ioq_ok_def kinv_boot q_ring_def ring_ok_def q_items_def boot_simps)
  note f = ioq_fifo [OF this(1,3,5,2,4,6)]
  have "length [1, 2, 3 :: u8] = 3" by simp
  from conjunct1 [OF f, unfolded this] show ?thesis by blast
qed

lemma ioq_reset_correct_witness:
  "iq_bytes (fst (iqResetI iq_two boot)) = [] \<and> oq_bytes (fst (oqResetI oq_two boot)) = []"
  using ioq_reset_correct [OF io_examples(1,2)] by (simp add: split_beta)

end
