(* ===== verification/BufQueues.thy ===== *)
theory BufQueues
  imports IoQueues
begin

text \<open>
  The buffers queues of the HAL (hal_buffers.c, hal_buffers.h): queues of blocks between a driver,
  which fills or drains whole buffers, and threads, which read or write bytes.  The buffers lie
  one after the other, each behind a word with its used size.  Pointers are offsets from
  \<open>buffers\<close>; the size words and the data bytes are two memories, \<open>bq_hdr\<close> and \<open>bq_mem\<close>, because no
  operation reads one as the other.  A sleeping call is carried on by its \<open>_resume\<close>, as in
  \<open>IoQueues\<close>.
\<close>

section \<open>Data\<close>

record bufq =
  bq_waiting :: ptr
  bq_suspended :: bool
  bq_counter :: nat
  bq_wrptr :: nat
  bq_rdptr :: nat
  bq_btop :: nat
  bq_bsize :: nat
  bq_bn :: nat
  bq_ptr :: "nat option"
  bq_top :: nat
  bq_hdr :: "nat \<Rightarrow> nat"
  bq_mem :: "u8 list"

type_synonym bqnotify = "(bufq \<times> kernel \<Rightarrow> bufq \<times> kernel) option"

text \<open>\<open>sizeof (size_t)\<close>.\<close>

abbreviation SIZEOF :: nat where "SIZEOF \<equiv> 4"

definition bqSizeX :: "bufq \<Rightarrow> nat" where "bqSizeX q = bq_bn q"
definition bqSpaceI :: "bufq \<Rightarrow> nat" where "bqSpaceI q = bq_counter q"
definition bqIsSuspendedX :: "bufq \<Rightarrow> bool" where "bqIsSuspendedX q = bq_suspended q"

definition bqSuspendI :: "bufq \<Rightarrow> kernel \<Rightarrow> bufq \<times> kernel" where
  "bqSuspendI q k = (q\<lparr>bq_suspended := True\<rparr>, chThdDequeueAllI (bq_waiting q) MSG_RESET k)"

definition bqResumeX :: "bufq \<Rightarrow> bufq" where "bqResumeX q = q\<lparr>bq_suspended := False\<rparr>"

definition ibqIsEmptyI :: "bufq \<Rightarrow> bool" where "ibqIsEmptyI q \<longleftrightarrow> bqSpaceI q = 0"

definition ibqIsFullI :: "bufq \<Rightarrow> bool" where
  "ibqIsFullI q \<longleftrightarrow> bq_wrptr q = bq_rdptr q \<and> bq_counter q \<noteq> 0"

definition obqIsEmptyI :: "bufq \<Rightarrow> bool" where
  "obqIsEmptyI q \<longleftrightarrow> bq_wrptr q = bq_rdptr q \<and> bq_counter q \<noteq> 0"

definition obqIsFullI :: "bufq \<Rightarrow> bool" where "obqIsFullI q \<longleftrightarrow> bqSpaceI q = 0"

definition run_bnotify :: "bqnotify \<Rightarrow> bufq \<times> kernel \<Rightarrow> bufq \<times> kernel" where
  "run_bnotify nfy s = (case nfy of None \<Rightarrow> s | Some f \<Rightarrow> f s)"

text \<open>The steps of the two pointers, with their wrap.\<close>

definition wr_next :: "bufq \<Rightarrow> bufq" where
  "wr_next q =
    (let q = q\<lparr>bq_wrptr := bq_wrptr q + bq_bsize q\<rparr>
     in if bq_wrptr q \<ge> bq_btop q then q\<lparr>bq_wrptr := 0\<rparr> else q)"

definition rd_next :: "bufq \<Rightarrow> bufq" where
  "rd_next q =
    (let q = q\<lparr>bq_rdptr := bq_rdptr q + bq_bsize q\<rparr>
     in if bq_rdptr q \<ge> bq_btop q then q\<lparr>bq_rdptr := 0\<rparr> else q)"

section \<open>Input queues\<close>

definition ibqObjectInit :: "ptr \<Rightarrow> bool \<Rightarrow> u8 list \<Rightarrow> (nat \<Rightarrow> nat) \<Rightarrow> nat \<Rightarrow> nat \<Rightarrow> kernel \<Rightarrow> bufq \<times> kernel" where
  "ibqObjectInit tqp suspended bp hdr sz n k =
    (\<lparr>bq_waiting = tqp, bq_suspended = suspended, bq_counter = 0, bq_wrptr = 0, bq_rdptr = 0,
      bq_btop = (sz + SIZEOF) * n, bq_bsize = sz + SIZEOF, bq_bn = n, bq_ptr = None, bq_top = 0,
      bq_hdr = hdr, bq_mem = bp\<rparr>, queue_init (QOBJ tqp) k)"

definition ibqResetI :: "bufq \<Rightarrow> kernel \<Rightarrow> bufq \<times> kernel" where
  "ibqResetI q k =
    (q\<lparr>bq_counter := 0, bq_rdptr := 0, bq_wrptr := 0, bq_ptr := None, bq_top := 0\<rparr>,
     chThdDequeueAllI (bq_waiting q) MSG_RESET k)"

definition ibqGetEmptyBufferI :: "bufq \<Rightarrow> nat option" where
  "ibqGetEmptyBufferI q = (if ibqIsFullI q then None else Some (bq_wrptr q + SIZEOF))"

definition ibqPostFullBufferI :: "nat \<Rightarrow> bufq \<Rightarrow> kernel \<Rightarrow> bufq \<times> kernel" where
  "ibqPostFullBufferI sz q k =
    (let q = q\<lparr>bq_hdr := (bq_hdr q)(bq_wrptr q := sz)\<rparr>;
         q = q\<lparr>bq_counter := bq_counter q + 1\<rparr>;
         q = wr_next q
     in (q, chThdDequeueNextI (bq_waiting q) MSG_OK k))"

text \<open>One turn of the wait loop; after a sleep without switch the call has timed out.\<close>

definition ibqGetFullBufferTimeoutS :: "systime \<Rightarrow> bufq \<Rightarrow> kernel \<Rightarrow> msg outcome \<times> bufq \<times> kernel" where
  "ibqGetFullBufferTimeoutS timeout q k =
    (if ibqIsEmptyI q
     then (if bq_suspended q then (Ret MSG_RESET, q, k)
           else (let (r, k) = chThdEnqueueTimeoutS (bq_waiting q) timeout k in (r, q, k)))
     else (Ret MSG_OK, q\<lparr>bq_ptr := Some (bq_rdptr q + SIZEOF),
       bq_top := bq_rdptr q + SIZEOF + bq_hdr q (bq_rdptr q)\<rparr>, k))"

definition ibqGetFullBufferTimeoutS_resume :: "systime \<Rightarrow> bufq \<Rightarrow> kernel \<Rightarrow> msg outcome \<times> bufq \<times> kernel" where
  "ibqGetFullBufferTimeoutS_resume timeout q k =
    (let (m, k) = chSchGoSleepTimeoutS_resume timeout k
     in if m <s MSG_OK then (Ret m, q, k) else ibqGetFullBufferTimeoutS timeout q k)"

definition ibqGetFullBufferTimeout :: "systime \<Rightarrow> bufq \<Rightarrow> kernel \<Rightarrow> msg outcome \<times> bufq \<times> kernel" where
  "ibqGetFullBufferTimeout timeout q k = ibqGetFullBufferTimeoutS timeout q k"

definition ibqReleaseEmptyBufferS :: "bqnotify \<Rightarrow> bufq \<Rightarrow> kernel \<Rightarrow> bufq \<times> kernel" where
  "ibqReleaseEmptyBufferS nfy q k =
    (let q = q\<lparr>bq_counter := bq_counter q - 1\<rparr>;
         q = rd_next q;
         q = q\<lparr>bq_ptr := None\<rparr>
     in run_bnotify nfy (q, k))"

definition ibqReleaseEmptyBuffer :: "bqnotify \<Rightarrow> bufq \<Rightarrow> kernel \<Rightarrow> bufq \<times> kernel" where
  "ibqReleaseEmptyBuffer nfy q k = ibqReleaseEmptyBufferS nfy q k"

text \<open>The part of \<open>ibqGetTimeout\<close> once a buffer is current.\<close>

definition ibq_take :: "bqnotify \<Rightarrow> nat \<Rightarrow> bufq \<Rightarrow> kernel \<Rightarrow> msg outcome \<times> bufq \<times> kernel" where
  "ibq_take nfy p q k =
    (let m = ucast (bq_mem q ! p);
         q = q\<lparr>bq_ptr := Some (p + 1)\<rparr>;
         (q, k) = (if p + 1 \<ge> bq_top q then ibqReleaseEmptyBufferS nfy q k else (q, k))
     in (Ret m, q, k))"

definition ibq_got :: "bqnotify \<Rightarrow> msg outcome \<times> bufq \<times> kernel \<Rightarrow> msg outcome \<times> bufq \<times> kernel" where
  "ibq_got nfy s =
    (case s of (Ret m, q, k) \<Rightarrow>
       (if m \<noteq> MSG_OK then (Ret m, q, k)
        else (case bq_ptr q of None \<Rightarrow> (Ret m, q, k) | Some p \<Rightarrow> ibq_take nfy p q k))
     | (Switched, q, k) \<Rightarrow> (Switched, q, k))"

definition ibqGetTimeout :: "bqnotify \<Rightarrow> systime \<Rightarrow> bufq \<Rightarrow> kernel \<Rightarrow> msg outcome \<times> bufq \<times> kernel" where
  "ibqGetTimeout nfy timeout q k =
    (case bq_ptr q of
       None \<Rightarrow> ibq_got nfy (ibqGetFullBufferTimeoutS timeout q k)
     | Some p \<Rightarrow> ibq_take nfy p q k)"

definition ibqGetTimeout_resume :: "bqnotify \<Rightarrow> systime \<Rightarrow> bufq \<Rightarrow> kernel \<Rightarrow> msg outcome \<times> bufq \<times> kernel" where
  "ibqGetTimeout_resume nfy timeout q k = ibq_got nfy (ibqGetFullBufferTimeoutS_resume timeout q k)"

text \<open>Copying at most 64 bytes of the current buffer in one critical section.\<close>

definition ibq_chunk :: "bqnotify \<Rightarrow> nat \<Rightarrow> nat \<Rightarrow> bufq \<Rightarrow> kernel \<Rightarrow> u8 list \<times> bufq \<times> kernel" where
  "ibq_chunk nfy p n q k =
    (let sz = bq_top q - p;
         sz = (if sz > n then n else sz);
         sz = (if sz > 64 then 64 else sz);
         bs = take sz (drop p (bq_mem q));
         q = q\<lparr>bq_ptr := Some (p + sz)\<rparr>;
         (q, k) = (if p + sz \<ge> bq_top q then ibqReleaseEmptyBufferS nfy q k else (q, k))
     in (bs, q, k))"

partial_function (option) ibqRead_loop ::
  "bqnotify \<Rightarrow> systime \<Rightarrow> systime \<Rightarrow> nat \<Rightarrow> u8 list \<Rightarrow> bufq \<Rightarrow> kernel \<Rightarrow>
    (u8 list transfer \<times> bufq \<times> kernel) option" where
  "ibqRead_loop nfy deadline timeout n acc q k =
    (case (if bq_ptr q \<noteq> None then Some (timeout, Ret MSG_OK, q, k)
           else (case next_sleep deadline timeout k of
                   None \<Rightarrow> None
                 | Some t \<Rightarrow> Some (t, ibqGetFullBufferTimeoutS t q k))) of
       None \<Rightarrow> Some (Done acc, q, k)
     | Some (t, Switched, q, k) \<Rightarrow> Some (Blocked n t acc, q, k)
     | Some (t, Ret m, q, k) \<Rightarrow>
         (if m \<noteq> MSG_OK then Some (Done acc, q, k)
          else (case ibq_chunk nfy (case bq_ptr q of None \<Rightarrow> 0 | Some p \<Rightarrow> p) n q k of
                  (bs, q, k) \<Rightarrow>
                    if n \<le> length bs then Some (Done (acc @ bs), q, k)
                    else ibqRead_loop nfy deadline timeout (n - length bs) (acc @ bs) q k)))"

definition ibqReadTimeout :: "bqnotify \<Rightarrow> nat \<Rightarrow> systime \<Rightarrow> bufq \<Rightarrow> kernel \<Rightarrow> (u8 list transfer \<times> bufq \<times> kernel) option" where
  "ibqReadTimeout nfy n timeout q k =
    ibqRead_loop nfy (chVTGetSystemTimeX k + timeout) timeout n [] q k"

definition ibqReadTimeout_resume :: "bqnotify \<Rightarrow> systime \<Rightarrow> systime \<Rightarrow> nat \<Rightarrow> systime \<Rightarrow> u8 list \<Rightarrow>
    bufq \<Rightarrow> kernel \<Rightarrow> (u8 list transfer \<times> bufq \<times> kernel) option" where
  "ibqReadTimeout_resume nfy deadline timeout n t acc q k =
    (case ibqGetFullBufferTimeoutS_resume t q k of
       (Switched, q, k) \<Rightarrow> Some (Blocked n t acc, q, k)
     | (Ret m, q, k) \<Rightarrow>
         (if m \<noteq> MSG_OK then Some (Done acc, q, k)
          else ibqRead_loop nfy deadline timeout n acc q k))"

section \<open>Output queues\<close>

definition obqObjectInit :: "ptr \<Rightarrow> bool \<Rightarrow> u8 list \<Rightarrow> (nat \<Rightarrow> nat) \<Rightarrow> nat \<Rightarrow> nat \<Rightarrow> kernel \<Rightarrow> bufq \<times> kernel" where
  "obqObjectInit tqp suspended bp hdr sz n k =
    (\<lparr>bq_waiting = tqp, bq_suspended = suspended, bq_counter = n, bq_wrptr = 0, bq_rdptr = 0,
      bq_btop = (sz + SIZEOF) * n, bq_bsize = sz + SIZEOF, bq_bn = n, bq_ptr = None, bq_top = 0,
      bq_hdr = hdr, bq_mem = bp\<rparr>, queue_init (QOBJ tqp) k)"

definition obqResetI :: "bufq \<Rightarrow> kernel \<Rightarrow> bufq \<times> kernel" where
  "obqResetI q k =
    (q\<lparr>bq_counter := bqSizeX q, bq_rdptr := 0, bq_wrptr := 0, bq_ptr := None, bq_top := 0\<rparr>,
     chThdDequeueAllI (bq_waiting q) MSG_RESET k)"

definition obqGetFullBufferI :: "bufq \<Rightarrow> (nat \<times> nat) option" where
  "obqGetFullBufferI q =
    (if obqIsEmptyI q then None else Some (bq_rdptr q + SIZEOF, bq_hdr q (bq_rdptr q)))"

definition obqReleaseEmptyBufferI :: "bufq \<Rightarrow> kernel \<Rightarrow> bufq \<times> kernel" where
  "obqReleaseEmptyBufferI q k =
    (let q = q\<lparr>bq_counter := bq_counter q + 1\<rparr>;
         q = rd_next q
     in (q, chThdDequeueNextI (bq_waiting q) MSG_OK k))"

definition obqGetEmptyBufferTimeoutS :: "systime \<Rightarrow> bufq \<Rightarrow> kernel \<Rightarrow> msg outcome \<times> bufq \<times> kernel" where
  "obqGetEmptyBufferTimeoutS timeout q k =
    (if obqIsFullI q
     then (if bq_suspended q then (Ret MSG_RESET, q, k)
           else (let (r, k) = chThdEnqueueTimeoutS (bq_waiting q) timeout k in (r, q, k)))
     else (Ret MSG_OK, q\<lparr>bq_ptr := Some (bq_wrptr q + SIZEOF), bq_top := bq_wrptr q + bq_bsize q\<rparr>, k))"

definition obqGetEmptyBufferTimeoutS_resume :: "systime \<Rightarrow> bufq \<Rightarrow> kernel \<Rightarrow> msg outcome \<times> bufq \<times> kernel" where
  "obqGetEmptyBufferTimeoutS_resume timeout q k =
    (let (m, k) = chSchGoSleepTimeoutS_resume timeout k
     in if m <s MSG_OK then (Ret m, q, k) else obqGetEmptyBufferTimeoutS timeout q k)"

definition obqGetEmptyBufferTimeout :: "systime \<Rightarrow> bufq \<Rightarrow> kernel \<Rightarrow> msg outcome \<times> bufq \<times> kernel" where
  "obqGetEmptyBufferTimeout timeout q k = obqGetEmptyBufferTimeoutS timeout q k"

definition obqPostFullBufferS :: "bqnotify \<Rightarrow> nat \<Rightarrow> bufq \<Rightarrow> kernel \<Rightarrow> bufq \<times> kernel" where
  "obqPostFullBufferS nfy sz q k =
    (let q = q\<lparr>bq_hdr := (bq_hdr q)(bq_wrptr q := sz)\<rparr>;
         q = q\<lparr>bq_counter := bq_counter q - 1\<rparr>;
         q = wr_next q;
         q = q\<lparr>bq_ptr := None\<rparr>
     in run_bnotify nfy (q, k))"

definition obqPostFullBuffer :: "bqnotify \<Rightarrow> nat \<Rightarrow> bufq \<Rightarrow> kernel \<Rightarrow> bufq \<times> kernel" where
  "obqPostFullBuffer nfy sz q k = obqPostFullBufferS nfy sz q k"

definition obq_fill :: "bqnotify \<Rightarrow> nat \<Rightarrow> u8 \<Rightarrow> bufq \<Rightarrow> kernel \<Rightarrow> msg outcome \<times> bufq \<times> kernel" where
  "obq_fill nfy p b q k =
    (let q = q\<lparr>bq_mem := (bq_mem q)[p := b]\<rparr>;
         q = q\<lparr>bq_ptr := Some (p + 1)\<rparr>;
         (q, k) = (if p + 1 \<ge> bq_top q then obqPostFullBufferS nfy (bq_bsize q - SIZEOF) q k else (q, k))
     in (Ret MSG_OK, q, k))"

definition obq_got :: "bqnotify \<Rightarrow> u8 \<Rightarrow> msg outcome \<times> bufq \<times> kernel \<Rightarrow> msg outcome \<times> bufq \<times> kernel" where
  "obq_got nfy b s =
    (case s of (Ret m, q, k) \<Rightarrow>
       (if m \<noteq> MSG_OK then (Ret m, q, k)
        else (case bq_ptr q of None \<Rightarrow> (Ret m, q, k) | Some p \<Rightarrow> obq_fill nfy p b q k))
     | (Switched, q, k) \<Rightarrow> (Switched, q, k))"

definition obqPutTimeout :: "bqnotify \<Rightarrow> u8 \<Rightarrow> systime \<Rightarrow> bufq \<Rightarrow> kernel \<Rightarrow> msg outcome \<times> bufq \<times> kernel" where
  "obqPutTimeout nfy b timeout q k =
    (case bq_ptr q of
       None \<Rightarrow> obq_got nfy b (obqGetEmptyBufferTimeoutS timeout q k)
     | Some p \<Rightarrow> obq_fill nfy p b q k)"

definition obqPutTimeout_resume :: "bqnotify \<Rightarrow> u8 \<Rightarrow> systime \<Rightarrow> bufq \<Rightarrow> kernel \<Rightarrow> msg outcome \<times> bufq \<times> kernel" where
  "obqPutTimeout_resume nfy b timeout q k = obq_got nfy b (obqGetEmptyBufferTimeoutS_resume timeout q k)"

text \<open>Writing a list of bytes at an offset, and a chunk of a long write.\<close>

fun put_bytes :: "nat \<Rightarrow> u8 list \<Rightarrow> u8 list \<Rightarrow> u8 list" where
  "put_bytes p [] m = m"
| "put_bytes p (b # bs) m = put_bytes (p + 1) bs (m[p := b])"

definition obq_chunk :: "bqnotify \<Rightarrow> nat \<Rightarrow> u8 list \<Rightarrow> bufq \<Rightarrow> kernel \<Rightarrow> nat \<times> bufq \<times> kernel" where
  "obq_chunk nfy p bs q k =
    (let sz = bq_top q - p;
         sz = (if sz > length bs then length bs else sz);
         sz = (if sz > 64 then 64 else sz);
         q = q\<lparr>bq_mem := put_bytes p (take sz bs) (bq_mem q)\<rparr>;
         q = q\<lparr>bq_ptr := Some (p + sz)\<rparr>;
         (q, k) = (if p + sz \<ge> bq_top q then obqPostFullBufferS nfy (bq_bsize q - SIZEOF) q k else (q, k))
     in (sz, q, k))"

partial_function (option) obqWrite_loop ::
  "bqnotify \<Rightarrow> systime \<Rightarrow> systime \<Rightarrow> u8 list \<Rightarrow> nat \<Rightarrow> bufq \<Rightarrow> kernel \<Rightarrow>
    (nat transfer \<times> bufq \<times> kernel) option" where
  "obqWrite_loop nfy deadline timeout bs w q k =
    (case (if bq_ptr q \<noteq> None then Some (timeout, Ret MSG_OK, q, k)
           else (case next_sleep deadline timeout k of
                   None \<Rightarrow> None
                 | Some t \<Rightarrow> Some (t, obqGetEmptyBufferTimeoutS t q k))) of
       None \<Rightarrow> Some (Done w, q, k)
     | Some (t, Switched, q, k) \<Rightarrow> Some (Blocked (length bs) t w, q, k)
     | Some (t, Ret m, q, k) \<Rightarrow>
         (if m \<noteq> MSG_OK then Some (Done w, q, k)
          else (case obq_chunk nfy (case bq_ptr q of None \<Rightarrow> 0 | Some p \<Rightarrow> p) bs q k of
                  (sz, q, k) \<Rightarrow>
                    if length bs \<le> sz then Some (Done (w + sz), q, k)
                    else obqWrite_loop nfy deadline timeout (drop sz bs) (w + sz) q k)))"

definition obqWriteTimeout :: "bqnotify \<Rightarrow> u8 list \<Rightarrow> systime \<Rightarrow> bufq \<Rightarrow> kernel \<Rightarrow> (nat transfer \<times> bufq \<times> kernel) option" where
  "obqWriteTimeout nfy bs timeout q k =
    obqWrite_loop nfy (chVTGetSystemTimeX k + timeout) timeout bs 0 q k"

definition obqWriteTimeout_resume :: "bqnotify \<Rightarrow> systime \<Rightarrow> systime \<Rightarrow> u8 list \<Rightarrow> systime \<Rightarrow> nat \<Rightarrow>
    bufq \<Rightarrow> kernel \<Rightarrow> (nat transfer \<times> bufq \<times> kernel) option" where
  "obqWriteTimeout_resume nfy deadline timeout bs t w q k =
    (case obqGetEmptyBufferTimeoutS_resume t q k of
       (Switched, q, k) \<Rightarrow> Some (Blocked (length bs) t w, q, k)
     | (Ret m, q, k) \<Rightarrow>
         (if m \<noteq> MSG_OK then Some (Done w, q, k)
          else obqWrite_loop nfy deadline timeout bs w q k))"

definition obqTryFlushI :: "bufq \<Rightarrow> bool \<times> bufq" where
  "obqTryFlushI q =
    (case bq_ptr q of
       Some p \<Rightarrow>
         (if obqIsEmptyI q
          then (let sz = p - (bq_wrptr q + SIZEOF)
                in if sz > 0
                   then (let q = q\<lparr>bq_hdr := (bq_hdr q)(bq_wrptr q := sz)\<rparr>;
                             q = q\<lparr>bq_counter := bq_counter q - 1\<rparr>;
                             q = wr_next q
                         in (True, q\<lparr>bq_ptr := None\<rparr>))
                   else (False, q))
          else (False, q))
     | None \<Rightarrow> (False, q))"

definition obqFlush :: "bqnotify \<Rightarrow> bufq \<Rightarrow> kernel \<Rightarrow> bufq \<times> kernel" where
  "obqFlush nfy q k =
    (case bq_ptr q of
       Some p \<Rightarrow>
         (let sz = p - bq_wrptr q - SIZEOF
          in if sz > 0 then obqPostFullBufferS nfy sz q k else (q, k))
     | None \<Rightarrow> (q, k))"

section \<open>Blocks\<close>

text \<open>The slot with number \<open>i\<close>: its size word and its bytes.\<close>

definition bq_slot :: "bufq \<Rightarrow> nat \<Rightarrow> nat \<times> u8 list" where
  "bq_slot q i = (bq_hdr q (i * bq_bsize q), take (bq_bsize q - SIZEOF) (drop (i * bq_bsize q + SIZEOF) (bq_mem q)))"

definition bq_slots :: "bufq \<Rightarrow> (nat \<times> u8 list) list" where
  "bq_slots q = map (bq_slot q) [0..<bq_bn q]"

text \<open>\<open>n\<close> blocks are posted, from the read pointer to the write pointer.\<close>

definition bq_ok :: "nat \<Rightarrow> bufq \<Rightarrow> bool" where
  "bq_ok n q \<longleftrightarrow> SIZEOF < bq_bsize q \<and> bq_btop q = bq_bsize q * bq_bn q \<and> length (bq_mem q) = bq_btop q \<and>
    bq_rdptr q = bq_rdptr q div bq_bsize q * bq_bsize q \<and> bq_wrptr q = bq_wrptr q div bq_bsize q * bq_bsize q \<and>
    ring_ok (bq_bn q) (bq_slots q) (bq_rdptr q div bq_bsize q) (bq_wrptr q div bq_bsize q) n \<and>
    list_all (\<lambda>s. 0 < fst s \<and> fst s \<le> bq_bsize q - SIZEOF)
      (ring_at (bq_slots q) (bq_rdptr q div bq_bsize q) n)"

definition bq_blocks :: "nat \<Rightarrow> bufq \<Rightarrow> u8 list list" where
  "bq_blocks n q = map (\<lambda>s. take (fst s) (snd s)) (ring_at (bq_slots q) (bq_rdptr q div bq_bsize q) n)"

text \<open>A block as the pointers see it.\<close>

definition bq_block :: "nat \<Rightarrow> nat \<Rightarrow> bufq \<Rightarrow> u8 list" where
  "bq_block p n q = take n (drop p (bq_mem q))"

lemma length_bq_blocks [simp]: "length (bq_blocks n q) = n"
  by (simp add: bq_blocks_def)

lemma bq_ok_slot:
  assumes "bq_ok n q"
  shows "bq_rdptr q + bq_bsize q \<le> length (bq_mem q)" "bq_wrptr q + bq_bsize q \<le> length (bq_mem q)"
    "n \<le> bq_bn q" "SIZEOF < bq_bsize q" "0 < bq_bn q"
proof -
  let ?B = "bq_bsize q"
  have in_range: "i < bq_bn q \<Longrightarrow> i * ?B + ?B \<le> ?B * bq_bn q" for i
    using mult_le_mono1 [of "Suc i" "bq_bn q" ?B] by (simp add: mult.commute)
  have rd: "bq_rdptr q div ?B < bq_bn q" and wr: "bq_wrptr q div ?B < bq_bn q"
    using assms by (auto simp: bq_ok_def ring_ok_def)
  show "bq_rdptr q + ?B \<le> length (bq_mem q)"
    using in_range [OF rd] assms by (simp add: bq_ok_def)
  show "bq_wrptr q + ?B \<le> length (bq_mem q)"
    using in_range [OF wr] assms by (simp add: bq_ok_def)
  show "n \<le> bq_bn q" "SIZEOF < ?B" "0 < bq_bn q"
    using assms rd by (auto simp: bq_ok_def ring_ok_def)
qed

text \<open>A pointer step is a step of its slot number.\<close>

lemma slot_step:
  assumes "p = i * B" and "i < N" and "0 < (B :: nat)"
  shows "(if B * N \<le> p + B then 0 else p + B) = (if N \<le> i + 1 then 0 else i + 1) * B"
proof -
  have "p + B = B * (i + 1)" using assms(1) by (simp add: algebra_simps)
  then have "B * N \<le> p + B \<longleftrightarrow> N \<le> i + 1" using assms(3) by (simp only: mult_le_cancel1) auto
  then show ?thesis using assms(1) by (simp add: algebra_simps)
qed

lemma rd_next_eq: "rd_next q = q\<lparr>bq_rdptr := (if bq_btop q \<le> bq_rdptr q + bq_bsize q then 0 else bq_rdptr q + bq_bsize q)\<rparr>"
  by (simp add: rd_next_def Let_def)

lemma wr_next_eq: "wr_next q = q\<lparr>bq_wrptr := (if bq_btop q \<le> bq_wrptr q + bq_bsize q then 0 else bq_wrptr q + bq_bsize q)\<rparr>"
  by (simp add: wr_next_def Let_def)

lemma bq_release:
  assumes "bq_ok n q" and "0 < n"
  shows "bq_ok (n - 1) (rd_next q)"
    and "bq_blocks n q = bq_block (bq_rdptr q + SIZEOF) (bq_hdr q (bq_rdptr q)) q # bq_blocks (n - 1) (rd_next q)"
    and "0 < bq_hdr q (bq_rdptr q)" "bq_hdr q (bq_rdptr q) \<le> bq_bsize q - SIZEOF"
proof -
  let ?B = "bq_bsize q" and ?r = "bq_rdptr q div bq_bsize q" and ?N = "bq_bn q"
  let ?r' = "if ?N \<le> ?r + 1 then 0 else ?r + 1"
  have ring: "ring_ok ?N (bq_slots q) ?r (bq_wrptr q div ?B) n" and B: "0 < ?B" and rp: "bq_rdptr q = ?r * ?B"
    and all: "list_all (\<lambda>s. 0 < fst s \<and> fst s \<le> ?B - SIZEOF) (ring_at (bq_slots q) ?r n)"
    using assms(1) by (auto simp: bq_ok_def)
  have r: "?r < ?N" using ring by (simp add: ring_ok_def)
  have p': "bq_rdptr (rd_next q) = ?r' * ?B"
    using slot_step [OF rp r B] assms(1) by (simp add: rd_next_eq bq_ok_def)
  then have d': "bq_rdptr (rd_next q) div ?B = ?r'" using B by simp
  have same: "bq_slots (rd_next q) = bq_slots q" "bq_bsize (rd_next q) = ?B" "bq_bn (rd_next q) = ?N"
    "bq_btop (rd_next q) = bq_btop q" "bq_mem (rd_next q) = bq_mem q" "bq_wrptr (rd_next q) = bq_wrptr q"
    by (simp_all add: rd_next_eq bq_slots_def bq_slot_def)
  note l = ring_ok_load [OF ring assms(2)]
  have h: "bq_slots q ! ?r = bq_slot q ?r" using r by (simp add: bq_slots_def)
  have all': "list_all (\<lambda>s. 0 < fst s \<and> fst s \<le> ?B - SIZEOF) (bq_slot q ?r # ring_at (bq_slots q) ?r' (n - 1))"
    using all l h by metis
  show ok: "0 < bq_hdr q (bq_rdptr q)" "bq_hdr q (bq_rdptr q) \<le> ?B - SIZEOF"
    using all' rp by (simp_all add: bq_slot_def)
  show "bq_ok (n - 1) (rd_next q)"
    using assms(1) l all' p' d' unfolding bq_ok_def same by simp
  have "take (fst (bq_slot q ?r)) (snd (bq_slot q ?r)) = bq_block (bq_rdptr q + SIZEOF) (bq_hdr q (bq_rdptr q)) q"
    using ok(2) rp by (simp add: bq_slot_def bq_block_def min_def)
  then show "bq_blocks n q = bq_block (bq_rdptr q + SIZEOF) (bq_hdr q (bq_rdptr q)) q # bq_blocks (n - 1) (rd_next q)"
    using l h unfolding bq_blocks_def same d' by simp
qed

lemma bq_post:
  assumes ok: "bq_ok n q" and n: "n < bq_bn q" and sz: "0 < sz" "sz \<le> bq_bsize q - SIZEOF"
  defines "q' \<equiv> wr_next (q\<lparr>bq_hdr := (bq_hdr q)(bq_wrptr q := sz)\<rparr>)"
  shows "bq_ok (Suc n) q' \<and> bq_blocks (Suc n) q' = bq_blocks n q @ [bq_block (bq_wrptr q + SIZEOF) sz q]"
proof -
  let ?B = "bq_bsize q" and ?r = "bq_rdptr q div bq_bsize q" and ?w = "bq_wrptr q div bq_bsize q" and ?N = "bq_bn q"
  let ?w' = "if ?N \<le> ?w + 1 then 0 else ?w + 1"
  have ring: "ring_ok ?N (bq_slots q) ?r ?w n" and B: "0 < ?B" and wp: "bq_wrptr q = ?w * ?B"
    using ok by (auto simp: bq_ok_def)
  have w: "?w < ?N" using ring by (auto simp: ring_ok_def)
  have "bq_wrptr q' = (if ?B * ?N \<le> bq_wrptr q + ?B then 0 else bq_wrptr q + ?B)"
    using ok unfolding q'_def wr_next_eq bq_ok_def by simp
  then have p': "bq_wrptr q' = ?w' * ?B" by (rule trans [OF _ slot_step [OF wp w B]])
  then have d': "bq_wrptr q' div ?B = ?w'" using B by simp
  have same: "bq_bsize q' = ?B" "bq_bn q' = ?N" "bq_btop q' = bq_btop q" "bq_mem q' = bq_mem q" "bq_rdptr q' = bq_rdptr q"
    "bq_hdr q' = (bq_hdr q)(?w * ?B := sz)"
    using wp by (simp_all add: q'_def wr_next_eq)
  let ?x = "(sz, take (?B - SIZEOF) (drop (bq_wrptr q + SIZEOF) (bq_mem q)))"
  have "bq_slot q' i = (bq_slots q)[?w := ?x] ! i" if "i < ?N" for i
  proof -
    have "i * ?B = bq_wrptr q \<Longrightarrow> i = ?w" using B by (metis nonzero_mult_div_cancel_right neq0_conv)
    then show ?thesis using that wp by (cases "i = ?w") (auto simp: bq_slot_def same bq_slots_def)
  qed
  then have slots: "bq_slots q' = (bq_slots q)[?w := ?x]"
    by (intro nth_equalityI) (simp_all add: bq_slots_def same)
  note st = ring_ok_store [OF ring n, of ?x]
  have "take (fst ?x) (snd ?x) = bq_block (bq_wrptr q + SIZEOF) sz q"
    using sz(2) by (simp add: bq_block_def min_def)
  then have "bq_blocks (Suc n) q' = bq_blocks n q @ [bq_block (bq_wrptr q + SIZEOF) sz q]"
    using st by (simp add: bq_blocks_def same slots)
  moreover have "bq_ok (Suc n) q'"
    using ok st p' d' sz unfolding bq_ok_def same slots by simp
  ultimately show ?thesis by simp
qed

text \<open>Writes into the slot at the write pointer leave the posted blocks alone.\<close>

lemma put_bytes_nth:
  "p + length bs \<le> length m \<Longrightarrow> length (put_bytes p bs m) = length m \<and>
    (\<forall>j. put_bytes p bs m ! j = (if p \<le> j \<and> j < p + length bs then bs ! (j - p) else m ! j))"
proof (induction bs arbitrary: p m)
  case Nil
  then show ?case by auto
next
  case (Cons b bs)
  have "put_bytes (p + 1) bs (m[p := b]) ! j =
      (if p \<le> j \<and> j < p + length (b # bs) then (b # bs) ! (j - p) else m ! j)" for j
    using Cons.IH [of "p + 1" "m[p := b]"] Cons.prems
    by (cases "j = p") (auto simp: nth_Cons' nth_list_update)
  then show ?case using Cons.IH [of "p + 1" "m[p := b]"] Cons.prems by auto
qed

lemma slot_apart:
  assumes "i \<noteq> w" and "w * B \<le> p" and "p < w * B + B" and "i * B \<le> p'" and "p' < i * B + (B :: nat)"
  shows "p \<noteq> p'"
proof
  assume e: "p = p'"
  have "p div B = w" using assms(2,3) by (intro div_nat_eqI) (simp_all add: algebra_simps)
  moreover have "p' div B = i" using assms(4,5) by (intro div_nat_eqI) (simp_all add: algebra_simps)
  ultimately show False using assms(1) e by simp
qed

lemma bq_store:
  assumes ok: "bq_ok n q" and n: "n < bq_bn q"
    and p: "bq_wrptr q \<le> p" "p + length bs \<le> bq_wrptr q + bq_bsize q"
  defines "q' \<equiv> q\<lparr>bq_mem := put_bytes p bs (bq_mem q)\<rparr>"
  shows "bq_ok n q' \<and> bq_blocks n q' = bq_blocks n q"
proof -
  let ?B = "bq_bsize q" and ?r = "bq_rdptr q div bq_bsize q" and ?w = "bq_wrptr q div bq_bsize q" and ?N = "bq_bn q"
  have ring: "ring_ok ?N (bq_slots q) ?r ?w n" and wp: "bq_wrptr q = ?w * ?B"
    using ok by (auto simp: bq_ok_def)
  have le: "p + length bs \<le> length (bq_mem q)" using bq_ok_slot(2) [OF ok] p by simp
  note nth = put_bytes_nth [OF le]
  have slot: "bq_slot q' i = bq_slot q i" if i: "i \<noteq> ?w" for i
  proof -
    have "take (?B - SIZEOF) (drop (i * ?B + SIZEOF) (put_bytes p bs (bq_mem q))) =
        take (?B - SIZEOF) (drop (i * ?B + SIZEOF) (bq_mem q))" (is "?l = ?rr")
    proof (rule nth_equalityI)
      show "length ?l = length ?rr" using nth by simp
      fix j assume "j < length ?l"
      then have j: "j < ?B - SIZEOF" "i * ?B + SIZEOF + j < length (bq_mem q)" using nth by auto
      have "\<not> (p \<le> i * ?B + SIZEOF + j \<and> i * ?B + SIZEOF + j < p + length bs)"
        using slot_apart [OF i, of ?B "i * ?B + SIZEOF + j" "i * ?B + SIZEOF + j"] p wp j by linarith
      then have "put_bytes p bs (bq_mem q) ! (i * ?B + SIZEOF + j) = bq_mem q ! (i * ?B + SIZEOF + j)"
        using nth by auto
      then show "?l ! j = ?rr ! j" using nth j by simp
    qed
    then show ?thesis by (simp add: bq_slot_def q'_def)
  qed
  have "bq_slot q' i = (bq_slots q)[?w := bq_slot q' ?w] ! i" if "i < ?N" for i
    using that slot by (cases "i = ?w") (simp_all add: bq_slots_def)
  then have slots: "bq_slots q' = (bq_slots q)[?w := bq_slot q' ?w]"
    by (intro nth_equalityI) (simp_all add: bq_slots_def q'_def)
  have "ring_at ((bq_slots q)[?w := x]) ?r n = ring_at (bq_slots q) ?r n" for x
    using ring_ok_store [OF ring n, of x] ring_write [of n "(bq_slots q)[?w := x]" ?r x] n ring
    by (simp add: ring_ok_def)
  then have at: "ring_at (bq_slots q') ?r n = ring_at (bq_slots q) ?r n" using slots by simp
  have "ring_ok ?N (bq_slots q') ?r ?w n" using ring slots by (simp add: ring_ok_def)
  then show ?thesis
    using ok at nth unfolding bq_ok_def bq_blocks_def by (simp add: q'_def)
qed

lemma bq_ok_upd [simp]:
  "bq_ok n (q\<lparr>bq_counter := c\<rparr>) = bq_ok n q" "bq_ok n (q\<lparr>bq_ptr := p\<rparr>) = bq_ok n q" "bq_ok n (q\<lparr>bq_top := t\<rparr>) = bq_ok n q"
  "bq_blocks n (q\<lparr>bq_counter := c\<rparr>) = bq_blocks n q" "bq_blocks n (q\<lparr>bq_ptr := p\<rparr>) = bq_blocks n q"
  "bq_blocks n (q\<lparr>bq_top := t\<rparr>) = bq_blocks n q"
  "bq_block i n (q\<lparr>bq_counter := c\<rparr>) = bq_block i n q" "bq_block i n (q\<lparr>bq_ptr := p\<rparr>) = bq_block i n q"
  "bq_block i n (q\<lparr>bq_top := t\<rparr>) = bq_block i n q"
  by (simp_all add: bq_ok_def bq_blocks_def bq_slots_def bq_slot_def bq_block_def cong: map_cong)

lemma bq_next_upd [simp]:
  "rd_next (q\<lparr>bq_counter := c\<rparr>) = (rd_next q)\<lparr>bq_counter := c\<rparr>" "rd_next (q\<lparr>bq_ptr := p\<rparr>) = (rd_next q)\<lparr>bq_ptr := p\<rparr>"
  "wr_next (q\<lparr>bq_counter := c\<rparr>) = (wr_next q)\<lparr>bq_counter := c\<rparr>"
  "bq_counter (rd_next q) = bq_counter q" "bq_waiting (rd_next q) = bq_waiting q" "bq_ptr (rd_next q) = bq_ptr q"
  "bq_counter (wr_next q) = bq_counter q" "bq_waiting (wr_next q) = bq_waiting q" "bq_ptr (wr_next q) = bq_ptr q"
  "bq_suspended (rd_next q) = bq_suspended q" "bq_suspended (wr_next q) = bq_suspended q"
  "bq_bn (rd_next q) = bq_bn q" "bq_bn (wr_next q) = bq_bn q" "bq_bsize (rd_next q) = bq_bsize q" "bq_bsize (wr_next q) = bq_bsize q"
  by (simp_all add: rd_next_eq wr_next_eq)

section \<open>Queues with their kernel\<close>

text \<open>
  The bytes of an input queue are what is left of the current buffer and the posted buffers after
  it; of an output queue the posted buffers and what the current one holds.  The counter of an
  output queue is the number of its free buffers, the current one included.
\<close>

definition bq_kernel :: "(ptr \<Rightarrow> okind) \<Rightarrow> ptr \<Rightarrow> bufq \<Rightarrow> kernel \<Rightarrow> bool" where
  "bq_kernel kd idle q k \<longleftrightarrow> kinv kd idle {} k \<and> kd (bq_waiting q) = KQueue"

definition ibq_ok :: "(ptr \<Rightarrow> okind) \<Rightarrow> ptr \<Rightarrow> bufq \<Rightarrow> kernel \<Rightarrow> bool" where
  "ibq_ok kd idle q k \<longleftrightarrow> bq_kernel kd idle q k \<and> bq_ok (bq_counter q) q \<and>
    (case bq_ptr q of None \<Rightarrow> True
     | Some p \<Rightarrow> 0 < bq_counter q \<and> bq_rdptr q + SIZEOF \<le> p \<and> p < bq_top q \<and>
         bq_top q = bq_rdptr q + SIZEOF + bq_hdr q (bq_rdptr q))"

definition ibq_bytes :: "bufq \<Rightarrow> u8 list" where
  "ibq_bytes q = (case bq_ptr q of None \<Rightarrow> concat (bq_blocks (bq_counter q) q)
     | Some p \<Rightarrow> bq_block p (bq_top q - p) q @ concat (tl (bq_blocks (bq_counter q) q)))"

definition obq_ok :: "(ptr \<Rightarrow> okind) \<Rightarrow> ptr \<Rightarrow> bufq \<Rightarrow> kernel \<Rightarrow> bool" where
  "obq_ok kd idle q k \<longleftrightarrow> bq_kernel kd idle q k \<and> bq_counter q \<le> bq_bn q \<and> bq_ok (bq_bn q - bq_counter q) q \<and>
    (case bq_ptr q of None \<Rightarrow> True
     | Some p \<Rightarrow> 0 < bq_counter q \<and> bq_wrptr q + SIZEOF \<le> p \<and> p < bq_top q \<and>
         bq_top q = bq_wrptr q + bq_bsize q)"

definition obq_bytes :: "bufq \<Rightarrow> u8 list" where
  "obq_bytes q = concat (bq_blocks (bq_bn q - bq_counter q) q) @
    (case bq_ptr q of None \<Rightarrow> [] | Some p \<Rightarrow> bq_block (bq_wrptr q + SIZEOF) (p - (bq_wrptr q + SIZEOF)) q)"

text \<open>A notification that leaves the queue, the clock and the running thread alone.\<close>

definition bcalm :: "(ptr \<Rightarrow> okind) \<Rightarrow> ptr \<Rightarrow> bqnotify \<Rightarrow> bool" where
  "bcalm kd idle nfy \<longleftrightarrow> (\<forall>q k. kinv kd idle {} k \<longrightarrow>
    fst (run_bnotify nfy (q, k)) = q \<and> kinv kd idle {} (snd (run_bnotify nfy (q, k))) \<and>
    current (snd (run_bnotify nfy (q, k))) = current k \<and> stime (snd (run_bnotify nfy (q, k))) = stime k)"

lemma bcalm_None: "bcalm kd idle None"
  by (simp add: bcalm_def run_bnotify_def)

lemma bcalmD:
  assumes "bcalm kd idle nfy" and "kinv kd idle {} k"
  obtains k' where "run_bnotify nfy (q, k) = (q, k')" "kinv kd idle {} k'" "current k' = current k" "stime k' = stime k"
proof (rule that)
  have c: "fst (run_bnotify nfy (q, k)) = q \<and> kinv kd idle {} (snd (run_bnotify nfy (q, k))) \<and>
      current (snd (run_bnotify nfy (q, k))) = current k \<and> stime (snd (run_bnotify nfy (q, k))) = stime k"
    using assms by (simp add: bcalm_def)
  then show "run_bnotify nfy (q, k) = (q, snd (run_bnotify nfy (q, k)))" by (simp add: prod_eq_iff)
qed (use assms in \<open>simp_all add: bcalm_def\<close>)

lemma bq_sleep:
  assumes "bq_kernel kd idle q k" and "current k \<noteq> idle" and "t \<noteq> TIME_IMMEDIATE"
  shows "\<exists>k'. chThdEnqueueTimeoutS (bq_waiting q) t k = (Switched, k') \<and> bq_kernel kd idle q k' \<and> highest k' \<and>
    qs k' (QOBJ (bq_waiting q)) = qs k (QOBJ (bq_waiting q)) @ [current k]"
  using enqueue_timeout_inv [of kd idle k "bq_waiting q" t] assms
  by (intro exI [of _ "snd (chThdEnqueueTimeoutS (bq_waiting q) t k)"]) (simp add: bq_kernel_def prod_eq_iff)

text \<open>What stays the same in every step of a queue.\<close>

definition bq_same :: "bufq \<Rightarrow> bufq \<Rightarrow> bool" where
  "bq_same q q' \<longleftrightarrow> bq_waiting q' = bq_waiting q \<and> bq_suspended q' = bq_suspended q \<and> bq_bn q' = bq_bn q \<and>
    bq_bsize q' = bq_bsize q"

lemma bq_same_refl [simp]: "bq_same q q"
  by (simp add: bq_same_def)

lemma bq_same_trans: "bq_same q q' \<Longrightarrow> bq_same q' q'' \<Longrightarrow> bq_same q q''"
  by (simp add: bq_same_def)

section \<open>Reading\<close>

lemma ibq_release_eq:
  assumes i: "bq_kernel kd idle q k" and ok: "bq_ok (bq_counter q) q" and n: "0 < bq_counter q" and c: "bcalm kd idle nfy"
  shows "\<exists>q' k'. ibqReleaseEmptyBufferS nfy q k = (q', k') \<and> ibq_ok kd idle q' k' \<and>
    ibq_bytes q' = concat (tl (bq_blocks (bq_counter q) q)) \<and> bq_same q q' \<and>
    current k' = current k \<and> stime k' = stime k"
proof -
  let ?q = "(rd_next q)\<lparr>bq_counter := bq_counter q - 1, bq_ptr := None\<rparr>"
  have k: "kinv kd idle {} k" using i by (simp add: bq_kernel_def)
  obtain k' where r: "run_bnotify nfy (?q, k) = (?q, k')" "kinv kd idle {} k'" "current k' = current k" "stime k' = stime k"
    using bcalmD [OF c k] .
  note l = bq_release [OF ok n]
  have "ibqReleaseEmptyBufferS nfy q k = (?q, k')"
    using r(1) by (simp add: ibqReleaseEmptyBufferS_def Let_def)
  moreover have "ibq_ok kd idle ?q k'" using i l(1) r(2) by (simp add: ibq_ok_def bq_kernel_def)
  moreover have "ibq_bytes ?q = concat (tl (bq_blocks (bq_counter q) q))" using l(2) by (simp add: ibq_bytes_def)
  ultimately show ?thesis using r(3,4) by (intro exI [of _ ?q] exI [of _ k']) (simp add: bq_same_def)
qed

lemma ibq_current:
  assumes i: "ibq_ok kd idle q k" and p: "bq_ptr q = Some p"
  shows "bq_blocks (bq_counter q) q \<noteq> []" "bq_top q \<le> length (bq_mem q)" "p < bq_top q" "0 < bq_counter q"
    "ibq_bytes q = bq_block p (bq_top q - p) q @ concat (tl (bq_blocks (bq_counter q) q))"
proof -
  have ok: "bq_ok (bq_counter q) q" and n: "0 < bq_counter q" and lt: "p < bq_top q"
    and t: "bq_top q = bq_rdptr q + SIZEOF + bq_hdr q (bq_rdptr q)"
    using i p by (simp_all add: ibq_ok_def)
  show "bq_blocks (bq_counter q) q \<noteq> []" using bq_release(2) [OF ok n] by simp
  show "bq_top q \<le> length (bq_mem q)"
    using bq_release(4) [OF ok n] bq_ok_slot(1,4) [OF ok] t by linarith
qed (use assms in \<open>simp_all add: ibq_ok_def ibq_bytes_def\<close>)

lemma chunk_size:
  "(if (if r > n then n else r) > 64 then 64 else if r > n then n else r) = min 64 (min n (r :: nat))"
  by auto

lemma ibq_chunk_min:
  "ibq_chunk nfy p n q k =
    (let s = min 64 (min n (bq_top q - p));
         (q', k') = (if bq_top q \<le> p + s then ibqReleaseEmptyBufferS nfy (q\<lparr>bq_ptr := Some (p + s)\<rparr>) k
           else (q\<lparr>bq_ptr := Some (p + s)\<rparr>, k))
     in (take s (drop p (bq_mem q)), q', k'))"
  unfolding ibq_chunk_def Let_def chunk_size by simp

text \<open>A chunk: at least one byte, and the byte a single read takes.\<close>

lemma ibq_chunk_eq:
  assumes i: "ibq_ok kd idle q k" and p: "bq_ptr q = Some p" and c: "bcalm kd idle nfy" and n: "0 < n"
  shows "\<exists>q' k' s. ibq_chunk nfy p n q k = (take s (ibq_bytes q), q', k') \<and> 0 < s \<and> s \<le> n \<and>
    s \<le> length (ibq_bytes q) \<and> ibq_ok kd idle q' k' \<and> ibq_bytes q' = drop s (ibq_bytes q) \<and> bq_same q q' \<and>
    current k' = current k \<and> stime k' = stime k"
proof -
  define s where "s = min 64 (min n (bq_top q - p))"
  note cur = ibq_current [OF i p]
  let ?cur = "bq_block p (bq_top q - p) q" and ?rest = "concat (tl (bq_blocks (bq_counter q) q))"
  have s: "0 < s" "s \<le> n" "s \<le> bq_top q - p" using n cur(3) by (auto simp: s_def)
  have len: "length ?cur = bq_top q - p" using cur(2) by (simp add: bq_block_def)
  have bs: "take s (drop p (bq_mem q)) = take s (ibq_bytes q)"
    using s(3) len by (simp add: cur(5) bq_block_def)
  let ?q = "q\<lparr>bq_ptr := Some (p + s)\<rparr>"
  have un: "ibq_chunk nfy p n q k =
      (let (q', k') = (if p + s \<ge> bq_top q then ibqReleaseEmptyBufferS nfy ?q k else (?q, k))
       in (take s (ibq_bytes q), q', k'))"
    unfolding ibq_chunk_min Let_def s_def [symmetric] bs by simp
  have k: "bq_kernel kd idle ?q k" and ok: "bq_ok (bq_counter ?q) ?q"
    using i by (simp_all add: ibq_ok_def bq_kernel_def)
  show ?thesis
  proof (cases "bq_top q \<le> p + s")
    case True
    then have se: "s = bq_top q - p" using s(3) by linarith
    then have d: "drop s (ibq_bytes q) = ?rest" "s \<le> length (ibq_bytes q)" using len by (simp_all add: cur(5))
    obtain q' k' where r: "ibqReleaseEmptyBufferS nfy ?q k = (q', k')" "ibq_ok kd idle q' k'"
      "ibq_bytes q' = ?rest" "bq_same ?q q'" "current k' = current k" "stime k' = stime k"
      using ibq_release_eq [OF k ok _ c] cur(4) by auto
    then show ?thesis using un True d s by (intro exI [of _ q'] exI [of _ k'] exI [of _ s]) (simp add: bq_same_def)
  next
    case False
    have "drop s ?cur = bq_block (p + s) (bq_top q - (p + s)) q"
      by (simp add: bq_block_def drop_take diff_diff_eq add.commute)
    then have d: "drop s (ibq_bytes q) = ibq_bytes ?q" "s \<le> length (ibq_bytes q)"
      using len s(3) by (simp_all add: p ibq_bytes_def)
    have "ibq_ok kd idle ?q k" using i p False by (simp add: ibq_ok_def bq_kernel_def)
    then show ?thesis using un False d s by (intro exI [of _ ?q] exI [of _ k] exI [of _ s]) (simp add: bq_same_def)
  qed
qed

lemma ibq_take_chunk:
  assumes "bq_ptr q = Some p" and "p < bq_top q" and "bq_top q \<le> length (bq_mem q)"
  shows "ibq_take nfy p q k = (let (bs, q, k) = ibq_chunk nfy p 1 q k in (Ret (ucast (hd bs)), q, k))"
proof -
  have "min 64 (min 1 (bq_top q - p)) = 1" using assms(2) by auto
  moreover have "hd (take 1 (drop p (bq_mem q))) = bq_mem q ! p"
    using assms by (simp add: hd_drop_conv_nth hd_take)
  ultimately show ?thesis unfolding ibq_chunk_min by (simp add: ibq_take_def Let_def split_beta)
qed

lemma ibq_full_eq:
  assumes i: "ibq_ok kd idle q k" and idle: "current k \<noteq> idle" and p: "bq_ptr q = None"
  shows "if ibq_bytes q \<noteq> [] then \<exists>q' p. ibqGetFullBufferTimeoutS t q k = (Ret MSG_OK, q', k) \<and> ibq_ok kd idle q' k \<and>
      bq_ptr q' = Some p \<and> ibq_bytes q' = ibq_bytes q \<and> bq_same q q'
    else if bq_suspended q then ibqGetFullBufferTimeoutS t q k = (Ret MSG_RESET, q, k)
    else if t = TIME_IMMEDIATE then ibqGetFullBufferTimeoutS t q k = (Ret MSG_TIMEOUT, q, k)
    else \<exists>k'. ibqGetFullBufferTimeoutS t q k = (Switched, q, k') \<and> ibq_ok kd idle q k' \<and> highest k' \<and>
      qs k' (QOBJ (bq_waiting q)) = qs k (QOBJ (bq_waiting q)) @ [current k]"
proof -
  have ok: "bq_ok (bq_counter q) q" and kk: "bq_kernel kd idle q k" using i by (simp_all add: ibq_ok_def)
  have bytes: "ibq_bytes q = concat (bq_blocks (bq_counter q) q)" using p by (simp add: ibq_bytes_def)
  show ?thesis
  proof (cases "bq_counter q = 0")
    case True
    then show ?thesis using bytes bq_sleep [OF kk idle, of t] enqueue_immediate i
      by (auto simp: ibqGetFullBufferTimeoutS_def ibqIsEmptyI_def bqSpaceI_def bq_blocks_def ibq_ok_def)
  next
    case False
    then have n: "0 < bq_counter q" by simp
    note l = bq_release [OF ok n]
    let ?h = "bq_hdr q (bq_rdptr q)"
    let ?q = "q\<lparr>bq_ptr := Some (bq_rdptr q + SIZEOF), bq_top := bq_rdptr q + SIZEOF + ?h\<rparr>"
    have "bq_rdptr q + SIZEOF + ?h \<le> length (bq_mem q)"
      using l(4) bq_ok_slot(1,4) [OF ok] by linarith
    then have "bq_block (bq_rdptr q + SIZEOF) ?h q \<noteq> []" using l(3) by (auto simp: bq_block_def)
    then have ne: "ibq_bytes q \<noteq> []" unfolding bytes l(2) by simp
    have "ibqGetFullBufferTimeoutS t q k = (Ret MSG_OK, ?q, k)"
      using False by (simp add: ibqGetFullBufferTimeoutS_def ibqIsEmptyI_def bqSpaceI_def)
    moreover have "ibq_ok kd idle ?q k"
      using i n l(3) by (simp add: ibq_ok_def bq_kernel_def)
    moreover have "ibq_bytes ?q = ibq_bytes q" using l(2) bytes by (simp add: ibq_bytes_def)
    moreover have "bq_same q ?q" by (simp add: bq_same_def)
    moreover have "bq_ptr ?q = Some (bq_rdptr q + SIZEOF)" by simp
    ultimately show ?thesis using ne by metis
  qed
qed

lemma ibqGetTimeout_eq:
  assumes i: "ibq_ok kd idle q k" and c: "bcalm kd idle nfy" and idle: "current k \<noteq> idle"
  shows "if ibq_bytes q \<noteq> [] then \<exists>q' k'. ibqGetTimeout nfy t q k = (Ret (ucast (hd (ibq_bytes q))), q', k') \<and>
      ibq_ok kd idle q' k' \<and> ibq_bytes q' = tl (ibq_bytes q) \<and> bq_same q q' \<and> current k' = current k \<and> stime k' = stime k
    else if bq_suspended q then ibqGetTimeout nfy t q k = (Ret MSG_RESET, q, k)
    else if t = TIME_IMMEDIATE then ibqGetTimeout nfy t q k = (Ret MSG_TIMEOUT, q, k)
    else \<exists>k'. ibqGetTimeout nfy t q k = (Switched, q, k') \<and> ibq_ok kd idle q k' \<and> highest k' \<and>
      qs k' (QOBJ (bq_waiting q)) = qs k (QOBJ (bq_waiting q)) @ [current k]"
proof -
  have take_eq: "\<exists>q'' k''. ibq_take nfy p q' k = (Ret (ucast (hd (ibq_bytes q'))), q'', k'') \<and> ibq_ok kd idle q'' k'' \<and>
      ibq_bytes q'' = tl (ibq_bytes q') \<and> bq_same q' q'' \<and> current k'' = current k \<and> stime k'' = stime k \<and>
      ibq_bytes q' \<noteq> []" if i: "ibq_ok kd idle q' k" and p: "bq_ptr q' = Some p" for q' p
  proof -
    obtain q'' k'' s where ch: "ibq_chunk nfy p 1 q' k = (take s (ibq_bytes q'), q'', k'')" "0 < s" "s \<le> 1"
      "s \<le> length (ibq_bytes q')" "ibq_ok kd idle q'' k''" "ibq_bytes q'' = drop s (ibq_bytes q')" "bq_same q' q''"
      "current k'' = current k" "stime k'' = stime k"
      using ibq_chunk_eq [OF i p c, of 1] by auto
    then have s1: "s = 1" and ne: "ibq_bytes q' \<noteq> []" by auto
    then show ?thesis
      using ch [unfolded s1] ibq_take_chunk [OF p ibq_current(3,2) [OF i p], of nfy k]
      by (cases "ibq_bytes q'") simp_all
  qed
  show ?thesis
  proof (cases "bq_ptr q")
    case (Some p)
    then show ?thesis using take_eq [OF i Some] by (auto simp: ibqGetTimeout_def)
  next
    case None
    note f = ibq_full_eq [OF i idle None, of t]
    show ?thesis
    proof (cases "ibq_bytes q = []")
      case True
      then show ?thesis using f None
        by (auto simp: ibqGetTimeout_def ibq_got_def MSG_RESET_def MSG_TIMEOUT_def MSG_OK_def split: if_splits)
    next
      case False
      then obtain q' p where g: "ibqGetFullBufferTimeoutS t q k = (Ret MSG_OK, q', k)" "ibq_ok kd idle q' k"
        "bq_ptr q' = Some p" "ibq_bytes q' = ibq_bytes q" "bq_same q q'"
        using f by auto
      then show ?thesis using take_eq [OF g(2,3)] None False
        by (auto simp: ibqGetTimeout_def ibq_got_def intro: bq_same_trans)
    qed
  qed
qed

lemma ibqRead_loop_eq:
  assumes "ibq_ok kd idle q k" and "bcalm kd idle nfy" and "current k \<noteq> idle" and "d = stime k + t \<or> t = TIME_INFINITE"
    and "0 < n"
  shows "\<exists>q' k'. ibqRead_loop nfy d t n acc q k =
      Some (read_end (if bq_suspended q then TIME_IMMEDIATE else t) n (ibq_bytes q) acc, q', k') \<and>
    ibq_ok kd idle q' k' \<and> ibq_bytes q' = drop n (ibq_bytes q) \<and> bq_same q q'"
  using assms
proof (induction n arbitrary: acc q k rule: less_induct)
  case (less n)
  note i = less.prems(1) and c = less.prems(2) and idle = less.prems(3)
  have pass: ?case if q1: "ibq_ok kd idle q1 k" "bq_ptr q1 = Some p" "ibq_bytes q1 = ibq_bytes q" "bq_same q q1"
    and un: "ibqRead_loop nfy d t n acc q k = (case ibq_chunk nfy p n q1 k of (bs, q, k) \<Rightarrow>
      if n \<le> length bs then Some (Done (acc @ bs), q, k)
      else ibqRead_loop nfy d t (n - length bs) (acc @ bs) q k)" for q1 p
  proof -
    obtain q' k' s where ch: "ibq_chunk nfy p n q1 k = (take s (ibq_bytes q), q', k')" "0 < s" "s \<le> n"
      "s \<le> length (ibq_bytes q)" "ibq_ok kd idle q' k'" "ibq_bytes q' = drop s (ibq_bytes q)" "bq_same q1 q'"
      "current k' = current k" "stime k' = stime k"
      using ibq_chunk_eq [OF q1(1,2) c less.prems(5)] q1(3) by auto
    show ?case
    proof (cases "s = n")
      case True
      then show ?thesis using un ch q1(4) by (auto simp: read_end_def intro: bq_same_trans)
    next
      case False
      then have lt: "n - s < n" "0 < n - s" using ch by auto
      have "\<exists>q'' k''. ibqRead_loop nfy d t (n - s) (acc @ take s (ibq_bytes q)) q' k' =
          Some (read_end (if bq_suspended q' then TIME_IMMEDIATE else t) (n - s) (ibq_bytes q') (acc @ take s (ibq_bytes q)), q'', k'') \<and>
        ibq_ok kd idle q'' k'' \<and> ibq_bytes q'' = drop (n - s) (ibq_bytes q') \<and> bq_same q' q''"
        using less.IH [OF lt(1) ch(5) c _ _ lt(2)] less.prems(3,4) ch(8,9) by simp
      moreover have "read_end T (n - s) (drop s bs) (acc @ take s bs) = read_end T n bs acc" if "s \<le> length bs" for T bs
      proof -
        have "take s bs @ take (n - s) (drop s bs) = take n bs" using take_add [of s "n - s" bs] lt by simp
        then show ?thesis using that lt by (auto simp: read_end_def)
      qed
      moreover have "bq_suspended q' = bq_suspended q" using ch(7) q1(4) by (simp add: bq_same_def)
      ultimately show ?thesis using un ch False q1(4) by (auto simp: bq_same_def)
    qed
  qed
  show ?case
  proof (cases "bq_ptr q")
    case (Some p)
    then show ?thesis using pass [OF i Some] by (simp add: ibqRead_loop.simps)
  next
    case None
    note f = ibq_full_eq [OF i idle None, of t] and ns = next_sleep_fresh [OF less.prems(4)]
    show ?thesis
    proof (cases "ibq_bytes q = []")
      case True
      then show ?thesis using f None ns less.prems(5) i
        by (auto simp: ibqRead_loop.simps read_end_def MSG_RESET_def MSG_TIMEOUT_def MSG_OK_def split: if_splits)
    next
      case False
      then obtain q' p where g: "ibqGetFullBufferTimeoutS t q k = (Ret MSG_OK, q', k)" "ibq_ok kd idle q' k"
        "bq_ptr q' = Some p" "ibq_bytes q' = ibq_bytes q" "bq_same q q'"
        using f by auto
      then show ?thesis using pass [OF g(2-5)] None ns by (simp add: ibqRead_loop.simps)
    qed
  qed
qed

text \<open>What is left of the current buffer is a suffix of the oldest block.\<close>

lemma ibq_bytes_alt:
  assumes ok: "bq_ok (bq_counter q) q" and n: "0 < bq_counter q" and p: "bq_ptr q = Some p"
    and lo: "bq_rdptr q + SIZEOF \<le> p" and lt: "p < bq_top q" and t: "bq_top q = bq_rdptr q + SIZEOF + bq_hdr q (bq_rdptr q)"
  shows "ibq_bytes q = drop (p - (bq_rdptr q + SIZEOF)) (concat (bq_blocks (bq_counter q) q))"
    and "p - (bq_rdptr q + SIZEOF) < length (concat (bq_blocks (bq_counter q) q))"
proof -
  let ?a = "bq_rdptr q + SIZEOF" and ?h = "bq_hdr q (bq_rdptr q)"
  note l = bq_release [OF ok n]
  have le: "?a + ?h \<le> length (bq_mem q)" using l(4) bq_ok_slot(1,4) [OF ok] by linarith
  have len: "length (bq_block ?a ?h q) = ?h" using le by (simp add: bq_block_def)
  have d: "p - ?a < ?h" using lo lt t by linarith
  have "bq_block p (bq_top q - p) q = drop (p - ?a) (bq_block ?a ?h q)"
    using lo lt t by (simp add: bq_block_def drop_take add.commute add.left_commute)
  then show "ibq_bytes q = drop (p - ?a) (concat (bq_blocks (bq_counter q) q))"
    unfolding l(2) using len d p by (simp add: ibq_bytes_def l(2))
  show "p - ?a < length (concat (bq_blocks (bq_counter q) q))" unfolding l(2) using len d by simp
qed

lemma ibqIsFullI_eq: "bq_ok (bq_counter q) q \<Longrightarrow> ibqIsFullI q \<longleftrightarrow> bq_counter q = bq_bn q"
proof -
  assume ok: "bq_ok (bq_counter q) q"
  have "bq_wrptr q = bq_rdptr q \<longleftrightarrow> bq_wrptr q div bq_bsize q = bq_rdptr q div bq_bsize q"
    using ok unfolding bq_ok_def by metis
  then show ?thesis
    using ok ring_ok_full [of "bq_bn q" "bq_slots q" "bq_rdptr q div bq_bsize q" "bq_wrptr q div bq_bsize q" "bq_counter q"]
      bq_ok_slot(5) [OF ok] by (auto simp: ibqIsFullI_def bq_ok_def)
qed

text \<open>The driver fills the empty buffer at \<open>p\<close> and posts it.\<close>

definition ibq_fill_post :: "nat \<Rightarrow> u8 list \<Rightarrow> bufq \<Rightarrow> kernel \<Rightarrow> bufq \<times> kernel" where
  "ibq_fill_post p bs q k = ibqPostFullBufferI (length bs) (q\<lparr>bq_mem := put_bytes p bs (bq_mem q)\<rparr>) k"

lemma put_bytes_take:
  assumes "a \<le> p" and "p + length bs \<le> length m"
  shows "take (p - a + length bs) (drop a (put_bytes p bs m)) = take (p - a) (drop a m) @ bs"
  by (rule nth_equalityI) (use put_bytes_nth [OF assms(2)] assms in \<open>auto simp: nth_append add.commute\<close>)

lemma ibq_post_eq:
  assumes i: "ibq_ok kd idle q k" and e: "ibqGetEmptyBufferI q = Some p" and bs: "bs \<noteq> []" "length bs \<le> bq_bsize q - SIZEOF"
  defines "k' \<equiv> chThdDequeueNextI (bq_waiting q) MSG_OK k"
  shows "\<exists>q'. ibq_fill_post p bs q k = (q', k') \<and> ibq_ok kd idle q' k' \<and> ibq_bytes q' = ibq_bytes q @ bs \<and> bq_same q q' \<and>
    qs k' (QOBJ (bq_waiting q)) = tl (qs k (QOBJ (bq_waiting q)))"
proof -
  have ok: "bq_ok (bq_counter q) q" and kk: "bq_kernel kd idle q k" using i by (simp_all add: ibq_ok_def)
  have n: "bq_counter q < bq_bn q" and p: "p = bq_wrptr q + SIZEOF"
    using e ibqIsFullI_eq [OF ok] bq_ok_slot(3) [OF ok] by (auto simp: ibqGetEmptyBufferI_def split: if_splits)
  let ?q1 = "q\<lparr>bq_mem := put_bytes p bs (bq_mem q)\<rparr>"
  let ?q' = "(wr_next (?q1\<lparr>bq_hdr := (bq_hdr q)(bq_wrptr q := length bs)\<rparr>))\<lparr>bq_counter := bq_counter q + 1\<rparr>"
  have le: "p + length bs \<le> bq_wrptr q + bq_bsize q" using p bs(2) bq_ok_slot(4) [OF ok] by linarith
  have st: "bq_ok (bq_counter q) ?q1 \<and> bq_blocks (bq_counter q) ?q1 = bq_blocks (bq_counter q) q"
    using bq_store [OF ok n _ le] p by simp
  have po: "bq_ok (Suc (bq_counter q)) ?q' \<and> bq_blocks (Suc (bq_counter q)) ?q' = bq_blocks (bq_counter q) q @ [bs]"
  proof -
    have "bq_block (bq_wrptr q + SIZEOF) (length bs) ?q1 = bs"
      using put_bytes_take [of p p bs "bq_mem q"] le bq_ok_slot(2) [OF ok] p by (simp add: bq_block_def)
    then show ?thesis using bq_post [of "bq_counter q" ?q1 "length bs"] st n bs by simp
  qed
  have k': "bq_kernel kd idle ?q' k' \<and> qs k' (QOBJ (bq_waiting q)) = tl (qs k (QOBJ (bq_waiting q)))"
    using dequeue_next_any [of kd idle k "bq_waiting q" MSG_OK] kk by (simp add: bq_kernel_def k'_def)
  have eq: "ibq_fill_post p bs q k = (?q', k')"
    by (simp add: ibq_fill_post_def ibqPostFullBufferI_def Let_def k'_def wr_next_eq)
  have same: "bq_same q ?q'" by (simp add: bq_same_def)
  have "ibq_ok kd idle ?q' k' \<and> ibq_bytes ?q' = ibq_bytes q @ bs"
  proof (cases "bq_ptr q")
    case None
    then show ?thesis using po k' by (simp add: ibq_ok_def ibq_bytes_def)
  next
    case (Some r)
    have i': "0 < bq_counter q" "bq_rdptr q + SIZEOF \<le> r" "r < bq_top q" "bq_top q = bq_rdptr q + SIZEOF + bq_hdr q (bq_rdptr q)"
      using i Some by (simp_all add: ibq_ok_def)
    have "bq_wrptr q \<noteq> bq_rdptr q"
      using ibqIsFullI_eq [OF ok] i'(1) n by (simp add: ibqIsFullI_def)
    then have q': "bq_rdptr ?q' = bq_rdptr q" "bq_hdr ?q' (bq_rdptr q) = bq_hdr q (bq_rdptr q)" "bq_top ?q' = bq_top q"
      "bq_ptr ?q' = Some r" "bq_counter ?q' = Suc (bq_counter q)"
      using Some by (simp_all add: wr_next_eq)
    have ok': "ibq_ok kd idle ?q' k'" using po k' q' i' unfolding ibq_ok_def by simp
    have "ibq_bytes ?q' = drop (r - (bq_rdptr q + SIZEOF)) (concat (bq_blocks (Suc (bq_counter q)) ?q'))"
      using ibq_bytes_alt(1) [of ?q' r] po i' q' by simp
    then show ?thesis using ok' po ibq_bytes_alt [OF ok i'(1) Some i'(2-4)] by simp
  qed
  then show ?thesis using eq same k' by (intro exI [of _ ?q']) simp
qed

section \<open>Writing\<close>

text \<open>How many bytes can be written before a writer has to sleep.\<close>

definition obq_room :: "bufq \<Rightarrow> nat" where
  "obq_room q = bq_counter q * (bq_bsize q - SIZEOF) -
    (case bq_ptr q of None \<Rightarrow> 0 | Some p \<Rightarrow> p - (bq_wrptr q + SIZEOF))"

lemma obq_post_eq:
  assumes i: "bq_kernel kd idle q k" and ok: "bq_ok (bq_bn q - bq_counter q) q" and n: "0 < bq_counter q" "bq_counter q \<le> bq_bn q"
    and sz: "0 < sz" "sz \<le> bq_bsize q - SIZEOF" and c: "bcalm kd idle nfy"
  shows "\<exists>q' k'. obqPostFullBufferS nfy sz q k = (q', k') \<and> obq_ok kd idle q' k' \<and> bq_ptr q' = None \<and>
    bq_counter q' = bq_counter q - 1 \<and>
    obq_bytes q' = concat (bq_blocks (bq_bn q - bq_counter q) q) @ bq_block (bq_wrptr q + SIZEOF) sz q \<and> bq_same q q' \<and>
    current k' = current k \<and> stime k' = stime k"
proof -
  let ?q = "(wr_next (q\<lparr>bq_hdr := (bq_hdr q)(bq_wrptr q := sz)\<rparr>))\<lparr>bq_counter := bq_counter q - 1, bq_ptr := None\<rparr>"
  have k: "kinv kd idle {} k" using i by (simp add: bq_kernel_def)
  obtain k' where r: "run_bnotify nfy (?q, k) = (?q, k')" "kinv kd idle {} k'" "current k' = current k" "stime k' = stime k"
    using bcalmD [OF c k] .
  have lt: "bq_bn q - bq_counter q < bq_bn q" and m: "bq_bn q - (bq_counter q - 1) = Suc (bq_bn q - bq_counter q)"
    using n by auto
  note l = bq_post [OF ok lt sz]
  have "obqPostFullBufferS nfy sz q k = (?q, k')"
    using r(1) by (simp add: obqPostFullBufferS_def Let_def)
  moreover have "obq_ok kd idle ?q k'"
    using i conjunct1 [OF l] r(2) n m by (simp add: obq_ok_def bq_kernel_def)
  moreover have "obq_bytes ?q = concat (bq_blocks (bq_bn q - bq_counter q) q) @ bq_block (bq_wrptr q + SIZEOF) sz q"
    using l m by (simp add: obq_bytes_def)
  ultimately show ?thesis using r(3,4) by (intro exI [of _ ?q] exI [of _ k']) (simp add: bq_same_def)
qed

lemma obq_chunk_min:
  "obq_chunk nfy p bs q k =
    (let s = min 64 (min (length bs) (bq_top q - p));
         q' = q\<lparr>bq_mem := put_bytes p (take s bs) (bq_mem q), bq_ptr := Some (p + s)\<rparr>;
         (q', k') = (if bq_top q \<le> p + s then obqPostFullBufferS nfy (bq_bsize q - SIZEOF) q' k else (q', k))
     in (s, q', k'))"
  unfolding obq_chunk_def Let_def chunk_size by simp

lemma obq_fill_chunk:
  assumes "p < bq_top q"
  shows "obq_fill nfy p b q k = (let (s, q, k) = obq_chunk nfy p [b] q k in (Ret MSG_OK, q, k))"
proof -
  have "min 64 (min (length [b]) (bq_top q - p)) = 1" using assms by auto
  then show ?thesis unfolding obq_chunk_min by (simp add: obq_fill_def Let_def split_beta)
qed

lemma obq_chunk_eq:
  assumes i: "obq_ok kd idle q k" and p: "bq_ptr q = Some p" and c: "bcalm kd idle nfy" and bs: "bs \<noteq> []"
  shows "\<exists>q' k' s. obq_chunk nfy p bs q k = (s, q', k') \<and> 0 < s \<and> s \<le> length bs \<and> s \<le> obq_room q \<and>
    obq_ok kd idle q' k' \<and> obq_bytes q' = obq_bytes q @ take s bs \<and> obq_room q' = obq_room q - s \<and> bq_same q q' \<and>
    current k' = current k \<and> stime k' = stime k"
proof -
  define s where "s = min 64 (min (length bs) (bq_top q - p))"
  let ?n = "bq_bn q - bq_counter q" and ?a = "bq_wrptr q + SIZEOF" and ?S = "bq_bsize q - SIZEOF"
  have ok: "bq_ok ?n q" and kk: "bq_kernel kd idle q k" and c0: "0 < bq_counter q" "bq_counter q \<le> bq_bn q"
    and lo: "?a \<le> p" and lt: "p < bq_top q" and t: "bq_top q = bq_wrptr q + bq_bsize q"
    using i p by (simp_all add: obq_ok_def)
  have s: "0 < s" "s \<le> length bs" "s \<le> bq_top q - p" using lt bs by (auto simp: s_def)
  let ?q1 = "q\<lparr>bq_mem := put_bytes p (take s bs) (bq_mem q)\<rparr>"
  let ?q2 = "?q1\<lparr>bq_ptr := Some (p + s)\<rparr>"
  have le: "p + length (take s bs) \<le> bq_wrptr q + bq_bsize q" using s t lt by simp
  have n: "?n < bq_bn q" using c0 by simp
  have st: "bq_ok ?n ?q1 \<and> bq_blocks ?n ?q1 = bq_blocks ?n q" using bq_store [OF ok n _ le] lo by simp
  have blk: "bq_block ?a (p + s - ?a) ?q2 = bq_block ?a (p - ?a) q @ take s bs"
    using put_bytes_take [OF lo, of "take s bs" "bq_mem q"] le bq_ok_slot(2) [OF ok] lo s(2)
    by (simp add: bq_block_def)
  have bytes: "obq_bytes q @ take s bs = concat (bq_blocks ?n ?q2) @ bq_block ?a (p + s - ?a) ?q2"
    using st blk p by (simp add: obq_bytes_def)
  have room: "obq_room q = (bq_counter q - 1) * ?S + (bq_top q - p)"
    using p c0 lo t lt bq_ok_slot(4) [OF ok] by (cases "bq_counter q") (auto simp: obq_room_def)
  have sr: "s \<le> obq_room q" using s(3) by (simp add: room)
  have un: "obq_chunk nfy p bs q k =
      (let (q', k') = (if bq_top q \<le> p + s then obqPostFullBufferS nfy ?S ?q2 k else (?q2, k)) in (s, q', k'))"
    unfolding obq_chunk_min Let_def s_def [symmetric] by simp
  show ?thesis
  proof (cases "bq_top q \<le> p + s")
    case True
    then have se: "p + s - ?a = ?S" "s = bq_top q - p" using s(3) t lo lt by auto
    have k2: "bq_kernel kd idle ?q2 k" "bq_ok (bq_bn ?q2 - bq_counter ?q2) ?q2" using kk st by (simp_all add: bq_kernel_def)
    obtain q' k' where r: "obqPostFullBufferS nfy ?S ?q2 k = (q', k')" "obq_ok kd idle q' k'" "bq_ptr q' = None"
      "bq_counter q' = bq_counter q - 1" "obq_bytes q' = concat (bq_blocks ?n ?q2) @ bq_block ?a ?S ?q2" "bq_same ?q2 q'"
      "current k' = current k" "stime k' = stime k"
      using obq_post_eq [OF k2 _ _ _ _ c, of ?S] c0 bq_ok_slot(4) [OF ok] by auto
    have "obq_bytes q' = obq_bytes q @ take s bs" by (simp only: r(5) bytes se(1))
    moreover have "obq_room q' = obq_room q - s" using r(3,4,6) room se(2) by (simp add: obq_room_def bq_same_def)
    ultimately show ?thesis using un True r s sr by (intro exI [of _ q'] exI [of _ k'] exI [of _ s]) (simp add: bq_same_def)
  next
    case False
    have "obq_ok kd idle ?q2 k" using kk st c0 lo t False by (simp add: obq_ok_def bq_kernel_def)
    moreover have "obq_bytes ?q2 = obq_bytes q @ take s bs" using bytes by (simp add: obq_bytes_def)
    moreover have "obq_room ?q2 = obq_room q - s" using p lo by (simp add: obq_room_def)
    ultimately show ?thesis using un False s sr by (intro exI [of _ ?q2] exI [of _ k] exI [of _ s]) (simp add: bq_same_def)
  qed
qed

lemma obq_room_None: "bq_ptr q = None \<Longrightarrow> obq_room q = bq_counter q * (bq_bsize q - SIZEOF)"
  by (simp add: obq_room_def)

lemma obq_room_pos: "obq_ok kd idle q k \<Longrightarrow> bq_ptr q = Some p \<Longrightarrow> 0 < obq_room q"
proof -
  assume i: "obq_ok kd idle q k" and p: "bq_ptr q = Some p"
  then have "p - (bq_wrptr q + SIZEOF) < bq_bsize q - SIZEOF" and "0 < bq_counter q" by (auto simp: obq_ok_def)
  then show ?thesis using p by (cases "bq_counter q") (auto simp: obq_room_def)
qed

lemma obq_empty_eq:
  assumes i: "obq_ok kd idle q k" and idle: "current k \<noteq> idle" and p: "bq_ptr q = None"
  shows "if 0 < obq_room q then \<exists>q' p. obqGetEmptyBufferTimeoutS t q k = (Ret MSG_OK, q', k) \<and> obq_ok kd idle q' k \<and>
      bq_ptr q' = Some p \<and> obq_bytes q' = obq_bytes q \<and> obq_room q' = obq_room q \<and> bq_same q q'
    else if bq_suspended q then obqGetEmptyBufferTimeoutS t q k = (Ret MSG_RESET, q, k)
    else if t = TIME_IMMEDIATE then obqGetEmptyBufferTimeoutS t q k = (Ret MSG_TIMEOUT, q, k)
    else \<exists>k'. obqGetEmptyBufferTimeoutS t q k = (Switched, q, k') \<and> obq_ok kd idle q k' \<and> highest k' \<and>
      qs k' (QOBJ (bq_waiting q)) = qs k (QOBJ (bq_waiting q)) @ [current k]"
proof -
  have ok: "bq_ok (bq_bn q - bq_counter q) q" and kk: "bq_kernel kd idle q k" using i by (simp_all add: obq_ok_def)
  have B: "SIZEOF < bq_bsize q" using bq_ok_slot(4) [OF ok] .
  show ?thesis
  proof (cases "bq_counter q = 0")
    case True
    then show ?thesis using obq_room_None [OF p] bq_sleep [OF kk idle, of t] enqueue_immediate i
      by (auto simp: obqGetEmptyBufferTimeoutS_def obqIsFullI_def bqSpaceI_def obq_ok_def)
  next
    case False
    let ?q = "q\<lparr>bq_ptr := Some (bq_wrptr q + SIZEOF), bq_top := bq_wrptr q + bq_bsize q\<rparr>"
    have "obqGetEmptyBufferTimeoutS t q k = (Ret MSG_OK, ?q, k)"
      using False by (simp add: obqGetEmptyBufferTimeoutS_def obqIsFullI_def bqSpaceI_def)
    moreover have "obq_ok kd idle ?q k" using i B False by (simp add: obq_ok_def bq_kernel_def)
    moreover have "obq_bytes ?q = obq_bytes q" using p by (simp add: obq_bytes_def bq_block_def)
    moreover have "obq_room ?q = obq_room q" using p by (simp add: obq_room_def)
    moreover have "bq_same q ?q" by (simp add: bq_same_def)
    moreover have "bq_ptr ?q = Some (bq_wrptr q + SIZEOF)" by simp
    moreover have "0 < obq_room q" using False B obq_room_None [OF p] by simp
    ultimately show ?thesis by metis
  qed
qed

lemma obqPutTimeout_eq:
  assumes i: "obq_ok kd idle q k" and c: "bcalm kd idle nfy" and idle: "current k \<noteq> idle"
  shows "if 0 < obq_room q then \<exists>q' k'. obqPutTimeout nfy b t q k = (Ret MSG_OK, q', k') \<and>
      obq_ok kd idle q' k' \<and> obq_bytes q' = obq_bytes q @ [b] \<and> obq_room q' = obq_room q - 1 \<and> bq_same q q' \<and>
      current k' = current k \<and> stime k' = stime k
    else if bq_suspended q then obqPutTimeout nfy b t q k = (Ret MSG_RESET, q, k)
    else if t = TIME_IMMEDIATE then obqPutTimeout nfy b t q k = (Ret MSG_TIMEOUT, q, k)
    else \<exists>k'. obqPutTimeout nfy b t q k = (Switched, q, k') \<and> obq_ok kd idle q k' \<and> highest k' \<and>
      qs k' (QOBJ (bq_waiting q)) = qs k (QOBJ (bq_waiting q)) @ [current k]"
proof -
  have fill: "\<exists>q'' k''. obq_fill nfy p b q' k = (Ret MSG_OK, q'', k'') \<and> obq_ok kd idle q'' k'' \<and>
      obq_bytes q'' = obq_bytes q' @ [b] \<and> obq_room q'' = obq_room q' - 1 \<and> bq_same q' q'' \<and>
      current k'' = current k \<and> stime k'' = stime k" if i: "obq_ok kd idle q' k" and p: "bq_ptr q' = Some p" for q' p
  proof -
    have lt: "p < bq_top q'" using i p by (simp add: obq_ok_def)
    obtain q'' k'' s where ch: "obq_chunk nfy p [b] q' k = (s, q'', k'')" "0 < s" "s \<le> 1"
      "obq_ok kd idle q'' k''" "obq_bytes q'' = obq_bytes q' @ take s [b]" "obq_room q'' = obq_room q' - s" "bq_same q' q''"
      "current k'' = current k" "stime k'' = stime k"
      using obq_chunk_eq [OF i p c, of "[b]"] by auto
    then have s1: "s = 1" by auto
    show ?thesis using ch [unfolded s1] obq_fill_chunk [OF lt, of nfy b k] by simp
  qed
  show ?thesis
  proof (cases "bq_ptr q")
    case (Some p)
    then show ?thesis using fill [OF i Some] obq_room_pos [OF i Some] by (auto simp: obqPutTimeout_def)
  next
    case None
    note f = obq_empty_eq [OF i idle None, of t]
    show ?thesis
    proof (cases "obq_room q = 0")
      case True
      then show ?thesis using f None
        by (auto simp: obqPutTimeout_def obq_got_def MSG_RESET_def MSG_TIMEOUT_def MSG_OK_def split: if_splits)
    next
      case False
      then obtain q' p where g: "obqGetEmptyBufferTimeoutS t q k = (Ret MSG_OK, q', k)" "obq_ok kd idle q' k"
        "bq_ptr q' = Some p" "obq_bytes q' = obq_bytes q" "obq_room q' = obq_room q" "bq_same q q'"
        using f by auto
      then show ?thesis using fill [OF g(2,3)] None False
        by (auto simp: obqPutTimeout_def obq_got_def bq_same_def)
    qed
  qed
qed

lemma obqWrite_loop_eq:
  assumes "obq_ok kd idle q k" and "bcalm kd idle nfy" and "current k \<noteq> idle" and "d = stime k + t \<or> t = TIME_INFINITE"
    and "bs \<noteq> []"
  shows "\<exists>q' k'. obqWrite_loop nfy d t bs w q k =
      Some (write_end (if bq_suspended q then TIME_IMMEDIATE else t) (length bs) (obq_room q) w, q', k') \<and>
    obq_ok kd idle q' k' \<and> obq_bytes q' = obq_bytes q @ take (obq_room q) bs \<and> bq_same q q'"
  using assms
proof (induction "length bs" arbitrary: bs w q k rule: less_induct)
  case less
  note i = less.prems(1) and c = less.prems(2) and idle = less.prems(3)
  have pass: ?case if q1: "obq_ok kd idle q1 k" "bq_ptr q1 = Some p" "obq_bytes q1 = obq_bytes q" "obq_room q1 = obq_room q"
      "bq_same q q1"
    and un: "obqWrite_loop nfy d t bs w q k = (case obq_chunk nfy p bs q1 k of (sz, q, k) \<Rightarrow>
      if length bs \<le> sz then Some (Done (w + sz), q, k)
      else obqWrite_loop nfy d t (drop sz bs) (w + sz) q k)" for q1 p
  proof -
    obtain q' k' s where ch: "obq_chunk nfy p bs q1 k = (s, q', k')" "0 < s" "s \<le> length bs"
      "s \<le> obq_room q" "obq_ok kd idle q' k'" "obq_bytes q' = obq_bytes q @ take s bs" "obq_room q' = obq_room q - s"
      "bq_same q1 q'" "current k' = current k" "stime k' = stime k"
      using obq_chunk_eq [OF q1(1,2) c less.prems(5)] q1(3,4) by auto
    show ?case
    proof (cases "s = length bs")
      case True
      then show ?thesis using un ch q1(5) by (auto simp: write_end_def bq_same_def)
    next
      case False
      then have lt: "length (drop s bs) < length bs" "drop s bs \<noteq> []" using ch by auto
      have "\<exists>q'' k''. obqWrite_loop nfy d t (drop s bs) (w + s) q' k' =
          Some (write_end (if bq_suspended q' then TIME_IMMEDIATE else t) (length (drop s bs)) (obq_room q') (w + s), q'', k'') \<and>
        obq_ok kd idle q'' k'' \<and> obq_bytes q'' = obq_bytes q' @ take (obq_room q') (drop s bs) \<and> bq_same q' q''"
        using less.hyps [OF lt(1) ch(5) c _ _ lt(2)] less.prems(3,4) ch(9,10) by simp
      moreover have "write_end T (length (drop s bs)) (obq_room q') (w + s) = write_end T (length bs) (obq_room q) w" for T
        using ch(3,4) lt by (auto simp: write_end_def ch(7))
      moreover have "take s bs @ take (obq_room q') (drop s bs) = take (obq_room q) bs"
        using take_add [of s "obq_room q - s" bs] ch(4) by (simp add: ch(7))
      moreover have "bq_suspended q' = bq_suspended q" using ch(8) q1(5) by (simp add: bq_same_def)
      ultimately show ?thesis using un ch(1,3,6,8) False q1(5) by (auto simp: bq_same_def)
    qed
  qed
  show ?case
  proof (cases "bq_ptr q")
    case (Some p)
    then show ?thesis using pass [OF i Some] by (simp add: obqWrite_loop.simps)
  next
    case None
    note f = obq_empty_eq [OF i idle None, of t] and ns = next_sleep_fresh [OF less.prems(4)]
    show ?thesis
    proof (cases "obq_room q = 0")
      case True
      then show ?thesis using f None ns less.prems(5) i
        by (auto simp: obqWrite_loop.simps write_end_def MSG_RESET_def MSG_TIMEOUT_def MSG_OK_def split: if_splits)
    next
      case False
      then obtain q' p where g: "obqGetEmptyBufferTimeoutS t q k = (Ret MSG_OK, q', k)" "obq_ok kd idle q' k"
        "bq_ptr q' = Some p" "obq_bytes q' = obq_bytes q" "obq_room q' = obq_room q" "bq_same q q'"
        using f by auto
      then show ?thesis using pass [OF g(2-6)] None ns by (simp add: obqWrite_loop.simps)
    qed
  qed
qed

text \<open>The driver takes the oldest posted block and gives its buffer back.\<close>

lemma obqIsEmptyI_eq:
  assumes ok: "bq_ok (bq_bn q - bq_counter q) q" and le: "bq_counter q \<le> bq_bn q"
  shows "obqIsEmptyI q \<longleftrightarrow> bq_counter q = bq_bn q"
proof -
  have "bq_wrptr q = bq_rdptr q \<longleftrightarrow> bq_wrptr q div bq_bsize q = bq_rdptr q div bq_bsize q"
    using ok unfolding bq_ok_def by metis
  moreover have "ring_ok (bq_bn q) (bq_slots q) (bq_rdptr q div bq_bsize q) (bq_wrptr q div bq_bsize q) (bq_bn q - bq_counter q)"
    using ok unfolding bq_ok_def by blast
  ultimately have "bq_wrptr q = bq_rdptr q \<longleftrightarrow> bq_bn q - bq_counter q = 0 \<or> bq_bn q - bq_counter q = bq_bn q"
    using ring_ok_full by blast
  moreover have "bq_bn q - bq_counter q = 0 \<longleftrightarrow> bq_counter q = bq_bn q" "bq_bn q - bq_counter q = bq_bn q \<longleftrightarrow> bq_counter q = 0"
    "bq_counter q = bq_bn q \<Longrightarrow> bq_counter q \<noteq> 0"
    using bq_ok_slot(5) [OF ok] le by linarith+
  ultimately show ?thesis unfolding obqIsEmptyI_def by argo
qed

lemma obq_drain_eq:
  assumes i: "obq_ok kd idle q k"
  defines "k' \<equiv> chThdDequeueNextI (bq_waiting q) MSG_OK k"
  shows "if bq_counter q = bq_bn q then obqGetFullBufferI q = None
    else \<exists>p n q'. obqGetFullBufferI q = Some (p, n) \<and> obqReleaseEmptyBufferI q k = (q', k') \<and> 0 < n \<and> n \<le> bq_bsize q - SIZEOF \<and>
      obq_ok kd idle q' k' \<and> obq_bytes q = bq_block p n q @ obq_bytes q' \<and> length (bq_block p n q) = n \<and>
      bq_counter q' = bq_counter q + 1 \<and> bq_same q q' \<and> qs k' (QOBJ (bq_waiting q)) = tl (qs k (QOBJ (bq_waiting q)))"
proof (cases "bq_counter q = bq_bn q")
  case True
  then show ?thesis using i obqIsEmptyI_eq [of q] by (simp add: obqGetFullBufferI_def obq_ok_def)
next
  case False
  let ?n = "bq_bn q - bq_counter q" and ?h = "bq_hdr q (bq_rdptr q)"
  have ok: "bq_ok ?n q" and kk: "bq_kernel kd idle q k" and le: "bq_counter q \<le> bq_bn q" using i by (simp_all add: obq_ok_def)
  have pos: "0 < ?n" and m: "bq_bn q - (bq_counter q + 1) = ?n - 1" "bq_counter q + 1 \<le> bq_bn q" using False le by auto
  note l = bq_release [OF ok pos]
  let ?q = "(rd_next q)\<lparr>bq_counter := bq_counter q + 1\<rparr>"
  have k': "bq_kernel kd idle ?q k' \<and> qs k' (QOBJ (bq_waiting q)) = tl (qs k (QOBJ (bq_waiting q)))"
    using dequeue_next_any [of kd idle k "bq_waiting q" MSG_OK] kk by (simp add: bq_kernel_def k'_def)
  have g: "obqGetFullBufferI q = Some (bq_rdptr q + SIZEOF, ?h)"
    using False obqIsEmptyI_eq [OF ok le] by (simp add: obqGetFullBufferI_def)
  have r: "obqReleaseEmptyBufferI q k = (?q, k')" by (simp add: obqReleaseEmptyBufferI_def Let_def k'_def)
  have same: "bq_wrptr ?q = bq_wrptr q" "bq_mem ?q = bq_mem q" "bq_top ?q = bq_top q" by (simp_all add: rd_next_eq)
  have ok': "obq_ok kd idle ?q k'"
    using i k' l(1) m same unfolding obq_ok_def by (auto split: option.splits)
  have bytes: "obq_bytes q = bq_block (bq_rdptr q + SIZEOF) ?h q @ obq_bytes ?q"
    using l(2) m same by (simp add: obq_bytes_def bq_block_def split: option.splits)
  have len: "length (bq_block (bq_rdptr q + SIZEOF) ?h q) = ?h"
    using l(4) bq_ok_slot(1,4) [OF ok] by (simp add: bq_block_def)
  have "bq_same q ?q" "bq_counter ?q = bq_counter q + 1" by (simp_all add: bq_same_def)
  then have "obqGetFullBufferI q = Some (bq_rdptr q + SIZEOF, ?h) \<and> obqReleaseEmptyBufferI q k = (?q, k') \<and> 0 < ?h \<and>
      ?h \<le> bq_bsize q - SIZEOF \<and> obq_ok kd idle ?q k' \<and>
      obq_bytes q = bq_block (bq_rdptr q + SIZEOF) ?h q @ obq_bytes ?q \<and> length (bq_block (bq_rdptr q + SIZEOF) ?h q) = ?h \<and>
      bq_counter ?q = bq_counter q + 1 \<and> bq_same q ?q \<and> qs k' (QOBJ (bq_waiting q)) = tl (qs k (QOBJ (bq_waiting q)))"
    using g r l(3,4) ok' bytes len conjunct2 [OF k'] by (intro conjI)
  then show ?thesis unfolding if_not_P [OF False] by blast
qed

text \<open>Flushing posts what the current buffer holds.\<close>

lemma obqFlush_eq:
  assumes i: "obq_ok kd idle q k" and c: "bcalm kd idle nfy"
  shows "\<exists>q' k'. obqFlush nfy q k = (q', k') \<and> obq_ok kd idle q' k' \<and> obq_bytes q' = obq_bytes q \<and>
    concat (bq_blocks (bq_bn q' - bq_counter q') q') = obq_bytes q \<and> bq_same q q'"
proof (cases "bq_ptr q")
  case None
  then show ?thesis using i by (simp add: obqFlush_def obq_bytes_def)
next
  case (Some p)
  have lo: "bq_wrptr q + SIZEOF \<le> p" "p < bq_wrptr q + bq_bsize q" and n: "0 < bq_counter q" "bq_counter q \<le> bq_bn q"
    and kk: "bq_kernel kd idle q k" and ok: "bq_ok (bq_bn q - bq_counter q) q"
    using i Some by (simp_all add: obq_ok_def)
  show ?thesis
  proof (cases "p = bq_wrptr q + SIZEOF")
    case True
    then show ?thesis using i Some by (simp add: obqFlush_def obq_bytes_def bq_block_def)
  next
    case False
    then have sz: "0 < p - bq_wrptr q - SIZEOF" "p - bq_wrptr q - SIZEOF \<le> bq_bsize q - SIZEOF" using lo by auto
    obtain q' k' where r: "obqPostFullBufferS nfy (p - bq_wrptr q - SIZEOF) q k = (q', k')" "obq_ok kd idle q' k'" "bq_ptr q' = None"
      "obq_bytes q' = concat (bq_blocks (bq_bn q - bq_counter q) q) @ bq_block (bq_wrptr q + SIZEOF) (p - bq_wrptr q - SIZEOF) q"
      "bq_same q q'"
      using obq_post_eq [OF kk ok n sz c] by auto
    then show ?thesis using Some sz(1) by (auto simp: obqFlush_def obq_bytes_def diff_diff_eq)
  qed
qed

lemma obqTryFlushI_eq:
  assumes i: "obq_ok kd idle q k"
  shows "\<exists>q'. obqTryFlushI q = (bq_counter q = bq_bn q \<and> obq_bytes q \<noteq> [], q') \<and> obq_ok kd idle q' k \<and>
    obq_bytes q' = obq_bytes q \<and> (if bq_counter q = bq_bn q \<and> obq_bytes q \<noteq> [] then bq_counter q' = bq_counter q - 1 else q' = q) \<and>
    bq_same q q'"
proof -
  have le: "bq_counter q \<le> bq_bn q" and kk: "bq_kernel kd idle q k" and ok: "bq_ok (bq_bn q - bq_counter q) q"
    using i by (simp_all add: obq_ok_def)
  note emp = obqIsEmptyI_eq [OF ok le]
  show ?thesis
  proof (cases "bq_ptr q")
    case None
    then show ?thesis using i by (auto simp: obqTryFlushI_def obq_bytes_def bq_blocks_def)
  next
    case (Some p)
    have lo: "bq_wrptr q + SIZEOF \<le> p" "p < bq_wrptr q + bq_bsize q" and n: "0 < bq_counter q"
      using i Some by (simp_all add: obq_ok_def)
    let ?s = "p - (bq_wrptr q + SIZEOF)"
    show ?thesis
    proof (cases "bq_counter q = bq_bn q \<and> 0 < ?s")
      case False
      have "obq_bytes q = []" if "bq_counter q = bq_bn q"
        using that False Some by (simp add: obq_bytes_def bq_block_def bq_blocks_def)
      then show ?thesis using False Some emp i by (auto simp: obqTryFlushI_def Let_def)
    next
      case True
      let ?q = "(wr_next (q\<lparr>bq_hdr := (bq_hdr q)(bq_wrptr q := ?s)\<rparr>))\<lparr>bq_counter := bq_counter q - 1, bq_ptr := None\<rparr>"
      have sz: "0 < ?s" "?s \<le> bq_bsize q - SIZEOF" and lt: "bq_bn q - bq_counter q < bq_bn q"
        and m: "bq_bn q - (bq_counter q - 1) = Suc (bq_bn q - bq_counter q)" using True lo n by auto
      note l = bq_post [OF ok lt sz]
      have t: "obqTryFlushI q = (True, ?q)" using True Some emp by (simp add: obqTryFlushI_def Let_def)
      have "bq_wrptr q + SIZEOF < length (bq_mem q)" using bq_ok_slot(2,4) [OF ok] by linarith
      then have ne: "bq_block (bq_wrptr q + SIZEOF) ?s q \<noteq> []" using sz by (auto simp: bq_block_def)
      have bytes: "obq_bytes ?q = obq_bytes q" "obq_bytes q \<noteq> []"
        using l m Some ne by (auto simp: obq_bytes_def)
      have "obq_ok kd idle ?q k" using kk conjunct1 [OF l] le m by (simp add: obq_ok_def bq_kernel_def)
      moreover have "bq_same q ?q" by (simp add: bq_same_def)
      ultimately show ?thesis using t True bytes by (intro exI [of _ ?q]) simp
    qed
  qed
qed

section \<open>Correctness\<close>

text \<open>
  C30: Input buffers carry a stream.  A driver that gets an empty buffer, fills it and posts it
  appends its bytes to the stream and wakes the longest waiting reader; it gets no buffer exactly
  when all are posted.  A read of \<open>n\<close> bytes returns, with the oldest \<open>n\<close> bytes in order, whatever
  the boundaries of the buffers and of the 64 byte chunks are; with all there is for TIME_IMMEDIATE
  or a suspended queue; or sleeps holding what it has read.
\<close>

theorem input_buffers_correct:
  assumes "ibq_ok kd idle q k" and "bcalm kd idle nfy" and "current k \<noteq> idle" and "0 < n"
    and "bs \<noteq> []" and "length bs \<le> bq_bsize q - SIZEOF"
  shows "(case ibqGetEmptyBufferI q of None \<Rightarrow> bq_counter q = bq_bn q
     | Some p \<Rightarrow> (\<exists>q' k'. ibq_fill_post p bs q k = (q', k') \<and> ibq_ok kd idle q' k' \<and> ibq_bytes q' = ibq_bytes q @ bs \<and>
         qs k' (QOBJ (bq_waiting q)) = tl (qs k (QOBJ (bq_waiting q))))) \<and>
    (\<exists>q' k'. ibqReadTimeout nfy n t q k =
        Some (read_end (if bq_suspended q then TIME_IMMEDIATE else t) n (ibq_bytes q) [], q', k') \<and>
      ibq_ok kd idle q' k' \<and> ibq_bytes q' = drop n (ibq_bytes q))"
proof -
  have "ibqGetEmptyBufferI q = None \<longleftrightarrow> bq_counter q = bq_bn q"
    using assms(1) ibqIsFullI_eq [of q] by (simp add: ibqGetEmptyBufferI_def ibq_ok_def)
  moreover have "\<exists>q' k'. ibq_fill_post p bs q k = (q', k') \<and> ibq_ok kd idle q' k' \<and> ibq_bytes q' = ibq_bytes q @ bs \<and>
      qs k' (QOBJ (bq_waiting q)) = tl (qs k (QOBJ (bq_waiting q)))" if "ibqGetEmptyBufferI q = Some p" for p
    using ibq_post_eq [OF assms(1) that assms(5,6)] by blast
  moreover have "\<exists>q' k'. ibqReadTimeout nfy n t q k =
      Some (read_end (if bq_suspended q then TIME_IMMEDIATE else t) n (ibq_bytes q) [], q', k') \<and>
      ibq_ok kd idle q' k' \<and> ibq_bytes q' = drop n (ibq_bytes q)"
    using ibqRead_loop_eq [OF assms(1-3) _ assms(4), of "chVTGetSystemTimeX k + t" t "[]"]
    unfolding ibqReadTimeout_def by (auto simp: chVTGetSystemTimeX_def)
  ultimately show ?thesis by (auto split: option.split)
qed

text \<open>
  Output buffers carry a stream.  A write of bytes returns with all of them appended, or with as
  many as there is room for when it does not wait, or sleeps with the rest; the driver gets the
  oldest bytes of the stream as its next block, or none when no buffer is posted, and giving the
  buffer back removes them and wakes the longest waiting writer; flushing posts the partly filled
  buffer and keeps the stream.
\<close>

theorem output_buffers_correct:
  assumes "obq_ok kd idle q k" and "bcalm kd idle nfy" and "current k \<noteq> idle" and "bs \<noteq> []"
  shows "(\<exists>q' k'. obqWriteTimeout nfy bs t q k =
        Some (write_end (if bq_suspended q then TIME_IMMEDIATE else t) (length bs) (obq_room q) 0, q', k') \<and>
      obq_ok kd idle q' k' \<and> obq_bytes q' = obq_bytes q @ take (obq_room q) bs) \<and>
    (case obqGetFullBufferI q of None \<Rightarrow> bq_counter q = bq_bn q
     | Some (p, n) \<Rightarrow> (\<exists>q' k'. obqReleaseEmptyBufferI q k = (q', k') \<and> obq_ok kd idle q' k' \<and>
         0 < n \<and> obq_bytes q = bq_block p n q @ obq_bytes q' \<and>
         qs k' (QOBJ (bq_waiting q)) = tl (qs k (QOBJ (bq_waiting q))))) \<and>
    (\<exists>q' k'. obqFlush nfy q k = (q', k') \<and> obq_ok kd idle q' k' \<and> obq_bytes q' = obq_bytes q \<and>
      concat (bq_blocks (bq_bn q' - bq_counter q') q') = obq_bytes q)"
proof -
  have w: "\<exists>q' k'. obqWriteTimeout nfy bs t q k =
      Some (write_end (if bq_suspended q then TIME_IMMEDIATE else t) (length bs) (obq_room q) 0, q', k') \<and>
      obq_ok kd idle q' k' \<and> obq_bytes q' = obq_bytes q @ take (obq_room q) bs"
    using obqWrite_loop_eq [OF assms(1-3) _ assms(4), of "chVTGetSystemTimeX k + t" t 0]
    unfolding obqWriteTimeout_def by (auto simp: chVTGetSystemTimeX_def)
  have d: "case obqGetFullBufferI q of None \<Rightarrow> bq_counter q = bq_bn q
     | Some (p, n) \<Rightarrow> (\<exists>q' k'. obqReleaseEmptyBufferI q k = (q', k') \<and> obq_ok kd idle q' k' \<and>
         0 < n \<and> obq_bytes q = bq_block p n q @ obq_bytes q' \<and>
         qs k' (QOBJ (bq_waiting q)) = tl (qs k (QOBJ (bq_waiting q))))"
  proof (cases "bq_counter q = bq_bn q")
    case True
    then show ?thesis using obq_drain_eq [OF assms(1)] by simp
  next
    case False
    then obtain p n q' where "obqGetFullBufferI q = Some (p, n)" "0 < n"
      "obqReleaseEmptyBufferI q k = (q', chThdDequeueNextI (bq_waiting q) MSG_OK k)"
      "obq_ok kd idle q' (chThdDequeueNextI (bq_waiting q) MSG_OK k)" "obq_bytes q = bq_block p n q @ obq_bytes q'"
      "qs (chThdDequeueNextI (bq_waiting q) MSG_OK k) (QOBJ (bq_waiting q)) = tl (qs k (QOBJ (bq_waiting q)))"
      using obq_drain_eq [OF assms(1)] unfolding if_not_P [OF False] by blast
    then show ?thesis by auto
  qed
  show ?thesis using w d obqFlush_eq [OF assms(1,2)] by blast
qed

text \<open>
  C40: Two threads on one queue.  A thread that wakes after a sleep starts again at the first byte of
  the current buffer, even when another thread has used it in between: a byte is delivered twice,
  and a byte that was accepted is overwritten.
\<close>

theorem woken_thread_restarts_buffer:
  assumes "ibq_ok kd idle q k" and "bq_ptr q = None" and "0 < bq_counter q" and "1 < bq_hdr q (bq_rdptr q)"
    and "obq_ok kd idle p k" and "bq_ptr p = None" and "0 < bq_counter p" and "SIZEOF + 1 < bq_bsize p"
    and "fst (chSchGoSleepTimeoutS_resume t' k') = MSG_OK"
  shows "(\<exists>m q1 q2 k2. ibqGetTimeout nfy t q k = (Ret m, q1, k) \<and> ibqGetTimeout_resume nfy t' q1 k' = (Ret m, q2, k2)) \<and>
    (\<exists>p1 p2 k2. obqPutTimeout nfy a t p k = (Ret MSG_OK, p1, k) \<and> obqPutTimeout_resume nfy b t' p1 k' = (Ret MSG_OK, p2, k2) \<and>
      obq_bytes p2 = obq_bytes p @ [b])"
proof -
  obtain k2 where r: "chSchGoSleepTimeoutS_resume t' k' = (MSG_OK, k2)"
    using assms(9) by (cases "chSchGoSleepTimeoutS_resume t' k'") simp
  have ns: "\<not> MSG_OK <s MSG_OK" by (simp add: word_sless_alt)
  let ?w = "bq_wrptr p + SIZEOF"
  have ok: "bq_ok (bq_bn p - bq_counter p) p" using assms(5) by (simp add: obq_ok_def)
  let ?p2 = "p\<lparr>bq_ptr := Some (?w + 1), bq_top := bq_wrptr p + bq_bsize p, bq_mem := (bq_mem p)[?w := b]\<rparr>"
  have "take 1 (drop ?w ((bq_mem p)[?w := b])) = [b]"
    using bq_ok_slot(2) [OF ok] assms(8) by (simp add: take_Suc_conv_app_nth)
  moreover have "?p2 = p\<lparr>bq_mem := (bq_mem p)[?w := b], bq_ptr := Some (?w + 1), bq_top := bq_wrptr p + bq_bsize p\<rparr>"
    by simp
  then have "bq_blocks (bq_bn p - bq_counter p) ?p2 = bq_blocks (bq_bn p - bq_counter p) (p\<lparr>bq_mem := (bq_mem p)[?w := b]\<rparr>)"
    by (simp only: bq_ok_upd)
  then have "bq_blocks (bq_bn p - bq_counter p) ?p2 = bq_blocks (bq_bn p - bq_counter p) p"
    using bq_store [OF ok, of ?w "[b]"] assms(5,7,8) by (simp add: obq_ok_def)
  ultimately have bytes: "obq_bytes ?p2 = obq_bytes p @ [b]"
    using assms(6) by (simp add: obq_bytes_def bq_block_def)
  have "obqPutTimeout nfy a t p k =
      (Ret MSG_OK, p\<lparr>bq_ptr := Some (?w + 1), bq_top := bq_wrptr p + bq_bsize p, bq_mem := (bq_mem p)[?w := a]\<rparr>, k)"
    using assms(6-8) by (simp add: obqPutTimeout_def obq_got_def obqGetEmptyBufferTimeoutS_def obqIsFullI_def bqSpaceI_def
        obq_fill_def Let_def)
  moreover have "obqPutTimeout_resume nfy b t'
      (p\<lparr>bq_ptr := Some (?w + 1), bq_top := bq_wrptr p + bq_bsize p, bq_mem := (bq_mem p)[?w := a]\<rparr>) k' = (Ret MSG_OK, ?p2, k2)"
    using assms(7,8) r ns by (simp add: obqPutTimeout_resume_def obqGetEmptyBufferTimeoutS_resume_def obq_got_def
        obqGetEmptyBufferTimeoutS_def obqIsFullI_def bqSpaceI_def obq_fill_def Let_def)
  moreover have "\<exists>m q1 q2 k2. ibqGetTimeout nfy t q k = (Ret m, q1, k) \<and> ibqGetTimeout_resume nfy t' q1 k' = (Ret m, q2, k2)"
    using assms(2-4) r ns by (simp add: ibqGetTimeout_def ibqGetTimeout_resume_def ibqGetFullBufferTimeoutS_resume_def
        ibq_got_def ibqGetFullBufferTimeoutS_def ibqIsEmptyI_def bqSpaceI_def ibq_take_def Let_def)
  ultimately show ?thesis using bytes by blast
qed

section \<open>Witnesses\<close>

definition ibq_one :: bufq where
  "ibq_one = \<lparr>bq_waiting = 300, bq_suspended = False, bq_counter = 1, bq_wrptr = 0, bq_rdptr = 6, bq_btop = 12, bq_bsize = 6,
    bq_bn = 2, bq_ptr = None, bq_top = 0, bq_hdr = (\<lambda>i. 2), bq_mem = [0, 0, 0, 0, 0, 0, 0, 0, 0, 0, 7, 8]\<rparr>"

definition obq_one :: bufq where
  "obq_one = ibq_one"

lemma bq_examples:
  "ibq_ok (\<lambda>_. KQueue) 2 ibq_one boot" "obq_ok (\<lambda>_. KQueue) 2 obq_one boot" "ibq_bytes ibq_one = [7, 8]"
  "obq_bytes obq_one = [7, 8]" "obq_room obq_one = 2" "current boot \<noteq> 2" "bq_ptr ibq_one = None" "bq_ptr obq_one = None"
  "\<not> bq_suspended ibq_one" "\<not> bq_suspended obq_one" "bq_bsize ibq_one = 6" "bq_bsize obq_one = 6" "bq_counter ibq_one = 1"
  "bq_counter obq_one = 1" "bq_hdr ibq_one (bq_rdptr ibq_one) = 2" "bq_bn obq_one = 2"
  by (simp_all add: ibq_ok_def obq_ok_def bq_kernel_def kinv_boot bq_ok_def ring_ok_def ibq_one_def obq_one_def bq_slots_def
      bq_slot_def ring_at_def ibq_bytes_def obq_bytes_def obq_room_def bq_blocks_def boot_simps upt_rec)

lemma input_buffers_correct_witness:
  "\<exists>q' k'. ibqReadTimeout None 3 TIME_IMMEDIATE ibq_one boot = Some (Done [7, 8], q', k') \<and> ibq_bytes q' = []"
  using conjunct2 [OF input_buffers_correct [OF bq_examples(1) bcalm_None bq_examples(6), of 3 "[1]" TIME_IMMEDIATE]]
  by (auto simp: bq_examples read_end_def)

lemma output_buffers_correct_witness:
  "\<exists>q' k'. obqWriteTimeout None [1, 2, 3] TIME_IMMEDIATE obq_one boot = Some (Done 2, q', k') \<and>
    obq_bytes q' = [7, 8, 1, 2]"
  using conjunct1 [OF output_buffers_correct [OF bq_examples(2) bcalm_None bq_examples(6), of "[1, 2, 3]" TIME_IMMEDIATE]]
  by (auto simp: bq_examples write_end_def)

lemma woken_thread_restarts_buffer_witness:
  "\<exists>m q1 q2 k2. ibqGetTimeout None TIME_INFINITE ibq_one boot = (Ret m, q1, boot) \<and>
    ibqGetTimeout_resume None TIME_INFINITE q1 (set_u 1 MSG_OK boot) = (Ret m, q2, k2)"
proof -
  have "fst (chSchGoSleepTimeoutS_resume TIME_INFINITE (set_u 1 MSG_OK boot)) = MSG_OK"
    by (simp add: chSchGoSleepTimeoutS_resume_def boot_simps)
  from woken_thread_restarts_buffer [where nfy = None and t = TIME_INFINITE and a = 0 and b = 0,
      OF bq_examples(1,7) _ _ bq_examples(2,8) _ _ this]
  show ?thesis by (simp add: bq_examples)
qed

end
