(* ===== verification/MemCore.thy ===== *)
theory MemCore
  imports Prelude
begin

text \<open>
  Alignment (chalign.h) and the core memory manager (chmemcore.c, chmemcore.h), which hands out
  memory between \<open>nextmem\<close> and \<open>endmem\<close> and never takes it back.  Addresses and sizes are 32-bit
  words; the null pointer is 0.
\<close>

section \<open>Alignment\<close>

definition MEM_ALIGN_MASK :: "u32 \<Rightarrow> u32" where
  "MEM_ALIGN_MASK a = a - 1"

definition MEM_ALIGN_PREV :: "u32 \<Rightarrow> u32 \<Rightarrow> u32" where
  "MEM_ALIGN_PREV p a = p AND NOT (MEM_ALIGN_MASK a)"

definition MEM_ALIGN_NEXT :: "u32 \<Rightarrow> u32 \<Rightarrow> u32" where
  "MEM_ALIGN_NEXT p a = MEM_ALIGN_PREV (p + MEM_ALIGN_MASK a) a"

definition MEM_IS_ALIGNED :: "u32 \<Rightarrow> u32 \<Rightarrow> bool" where
  "MEM_IS_ALIGNED p a \<longleftrightarrow> p AND MEM_ALIGN_MASK a = 0"

definition MEM_IS_VALID_ALIGNMENT :: "u32 \<Rightarrow> bool" where
  "MEM_IS_VALID_ALIGNMENT a \<longleftrightarrow> a \<noteq> 0 \<and> a AND (a - 1) = 0"

lemma mask_exp: "MEM_ALIGN_MASK (2 ^ n) = mask n"
  by (simp add: MEM_ALIGN_MASK_def mask_eq_exp_minus_1)

lemma unat_mask: "n < 32 \<Longrightarrow> unat (mask n :: u32) = 2 ^ n - 1"
proof -
  assume n: "n < 32"
  have "unat (take_bit n (- 1) :: u32) = take_bit n (unat (- 1 :: u32))" by (rule unsigned_take_bit_eq)
  also have "\<dots> = mask n" using n by (simp only: unsigned_minus_1_eq_mask) (simp add: take_bit_of_mask min_def)
  finally show ?thesis by (simp add: mask_eq_exp_minus_1)
qed

lemma round_up:
  fixes p y :: nat
  assumes "0 < y"
  defines "x \<equiv> p + (y - 1)"
  shows "y dvd x - x mod y" "p \<le> x - x mod y" "x - x mod y < p + y"
proof -
  have "x mod y < y" "x = p + (y - 1)" using assms(1) by (simp_all add: x_def)
  then show "p \<le> x - x mod y" "x - x mod y < p + y" using assms(1) by linarith+
  show "y dvd x - x mod y" by (rule dvd_minus_mod)
qed

lemma and_mask_unat: "unat (x AND mask n :: u32) = unat x mod 2 ^ n"
  by (simp only: take_bit_eq_mask [symmetric] unsigned_take_bit_eq) (simp add: take_bit_eq_mod)

lemma align_prev_unat: "unat (MEM_ALIGN_PREV x (2 ^ n)) = unat x - unat x mod 2 ^ n"
proof -
  have "x = (x AND NOT (mask n)) OR (x AND mask n)"
    by (rule bit_eqI) (auto simp: bit_simps)
  also have "\<dots> = (x AND NOT (mask n)) + (x AND mask n)"
    by (rule disjunctive_add [symmetric]) (auto simp: bit_simps)
  finally have e: "x AND NOT (mask n) = x - (x AND mask n)" by (simp add: eq_diff_eq)
  have "unat (x AND mask n) \<le> unat x" by (simp add: and_mask_unat)
  then have "unat (x - (x AND mask n)) = unat x - unat (x AND mask n)"
    by (intro unat_sub) (simp add: word_le_nat_alt)
  then show ?thesis by (simp add: MEM_ALIGN_PREV_def mask_exp e and_mask_unat)
qed

text \<open>Rounding up, as long as the sum does not wrap.\<close>

lemma align_next_unat:
  assumes n: "n < 32" and fit: "unat p + 2 ^ n \<le> 2 ^ 32"
  shows "2 ^ n dvd unat (MEM_ALIGN_NEXT p (2 ^ n)) \<and> unat p \<le> unat (MEM_ALIGN_NEXT p (2 ^ n)) \<and>
    unat (MEM_ALIGN_NEXT p (2 ^ n)) < unat p + 2 ^ n"
proof -
  have m: "unat (mask n :: u32) = 2 ^ n - 1" using n by (rule unat_mask)
  have s: "unat (p + mask n) = unat p + (2 ^ n - 1)"
    using fit m by (subst unat_add_lem [THEN iffD1]) auto
  let ?x = "unat p + (2 ^ n - 1)"
  have e: "unat (MEM_ALIGN_NEXT p (2 ^ n)) = ?x - ?x mod 2 ^ n"
    using align_prev_unat [of "p + mask n" n] s by (simp add: MEM_ALIGN_NEXT_def mask_exp)
  show ?thesis unfolding e using round_up [of "2 ^ n" "unat p"] by simp
qed

lemma align_next_aligned:
  assumes n: "n < 32" and d: "2 ^ n dvd unat p" and fit: "unat p + 2 ^ n \<le> 2 ^ 32"
  shows "MEM_ALIGN_NEXT p (2 ^ n) = p"
proof -
  note a = align_next_unat [OF n fit]
  obtain i where i: "unat p = 2 ^ n * i" using d by (elim dvdE)
  obtain j where j: "unat (MEM_ALIGN_NEXT p (2 ^ n)) = 2 ^ n * j" using a by (elim conjE dvdE)
  have "i \<le> j" "2 ^ n * j < 2 ^ n * (i + 1)" using a i j by auto
  then have "j = i" by (simp only: nat_mult_less_cancel_disj) simp
  then show ?thesis using i j by (intro unsigned_word_eqI [where ?'a = nat]) simp
qed

section \<open>The core allocator\<close>

record memcore =
  nextmem :: u32
  endmem :: u32

text \<open>The section symbols of the linker are arguments.\<close>

definition core_init :: "u32 \<Rightarrow> u32 \<Rightarrow> memcore" where
  "core_init heap_base heap_end = \<lparr>nextmem = heap_base, endmem = heap_end\<rparr>"

definition chCoreAllocAlignedI :: "u32 \<Rightarrow> u32 \<Rightarrow> memcore \<Rightarrow> u32 \<times> memcore" where
  "chCoreAllocAlignedI n align c =
    (let n = MEM_ALIGN_NEXT n align;
         p = MEM_ALIGN_NEXT (nextmem c) align
     in if endmem c - p < n then (0, c) else (p, c\<lparr>nextmem := p + n\<rparr>))"

definition chCoreAllocAligned :: "u32 \<Rightarrow> u32 \<Rightarrow> memcore \<Rightarrow> u32 \<times> memcore" where
  "chCoreAllocAligned n align c = chCoreAllocAlignedI n align c"

definition chCoreAllocI :: "u32 \<Rightarrow> memcore \<Rightarrow> u32 \<times> memcore" where
  "chCoreAllocI n c = chCoreAllocAlignedI n 4 c"

definition chCoreAlloc :: "u32 \<Rightarrow> memcore \<Rightarrow> u32 \<times> memcore" where
  "chCoreAlloc n c = chCoreAllocAligned n 4 c"

definition chCoreGetStatusX :: "memcore \<Rightarrow> u32" where
  "chCoreGetStatusX c = endmem c - nextmem c"

text \<open>
  Core memory.  For an alignment \<open>2 ^ n\<close> and requests that do not wrap, while the next
  aligned address is not past the end: the allocator answers NULL, changing nothing, exactly if
  the rounded size does not fit; otherwise the block is aligned, lies in what was free, holds the
  requested bytes, and the free memory starts behind it.
\<close>

theorem core_alloc_correct:
  assumes n: "n < 32" and fit: "unat s + 2 ^ n \<le> 2 ^ 32" "unat (nextmem c) + 2 ^ n \<le> 2 ^ 32"
    and room: "MEM_ALIGN_NEXT (nextmem c) (2 ^ n) \<le> endmem c" and nz: "0 < nextmem c"
  shows "case chCoreAllocAlignedI s (2 ^ n) c of (p, c') \<Rightarrow> endmem c' = endmem c \<and>
    (if unat (MEM_ALIGN_NEXT (nextmem c) (2 ^ n)) + unat (MEM_ALIGN_NEXT s (2 ^ n)) > unat (endmem c)
     then p = 0 \<and> c' = c
     else p \<noteq> 0 \<and> 2 ^ n dvd unat p \<and> unat (nextmem c) \<le> unat p \<and>
       unat p + unat s \<le> unat (nextmem c') \<and> unat (nextmem c') \<le> unat (endmem c) \<and>
       chCoreGetStatusX c' = endmem c - nextmem c')"
proof -
  let ?p = "MEM_ALIGN_NEXT (nextmem c) (2 ^ n)" and ?s = "MEM_ALIGN_NEXT s (2 ^ n)"
  note a = align_next_unat [OF n fit(1)] align_next_unat [OF n fit(2)]
  have d: "unat (endmem c - ?p) = unat (endmem c) - unat ?p" using room by (rule unat_sub)
  have le: "unat ?p \<le> unat (endmem c)" using room by (simp add: word_le_nat_alt)
  have iff: "endmem c - ?p < ?s \<longleftrightarrow> unat ?p + unat ?s > unat (endmem c)"
    unfolding word_less_nat_alt d using le by auto
  have "unat (?p + ?s) = unat ?p + unat ?s" if "\<not> unat ?p + unat ?s > unat (endmem c)"
    using that unsigned_less [of "endmem c", where ?'a = nat] by (subst unat_add_lem [THEN iffD1]) auto
  moreover have "?p \<noteq> 0" using a nz by (metis le_zero_eq unat_0 unat_eq_zero word_gt_0)
  ultimately show ?thesis
    unfolding chCoreAllocAlignedI_def Let_def iff using a by (auto simp: chCoreGetStatusX_def)
qed

lemma core_alloc_correct_witness:
  "fst (chCoreAllocAlignedI 5 (2 ^ 3) \<lparr>nextmem = 12, endmem = 64\<rparr>) \<noteq> 0"
proof -
  have "MEM_ALIGN_NEXT 12 8 = 16" "MEM_ALIGN_NEXT 5 8 = 8"
    by (simp_all add: MEM_ALIGN_NEXT_def MEM_ALIGN_PREV_def MEM_ALIGN_MASK_def)
  then show ?thesis
    using core_alloc_correct [of 3 5 "\<lparr>nextmem = 12, endmem = 64\<rparr>"] by (simp add: split_beta)
qed

text \<open>
  Defects of the core allocator.  If aligning the next free address carries it past the end,
  the unsigned difference with the end wraps and the allocator hands out memory beyond the end of
  the heap; and a size within the alignment of \<open>2 ^ 32\<close> is rounded up to 0, so that the request
  is granted although nothing is reserved.
\<close>

theorem core_alloc_beyond_end:
  "chCoreAllocAlignedI 32 16 \<lparr>nextmem = 0x20005008, endmem = 0x20005008\<rparr> =
    (0x20005010, \<lparr>nextmem = 0x20005030, endmem = 0x20005008\<rparr>) \<and>
   chCoreAllocI 0xFFFFFFFD \<lparr>nextmem = 0x20004000, endmem = 0x20005000\<rparr> =
    (0x20004000, \<lparr>nextmem = 0x20004000, endmem = 0x20005000\<rparr>)"
  by (simp add: chCoreAllocI_def chCoreAllocAlignedI_def MEM_ALIGN_NEXT_def MEM_ALIGN_PREV_def MEM_ALIGN_MASK_def)

end
