(* ===== verification/MemPools.thy ===== *)
theory MemPools
  imports Semaphores MemCore RingBuffers
begin

text \<open>
  Memory pools (chmempools.c, chmempools.h): objects of one size in a free list threaded through
  their first words, and pools guarded by a semaphore that counts the free objects.  The first
  words are the memory \<open>h\<close>.  The provider asked when a pool is empty is the argument \<open>prov\<close>, a
  function on a state of any type (\<open>None\<close> for a null pointer); chCoreAllocAlignedI is one.
\<close>

section \<open>Pools\<close>

type_synonym words = "ptr \<Rightarrow> ptr"
type_synonym 's memget = "(u32 \<Rightarrow> u32 \<Rightarrow> 's \<Rightarrow> ptr \<times> 's) option"

record mempool =
  pl_next :: ptr
  pl_size :: u32

definition chPoolObjectInit :: "u32 \<Rightarrow> mempool" where
  "chPoolObjectInit n = \<lparr>pl_next = NULL, pl_size = n\<rparr>"

definition chPoolFreeI :: "ptr \<Rightarrow> mempool \<times> words \<Rightarrow> mempool \<times> words" where
  "chPoolFreeI objp = (\<lambda>(mp, h). (mp\<lparr>pl_next := objp\<rparr>, h(objp := pl_next mp)))"

definition chPoolFree :: "ptr \<Rightarrow> mempool \<times> words \<Rightarrow> mempool \<times> words" where
  "chPoolFree objp s = chPoolFreeI objp s"

definition chPoolAdd :: "ptr \<Rightarrow> mempool \<times> words \<Rightarrow> mempool \<times> words" where
  "chPoolAdd objp s = chPoolFree objp s"

definition chPoolAddI :: "ptr \<Rightarrow> mempool \<times> words \<Rightarrow> mempool \<times> words" where
  "chPoolAddI objp s = chPoolFreeI objp s"

fun chPoolLoadArray :: "ptr \<Rightarrow> nat \<Rightarrow> mempool \<times> words \<Rightarrow> mempool \<times> words" where
  "chPoolLoadArray p 0 s = s"
| "chPoolLoadArray p (Suc n) s =
    (let s = chPoolAdd p s in chPoolLoadArray (p + pl_size (fst s)) n s)"

definition chPoolAllocI :: "'s memget \<Rightarrow> mempool \<times> words \<Rightarrow> 's \<Rightarrow> ptr \<times> (mempool \<times> words) \<times> 's" where
  "chPoolAllocI prov = (\<lambda>(mp, h) env.
    (let objp = pl_next mp
     in if objp \<noteq> NULL then (objp, (mp\<lparr>pl_next := h (pl_next mp)\<rparr>, h), env)
        else (case prov of
                Some f \<Rightarrow> (let (objp, env) = f (pl_size mp) 4 env in (objp, (mp, h), env))
              | None \<Rightarrow> (objp, (mp, h), env))))"

definition chPoolAlloc :: "'s memget \<Rightarrow> mempool \<times> words \<Rightarrow> 's \<Rightarrow> ptr \<times> (mempool \<times> words) \<times> 's" where
  "chPoolAlloc prov s env = chPoolAllocI prov s env"

section \<open>Guarded pools\<close>

record gpool =
  g_sem :: ptr
  g_pool :: mempool

definition chGuardedPoolObjectInit :: "gpool \<Rightarrow> u32 \<Rightarrow> kernel \<Rightarrow> gpool \<times> kernel" where
  "chGuardedPoolObjectInit gmp n k = (gmp\<lparr>g_pool := chPoolObjectInit n\<rparr>, chSemObjectInit (g_sem gmp) 0 k)"

definition chGuardedPoolFreeI :: "ptr \<Rightarrow> gpool \<Rightarrow> words \<Rightarrow> kernel \<Rightarrow> gpool \<times> words \<times> kernel" where
  "chGuardedPoolFreeI objp gmp h k =
    (let (mp, h) = chPoolFreeI objp (g_pool gmp, h)
     in (gmp\<lparr>g_pool := mp\<rparr>, h, chSemSignalI (g_sem gmp) k))"

definition chGuardedPoolFree :: "ptr \<Rightarrow> gpool \<Rightarrow> words \<Rightarrow> kernel \<Rightarrow> gpool \<times> words \<times> kernel" where
  "chGuardedPoolFree objp gmp h k =
    (let (gmp, h, k) = chGuardedPoolFreeI objp gmp h k in (gmp, h, chSchRescheduleS k))"

definition chGuardedPoolAdd :: "ptr \<Rightarrow> gpool \<Rightarrow> words \<Rightarrow> kernel \<Rightarrow> gpool \<times> words \<times> kernel" where
  "chGuardedPoolAdd objp gmp h k = chGuardedPoolFree objp gmp h k"

definition chGuardedPoolAddI :: "ptr \<Rightarrow> gpool \<Rightarrow> words \<Rightarrow> kernel \<Rightarrow> gpool \<times> words \<times> kernel" where
  "chGuardedPoolAddI objp gmp h k = chGuardedPoolFreeI objp gmp h k"

text \<open>Every pass may switch; the loader goes on when it runs again.\<close>

fun chGuardedPoolLoadArray :: "ptr \<Rightarrow> nat \<Rightarrow> gpool \<Rightarrow> words \<Rightarrow> kernel \<Rightarrow> gpool \<times> words \<times> kernel" where
  "chGuardedPoolLoadArray p 0 gmp h k = (gmp, h, k)"
| "chGuardedPoolLoadArray p (Suc n) gmp h k =
    (let (gmp, h, k) = chGuardedPoolAdd p gmp h k
     in chGuardedPoolLoadArray (p + pl_size (g_pool gmp)) n gmp h k)"

definition chGuardedPoolAllocTimeoutS ::
    "gpool \<Rightarrow> words \<Rightarrow> systime \<Rightarrow> kernel \<Rightarrow> ptr outcome \<times> gpool \<times> kernel" where
  "chGuardedPoolAllocTimeoutS gmp h timeout k =
    (let (r, k) = chSemWaitTimeoutS (g_sem gmp) timeout k
     in case r of
          Switched \<Rightarrow> (Switched, gmp, k)
        | Ret m \<Rightarrow>
            (if m \<noteq> MSG_OK then (Ret NULL, gmp, k)
             else (let (p, (mp, _), _) = chPoolAllocI None (g_pool gmp, h) ()
                   in (Ret p, gmp\<lparr>g_pool := mp\<rparr>, k))))"

definition chGuardedPoolAllocTimeoutS_resume ::
    "gpool \<Rightarrow> words \<Rightarrow> systime \<Rightarrow> kernel \<Rightarrow> ptr \<times> gpool \<times> kernel" where
  "chGuardedPoolAllocTimeoutS_resume gmp h timeout k =
    (let (m, k) = chSchGoSleepTimeoutS_resume timeout k
     in if m \<noteq> MSG_OK then (NULL, gmp, k)
        else (let (p, (mp, _), _) = chPoolAllocI None (g_pool gmp, h) ()
              in (p, gmp\<lparr>g_pool := mp\<rparr>, k)))"

definition chGuardedPoolAllocTimeout ::
    "gpool \<Rightarrow> words \<Rightarrow> systime \<Rightarrow> kernel \<Rightarrow> ptr outcome \<times> gpool \<times> kernel" where
  "chGuardedPoolAllocTimeout gmp h timeout k = chGuardedPoolAllocTimeoutS gmp h timeout k"

section \<open>The free list\<close>

fun chain :: "words \<Rightarrow> ptr \<Rightarrow> ptr list \<Rightarrow> bool" where
  "chain h p [] \<longleftrightarrow> p = NULL"
| "chain h p (x # xs) \<longleftrightarrow> p = x \<and> x \<noteq> NULL \<and> chain h (h x) xs"

definition pool_ok :: "mempool \<times> words \<Rightarrow> ptr list \<Rightarrow> bool" where
  "pool_ok s xs \<longleftrightarrow> chain (snd s) (pl_next (fst s)) xs \<and> distinct xs"

lemma chain_other: "x \<notin> set xs \<Longrightarrow> chain (h(x := y)) p xs = chain h p xs"
  by (induction xs arbitrary: p) auto

lemma pool_free:
  assumes "pool_ok s xs" and "objp \<noteq> NULL" and "objp \<notin> set xs"
  shows "pool_ok (chPoolFreeI objp s) (objp # xs) \<and> pl_size (fst (chPoolFreeI objp s)) = pl_size (fst s)"
  using assms by (cases s) (simp add: pool_ok_def chPoolFreeI_def chain_other)

lemma pool_alloc:
  assumes "pool_ok s xs"
  shows "case xs of [] \<Rightarrow> chPoolAllocI None s env = (NULL, s, env)
    | x # r \<Rightarrow> \<exists>s'. chPoolAllocI prov s env = (x, s', env) \<and> pool_ok s' r \<and> snd s' = snd s \<and> x \<noteq> NULL \<and>
        pl_size (fst s') = pl_size (fst s)"
  using assms by (cases s; cases xs) (auto simp: pool_ok_def chPoolAllocI_def Let_def)

text \<open>The objects of an array of \<open>n\<close> objects of size \<open>z\<close> at \<open>p\<close>.\<close>

definition array_objs :: "ptr \<Rightarrow> u32 \<Rightarrow> nat \<Rightarrow> ptr list" where
  "array_objs p z n = map (\<lambda>i. p + of_nat i * z) [0..<n]"

lemma array_objs_Suc: "array_objs p z (Suc n) = p # array_objs (p + z) z n"
proof -
  have "[0..<Suc n] = 0 # map Suc [0..<n]" by (simp add: map_Suc_upt upt_conv_Cons)
  then show ?thesis by (simp add: array_objs_def algebra_simps)
qed

lemma pool_load:
  "pool_ok s xs \<Longrightarrow> distinct (array_objs p (pl_size (fst s)) n) \<Longrightarrow>
    NULL \<notin> set (array_objs p (pl_size (fst s)) n) \<Longrightarrow>
    set (array_objs p (pl_size (fst s)) n) \<inter> set xs = {} \<Longrightarrow>
    pool_ok (chPoolLoadArray p n s) (rev (array_objs p (pl_size (fst s)) n) @ xs)"
proof (induction n arbitrary: p s xs)
  case 0
  then show ?case by (simp add: array_objs_def)
next
  case (Suc n)
  let ?z = "pl_size (fst s)"
  have "p \<noteq> NULL" "p \<notin> set xs" using Suc.prems by (auto simp: array_objs_Suc)
  note f = pool_free [OF Suc.prems(1) this]
  show ?case
    using Suc.IH [of "chPoolFreeI p s" "p # xs" "p + ?z"] f Suc.prems
    by (simp add: array_objs_Suc chPoolAdd_def chPoolFree_def Let_def)
qed

text \<open>
  Memory pools.  The free list of a pool is a stack: freeing an object that is not in it
  pushes it, allocating pops the last freed object and touches no memory, and an empty pool
  without provider answers NULL.
\<close>

theorem pool_correct:
  assumes "pool_ok s xs" and "objp \<noteq> NULL" and "objp \<notin> set xs"
  shows "pool_ok (chPoolFree objp s) (objp # xs) \<and>
    (\<exists>s'. chPoolAlloc prov (chPoolFree objp s) env = (objp, s', env) \<and> pool_ok s' xs) \<and>
    (case xs of [] \<Rightarrow> chPoolAlloc None s env = (NULL, s, env)
     | x # r \<Rightarrow> \<exists>s'. chPoolAlloc prov s env = (x, s', env) \<and> pool_ok s' r \<and> snd s' = snd s)"
  using pool_free [OF assms] pool_alloc [OF assms(1), of env prov]
    pool_alloc [OF conjunct1 [OF pool_free [OF assms]], of env prov]
  by (auto simp: chPoolFree_def chPoolAlloc_def split: list.splits)

definition pool_get :: "mempool \<times> words \<Rightarrow> ptr \<times> mempool \<times> words" where
  "pool_get s = (let (p, s, _) = chPoolAlloc None s () in (p, s))"

lemma pool_gets:
  "pool_ok s xs \<Longrightarrow> fst (gets pool_get (length xs) s) = xs \<and> pool_ok (snd (gets pool_get (length xs) s)) []"
proof (induction xs arbitrary: s)
  case Nil
  then show ?case by simp
next
  case (Cons x r)
  obtain s' where "pool_get s = (x, s')" "pool_ok s' r"
    using pool_alloc [OF Cons.prems, of "()" None] by (auto simp: pool_get_def chPoolAlloc_def)
  then show ?case using Cons.IH [of s'] by (simp add: Let_def split_beta)
qed

text \<open>
  Loading an array of objects into an empty pool makes all of them available: allocating as
  many times returns each object of the array exactly once, the last first, and then NULL.
\<close>

theorem pool_load_alloc:
  fixes h :: words
  assumes "distinct (array_objs p z n)" and "NULL \<notin> set (array_objs p z n)"
  defines "s \<equiv> chPoolLoadArray p n (chPoolObjectInit z, h)"
  shows "fst (gets pool_get n s) = rev (array_objs p z n) \<and> fst (pool_get (snd (gets pool_get n s))) = NULL"
proof -
  have "pool_ok (chPoolObjectInit z, h) []" by (simp add: pool_ok_def chPoolObjectInit_def)
  then have "pool_ok s (rev (array_objs p z n))"
    unfolding s_def using assms(1,2) pool_load [of "(chPoolObjectInit z, h)" "[]" p n]
    by (simp add: chPoolObjectInit_def)
  from pool_gets [OF this] have "fst (gets pool_get n s) = rev (array_objs p z n) \<and> pool_ok (snd (gets pool_get n s)) []"
    by (simp add: array_objs_def)
  then show ?thesis
    using pool_alloc [of "snd (gets pool_get n s)" "[]" "()"] by (simp add: pool_get_def chPoolAlloc_def)
qed

section \<open>Guarded pools\<close>

text \<open>Every free object is counted by the semaphore or granted to a thread that has not run yet.\<close>

definition guard_ok :: "(ptr \<Rightarrow> okind) \<Rightarrow> ptr \<Rightarrow> nat \<Rightarrow> ptr list \<Rightarrow> gpool \<Rightarrow> words \<Rightarrow> kernel \<Rightarrow> bool" where
  "guard_ok kd idle G xs gmp h k \<longleftrightarrow> semk kd idle k \<and> kd (g_sem gmp) = KSem \<and>
    pool_ok (g_pool gmp, h) xs \<and> length xs = nat (sem_cnt k (g_sem gmp)) + G"

lemma guard_alloc:
  assumes "guard_ok kd idle (Suc G) xs gmp h k"
  obtains mp where "chPoolAllocI None (g_pool gmp, h) () = (hd xs, (mp, h), ())" "xs \<noteq> []" "hd xs \<noteq> NULL"
    "guard_ok kd idle G (tl xs) (gmp\<lparr>g_pool := mp\<rparr>) h k"
proof -
  obtain x r where xs: "xs = x # r" using assms by (cases xs) (auto simp: guard_ok_def)
  have "pool_ok (g_pool gmp, h) (x # r)" using assms by (simp add: guard_ok_def xs)
  then obtain s' where "chPoolAllocI None (g_pool gmp, h) () = (x, s', ())" "pool_ok s' r" "snd s' = h" "x \<noteq> NULL"
    using pool_alloc [of "(g_pool gmp, h)" "x # r" "()" None] by auto
  then show ?thesis using that [of "fst s'"] assms by (cases s') (auto simp: guard_ok_def xs)
qed

text \<open>
  Guarded pools.  Allocating takes an object while one is counted, answers NULL for
  TIME_IMMEDIATE without one, and otherwise switches; a sleeper that was granted an object gets
  one (never NULL), a timed out one gets NULL.  Freeing pushes the object and grants it to the
  longest waiting thread.  The count stays equal to the free objects less the grants.
\<close>

theorem guarded_pool_correct:
  assumes i: "guard_ok kd idle G xs gmp h k" and idle: "current k \<noteq> idle"
    and obj: "objp \<noteq> NULL" "objp \<notin> set xs"
    and g: "guard_ok kd idle (Suc G') xs' gmp' h' k'"
  shows "(case chGuardedPoolAllocTimeoutS gmp h t k of (r, gmp2, k2) \<Rightarrow>
      if 0 < sem_cnt k (g_sem gmp)
      then xs \<noteq> [] \<and> hd xs \<noteq> NULL \<and> r = Ret (hd xs) \<and> guard_ok kd idle G (tl xs) gmp2 h k2
      else if t = TIME_IMMEDIATE then r = Ret NULL \<and> gmp2 = gmp \<and> k2 = k
      else r = Switched \<and> guard_ok kd idle G xs gmp2 h k2 \<and> highest k2) \<and>
    (case chGuardedPoolAllocTimeoutS_resume gmp' h' t k' of (p, gmp2, k2) \<Rightarrow>
      if u (thd k' (current k')) = MSG_OK
      then xs' \<noteq> [] \<and> p = hd xs' \<and> p \<noteq> NULL \<and> guard_ok kd idle G' (tl xs') gmp2 h' k2
      else p = NULL \<and> gmp2 = gmp' \<and> guard_ok kd idle (Suc G') xs' gmp2 h' k2) \<and>
    (case chGuardedPoolFree objp gmp h k of (gmp2, h2, k2) \<Rightarrow>
      guard_ok kd idle (G + waits (g_sem gmp) k) (objp # xs) gmp2 h2 k2 \<and> highest k2)"
proof -
  let ?sp = "g_sem gmp"
  have s: "semk kd idle k" and kd: "kd ?sp = KSem" and p: "pool_ok (g_pool gmp, h) xs"
    and len: "length xs = nat (sem_cnt k ?sp) + G" using i by (simp_all add: guard_ok_def)
  note w = semk_wait_timeout [OF s kd idle, of t]
  have A: "case chGuardedPoolAllocTimeoutS gmp h t k of (r, gmp2, k2) \<Rightarrow>
      if 0 < sem_cnt k ?sp
      then xs \<noteq> [] \<and> hd xs \<noteq> NULL \<and> r = Ret (hd xs) \<and> guard_ok kd idle G (tl xs) gmp2 h k2
      else if t = TIME_IMMEDIATE then r = Ret NULL \<and> gmp2 = gmp \<and> k2 = k
      else r = Switched \<and> guard_ok kd idle G xs gmp2 h k2 \<and> highest k2"
  proof (cases "0 < sem_cnt k ?sp")
    case True
    let ?k = "set_sem ?sp (sem_cnt k ?sp - 1) k"
    have "guard_ok kd idle (Suc G) xs gmp h ?k" using w True i by (simp add: guard_ok_def)
    then obtain mp where "chPoolAllocI None (g_pool gmp, h) () = (hd xs, (mp, h), ())" "xs \<noteq> []" "hd xs \<noteq> NULL"
      "guard_ok kd idle G (tl xs) (gmp\<lparr>g_pool := mp\<rparr>) h ?k" by (rule guard_alloc)
    then show ?thesis using w True by (simp add: chGuardedPoolAllocTimeoutS_def)
  next
    case False
    then show ?thesis using w i MSG_TIMEOUT_def MSG_OK_def
      by (auto simp: chGuardedPoolAllocTimeoutS_def guard_ok_def split_beta split: if_splits)
  qed
  let ?k' = "snd (chSchGoSleepTimeoutS_resume t k')"
  have g': "guard_ok kd idle (Suc G') xs' gmp' h' ?k'"
    using g semk_cong [of ?k' k'] by (simp add: guard_ok_def)
  have B: "case chGuardedPoolAllocTimeoutS_resume gmp' h' t k' of (p, gmp2, k2) \<Rightarrow>
      if u (thd k' (current k')) = MSG_OK
      then xs' \<noteq> [] \<and> p = hd xs' \<and> p \<noteq> NULL \<and> guard_ok kd idle G' (tl xs') gmp2 h' k2
      else p = NULL \<and> gmp2 = gmp' \<and> guard_ok kd idle (Suc G') xs' gmp2 h' k2"
  proof -
    obtain mp where "chPoolAllocI None (g_pool gmp', h') () = (hd xs', (mp, h'), ())" "xs' \<noteq> []" "hd xs' \<noteq> NULL"
      "guard_ok kd idle G' (tl xs') (gmp'\<lparr>g_pool := mp\<rparr>) h' ?k'" using g' by (rule guard_alloc)
    then show ?thesis using g' by (simp add: chGuardedPoolAllocTimeoutS_resume_def split_beta)
  qed
  have C: "case chGuardedPoolFree objp gmp h k of (gmp2, h2, k2) \<Rightarrow>
      guard_ok kd idle (G + waits ?sp k) (objp # xs) gmp2 h2 k2 \<and> highest k2"
  proof -
    note f = pool_free [OF p obj]
    have "semk kd idle (chSchRescheduleS (chSemSignalI ?sp k)) \<and> highest (chSchRescheduleS (chSemSignalI ?sp k))"
      using semk_reschedule semk_signals [OF s kd] by blast
    then show ?thesis
      using f len kd semk_signals [OF s kd] semk_waits [OF s kd]
      by (auto simp: chGuardedPoolFree_def chGuardedPoolFreeI_def guard_ok_def split_beta nat_add_distrib)
  qed
  show ?thesis using A B C by blast
qed

section \<open>Witnesses\<close>

lemma pool_correct_witness:
  "\<exists>s'. chPoolAlloc None (chPoolFree 64 (chPoolObjectInit 8, \<lambda>_. NULL)) () = (64, s', ())"
  using pool_correct [of "(chPoolObjectInit 8, \<lambda>_. NULL)" "[]" 64 None "()"]
  by (auto simp: pool_ok_def chPoolObjectInit_def)

lemma pool_load_alloc_witness:
  "fst (gets pool_get 3 (chPoolLoadArray 64 3 (chPoolObjectInit 8, h))) = [80, 72, 64]"
proof -
  have "array_objs 64 8 3 = [64, 72, 80]" by (simp add: array_objs_def upt_rec)
  then show ?thesis using pool_load_alloc [of 64 8 3 h] by simp
qed

definition one_object :: gpool where
  "one_object = \<lparr>g_sem = 100, g_pool = \<lparr>pl_next = 64, pl_size = 8\<rparr>\<rparr>"

lemma guard_ok_boot:
  "guard_ok sem_example 2 0 [64] one_object (\<lambda>_. NULL) (set_sem 100 1 boot)"
  "guard_ok sem_example 2 (Suc 0) [64] one_object (\<lambda>_. NULL) boot"
  using semk_count [OF semk_boot, of 1 100 sem_example] semk_boot [of sem_example]
  by (simp_all add: guard_ok_def sem_example_def one_object_def pool_ok_def boot_simps)

lemma guarded_pool_correct_witness:
  "fst (chGuardedPoolAllocTimeoutS one_object (\<lambda>_. NULL) TIME_INFINITE (set_sem 100 1 boot)) = Ret 64"
  using guarded_pool_correct [OF guard_ok_boot(1) _ _ _ guard_ok_boot(2), of 72 TIME_INFINITE]
  by (simp add: boot_simps split_beta) (simp add: one_object_def)

end
