(* ===== verification/Heap.thy ===== *)
theory Heap
  imports Mutexes MemCore
begin

text \<open>
  The heap (chheap.c, chheap.h): first fit with blocks in pages of 8 bytes, each block preceded
  by a header of one page.  Header addresses are page numbers (the addresses of the code divided
  by 8, which all are multiples of 8 and far from the end of the address space), 0 is the null
  pointer, and a heap is named by the page of its own list header.  The two words of a header
  are a union: \<open>w_next\<close> is \<open>free.next\<close> and \<open>used.heap\<close>, \<open>w_pages\<close> is \<open>free.pages\<close> and
  \<open>used.size\<close>.  Sizes in bytes are 32-bit words, whose rounding may wrap.
\<close>

section \<open>Operations\<close>

record hmem =
  w_next :: "nat \<Rightarrow> nat"
  w_pages :: "nat \<Rightarrow> nat"

definition CH_HEAP_ALIGNMENT :: u32 where "CH_HEAP_ALIGNMENT = 8"

definition set_next :: "nat \<Rightarrow> nat \<Rightarrow> hmem \<Rightarrow> hmem" where
  "set_next p x m = m\<lparr>w_next := (w_next m)(p := x)\<rparr>"

definition set_pages :: "nat \<Rightarrow> nat \<Rightarrow> hmem \<Rightarrow> hmem" where
  "set_pages p x m = m\<lparr>w_pages := (w_pages m)(p := x)\<rparr>"

definition H_LIMIT :: "hmem \<Rightarrow> nat \<Rightarrow> nat" where
  "H_LIMIT m hp = hp + 1 + w_pages m hp"

text \<open>The pages of a size in bytes, and the next multiple of an alignment in pages.\<close>

definition size_pages :: "u32 \<Rightarrow> nat" where
  "size_pages n = unat (MEM_ALIGN_NEXT n CH_HEAP_ALIGNMENT) div 8"

definition page_align :: "nat \<Rightarrow> nat \<Rightarrow> nat" where
  "page_align x al = (x + (al - 1)) div al * al"

text \<open>The mutex of a heap follows its list header.\<close>

definition heap_mtx :: "nat \<Rightarrow> ptr" where
  "heap_mtx heapp = of_nat (8 * heapp + 8)"

definition chHeapObjectInit :: "nat \<Rightarrow> nat \<Rightarrow> u32 \<Rightarrow> hmem \<times> kernel \<Rightarrow> hmem \<times> kernel" where
  "chHeapObjectInit heapp hp n = (\<lambda>(m, k).
    (let m = set_next heapp hp m;
         m = set_pages heapp 0 m;
         m = set_next hp 0 m;
         m = set_pages hp (unat (n - 8) div 8) m
     in (m, chMtxObjectInit (heap_mtx heapp) k)))"

definition heap_init :: "nat \<Rightarrow> hmem \<times> kernel \<Rightarrow> hmem \<times> kernel" where
  "heap_init heapp = (\<lambda>(m, k). (set_pages heapp 0 (set_next heapp 0 m), chMtxObjectInit (heap_mtx heapp) k))"

text \<open>Cutting a block of \<open>pages\<close> pages out of the free block \<open>hp\<close>, the successor of \<open>qp\<close>.\<close>

definition heap_cut :: "nat \<Rightarrow> nat \<Rightarrow> nat \<Rightarrow> nat \<Rightarrow> hmem \<Rightarrow> nat \<times> hmem" where
  "heap_cut qp hp ahp pages m =
    (if ahp > hp
     then (let bpages = H_LIMIT m hp - (ahp + 1);
               m = set_pages hp (ahp - (hp + 1)) m;
               m = (if bpages > pages
                    then (let fp = ahp + 1 + pages;
                              m = set_pages fp (bpages - pages - 1) m;
                              m = set_next fp (w_next m hp) m
                          in set_next hp fp m)
                    else m)
           in (ahp, m))
     else if w_pages m hp = pages then (hp, set_next qp (w_next m hp) m)
     else (let fp = hp + 1 + pages;
               m = set_next fp (w_next m hp) m;
               m = set_pages fp (H_LIMIT m hp - (fp + 1)) m
           in (hp, set_next qp fp m)))"

text \<open>The search loop; it returns the header of the block it has cut out, or 0.\<close>

partial_function (option) heap_search ::
    "nat \<Rightarrow> nat \<Rightarrow> nat \<Rightarrow> u32 \<Rightarrow> nat \<Rightarrow> hmem \<Rightarrow> (nat \<times> hmem) option" where
  "heap_search heapp pages al n qp m =
    (if w_next m qp \<noteq> 0
     then (let hp = w_next m qp;
               ahp = page_align (hp + 1) al - 1
           in if ahp < H_LIMIT m hp \<and> pages \<le> H_LIMIT m hp - (ahp + 1)
              then (let (hp, m) = heap_cut qp hp ahp pages m;
                        m = set_pages hp (unat n) m;
                        m = set_next hp heapp m
                    in Some (hp, m))
              else heap_search heapp pages al n hp m)
     else Some (0, m))"

text \<open>
  The part of an allocation after the lock is taken.  The provider takes a size in bytes and an
  alignment and answers a page; the result is the page behind the header, 0 for failure.
\<close>

type_synonym 's pages_provider = "(u32 \<Rightarrow> u32 \<Rightarrow> 's \<Rightarrow> nat \<times> 's) option"

definition heap_alloc_locked :: "'s pages_provider \<Rightarrow> nat \<Rightarrow> u32 \<Rightarrow> u32 \<Rightarrow> hmem \<times> kernel \<times> 's \<Rightarrow>
    (nat \<times> hmem \<times> kernel \<times> 's) option" where
  "heap_alloc_locked prov heapp n align = (\<lambda>(m, k, env).
    (let align = (if align < CH_HEAP_ALIGNMENT then CH_HEAP_ALIGNMENT else align);
         pages = size_pages n
     in case heap_search heapp pages (unat align div 8) n heapp m of
          None \<Rightarrow> None
        | Some (hp, m) \<Rightarrow>
            (let k = chMtxUnlock (heap_mtx heapp) k
             in if hp \<noteq> 0 then Some (hp + 1, m, k, env)
                else (case prov of
                        None \<Rightarrow> Some (0, m, k, env)
                      | Some f \<Rightarrow>
                          (let (hp, env) = f ((of_nat pages + 1) * CH_HEAP_ALIGNMENT) align env
                           in if hp \<noteq> 0
                              then Some (hp + 1, set_pages hp (unat n) (set_next hp heapp m), k, env)
                              else Some (0, m, k, env))))))"

text \<open>
  A caller that has to wait for the lock is switched out and goes on with \<open>heap_alloc_locked\<close>
  when the mutex has been passed to it.  The address of the default heap is an argument.
\<close>

definition chHeapAllocAligned :: "'s pages_provider \<Rightarrow> nat \<Rightarrow> nat \<Rightarrow> u32 \<Rightarrow> u32 \<Rightarrow> hmem \<times> kernel \<times> 's \<Rightarrow>
    (nat outcome \<times> hmem \<times> kernel \<times> 's) option" where
  "chHeapAllocAligned prov default_heap heapp n align = (\<lambda>(m, k, env).
    (let heapp = (if heapp = 0 then default_heap else heapp)
     in case chMtxLock (heap_mtx heapp) k of
          (Switched, k) \<Rightarrow> Some (Switched, m, k, env)
        | (Ret _, k) \<Rightarrow> map_option (\<lambda>(p, s). (Ret p, s)) (heap_alloc_locked prov heapp n align (m, k, env))))"

definition chHeapAlloc :: "'s pages_provider \<Rightarrow> nat \<Rightarrow> nat \<Rightarrow> u32 \<Rightarrow> hmem \<times> kernel \<times> 's \<Rightarrow>
    (nat outcome \<times> hmem \<times> kernel \<times> 's) option" where
  "chHeapAlloc prov default_heap heapp n s = chHeapAllocAligned prov default_heap heapp n CH_HEAP_ALIGNMENT s"

text \<open>Linking the block \<open>hp\<close> behind \<open>qp\<close> and merging it with its neighbours.\<close>

definition heap_link :: "nat \<Rightarrow> nat \<Rightarrow> hmem \<Rightarrow> hmem" where
  "heap_link qp hp m =
    (let m = set_next hp (w_next m qp) m;
         m = set_next qp hp m;
         m = (if H_LIMIT m hp = w_next m hp
              then (let m = set_pages hp (w_pages m hp + (w_pages m (w_next m hp) + 1)) m
                    in set_next hp (w_next m (w_next m hp)) m)
              else m)
     in if H_LIMIT m qp = hp
        then (let m = set_pages qp (w_pages m qp + (w_pages m hp + 1)) m
              in set_next qp (w_next m hp) m)
        else m)"

partial_function (option) heap_free_loop :: "nat \<Rightarrow> nat \<Rightarrow> nat \<Rightarrow> hmem \<Rightarrow> hmem option" where
  "heap_free_loop heapp hp qp m =
    (if (qp = heapp \<or> hp > qp) \<and> (w_next m qp = 0 \<or> hp < w_next m qp)
     then Some (heap_link qp hp m)
     else heap_free_loop heapp hp (w_next m qp) m)"

text \<open>The part of a release after the lock is taken; \<open>hp\<close> has its size in pages already.\<close>

definition heap_free_locked :: "nat \<Rightarrow> nat \<Rightarrow> hmem \<times> kernel \<Rightarrow> (hmem \<times> kernel) option" where
  "heap_free_locked heapp hp = (\<lambda>(m, k).
    (case heap_free_loop heapp hp heapp m of
       None \<Rightarrow> None
     | Some m \<Rightarrow> Some (m, chMtxUnlock (heap_mtx heapp) k)))"

definition heap_unuse :: "nat \<Rightarrow> hmem \<Rightarrow> hmem" where
  "heap_unuse hp m = set_pages hp (size_pages (of_nat (w_pages m hp))) m"

definition chHeapFree :: "nat \<Rightarrow> hmem \<times> kernel \<Rightarrow> (unit outcome \<times> hmem \<times> kernel) option" where
  "chHeapFree p = (\<lambda>(m, k).
    (let hp = p - 1;
         heapp = w_next m hp;
         m = heap_unuse hp m
     in case chMtxLock (heap_mtx heapp) k of
          (Switched, k) \<Rightarrow> Some (Switched, m, k)
        | (Ret _, k) \<Rightarrow> map_option (\<lambda>s. (Ret (), s)) (heap_free_locked heapp hp (m, k))))"

text \<open>The statistics: number of fragments, free pages and pages of the largest fragment.\<close>

partial_function (option) heap_status_loop ::
    "hmem \<Rightarrow> nat \<Rightarrow> nat \<Rightarrow> nat \<Rightarrow> nat \<Rightarrow> (nat \<times> nat \<times> nat) option" where
  "heap_status_loop m qp n tpages lpages =
    (if w_next m qp \<noteq> 0
     then (let pages = w_pages m (w_next m qp)
           in heap_status_loop m (w_next m qp) (n + 1) (tpages + pages) (if pages > lpages then pages else lpages))
     else Some (n, tpages, lpages))"

definition heap_status_locked :: "nat \<Rightarrow> hmem \<times> kernel \<Rightarrow> ((nat \<times> nat \<times> nat) \<times> hmem \<times> kernel) option" where
  "heap_status_locked heapp = (\<lambda>(m, k).
    (case heap_status_loop m heapp 0 0 0 of
       None \<Rightarrow> None
     | Some (n, tpages, lpages) \<Rightarrow> Some ((n, tpages * 8, lpages * 8), m, chMtxUnlock (heap_mtx heapp) k)))"

definition chHeapStatus :: "nat \<Rightarrow> nat \<Rightarrow> hmem \<times> kernel \<Rightarrow>
    ((nat \<times> nat \<times> nat) outcome \<times> hmem \<times> kernel) option" where
  "chHeapStatus default_heap heapp = (\<lambda>(m, k).
    (let heapp = (if heapp = 0 then default_heap else heapp)
     in case chMtxLock (heap_mtx heapp) k of
          (Switched, k) \<Rightarrow> Some (Switched, m, k)
        | (Ret _, k) \<Rightarrow> map_option (\<lambda>(x, s). (Ret x, s)) (heap_status_locked heapp (m, k))))"

text \<open>The size of an allocated block, as it was requested.\<close>

definition chHeapGetSize :: "nat \<Rightarrow> hmem \<Rightarrow> nat" where
  "chHeapGetSize p m = w_pages m (p - 1)"

section \<open>The free list\<close>

lemma set_words [simp]:
  "w_next (set_next p x m) = (w_next m)(p := x)" "w_pages (set_next p x m) = w_pages m"
  "w_pages (set_pages p x m) = (w_pages m)(p := x)" "w_next (set_pages p x m) = w_next m"
  by (simp_all add: set_next_def set_pages_def)

text \<open>The blocks linked behind the header \<open>q\<close>, and the pages they cover.\<close>

fun linked :: "hmem \<Rightarrow> nat \<Rightarrow> nat list \<Rightarrow> bool" where
  "linked m q [] \<longleftrightarrow> w_next m q = 0"
| "linked m q (b # r) \<longleftrightarrow> w_next m q = b \<and> b \<noteq> 0 \<and> linked m b r"

definition extent :: "hmem \<Rightarrow> nat \<Rightarrow> nat set" where
  "extent m b = {b..<H_LIMIT m b}"

definition covered :: "hmem \<Rightarrow> nat list \<Rightarrow> nat set" where
  "covered m bs = (\<Union>b \<in> set bs. extent m b)"

text \<open>The blocks are in ascending order, with at least one page between two of them.\<close>

fun spaced :: "hmem \<Rightarrow> nat list \<Rightarrow> bool" where
  "spaced m [] \<longleftrightarrow> True"
| "spaced m (b # r) \<longleftrightarrow> (\<forall>x \<in> covered m r. H_LIMIT m b < x) \<and> spaced m r"

lemma covered_simps [simp]: "covered m [] = {}" "covered m (b # r) = extent m b \<union> covered m r"
  by (auto simp: covered_def)

lemma extent_self [simp]: "b \<in> extent m b"
  by (simp add: extent_def H_LIMIT_def)

lemma covered_members: "b \<in> set bs \<Longrightarrow> b \<in> covered m bs"
  unfolding covered_def using extent_self by blast

text \<open>Memories that agree outside a set of pages.\<close>

definition same_outside :: "nat set \<Rightarrow> hmem \<Rightarrow> hmem \<Rightarrow> bool" where
  "same_outside A m m' \<longleftrightarrow> (\<forall>p. p \<notin> A \<longrightarrow> w_next m' p = w_next m p \<and> w_pages m' p = w_pages m p)"

lemma linked_cong:
  "w_next m' q = w_next m q \<Longrightarrow> (\<And>b. b \<in> set bs \<Longrightarrow> w_next m' b = w_next m b) \<Longrightarrow> linked m' q bs = linked m q bs"
  by (induction bs arbitrary: q) auto

lemma covered_cong: "(\<And>b. b \<in> set bs \<Longrightarrow> w_pages m' b = w_pages m b) \<Longrightarrow> covered m' bs = covered m bs"
  by (auto simp: covered_def extent_def H_LIMIT_def)

lemma spaced_cong: "(\<And>b. b \<in> set bs \<Longrightarrow> w_pages m' b = w_pages m b) \<Longrightarrow> spaced m' bs = spaced m bs"
proof (induction bs)
  case (Cons b bs)
  then show ?case using covered_cong [of bs m' m] by (simp add: H_LIMIT_def)
qed simp

lemma spaced_above: "spaced m (b # r) \<Longrightarrow> x \<in> covered m r \<Longrightarrow> b < x \<and> x \<notin> extent m b"
  by (auto simp: extent_def H_LIMIT_def)

section \<open>Allocation\<close>

lemma page_align_bounds:
  "0 < al \<Longrightarrow> al dvd page_align x al \<and> x \<le> page_align x al \<and> page_align x al < x + al"
  using round_up [of al x] by (simp add: page_align_def flip: minus_mod_eq_div_mult)

lemma linked_follow:
  assumes "linked m q (b # r)" and "spaced m (b # r)"
    and "\<And>x. x \<in> covered m r \<Longrightarrow> w_next m' x = w_next m x \<and> w_pages m' x = w_pages m x"
    and "w_next m' p = w_next m b"
  shows "linked m' p r \<and> covered m' r = covered m r \<and> spaced m' r"
proof -
  have mem: "x \<in> covered m r" if "x \<in> set r" for x using covered_members [OF that] .
  have l: "linked m b r" using assms(1) by simp
  have "linked m' p r"
  proof (cases r)
    case Nil
    then show ?thesis using l assms(4) by simp
  next
    case (Cons c r2)
    have "linked m' c r2 = linked m c r2"
      using assms(3) mem unfolding Cons by (intro linked_cong) simp_all
    then show ?thesis using l assms(4) unfolding Cons by simp
  qed
  then show ?thesis using assms(2,3) mem covered_cong [of r m' m] spaced_cong [of r m' m] by simp
qed

definition cut_ok :: "hmem \<Rightarrow> nat \<Rightarrow> nat list \<Rightarrow> nat \<Rightarrow> nat \<Rightarrow> hmem \<Rightarrow> nat list \<Rightarrow> bool" where
  "cut_ok m q bs hp pages m' bs' \<longleftrightarrow> linked m' q bs' \<and> spaced m' bs' \<and>
    {hp..<hp + 1 + pages} \<subseteq> covered m bs \<and> covered m' bs' = covered m bs - {hp..<hp + 1 + pages} \<and>
    same_outside (insert q (covered m bs)) m m' \<and> w_pages m' q = w_pages m q"

lemma cutI:
  assumes "linked m' q bs'" and "spaced m' bs'" and "covered m' bs' = covered m (b # r) - {hp..<hp + 1 + pages}"
    and "same_outside (insert q (covered m (b # r))) m m'" and "w_pages m' q = w_pages m q"
    and "heap_cut q b hp pages m = (hp, m')" and "{hp..<hp + 1 + pages} \<subseteq> extent m b"
  shows "\<exists>m' bs'. heap_cut q b hp pages m = (hp, m') \<and> cut_ok m q (b # r) hp pages m' bs'"
  using assms unfolding cut_ok_def covered_simps by blast

lemma cut_middle: "b \<le> a \<Longrightarrow> a \<le> f \<Longrightarrow> f \<le> L \<Longrightarrow> {b..<L} - {a..<f} = {b..<a} \<union> {f..<L :: nat}"
  by auto

lemma heap_cut_ok:
  assumes l: "linked m q (b # r)" and s: "spaced m (b # r)" and q: "q \<notin> covered m (b # r)"
    and a: "b \<le> ahp" "ahp < H_LIMIT m b" "pages \<le> H_LIMIT m b - (ahp + 1)"
  shows "\<exists>m' bs'. heap_cut q b ahp pages m = (ahp, m') \<and> cut_ok m q (b # r) ahp pages m' bs'"
proof -
  let ?L = "H_LIMIT m b"
  have above: "?L < x \<and> x \<noteq> q" if "x \<in> covered m r" for x using s q that by auto
  have qb: "q \<notin> extent m b" using q by simp
  have blk: "{ahp..<ahp + 1 + pages} \<subseteq> extent m b" using a by (auto simp: extent_def)
  have ex: "extent m b = {b..<?L}" by (simp add: extent_def)
  have disj: "covered m r \<inter> {b..<?L} = {}" using above by force
  have out: "x \<notin> covered m r" if "x \<in> extent m b" for x using disj that by (auto simp: extent_def)
  have "ahp + 1 + pages \<le> ?L" using a by simp
  then have "covered m r \<inter> {ahp..<ahp + 1 + pages} = {}" using above by force
  then have minus: "covered m (b # r) - {ahp..<ahp + 1 + pages} = ({b..<?L} - {ahp..<ahp + 1 + pages}) \<union> covered m r"
    unfolding covered_simps ex by blast
  have mid: "{b..<?L} - {ahp..<ahp + 1 + pages} = {b..<ahp} \<union> {ahp + 1 + pages..<?L}"
    using a by (intro cut_middle) auto
  have below: "ahp < x" if "x \<in> covered m r" for x using above [OF that] a(2) by simp
  consider "b < ahp" "pages < ?L - (ahp + 1)" | "b < ahp" "pages = ?L - (ahp + 1)"
    | "ahp = b" "w_pages m b = pages" | "ahp = b" "w_pages m b \<noteq> pages" using a by linarith
  then show ?thesis
  proof cases
    case 1
    let ?f = "ahp + 1 + pages"
    define m' where "m' = set_next b ?f (set_next ?f (w_next m b)
      (set_pages ?f (?L - (ahp + 1) - pages - 1) (set_pages b (ahp - (b + 1)) m)))"
    have eq: "heap_cut q b ahp pages m = (ahp, m')" using 1 by (simp add: heap_cut_def Let_def m'_def)
    have f: "?f \<in> extent m b" "?f \<noteq> b" "?f \<noteq> q" "b \<noteq> q" using 1 a qb by (auto simp: extent_def)
    have lim: "H_LIMIT m' b = ahp" "H_LIMIT m' ?f = ?L" using 1 a f by (auto simp: m'_def H_LIMIT_def)
    have rest: "linked m' ?f r \<and> covered m' r = covered m r \<and> spaced m' r"
      using f above out [OF f(1)] out [OF extent_self] by (intro linked_follow [OF l s]) (auto simp: m'_def)
    have "linked m' q (b # ?f # r)" using rest l f by (simp add: m'_def)
    moreover have "spaced m' (b # ?f # r)"
      using rest lim above below 1 by (auto simp: extent_def)
    moreover have "covered m' (b # ?f # r) = covered m (b # r) - {ahp..<?f}"
      unfolding minus by (simp only: mid covered_simps extent_def lim conjunct1 [OF conjunct2 [OF rest]] Un_assoc)
    moreover have "same_outside (insert q (covered m (b # r))) m m'"
      using f extent_self [of b m] by (auto simp: same_outside_def m'_def)
    moreover have "w_pages m' q = w_pages m q" using f by (simp add: m'_def)
    ultimately show ?thesis using eq blk by (rule cutI)
  next
    case 2
    define m' where "m' = set_pages b (ahp - (b + 1)) m"
    have eq: "heap_cut q b ahp pages m = (ahp, m')" using 2 by (simp add: heap_cut_def Let_def m'_def)
    have f: "b \<noteq> q" using qb by auto
    have lim: "H_LIMIT m' b = ahp" using 2 by (simp add: m'_def H_LIMIT_def)
    have rest: "linked m' b r \<and> covered m' r = covered m r \<and> spaced m' r"
      using out [OF extent_self] by (intro linked_follow [OF l s]) (auto simp: m'_def)
    have "linked m' q (b # r)" using rest l f by (simp add: m'_def)
    moreover have "spaced m' (b # r)" using rest lim below by simp
    moreover have "covered m' (b # r) = covered m (b # r) - {ahp..<ahp + 1 + pages}"
      unfolding minus mid using 2 a by (simp add: extent_def lim conjunct1 [OF conjunct2 [OF rest]])
    moreover have "same_outside (insert q (covered m (b # r))) m m'"
      using extent_self [of b m] by (auto simp: same_outside_def m'_def)
    moreover have "w_pages m' q = w_pages m q" using f by (simp add: m'_def)
    ultimately show ?thesis using eq blk by (rule cutI)
  next
    case 3
    define m' where "m' = set_next q (w_next m b) m"
    have eq: "heap_cut q b ahp pages m = (ahp, m')" using 3 by (simp add: heap_cut_def m'_def)
    have lim: "?L = b + 1 + pages" using 3 by (simp add: H_LIMIT_def)
    have rest: "linked m' q r \<and> covered m' r = covered m r \<and> spaced m' r"
      using above by (intro linked_follow [OF l s]) (auto simp: m'_def)
    have "covered m' r = covered m (b # r) - {b..<b + 1 + pages}"
      using 3 lim unfolding minus [unfolded mid, unfolded 3] by (simp add: conjunct1 [OF conjunct2 [OF rest]])
    moreover have "same_outside (insert q (covered m (b # r))) m m'" by (simp add: same_outside_def m'_def)
    moreover have "w_pages m' q = w_pages m q" by (simp add: m'_def)
    ultimately show ?thesis using eq blk rest 3 by (intro cutI [of m' q r]) simp_all
  next
    case 4
    let ?f = "b + 1 + pages"
    have lt: "?f < ?L" using 4 a by (auto simp: H_LIMIT_def)
    define m' where "m' = set_next q ?f (set_pages ?f (?L - (?f + 1)) (set_next ?f (w_next m b) m))"
    have f: "?f \<in> extent m b" "?f \<noteq> b" "?f \<noteq> q" "b \<noteq> q" using lt qb by (auto simp: extent_def)
    have "H_LIMIT (set_next ?f (w_next m b) m) b = ?L" by (simp add: H_LIMIT_def)
    then have eq: "heap_cut q b ahp pages m = (ahp, m')" using 4 by (simp add: heap_cut_def Let_def m'_def)
    have lim: "H_LIMIT m' ?f = ?L" using lt f by (simp add: m'_def H_LIMIT_def)
    have rest: "linked m' ?f r \<and> covered m' r = covered m r \<and> spaced m' r"
      using above f out [OF f(1)] by (intro linked_follow [OF l s]) (auto simp: m'_def)
    have "linked m' q (?f # r)" using rest by (simp add: m'_def)
    moreover have "spaced m' (?f # r)" using rest lim above by auto
    moreover have "covered m' (?f # r) = covered m (b # r) - {b..<?f}"
      unfolding minus [unfolded mid, unfolded 4] using lim [simplified] by (simp add: extent_def conjunct1 [OF conjunct2 [OF rest]])
    moreover have "same_outside (insert q (covered m (b # r))) m m'"
      using f by (auto simp: same_outside_def m'_def)
    moreover have "w_pages m' q = w_pages m q" using f by (simp add: m'_def)
    ultimately show ?thesis using eq blk 4 by (intro cutI [of m' q "?f # r"]) simp_all
  qed
qed

lemma cut_lift:
  assumes l: "linked m q (b # r)" and s: "spaced m (b # r)" and q: "q \<notin> covered m (b # r)"
    and c: "cut_ok m b r hp pages m' bs'"
  shows "cut_ok m q (b # r) hp pages m' (b # bs')"
proof -
  have q': "q \<notin> insert b (covered m r)" using q extent_self [of b m] by auto
  have so: "same_outside (insert b (covered m r)) m m'" and wb: "w_pages m' b = w_pages m b"
    and cov: "covered m' bs' = covered m r - {hp..<hp + 1 + pages}" "{hp..<hp + 1 + pages} \<subseteq> covered m r"
    and lk: "linked m' b bs'" "spaced m' bs'" using c by (auto simp: cut_ok_def)
  have q2: "w_next m' q = w_next m q \<and> w_pages m' q = w_pages m q"
    using so q' unfolding same_outside_def by blast
  have lim: "H_LIMIT m' b = H_LIMIT m b" using wb by (simp add: H_LIMIT_def)
  have ex: "extent m' b = extent m b" by (simp add: extent_def lim)
  have disj: "x \<notin> extent m b" if "x \<in> covered m r" for x using spaced_above [OF s that] by simp
  have "covered m' (b # bs') = covered m (b # r) - {hp..<hp + 1 + pages}"
    unfolding covered_simps ex cov(1) using disj cov(2) by blast
  moreover have "spaced m' (b # bs')" using lk(2) s cov(1) lim by simp
  moreover have "linked m' q (b # bs')" using l lk(1) q2 by simp
  moreover have "same_outside (insert q (covered m (b # r))) m m'"
    using so extent_self [of b m] unfolding same_outside_def covered_simps by (metis UnCI insert_iff)
  ultimately show ?thesis using q2 cov(2) by (auto simp: cut_ok_def)
qed

text \<open>The block at \<open>b\<close> can hold \<open>pages\<close> pages behind a header, aligned to \<open>al\<close> pages.\<close>

definition fits :: "hmem \<Rightarrow> nat \<Rightarrow> nat \<Rightarrow> nat \<Rightarrow> bool" where
  "fits m al pages b \<longleftrightarrow> (\<exists>x. al dvd x \<and> b < x \<and> x + pages \<le> H_LIMIT m b)"

lemma fits_iff:
  assumes "0 < al"
  shows "fits m al pages b \<longleftrightarrow>
    page_align (b + 1) al - 1 < H_LIMIT m b \<and> pages \<le> H_LIMIT m b - (page_align (b + 1) al - 1 + 1)"
proof -
  note p = page_align_bounds [OF assms, of "b + 1"]
  have "page_align (b + 1) al \<le> x" if x: "al dvd x" "b < x" for x
  proof (rule ccontr)
    assume "\<not> page_align (b + 1) al \<le> x"
    then have "0 < page_align (b + 1) al - x" "al dvd page_align (b + 1) al - x"
      using x p by (auto intro: dvd_diff_nat)
    then have "al \<le> page_align (b + 1) al - x" by (rule dvd_imp_le [rotated])
    then show False using p x by linarith
  qed
  then show ?thesis using p by (fastforce simp: fits_def)
qed

definition taken :: "hmem \<Rightarrow> nat \<Rightarrow> nat list \<Rightarrow> nat \<Rightarrow> nat \<Rightarrow> nat \<Rightarrow> nat \<Rightarrow> u32 \<Rightarrow> hmem \<Rightarrow> nat list \<Rightarrow> bool" where
  "taken m q bs hp pages al heapp n m' bs' \<longleftrightarrow> cut_ok m q bs hp pages m' bs' \<and>
    w_next m' hp = heapp \<and> w_pages m' hp = unat n \<and> al dvd hp + 1 \<and> hp \<noteq> 0"

lemma cut_header:
  assumes c: "cut_ok m q bs hp pages m' bs'" and q: "q \<notin> covered m bs"
  shows "cut_ok m q bs hp pages (set_next hp x (set_pages hp y m')) bs'"
proof -
  have hp: "hp \<in> covered m bs" "hp \<notin> covered m' bs'" using c by (auto simp: cut_ok_def)
  have mem: "b \<noteq> hp" if "b \<in> set bs'" for b using covered_members [OF that] hp by metis
  have qh: "q \<noteq> hp" using q hp by metis
  have "linked (set_next hp x (set_pages hp y m')) q bs' = linked m' q bs'"
    "covered (set_next hp x (set_pages hp y m')) bs' = covered m' bs'"
    "spaced (set_next hp x (set_pages hp y m')) bs' = spaced m' bs'"
    using mem qh by (auto intro!: linked_cong covered_cong spaced_cong)
  then show ?thesis using c hp qh by (auto simp: cut_ok_def same_outside_def)
qed

lemma heap_search_ok:
  assumes "linked m q bs" and "spaced m bs" and "q \<notin> covered m bs" and al: "0 < al"
  shows "(\<forall>b \<in> set bs. \<not> fits m al pages b) \<and> heap_search heapp pages al n q m = Some (0, m) \<or>
    (\<exists>b \<in> set bs. fits m al pages b) \<and>
    (\<exists>hp m' bs'. heap_search heapp pages al n q m = Some (hp, m') \<and> taken m q bs hp pages al heapp n m' bs')"
  using assms(1-3)
proof (induction bs arbitrary: q)
  case Nil
  then show ?case by (simp add: heap_search.simps)
next
  case (Cons b r)
  note p = page_align_bounds [OF al, of "b + 1"]
  let ?a = "page_align (b + 1) al - 1"
  have nx: "w_next m q = b" "b \<noteq> 0" using Cons.prems(1) by simp_all
  have b: "b \<le> ?a" "al dvd ?a + 1" using p by auto
  show ?case
  proof (cases "fits m al pages b")
    case True
    then have f: "?a < H_LIMIT m b" "pages \<le> H_LIMIT m b - (?a + 1)" using fits_iff [OF al] by metis+
    obtain m' bs' where cut: "heap_cut q b ?a pages m = (?a, m')" "cut_ok m q (b # r) ?a pages m' bs'"
      using heap_cut_ok [OF Cons.prems b(1) f] by metis
    have "heap_search heapp pages al n q m = Some (?a, set_next ?a heapp (set_pages ?a (unat n) m'))"
      using nx f cut(1) by (subst heap_search.simps) (simp add: Let_def)
    moreover have "taken m q (b # r) ?a pages al heapp n (set_next ?a heapp (set_pages ?a (unat n) m')) bs'"
      using cut_header [OF cut(2) Cons.prems(3)] b nx by (simp add: taken_def)
    ultimately show ?thesis using True by auto
  next
    case False
    then have f: "(?a < H_LIMIT m b \<and> pages \<le> H_LIMIT m b - (?a + 1)) = False" using fits_iff [OF al] by metis
    have eq: "heap_search heapp pages al n q m = heap_search heapp pages al n b m"
      by (subst heap_search.simps) (simp only: nx Let_def f if_True if_False not_False_eq_True)
    have pre: "linked m b r" "spaced m r" "b \<notin> covered m r"
      using Cons.prems spaced_above [OF Cons.prems(2)] by auto
    show ?thesis using Cons.IH [OF pre] cut_lift [OF Cons.prems] False unfolding eq taken_def by fastforce
  qed
qed

section \<open>Release\<close>

text \<open>The insertion of a block behind \<open>q\<close> with the merge on its right.\<close>

definition link_right :: "nat \<Rightarrow> nat \<Rightarrow> hmem \<Rightarrow> hmem" where
  "link_right q hp m = (let m = set_next q hp (set_next hp (w_next m q) m) in
    if H_LIMIT m hp = w_next m hp
    then set_next hp (w_next m (w_next m hp)) (set_pages hp (w_pages m hp + (w_pages m (w_next m hp) + 1)) m)
    else m)"

lemma heap_link_right:
  "heap_link q hp m = (let m = link_right q hp m in if H_LIMIT m q = hp
    then set_next q (w_next m hp) (set_pages q (w_pages m q + (w_pages m hp + 1)) m) else m)"
  by (simp add: heap_link_def link_right_def Let_def)

lemma link_right_ok:
  assumes l: "linked m q r" and s: "spaced m r" and q: "q \<notin> covered m r" "q \<notin> extent m hp" and hp: "hp \<noteq> 0"
    and disj: "extent m hp \<inter> covered m r = {}" and above: "\<And>x. x \<in> covered m r \<Longrightarrow> hp < x"
  defines "m1 \<equiv> link_right q hp m"
  shows "\<exists>r'. linked m1 q (hp # r') \<and> spaced m1 (hp # r') \<and> covered m1 (hp # r') = extent m hp \<union> covered m r \<and>
    same_outside (insert q (extent m hp)) m m1 \<and> w_pages m1 q = w_pages m q"
proof -
  have qh: "q \<noteq> hp" using q(2) by auto
  have ge: "H_LIMIT m hp \<le> x" if "x \<in> covered m r" for x
    using disj [unfolded disjoint_iff extent_def] above [OF that] that
    by (metis atLeastLessThan_iff less_imp_le not_le)
  show ?thesis
  proof (cases r)
    case Nil
    have m1: "m1 = set_next q hp (set_next hp 0 m)"
      using l qh unfolding Nil by (auto simp: m1_def link_right_def Let_def H_LIMIT_def)
    have "extent m1 hp = extent m hp" by (simp add: m1 extent_def H_LIMIT_def)
    then show ?thesis using Nil hp qh by (intro exI [of _ "[]"]) (auto simp: m1 same_outside_def)
  next
    case (Cons c r2)
    have nq: "w_next m q = c" "c \<noteq> 0" "linked m c r2" using l unfolding Cons by simp_all
    have c: "c \<in> covered m r" using Cons extent_self [of c m] by simp
    have ch: "c \<noteq> hp" "hp < c" using above [OF c] by auto
    have hpr: "x \<noteq> hp" if "x \<in> covered m r" for x using above [OF that] by simp
    show ?thesis
    proof (cases "H_LIMIT m hp = c")
      case True
      have m1: "m1 = set_next hp (w_next m c) (set_pages hp (w_pages m hp + (w_pages m c + 1))
          (set_next q hp (set_next hp c m)))"
        using True nq ch qh q(1) c by (auto simp: m1_def link_right_def Let_def H_LIMIT_def)
      have lim: "H_LIMIT m1 hp = H_LIMIT m c" using True by (simp add: m1 H_LIMIT_def)
      have rest: "linked m1 hp r2 \<and> covered m1 r2 = covered m r2 \<and> spaced m1 r2"
        using l s q(1) hpr unfolding Cons
        by (intro linked_follow [of m q c r2]) (auto simp: m1)
      have "c \<le> H_LIMIT m c" by (simp add: H_LIMIT_def)
      then have "extent m1 hp = extent m hp \<union> extent m c"
        unfolding extent_def lim using ch(2) by (simp only: True) (simp add: ivl_disj_un)
      then have "covered m1 (hp # r2) = extent m hp \<union> covered m r" using rest by (simp add: Cons Un_assoc)
      moreover have "spaced m1 (hp # r2)" using rest s lim by (simp add: Cons)
      moreover have "linked m1 q (hp # r2)" using rest qh hp by (simp add: m1)
      moreover have "same_outside (insert q (extent m hp)) m m1" by (auto simp: m1 same_outside_def)
      ultimately show ?thesis using qh by (intro exI [of _ r2]) (simp add: m1)
    next
      case False
      have m1: "m1 = set_next q hp (set_next hp c m)"
        using False nq qh by (auto simp: m1_def link_right_def Let_def H_LIMIT_def)
      have lim: "H_LIMIT m1 hp = H_LIMIT m hp" by (simp add: m1 H_LIMIT_def)
      have mem: "x \<noteq> q \<and> x \<noteq> hp" if "x \<in> set r" for x using covered_members [OF that, of m] q(1) hpr by auto
      have "linked m1 c r2 = linked m c r2" using mem unfolding Cons by (intro linked_cong) (simp_all add: m1)
      then have same: "linked m1 c r2 = linked m c r2" "covered m1 r = covered m r" "spaced m1 r = spaced m r"
        using covered_cong [of r m1 m] spaced_cong [of r m1 m] by (simp_all add: m1)
      have "c \<le> x" if "x \<in> covered m r" for x
        using that s unfolding Cons by (auto simp: extent_def H_LIMIT_def)
      then have "H_LIMIT m hp < x" if "x \<in> covered m r" for x using ge [OF c] False that by fastforce
      then have "spaced m1 (hp # r)" using same s lim by simp
      moreover have "linked m1 q (hp # r)" using same nq qh hp ch by (simp add: m1 Cons)
      moreover have "covered m1 (hp # r) = extent m hp \<union> covered m r" using same lim by (simp add: extent_def)
      moreover have "same_outside (insert q (extent m hp)) m m1" by (auto simp: m1 same_outside_def)
      ultimately show ?thesis by (intro exI [of _ r]) (simp add: m1)
    qed
  qed
qed

text \<open>Inserting behind an ordinary block also merges on the left.\<close>

lemma heap_link_ok:
  assumes l: "linked m q r" and s: "spaced m (q # r)" and hp: "q < hp"
    and disj: "extent m hp \<inter> covered m (q # r) = {}" and above: "\<And>x. x \<in> covered m r \<Longrightarrow> hp < x"
  shows "\<exists>r'. linked (heap_link q hp m) q r' \<and> spaced (heap_link q hp m) (q # r') \<and>
    covered (heap_link q hp m) (q # r') = covered m (q # r) \<union> extent m hp \<and>
    same_outside (covered m (q # r) \<union> extent m hp) m (heap_link q hp m)"
proof -
  define m1 where "m1 = link_right q hp m"
  have q: "q \<notin> covered m r" "q \<notin> extent m hp"
    using s spaced_above [of m q r q] hp by (auto simp: extent_def)
  have "\<exists>r'. linked m1 q (hp # r') \<and> spaced m1 (hp # r') \<and> covered m1 (hp # r') = extent m hp \<union> covered m r \<and>
      same_outside (insert q (extent m hp)) m m1 \<and> w_pages m1 q = w_pages m q"
    unfolding m1_def using l s q hp disj above by (intro link_right_ok) auto
  then obtain r' where r': "linked m1 q (hp # r')" "spaced m1 (hp # r')"
      "covered m1 (hp # r') = extent m hp \<union> covered m r" "same_outside (insert q (extent m hp)) m m1"
      "w_pages m1 q = w_pages m q" by blast
  have lim: "H_LIMIT m1 q = H_LIMIT m q" using r'(5) by (simp add: H_LIMIT_def)
  have le: "H_LIMIT m q \<le> hp"
    using disj [unfolded disjoint_iff] extent_self [of hp m] hp unfolding covered_simps extent_def
    by (metis UnI1 atLeastLessThan_iff less_imp_le not_le)
  have so: "same_outside (covered m (q # r) \<union> extent m hp) m m1"
    using r'(4) extent_self [of q m] unfolding same_outside_def covered_simps by (metis UnCI insert_iff)
  show ?thesis
  proof (cases "H_LIMIT m q = hp")
    case True
    define m2 where "m2 = set_next q (w_next m1 hp) (set_pages q (w_pages m1 q + (w_pages m1 hp + 1)) m1)"
    have eq: "heap_link q hp m = m2"
      unfolding heap_link_right m1_def [symmetric] m2_def using True lim by (simp add: Let_def)
    have lim2: "H_LIMIT m2 q = H_LIMIT m1 hp" using True lim by (simp add: m2_def H_LIMIT_def)
    have qc: "x \<noteq> q" if "x \<in> covered m1 r'" for x
      using spaced_above [OF r'(2) that] hp by simp
    have rest: "linked m2 q r' \<and> covered m2 r' = covered m1 r' \<and> spaced m2 r'"
      using qc by (intro linked_follow [OF r'(1,2)]) (auto simp: m2_def)
    have "hp \<le> H_LIMIT m1 hp" by (simp add: H_LIMIT_def)
    then have "extent m2 q = extent m q \<union> extent m1 hp"
      unfolding extent_def lim2 True using hp by (simp add: ivl_disj_un)
    then have "covered m2 (q # r') = covered m (q # r) \<union> extent m hp"
      using rest r'(3) unfolding covered_simps by blast
    moreover have "spaced m2 (q # r')" using rest r'(2) lim2 by simp
    moreover have "same_outside (covered m (q # r) \<union> extent m hp) m m2"
      using so extent_self [of q m] by (auto simp: same_outside_def m2_def)
    ultimately show ?thesis using rest eq by blast
  next
    case False
    have eq: "heap_link q hp m = m1"
      unfolding heap_link_right m1_def [symmetric] using False lim by (simp add: Let_def)
    have "H_LIMIT m q < x" if "x \<in> extent m hp \<union> covered m r" for x
      using that le False s by (auto simp: extent_def)
    then have "spaced m1 (q # hp # r')" using r'(2,3) lim by (simp del: covered_simps)
    moreover have "covered m1 (q # hp # r') = covered m (q # r) \<union> extent m hp"
      using r'(3) lim by (simp add: extent_def Un_ac)
    ultimately show ?thesis using so r'(1) eq by blast
  qed
qed

definition freed :: "hmem \<Rightarrow> nat \<Rightarrow> nat list \<Rightarrow> nat \<Rightarrow> hmem \<Rightarrow> nat list \<Rightarrow> bool" where
  "freed m q r hp m' r' \<longleftrightarrow> linked m' q r' \<and> spaced m' (q # r') \<and>
    covered m' (q # r') = covered m (q # r) \<union> extent m hp \<and>
    same_outside (covered m (q # r) \<union> extent m hp) m m'"

lemma freed_lift:
  assumes f: "freed m c r hp m' r'" and l: "linked m q (c # r)" and q: "q \<notin> covered m (c # r) \<union> extent m hp"
  shows "linked m' q (c # r')" "w_pages m' q = w_pages m q"
proof -
  have "w_next m' q = w_next m q \<and> w_pages m' q = w_pages m q"
    using f q unfolding freed_def same_outside_def by blast
  then show "linked m' q (c # r')" "w_pages m' q = w_pages m q" using f l by (simp_all add: freed_def)
qed

lemma freed_lift_block:
  assumes f: "freed m c r hp m' r'" and l: "linked m q (c # r)" and s: "spaced m (q # c # r)" and q: "q < c" "c < hp"
  shows "freed m q (c # r) hp m' (c # r')"
proof -
  have "q \<notin> covered m (c # r) \<union> extent m hp"
    using spaced_above [OF s, of q] q by (auto simp: extent_def)
  note lift = freed_lift [OF f l this]
  have lim: "H_LIMIT m' q = H_LIMIT m q" "extent m' q = extent m q" using lift by (simp_all add: H_LIMIT_def extent_def)
  have cov: "covered m' (c # r') = covered m (c # r) \<union> extent m hp" "spaced m' (c # r')"
    using f by (simp_all add: freed_def)
  have "H_LIMIT m q < c" using s by simp
  then have "H_LIMIT m q < x" if "x \<in> covered m (c # r) \<union> extent m hp" for x
    using that s q by (auto simp: extent_def)
  then have "spaced m' (q # c # r')" using cov lim by (simp del: covered_simps)
  moreover have "covered m' (q # c # r') = covered m (q # c # r) \<union> extent m hp"
    using cov(1) lim by (simp del: covered_simps add: covered_simps(2) [of _ q] Un_assoc)
  moreover have "same_outside (covered m (q # c # r) \<union> extent m hp) m m'"
    using f unfolding freed_def same_outside_def covered_simps by (metis UnCI UnE)
  ultimately show ?thesis using lift(1) by (simp add: freed_def)
qed

lemma heap_free_loop_ok:
  assumes "linked m q r" and "spaced m (q # r)" and "q < hp" and a: "a \<notin> covered m (q # r)"
    and "extent m hp \<inter> covered m (q # r) = {}"
  shows "\<exists>m' r'. heap_free_loop a hp q m = Some m' \<and> freed m q r hp m' r'"
  using assms
proof (induction r arbitrary: q)
  case Nil
  then have "heap_free_loop a hp q m = Some (heap_link q hp m)" by (subst heap_free_loop.simps) simp
  then show ?case using heap_link_ok [OF Nil.prems(1-3,5)] by (simp add: freed_def)
next
  case (Cons c r)
  have nx: "w_next m q = c" "c \<noteq> 0" "linked m c r" using Cons.prems(1) by simp_all
  have c: "c \<in> covered m (c # r)" using extent_self [of c m] by simp
  show ?case
  proof (cases "hp < c")
    case True
    then have "heap_free_loop a hp q m = Some (heap_link q hp m)"
      using nx Cons.prems by (subst heap_free_loop.simps) simp
    moreover have "hp < x" if "x \<in> covered m (c # r)" for x
      using that True Cons.prems(2) by (auto simp: extent_def H_LIMIT_def)
    ultimately show ?thesis using heap_link_ok [OF Cons.prems(1-3,5)] by (simp add: freed_def)
  next
    case False
    have disj: "extent m hp \<inter> covered m (c # r) = {}" using Cons.prems(5) by auto
    have hc: "c < hp" using False c disj extent_self [of hp m] by (metis IntI empty_iff linorder_neqE_nat)
    have eq: "heap_free_loop a hp q m = heap_free_loop a hp c m"
      using nx False by (subst heap_free_loop.simps) simp
    have sc: "spaced m (c # r)" using Cons.prems(2) by simp
    have "\<exists>m' r'. heap_free_loop a hp c m = Some m' \<and> freed m c r hp m' r'"
      using Cons.IH [OF nx(3) sc hc _ disj] Cons.prems a by simp
    then obtain m' r' where r': "heap_free_loop a hp c m = Some m'" "freed m c r hp m' r'" by blast
    have "freed m q (c # r) hp m' (c # r')"
      using freed_lift_block [OF r'(2) Cons.prems(1,2) _ hc] spaced_above [OF Cons.prems(2) c] by simp
    then show ?thesis using r'(1) eq by auto
  qed
qed

section \<open>The heap\<close>

text \<open>
  A heap with the free list \<open>bs\<close>: linked from the list header at \<open>a\<close>, which counts no pages,
  ascending and fully merged, and apart from the header and the mutex behind it.
\<close>

definition heap_ok :: "nat \<Rightarrow> hmem \<Rightarrow> nat list \<Rightarrow> bool" where
  "heap_ok a m bs \<longleftrightarrow> linked m a bs \<and> spaced m bs \<and> w_pages m a = 0 \<and> a \<notin> covered m bs \<and> a + 1 \<notin> covered m bs"

lemma heap_free_ok:
  assumes h: "heap_ok a m bs" and hp: "hp \<noteq> 0" and disj: "extent m hp \<inter> covered m bs = {}"
    and a: "a \<notin> extent m hp" "a + 1 \<notin> extent m hp"
  shows "\<exists>m' bs'. heap_free_loop a hp a m = Some m' \<and> heap_ok a m' bs' \<and>
    covered m' bs' = covered m bs \<union> extent m hp \<and> same_outside (insert a (covered m bs \<union> extent m hp)) m m'"
proof (cases "bs = [] \<or> hp < w_next m a")
  case True
  have hk: "linked m a bs" "spaced m bs" "w_pages m a = 0" "a \<notin> covered m bs" "a + 1 \<notin> covered m bs"
    using h by (simp_all add: heap_ok_def)
  have above: "hp < x" if "x \<in> covered m bs" for x
  proof (cases bs)
    case (Cons c r)
    then show ?thesis using True that hk(1,2) by (auto simp: extent_def H_LIMIT_def)
  qed (use that in simp)
  have "(w_next m a = 0 \<or> hp < w_next m a)" using True hk(1) by auto
  then have eq: "heap_free_loop a hp a m = Some (heap_link a hp m)" by (subst heap_free_loop.simps) simp
  define m1 where "m1 = link_right a hp m"
  have "\<exists>r'. linked m1 a (hp # r') \<and> spaced m1 (hp # r') \<and> covered m1 (hp # r') = extent m hp \<union> covered m bs \<and>
      same_outside (insert a (extent m hp)) m m1 \<and> w_pages m1 a = w_pages m a"
    unfolding m1_def by (rule link_right_ok [OF hk(1,2,4) a(1) hp disj above])
  then obtain r' where r': "linked m1 a (hp # r')" "spaced m1 (hp # r')"
      "covered m1 (hp # r') = extent m hp \<union> covered m bs" "same_outside (insert a (extent m hp)) m m1"
      "w_pages m1 a = w_pages m a" by blast
  have "H_LIMIT m1 a \<noteq> hp" using r'(5) hk(3) a(2) extent_self [of hp m] by (auto simp: H_LIMIT_def)
  then have "heap_link a hp m = m1" unfolding heap_link_right m1_def [symmetric] by (simp add: Let_def)
  moreover have "heap_ok a m1 (hp # r')"
    unfolding heap_ok_def r'(3) using r' hk a by simp
  moreover have "same_outside (insert a (covered m bs \<union> extent m hp)) m m1"
    using r'(4) by (simp add: same_outside_def)
  ultimately show ?thesis using eq r'(3) by (metis Un_commute)
next
  case False
  then obtain c r where bs: "bs = c # r" by (cases bs) auto
  have hk: "linked m a (c # r)" "spaced m (c # r)" "w_pages m a = 0" "a \<notin> covered m (c # r)" "a + 1 \<notin> covered m (c # r)"
    using h unfolding heap_ok_def bs by blast+
  have nx: "w_next m a = c" "c \<noteq> 0" "linked m c r" using hk(1) by simp_all
  have "c \<in> covered m bs" using extent_self [of c m] bs by simp
  then have hc: "c < hp" using False nx disj extent_self [of hp m] by (metis IntI empty_iff linorder_neqE_nat)
  have eq: "heap_free_loop a hp a m = heap_free_loop a hp c m"
    using nx hc by (subst heap_free_loop.simps) simp
  obtain m' r' where r': "heap_free_loop a hp c m = Some m'" "freed m c r hp m' r'"
    using heap_free_loop_ok [OF nx(3) hk(2) hc hk(4)] disj bs by metis
  have "a \<notin> covered m (c # r) \<union> extent m hp" using hk(4) a(1) by blast
  note lift = freed_lift [OF r'(2) hk(1) this]
  have cov: "covered m' (c # r') = covered m bs \<union> extent m hp" "spaced m' (c # r')"
    using r'(2) by (simp_all add: freed_def bs)
  have "heap_ok a m' (c # r')" unfolding heap_ok_def cov(1) using lift cov(2) hk a bs by simp
  moreover have "same_outside (insert a (covered m bs \<union> extent m hp)) m m'"
    using r'(2) unfolding freed_def bs same_outside_def by blast
  ultimately show ?thesis using eq r'(1) cov(1) by metis
qed

text \<open>The pages a fully merged free list covers determine it.\<close>

lemma spaced_first: "spaced m (b # r) \<Longrightarrow> x \<in> covered m (b # r) \<Longrightarrow> b \<le> x"
  by (auto simp: extent_def H_LIMIT_def)

lemma spaced_limit: "spaced m (b # r) \<Longrightarrow> H_LIMIT m b \<notin> covered m (b # r)"
  by (auto simp: extent_def)

lemma limit_unique:
  assumes "spaced m (b # r)" and "covered m (b # r) = covered m' (b # r')"
  shows "H_LIMIT m' b \<le> H_LIMIT m b"
proof (rule ccontr)
  assume "\<not> H_LIMIT m' b \<le> H_LIMIT m b"
  then have "H_LIMIT m b \<in> extent m' b" by (simp add: extent_def H_LIMIT_def)
  then have "H_LIMIT m b \<in> covered m (b # r)" unfolding assms(2) by simp
  then show False using spaced_limit [OF assms(1)] by metis
qed

lemma canonical:
  assumes "spaced m bs" and "spaced m' bs'" and "covered m bs = covered m' bs'"
  shows "bs = bs' \<and> (\<forall>b \<in> set bs. w_pages m b = w_pages m' b)"
  using assms
proof (induction bs arbitrary: bs')
  case Nil
  then show ?case by (cases bs') (auto simp: extent_def H_LIMIT_def)
next
  case (Cons b r)
  obtain c r' where bs': "bs' = c # r'" using Cons.prems(3) extent_self [of b m] by (cases bs') auto
  have mem: "b \<in> covered m (b # r)" "c \<in> covered m' (c # r')" by simp_all
  have "c \<le> b" using spaced_first [OF Cons.prems(2) [unfolded bs'], of b] mem(1) Cons.prems(3) bs' by metis
  moreover have "b \<le> c" using spaced_first [OF Cons.prems(1), of c] mem(2) Cons.prems(3) bs' by metis
  ultimately have c: "c = b" by simp
  note eq = Cons.prems(3) [unfolded bs' c] and s' = Cons.prems(2) [unfolded bs' c]
  have lim: "H_LIMIT m b = H_LIMIT m' b"
    using limit_unique [OF Cons.prems(1) eq] limit_unique [OF s' eq [symmetric]] by simp
  then have ex: "extent m' b = extent m b" by (simp add: extent_def)
  have "covered m r = covered m (b # r) - extent m b" using spaced_above [OF Cons.prems(1)] by auto
  moreover have "covered m' r' = covered m' (b # r') - extent m' b" using spaced_above [OF s'] by auto
  ultimately have "covered m r = covered m' r'" using eq ex by simp
  then show ?case using Cons.IH [of r'] Cons.prems(1) s' bs' c lim by (simp add: H_LIMIT_def)
qed

lemma heap_unuse_ok:
  assumes h: "heap_ok a m bs" and hp: "hp \<notin> covered m bs" "hp \<noteq> a"
  shows "heap_ok a (heap_unuse hp m) bs \<and> covered (heap_unuse hp m) bs = covered m bs \<and>
    extent (heap_unuse hp m) hp = {hp..<hp + 1 + size_pages (of_nat (w_pages m hp))} \<and>
    same_outside {hp} m (heap_unuse hp m)"
proof -
  have mem: "b \<noteq> hp" if "b \<in> set bs" for b using covered_members [OF that] hp by metis
  have "linked (heap_unuse hp m) a bs = linked m a bs" "spaced (heap_unuse hp m) bs = spaced m bs"
    "covered (heap_unuse hp m) bs = covered m bs"
    using mem by (simp_all add: heap_unuse_def cong: linked_cong spaced_cong covered_cong)
  then show ?thesis using h hp by (simp add: heap_ok_def heap_unuse_def extent_def H_LIMIT_def same_outside_def)
qed

section \<open>Sizes\<close>

lemma size_pages_bounds:
  assumes "unat n + 8 \<le> 2 ^ 32"
  shows "unat n \<le> 8 * size_pages n \<and> 8 * size_pages n < unat n + 8"
  using align_next_unat [of 3 n] assms by (auto simp: size_pages_def CH_HEAP_ALIGNMENT_def)

lemma size_pages_wrap:
  assumes "0xFFFFFFF8 < n"
  shows "size_pages n = 0"
proof -
  have n: "unat n > 4294967288" using assms by (simp add: word_less_nat_alt)
  have "unat (n + 7) = (unat n + 7) mod 2 ^ 32" by (simp add: unat_word_ariths)
  also have "\<dots> = unat n + 7 - 2 ^ 32" using n unsigned_less [of n, where ?'a = nat] by (subst mod_if) simp
  finally have u: "unat (n + 7) < 8" using unsigned_less [of n, where ?'a = nat] by simp
  then have "unat (MEM_ALIGN_NEXT n (2 ^ 3)) = 0"
    using align_prev_unat [of "n + 7" 3] by (simp add: MEM_ALIGN_NEXT_def MEM_ALIGN_MASK_def)
  then show ?thesis by (simp add: size_pages_def CH_HEAP_ALIGNMENT_def)
qed

lemma lock_returns: "mtx_owner k mp = NULL \<Longrightarrow> \<exists>k1. chMtxLock mp k = (Ret (), k1)"
  by (simp add: chMtxLock_def chMtxLockS_def Let_def)

text \<open>The alignment in pages: a power of two from 8 bytes on.\<close>

definition align_pages :: "u32 \<Rightarrow> nat" where
  "align_pages align = unat (if align < CH_HEAP_ALIGNMENT then CH_HEAP_ALIGNMENT else align) div 8"

lemma align_pages_pos: "0 < align_pages align"
  by (auto simp: align_pages_def CH_HEAP_ALIGNMENT_def word_less_nat_alt not_less div_greater_zero_iff)

lemma heap_alloc_cases:
  assumes "heap_ok a m bs"
  shows "(\<forall>b \<in> set bs. \<not> fits m (align_pages align) (size_pages n) b) \<and>
      heap_search a (size_pages n) (align_pages align) n a m = Some (0, m) \<or>
    (\<exists>b \<in> set bs. fits m (align_pages align) (size_pages n) b) \<and>
    (\<exists>hp m' bs'. heap_search a (size_pages n) (align_pages align) n a m = Some (hp, m') \<and>
      taken m a bs hp (size_pages n) (align_pages align) a n m' bs')"
  using assms heap_search_ok [OF _ _ _ align_pages_pos] by (simp add: heap_ok_def)

lemma taken_ok:
  assumes "heap_ok a m bs" and "taken m a bs hp pages al heapp n m' bs'"
  shows "heap_ok a m' bs'"
  using assms by (auto simp: heap_ok_def taken_def cut_ok_def)

lemma heap_alloc_locked_eq:
  "heap_alloc_locked prov a n align (m, k, env) =
    (case heap_search a (size_pages n) (align_pages align) n a m of
       None \<Rightarrow> None
     | Some (hp, m) \<Rightarrow> if hp \<noteq> 0 then Some (hp + 1, m, chMtxUnlock (heap_mtx a) k, env)
         else (case prov of
             None \<Rightarrow> Some (0, m, chMtxUnlock (heap_mtx a) k, env)
           | Some f \<Rightarrow> (case f ((of_nat (size_pages n) + 1) * 8) (if align < 8 then 8 else align) env of (hp, env) \<Rightarrow>
               if hp \<noteq> 0
               then Some (hp + 1, set_pages hp (unat n) (set_next hp a m), chMtxUnlock (heap_mtx a) k, env)
               else Some (0, m, chMtxUnlock (heap_mtx a) k, env))))"
  by (auto simp: heap_alloc_locked_def align_pages_def Let_def CH_HEAP_ALIGNMENT_def split: option.splits)

section \<open>Correctness\<close>

text \<open>
  In pages the rounding of the code, a mask on addresses, is \<open>page_align\<close>: for every alignment the
  code allows, a power of two, while the sum does not wrap.
\<close>

lemma page_align_next:
  assumes n: "3 \<le> n" "n < 32" and fit: "8 * x + 2 ^ n \<le> 2 ^ 32"
  shows "unat (MEM_ALIGN_NEXT (of_nat (8 * x)) (2 ^ n)) = 8 * page_align x (2 ^ (n - 3))"
proof -
  let ?y = "unat (MEM_ALIGN_NEXT (of_nat (8 * x)) (2 ^ n))" and ?z = "8 * page_align x (2 ^ (n - 3))"
  have "0 < (2 :: nat) ^ n" by simp
  then have "8 * x < 2 ^ 32" using fit by linarith
  then have x: "unat (of_nat (8 * x) :: u32) = 8 * x" by (simp only: unat_of_nat take_bit_nat_eq_self_iff) simp
  have p: "(2 :: nat) ^ n = 8 * 2 ^ (n - 3)" using n(1) power_add [of "2 :: nat" 3 "n - 3"] by simp
  have y: "2 ^ n dvd ?y" "8 * x \<le> ?y" "?y < 8 * x + 2 ^ n"
    using align_next_unat [OF n(2), of "of_nat (8 * x)"] fit unfolding x by simp_all
  have z: "2 ^ n dvd ?z" "8 * x \<le> ?z" "?z < 8 * x + 2 ^ n"
    using page_align_bounds [of "2 ^ (n - 3)" x] unfolding p by simp_all
  obtain i j where ij: "?y = 2 ^ n * i" "?z = 2 ^ n * j" using y(1) z(1) by (elim dvdE)
  have "2 ^ n * i < 2 ^ n * (j + 1)" "2 ^ n * j < 2 ^ n * (i + 1)" using y z ij by simp_all
  then have "i = j" by (simp only: nat_mult_less_cancel_disj) simp
  then show ?thesis using ij by simp
qed

lemma unlocked_alloc:
  assumes "mtx_owner k (heap_mtx a) = NULL" and "a = (if heapp = 0 then default_heap else heapp)"
  shows "chHeapAllocAligned prov default_heap heapp n align (m, k, env) =
    map_option (\<lambda>(p, s). (Ret p, s)) (heap_alloc_locked prov a n align (m, snd (chMtxLock (heap_mtx a) k), env))"
  using lock_returns [OF assms(1)] assms(2) by (auto simp: chHeapAllocAligned_def Let_def)

lemma locked_alloc:
  assumes "mtx_owner k (heap_mtx a) \<noteq> NULL" and "a = (if heapp = 0 then default_heap else heapp)"
  shows "chHeapAllocAligned prov default_heap heapp n align (m, k, env) =
    Some (Switched, m, snd (chMtxLock (heap_mtx a) k), env)"
  using assms by (auto simp: chHeapAllocAligned_def chMtxLock_def chMtxLockS_def Let_def)

text \<open>The block the provider's answer \<open>hp\<close> becomes, one page behind it.\<close>

lemma provider_alignment:
  assumes "align_pages align dvd hp"
  shows "align_pages align dvd hp + 1 \<longleftrightarrow> align < 16"
proof -
  have "align_pages align = 1 \<longleftrightarrow> align < 16"
    by (auto simp: align_pages_def CH_HEAP_ALIGNMENT_def word_less_nat_alt not_less)
  then show ?thesis using assms dvd_add_right_iff [of "align_pages align" hp 1] by simp
qed

text \<open>
  C22: Allocation.  While another thread has the heap's mutex the call waits for it and changes no
  block. Otherwise a request that does not wrap returns and the mutex is released in every case.  If
  some free block can hold it at its alignment, the block handed out is aligned, lies in the
  free pages, holds the requested bytes and carries its heap and size in its header; it leaves the
  free list, which stays a heap, and nothing outside the free pages and the list header
  changes.  If none can, the free list stays as it is and the request goes to the provider, if there
  is one, with the alignment asked for; what the call then returns is the provider's answer
  moved by the size of a header.  So when the provider's answer has this alignment, the block has it
  only for alignments below 16: the code breaks its promise of alignment for all larger ones.
\<close>

theorem heap_alloc_correct:
  assumes h: "heap_ok a m bs" and fit: "unat n + 8 \<le> 2 ^ 32" and valid: "MEM_IS_VALID_ALIGNMENT align"
    and a: "a = (if heapp = 0 then default_heap else heapp)"
    and k1: "k1 = snd (chMtxLock (heap_mtx a) k)" and k2: "k2 = chMtxUnlock (heap_mtx a) k1"
  shows "if mtx_owner k (heap_mtx a) \<noteq> NULL
    then chHeapAllocAligned prov default_heap heapp n align (m, k, env) = Some (Switched, m, k1, env)
    else if \<exists>b \<in> set bs. fits m (align_pages align) (size_pages n) b
    then \<exists>p m' bs'. chHeapAllocAligned prov default_heap heapp n align (m, k, env) = Some (Ret p, m', k2, env) \<and>
      p \<noteq> 0 \<and> align_pages align dvd p \<and> unat n \<le> 8 * size_pages n \<and> {p - 1..<p + size_pages n} \<subseteq> covered m bs \<and>
      heap_ok a m' bs' \<and> covered m' bs' = covered m bs - {p - 1..<p + size_pages n} \<and>
      w_next m' (p - 1) = a \<and> chHeapGetSize p m' = unat n \<and> same_outside (insert a (covered m bs)) m m'
    else (case prov of
         None \<Rightarrow> chHeapAllocAligned prov default_heap heapp n align (m, k, env) = Some (Ret 0, m, k2, env)
       | Some f \<Rightarrow> (case f ((of_nat (size_pages n) + 1) * 8) (if align < 8 then 8 else align) env of (hp, env') \<Rightarrow>
           if hp \<noteq> 0
           then chHeapAllocAligned prov default_heap heapp n align (m, k, env) =
               Some (Ret (hp + 1), set_pages hp (unat n) (set_next hp a m), k2, env') \<and>
             (align_pages align dvd hp \<longrightarrow> (align_pages align dvd hp + 1 \<longleftrightarrow> align < 16))
           else chHeapAllocAligned prov default_heap heapp n align (m, k, env) = Some (Ret 0, m, k2, env')))"
proof (cases "mtx_owner k (heap_mtx a) = NULL")
  case False
  then show ?thesis using locked_alloc [OF False a] k1 by simp
next
  case True
  note eq = unlocked_alloc [OF True a, folded k1]
  show ?thesis
  proof (cases "\<exists>b \<in> set bs. fits m (align_pages align) (size_pages n) b")
    case fits: True
    then obtain hp m' bs' where r: "heap_search a (size_pages n) (align_pages align) n a m = Some (hp, m')"
        and t: "taken m a bs hp (size_pages n) (align_pages align) a n m' bs'"
      using heap_alloc_cases [OF h, of align n] by metis
    have "heap_alloc_locked prov a n align (m, k1, env) = Some (hp + 1, m', k2, env)"
      using r t k2 by (simp add: heap_alloc_locked_eq taken_def)
    then show ?thesis using True fits t taken_ok [OF h t] size_pages_bounds [OF fit] unfolding eq
      by (auto simp: taken_def cut_ok_def chHeapGetSize_def intro!: exI [of _ "hp + 1"] exI [of _ bs'])
  next
    case False
    then have "heap_search a (size_pages n) (align_pages align) n a m = Some (0, m)"
      using heap_alloc_cases [OF h, of align n] by metis
    then show ?thesis using True False provider_alignment [of align] k2 unfolding eq
      by (auto simp: heap_alloc_locked_eq split: option.splits prod.splits)
  qed
qed

text \<open>
  C23: Release.  Freeing a block that does not overlap the free pages or the heap object, while
  the mutex of its heap is free, returns, with the pages of the block added to the free list,
  merged with its neighbours; nothing outside the free pages, the block and the list header
  changes.
\<close>

theorem heap_free_correct:
  assumes h: "heap_ok a m bs" and p: "1 < p" "w_next m (p - 1) = a"
    and mtx: "mtx_owner k (heap_mtx a) = NULL"
    and b: "b = {p - 1..<p + size_pages (of_nat (w_pages m (p - 1)))}"
    and apart: "b \<inter> covered m bs = {}" "a \<notin> b" "a + 1 \<notin> b"
  shows "\<exists>m' bs'. chHeapFree p (m, k) =
      Some (Ret (), m', chMtxUnlock (heap_mtx a) (snd (chMtxLock (heap_mtx a) k))) \<and>
    heap_ok a m' bs' \<and> covered m' bs' = covered m bs \<union> b \<and> same_outside (insert a (covered m bs \<union> b)) m m'"
proof -
  have "p - 1 \<in> b" using p b by auto
  then have hp: "p - 1 \<notin> covered m bs" "p - 1 \<noteq> a" using apart by auto
  let ?m = "heap_unuse (p - 1) m"
  have u: "heap_ok a ?m bs" "covered ?m bs = covered m bs" "extent ?m (p - 1) = b" "same_outside {p - 1} m ?m"
    using heap_unuse_ok [OF h hp] p b by simp_all
  obtain m' bs' where r: "heap_free_loop a (p - 1) a ?m = Some m'" "heap_ok a m' bs'"
      "covered m' bs' = covered m bs \<union> b" "same_outside (insert a (covered m bs \<union> b)) ?m m'"
    using heap_free_ok [OF u(1), of "p - 1"] u p apart by auto
  have "same_outside (insert a (covered m bs \<union> b)) m m'"
    using r(4) u(4) \<open>p - 1 \<in> b\<close> unfolding same_outside_def by (metis UnCI insert_iff singletonD)
  moreover obtain k1 where "chMtxLock (heap_mtx a) k = (Ret (), k1)" using lock_returns [OF mtx] by blast
  then have "chHeapFree p (m, k) = Some (Ret (), m', chMtxUnlock (heap_mtx a) (snd (chMtxLock (heap_mtx a) k)))"
    using r(1) p(2) by (simp add: chHeapFree_def heap_free_locked_def)
  ultimately show ?thesis using r(2,3) by blast
qed

text \<open>
  C24: Allocating a block and freeing it restores the heap: the free list has the same blocks of
  the same sizes as before.
\<close>

theorem heap_alloc_free:
  assumes h: "heap_ok a m bs" and fit: "unat n + 8 \<le> 2 ^ 32"
    and alloc: "heap_alloc_locked None a n align (m, k, env) = Some (p, m1, k1, env1)" "p \<noteq> 0"
  shows "\<exists>m2. heap_free_loop a (p - 1) a (heap_unuse (p - 1) m1) = Some m2 \<and> heap_ok a m2 bs \<and>
    (\<forall>b \<in> set bs. w_pages m2 b = w_pages m b)"
proof -
  obtain hp bs1 where p: "p = hp + 1" "taken m a bs hp (size_pages n) (align_pages align) a n m1 bs1"
    using heap_alloc_cases [OF h, of align n] alloc by (auto simp: heap_alloc_locked_eq taken_def)
  have t: "{hp..<hp + 1 + size_pages n} \<subseteq> covered m bs" "covered m1 bs1 = covered m bs - {hp..<hp + 1 + size_pages n}"
    "w_pages m1 hp = unat n" "hp \<noteq> 0" using p(2) by (auto simp: taken_def cut_ok_def)
  have h1: "heap_ok a m1 bs1" by (rule taken_ok [OF h p(2)])
  have "hp \<in> covered m bs" by (rule subsetD [OF t(1)]) simp
  then have hp: "hp \<notin> covered m1 bs1" "hp \<noteq> a" using t(2) h by (auto simp: heap_ok_def)
  let ?m = "heap_unuse hp m1"
  have u: "heap_ok a ?m bs1" "covered ?m bs1 = covered m1 bs1" "extent ?m hp = {hp..<hp + 1 + size_pages n}"
    using heap_unuse_ok [OF h1 hp] t(3) by simp_all
  have out: "{hp..<hp + 1 + size_pages n} \<inter> covered m1 bs1 = {}" "a \<notin> {hp..<hp + 1 + size_pages n}"
      "a + 1 \<notin> {hp..<hp + 1 + size_pages n}"
    using t(1,2) h unfolding heap_ok_def by blast+
  obtain m2 bs2 where r: "heap_free_loop a hp a ?m = Some m2" "heap_ok a m2 bs2"
      "covered m2 bs2 = covered m1 bs1 \<union> {hp..<hp + 1 + size_pages n}"
    using heap_free_ok [OF u(1) t(4)] out unfolding u by blast
  have "covered m2 bs2 = covered m bs" using r(3) t(1,2) by auto
  then have "bs2 = bs \<and> (\<forall>b \<in> set bs2. w_pages m2 b = w_pages m b)"
    using r(2) h by (intro canonical) (simp_all add: heap_ok_def)
  then show ?thesis using r p(1) by auto
qed

text \<open>
  Defect: a size of more than \<open>2 ^ 32 - 8\<close> bytes is rounded up to 0 pages, so the allocator
  grants it, cutting nothing but a header out of the first free block.
\<close>

theorem heap_alloc_oversize:
  assumes h: "heap_ok a m (b # bs)" and n: "0xFFFFFFF8 < n"
  shows "\<exists>p m' bs'. heap_alloc_locked prov a n 8 (m, k, env) = Some (p, m', chMtxUnlock (heap_mtx a) k, env) \<and>
    p \<noteq> 0 \<and> heap_ok a m' bs' \<and> covered m' bs' = covered m (b # bs) - {p - 1}"
proof -
  have "fits m (align_pages 8) (size_pages n) b"
    unfolding fits_def size_pages_wrap [OF n]
    by (intro exI [of _ "b + 1"]) (simp add: align_pages_def CH_HEAP_ALIGNMENT_def H_LIMIT_def)
  then obtain hp m' bs' where r: "heap_search a (size_pages n) (align_pages 8) n a m = Some (hp, m')"
      and t: "taken m a (b # bs) hp (size_pages n) (align_pages 8) a n m' bs'"
    using heap_alloc_cases [OF h, of 8 n] by auto
  have "heap_alloc_locked prov a n 8 (m, k, env) = Some (hp + 1, m', chMtxUnlock (heap_mtx a) k, env)"
    using r t by (simp add: heap_alloc_locked_eq taken_def)
  moreover have "covered m' bs' = covered m (b # bs) - {hp}"
    using t by (auto simp: taken_def cut_ok_def size_pages_wrap [OF n] simp del: covered_simps)
  ultimately show ?thesis using taken_ok [OF h t] by auto
qed

text \<open>The statistics loop adds up the free list.\<close>

lemma max_if: "(if l < x then x else l) = max l (x :: nat)"
  by (simp add: max_def)

lemma heap_status_loop_ok:
  "linked m q bs \<Longrightarrow> heap_status_loop m q n t l =
    Some (n + List.length bs, t + sum_list (map (w_pages m) bs), foldl max l (map (w_pages m) bs))"
proof (induction bs arbitrary: q n t l)
  case Nil
  then show ?case by (simp add: heap_status_loop.simps)
next
  case (Cons b r)
  then have nx: "w_next m q = b" "b \<noteq> 0" "linked m b r" by simp_all
  then show ?case using Cons.IH [OF nx(3)]
    by (subst heap_status_loop.simps) (simp add: Let_def nx max_if)
qed

text \<open>
  The status call returns with the number of free blocks, the bytes they hold and those of
  the largest, and releases the mutex.
\<close>

theorem heap_status_correct:
  assumes "heap_ok a m bs"
  shows "heap_status_locked a (m, k) =
    Some ((List.length bs, 8 * (\<Sum>b \<leftarrow> bs. w_pages m b), 8 * foldl max 0 (map (w_pages m) bs)), m,
      chMtxUnlock (heap_mtx a) k)"
  using assms heap_status_loop_ok [of m a bs 0 0 0] by (simp add: heap_ok_def heap_status_locked_def)

section \<open>Witnesses\<close>

text \<open>A heap at page 10 with one free block of five pages at page 20.\<close>

definition ex_heap :: hmem where
  "ex_heap = \<lparr>w_next = (\<lambda>_. 0)(10 := 20), w_pages = (\<lambda>_. 0)(20 := 5)\<rparr>"

lemma ex_heap_ok: "heap_ok 10 ex_heap [20]"
  by (simp add: heap_ok_def ex_heap_def extent_def H_LIMIT_def)

lemma ex_fits: "\<exists>b \<in> set [20]. fits ex_heap (align_pages 8) (size_pages 12) b"
proof -
  have "size_pages 12 = 2" using size_pages_bounds [of 12] by simp
  then have "fits ex_heap (align_pages 8) (size_pages 12) 20"
    unfolding fits_def by (intro exI [of _ 21]) (simp add: align_pages_def CH_HEAP_ALIGNMENT_def ex_heap_def H_LIMIT_def)
  then show ?thesis by simp
qed

text \<open>The core memory manager as the provider, in pages.\<close>

definition core_provider :: "u32 \<Rightarrow> u32 \<Rightarrow> memcore \<Rightarrow> nat \<times> memcore" where
  "core_provider n al c = (case chCoreAllocAligned n al c of (p, c) \<Rightarrow> (unat p div 8, c))"

lemma heap_alloc_correct_witness:
  "(\<exists>p m' k'. chHeapAllocAligned (None :: unit pages_provider) 10 0 12 8 (ex_heap, boot, ()) = Some (Ret p, m', k', ()) \<and> p \<noteq> 0) \<and>
   (\<exists>m' k' c'. chHeapAllocAligned (Some core_provider) 10 0 96 16 (ex_heap, boot, \<lparr>nextmem = 0x1000, endmem = 0x2000\<rparr>) =
      Some (Ret 513, m', k', c') \<and> \<not> align_pages 16 dvd 513)"
proof
  have own: "mtx_owner boot (heap_mtx 10) = NULL" by (simp add: boot_simps)
  have v: "MEM_IS_VALID_ALIGNMENT 8" "MEM_IS_VALID_ALIGNMENT 16" by (simp_all add: MEM_IS_VALID_ALIGNMENT_def)
  show "\<exists>p m' k'. chHeapAllocAligned (None :: unit pages_provider) 10 0 12 8 (ex_heap, boot, ()) = Some (Ret p, m', k', ()) \<and> p \<noteq> 0"
    using heap_alloc_correct [OF ex_heap_ok _ v(1) _ refl refl, of 12 0 10 boot None "()"] ex_fits own by auto
  have sz: "size_pages 96 = 12"
    by (simp add: size_pages_def MEM_ALIGN_NEXT_def MEM_ALIGN_PREV_def MEM_ALIGN_MASK_def CH_HEAP_ALIGNMENT_def)
  have al: "align_pages 16 = 2" by (simp add: align_pages_def CH_HEAP_ALIGNMENT_def)
  have nf: "\<not> (\<exists>b \<in> set [20]. fits ex_heap (align_pages 16) (size_pages 96) b)"
    by (auto simp: fits_def sz ex_heap_def H_LIMIT_def)
  have cp: "core_provider ((of_nat (size_pages 96) + 1) * 8) (if (16 :: u32) < 8 then 8 else 16) \<lparr>nextmem = 0x1000, endmem = 0x2000\<rparr> =
      (512, \<lparr>nextmem = 0x1070, endmem = 0x2000\<rparr>)"
    by (simp add: sz core_provider_def chCoreAllocAligned_def chCoreAllocAlignedI_def MEM_ALIGN_NEXT_def
        MEM_ALIGN_PREV_def MEM_ALIGN_MASK_def)
  show "\<exists>m' k' c'. chHeapAllocAligned (Some core_provider) 10 0 96 16 (ex_heap, boot, \<lparr>nextmem = 0x1000, endmem = 0x2000\<rparr>) =
      Some (Ret 513, m', k', c') \<and> \<not> align_pages 16 dvd 513"
    using heap_alloc_correct [OF ex_heap_ok _ v(2) _ refl refl, of 96 0 10 boot "Some core_provider" "\<lparr>nextmem = 0x1000, endmem = 0x2000\<rparr>"]
      own nf cp by (simp add: al)
qed

definition ex_used :: hmem where
  "ex_used = ex_heap\<lparr>w_next := (w_next ex_heap)(30 := 10), w_pages := (w_pages ex_heap)(30 := 16)\<rparr>"

lemma ex_used_ok: "heap_ok 10 ex_used [20]"
  by (simp add: heap_ok_def ex_used_def ex_heap_def extent_def H_LIMIT_def)

lemma heap_free_correct_witness: "\<exists>m' k'. chHeapFree 31 (ex_used, boot) = Some (Ret (), m', k')"
proof -
  have "size_pages 16 \<le> 2" using size_pages_bounds [of 16] by simp
  then show ?thesis
    using heap_free_correct [OF ex_used_ok, of 31 boot "{30..<31 + size_pages 16}"]
    by (auto simp: ex_used_def ex_heap_def extent_def H_LIMIT_def boot_simps)
qed

lemma heap_alloc_free_witness:
  "\<exists>p m1 k1 m2. heap_alloc_locked (None :: unit pages_provider) 10 12 8 (ex_heap, boot, ()) = Some (p, m1, k1, ()) \<and>
    heap_free_loop 10 (p - 1) 10 (heap_unuse (p - 1) m1) = Some m2 \<and> heap_ok 10 m2 [20]"
proof -
  obtain p m1 k1 where r: "heap_alloc_locked (None :: unit pages_provider) 10 12 8 (ex_heap, boot, ()) = Some (p, m1, k1, ())" "p \<noteq> 0"
    using heap_alloc_cases [OF ex_heap_ok, of 8 12] ex_fits by (auto simp: heap_alloc_locked_eq taken_def)
  then show ?thesis using heap_alloc_free [OF ex_heap_ok _ r] by fastforce
qed

lemma heap_alloc_oversize_witness:
  "\<exists>p m' k'. heap_alloc_locked (None :: unit pages_provider) 10 0xFFFFFFFF 8 (ex_heap, boot, ()) = Some (p, m', k', ()) \<and> p \<noteq> 0"
  using heap_alloc_oversize [OF ex_heap_ok, of "0xFFFFFFFF" None boot "()"] by auto

lemma heap_status_correct_witness:
  "\<exists>k'. heap_status_locked 10 (ex_heap, boot) = Some ((1, 40, 40), ex_heap, k')"
  using heap_status_correct [OF ex_heap_ok, of boot] by (simp add: ex_heap_def)

end
