(* ===== verification/Interplay.thy ===== *)
theory Interplay
  imports Semaphores Conds Messages Events Threads
begin

text \<open>
  The synchronisation objects share the scheduler, its queues and the priorities of the threads.
  This theory shows that the operations of each kind of object keep the invariants of all: what
  they do to the scheduler is the business of their own theories, what they leave alone is
  proved here.
\<close>

section \<open>The invariant of the whole kernel\<close>

definition sys_ok :: "(ptr \<Rightarrow> okind) \<Rightarrow> ptr \<Rightarrow> ptr set \<Rightarrow> kernel \<Rightarrow> bool" where
  "sys_ok kd idle X k \<longleftrightarrow> mtxk kd idle X k \<and> sems_ok kd k"

lemma sys_parts:
  assumes "sys_ok kd idle X k"
  shows "mtxk kd idle X k" "sems_ok kd k" "kinv kd idle {} k" "semk kd idle k" "null_ok k"
  using assms mtxk_null_ok [of kd idle X k] by (simp_all add: sys_ok_def mtxk_def semk_def)

text \<open>What an operation on other objects leaves alone.\<close>

definition same_data :: "kernel \<Rightarrow> kernel \<Rightarrow> bool" where
  "same_data k k' \<longleftrightarrow> mtx_owner k' = mtx_owner k \<and>
    (\<forall>t. tprio k' t = tprio k t \<and> realprio (thd k' t) = realprio (thd k t) \<and> mtxlist (thd k' t) = mtxlist (thd k t))"

definition same_queues :: "(ptr \<Rightarrow> okind) \<Rightarrow> okind \<Rightarrow> kernel \<Rightarrow> kernel \<Rightarrow> bool" where
  "same_queues kd c k k' \<longleftrightarrow> (\<forall>p. kd p = c \<longrightarrow> qs k' (QOBJ p) = qs k (QOBJ p))"

lemma same_refl: "same_data k k" "same_queues kd c k k"
  by (simp_all add: same_data_def same_queues_def)

lemma same_trans:
  "same_data k k1 \<Longrightarrow> same_data k1 k2 \<Longrightarrow> same_data k k2"
  "same_queues kd c k k1 \<Longrightarrow> same_queues kd c k1 k2 \<Longrightarrow> same_queues kd c k k2"
  by (simp_all add: same_data_def same_queues_def)

lemma sys_semop:
  assumes s: "sys_ok kd idle X k" and k': "semk kd idle k'" "null_ok k'" "same_data k k'" "same_queues kd KMtx k k'"
  shows "sys_ok kd idle X k'"
proof -
  have "mtxk kd idle X k'"
    by (rule mtxk_view [OF sys_parts(1) [OF s]]) (use k' in \<open>auto simp: semk_def same_data_def same_queues_def\<close>)
  then show ?thesis using k'(1) by (simp add: sys_ok_def semk_def)
qed

lemma sys_other:
  assumes s: "sys_ok kd idle X k" and k': "kinv kd idle {} k'" "null_ok k'" "same_data k k'"
    and q: "same_queues kd KMtx k k'" "same_queues kd KSem k k'" "sem_cnt k' = sem_cnt k"
  shows "sys_ok kd idle X k'"
proof (rule sys_semop [OF s _ k'(2,3) q(1)])
  show "semk kd idle k'"
    using s k'(1) q(2,3) by (simp add: sys_ok_def semk_def sems_ok_def sem_ok_def same_queues_def)
qed

text \<open>Operations on mutexes and condition variables may reorder, but not change, other queues.\<close>

lemma sems_by_sets:
  assumes "sems_ok kd k" and "kinv kd idle {} k" and "kinv kd idle {} k'" and "sem_cnt k' = sem_cnt k"
    and "\<And>sp. kd sp = KSem \<Longrightarrow> set (qs k' (QOBJ sp)) = set (qs k (QOBJ sp))"
  shows "sems_ok kd k'"
proof -
  have "distinct (qs k q)" "distinct (qs k' q)" for q
    using kinv_queues [OF assms(2)] kinv_queues [OF assms(3)] unfolding queues_ok_def by blast+
  then have "length (qs k' (QOBJ sp)) = length (qs k (QOBJ sp))" if "kd sp = KSem" for sp
    using assms(5) [OF that] by (metis distinct_card)
  then show ?thesis using assms(1,4) by (simp add: sems_ok_def sem_ok_def)
qed

lemma null_ok_mem: "null_ok k \<Longrightarrow> t \<in> set (qs k q) \<Longrightarrow> t \<noteq> NULL"
  by (auto simp: null_ok_def)

lemma null_ok_insert:
  "null_ok k \<Longrightarrow> null_ok (queue_insert (current k) q k)" "null_ok k \<Longrightarrow> null_ok (queue_prio_insert (current k) q k)"
  by (auto simp: null_ok_def q_insert_def q_prio_insert_def)

lemma null_ok_cong: "qs k' = qs k \<Longrightarrow> current k' = current k \<Longrightarrow> null_ok k' = null_ok k"
  by (simp add: null_ok_def)

lemma null_ok_fields [simp]:
  "null_ok (set_sem sp n k) = null_ok k" "null_ok (set_u t w k) = null_ok k"
  by (simp_all add: null_ok_def)

lemma reschedule_members:
  "current (chSchRescheduleS k) \<in> insert (current k) (set (qs k RLIST))"
  "set (qs (chSchRescheduleS k) q) \<subseteq> insert (current k) (set (qs k q))"
proof -
  have "current (chSchRescheduleS k) \<in> insert (current k) (set (qs k RLIST)) \<and>
      set (qs (chSchRescheduleS k) q) \<subseteq> insert (current k) (set (qs k q))"
  proof (cases "chSchIsRescRequiredI k")
    case False
    then show ?thesis by (auto simp: chSchRescheduleS_def)
  next
    case True
    then obtain t r where "qs k RLIST = t # r"
      by (cases "qs k RLIST") (auto simp: chSchIsRescRequiredI_def firstprio_def NOPRIO_def)
    then show ?thesis using True
      by (auto simp: chSchRescheduleS_def chSchDoRescheduleAhead_def Let_def take_first_fields q_prio_insert_ahead_def)
  qed
  then show "current (chSchRescheduleS k) \<in> insert (current k) (set (qs k RLIST))"
    "set (qs (chSchRescheduleS k) q) \<subseteq> insert (current k) (set (qs k q))" by blast+
qed

lemma null_ok_reschedule:
  assumes "null_ok k"
  shows "null_ok (chSchRescheduleS k)"
proof -
  have n: "current k \<noteq> NULL" "\<And>q. NULL \<notin> set (qs k q)" using assms by (simp_all add: null_ok_def)
  have "current (chSchRescheduleS k) \<noteq> NULL" using reschedule_members(1) [of k] n by auto
  moreover have "NULL \<notin> set (qs (chSchRescheduleS k) q)" for q using reschedule_members(2) [of k q] n by auto
  ultimately show ?thesis by (simp add: null_ok_def)
qed

lemma sys_reschedule:
  assumes "sys_ok kd idle X k"
  shows "sys_ok kd idle X (chSchRescheduleS k) \<and> highest (chSchRescheduleS k)"
  using mtxj_reschedule [OF sys_parts(1) [OF assms]] semk_reschedule [OF sys_parts(4) [OF assms]]
  by (simp add: sys_ok_def semk_def)

text \<open>The running thread goes to sleep outside the queues of mutexes.\<close>

lemma sleep_frame:
  assumes n: "null_ok k" and r: "qs k RLIST \<noteq> []"
  shows "null_ok (chSchGoSleepS st (set_u (current k) w k))" "same_data k (chSchGoSleepS st (set_u (current k) w k))"
    "same_queues kd c k (chSchGoSleepS st (set_u (current k) w k))"
  using null_ok_sleep [of "set_u (current k) w k"] n r by (simp_all add: same_data_def same_queues_def)

lemma enqueue_frame:
  fixes w :: u32 and st :: tstate
  assumes n: "null_ok k" and r: "qs k RLIST \<noteq> []" and q: "q \<noteq> RLIST" "\<And>p. q = QOBJ p \<Longrightarrow> kd p \<noteq> c"
  defines "k' \<equiv> chSchGoSleepS st (queue_insert (current k) q (set_u (current k) w k))"
  shows "null_ok k'" "same_data k k'" "same_queues kd c k k'"
proof -
  have "null_ok (queue_insert (current k) q (set_u (current k) w k))"
    using null_ok_insert(1) [of "set_u (current k) w k" q] n by simp
  then show "null_ok k'" unfolding k'_def by (intro null_ok_sleep) (use q r in \<open>simp_all add: q_insert_def\<close>)
  show "same_data k k'" by (simp add: k'_def same_data_def)
  show "same_queues kd c k k'" using q by (auto simp: k'_def same_queues_def q_insert_def)
qed

lemma sys_ready: "sys_ok kd idle X k \<Longrightarrow> current k \<noteq> idle \<Longrightarrow> qs k RLIST \<noteq> []"
  using ready_nonempty [OF sys_parts(3)] by auto

text \<open>A sleep with timeout differs from one without only in the timer it sets.\<close>

lemma timeout_views:
  "null_ok (chSchGoSleepTimeoutS st time k) = null_ok (chSchGoSleepS st k)"
  "same_data k0 (chSchGoSleepTimeoutS st time k) = same_data k0 (chSchGoSleepS st k)"
  "same_queues kd c k0 (chSchGoSleepTimeoutS st time k) = same_queues kd c k0 (chSchGoSleepS st k)"
  "kinv kd idle D (chSchGoSleepTimeoutS st time k) = kinv kd idle D (chSchGoSleepS st k)"
  "highest (chSchGoSleepTimeoutS st time k) = highest (chSchGoSleepS st k)"
  by (simp_all add: null_ok_def same_data_def same_queues_def
      kinv_fields_cong [of "chSchGoSleepTimeoutS st time k" "chSchGoSleepS st k"]
      highest_cong [of "chSchGoSleepTimeoutS st time k" "chSchGoSleepS st k"])

lemma set_sem_views [simp]:
  "mtx_owner (set_sem sp n k) = mtx_owner k"
  "same_data (set_sem sp n k) k' = same_data k k'" "same_queues kd c (set_sem sp n k) k' = same_queues kd c k k'"
  "same_data k (set_sem sp n k)" "same_queues kd c k (set_sem sp n k)"
  by (simp_all add: same_data_def same_queues_def set_sem_def)

text \<open>A thread becomes ready or, if its priority is higher, runs.\<close>

lemma wake_frame:
  assumes n: "null_ok k" and t: "t \<noteq> NULL"
  shows "null_ok (chSchReadyI t k) \<and> same_data k (chSchReadyI t k) \<and> same_queues kd c k (chSchReadyI t k)"
    "null_ok (chSchReadyI t (set_u t m k)) \<and> same_data k (chSchReadyI t (set_u t m k)) \<and>
      same_queues kd c k (chSchReadyI t (set_u t m k))"
    "null_ok (set_u t m (chSchReadyI t k)) \<and> same_data k (set_u t m (chSchReadyI t k)) \<and>
      same_queues kd c k (set_u t m (chSchReadyI t k))"
    "null_ok (chSchWakeupS t m k) \<and> same_data k (chSchWakeupS t m k) \<and> same_queues kd c k (chSchWakeupS t m k)"
  using null_ok_wake [OF n t] null_ok_wake(1) [of "set_u t m k" t] n t
  by (auto simp: same_data_def same_queues_def q_prio_insert_def)

text \<open>Taking a thread out of the queue of another object.\<close>

lemma dequeue_frame:
  assumes i: "kinv kd idle {} k" and n: "null_ok k" and t: "t \<in> set (qs k (QOBJ ob))" and c: "kd ob \<noteq> c"
  shows "null_ok (queue_dequeue t k)" "same_data k (queue_dequeue t k)" "same_queues kd c k (queue_dequeue t k)"
proof -
  have tn: "t \<noteq> NULL" by (rule null_ok_mem [OF n t])
  show "null_ok (queue_dequeue t k)" by (rule null_ok_wake(3) [OF n tn])
  have "q_dequeue t (qs k) (QOBJ p) = qs k (QOBJ p)" if "kd p = c" for p
    using q_dequeue_other [of "qs k" t "QOBJ ob" "QOBJ p"] kinv_queues [OF i] t c that by auto
  then show "same_queues kd c k (queue_dequeue t k)" by (simp add: same_queues_def)
  show "same_data k (queue_dequeue t k)" by (simp add: same_data_def)
qed

section \<open>Semaphores\<close>

lemma sys_sem_wait_timeout:
  assumes s: "sys_ok kd idle X k" and kd: "kd sp = KSem" and idle: "current k \<noteq> idle"
  shows "sys_ok kd idle X (snd (chSemWaitTimeoutS sp time k)) \<and>
    (highest k \<longrightarrow> highest (snd (chSemWaitTimeoutS sp time k)))"
proof -
  note w = semk_wait_timeout [OF sys_parts(4) [OF s] kd idle, of time]
  let ?k = "set_sem sp (sem_cnt k sp - 1) k"
  let ?k1 = "queue_insert (current k) (QOBJ sp) (set_u (current k) sp ?k)"
  have n: "null_ok ?k" and r: "qs ?k RLIST \<noteq> []" using sys_parts(5) [OF s] sys_ready [OF s idle] by simp_all
  have "null_ok (chSchGoSleepS CH_STATE_WTSEM ?k1) \<and> same_data k (chSchGoSleepS CH_STATE_WTSEM ?k1) \<and>
      same_queues kd KMtx k (chSchGoSleepS CH_STATE_WTSEM ?k1)"
    using enqueue_frame [OF n r, of "QOBJ sp" kd KMtx CH_STATE_WTSEM sp] kd by simp
  then have f: "null_ok (snd (chSemWaitTimeoutS sp time k))" "same_data k (snd (chSemWaitTimeoutS sp time k))"
    "same_queues kd KMtx k (snd (chSemWaitTimeoutS sp time k))"
    using sys_parts(5) [OF s] same_refl
    by (auto simp: chSemWaitTimeoutS_def Let_def timeout_views same_data_def same_queues_def null_ok_def)
  have "semk kd idle (snd (chSemWaitTimeoutS sp time k))"
    using w sys_parts(4) [OF s] by (auto split: if_splits)
  then have "sys_ok kd idle X (snd (chSemWaitTimeoutS sp time k))" using sys_semop [OF s] f by blast
  then show ?thesis using w by (auto split: if_splits)
qed

lemma wait_is_timeout: "chSemWaitS sp k = chSemWaitTimeoutS sp TIME_INFINITE k"
proof -
  have "TIME_INFINITE \<noteq> TIME_IMMEDIATE" by (simp add: TIME_INFINITE_def TIME_IMMEDIATE_def)
  then show ?thesis
    by (simp add: chSemWaitS_def chSemWaitTimeoutS_def chSchGoSleepTimeoutS_def Let_def)
qed

lemma sys_sem_signal:
  assumes s: "sys_ok kd idle X k" and kd: "kd sp = KSem"
  shows "sys_ok kd idle X (chSemSignal sp k)" "sys_ok kd idle X (chSemSignalI sp k)"
    "highest k \<Longrightarrow> highest (chSemSignal sp k)"
proof -
  note g = semk_signals [OF sys_parts(4) [OF s] kd]
  note e = chSemSignal_eq [OF sys_parts(4) [OF s] kd]
  let ?k = "set_sem sp (sem_cnt k sp + 1) k"
  have fr: "null_ok (chSemSignal sp k) \<and> same_data k (chSemSignal sp k) \<and> same_queues kd KMtx k (chSemSignal sp k) \<and>
      null_ok (chSemSignalI sp k) \<and> same_data k (chSemSignalI sp k) \<and> same_queues kd KMtx k (chSemSignalI sp k)"
  proof (cases "qs k (QOBJ sp)")
    case Nil
    then show ?thesis using sys_parts(5) [OF s] by (simp add: e)
  next
    case (Cons t r)
    have t: "t \<in> set (qs ?k (QOBJ sp))" using Cons by simp
    have i: "kinv kd idle {} ?k" and n: "null_ok ?k" using sys_parts(3,5) [OF s] by simp_all
    note d = dequeue_frame [OF i n t, of KMtx]
    have tn: "t \<noteq> NULL" by (rule null_ok_mem [OF n t])
    show ?thesis unfolding e Cons
      using wake_frame [OF d(1) tn] d kd by (auto intro: same_trans)
  qed
  then show "sys_ok kd idle X (chSemSignal sp k)" "sys_ok kd idle X (chSemSignalI sp k)"
    using g sys_semop [OF s] by blast+
  show "highest k \<Longrightarrow> highest (chSemSignal sp k)" using g by blast
qed

text \<open>The loops of a reset and of a counter increase only wake threads.\<close>

lemma reset_loop_frame:
  "kinv kd idle {} k \<Longrightarrow> null_ok k \<Longrightarrow> kd sp = KSem \<Longrightarrow> length (qs k (QOBJ sp)) = nat (- n) \<Longrightarrow>
    null_ok (chSemResetI_loop n sp k) \<and> same_data k (chSemResetI_loop n sp k) \<and>
    same_queues kd KMtx k (chSemResetI_loop n sp k)"
proof (induction n sp k rule: chSemResetI_loop.induct)
  case (1 n sp k)
  show ?case
  proof (cases "n + 1 \<le> 0")
    case False
    then show ?thesis using 1 same_refl by (simp add: chSemResetI_loop.simps [of n])
  next
    case True
    then have "qs k (QOBJ sp) \<noteq> []" using 1(5) by auto
    then obtain r t where q: "qs k (QOBJ sp) = r @ [t]" by (cases "qs k (QOBJ sp)" rule: rev_cases) auto
    have fr: "queue_lifo_remove (QOBJ sp) k = (t, queue_dequeue t k)" by (rule lifo_remove_eq [OF 1(2) q])
    let ?k = "set_u t MSG_RESET (chSchReadyI t (queue_dequeue t k))"
    have tm: "t \<in> set (qs k (QOBJ sp))" using q by simp
    have i: "kinv kd idle {} ?k" using kinv_release [OF 1(2) tm] by simp
    have tn: "t \<noteq> NULL" by (rule null_ok_mem [OF 1(3) tm])
    note d = dequeue_frame [OF 1(2,3) tm, of KMtx]
    have f: "null_ok ?k" "same_data k ?k" "same_queues kd KMtx k ?k"
      using wake_frame(3) [OF d(1) tn, of MSG_RESET kd KMtx] d 1(4) by (auto intro: same_trans)
    have len: "length (qs ?k (QOBJ sp)) = nat (- (n + 1))"
      using tm 1(5) by (simp add: q_prio_insert_def q_dequeue_def length_remove1)
    have "chSemResetI_loop n sp k = chSemResetI_loop (n + 1) sp ?k"
      using True fr by (simp add: chSemResetI_loop.simps [of n])
    then show ?thesis using 1(1) [OF True fr [symmetric] refl i f(1) 1(4) len] f same_trans by metis
  qed
qed

lemma sys_sem_reset:
  assumes s: "sys_ok kd idle X k" and kd: "kd sp = KSem" and n: "0 \<le> n"
  shows "sys_ok kd idle X (chSemResetI sp n k)" "sys_ok kd idle X (chSemReset sp n k)" "highest (chSemReset sp n k)"
proof -
  note r = semk_reset [OF sys_parts(4) [OF s] kd n]
  have i: "kinv kd idle {} (set_sem sp n k)" and l: "length (qs (set_sem sp n k) (QOBJ sp)) = nat (- sem_cnt k sp)"
    and nn: "null_ok (set_sem sp n k)"
    using sys_parts [OF s] kd by (simp_all add: sems_ok_def sem_ok_def)
  note f = reset_loop_frame [OF i nn kd l, folded chSemResetI_def]
  show a: "sys_ok kd idle X (chSemResetI sp n k)" by (rule sys_semop [OF s]) (use r f in simp_all)
  have "chSemReset sp n k = chSchRescheduleS (chSemResetI sp n k)" by (simp add: chSemReset_def)
  then show "sys_ok kd idle X (chSemReset sp n k)" "highest (chSemReset sp n k)" using sys_reschedule [OF a] by simp_all
qed

text \<open>One unit of a counter increase: the longest waiter, if there is one, is made ready.\<close>

lemma sys_sem_unit:
  assumes s: "sys_ok kd idle X k" and kd: "kd sp = KSem"
  defines "k1 \<equiv> set_sem sp (sem_cnt k sp + 1) k"
  defines "k' \<equiv> (if sem_cnt k1 sp \<le> 0
      then (let (t, k) = queue_fifo_remove (QOBJ sp) k1 in set_u t MSG_OK (chSchReadyI t k)) else k1)"
  shows "sys_ok kd idle X k'" "current k' = current k"
proof -
  note w = sem_wake_later [OF sys_parts(4) [OF s] kd, folded k1_def, folded k'_def]
  have iff: "sem_cnt k1 sp \<le> 0 \<longleftrightarrow> sem_cnt k sp < 0" by (auto simp: k1_def)
  have neg: "sem_cnt k sp < 0 \<longleftrightarrow> qs k (QOBJ sp) \<noteq> []" by (rule sem_waiters [OF semk_sem_ok [OF sys_parts(4) [OF s] kd]])
  have fr: "null_ok k' \<and> same_data k k' \<and> same_queues kd KMtx k k' \<and> current k' = current k"
  proof (cases "qs k (QOBJ sp)")
    case Nil
    then show ?thesis using sys_parts(5) [OF s] iff neg by (simp add: k'_def k1_def)
  next
    case (Cons t r)
    have t: "t \<in> set (qs k1 (QOBJ sp))" using Cons by (simp add: k1_def)
    have i: "kinv kd idle {} k1" and n: "null_ok k1" using sys_parts(3,5) [OF s] by (simp_all add: k1_def)
    note d = dequeue_frame [OF i n t, of KMtx]
    have tn: "t \<noteq> NULL" by (rule null_ok_mem [OF n t])
    have "k' = set_u t MSG_OK (chSchReadyI t (queue_dequeue t k1))"
      using iff neg Cons semk_fifo [OF sys_parts(4) [OF s] Cons] by (simp add: k'_def k1_def)
    then show ?thesis
      using wake_frame(3) [OF d(1) tn, of MSG_OK kd KMtx] d kd by (auto simp: k1_def intro: same_trans)
  qed
  show "sys_ok kd idle X k'" by (rule sys_semop [OF s]) (use w fr in simp_all)
  show "current k' = current k" using fr by simp
qed

lemma sys_sem_add:
  assumes "sys_ok kd idle X k" and "kd sp = KSem"
  shows "sys_ok kd idle X (chSemAddCounterI sp n k)"
  using assms
proof (induction sp n k rule: chSemAddCounterI.induct)
  case (1 sp n k)
  show ?case
  proof (cases "0 < n")
    case False
    then show ?thesis using 1 by (subst chSemAddCounterI.simps) simp
  next
    case True
    then show ?thesis using 1(1) [OF True refl refl] sys_sem_unit [OF 1(2,3)] 1(3)
      by (subst chSemAddCounterI.simps) (simp add: Let_def)
  qed
qed

lemma sys_sem_signal_wait:
  assumes s: "sys_ok kd idle X k" and kd: "kd sps = KSem" "kd spw = KSem" and idle: "current k \<noteq> idle"
  shows "sys_ok kd idle X (snd (chSemSignalWait sps spw k)) \<and> highest (snd (chSemSignalWait sps spw k))"
proof -
  define k1 where "k1 = set_sem sps (sem_cnt k sps + 1) k"
  define k2 where "k2 = (if sem_cnt k1 sps \<le> 0
      then (let (t, k) = queue_fifo_remove (QOBJ sps) k1 in set_u t MSG_OK (chSchReadyI t k)) else k1)"
  have s2: "sys_ok kd idle X k2" "current k2 = current k"
    using sys_sem_unit [OF s kd(1), folded k1_def, folded k2_def] by blast+
  have "set_u c w (queue_insert c (QOBJ spw) k) = queue_insert c (QOBJ spw) (set_u c w k)" for c w k
    by (simp add: set_u_def upd_thd_def queue_insert_def)
  then have eq: "snd (chSemSignalWait sps spw k) =
      (if fst (chSemWaitS spw k2) = Switched then snd (chSemWaitS spw k2) else chSchRescheduleS (snd (chSemWaitS spw k2)))"
    by (simp add: chSemSignalWait_def chSemWaitS_def Let_def k1_def k2_def)
  have w: "sys_ok kd idle X (snd (chSemWaitS spw k2))"
    using sys_sem_wait_timeout [OF s2(1) kd(2), of TIME_INFINITE] s2(2) idle by (simp add: wait_is_timeout)
  have "highest (snd (chSemWaitS spw k2))" if "fst (chSemWaitS spw k2) = Switched"
    using semk_block [OF sys_parts(4) [OF s2(1)] kd(2)] s2(2) idle that by (simp add: chSemWaitS_eq split: if_splits)
  then show ?thesis unfolding eq using w sys_reschedule [OF w] by simp
qed

section \<open>Mutexes\<close>

lemma sys_mtxop:
  assumes s: "sys_ok kd idle X k" and k': "mtxk kd idle Y k'" "sem_cnt k' = sem_cnt k"
    and q: "\<And>sp. kd sp = KSem \<Longrightarrow> set (qs k' (QOBJ sp)) = set (qs k (QOBJ sp))"
  shows "sys_ok kd idle Y k'"
  using sems_by_sets [OF sys_parts(2,3) [OF s] _ k'(2) q] k'(1) by (simp add: sys_ok_def mtxk_def)

lemma sys_lock:
  assumes s: "sys_ok kd idle X k" and kd: "kd mp = KMtx" and idle: "current k \<noteq> idle"
  shows "sys_ok kd idle X (snd (chMtxLockS mp k)) \<and> (highest k \<longrightarrow> highest (snd (chMtxLockS mp k)))"
proof (cases "mtx_owner k mp = NULL")
  case True
  let ?k = "set_mtxlist (current k) (mp # mtxlist (thd k (current k))) (set_owner mp (current k) k)"
  have eq: "snd (chMtxLockS mp k) = ?k" using True by (simp add: chMtxLockS_def Let_def)
  have "sys_ok kd idle X ?k"
    by (rule sys_mtxop [OF s lock_free [OF sys_parts(1) [OF s] kd True]]) simp_all
  moreover have "highest ?k = highest k" by (auto simp: highest_def)
  ultimately show ?thesis unfolding eq by simp
next
  case False
  let ?c = "current k"
  define k1 where "k1 = chMtxLockS_boost ?c (mtx_owner k mp) k"
  have m: "mtxk kd idle X k" and i: "kinv kd idle {} k" using sys_parts [OF s] by simp_all
  have st: "mtx_struct kd k" using m by (simp add: mtxk_def)
  have o: "only_raised k k1"
    using boost_loop [OF i mtxk_sorted [OF st] boosting_start [OF m, of "mtx_owner k mp" "tprio k ?c"]]
    unfolding k1_def by blast
  have eq: "snd (chMtxLockS mp k) = chSchGoSleepS CH_STATE_WTMTX (set_u ?c mp (queue_prio_insert ?c (QOBJ mp) k1))"
    using False by (simp add: chMtxLockS_def Let_def k1_def)
  have sets: "set (qs k1 q) = set (qs k q)" "sem_cnt k1 = sem_cnt k" for q using o by (simp_all add: only_raised_def)
  note l = lock_contended [OF m kd idle False]
  have "sys_ok kd idle X (snd (chMtxLockS mp k))"
    by (rule sys_mtxop [OF s]) (use l in \<open>auto simp: eq sets q_prio_insert_def kd\<close>)
  then show ?thesis using l by simp
qed

lemma sys_try_lock:
  assumes s: "sys_ok kd idle X k" and kd: "kd mp = KMtx" and idle: "current k \<noteq> idle"
  shows "sys_ok kd idle X (snd (chMtxTryLockS mp k)) \<and> (highest k \<longrightarrow> highest (snd (chMtxTryLockS mp k)))"
proof (cases "mtx_owner k mp = NULL")
  case True
  then have "snd (chMtxTryLockS mp k) = snd (chMtxLockS mp k)" by (simp add: chMtxTryLockS_def chMtxLockS_def Let_def)
  then show ?thesis using sys_lock [OF assms] by simp
next
  case False
  then show ?thesis using s by (simp add: chMtxTryLockS_def)
qed

lemma release_queues:
  assumes q: "q \<noteq> QOBJ mp" "q \<noteq> RLIST"
  shows "qs (mtx_pass mp k) q = qs k q" "qs (mtx_release mp k) q = qs k q" "qs (chMtxUnlockS mp k) q = qs k q"
proof -
  show a: "qs (mtx_pass mp k) q = qs k q" for k
    using q by (cases "qs k (QOBJ mp)") (auto simp: mtx_pass_def queue_fifo_remove_def q_prio_insert_def Let_def)
  show "qs (mtx_release mp k) q = qs k q" by (simp add: mtx_release_def a)
  show "qs (chMtxUnlockS mp k) q = qs k q" by (simp add: chMtxUnlockS_def Let_def a)
qed

lemma release_counts:
  "sem_cnt (mtx_pass mp k) = sem_cnt k" "sem_cnt (mtx_release mp k) = sem_cnt k" "sem_cnt (chMtxUnlockS mp k) = sem_cnt k"
proof -
  show a: "sem_cnt (mtx_pass mp k) = sem_cnt k" for k
    by (cases "qs k (QOBJ mp)") (auto simp: mtx_pass_def queue_fifo_remove_def Let_def)
  show "sem_cnt (mtx_release mp k) = sem_cnt k" by (simp add: mtx_release_def a)
  show "sem_cnt (chMtxUnlockS mp k) = sem_cnt k" by (simp add: chMtxUnlockS_def Let_def a)
qed

lemma owned_kind: "mtx_struct kd k \<Longrightarrow> mp \<in> set (mtxlist (thd k t)) \<Longrightarrow> kd mp = KMtx"
  unfolding mtx_struct_def by metis

lemma sys_unlockS:
  assumes s: "sys_ok kd idle X k" and ml: "mtxlist (thd k (current k)) = mp # ms"
  shows "sys_ok kd idle X (chMtxUnlockS mp k)" "current (chMtxUnlockS mp k) = current k"
proof -
  note u = unlock_inv [OF sys_parts(1) [OF s] ml]
  have "kd mp = KMtx" using owned_kind [of kd k mp "current k"] sys_parts(1) [OF s] ml by (simp add: mtxk_def)
  then have "qs (chMtxUnlockS mp k) (QOBJ sp) = qs k (QOBJ sp)" if "kd sp = KSem" for sp
    using release_queues(3) [of "QOBJ sp" mp k] that by (cases "sp = mp") auto
  then show "sys_ok kd idle X (chMtxUnlockS mp k)"
    using u release_counts(3) by (intro sys_mtxop [OF s]) simp_all
  show "current (chMtxUnlockS mp k) = current k" using u by simp
qed

lemma sys_unlock:
  assumes s: "sys_ok kd idle X k" and ml: "mtxlist (thd k (current k)) = mp # ms" and h: "highest k"
  shows "sys_ok kd idle X (chMtxUnlock mp k) \<and> highest (chMtxUnlock mp k)"
proof -
  note u = unlock_inv [OF sys_parts(1) [OF s] ml]
  have "highest (chMtxUnlockS mp k)" if "qs k (QOBJ mp) = []"
    using that h by (simp add: chMtxUnlockS_def Let_def chMtxQueueNotEmptyS_def queue_notempty_def highest_def)
  then show ?thesis using u sys_unlockS [OF s ml] sys_reschedule by auto
qed

lemma unlock_loop_queues:
  "mtxj kd idle X c k \<Longrightarrow> c = current k \<Longrightarrow>
    same_queues kd KSem k (chMtxUnlockAll_loop c k) \<and> sem_cnt (chMtxUnlockAll_loop c k) = sem_cnt k"
proof (induction "length (mtxlist (thd k c))" arbitrary: k)
  case 0
  then have "chMtxUnlockAll_loop c k = k" by (subst chMtxUnlockAll_loop.simps) simp
  then show ?case using same_refl by simp
next
  case (Suc n)
  then obtain mp ms where ml: "mtxlist (thd k c) = mp # ms" by (cases "mtxlist (thd k c)") auto
  let ?k = "mtx_release mp (set_mtxlist c ms k)"
  note r = release_inv [OF Suc.prems ml]
  have "kd mp = KMtx" using owned_kind [of kd k mp c] Suc.prems(1) ml by (simp add: mtxj_def)
  then have "qs ?k (QOBJ sp) = qs k (QOBJ sp)" if "kd sp = KSem" for sp
    using release_queues(2) [of "QOBJ sp" mp "set_mtxlist c ms k"] that by (cases "sp = mp") auto
  then have q: "same_queues kd KSem k ?k" "sem_cnt ?k = sem_cnt k"
    using release_counts(2) by (simp_all add: same_queues_def)
  have "n = length (mtxlist (thd ?k c))" using r Suc(2) ml by simp
  from Suc(1) [OF this] r have
    "same_queues kd KSem ?k (chMtxUnlockAll_loop c ?k) \<and> sem_cnt (chMtxUnlockAll_loop c ?k) = sem_cnt ?k" by simp
  moreover have "chMtxUnlockAll_loop c k = chMtxUnlockAll_loop c ?k"
    using ml by (simp add: chMtxUnlockAll_loop.simps [of c k])
  ultimately show ?case using q same_trans(2) by metis
qed

lemma sys_unlock_all:
  assumes s: "sys_ok kd idle X k" and h: "highest k"
  shows "sys_ok kd idle X (chMtxUnlockAllS k)" "sys_ok kd idle X (chMtxUnlockAll k) \<and> highest (chMtxUnlockAll k)"
proof -
  note u = unlock_all_inv [OF sys_parts(1) [OF s]]
  note l = unlock_loop_queues [OF mtxk_mtxj [OF sys_parts(1) [OF s]] refl]
  show a: "sys_ok kd idle X (chMtxUnlockAllS k)"
  proof (rule sys_mtxop [OF s])
    show "mtxk kd idle X (chMtxUnlockAllS k)" using u by blast
  qed (use l in \<open>simp_all add: chMtxUnlockAllS_def Let_def same_queues_def\<close>)
  have "chMtxUnlockAll k = (if mtxlist (thd k (current k)) \<noteq> [] then chSchRescheduleS (chMtxUnlockAllS k) else k)"
    by (simp add: chMtxUnlockAll_def chMtxUnlockAllS_def Let_def)
  then show "sys_ok kd idle X (chMtxUnlockAll k) \<and> highest (chMtxUnlockAll k)"
    using s h sys_reschedule [OF a] by simp
qed

section \<open>Condition variables\<close>

lemma sys_cond_wait:
  assumes s: "sys_ok kd idle X k" and ml: "mtxlist (thd k (current k)) = mp # ms" and kd: "kd cp = KCond"
    and idle: "current k \<noteq> idle"
  shows "sys_ok kd idle X (snd (chCondWaitS cp k)) \<and> highest (snd (chCondWaitS cp k)) \<and>
    sys_ok kd idle X (snd (chCondWaitTimeoutS cp time k)) \<and> highest (snd (chCondWaitTimeoutS cp time k))"
proof -
  define k1 where "k1 = chMtxUnlockS mp k"
  note u = sys_unlockS [OF s ml, folded k1_def]
  define k2 where "k2 = queue_prio_insert (current k1) (QOBJ cp) (set_u (current k1) cp k1)"
  let ?k = "chSchGoSleepS CH_STATE_WTCOND k2" and ?kt = "chSchGoSleepTimeoutS CH_STATE_WTCOND time k2"
  have b: "mtxk kd idle X ?k \<and> highest ?k"
    using mtxk_block_cond [OF sys_parts(1) [OF u(1)] kd] idle u(2) by (simp add: k2_def)
  have mp: "chMtxGetNextMutexS k = mp" using ml by (simp add: chMtxGetNextMutexS_def)
  have eq: "snd (chCondWaitS cp k) = ?k" "snd (chCondWaitTimeoutS cp time k) = ?kt"
    using u(2) by (simp_all add: chCondWaitS_def chCondWaitTimeoutS_def Let_def mp k2_def k1_def)
  have "sys_ok kd idle X ?k"
    by (rule sys_mtxop [OF u(1)]) (use b kd in \<open>auto simp: k2_def q_prio_insert_def\<close>)
  then have k: "sys_ok kd idle X ?k" "kinv kd idle {} ?k" using sys_parts(3) by blast+
  have "sys_ok kd idle X ?kt"
    by (rule sys_other [OF k(1)]) (use k sys_parts(5) [OF k(1)] in \<open>simp_all add: timeout_views same_data_def same_queues_def\<close>)
  then show ?thesis unfolding eq using b k(1) by (simp add: timeout_views)
qed

lemma sys_cond_signal:
  assumes s: "sys_ok kd idle X k" and kd: "kd cp = KCond"
  shows "sys_ok kd idle X (chCondSignal cp k)" "sys_ok kd idle X (chCondSignalI cp k)"
    "highest k \<Longrightarrow> highest (chCondSignal cp k)"
proof -
  have "sys_ok kd idle X (chCondSignal cp k) \<and> sys_ok kd idle X (chCondSignalI cp k) \<and> (highest k \<longrightarrow> highest (chCondSignal cp k))"
  proof (cases "qs k (QOBJ cp)")
    case Nil
    then show ?thesis using s by (simp add: chCondSignal_def chCondSignalI_def queue_notempty_def)
  next
    case (Cons t r)
    have m: "mtxk kd idle X k" and i: "kinv kd idle {} k" using sys_parts [OF s] by simp_all
    have t: "t \<in> set (qs k (QOBJ cp))" using Cons by simp
    have eq: "chCondSignal cp k = chSchWakeupS t MSG_OK (queue_dequeue t k)"
      "chCondSignalI cp k = chSchReadyI t (set_u t MSG_OK (queue_dequeue t k))"
      using Cons fifo_remove_eq [OF i Cons] by (simp_all add: chCondSignal_def chCondSignalI_def queue_notempty_def)
    have q: "qs (queue_dequeue t k) (QOBJ sp) = qs k (QOBJ sp)" if "kd sp = KSem" for sp
      using dequeue_frame(3) [OF i sys_parts(5) [OF s] t, of KSem] kd that by (simp add: same_queues_def)
    note r = mtxk_release_cond [OF m kd Cons, of MSG_OK]
    have "sys_ok kd idle X (chSchWakeupS t MSG_OK (queue_dequeue t k))"
      by (rule sys_mtxop [OF s]) (use r q in simp_all)
    moreover have "sys_ok kd idle X (chSchReadyI t (set_u t MSG_OK (queue_dequeue t k)))"
      by (rule sys_mtxop [OF s]) (use r q in \<open>simp_all add: q_prio_insert_def\<close>)
    ultimately show ?thesis unfolding eq using kinv_release [OF i t, of MSG_OK] by blast
  qed
  then show "sys_ok kd idle X (chCondSignal cp k)" "sys_ok kd idle X (chCondSignalI cp k)"
    "highest k \<Longrightarrow> highest (chCondSignal cp k)" by blast+
qed

lemma sys_cond_broadcast:
  "sys_ok kd idle X k \<Longrightarrow> kd cp = KCond \<Longrightarrow> sys_ok kd idle X (chCondBroadcastI cp k)"
proof (induction "qs k (QOBJ cp)" arbitrary: k)
  case Nil
  then show ?case by (subst chCondBroadcastI.simps) (simp add: queue_notempty_def)
next
  case (Cons t r)
  have q: "qs k (QOBJ cp) = t # r" using Cons.hyps(2) by simp
  have m: "mtxk kd idle X k" and i: "kinv kd idle {} k" using sys_parts [OF Cons.prems(1)] by simp_all
  have t: "t \<in> set (qs k (QOBJ cp))" using q by simp
  let ?k = "set_u t MSG_RESET (chSchReadyI t (queue_dequeue t k))"
  have step: "chCondBroadcastI cp k = chCondBroadcastI cp ?k"
    using q fifo_remove_eq [OF i q] by (subst chCondBroadcastI.simps) (simp add: queue_notempty_def)
  have "qs (queue_dequeue t k) (QOBJ sp) = qs k (QOBJ sp)" if "kd sp = KSem" for sp
    using dequeue_frame(3) [OF i sys_parts(5) [OF Cons.prems(1)] t, of KSem] Cons.prems(2) that by (simp add: same_queues_def)
  then have "sys_ok kd idle X ?k"
    using mtxk_release_cond [OF m Cons.prems(2) q, of MSG_RESET]
    by (intro sys_mtxop [OF Cons.prems(1)]) (simp_all add: q_prio_insert_def)
  moreover have "t \<notin> set r" using kinv_queues [OF i] q unfolding queues_ok_def by (metis distinct.simps(2))
  then have "r = qs ?k (QOBJ cp)" using q by (simp add: q_prio_insert_def q_dequeue_def)
  ultimately show ?case unfolding step using Cons.hyps(1) Cons.prems(2) by blast
qed

section \<open>Threads\<close>

lemma sys_wake:
  assumes s: "sys_ok kd idle X k" and t: "t \<noteq> NULL" and i: "kinv kd idle {} k'"
    and k': "k' \<in> {chSchReadyI t k, chSchReadyI t (set_u t m k), chSchWakeupS t m k}"
  shows "sys_ok kd idle X k'"
proof -
  have "sem_cnt k' = sem_cnt k" using k' by auto
  then show ?thesis using k' wake_frame [OF sys_parts(5) [OF s] t] by (intro sys_other [OF s i]) auto
qed

lemma sys_enqueue:
  assumes s: "sys_ok kd idle X k" and kd: "kd tqp = KQueue" and idle: "current k \<noteq> idle"
  shows "sys_ok kd idle X (snd (chThdEnqueueTimeoutS tqp time k)) \<and>
    (highest k \<longrightarrow> highest (snd (chThdEnqueueTimeoutS tqp time k)))"
proof -
  note e = enqueue_timeout_inv [OF sys_parts(3) [OF s] kd idle, of time]
  have "set_u (current k) (u (thd k (current k))) k = k" by (simp add: set_u_def upd_thd_def)
  then have f: "null_ok k'" "same_data k k'" "same_queues kd KMtx k k'" "same_queues kd KSem k k'"
    if "k' = chSchGoSleepS CH_STATE_QUEUED (queue_insert (current k) (QOBJ tqp) k)" for k'
    using enqueue_frame [OF sys_parts(5) [OF s] sys_ready [OF s idle], of "QOBJ tqp" kd _ CH_STATE_QUEUED "u (thd k (current k))"]
      kd that by auto
  show ?thesis
  proof (cases "time = TIME_IMMEDIATE")
    case True
    then show ?thesis using e s by simp
  next
    case False
    then have eq: "snd (chThdEnqueueTimeoutS tqp time k) =
        chSchGoSleepTimeoutS CH_STATE_QUEUED time (queue_insert (current k) (QOBJ tqp) k)"
      by (simp add: chThdEnqueueTimeoutS_def)
    have "sys_ok kd idle X (snd (chThdEnqueueTimeoutS tqp time k))"
      unfolding eq by (rule sys_other [OF s]) (use e False eq f [OF refl] in \<open>simp_all add: timeout_views\<close>)
    then show ?thesis using e False by simp
  qed
qed

text \<open>A waiter of a condition variable or thread queue leaves it and becomes ready.\<close>

lemma sys_release:
  assumes s: "sys_ok kd idle X k" and t: "t \<in> set (qs k (QOBJ ob))" and kd: "kd ob \<in> {KCond, KQueue}"
  shows "sys_ok kd idle X (chSchReadyI t (set_u t m (queue_dequeue t k)))"
proof -
  have i: "kinv kd idle {} k" using sys_parts [OF s] by simp
  have tn: "t \<noteq> NULL" by (rule null_ok_mem [OF sys_parts(5) [OF s] t])
  have d: "null_ok (queue_dequeue t k)" "same_data k (queue_dequeue t k)" "same_queues kd KMtx k (queue_dequeue t k)"
    "same_queues kd KSem k (queue_dequeue t k)"
    using dequeue_frame [OF i sys_parts(5) [OF s] t, of KMtx] dequeue_frame(3) [OF i sys_parts(5) [OF s] t, of KSem] kd
    by auto
  note w = wake_frame(2) [OF d(1) tn, of m kd]
  show ?thesis
  proof (rule sys_other [OF s])
    show "same_data k (chSchReadyI t (set_u t m (queue_dequeue t k)))" using same_trans(1) [OF d(2)] w by blast
    show "same_queues kd KMtx k (chSchReadyI t (set_u t m (queue_dequeue t k)))" using same_trans(2) [OF d(3)] w by blast
    show "same_queues kd KSem k (chSchReadyI t (set_u t m (queue_dequeue t k)))" using same_trans(2) [OF d(4)] w by blast
  qed (use kinv_release [OF i t, of m] w in simp_all)
qed

lemma sys_dequeue_next:
  assumes s: "sys_ok kd idle X k" and kd: "kd tqp = KQueue"
  shows "sys_ok kd idle X (chThdDequeueNextI tqp m k)"
proof (cases "qs k (QOBJ tqp)")
  case Nil
  then show ?thesis using s by (simp add: chThdDequeueNextI_def queue_notempty_def)
next
  case (Cons t r)
  have "chThdDequeueNextI tqp m k = chSchReadyI t (set_u t m (queue_dequeue t k))"
    using Cons fifo_remove_eq [OF sys_parts(3) [OF s] Cons]
    by (simp add: chThdDequeueNextI_def chThdDoDequeueNextI_def queue_notempty_def)
  then show ?thesis using sys_release [OF s, of t tqp m] Cons kd by simp
qed

lemma sys_dequeue_all:
  "sys_ok kd idle X k \<Longrightarrow> kd tqp = KQueue \<Longrightarrow> sys_ok kd idle X (chThdDequeueAllI tqp m k)"
proof (induction "qs k (QOBJ tqp)" arbitrary: k)
  case Nil
  then show ?case by (subst chThdDequeueAllI.simps) (simp add: queue_notempty_def)
next
  case (Cons t r)
  have q: "queue_notempty (QOBJ tqp) k" using Cons.hyps(2) by (metis list.distinct(1) queue_notempty_def)
  have "chThdDequeueAllI tqp m k = chThdDequeueAllI tqp m (chThdDequeueNextI tqp m k)"
    using q by (subst chThdDequeueAllI.simps) (simp add: chThdDequeueNextI_def)
  moreover have "r = qs (chThdDequeueNextI tqp m k) (QOBJ tqp)"
    using dequeue_next_any [OF sys_parts(3) [OF Cons.prems(1)], of tqp m] Cons.hyps(2) by (metis list.sel(3))
  ultimately show ?case
    using Cons.hyps(1) sys_dequeue_next [OF Cons.prems, of m] Cons.prems(2) by simp
qed

text \<open>A thread that sleeps in no queue, with or without a timeout.\<close>

lemma sys_sleep:
  assumes s: "sys_ok kd idle X k" and idle: "current k \<noteq> idle" and st: "\<not> queued st" "st \<noteq> CH_STATE_CURRENT"
    and k1: "k1 = set_u (current k) w (k\<lparr>refvar := f\<rparr>)"
  shows "sys_ok kd idle X (chSchGoSleepS st k1) \<and> highest (chSchGoSleepS st k1) \<and>
    sys_ok kd idle X (chSchGoSleepTimeoutS st time k1) \<and> highest (chSchGoSleepTimeoutS st time k1)"
proof -
  let ?r = "k\<lparr>refvar := f\<rparr>"
  have "tstate k (current k) = CH_STATE_CURRENT" using current_state [OF sys_parts(3) [OF s]] by simp
  then have i: "kinv kd idle {} k1"
    unfolding k1 by (intro kinv_set_u_other) (use sys_parts(3) [OF s] in simp_all)
  have idle1: "current k1 \<noteq> idle" using idle by (simp add: k1)
  have "st \<noteq> CH_STATE_READY" using st(1) by (auto simp: queued_def)
  then have kin: "kinv kd idle {} (chSchGoSleepS st k1) \<and> highest (chSchGoSleepS st k1)"
    using kinv_sleep [OF i idle1 st(1)] st(2) by simp
  have n: "null_ok ?r" "qs ?r RLIST \<noteq> []" using sys_parts(5) [OF s] sys_ready [OF s idle] by (simp_all add: null_ok_def)
  have v: "same_data ?r x = same_data k x" "same_queues kd' c ?r x = same_queues kd' c k x" for x c and kd' :: "ptr \<Rightarrow> okind"
    by (simp_all add: same_data_def same_queues_def)
  have k1': "k1 = set_u (current ?r) w ?r" by (simp add: k1)
  note f = sleep_frame [OF n, where st = st and w = w, unfolded v, folded k1']
  show ?thesis
    using kin f sys_other [OF s, of "chSchGoSleepS st k1"] sys_other [OF s, of "chSchGoSleepTimeoutS st time k1"]
    by (simp add: timeout_views) (simp add: k1)
qed

lemma sys_cong:
  "thd k' = thd k \<Longrightarrow> qs k' = qs k \<Longrightarrow> current k' = current k \<Longrightarrow> mtx_owner k' = mtx_owner k \<Longrightarrow>
    sem_cnt k' = sem_cnt k \<Longrightarrow> sys_ok kd idle X k' = sys_ok kd idle X k"
  by (simp add: sys_ok_def mtxk_def mtx_struct_def pi_ok_def justified_def sems_ok_def sem_ok_def kinv_fields_cong [of k' k])

lemma sys_refvar [simp]: "sys_ok kd idle X (k\<lparr>refvar := f\<rparr>) = sys_ok kd idle X k"
  by (rule sys_cong) simp_all

lemma sys_suspend:
  assumes s: "sys_ok kd idle X k" and idle: "current k \<noteq> idle"
  shows "sys_ok kd idle X (chThdSuspendS trp k) \<and> highest (chThdSuspendS trp k)"
    "sys_ok kd idle X (snd (chThdSuspendTimeoutS trp time k)) \<and>
      (highest k \<longrightarrow> highest (snd (chThdSuspendTimeoutS trp time k)))"
proof -
  have st: "\<not> queued CH_STATE_SUSPENDED" "CH_STATE_SUSPENDED \<noteq> CH_STATE_CURRENT" by (simp_all add: queued_def)
  note w = sys_sleep [OF s idle st refl]
  show "sys_ok kd idle X (chThdSuspendS trp k) \<and> highest (chThdSuspendS trp k)"
    using w by (simp add: chThdSuspendS_def Let_def)
  show "sys_ok kd idle X (snd (chThdSuspendTimeoutS trp time k)) \<and>
      (highest k \<longrightarrow> highest (snd (chThdSuspendTimeoutS trp time k)))"
    using w s by (simp add: chThdSuspendTimeoutS_def Let_def)
qed

lemma sys_resume:
  assumes s: "sys_ok kd idle X k" and t: "tstate k (refvar k trp) = CH_STATE_SUSPENDED"
  shows "sys_ok kd idle X (chThdResumeI trp m k)" "sys_ok kd idle X (chThdResumeS trp m k)"
    "highest k \<Longrightarrow> highest (chThdResumeS trp m k)"
proof -
  let ?t = "refvar k trp" and ?r = "k\<lparr>refvar := (refvar k)(trp := NULL)\<rparr>"
  have sr: "sys_ok kd idle X ?r" using s by simp
  have nq: "\<not> queued (tstate ?r ?t)" using t by (simp add: queued_def)
  have c: "?t \<noteq> current ?r" using current_state [OF sys_parts(3) [OF s], of ?t] t by auto
  note w = kinv_start [OF sys_parts(3) [OF sr] nq c]
  show "sys_ok kd idle X (chThdResumeI trp m k)"
    using s sys_wake [OF sr _ w(2), of ?t m m] by (simp add: chThdResumeI_def Let_def)
  show "sys_ok kd idle X (chThdResumeS trp m k)"
    using s sys_wake [OF sr _ w(3), of ?t m m] by (simp add: chThdResumeS_def Let_def)
  have "highest ?r = highest k" by (simp add: highest_def)
  then show "highest (chThdResumeS trp m k)" if "highest k"
    using w(4) [of m] that by (simp add: chThdResumeS_def Let_def)
qed

lemma sys_thread_sleep:
  assumes "sys_ok kd idle X k" and "current k \<noteq> idle"
  shows "sys_ok kd idle X (chThdSleepS time k) \<and> highest (chThdSleepS time k)"
proof -
  have st: "\<not> queued CH_STATE_SLEEPING" "CH_STATE_SLEEPING \<noteq> CH_STATE_CURRENT" by (simp_all add: queued_def)
  have "set_u (current k) (u (thd k (current k))) (k\<lparr>refvar := refvar k\<rparr>) = k" by (simp add: set_u_def upd_thd_def)
  then show ?thesis
    using sys_sleep [OF assms st, of k "u (thd k (current k))" "refvar k" time] by (simp add: chThdSleepS_def)
qed

text \<open>An expired timeout, in every state a thread can sleep in with one.\<close>

lemma sys_wakeup:
  assumes s: "sys_ok kd idle X k" and t: "timed (tstate k t) \<or> tstate k t = CH_STATE_READY" and tn: "t \<noteq> NULL"
  shows "sys_ok kd idle X (wakeup t k)"
proof -
  have i: "kinv kd idle {} k" using sys_parts [OF s] by simp
  have pl: "placed kd k t" using kinv_placed [OF i, of t] by simp
  consider "tstate k t = CH_STATE_READY" | "tstate k t = CH_STATE_WTSEM" | "tstate k t \<in> {CH_STATE_WTCOND, CH_STATE_QUEUED}"
    | "tstate k t = CH_STATE_SUSPENDED" | "tstate k t \<in> {CH_STATE_SLEEPING, CH_STATE_WTOREVT, CH_STATE_WTANDEVT}"
    using t unfolding timed_def by blast
  then show ?thesis
  proof cases
    case 1
    then show ?thesis using s by (simp add: wakeup_def)
  next
    case 2
    let ?sp = "u (thd k t)"
    obtain q where "t \<in> set (qs k q)" using pl 2 by (auto simp: placed_def queued_def in_queue_def)
    then have tq: "t \<in> set (qs k (QOBJ ?sp))" and kd: "kd ?sp = KSem" using pl 2 by (auto simp: placed_def)
    let ?k = "set_sem ?sp (sem_cnt k ?sp + 1) k"
    have eq: "wakeup t k = chSchReadyI t (set_u t MSG_TIMEOUT (queue_dequeue t ?k))"
      using 2 by (simp add: wakeup_eq wakeup_wait_def Let_def set_sem_def)
    have t1: "t \<in> set (qs ?k (QOBJ ?sp))" and i1: "kinv kd idle {} ?k" and n1: "null_ok ?k"
      using tq i sys_parts(5) [OF s] by simp_all
    note d = dequeue_frame [OF i1 n1 t1, of KMtx]
    have d: "null_ok (queue_dequeue t ?k)" "same_data k (queue_dequeue t ?k)" "same_queues kd KMtx k (queue_dequeue t ?k)"
      using d kd by simp_all
    note w = wake_frame(2) [OF d(1) tn, of MSG_TIMEOUT kd KMtx]
    show ?thesis unfolding eq
    proof (rule sys_semop [OF s])
      show "same_data k (chSchReadyI t (set_u t MSG_TIMEOUT (queue_dequeue t ?k)))" using same_trans(1) [OF d(2)] w by blast
      show "same_queues kd KMtx k (chSchReadyI t (set_u t MSG_TIMEOUT (queue_dequeue t ?k)))"
        using same_trans(2) [OF d(3)] w by blast
      show "semk kd idle (chSchReadyI t (set_u t MSG_TIMEOUT (queue_dequeue t ?k)))"
        using semk_wake [OF sys_parts(4) [OF s] kd tq _ refl, of "chSchReadyI t (set_u t MSG_TIMEOUT (queue_dequeue t ?k))"
          MSG_TIMEOUT] by blast
    qed (use w in blast)
  next
    case 3
    obtain q where q: "t \<in> set (qs k q)" using pl 3 by (auto simp: placed_def queued_def in_queue_def)
    have al: "allowed kd (tstate k t) (u (thd k t)) q" using pl q by (simp add: placed_def)
    then obtain ob where ob: "q = QOBJ ob" "kd ob \<in> {KCond, KQueue}" using 3 by (cases q) auto
    have "wakeup t k = chSchReadyI t (set_u t MSG_TIMEOUT (queue_dequeue t k))"
      using 3 by (auto simp: wakeup_eq wakeup_wait_def)
    then show ?thesis using sys_release [OF s _ ob(2), of t MSG_TIMEOUT] q ob(1) by simp
  next
    case 4
    let ?r = "k\<lparr>refvar := (refvar k)(u (thd k t) := NULL)\<rparr>"
    have sr: "sys_ok kd idle X ?r" using s by simp
    have "\<not> queued (tstate ?r t)" "t \<noteq> current ?r"
      using 4 current_state [OF i, of t] by (auto simp: queued_def)
    note w = kinv_start(2) [OF sys_parts(3) [OF sr] this, of MSG_TIMEOUT]
    have "wakeup t k = chSchReadyI t (set_u t MSG_TIMEOUT ?r)" using 4 by (simp add: wakeup_eq wakeup_wait_def)
    then show ?thesis using sys_wake [OF sr tn w, of MSG_TIMEOUT] by simp
  next
    case 5
    then have "\<not> queued (tstate k t)" "t \<noteq> current k" using current_state [OF i, of t] by (auto simp: queued_def)
    note w = kinv_start(2) [OF i this, of MSG_TIMEOUT]
    have "wakeup t k = chSchReadyI t (set_u t MSG_TIMEOUT k)" using 5 by (auto simp: wakeup_eq wakeup_wait_def)
    then show ?thesis using sys_wake [OF s tn w, of MSG_TIMEOUT] by simp
  qed
qed

lemma sys_yield:
  assumes s: "sys_ok kd idle X k" and h: "highest k"
  shows "sys_ok kd idle X (chSchDoYieldS k) \<and> highest (chSchDoYieldS k)"
proof (cases "chSchCanYieldS k")
  case False
  then show ?thesis using assms by (simp add: chSchDoYieldS_def)
next
  case True
  have "0 < tprio k (current k)" using sys_parts(3) [OF s] by (simp add: kinv_def)
  then obtain t r where q: "qs k RLIST = t # r"
    using True by (cases "qs k RLIST") (auto simp: chSchCanYieldS_def firstprio_def NOPRIO_def)
  have eq: "chSchDoYieldS k = chSchReadyI (current k) (take_first k)"
    using True by (simp add: chSchDoYieldS_def chSchDoRescheduleBehind_def Let_def)
  have n: "current k \<noteq> NULL" "t \<noteq> NULL" "NULL \<notin> set r" "\<And>x. NULL \<notin> set (qs k x)"
    using sys_parts(5) [OF s] q unfolding null_ok_def by (auto dest: spec [of _ RLIST])
  have "null_ok (chSchDoYieldS k)"
    using n by (simp add: null_ok_def eq take_first_fields [OF q] q_prio_insert_def)
  moreover have "same_data k (chSchDoYieldS k)" "same_queues kd c k (chSchDoYieldS k)" "sem_cnt (chSchDoYieldS k) = sem_cnt k" for c
    by (auto simp: eq same_data_def same_queues_def take_first_fields [OF q] q_prio_insert_def)
  ultimately show ?thesis
    using kinv_chSchDoYieldS [OF sys_parts(3) [OF s] h] by (intro conjI sys_other [OF s]) auto
qed

lemma sys_set_priority:
  assumes s: "sys_ok kd idle X k" and p: "0 < p"
  shows "sys_ok kd idle (if lowers kd p k then insert (current k) X else X) (snd (chThdSetPriority p k)) \<and>
    highest (snd (chThdSetPriority p k))"
  using set_priority_inv [OF sys_parts(1) [OF s] p refl] by (auto intro: sys_mtxop [OF s] simp: chThdSetPriority_def Let_def)

section \<open>Events\<close>

lemma sys_set_pending:
  assumes s: "sys_ok kd idle X k"
  shows "sys_ok kd idle X (set_pending t w k)"
proof (rule sys_other [OF s])
  show "kinv kd idle {} (set_pending t w k)" using kinv_set_pending [OF sys_parts(3) [OF s]] .
  show "null_ok (set_pending t w k)" using sys_parts(5) [OF s] by (simp add: null_ok_def)
qed (simp_all add: same_data_def same_queues_def set_pending_def upd_thd_def)

lemma sys_evt_signal:
  assumes s: "sys_ok kd idle X k" and tn: "tp \<noteq> NULL"
  shows "sys_ok kd idle X (chEvtSignalI tp ev k)"
proof -
  let ?k = "set_pending tp (pending k tp OR ev) k"
  have sk: "sys_ok kd idle X ?k" by (rule sys_set_pending [OF s])
  have "sys_ok kd idle X (chSchReadyI tp (set_u tp MSG_OK ?k))" if "satisfied ?k tp"
  proof -
    have "\<not> queued (tstate ?k tp)" "tp \<noteq> current ?k"
      using that current_state [OF sys_parts(3) [OF sk], of tp] by (auto simp: satisfied_def queued_def)
    note w = kinv_start(2) [OF sys_parts(3) [OF sk] this, of MSG_OK]
    show ?thesis using sys_wake [OF sk tn w, of MSG_OK] by simp
  qed
  then show ?thesis using sk by (simp add: signal_eq Let_def)
qed

lemma sys_add_flags: "sys_ok kd idle X (add_flags e fl k) = sys_ok kd idle X k"
  by (rule sys_cong) (simp_all add: add_flags_def)

lemma listener_same:
  "el_listener (evt_lis (add_flags e fl k) l) = el_listener (evt_lis k l)"
  "evt_lis (chEvtSignalI tp ev k) = evt_lis k"
  by (simp_all add: signal_eq Let_def)

lemma sys_broadcast:
  "sys_ok kd idle X k \<Longrightarrow> \<forall>l \<in> set ls. el_listener (evt_lis k l) \<noteq> NULL \<Longrightarrow> sys_ok kd idle X (broadcast_loop fl ls k)"
proof (induction ls arbitrary: k)
  case (Cons e r)
  let ?k = "add_flags e fl k" and ?l = "evt_lis k e"
  let ?k' = "if hit fl ?l then chEvtSignalI (el_listener ?l) (el_events ?l) ?k else ?k"
  have "sys_ok kd idle X ?k'"
    using sys_add_flags Cons.prems(1) sys_evt_signal [of kd idle X ?k "el_listener ?l"] Cons.prems(2) by simp
  moreover have "\<forall>l \<in> set r. el_listener (evt_lis ?k' l) \<noteq> NULL"
    using Cons.prems(2) by (simp add: listener_same del: add_flags_simps)
  ultimately show ?case using Cons.IH [of ?k'] by (simp only: broadcast_loop_Cons)
qed simp

lemma sys_event_sleep:
  assumes s: "sys_ok kd idle X k" and idle: "current k \<noteq> idle" and st: "st \<in> {CH_STATE_WTOREVT, CH_STATE_WTANDEVT}"
  shows "sys_ok kd idle X (chSchGoSleepS st (set_u (current k) ev k)) \<and> highest (chSchGoSleepS st (set_u (current k) ev k)) \<and>
    sys_ok kd idle X (chSchGoSleepTimeoutS st time (set_u (current k) ev k)) \<and>
    highest (chSchGoSleepTimeoutS st time (set_u (current k) ev k))"
proof -
  have "\<not> queued st" "st \<noteq> CH_STATE_CURRENT" using st by (auto simp: queued_def)
  then show ?thesis using sys_sleep [OF s idle, of st "set_u (current k) ev k" ev "refvar k" time] by simp
qed

definition evt_wait_ops :: "u32 \<Rightarrow> systime \<Rightarrow> (kernel \<Rightarrow> u32 outcome \<times> kernel) set" where
  "evt_wait_ops ev time = {chEvtWaitOne ev, chEvtWaitAny ev, chEvtWaitAll ev,
    chEvtWaitOneTimeout ev time, chEvtWaitAnyTimeout ev time, chEvtWaitAllTimeout ev time}"

definition evt_resume_ops :: "u32 \<Rightarrow> (kernel \<Rightarrow> u32 \<times> kernel) set" where
  "evt_resume_ops ev = {chEvtWaitOne_resume ev, chEvtWaitAny_resume ev, chEvtWaitAll_resume ev,
    chEvtGetAndClearEvents ev, chEvtAddEvents ev}"

lemma highest_set_pending: "highest (set_pending t w k) = highest k"
  by (auto simp: highest_def set_pending_def upd_thd_def)

lemma sys_event_wait:
  assumes s: "sys_ok kd idle X k" and idle: "current k \<noteq> idle" and f: "f \<in> evt_wait_ops ev time"
  shows "sys_ok kd idle X (snd (f k)) \<and> (highest k \<longrightarrow> highest (snd (f k)))"
proof -
  note z = sys_event_sleep [OF s idle, of _ ev time]
  note p = sys_set_pending [OF s] highest_set_pending
  show ?thesis
    using f z [of CH_STATE_WTOREVT] z [of CH_STATE_WTANDEVT] p s unfolding evt_wait_ops_def
    by (auto simp: chEvtWaitOne_def chEvtWaitAny_def chEvtWaitAll_def chEvtWaitOneTimeout_def
        chEvtWaitAnyTimeout_def chEvtWaitAllTimeout_def take_one_def take_any_def Let_def)
qed

lemma sys_event_resume:
  assumes s: "sys_ok kd idle X k" and f: "f \<in> evt_resume_ops ev"
  shows "sys_ok kd idle X (snd (f k)) \<and> (highest k \<longrightarrow> highest (snd (f k)))"
  using f sys_set_pending [OF s] unfolding evt_resume_ops_def
  by (auto simp: chEvtWaitOne_resume_def chEvtWaitAny_resume_def chEvtWaitAll_resume_def chEvtGetAndClearEvents_def
      chEvtAddEvents_def take_one_def take_any_def Let_def highest_set_pending)

section \<open>Messages\<close>

lemma sys_msg_send:
  fixes m :: msg
  assumes s: "sys_ok kd idle X k" and idle: "current k \<noteq> idle" and tp: "tp \<noteq> current k" "tp \<noteq> NULL"
  shows "sys_ok kd idle X (snd (chMsgSend tp m k)) \<and> highest (snd (chMsgSend tp m k))"
proof -
  let ?c = "current k"
  note i = send_inv [OF sys_parts(3) [OF s] idle tp(1), of m]
  let ?k1 = "queue_insert ?c (MSGQ tp) (set_u ?c m k)"
  define k2 where "k2 = (if tstate ?k1 tp = CH_STATE_WTMSG then chSchReadyI tp ?k1 else ?k1)"
  have eq: "snd (chMsgSend tp m k) = chSchGoSleepS CH_STATE_SNDMSGQ k2" by (simp add: chMsgSend_def Let_def k2_def)
  have n1: "null_ok ?k1" using null_ok_insert(1) [of "set_u ?c m k" "MSGQ tp"] sys_parts(5) [OF s] by simp
  have n2: "null_ok k2" using n1 null_ok_wake(1) [OF n1 tp(2)] by (simp add: k2_def)
  have "qs k2 RLIST \<noteq> []" using sys_ready [OF s idle] set_ins_where by (auto simp: k2_def q_insert_def q_prio_insert_def)
  note n = null_ok_sleep [OF n2 this]
  have "same_data k (chSchGoSleepS CH_STATE_SNDMSGQ k2)" "same_queues kd c k (chSchGoSleepS CH_STATE_SNDMSGQ k2)"
    "sem_cnt (chSchGoSleepS CH_STATE_SNDMSGQ k2) = sem_cnt k" for c
    by (simp_all add: k2_def same_data_def same_queues_def q_insert_def q_prio_insert_def)
  then have "sys_ok kd idle X (chSchGoSleepS CH_STATE_SNDMSGQ k2)" using sys_other [OF s] i n eq by metis
  then show ?thesis using i eq by simp
qed

lemma sys_msg_wait:
  assumes s: "sys_ok kd idle X k" and idle: "current k \<noteq> idle"
  shows "sys_ok kd idle X (snd (chMsgWait k)) \<and> (highest k \<longrightarrow> highest (snd (chMsgWait k)))"
proof (cases "qs k (MSGQ (current k))")
  case Nil
  have st: "\<not> queued CH_STATE_WTMSG" "CH_STATE_WTMSG \<noteq> CH_STATE_CURRENT" by (simp_all add: queued_def)
  have "set_u (current k) (u (thd k (current k))) (k\<lparr>refvar := refvar k\<rparr>) = k" by (simp add: set_u_def upd_thd_def)
  then show ?thesis
    using sys_sleep [OF s idle st, of k "u (thd k (current k))" "refvar k"] Nil
    by (simp add: chMsgWait_def chMsgIsPendingI_def)
next
  case (Cons t r)
  have i: "kinv kd idle {} k" using sys_parts [OF s] by simp
  note rc = receive_inv [OF i Cons]
  have eq: "snd (chMsgWait k) = set_state t CH_STATE_SNDMSG (queue_dequeue t k)"
    using fifo_remove_eq [OF i Cons] Cons by (simp add: chMsgWait_def chMsgIsPendingI_def chMsgWait_resume_def)
  have t: "t \<in> set (qs k (MSGQ (current k)))" using Cons by simp
  have tn: "t \<noteq> NULL" by (rule null_ok_mem [OF sys_parts(5) [OF s] t])
  have "null_ok (snd (chMsgWait k))" using null_ok_wake(3) [OF sys_parts(5) [OF s] tn, of t] by (simp add: eq null_ok_def)
  moreover have "q_dequeue t (qs k) q = qs k q" if "q \<noteq> MSGQ (current k)" for q
    using q_dequeue_other [OF kinv_queues [OF i] t] that by simp
  then have "same_queues kd c k (snd (chMsgWait k))" "qs (snd (chMsgWait k)) RLIST = qs k RLIST" for c
    by (simp_all add: same_queues_def eq)
  moreover have "same_data k (snd (chMsgWait k))" "sem_cnt (snd (chMsgWait k)) = sem_cnt k" "current (snd (chMsgWait k)) = current k"
    "tprio (snd (chMsgWait k)) x = tprio k x" for x
    by (simp_all add: same_data_def eq)
  ultimately show ?thesis using sys_other [OF s] rc by (simp add: highest_def)
qed

lemma sys_msg_release:
  assumes s: "sys_ok kd idle X k" and t: "tstate k t = CH_STATE_SNDMSG" "t \<noteq> NULL"
  shows "sys_ok kd idle X (chMsgRelease t m k) \<and> (highest k \<longrightarrow> highest (chMsgRelease t m k))"
proof -
  have "\<not> queued (tstate k t)" "t \<noteq> current k"
    using t current_state [OF sys_parts(3) [OF s], of t] by (auto simp: queued_def)
  note w = kinv_start(3,4) [OF sys_parts(3) [OF s] this]
  show ?thesis using sys_wake [OF s t(2) w(1), of m m] w(2) by (simp add: chMsgRelease_def chMsgReleaseS_def)
qed

section \<open>Creating threads\<close>

text \<open>A thread structure that no object refers to.\<close>

definition spare :: "(ptr \<Rightarrow> okind) \<Rightarrow> ptr \<Rightarrow> ptr \<Rightarrow> kernel \<Rightarrow> bool" where
  "spare kd idle t k \<longleftrightarrow> vacant idle t k \<and> t \<noteq> NULL \<and> mtxlist (thd k t) = [] \<and> (\<forall>m. kd m = KMtx \<longrightarrow> mtx_owner k m \<noteq> t)"

lemma thread_init_view:
  "vacant idle t k \<Longrightarrow> qs (thread_init t nm p k) = qs k \<and> current (thread_init t nm p k) = current k \<and>
    mtx_owner (thread_init t nm p k) = mtx_owner k \<and> sem_cnt (thread_init t nm p k) = sem_cnt k \<and>
    (\<forall>x. x \<noteq> t \<longrightarrow> thd (thread_init t nm p k) x = thd k x) \<and> tprio (thread_init t nm p k) t = p \<and>
    realprio (thd (thread_init t nm p k) t) = p \<and> mtxlist (thd (thread_init t nm p k) t) = []"
  by (auto simp: thread_init_def Let_def REG_INSERT_def queue_init_def upd_thd_def vacant_def)

lemma sys_thread_init:
  assumes s: "sys_ok kd idle X k" and v: "spare kd idle t k" and p: "0 < p"
  shows "sys_ok kd idle X (thread_init t nm p k) \<and> (highest k \<longrightarrow> highest (thread_init t nm p k))"
proof -
  let ?k = "thread_init t nm p k"
  have vac: "vacant idle t k" using v by (simp add: spare_def)
  note m = sys_parts(1) [OF s] and i = sys_parts(3) [OF s]
  have nq: "t \<notin> set (qs k q)" for q using not_queued_state [OF i, of t q] vac by (simp add: vacant_def)
  note f = thread_init_view [OF vac, of nm p]
  have same: "tprio ?k x = tprio k x" if "x \<in> set (qs k q)" for x q using f that nq by metis
  have "kinv kd idle {} ?k" using thread_init_inv [OF i vac p] by simp
  moreover have "mtx_struct kd ?k"
  proof -
    have "by_prio (tprio ?k) (qs k q) = by_prio (tprio k) (qs k q)" for q
      by (rule by_prio_cong) (use same in auto)
    moreover have "mtxlist (thd ?k x) = mtxlist (thd k x)" for x using f v by (cases "x = t") (auto simp: spare_def)
    ultimately show ?thesis using m f by (simp add: mtxk_def mtx_struct_def)
  qed
  moreover have "pi_ok kd X ?k"
  proof -
    have "tprio ?k w \<le> tprio ?k (mtx_owner k x)" if "kd x = KMtx" "w \<in> set (qs k (QOBJ x))" "mtx_owner k x \<notin> X" for x w
    proof -
      have "tprio ?k (mtx_owner k x) = tprio k (mtx_owner k x)" using f v that(1) by (simp add: spare_def)
      then show ?thesis using m that same by (auto simp: mtxk_def pi_ok_def)
    qed
    then show ?thesis using f by (simp add: pi_ok_def)
  qed
  moreover have "justified kd ?k x" for x
  proof (cases "x = t")
    case True
    then show ?thesis using f by (simp add: justified_def)
  next
    case False
    then have "thd ?k x = thd k x" using f by blast
    moreover have "justified kd k x" using m by (simp add: mtxk_def)
    ultimately show ?thesis unfolding justified_def using f same by metis
  qed
  moreover have "sems_ok kd ?k" using s f by (simp add: sys_ok_def sems_ok_def sem_ok_def)
  moreover have "highest k \<longrightarrow> highest ?k"
  proof -
    have "thd ?k (current k) = thd k (current k)" using f vac by (auto simp: vacant_def)
    then show ?thesis using f same by (simp add: highest_def)
  qed
  ultimately show ?thesis by (simp add: sys_ok_def mtxk_def)
qed

lemma sys_wabase:
  assumes s: "sys_ok kd idle X k"
  shows "sys_ok kd idle X (upd_thd t (\<lambda>x. x\<lparr>wabase := w\<rparr>) k)"
    "spare kd idle t (upd_thd t (\<lambda>x. x\<lparr>wabase := w\<rparr>) k) = spare kd idle t k"
    "highest (upd_thd t (\<lambda>x. x\<lparr>wabase := w\<rparr>) k) = highest k"
proof -
  let ?k = "upd_thd t (\<lambda>x. x\<lparr>wabase := w\<rparr>) k"
  have i: "kinv kd idle {} ?k" by (rule kinv_other_fields [OF sys_parts(3) [OF s]]) simp
  have f: "qs ?k = qs k" "current ?k = current k" "sem_cnt ?k = sem_cnt k" "mtx_owner ?k = mtx_owner k"
    "tprio ?k x = tprio k x" "realprio (thd ?k x) = realprio (thd k x)" "mtxlist (thd ?k x) = mtxlist (thd k x)"
    "tstate ?k x = tstate k x" for x
    by (simp_all add: upd_thd_def)
  show "sys_ok kd idle X ?k"
    by (rule sys_other [OF s i]) (use sys_parts(5) [OF s] f in \<open>simp_all add: null_ok_def same_data_def same_queues_def\<close>)
  show "spare kd idle t ?k = spare kd idle t k" using f by (simp add: spare_def vacant_def)
  show "highest ?k = highest k" using f by (simp add: highest_def)
qed

text \<open>A new thread is made ready or runs.\<close>

lemma sys_start:
  assumes s: "sys_ok kd idle X k" and h: "highest k" and st: "tstate k t = CH_STATE_WTSTART" and t: "t \<noteq> NULL"
  shows "sys_ok kd idle X (chSchWakeupS t m k) \<and> highest (chSchWakeupS t m k)"
    and "sys_ok kd idle X (chSchReadyI t k)"
proof -
  note i = sys_parts(3) [OF s]
  have nq: "\<not> queued (tstate k t)" using st by (simp add: queued_def)
  have c: "t \<noteq> current k"
  proof -
    have "placed kd k t" using i by (simp add: kinv_def)
    then show ?thesis using st by (auto simp: placed_def)
  qed
  note ks = kinv_start [OF i nq c]
  show "sys_ok kd idle X (chSchWakeupS t m k) \<and> highest (chSchWakeupS t m k)"
    using sys_wake [OF s t ks(3)] ks(4) h by blast
  show "sys_ok kd idle X (chSchReadyI t k)" using sys_wake [OF s t ks(1)] by blast
qed

lemma sys_create:
  assumes s: "sys_ok kd idle X k" and h: "highest k" and v: "spare kd idle (td_wend td - tsz) k" and p: "0 < td_prio td"
  shows "sys_ok kd idle X (snd (chThdCreateSuspended tsz td k)) \<and> highest (snd (chThdCreateSuspended tsz td k))"
    and "sys_ok kd idle X (snd (chThdCreate tsz td k)) \<and> highest (snd (chThdCreate tsz td k))"
    and "tstate (snd (chThdCreateSuspended tsz td k)) (td_wend td - tsz) = CH_STATE_WTSTART"
proof -
  let ?t = "td_wend td - tsz" and ?k = "snd (chThdCreateSuspendedI tsz td k)"
  note w = sys_wabase [OF s, of ?t "td_wbase td"]
  have c: "sys_ok kd idle X ?k \<and> highest ?k \<and> fst (chThdCreateSuspendedI tsz td k) = ?t"
    using sys_thread_init [OF w(1) _ p, of ?t "td_name td"] w(2,3) v h by (simp add: chThdCreateSuspendedI_def Let_def)
  then show "sys_ok kd idle X (snd (chThdCreateSuspended tsz td k)) \<and> highest (snd (chThdCreateSuspended tsz td k))"
    by (simp add: chThdCreateSuspended_def)
  have st: "tstate ?k ?t = CH_STATE_WTSTART"
    using create_suspended_inv [OF sys_parts(3) [OF s] _ p] v by (simp add: spare_def)
  then show "tstate (snd (chThdCreateSuspended tsz td k)) ?t = CH_STATE_WTSTART" by (simp add: chThdCreateSuspended_def)
  show "sys_ok kd idle X (snd (chThdCreate tsz td k)) \<and> highest (snd (chThdCreate tsz td k))"
    using sys_start(1) [of kd idle X ?k ?t MSG_OK] c st v by (simp add: chThdCreate_def split_beta Let_def spare_def)
qed

lemma sys_create_static:
  assumes s: "sys_ok kd idle X k" and h: "highest k" and v: "spare kd idle (wsp + sz - tsz) k" and p: "0 < p"
  shows "sys_ok kd idle X (snd (chThdCreateStatic tsz wsp sz p k)) \<and> highest (snd (chThdCreateStatic tsz wsp sz p k))"
proof -
  let ?t = "wsp + sz - tsz" and ?k1 = "upd_thd (wsp + sz - tsz) (\<lambda>x. x\<lparr>wabase := wsp\<rparr>) k"
  note w = sys_wabase [OF s, of ?t wsp]
  let ?k = "thread_init ?t ''noname'' p ?k1"
  have sp: "spare kd idle ?t ?k1" using w(2) v by blast
  have c: "sys_ok kd idle X ?k \<and> highest ?k" using sys_thread_init [OF w(1) sp p] w(3) h by blast
  have "tstate ?k ?t = CH_STATE_WTSTART"
    using thread_init_inv [OF sys_parts(3) [OF w(1)] _ p] sp by (simp add: spare_def)
  then show ?thesis
    using sys_start(1) [of kd idle X ?k ?t MSG_OK] c v by (simp add: chThdCreateStatic_def Let_def spare_def)
qed

end
