(* ===== verification/Waiting.thy ===== *)
theory Waiting
  imports Interplay
begin

text \<open>
  The waiting lists of \<open>chThdWait\<close>.  A thread that waits for the exit of another sleeps outside
  all queues, so no operation on other objects touches it.  This theory shows that, operation
  by operation, without any of their invariants, and puts exit and wait beside them.
\<close>

section \<open>The dormant\<close>

definition waits_ok :: "kernel \<Rightarrow> bool" where
  "waits_ok k \<longleftrightarrow> winv k \<and> (\<forall>t. NULL \<notin> set (waiting (thd k t)))"

text \<open>
  With \<open>W\<close> the waiting list of each thread, \<open>dormant W\<close> are the threads in them.  They sleep:
  their state is WTEXIT, none is running or in a queue.
\<close>

definition dormant :: "(ptr \<Rightarrow> ptr list) \<Rightarrow> ptr set" where
  "dormant W = (\<Union>p. set (W p))"

definition at_rest :: "(ptr \<Rightarrow> ptr list) \<Rightarrow> kernel \<Rightarrow> bool" where
  "at_rest W k \<longleftrightarrow> NULL \<notin> dormant W \<and> (\<forall>t. waiting (thd k t) = W t) \<and>
    (\<forall>t \<in> dormant W. tstate k t = CH_STATE_WTEXIT \<and> t \<noteq> current k \<and> (\<forall>q. t \<notin> set (qs k q)))"

lemma rest_cong:
  "thd k' = thd k \<Longrightarrow> qs k' = qs k \<Longrightarrow> current k' = current k \<Longrightarrow> at_rest W k' = at_rest W k"
  by (simp add: at_rest_def)

lemma rest_fields:
  "at_rest W (k\<lparr>sem_cnt := a\<rparr>) = at_rest W k" "at_rest W (k\<lparr>refvar := b\<rparr>) = at_rest W k"
  "at_rest W (k\<lparr>mtx_owner := c\<rparr>) = at_rest W k" "at_rest W (k\<lparr>registry := d\<rparr>) = at_rest W k"
  "at_rest W (k\<lparr>evt_lis := e\<rparr>) = at_rest W k" "at_rest W (k\<lparr>evt_src := f\<rparr>) = at_rest W k"
  "at_rest W (set_sem sp n k) = at_rest W k" "at_rest W (set_owner m t k) = at_rest W k"
  "at_rest W (add_flags l w k) = at_rest W k" "at_rest W (REG_REMOVE t k) = at_rest W k"
  "at_rest W (chVTDoSetI v dl g k) = at_rest W k" "at_rest W (chVTDoResetI v k) = at_rest W k"
  "at_rest W (snd (chSchGoSleepTimeoutS_resume time k)) = at_rest W k"
  by (rule rest_cong; simp add: set_sem_def set_owner_def add_flags_def REG_REMOVE_def)+

lemma rest_data:
  "at_rest W (set_u t w k) = at_rest W k" "at_rest W (set_prio t p k) = at_rest W k"
  "at_rest W (set_mtxlist t ms k) = at_rest W k" "at_rest W (set_pending t w k) = at_rest W k"
  "at_rest W (upd_thd t (\<lambda>x. x\<lparr>realprio := p\<rparr>) k) = at_rest W k"
  "at_rest W (upd_thd t (\<lambda>x. x\<lparr>flags := fl x\<rparr>) k) = at_rest W k"
  "at_rest W (upd_thd t (\<lambda>x. x\<lparr>refs := rf x\<rparr>) k) = at_rest W k"
  by (auto simp: at_rest_def set_mtxlist_def set_pending_def)

lemma rest_current: "at_rest W k \<Longrightarrow> current k \<notin> dormant W"
  by (auto simp: at_rest_def)

lemma rest_null: "at_rest W k \<Longrightarrow> NULL \<notin> dormant W"
  by (simp add: at_rest_def)

lemma rest_queued: "at_rest W k \<Longrightarrow> t \<in> set (qs k q) \<Longrightarrow> t \<notin> dormant W"
  by (auto simp: at_rest_def)

lemma rest_by_state: "at_rest W k \<Longrightarrow> tstate k t \<noteq> CH_STATE_WTEXIT \<Longrightarrow> t \<notin> dormant W"
  by (auto simp: at_rest_def)

lemma rest_queues:
  "at_rest W k \<Longrightarrow> t \<notin> dormant W \<Longrightarrow> at_rest W (queue_insert t q k)"
  "at_rest W k \<Longrightarrow> t \<notin> dormant W \<Longrightarrow> at_rest W (queue_prio_insert t q k)"
  "at_rest W k \<Longrightarrow> at_rest W (queue_dequeue t k)"
  "at_rest W k \<Longrightarrow> at_rest W (queue_init q k)"
  by (auto simp: at_rest_def q_insert_def q_prio_insert_def q_dequeue_def queue_init_def dest: notin_set_remove1)

lemma rest_state:
  "at_rest W k \<Longrightarrow> t \<notin> dormant W \<Longrightarrow> at_rest W (set_state t st k)"
  "at_rest W k \<Longrightarrow> t \<notin> dormant W \<Longrightarrow> at_rest W (chSchReadyI t k)"
  "at_rest W k \<Longrightarrow> t \<notin> dormant W \<Longrightarrow> at_rest W (chSchReadyAheadI t k)"
  "at_rest W k \<Longrightarrow> t \<notin> dormant W \<Longrightarrow> at_rest W (k\<lparr>current := t\<rparr>)"
  by (auto simp: at_rest_def q_prio_insert_def q_prio_insert_ahead_def)

text \<open>What comes out of a queue is not at_rest.\<close>

lemma rest_fifo:
  assumes "at_rest W k"
    and "\<And>t k'. at_rest W k' \<Longrightarrow> t \<notin> dormant W \<Longrightarrow> current k' = current k \<Longrightarrow> at_rest W (F t k')"
  shows "at_rest W (case queue_fifo_remove q k of (t, k') \<Rightarrow> F t k')"
proof (cases "qs k q")
  case Nil
  then show ?thesis using assms rest_null by (simp add: queue_fifo_remove_def)
next
  case (Cons t r)
  then have "\<And>x. x \<in> set r \<Longrightarrow> x \<in> set (qs k q)" "t \<in> set (qs k q)" by simp_all
  then have "at_rest W (k\<lparr>qs := (qs k)(q := r)\<rparr>)" "t \<notin> dormant W" using assms(1) by (auto simp: at_rest_def)
  then show ?thesis using assms(2) Cons by (simp add: queue_fifo_remove_def)
qed

lemma rest_lifo:
  assumes "at_rest W k"
    and "\<And>t k'. at_rest W k' \<Longrightarrow> t \<notin> dormant W \<Longrightarrow> queue_lifo_remove q k = (t, k') \<Longrightarrow> at_rest W (F t k')"
  shows "at_rest W (case queue_lifo_remove q k of (t, k') \<Rightarrow> F t k')"
proof (cases "qs k q = []")
  case True
  then show ?thesis using assms rest_null by (simp add: queue_lifo_remove_def)
next
  case False
  then have m: "\<And>x. x \<in> set (butlast (qs k q)) \<Longrightarrow> x \<in> set (qs k q)" "last (qs k q) \<in> set (qs k q)"
    by (auto dest: in_set_butlastD)
  have "queue_lifo_remove q k = (last (qs k q), k\<lparr>qs := (qs k)(q := butlast (qs k q))\<rparr>)"
    using False by (cases "qs k q") (simp_all add: queue_lifo_remove_def)
  moreover have "at_rest W (k\<lparr>qs := (qs k)(q := butlast (qs k q))\<rparr>)" "last (qs k q) \<notin> dormant W"
    using m assms(1) by (auto simp: at_rest_def)
  ultimately show ?thesis using assms(2) by simp
qed

section \<open>The scheduler\<close>

lemma rest_take_first: "at_rest W k \<Longrightarrow> at_rest W (take_first k)"
  unfolding take_first_def Let_def by (rule rest_fifo) (auto intro!: rest_state)

lemma rest_go_sleep: "at_rest W k \<Longrightarrow> at_rest W (chSchGoSleepS st k)"
  unfolding chSchGoSleepS_def by (intro rest_take_first rest_state rest_current)

lemma rest_go_sleep_timeout: "at_rest W k \<Longrightarrow> at_rest W (chSchGoSleepTimeoutS st time k)"
  by (simp add: chSchGoSleepTimeoutS_def rest_fields rest_go_sleep)

lemma rest_wakeup_s: "at_rest W k \<Longrightarrow> t \<notin> dormant W \<Longrightarrow> at_rest W (chSchWakeupS t m k)"
  by (simp add: chSchWakeupS_def Let_def rest_state rest_data rest_current)

lemma rest_reschedule: "at_rest W k \<Longrightarrow> at_rest W (chSchRescheduleS k)"
  by (simp add: chSchRescheduleS_def chSchDoRescheduleAhead_def Let_def rest_take_first rest_state rest_current)

lemma rest_yield: "at_rest W k \<Longrightarrow> at_rest W (chSchDoYieldS k)"
  by (simp add: chSchDoYieldS_def chSchDoRescheduleBehind_def Let_def rest_take_first rest_state rest_current)

lemmas rest_sched = rest_fields rest_data rest_queues rest_state rest_current rest_go_sleep
  rest_go_sleep_timeout rest_wakeup_s rest_reschedule rest_yield

lemma rest_wakeup: "at_rest W k \<Longrightarrow> t \<notin> dormant W \<Longrightarrow> at_rest W (wakeup t k)"
  by (auto simp: wakeup_eq wakeup_wait_def Let_def rest_sched split: tstate.split)

section \<open>The synchronisation objects\<close>

lemma rest_sem_wait: "at_rest W k \<Longrightarrow> at_rest W (snd (chSemWaitTimeoutS sp time k))"
  by (simp add: chSemWaitTimeoutS_def Let_def rest_sched)

lemma rest_sem_signals:
  assumes "at_rest W k"
  shows "at_rest W (chSemSignal sp k)" "at_rest W (chSemSignalI sp k)"
  by (auto simp: chSemSignal_def chSemSignalI_def Let_def assms rest_sched intro!: rest_fifo)

lemma rest_sem_unit:
  assumes "at_rest W k"
  shows "at_rest W (let k = set_sem sp n k in if sem_cnt k sp \<le> 0
    then (let (t, k) = queue_fifo_remove (QOBJ sp) k in set_u t MSG_OK (chSchReadyI t k)) else k)"
  unfolding Let_def by (auto simp: assms rest_sched intro!: rest_fifo)

lemma rest_sem_add: "at_rest W k \<Longrightarrow> at_rest W (chSemAddCounterI sp n k)"
proof (induction sp n k rule: chSemAddCounterI.induct)
  case (1 sp n k)
  then show ?case
    using rest_sem_unit [OF 1(2), of sp "sem_cnt k sp + 1"] by (subst chSemAddCounterI.simps) (simp add: Let_def)
qed

lemma rest_sem_reset: "at_rest W k \<Longrightarrow> at_rest W (chSemResetI_loop n sp k)"
proof (induction n sp k rule: chSemResetI_loop.induct)
  case (1 n sp k)
  show ?case
  proof (cases "n + 1 \<le> 0")
    case True
    show ?thesis
      by (subst chSemResetI_loop.simps, unfold Let_def if_P [OF True], rule rest_lifo [OF 1(2)])
        (rule 1(1) [OF True], auto simp: rest_sched)
  next
    case False
    then show ?thesis using 1(2) by (subst chSemResetI_loop.simps) simp
  qed
qed

lemma rest_sem_signal_wait:
  assumes "at_rest W k"
  shows "at_rest W (snd (chSemSignalWait sps spw k))"
proof -
  define k1 where "k1 = (let k = set_sem sps (sem_cnt k sps + 1) k in if sem_cnt k sps \<le> 0
    then (let (t, k) = queue_fifo_remove (QOBJ sps) k in set_u t MSG_OK (chSchReadyI t k)) else k)"
  have "at_rest W k1" unfolding k1_def by (rule rest_sem_unit [OF assms])
  moreover have "snd (chSemSignalWait sps spw k) = (let k = set_sem spw (sem_cnt k1 spw - 1) k1 in
      if sem_cnt k spw < 0 then chSchGoSleepS CH_STATE_WTSEM (set_u (current k) spw (queue_insert (current k) (QOBJ spw) k))
      else chSchRescheduleS k)"
    by (simp add: chSemSignalWait_def k1_def Let_def)
  ultimately show ?thesis by (simp add: Let_def rest_sched)
qed

text \<open>Priority inheritance moves threads in the queues they are in.\<close>

lemma rest_boost: "at_rest W k \<Longrightarrow> at_rest W (chMtxLockS_boost c t k)"
proof (induction c t k rule: chMtxLockS_boost.induct)
  case (1 c t k)
  let ?k1 = "set_prio t (tprio k c) k"
  have a: "at_rest W ?k1" using 1(2) by (simp add: rest_sched)
  have out: "t \<notin> dormant W" if "tstate ?k1 t \<noteq> CH_STATE_WTEXIT" using rest_by_state [OF a that] .
  show ?case
  proof (cases "tprio k t < tprio k c")
    case False
    then show ?thesis using 1(2) by (subst chMtxLockS_boost.simps) simp
  next
    case True
    have r: "at_rest W (requeue t ?k1)" if "tstate ?k1 t \<noteq> CH_STATE_WTEXIT"
      unfolding requeue_def using a out [OF that] by (simp add: rest_sched)
    show ?thesis using True 1(1) [OF True refl _ refl] r a out
      by (subst chMtxLockS_boost.simps) (auto simp: Let_def rest_sched split: tstate.split)
  qed
qed

lemma rest_lock:
  assumes "at_rest W k"
  shows "at_rest W (snd (chMtxLockS mp k))" "at_rest W (snd (chMtxTryLockS mp k))"
  using rest_boost [OF assms] rest_current [OF assms] assms
  by (simp_all add: chMtxLockS_def chMtxTryLockS_def Let_def rest_sched)

lemma rest_pass: "at_rest W k \<Longrightarrow> at_rest W (mtx_pass mp k)"
  unfolding mtx_pass_def Let_def by (rule rest_fifo) (simp_all add: rest_sched)

lemma rest_release: "at_rest W k \<Longrightarrow> at_rest W (mtx_release mp k)"
  by (simp add: mtx_release_def rest_pass rest_sched)

lemma rest_unlock:
  assumes "at_rest W k"
  shows "at_rest W (chMtxUnlockS mp k)" "at_rest W (chMtxUnlock mp k)"
  using assms by (simp_all add: chMtxUnlockS_def chMtxUnlock_def Let_def rest_pass rest_sched)

lemma rest_unlock_loop: "at_rest W k \<Longrightarrow> at_rest W (chMtxUnlockAll_loop c k)"
proof (induction c k rule: chMtxUnlockAll_loop.induct)
  case (1 c k)
  then show ?case
    by (subst chMtxUnlockAll_loop.simps) (auto simp: rest_release rest_sched split: list.split)
qed

lemma rest_unlock_all: "at_rest W k \<Longrightarrow> at_rest W (chMtxUnlockAll k)"
  by (simp add: chMtxUnlockAll_def Let_def rest_unlock_loop rest_sched)

lemma rest_cond_wait:
  assumes "at_rest W k"
  shows "at_rest W (snd (chCondWaitS cp k))" "at_rest W (snd (chCondWaitTimeoutS cp time k))"
  using assms rest_current [OF assms] rest_current [OF rest_unlock(1) [OF assms]]
  by (simp_all add: chCondWaitS_def chCondWaitTimeoutS_def Let_def rest_unlock rest_sched)

lemma rest_cond_resume:
  assumes "at_rest W k"
  shows "at_rest W (snd (chCondWaitS_resume mp k))" "at_rest W (snd (chCondWaitTimeoutS_resume mp time k))"
  using assms by (simp_all add: chCondWaitS_resume_def chCondWaitTimeoutS_resume_def Let_def split_beta rest_lock rest_sched)

lemma rest_cond_signals:
  assumes "at_rest W k"
  shows "at_rest W (chCondSignal cp k)" "at_rest W (chCondSignalI cp k)"
  by (auto simp: chCondSignal_def chCondSignalI_def Let_def assms rest_sched intro!: rest_fifo)

lemma rest_cond_broadcast: "at_rest W k \<Longrightarrow> at_rest W (chCondBroadcastI cp k)"
proof (induction cp k rule: chCondBroadcastI.induct)
  case (1 cp k)
  show ?case
  proof (cases "qs k (QOBJ cp)")
    case Nil
    then show ?thesis using 1(2) by (subst chCondBroadcastI.simps) (simp add: queue_notempty_def)
  next
    case (Cons t r)
    let ?k = "k\<lparr>qs := (qs k)(QOBJ cp := r)\<rparr>"
    have f: "queue_fifo_remove (QOBJ cp) k = (t, ?k)" using Cons by (simp add: queue_fifo_remove_def)
    have n: "queue_notempty (QOBJ cp) k" using Cons by (simp add: queue_notempty_def)
    have "at_rest W (case queue_fifo_remove (QOBJ cp) k of (t, k) \<Rightarrow> set_u t MSG_RESET (chSchReadyI t k))"
      by (rule rest_fifo [OF 1(2)]) (simp add: rest_sched)
    then show ?thesis using 1(1) [OF n f [symmetric] refl] n f by (subst chCondBroadcastI.simps) simp
  qed
qed

section \<open>Threads, events and messages\<close>

lemma rest_suspend:
  assumes "at_rest W k"
  shows "at_rest W (chThdSuspendS trp k)" "at_rest W (snd (chThdSuspendTimeoutS trp time k))"
    "at_rest W (snd (chThdEnqueueTimeoutS trp time k))" "at_rest W (chThdSleepS time k)"
  using assms by (simp_all add: chThdSuspendS_def chThdSuspendTimeoutS_def chThdEnqueueTimeoutS_def chThdSleepS_def
      Let_def rest_sched)

lemma rest_resume:
  assumes "at_rest W k" and "refvar k trp = NULL \<or> tstate k (refvar k trp) = CH_STATE_SUSPENDED"
  shows "at_rest W (chThdResumeI trp m k)" "at_rest W (chThdResumeS trp m k)"
proof -
  have "refvar k trp \<noteq> NULL \<Longrightarrow> refvar k trp \<notin> dormant W"
    using rest_by_state [OF assms(1), of "refvar k trp"] assms(2) by auto
  then show "at_rest W (chThdResumeI trp m k)" "at_rest W (chThdResumeS trp m k)"
    using assms(1) by (simp_all add: chThdResumeI_def chThdResumeS_def Let_def rest_sched)
qed

lemma rest_dequeue: "at_rest W k \<Longrightarrow> at_rest W (chThdDequeueNextI tqp m k)"
  by (auto simp: chThdDequeueNextI_def chThdDoDequeueNextI_def rest_sched intro!: rest_fifo)

lemma rest_dequeue_all: "at_rest W k \<Longrightarrow> at_rest W (chThdDequeueAllI tqp m k)"
proof (induction tqp m k rule: chThdDequeueAllI.induct)
  case (1 tqp m k)
  then show ?case using rest_dequeue [OF 1(2), of tqp m]
    by (cases "queue_notempty (QOBJ tqp) k") (simp_all add: chThdDequeueNextI_def chThdDequeueAllI.simps [of tqp])
qed

lemma rest_set_priority: "at_rest W k \<Longrightarrow> at_rest W (snd (chThdSetPriority p k))"
  by (simp add: chThdSetPriority_def Let_def rest_sched)

lemma rest_evt_signal: "at_rest W k \<Longrightarrow> at_rest W (chEvtSignalI tp ev k)"
proof -
  assume a: "at_rest W k"
  have "at_rest W (set_pending tp w k)" "tstate (set_pending tp w k) tp = tstate k tp" for w
    using a by (simp only: rest_data) (simp add: set_pending_def)
  then show ?thesis using rest_by_state [OF a, of tp]
    by (auto simp: chEvtSignalI_def Let_def rest_sched)
qed

lemma rest_evt_broadcast: "at_rest W k \<Longrightarrow> at_rest W (broadcast_loop fl ls k)"
  by (induction fl ls k rule: broadcast_loop.induct) (simp_all add: Let_def rest_evt_signal rest_sched)

lemma rest_evt_wait: "at_rest W k \<Longrightarrow> f \<in> evt_wait_ops ev time \<Longrightarrow> at_rest W (snd (f k))"
  by (auto simp: evt_wait_ops_def chEvtWaitOne_def chEvtWaitAny_def chEvtWaitAll_def chEvtWaitOneTimeout_def
      chEvtWaitAnyTimeout_def chEvtWaitAllTimeout_def take_one_def take_any_def Let_def rest_sched)

lemma rest_evt_resume: "at_rest W k \<Longrightarrow> f \<in> evt_resume_ops ev \<Longrightarrow> at_rest W (snd (f k))"
  by (auto simp: evt_resume_ops_def chEvtWaitOne_resume_def chEvtWaitAny_resume_def chEvtWaitAll_resume_def
      chEvtGetAndClearEvents_def chEvtAddEvents_def take_one_def take_any_def Let_def rest_sched)

lemma rest_msg_send: "at_rest W k \<Longrightarrow> at_rest W (snd (chMsgSend tp m k))"
  by (auto simp: chMsgSend_def Let_def rest_sched rest_by_state)

lemma rest_msg_fetch: "at_rest W k \<Longrightarrow> at_rest W (snd (chMsgWait_resume k))"
proof -
  have "snd (chMsgWait_resume k) = (case queue_fifo_remove (MSGQ (current k)) k of (t, k) \<Rightarrow> set_state t CH_STATE_SNDMSG k)"
    by (simp add: chMsgWait_resume_def split_beta)
  moreover assume "at_rest W k"
  ultimately show ?thesis using rest_fifo [of W k "\<lambda>t k. set_state t CH_STATE_SNDMSG k"] by (simp add: rest_sched)
qed

lemma rest_msg_wait: "at_rest W k \<Longrightarrow> at_rest W (snd (chMsgWait k))"
  by (simp add: chMsgWait_def split_beta rest_msg_fetch rest_sched)

lemma rest_start: "at_rest W k \<Longrightarrow> tstate k t \<noteq> CH_STATE_WTEXIT \<Longrightarrow> at_rest W (chSchWakeupS t m k)"
  by (simp add: rest_sched rest_by_state)

section \<open>Exit and wait\<close>

lemma waits_at_rest:
  assumes i: "kinv kd idle {} k" and w: "waits_ok k"
  shows "at_rest (\<lambda>t. waiting (thd k t)) k"
proof -
  have st: "tstate k t = CH_STATE_WTEXIT" if "t \<in> set (waiting (thd k p))" for t p
    using w that unfolding waits_ok_def winv_def by blast
  moreover have "t \<noteq> current k \<and> t \<notin> set (qs k q)" if "tstate k t = CH_STATE_WTEXIT" for t q
    using not_queued_state [OF i, of t q] current_state [OF i, of t] that by (auto simp: queued_def)
  ultimately show ?thesis using w by (auto simp: at_rest_def dormant_def waits_ok_def)
qed

lemma at_rest_waits:
  assumes "at_rest W k" and "\<forall>t. distinct (W t)" and "\<forall>t t'. t \<noteq> t' \<longrightarrow> set (W t) \<inter> set (W t') = {}"
  shows "waits_ok k"
  using assms unfolding waits_ok_def winv_def at_rest_def dormant_def by auto

lemma waits_keep:
  assumes i: "kinv kd idle {} k" and w: "waits_ok k" and keep: "\<And>W. at_rest W k \<Longrightarrow> at_rest W k'"
  shows "waits_ok k'"
  by (rule at_rest_waits [OF keep [OF waits_at_rest [OF i w]]]) (use w in \<open>auto simp: waits_ok_def winv_def\<close>)

lemma waits_ok_cong: "thd k' = thd k \<Longrightarrow> waits_ok k' = waits_ok k"
  by (simp add: waits_ok_def winv_def)

text \<open>A new thread, at an address no thread waits at, starts with an empty waiting list.\<close>

lemma waits_init:
  assumes i: "kinv kd idle {} k" and w: "waits_ok k" and v: "vacant idle t k"
    and f: "\<forall>x. t \<notin> set (waiting (thd k x))"
  shows "waits_ok (thread_init t nm p k)"
proof -
  let ?k = "thread_init t nm p k"
  have th: "thd ?k x = thd k x" if "x \<noteq> t" for x using thread_init_view [OF v] that by blast
  have wt: "waiting (thd ?k x) = (if x = t then [] else waiting (thd k x))" for x
    using th by (simp add: thread_init_def Let_def queue_init_def)
  have "tstate ?k y = tstate k y" if "y \<in> set (waiting (thd k x))" for x y
    using th [of y] f that by (cases "y = t") auto
  then show ?thesis using w by (auto simp: waits_ok_def winv_def wt)
qed

lemma waits_create:
  fixes nm :: string and b :: ptr
  assumes s: "sys_ok kd idle X k" and h: "highest k" and w: "waits_ok k" and v: "spare kd idle t k" and p: "0 < p"
    and f: "\<forall>x. t \<notin> set (waiting (thd k x))"
  defines "k' \<equiv> thread_init t nm p (upd_thd t (\<lambda>x. x\<lparr>wabase := b\<rparr>) k)"
  shows "waits_ok k'" and "waits_ok (chSchWakeupS t m k')"
proof -
  let ?k = "upd_thd t (\<lambda>x. x\<lparr>wabase := b\<rparr>) k"
  note wa = sys_wabase [OF s, of t b]
  have vac: "vacant idle t ?k" using v wa(2) by (simp add: spare_def)
  have wk: "waits_ok ?k" using w by (auto simp: waits_ok_def winv_def)
  have fk: "\<forall>x. t \<notin> set (waiting (thd ?k x))" using f by simp
  show k': "waits_ok k'" unfolding k'_def by (rule waits_init [OF sys_parts(3) [OF wa(1)] wk vac fk])
  note i = thread_init_inv [OF sys_parts(3) [OF wa(1)] vac p, of nm, folded k'_def]
  show "waits_ok (chSchWakeupS t m k')"
    by (rule waits_keep [of kd idle k']) (use i k' rest_start [of _ k' t m] in auto)
qed

text \<open>The woken threads are in no queue; exit and wait touch no object but the two threads.\<close>

lemma wake_waiting_frame:
  "null_ok k \<Longrightarrow> NULL \<notin> set ws \<Longrightarrow> null_ok (wake_waiting ws k) \<and> same_data k (wake_waiting ws k) \<and>
    same_queues kd c k (wake_waiting ws k) \<and> sem_cnt (wake_waiting ws k) = sem_cnt k \<and>
    current (wake_waiting ws k) = current k \<and> waiting (thd (wake_waiting ws k) t) = waiting (thd k t) \<and>
    (qs k RLIST \<noteq> [] \<longrightarrow> qs (wake_waiting ws k) RLIST \<noteq> [])"
proof (induction ws arbitrary: k)
  case Nil
  then show ?case using same_refl by simp
next
  case (Cons x ws)
  have x: "x \<noteq> NULL" using Cons.prems(2) by simp
  note f = wake_frame(1) [OF Cons.prems(1) x, of kd c]
  note IH = Cons.IH [of "chSchReadyI x k"]
  have n: "NULL \<notin> set ws" "null_ok (chSchReadyI x k)" using Cons.prems(2) f by auto
  have "waiting (thd (chSchReadyI x k) t) = waiting (thd k t)" "qs (chSchReadyI x k) RLIST \<noteq> []"
    by (simp_all add: q_prio_insert_def)
  then show ?case using IH [OF n(2,1)] f same_trans(1) [of k "chSchReadyI x k"] same_trans(2) [of kd c k "chSchReadyI x k"]
    by simp
qed

lemma sys_thd_fields:
  assumes s: "sys_ok kd idle X k" and w: "waits_ok k"
    and f: "\<And>x. state (f x) = state x \<and> u (f x) = u x \<and> prio (f x) = prio x \<and> realprio (f x) = realprio x \<and>
      mtxlist (f x) = mtxlist x \<and> waiting (f x) = waiting x"
  shows "sys_ok kd idle X (upd_thd t f k)" "highest (upd_thd t f k) = highest k" "waits_ok (upd_thd t f k)"
proof -
  have i: "kinv kd idle {} (upd_thd t f k)" by (rule kinv_other_fields [OF sys_parts(3) [OF s]]) (simp add: f)
  show "sys_ok kd idle X (upd_thd t f k)"
    by (rule sys_other [OF s i]) (use sys_parts(5) [OF s] f in \<open>simp_all add: null_ok_def same_data_def same_queues_def\<close>)
  have "tprio (upd_thd t f k) x = tprio k x" for x using f by simp
  then show "highest (upd_thd t f k) = highest k" by (simp add: highest_def del: upd_thd_fields(1))
  show "waits_ok (upd_thd t f k)" using w f by (simp add: waits_ok_def winv_def)
qed

lemma sys_exit:
  assumes s: "sys_ok kd idle X k" and w: "waits_ok k" and idle: "current k \<noteq> idle"
  shows "sys_ok kd idle X (chThdExit m k) \<and> highest (chThdExit m k) \<and> waits_ok (chThdExit m k)"
proof -
  let ?c = "current k"
  note i = sys_parts(3) [OF s] and n = sys_parts(5) [OF s]
  have "tstate k idle \<noteq> CH_STATE_FINAL" using i by (auto simp: kinv_def)
  then have e: "kinv kd idle {} (chThdExitS m k)" "winv (chThdExitS m k)" "highest (chThdExitS m k)"
    using exit_wait_facts [OF i _ idle, of idle m] w idle by (simp_all add: waits_ok_def)
  let ?k1 = "upd_thd ?c (\<lambda>x. x\<lparr>waiting := []\<rparr>) (set_u ?c m k)"
  define k2 where "k2 = wake_waiting (waiting (thd k ?c)) ?k1"
  define k3 where "k3 = (if refs (thd k2 ?c) = 0 \<and> flags (thd k2 ?c) AND CH_FLAG_MODE_MASK = CH_FLAG_MODE_STATIC
              then REG_REMOVE ?c k2 else k2)"
  have ex: "chThdExitS m k = chSchGoSleepS CH_STATE_FINAL k3"
    by (simp add: chThdExitS_def Let_def k3_def k2_def)
  have n1: "null_ok ?k1" using n by (simp add: null_ok_def)
  have nw: "NULL \<notin> set (waiting (thd k ?c))" using w by (simp add: waits_ok_def)
  have k1: "same_data k ?k1" "same_queues kd c k ?k1" for c by (simp_all add: same_data_def same_queues_def)
  note f2 = wake_waiting_frame [OF n1 nw, folded k2_def]
  have e3: "thd k3 = thd k2" "qs k3 = qs k2" "current k3 = ?c" "mtx_owner k3 = mtx_owner k2" "sem_cnt k3 = sem_cnt k"
    using f2 by (simp_all add: k3_def REG_REMOVE_def)
  have d2: "null_ok k2" "same_data k k2" "same_queues kd c k k2" for c
    using same_trans(1) [OF k1(1)] same_trans(2) [OF k1(2)] f2 by blast+
  have "current k2 = ?c" using f2 by simp
  then have "null_ok k3" using d2(1) e3 null_ok_cong [of k3 k2] by simp
  moreover have "same_data k k3" using d2(2) e3(1,4) by (simp add: same_data_def)
  moreover have "same_queues kd c k k3" for c using d2(3) e3(2) by (simp add: same_queues_def)
  ultimately have f3: "null_ok k3" "same_data k k3" "same_queues kd c k k3" for c by blast+
  have "qs k3 RLIST \<noteq> []" using f2 e3 sys_ready [OF s idle] by simp
  note sl = null_ok_sleep [OF f3(1) this, of CH_STATE_FINAL]
  have "sys_ok kd idle X (chThdExitS m k)"
    by (rule sys_other [OF s e(1)], unfold ex) (use sl f3(2,3) e3 in \<open>simp_all add: same_data_def same_queues_def\<close>)
  moreover have "waiting (thd (chThdExitS m k) x) = (if x = ?c then [] else waiting (thd k x))" for x
    unfolding ex using e3 f2 by simp
  then have "waits_ok (chThdExitS m k)" using e(2) w by (simp add: waits_ok_def)
  ultimately show ?thesis using e(3) by (simp add: chThdExit_def)
qed

lemma sys_thd_release:
  assumes s: "sys_ok kd idle X k" and w: "waits_ok k"
  shows "sys_ok kd idle X (snd (chThdRelease t k)) \<and> highest (snd (chThdRelease t k)) = highest k \<and>
    waits_ok (snd (chThdRelease t k))"
proof -
  let ?k = "upd_thd t (\<lambda>x. x\<lparr>refs := refs x - 1\<rparr>) k"
  note f = sys_thd_fields [OF s w, of "\<lambda>x. x\<lparr>refs := refs x - 1\<rparr>" t, simplified]
  have "snd (chThdRelease t k) \<in> {?k, REG_REMOVE t ?k}" by (simp add: chThdRelease_def Let_def)
  moreover have "sys_ok kd idle X (REG_REMOVE t ?k) = sys_ok kd idle X ?k" by (rule sys_cong) (simp_all add: REG_REMOVE_def)
  moreover have "highest (REG_REMOVE t ?k) = highest ?k" by (rule highest_cong) simp_all
  moreover have "waits_ok (REG_REMOVE t ?k) = waits_ok ?k" by (rule waits_ok_cong) simp
  ultimately show ?thesis using f by auto
qed

lemma sys_wait:
  assumes s: "sys_ok kd idle X k" and w: "waits_ok k" and h: "highest k" and idle: "current k \<noteq> idle" and t: "t \<noteq> current k"
  shows "sys_ok kd idle X (snd (chThdWait t k)) \<and> highest (snd (chThdWait t k)) \<and> waits_ok (snd (chThdWait t k))"
proof (cases "tstate k t = CH_STATE_FINAL")
  case True
  then have "snd (chThdWait t k) = snd (chThdRelease t k)"
    by (simp add: chThdWait_def chThdWait_resume_def split_beta Let_def)
  then show ?thesis using sys_thd_release [OF s w, of t] h by simp
next
  case False
  let ?c = "current k"
  let ?k = "upd_thd t (\<lambda>x. x\<lparr>waiting := ?c # waiting x\<rparr>) k"
  note e = exit_wait_facts [OF sys_parts(3) [OF s] _ idle False t]
  have eq: "snd (chThdWait t k) = chSchGoSleepS CH_STATE_WTEXIT ?k" using False by (simp add: chThdWait_def Let_def)
  have n: "null_ok ?k" "qs ?k RLIST \<noteq> []" using sys_parts(5) [OF s] sys_ready [OF s idle] by (simp_all add: null_ok_def)
  have e: "kinv kd idle {} (snd (chThdWait t k))" "winv (snd (chThdWait t k))" "highest (snd (chThdWait t k))"
    using e w by (simp_all add: waits_ok_def)
  have "sys_ok kd idle X (snd (chThdWait t k))"
    by (rule sys_other [OF s e(1)], unfold eq) (use null_ok_sleep [OF n] in \<open>simp_all add: same_data_def same_queues_def\<close>)
  moreover have "?c \<noteq> NULL" using sys_parts(5) [OF s] by (simp add: null_ok_def)
  then have "NULL \<notin> set (waiting (thd (snd (chThdWait t k)) x))" for x
    using w unfolding eq by (simp add: waits_ok_def)
  then have "waits_ok (snd (chThdWait t k))" using e(2) by (simp add: waits_ok_def)
  ultimately show ?thesis using e(3) by simp
qed

lemma sys_startI:
  assumes s: "sys_ok kd idle X k" and st: "tstate k t = CH_STATE_WTSTART" and t: "t \<noteq> NULL"
  shows "sys_ok kd idle X (chSchReadyI t k)"
proof -
  note i = sys_parts(3) [OF s]
  have "\<not> queued (tstate k t)" "t \<noteq> current k" using st current_state [OF i, of t] by (auto simp: queued_def)
  then show ?thesis using sys_wake [OF s t kinv_start(1) [OF i]] by blast
qed

end
