(* ===== verification/System.thy ===== *)
theory System
  imports Waiting
begin

text \<open>
  The kernel as a state machine.  The operations of the synchronisation objects, as they are
  called by the running thread (\<open>thread_step\<close>) or by interrupt handlers and expiring timers
  (\<open>isr_step\<close>), are the steps of one transition system over the shared kernel state; an interrupt
  is any sequence of handler steps followed by the preemption check of the interrupt epilogue.
  Every reachable state has the invariants of all objects and runs the thread of highest priority.
\<close>

section \<open>Steps\<close>

text \<open>
  The end of an interrupt in \<open>_port_irq_epilogue\<close> and \<open>_port_switch_from_isr\<close>; the exception
  frames are not modelled.
\<close>

definition port_irq_epilogue :: "kernel \<Rightarrow> kernel" where
  "port_irq_epilogue k = (if chSchIsPreemptionRequired k then chSchDoReschedule k else k)"

text \<open>The memory of a new thread: no thread is there that waits, runs, owns a mutex or is waited for.\<close>

definition fresh :: "(ptr \<Rightarrow> okind) \<Rightarrow> ptr \<Rightarrow> ptr \<Rightarrow> kernel \<Rightarrow> bool" where
  "fresh kd idle t k \<longleftrightarrow> spare kd idle t k \<and> (\<forall>x. t \<notin> set (waiting (thd k x)))"

text \<open>
  Calls of the running thread, under the conditions the API states: objects of the right kind,
  the idle thread neither blocks nor exits, mutexes are unlocked in reverse order, references and messages
  name threads in the state the call expects.  A call that sleeps has its second half as a step of
  its own, where this half changes the state.  \<open>chThdSetPriority\<close> is treated below.
\<close>

inductive thread_step :: "(ptr \<Rightarrow> okind) \<Rightarrow> ptr \<Rightarrow> kernel \<Rightarrow> kernel \<Rightarrow> bool" for kd idle where
  sem_wait: "kd sp = KSem \<Longrightarrow> current k \<noteq> idle \<Longrightarrow> thread_step kd idle k (snd (chSemWait sp k))"
| sem_wait_timeout: "kd sp = KSem \<Longrightarrow> current k \<noteq> idle \<Longrightarrow> thread_step kd idle k (snd (chSemWaitTimeout sp time k))"
| sem_signal: "kd sp = KSem \<Longrightarrow> thread_step kd idle k (chSemSignal sp k)"
| sem_reset: "kd sp = KSem \<Longrightarrow> 0 \<le> n \<Longrightarrow> thread_step kd idle k (chSemReset sp n k)"
| sem_signal_wait: "kd sp = KSem \<Longrightarrow> kd sp' = KSem \<Longrightarrow> current k \<noteq> idle \<Longrightarrow>
    thread_step kd idle k (snd (chSemSignalWait sp sp' k))"
| mtx_lock: "kd mp = KMtx \<Longrightarrow> current k \<noteq> idle \<Longrightarrow> thread_step kd idle k (snd (chMtxLock mp k))"
| mtx_try_lock: "kd mp = KMtx \<Longrightarrow> current k \<noteq> idle \<Longrightarrow> thread_step kd idle k (snd (chMtxTryLock mp k))"
| mtx_unlock: "mtxlist (thd k (current k)) = mp # ms \<Longrightarrow> thread_step kd idle k (chMtxUnlock mp k)"
| mtx_unlock_all: "thread_step kd idle k (chMtxUnlockAll k)"
| cond_wait: "mtxlist (thd k (current k)) = mp # ms \<Longrightarrow> kd cp = KCond \<Longrightarrow> current k \<noteq> idle \<Longrightarrow>
    thread_step kd idle k (snd (chCondWait cp k))"
| cond_wait_timeout: "mtxlist (thd k (current k)) = mp # ms \<Longrightarrow> kd cp = KCond \<Longrightarrow> current k \<noteq> idle \<Longrightarrow>
    thread_step kd idle k (snd (chCondWaitTimeout cp time k))"
| cond_resume: "kd mp = KMtx \<Longrightarrow> current k \<noteq> idle \<Longrightarrow> thread_step kd idle k (snd (chCondWaitS_resume mp k))"
| cond_timeout_resume: "kd mp = KMtx \<Longrightarrow> current k \<noteq> idle \<Longrightarrow>
    thread_step kd idle k (snd (chCondWaitTimeoutS_resume mp time k))"
| cond_signal: "kd cp = KCond \<Longrightarrow> thread_step kd idle k (chCondSignal cp k)"
| cond_broadcast: "kd cp = KCond \<Longrightarrow> thread_step kd idle k (chCondBroadcast cp k)"
| enqueue: "kd tqp = KQueue \<Longrightarrow> current k \<noteq> idle \<Longrightarrow> thread_step kd idle k (snd (chThdEnqueueTimeoutS tqp time k))"
| suspend: "current k \<noteq> idle \<Longrightarrow> thread_step kd idle k (chThdSuspendS trp k)"
| suspend_timeout: "current k \<noteq> idle \<Longrightarrow> thread_step kd idle k (snd (chThdSuspendTimeoutS trp time k))"
| resume: "refvar k trp = NULL \<or> tstate k (refvar k trp) = CH_STATE_SUSPENDED \<Longrightarrow>
    thread_step kd idle k (chThdResume trp m k)"
| sleep: "current k \<noteq> idle \<Longrightarrow> thread_step kd idle k (chThdSleep time k)"
| yield: "thread_step kd idle k (chThdYield k)"
| event_wait: "current k \<noteq> idle \<Longrightarrow> f \<in> evt_wait_ops ev time \<Longrightarrow> thread_step kd idle k (snd (f k))"
| event_resume: "f \<in> evt_resume_ops ev \<Longrightarrow> thread_step kd idle k (snd (f k))"
| event_signal: "tp \<noteq> NULL \<Longrightarrow> thread_step kd idle k (chEvtSignal tp ev k)"
| event_broadcast: "\<forall>l \<in> set (evt_src k esp). el_listener (evt_lis k l) \<noteq> NULL \<Longrightarrow>
    thread_step kd idle k (chEvtBroadcastFlags esp fl k)"
| msg_send: "current k \<noteq> idle \<Longrightarrow> tp \<noteq> current k \<Longrightarrow> tp \<noteq> NULL \<Longrightarrow> thread_step kd idle k (snd (chMsgSend tp m k))"
| msg_wait: "current k \<noteq> idle \<Longrightarrow> thread_step kd idle k (snd (chMsgWait k))"
| msg_wait_resume: "chMsgIsPendingI (current k) k \<Longrightarrow> current k \<noteq> idle \<Longrightarrow> thread_step kd idle k (snd (chMsgWait_resume k))"
| msg_release: "tstate k t = CH_STATE_SNDMSG \<Longrightarrow> t \<noteq> NULL \<Longrightarrow> thread_step kd idle k (chMsgRelease t m k)"
| create: "fresh kd idle (td_wend td - tsz) k \<Longrightarrow> 0 < td_prio td \<Longrightarrow> thread_step kd idle k (snd (chThdCreate tsz td k))"
| create_suspended: "fresh kd idle (td_wend td - tsz) k \<Longrightarrow> 0 < td_prio td \<Longrightarrow>
    thread_step kd idle k (snd (chThdCreateSuspended tsz td k))"
| create_static: "fresh kd idle (wsp + sz - tsz) k \<Longrightarrow> 0 < p \<Longrightarrow> thread_step kd idle k (snd (chThdCreateStatic tsz wsp sz p k))"
| start: "tstate k tp = CH_STATE_WTSTART \<Longrightarrow> tp \<noteq> NULL \<Longrightarrow> thread_step kd idle k (chThdStart tp k)"
| exit: "current k \<noteq> idle \<Longrightarrow> thread_step kd idle k (chThdExit m k)"
| wait: "current k \<noteq> idle \<Longrightarrow> tp \<noteq> current k \<Longrightarrow> thread_step kd idle k (snd (chThdWait tp k))"
| wait_resume: "thread_step kd idle k (snd (chThdWait_resume tp k))"
| release: "thread_step kd idle k (snd (chThdRelease tp k))"
| add_ref: "thread_step kd idle k (chThdAddRef tp k)"
| terminate: "thread_step kd idle k (chThdTerminate tp k)"
| sleep_resume: "thread_step kd idle k (snd (chSchGoSleepTimeoutS_resume time k))"

text \<open>Calls of interrupt handlers, and the callback of an expired timeout.\<close>

inductive isr_step :: "(ptr \<Rightarrow> okind) \<Rightarrow> kernel \<Rightarrow> kernel \<Rightarrow> bool" for kd where
  sem_signalI: "kd sp = KSem \<Longrightarrow> isr_step kd k (chSemSignalI sp k)"
| sem_resetI: "kd sp = KSem \<Longrightarrow> 0 \<le> n \<Longrightarrow> isr_step kd k (chSemResetI sp n k)"
| sem_addI: "kd sp = KSem \<Longrightarrow> isr_step kd k (chSemAddCounterI sp n k)"
| cond_signalI: "kd cp = KCond \<Longrightarrow> isr_step kd k (chCondSignalI cp k)"
| cond_broadcastI: "kd cp = KCond \<Longrightarrow> isr_step kd k (chCondBroadcastI cp k)"
| dequeueI: "kd tqp = KQueue \<Longrightarrow> isr_step kd k (chThdDequeueNextI tqp m k)"
| dequeue_allI: "kd tqp = KQueue \<Longrightarrow> isr_step kd k (chThdDequeueAllI tqp m k)"
| resumeI: "refvar k trp = NULL \<or> tstate k (refvar k trp) = CH_STATE_SUSPENDED \<Longrightarrow>
    isr_step kd k (chThdResumeI trp m k)"
| event_signalI: "tp \<noteq> NULL \<Longrightarrow> isr_step kd k (chEvtSignalI tp ev k)"
| event_broadcastI: "\<forall>l \<in> set (evt_src k esp). el_listener (evt_lis k l) \<noteq> NULL \<Longrightarrow>
    isr_step kd k (chEvtBroadcastFlagsI esp fl k)"
| startI: "tstate k tp = CH_STATE_WTSTART \<Longrightarrow> tp \<noteq> NULL \<Longrightarrow> isr_step kd k (chThdStartI tp k)"
| timeout: "timed (tstate k t) \<or> tstate k t = CH_STATE_READY \<Longrightarrow> t \<noteq> NULL \<Longrightarrow> isr_step kd k (wakeup t k)"

text \<open>
  The runs of the system from a state \<open>k0\<close>.  \<open>chThdSetPriority\<close> may be called at any time, and then
  the caller may end up below a thread that waits for one of its mutexes: the priority it inherited
  is lost.  The first argument of \<open>sys_run\<close> is a ghost that records the threads this happened to and
  that still own a mutex; it has no influence on the run.
\<close>

definition owning :: "kernel \<Rightarrow> ptr set \<Rightarrow> ptr set" where
  "owning k X = {t \<in> X. mtxlist (thd k t) \<noteq> []}"

inductive sys_run :: "(ptr \<Rightarrow> okind) \<Rightarrow> ptr \<Rightarrow> kernel \<Rightarrow> ptr set \<Rightarrow> kernel \<Rightarrow> bool" for kd idle k0 where
  start: "sys_run kd idle k0 {} k0"
| call: "sys_run kd idle k0 X k \<Longrightarrow> thread_step kd idle k k' \<Longrightarrow> sys_run kd idle k0 (owning k' X) k'"
| set_priority: "sys_run kd idle k0 X k \<Longrightarrow> 0 < p \<Longrightarrow> k' = snd (chThdSetPriority p k) \<Longrightarrow>
    sys_run kd idle k0 (owning k' (if lowers kd p k then insert (current k) X else X)) k'"
| interrupt: "sys_run kd idle k0 X k \<Longrightarrow> (isr_step kd)\<^sup>*\<^sup>* k k1 \<Longrightarrow> k' = port_irq_epilogue k1 \<Longrightarrow>
    sys_run kd idle k0 (owning k' X) k'"

inductive_cases thread_stepE: "thread_step kd idle k k'"
inductive_cases isr_stepE: "isr_step kd k k'"

lemma epilogue_reschedules: "port_irq_epilogue k = chSchRescheduleS k"
  by (simp add: port_irq_epilogue_def chSchRescheduleS_def chSchIsPreemptionRequired_def chSchIsRescRequiredI_def
      chSchDoReschedule_def chSchDoRescheduleAhead_def)

section \<open>Every step keeps the invariant\<close>

lemma sleep_resume_ok:
  "sys_ok kd idle X (snd (chSchGoSleepTimeoutS_resume time k)) = sys_ok kd idle X k"
  "highest (snd (chSchGoSleepTimeoutS_resume time k)) = highest k"
  by (rule sys_cong, simp_all) (rule highest_cong, simp_all)

lemma sys_timeout_resume:
  assumes s: "sys_ok kd idle X k" and kd: "kd mp = KMtx" and idle: "current k \<noteq> idle"
  shows "sys_ok kd idle X (snd (chCondWaitTimeoutS_resume mp time k)) \<and>
    (highest k \<longrightarrow> highest (snd (chCondWaitTimeoutS_resume mp time k)))"
proof -
  let ?k = "snd (chSchGoSleepTimeoutS_resume time k)"
  note r = sleep_resume_ok
  have "snd (chCondWaitTimeoutS_resume mp time k) \<in> {?k, snd (chMtxLockS mp ?k)}"
    by (simp add: chCondWaitTimeoutS_resume_def split_beta Let_def)
  then show ?thesis using sys_lock [of kd idle X ?k mp] r s kd idle by auto
qed

lemma sys_resume_any:
  assumes "sys_ok kd idle X k" and "refvar k trp = NULL \<or> tstate k (refvar k trp) = CH_STATE_SUSPENDED"
  shows "sys_ok kd idle X (chThdResumeI trp m k)" "sys_ok kd idle X (chThdResumeS trp m k)"
    "highest k \<Longrightarrow> highest (chThdResumeS trp m k)"
  using assms sys_resume [OF assms(1), of trp m]
  by (cases "refvar k trp = NULL"; simp add: chThdResumeI_def chThdResumeS_def)+

lemma thread_step_ok:
  assumes "thread_step kd idle k k'" and s: "sys_ok kd idle X k" and h: "highest k" and w: "waits_ok k"
  shows "sys_ok kd idle X k' \<and> highest k'"
  using assms(1)
proof (cases rule: thread_step.cases)
  case (sem_wait sp)
  then show ?thesis
    using sys_sem_wait_timeout [OF s, of sp TIME_INFINITE] h by (simp add: chSemWait_def wait_is_timeout)
next
  case (sem_wait_timeout sp time)
  then show ?thesis using sys_sem_wait_timeout [OF s, of sp time] h by (simp add: chSemWaitTimeout_def)
next
  case (sem_signal sp)
  then show ?thesis using sys_sem_signal [OF s, of sp] h by simp
next
  case (sem_reset sp n)
  then show ?thesis using sys_sem_reset [OF s, of sp n] by simp
next
  case (sem_signal_wait sp sp')
  then show ?thesis using sys_sem_signal_wait [OF s, of sp sp'] by simp
next
  case (mtx_lock mp)
  then show ?thesis using sys_lock [OF s, of mp] h by (simp add: chMtxLock_def)
next
  case (mtx_try_lock mp)
  then show ?thesis using sys_try_lock [OF s, of mp] h by (simp add: chMtxTryLock_def)
next
  case (mtx_unlock mp ms)
  then show ?thesis using sys_unlock [OF s _ h, of mp ms] by simp
next
  case mtx_unlock_all
  then show ?thesis using sys_unlock_all [OF s h] by simp
next
  case (cond_wait mp ms cp)
  then show ?thesis using sys_cond_wait [OF s, of mp ms cp] by (simp add: chCondWait_def)
next
  case (cond_wait_timeout mp ms cp time)
  then show ?thesis using sys_cond_wait [OF s, of mp ms cp time] by (simp add: chCondWaitTimeout_def)
next
  case (cond_resume mp)
  then show ?thesis using sys_lock [OF s, of mp] h by (simp add: chCondWaitS_resume_def Let_def split_beta)
next
  case (cond_timeout_resume mp time)
  then show ?thesis using sys_timeout_resume [OF s, of mp time] h by simp
next
  case (cond_signal cp)
  then show ?thesis using sys_cond_signal [OF s, of cp] h by simp
next
  case (cond_broadcast cp)
  then show ?thesis
    using sys_reschedule [OF sys_cond_broadcast [OF s]] by (simp add: chCondBroadcast_def)
next
  case (enqueue tqp time)
  then show ?thesis using sys_enqueue [OF s, of tqp time] h by simp
next
  case (suspend trp)
  then show ?thesis using sys_suspend(1) [OF s, of trp] by simp
next
  case (suspend_timeout trp time)
  then show ?thesis using sys_suspend(2) [OF s, of trp time] h by simp
next
  case (resume trp m)
  then show ?thesis using sys_resume_any [OF s, of trp m] h by (simp add: chThdResume_def)
next
  case (sleep time)
  then show ?thesis using sys_thread_sleep [OF s, of time] by (simp add: chThdSleep_def)
next
  case yield
  then show ?thesis using sys_yield [OF s h] by (simp add: chThdYield_def)
next
  case (event_wait f ev time)
  then show ?thesis using sys_event_wait [OF s, of f ev time] h by simp
next
  case (event_resume f ev)
  then show ?thesis using sys_event_resume [OF s, of f ev] h by simp
next
  case (event_signal tp ev)
  then show ?thesis using sys_reschedule [OF sys_evt_signal [OF s, of tp ev]] by (simp add: chEvtSignal_def)
next
  case (event_broadcast esp fl)
  then show ?thesis
    using sys_reschedule [OF sys_broadcast [OF s, of "evt_src k esp" fl]]
    by (simp add: chEvtBroadcastFlags_def chEvtBroadcastFlagsI_def)
next
  case (msg_send tp m)
  then show ?thesis using sys_msg_send [OF s, of tp m] by simp
next
  case msg_wait
  then show ?thesis using sys_msg_wait [OF s] h by simp
next
  case msg_wait_resume
  then show ?thesis using sys_msg_wait [OF s] h by (simp add: chMsgWait_def split_beta)
next
  case (msg_release t m)
  then show ?thesis using sys_msg_release [OF s, of t m] h by simp
next
  case (create td tsz)
  then show ?thesis using sys_create(2) [OF s h] by (simp add: fresh_def)
next
  case (create_suspended td tsz)
  then show ?thesis using sys_create(1) [OF s h] by (simp add: fresh_def)
next
  case (create_static wsp sz tsz p)
  then show ?thesis using sys_create_static [OF s h] by (simp add: fresh_def)
next
  case (start tp)
  then show ?thesis using sys_start(1) [OF s h] by (simp add: chThdStart_def)
next
  case (exit m)
  then show ?thesis using sys_exit [OF s w] by simp
next
  case (wait tp)
  then show ?thesis using sys_wait [OF s w h] by simp
next
  case (wait_resume tp)
  then show ?thesis using sys_thd_release [OF s w, of tp] h by (simp add: chThdWait_resume_def split_beta Let_def)
next
  case (release tp)
  then show ?thesis using sys_thd_release [OF s w, of tp] h by simp
next
  case (add_ref tp)
  then show ?thesis using sys_thd_fields [OF s w, of "\<lambda>x. x\<lparr>refs := refs x + 1\<rparr>" tp] h by (simp add: chThdAddRef_def)
next
  case (terminate tp)
  then show ?thesis
    using sys_thd_fields [OF s w, of "\<lambda>x. x\<lparr>flags := flags x OR CH_FLAG_TERMINATE\<rparr>" tp] h by (simp add: chThdTerminate_def)
next
  case (sleep_resume time)
  then show ?thesis using s h sleep_resume_ok by simp
qed

text \<open>The waiting lists: the calls on other objects do not touch the threads in them.\<close>

lemma thread_step_waits:
  assumes "thread_step kd idle k k'" and s: "sys_ok kd idle X k" and h: "highest k" and w: "waits_ok k"
  shows "waits_ok k'"
proof -
  note keep = waits_keep [OF sys_parts(3) [OF s] w]
  from assms(1) show ?thesis
  proof (cases rule: thread_step.cases)
    case (sem_wait sp)
    then show ?thesis by (auto intro!: keep rest_sem_wait simp: chSemWait_def wait_is_timeout)
  next
    case (sem_wait_timeout sp time)
    then show ?thesis by (auto intro!: keep rest_sem_wait simp: chSemWaitTimeout_def)
  next
    case (sem_signal sp)
    then show ?thesis by (auto intro!: keep rest_sem_signals)
  next
    case (sem_reset sp n)
    then show ?thesis by (auto intro!: keep rest_reschedule rest_sem_reset simp: chSemReset_def chSemResetI_def rest_fields)
  next
    case (sem_signal_wait sp sp')
    then show ?thesis by (auto intro!: keep rest_sem_signal_wait)
  next
    case (mtx_lock mp)
    then show ?thesis by (auto intro!: keep rest_lock simp: chMtxLock_def)
  next
    case (mtx_try_lock mp)
    then show ?thesis by (auto intro!: keep rest_lock simp: chMtxTryLock_def)
  next
    case (mtx_unlock mp ms)
    then show ?thesis by (auto intro!: keep rest_unlock)
  next
    case mtx_unlock_all
    then show ?thesis by (auto intro!: keep rest_unlock_all)
  next
    case (cond_wait mp ms cp)
    then show ?thesis by (auto intro!: keep rest_cond_wait simp: chCondWait_def)
  next
    case (cond_wait_timeout mp ms cp time)
    then show ?thesis by (auto intro!: keep rest_cond_wait simp: chCondWaitTimeout_def)
  next
    case (cond_resume mp)
    then show ?thesis by (auto intro!: keep rest_cond_resume)
  next
    case (cond_timeout_resume mp time)
    then show ?thesis by (auto intro!: keep rest_cond_resume)
  next
    case (cond_signal cp)
    then show ?thesis by (auto intro!: keep rest_cond_signals)
  next
    case (cond_broadcast cp)
    then show ?thesis by (auto intro!: keep rest_reschedule rest_cond_broadcast simp: chCondBroadcast_def)
  next
    case (enqueue tqp time)
    then show ?thesis by (auto intro!: keep rest_suspend)
  next
    case (suspend trp)
    then show ?thesis by (auto intro!: keep rest_suspend)
  next
    case (suspend_timeout trp time)
    then show ?thesis by (auto intro!: keep rest_suspend)
  next
    case (resume trp m)
    then show ?thesis by (auto intro!: keep rest_resume simp: chThdResume_def)
  next
    case (sleep time)
    then show ?thesis by (auto intro!: keep rest_suspend simp: chThdSleep_def)
  next
    case yield
    then show ?thesis by (auto intro!: keep rest_yield simp: chThdYield_def)
  next
    case (event_wait f ev time)
    then show ?thesis using keep rest_evt_wait by blast
  next
    case (event_resume f ev)
    then show ?thesis using keep rest_evt_resume by blast
  next
    case (event_signal tp ev)
    then show ?thesis by (auto intro!: keep rest_reschedule rest_evt_signal simp: chEvtSignal_def)
  next
    case (event_broadcast esp fl)
    then show ?thesis by (auto intro!: keep rest_reschedule rest_evt_broadcast simp: chEvtBroadcastFlags_def chEvtBroadcastFlagsI_def)
  next
    case (msg_send tp m)
    then show ?thesis by (auto intro!: keep rest_msg_send)
  next
    case msg_wait
    then show ?thesis by (auto intro!: keep rest_msg_wait)
  next
    case msg_wait_resume
    then show ?thesis by (auto intro!: keep rest_msg_fetch)
  next
    case (msg_release t m)
    then show ?thesis by (auto intro!: keep rest_start simp: chMsgRelease_def chMsgReleaseS_def)
  next
    case (create td tsz)
    then show ?thesis using waits_create(2) [OF s h w] by (simp add: fresh_def chThdCreate_def chThdCreateSuspendedI_def Let_def)
  next
    case (create_suspended td tsz)
    then show ?thesis using waits_create(1) [OF s h w] by (simp add: fresh_def chThdCreateSuspended_def chThdCreateSuspendedI_def Let_def)
  next
    case (create_static wsp sz tsz p)
    then show ?thesis using waits_create(2) [OF s h w] by (simp add: fresh_def chThdCreateStatic_def Let_def)
  next
    case (start tp)
    then show ?thesis by (auto intro!: keep rest_start simp: chThdStart_def)
  next
    case (exit m)
    then show ?thesis using sys_exit [OF s w] by simp
  next
    case (wait tp)
    then show ?thesis using sys_wait [OF s w h] by simp
  next
    case (wait_resume tp)
    then show ?thesis using sys_thd_release [OF s w, of tp] by (simp add: chThdWait_resume_def split_beta Let_def)
  next
    case (release tp)
    then show ?thesis using sys_thd_release [OF s w, of tp] by simp
  next
    case (add_ref tp)
    then show ?thesis using sys_thd_fields(3) [OF s w, of "\<lambda>x. x\<lparr>refs := refs x + 1\<rparr>" tp] by (simp add: chThdAddRef_def)
  next
    case (terminate tp)
    then show ?thesis 
      using sys_thd_fields(3) [OF s w, of "\<lambda>x. x\<lparr>flags := flags x OR CH_FLAG_TERMINATE\<rparr>" tp] by (simp add: chThdTerminate_def)
  next
    case (sleep_resume time)
    then show ?thesis using w waits_ok_cong [OF sleep_resume_view(2), of time k] by simp
  qed
qed

lemma isr_step_ok:
  assumes "isr_step kd k k'" and s: "sys_ok kd idle X k"
  shows "sys_ok kd idle X k'"
  using assms(1)
proof (cases rule: isr_step.cases)
  case (sem_signalI sp)
  then show ?thesis using sys_sem_signal [OF s, of sp] by simp
next
  case (sem_resetI sp n)
  then show ?thesis using sys_sem_reset [OF s, of sp n] by simp
next
  case (sem_addI sp n)
  then show ?thesis using sys_sem_add [OF s, of sp n] by simp
next
  case (cond_signalI cp)
  then show ?thesis using sys_cond_signal [OF s, of cp] by simp
next
  case (cond_broadcastI cp)
  then show ?thesis using sys_cond_broadcast [OF s, of cp] by simp
next
  case (dequeueI tqp m)
  then show ?thesis using sys_dequeue_next [OF s, of tqp m] by simp
next
  case (dequeue_allI tqp m)
  then show ?thesis using sys_dequeue_all [OF s, of tqp m] by simp
next
  case (resumeI trp m)
  then show ?thesis using sys_resume_any [OF s, of trp m] by simp
next
  case (event_signalI tp ev)
  then show ?thesis using sys_evt_signal [OF s, of tp ev] by simp
next
  case (event_broadcastI esp fl)
  then show ?thesis using sys_broadcast [OF s, of "evt_src k esp" fl] by (simp add: chEvtBroadcastFlagsI_def)
next
  case (startI tp)
  then show ?thesis using sys_startI [OF s, of tp] by (simp add: chThdStartI_def)
next
  case (timeout t)
  then show ?thesis using sys_wakeup [OF s, of t] by simp
qed

lemma isr_step_waits:
  assumes "isr_step kd k k'" and a: "at_rest W k"
  shows "at_rest W k'"
  using assms(1)
proof (cases rule: isr_step.cases)
  case (timeout t)
  then have "tstate k t \<noteq> CH_STATE_WTEXIT" by (auto simp: timed_def)
  then show ?thesis using timeout a rest_wakeup rest_by_state by blast
next
  case (startI tp)
  then show ?thesis using a by (simp add: chThdStartI_def rest_state rest_by_state)
qed (auto intro!: a rest_sem_signals rest_sem_reset rest_sem_add rest_cond_signals rest_cond_broadcast
    rest_dequeue rest_dequeue_all rest_resume rest_evt_signal rest_evt_broadcast
    simp: chSemResetI_def rest_fields chEvtBroadcastFlagsI_def)

lemma isr_steps_ok:
  "(isr_step kd)\<^sup>*\<^sup>* k k' \<Longrightarrow> sys_ok kd idle X k \<Longrightarrow> waits_ok k \<Longrightarrow> sys_ok kd idle X k' \<and> waits_ok k'"
proof (induction rule: rtranclp_induct)
  case (step y z)
  then have s: "sys_ok kd idle X y" and w: "waits_ok y" by blast+
  have "waits_ok z" by (rule waits_keep [OF sys_parts(3) [OF s] w isr_step_waits [OF step(2)]])
  then show ?case using isr_step_ok [OF step(2) s] by blast
qed simp

text \<open>A thread without mutexes needs no exemption.\<close>

lemma sys_ok_owning:
  assumes "sys_ok kd idle X k"
  shows "sys_ok kd idle (owning k X) k"
proof -
  have m: "mtx_struct kd k" "pi_ok kd X k" using assms by (simp_all add: sys_ok_def mtxk_def)
  have "mtx_owner k mp \<notin> X"
    if "kd mp = KMtx" "x \<in> set (qs k (QOBJ mp))" "mtx_owner k mp \<notin> owning k X" for mp x
  proof -
    have "mtx_owner k mp \<noteq> NULL" using m(1) that by (auto simp: mtx_struct_def)
    then have "mp \<in> set (mtxlist (thd k (mtx_owner k mp)))" using m(1) that(1) by (simp add: mtx_struct_def)
    then show ?thesis using that(3) by (auto simp: owning_def)
  qed
  then have "pi_ok kd (owning k X) k" using m(2) by (auto simp: pi_ok_def)
  then show ?thesis using assms by (simp add: sys_ok_def mtxk_def)
qed

lemma run_ok:
  assumes "sys_run kd idle k0 X k" and "sys_ok kd idle {} k0" and "highest k0" and "waits_ok k0"
  shows "sys_ok kd idle X k \<and> highest k \<and> waits_ok k"
  using assms
proof (induction rule: sys_run.induct)
  case start
  then show ?case by simp
next
  case (call X k k')
  then show ?case using thread_step_ok thread_step_waits sys_ok_owning by blast
next
  case (set_priority X k p k')
  then have s: "sys_ok kd idle X k" and w: "waits_ok k" by simp_all
  have "sys_ok kd idle (if lowers kd p k then insert (current k) X else X) k' \<and> highest k'"
    using sys_set_priority [OF s set_priority(2)] set_priority(3) by simp
  moreover have "waits_ok k'"
    using waits_keep [OF sys_parts(3) [OF s] w rest_set_priority] set_priority(3) by simp
  ultimately show ?case using sys_ok_owning by blast
next
  case (interrupt X k k1 k')
  then have "sys_ok kd idle X k1" "waits_ok k1" using isr_steps_ok by blast+
  moreover from this have "sys_ok kd idle X k' \<and> highest k'" using sys_reschedule interrupt(3) epilogue_reschedules by metis
  moreover have "waits_ok k'"
    using waits_keep [OF sys_parts(3) _ rest_reschedule] calculation(1,2) interrupt(3) epilogue_reschedules by metis
  ultimately show ?case using sys_ok_owning by blast
qed

section \<open>What holds in every reachable state\<close>

text \<open>
  C1: The kernel as a whole.  From a state with the invariant, in every run made of the calls in
  \<open>thread_step\<close>, of \<open>chThdSetPriority\<close> with any priority, and of interrupts, in any order, always: the running
  thread has the highest priority among the ready ones; no thread is in two queues or twice in
  one; a semaphore whose count is -n has exactly n waiters, and none otherwise; a mutex is in the
  list of one thread only, its owner; every waiter of a mutex has at most the owner's priority,
  unless the owner is in X: it lowered its own priority below a waiter with \<open>chThdSetPriority\<close>, while it had
  inherited nothing above its own, and has not unlocked all its mutexes since; no thread is
  below its own priority; the threads waiting for an exit sleep in the state WTEXIT, each in one
  list and once; and the idle thread is running or ready.
\<close>

theorem system_invariant:
  assumes "sys_run kd idle k0 X k" and "sys_ok kd idle {} k0" and "highest k0" and "waits_ok k0"
  shows "(\<forall>t \<in> set (qs k RLIST). tprio k t \<le> tprio k (current k)) \<and>
    (\<forall>q. distinct (qs k q)) \<and> (\<forall>q q' t. t \<in> set (qs k q) \<longrightarrow> t \<in> set (qs k q') \<longrightarrow> q = q') \<and>
    (\<forall>sp. kd sp = KSem \<longrightarrow> length (qs k (QOBJ sp)) = nat (- sem_cnt k sp)) \<and>
    (\<forall>m t t'. m \<in> set (mtxlist (thd k t)) \<longrightarrow> m \<in> set (mtxlist (thd k t')) \<longrightarrow> t = t') \<and>
    (\<forall>m w. kd m = KMtx \<longrightarrow> w \<in> set (qs k (QOBJ m)) \<longrightarrow> mtx_owner k m \<notin> X \<longrightarrow>
      tprio k w \<le> tprio k (mtx_owner k m)) \<and>
    (\<forall>t \<in> X. mtxlist (thd k t) \<noteq> []) \<and> (\<forall>t. realprio (thd k t) \<le> tprio k t) \<and>
    (\<forall>t. distinct (waiting (thd k t)) \<and> (\<forall>w \<in> set (waiting (thd k t)). tstate k w = CH_STATE_WTEXIT)) \<and>
    (\<forall>t t' w. w \<in> set (waiting (thd k t)) \<longrightarrow> w \<in> set (waiting (thd k t')) \<longrightarrow> t = t') \<and>
    tstate k idle \<in> {CH_STATE_READY, CH_STATE_CURRENT}"
proof -
  have s: "sys_ok kd idle X k" and h: "highest k" and w: "waits_ok k" using run_ok [OF assms] by auto
  note m = sys_parts(1) [OF s] and i = sys_parts(3) [OF s]
  have q: "queues_ok (qs k)" by (rule kinv_queues [OF i])
  have own: "mtx_owner k m = t" if "m \<in> set (mtxlist (thd k t))" for m t
    using m that unfolding mtxk_def mtx_struct_def by blast
  have "\<forall>m t t'. m \<in> set (mtxlist (thd k t)) \<longrightarrow> m \<in> set (mtxlist (thd k t')) \<longrightarrow> t = t'"
    using own by metis
  moreover have "\<forall>m w. kd m = KMtx \<longrightarrow> w \<in> set (qs k (QOBJ m)) \<longrightarrow> mtx_owner k m \<notin> X \<longrightarrow>
      tprio k w \<le> tprio k (mtx_owner k m)"
    using m unfolding mtxk_def pi_ok_def by blast
  moreover have "\<forall>t \<in> X. mtxlist (thd k t) \<noteq> []"
    using assms(1) by (cases rule: sys_run.cases) (auto simp: owning_def)
  moreover have "\<forall>t. realprio (thd k t) \<le> tprio k t"
    using m unfolding mtxk_def justified_def by (metis order.strict_implies_order order_refl)
  moreover have "tstate k idle \<in> {CH_STATE_READY, CH_STATE_CURRENT}" using i by (simp add: kinv_def)
  moreover have "\<forall>sp. kd sp = KSem \<longrightarrow> length (qs k (QOBJ sp)) = nat (- sem_cnt k sp)"
    using sys_parts(2) [OF s] by (simp add: sems_ok_def sem_ok_def)
  moreover have "\<forall>q. distinct (qs k q)" using q by (simp add: queues_ok_def)
  moreover have "\<forall>q q' t. t \<in> set (qs k q) \<longrightarrow> t \<in> set (qs k q') \<longrightarrow> q = q'"
    using queues_ok_disj [OF q] by blast
  moreover have "\<forall>t \<in> set (qs k RLIST). tprio k t \<le> tprio k (current k)"
    using h by (simp add: highest_def)
  moreover have "\<forall>t. distinct (waiting (thd k t)) \<and> (\<forall>w \<in> set (waiting (thd k t)). tstate k w = CH_STATE_WTEXIT)"
    "\<forall>t t' w. w \<in> set (waiting (thd k t)) \<longrightarrow> w \<in> set (waiting (thd k t')) \<longrightarrow> t = t'"
    using w unfolding waits_ok_def winv_def by blast+
  ultimately show ?thesis by blast
qed

definition sys_kind :: "ptr \<Rightarrow> okind" where
  "sys_kind p = (if p = 100 then KMtx else if p = 200 then KCond else if p = 300 then KSem else KQueue)"

lemma sys_ok_boot: "sys_ok sys_kind 2 {} boot"
  using kinv_boot by (auto simp: sys_ok_def sems_ok_def sem_ok_def mtxk_def mtx_struct_def pi_ok_def justified_def
      boot_simps boot_thread_def)

text \<open>
  The main thread locks a mutex, waits at a semaphore, and an interrupt signals it: the waiting
  thread runs again.
\<close>

definition run1 :: kernel where "run1 = snd (chMtxLock 100 boot)"
definition run2 :: kernel where "run2 = snd (chSemWait 300 run1)"
definition run3 :: kernel where "run3 = port_irq_epilogue (chSemSignalI 300 run2)"

lemma waits_boot: "waits_ok boot"
  by (simp add: waits_ok_def winv_def boot_simps boot_thread_def)

lemma run_reachable: "sys_run sys_kind 2 boot {} run3"
proof -
  have c: "current run1 = 1"
    using mtxk_cond_own by (simp add: run1_def chMtxLock_def own_boot_def)
  have o: "owning k {} = {}" for k by (simp add: owning_def)
  have "thread_step sys_kind 2 boot run1"
    unfolding run1_def by (rule mtx_lock) (simp_all add: sys_kind_def boot_simps)
  from call [OF start this] have "sys_run sys_kind 2 boot {} run1" by (simp add: o)
  moreover have "thread_step sys_kind 2 run1 run2"
    unfolding run2_def by (rule sem_wait) (simp_all add: sys_kind_def c)
  ultimately have "sys_run sys_kind 2 boot {} run2" using call o by metis
  moreover have "(isr_step sys_kind)\<^sup>*\<^sup>* run2 (chSemSignalI 300 run2)"
    by (rule r_into_rtranclp, rule sem_signalI) (simp add: sys_kind_def)
  ultimately show ?thesis using interrupt run3_def o by metis
qed

lemma system_invariant_witness:
  "distinct (qs run3 RLIST) \<and> tstate run3 2 \<in> {CH_STATE_READY, CH_STATE_CURRENT}"
  using system_invariant [OF run_reachable sys_ok_boot highest_boot waits_boot] by blast

text \<open>
  C21: Threads and objects are used by type.  In every reachable state the queue a thread is in fits its
  state: the ready list holds ready threads, a semaphore, a mutex or a condition variable only
  threads that wait for an object of this kind and for this very one, a queue of threads queued
  ones, a message queue senders; a thread in such a state is in one queue, and the current thread, and only
  it, is in the state current.
\<close>

theorem threads_typed:
  assumes "sys_run kd idle k0 X k" and "sys_ok kd idle {} k0" and "highest k0" and "waits_ok k0"
  shows "(\<forall>q t. t \<in> set (qs k q) \<longrightarrow> (case q of
      RLIST \<Rightarrow> tstate k t = CH_STATE_READY
    | MSGQ _ \<Rightarrow> tstate k t = CH_STATE_SNDMSGQ
    | QOBJ p \<Rightarrow> (case kd p of
        KSem \<Rightarrow> tstate k t = CH_STATE_WTSEM \<and> u (thd k t) = p
      | KMtx \<Rightarrow> tstate k t = CH_STATE_WTMTX \<and> u (thd k t) = p
      | KCond \<Rightarrow> tstate k t = CH_STATE_WTCOND \<and> u (thd k t) = p
      | KQueue \<Rightarrow> tstate k t = CH_STATE_QUEUED))) \<and>
    (\<forall>t. queued (tstate k t) \<longrightarrow> (\<exists>!q. t \<in> set (qs k q))) \<and>
    (\<forall>t. tstate k t = CH_STATE_CURRENT \<longleftrightarrow> t = current k)"
proof -
  have i: "kinv kd idle {} k" by (rule sys_parts(3)) (use run_ok [OF assms] in blast)
  have pl: "placed kd k t" for t using i by (simp add: kinv_def)
  have "case q of
      RLIST \<Rightarrow> tstate k t = CH_STATE_READY
    | MSGQ _ \<Rightarrow> tstate k t = CH_STATE_SNDMSGQ
    | QOBJ p \<Rightarrow> (case kd p of
        KSem \<Rightarrow> tstate k t = CH_STATE_WTSEM \<and> u (thd k t) = p
      | KMtx \<Rightarrow> tstate k t = CH_STATE_WTMTX \<and> u (thd k t) = p
      | KCond \<Rightarrow> tstate k t = CH_STATE_WTCOND \<and> u (thd k t) = p
      | KQueue \<Rightarrow> tstate k t = CH_STATE_QUEUED)" if "t \<in> set (qs k q)" for q t
  proof -
    have "allowed kd (tstate k t) (u (thd k t)) q" using pl that by (simp add: placed_def)
    then show ?thesis by (cases "tstate k t"; cases q) auto
  qed
  moreover have "\<exists>!q. t \<in> set (qs k q)" if "queued (tstate k t)" for t
    using pl [of t] that queues_ok_disj [OF kinv_queues [OF i]] by (auto simp: placed_def in_queue_def)
  moreover have "tstate k t = CH_STATE_CURRENT \<longleftrightarrow> t = current k" for t using pl by (simp add: placed_def)
  ultimately show ?thesis by blast
qed

lemma threads_typed_witness:
  "tstate run3 (current run3) = CH_STATE_CURRENT \<and> (current run3 = 2 \<or> (\<exists>!q. 2 \<in> set (qs run3 q)))"
proof -
  have "kinv sys_kind 2 {} run3"
    by (rule sys_parts(3)) (use run_ok [OF run_reachable sys_ok_boot highest_boot waits_boot] in blast)
  then have "tstate run3 2 = CH_STATE_CURRENT \<or> queued (tstate run3 2)" by (auto simp: kinv_def queued_def)
  then show ?thesis using threads_typed [OF run_reachable sys_ok_boot highest_boot waits_boot, THEN conjunct2]
    by (elim disjE conjE) simp_all
qed

section \<open>Waking a thread in one step and in two\<close>

lemma ins_where_first: "\<forall>x \<in> set xs. \<not> P x \<Longrightarrow> ins_where P t xs = t # xs"
  by (cases xs) (simp_all add: ins_where_def)

lemma ready_wake_equal:
  assumes h: "highest k" and le: "tprio k t \<le> tprio k (current k)" and t: "t \<noteq> current k"
  shows "chSchRescheduleS (chSchReadyI t (set_u t m k)) = chSchWakeupS t m k"
proof -
  let ?k = "chSchReadyI t (set_u t m k)"
  have "set (qs ?k RLIST) = insert t (set (qs k RLIST))" by (auto simp: q_prio_insert_def)
  then have "\<forall>x \<in> set (qs ?k RLIST). tprio ?k x \<le> tprio ?k (current ?k)"
    using h le by (auto simp: highest_def)
  then have "\<not> chSchIsRescRequiredI ?k"
    by (cases "qs ?k RLIST") (auto simp: chSchIsRescRequiredI_def firstprio_def NOPRIO_def not_less)
  then show ?thesis using le by (simp add: chSchRescheduleS_def chSchWakeupS_def Let_def)
qed

lemma ready_wake_higher:
  assumes h: "highest k" and lt: "tprio k (current k) < tprio k t" and t: "t \<noteq> current k"
  shows "chSchRescheduleS (chSchReadyI t (set_u t m k)) =
    (chSchWakeupS t m k)\<lparr>qs := (qs k)(RLIST := current k # qs k RLIST)\<rparr>"
    "qs (chSchWakeupS t m k) RLIST = ins_where (\<lambda>x. tprio k (current k) \<le> tprio k x) (current k) (qs k RLIST)"
proof -
  let ?k = "chSchReadyI t (set_u t m k)"
  have lo: "\<forall>x \<in> set (qs k RLIST). \<not> tprio k t \<le> tprio k x" "\<forall>x \<in> set (qs k RLIST). \<not> tprio k (current k) < tprio k x"
    using h lt by (auto simp: highest_def not_le not_less)
  have pr: "prio ((thd (set_u t m k)) x) = tprio k x" for x by simp
  have "\<forall>x \<in> set (qs k RLIST). \<not> (x \<noteq> t \<longrightarrow> tprio k t \<le> tprio k x)" using lo(1) by auto
  then have q: "qs ?k = (qs k)(RLIST := t # qs k RLIST)"
    by (simp add: q_prio_insert_def ins_where_first)
  have r: "chSchIsRescRequiredI ?k"
    using q lt t by (auto simp: chSchIsRescRequiredI_def firstprio_def)
  have e: "?k = (set_state t CH_STATE_READY (set_u t m k))\<lparr>qs := (qs k)(RLIST := t # qs k RLIST)\<rparr>"
    unfolding q [symmetric] by (simp add: chSchReadyI_def Let_def)
  have a: "chSchRescheduleS ?k = chSchDoRescheduleAhead ((set_state t CH_STATE_READY (set_u t m k))\<lparr>qs := (qs k)(RLIST := t # qs k RLIST)\<rparr>)"
    using r unfolding chSchRescheduleS_def e by simp
  have "q_prio_insert_ahead f (current k) RLIST ((qs k)(RLIST := qs k RLIST)) = (qs k)(RLIST := current k # qs k RLIST)"
    if "\<And>x. f x = tprio k x" for f
    using lo(2) that by (simp only: q_prio_insert_ahead_def ins_where_first fun_upd_same fun_upd_upd)
  then show "chSchRescheduleS ?k = (chSchWakeupS t m k)\<lparr>qs := (qs k)(RLIST := current k # qs k RLIST)\<rparr>"
    unfolding a using lt t
    by (simp add: chSchDoRescheduleAhead_def chSchWakeupS_def Let_def take_first_def
      queue_fifo_remove_def chSchReadyAheadI_def chSchReadyI_def set_state_def set_u_def upd_thd_def
      fun_upd_twist not_le)
  have merge: "(\<lambda>x. (x = t \<longrightarrow> tprio k (current k) \<le> tprio k t) \<and> (x \<noteq> t \<longrightarrow> tprio k (current k) \<le> tprio k x)) =
    (\<lambda>x. tprio k (current k) \<le> tprio k x)" by auto
  show "qs (chSchWakeupS t m k) RLIST = ins_where (\<lambda>x. tprio k (current k) \<le> tprio k x) (current k) (qs k RLIST)"
    using lt t merge by (simp add: chSchWakeupS_def Let_def q_prio_insert_def linorder_not_le [symmetric])
qed
lemma split_peers:
  "by_prio f xs \<Longrightarrow> \<forall>x \<in> set xs. f x \<le> (p :: u32) \<Longrightarrow>
    takeWhile (\<lambda>x. p \<le> f x) xs = filter (\<lambda>x. f x = p) xs \<and>
    dropWhile (\<lambda>x. p \<le> f x) xs = filter (\<lambda>x. f x \<noteq> p) xs"
proof (induction xs)
  case (Cons a xs)
  show ?case
  proof (cases "f a = p")
    case True
    then show ?thesis using Cons by simp
  next
    case False
    then have "f a < p" using Cons.prems(2) by (simp add: order.strict_iff_order)
    then have "\<forall>x \<in> set xs. f x < p" using Cons.prems(1) by (auto intro: le_less_trans)
    then have "filter (\<lambda>x. f x = p) xs = []" "filter (\<lambda>x. f x \<noteq> p) xs = xs"
      by (auto simp: filter_empty_conv filter_id_conv)
    then show ?thesis using \<open>f a < p\<close> by (simp add: linorder_not_le [symmetric])
  qed
qed simp

lemma qs_update_same: "k\<lparr>qs := (qs k)(q := l)\<rparr> = k \<longleftrightarrow> qs k q = l"
proof
  assume "k\<lparr>qs := (qs k)(q := l)\<rparr> = k"
  then have "qs (k\<lparr>qs := (qs k)(q := l)\<rparr>) q = qs k q" by simp
  then show "qs k q = l" by simp
qed auto

text \<open>
  C32: chSchWakeupS against its specification, chSchReadyI followed by chSchRescheduleS.  Both run
  the same thread and differ at most in the ready list: when the woken thread preempts the
  running one, chSchWakeupS puts the preempted thread behind the ready threads of its priority,
  the two calls put it before them.  So they are equal exactly when nothing is preempted or no
  ready thread has the priority of the preempted one.
\<close>

theorem wakeup_equivalence:
  assumes i: "kinv kd idle D k" and h: "highest k" and c: "\<forall>q. current k \<notin> set (qs k q)" and t: "t \<noteq> current k"
  shows "chSchRescheduleS (chSchReadyI t (set_u t m k)) =
      (if tprio k t \<le> tprio k (current k) then chSchWakeupS t m k
       else (chSchWakeupS t m k)\<lparr>qs := (qs (chSchWakeupS t m k))(RLIST := current k # qs k RLIST)\<rparr>) \<and>
    (tprio k (current k) < tprio k t \<longrightarrow>
      qs (chSchWakeupS t m k) RLIST = peers (tprio k (current k)) k @
        current k # filter (\<lambda>x. tprio k x \<noteq> tprio k (current k)) (qs k RLIST)) \<and>
    (chSchRescheduleS (chSchReadyI t (set_u t m k)) = chSchWakeupS t m k \<longleftrightarrow>
      tprio k t \<le> tprio k (current k) \<or> peers (tprio k (current k)) k = [])"
proof (cases "tprio k t \<le> tprio k (current k)")
  case True
  then show ?thesis using ready_wake_equal [OF h True t] by simp
next
  case False
  then have lt: "tprio k (current k) < tprio k t" by simp
  let ?p = "tprio k (current k)" and ?W = "chSchWakeupS t m k"
  have so: "sorted_wrt (\<lambda>x y. tprio k y \<le> tprio k x) (qs k RLIST)"
    using kinv_sorted [OF i] by simp
  have le: "\<forall>x \<in> set (qs k RLIST). tprio k x \<le> ?p" using h by (simp add: highest_def)
  have q: "qs ?W RLIST = peers ?p k @ current k # filter (\<lambda>x. tprio k x \<noteq> ?p) (qs k RLIST)"
    using ready_wake_higher(2) [OF h lt t, of m] split_peers [OF so le] by (simp add: ins_where_def peers_def)
  have Q: "(qs k)(RLIST := x) = (qs ?W)(RLIST := x)" for x by (auto simp: fun_eq_iff)
  have e: "chSchRescheduleS (chSchReadyI t (set_u t m k)) = ?W\<lparr>qs := (qs ?W)(RLIST := current k # qs k RLIST)\<rparr>"
    using ready_wake_higher(1) [OF h lt t, of m] by (simp only: Q)
  have "chSchRescheduleS (chSchReadyI t (set_u t m k)) = ?W \<longleftrightarrow> qs ?W RLIST = current k # qs k RLIST"
    unfolding e by (rule qs_update_same)
  also have "\<dots> \<longleftrightarrow> peers ?p k = []"
  proof
    assume "qs ?W RLIST = current k # qs k RLIST"
    then have "peers ?p k = [] \<or> hd (peers ?p k) = current k" unfolding q by (cases "peers ?p k") auto
    moreover have "current k \<notin> set (peers ?p k)" using c by (simp add: peers_def)
    ultimately show "peers ?p k = []" using hd_in_set by metis
  next
    assume "peers ?p k = []"
    then show "qs ?W RLIST = current k # qs k RLIST"
      unfolding q by (auto simp: peers_def filter_empty_conv filter_id_conv)
  qed
  finally show ?thesis using False e q by simp
qed

text \<open>Boot with thread 4, of the running thread's priority, ready, and thread 5, one above, not queued.\<close>

definition peer_boot :: kernel where
  "peer_boot = boot\<lparr>thd := boot_thread(4 := (boot_thread 4)\<lparr>prio := NORMALPRIO, state := CH_STATE_READY\<rparr>,
      5 := (boot_thread 5)\<lparr>prio := NORMALPRIO + 1\<rparr>),
    qs := (\<lambda>q. if q = RLIST then [4, 2] else [])\<rparr>"

lemma kinv_peer_boot: "kinv (\<lambda>_. KSem) 2 {} peer_boot"
  by (auto simp: peer_boot_def kinv_def boot_def boot_thread_def queues_ok_def placed_def in_queue_def queued_def
      NORMALPRIO_def IDLEPRIO_def)

lemma highest_peer_boot: "highest peer_boot"
  by (auto simp: peer_boot_def highest_def boot_def boot_thread_def NORMALPRIO_def IDLEPRIO_def)

lemma wakeup_equivalence_witness:
  "chSchRescheduleS (chSchReadyI 5 (set_u 5 MSG_OK peer_boot)) \<noteq> chSchWakeupS 5 MSG_OK peer_boot"
proof -
  have c: "\<forall>q. current peer_boot \<notin> set (qs peer_boot q)" and t: "5 \<noteq> current peer_boot"
    by (simp_all add: peer_boot_def boot_def)
  have "\<not> (tprio peer_boot 5 \<le> tprio peer_boot (current peer_boot) \<or>
      peers (tprio peer_boot (current peer_boot)) peer_boot = [])"
    by (simp add: peer_boot_def boot_def boot_thread_def peers_def NORMALPRIO_def IDLEPRIO_def)
  then show ?thesis using wakeup_equivalence [OF kinv_peer_boot highest_peer_boot c t, of MSG_OK] by blast
qed

section \<open>No starvation at a semaphore\<close>

text \<open>How many threads are to be served before \<open>t\<close>.\<close>

definition ahead_of :: "ptr \<Rightarrow> ptr list \<Rightarrow> nat" where
  "ahead_of t xs = length (takeWhile (\<lambda>x. x \<noteq> t) xs)"

lemma ahead_of_append: "t \<in> set xs \<Longrightarrow> ahead_of t (xs @ ys) = ahead_of t xs"
  by (simp add: ahead_of_def takeWhile_append1)

lemma ahead_of_remove1: "x \<noteq> t \<Longrightarrow> ahead_of t (remove1 x xs) \<le> ahead_of t xs"
  by (induction xs) (auto simp: ahead_of_def)

lemma ahead_of_drop:
  "t \<in> set xs \<Longrightarrow> n \<le> ahead_of t xs \<Longrightarrow>
    t \<in> set (drop n xs) \<and> ahead_of t (drop n xs) + n = ahead_of t xs"
proof (induction xs arbitrary: n)
  case (Cons x xs)
  then show ?case by (cases n) (auto simp: ahead_of_def split: if_splits)
qed simp

lemma ahead_of_take: "t \<in> set xs \<Longrightarrow> ahead_of t xs < n \<Longrightarrow> t \<in> set (take n xs)"
proof (induction xs arbitrary: n)
  case (Cons x xs)
  then show ?case by (cases n) (auto simp: ahead_of_def split: if_splits)
qed simp

text \<open>
  \<open>sem_step kd idle sp t n k k'\<close>: a step of the system while thread \<open>t\<close> waits at the semaphore
  \<open>sp\<close>; \<open>n\<close> counts are given to the semaphore in it.  The steps are all calls that signal it or wait
  at it, the expiry of the timeouts of other threads, and whatever else happens in the kernel
  that leaves the queue of this semaphore alone and keeps the invariant of the system (calls on
  other objects, interrupts, switches of context, the creation of threads).  Not among them are the
  two ways in which \<open>t\<close> is dismissed without the semaphore: its own timeout, and a reset.
\<close>

inductive sem_step :: "(ptr \<Rightarrow> okind) \<Rightarrow> ptr \<Rightarrow> ptr \<Rightarrow> ptr \<Rightarrow> nat \<Rightarrow> kernel \<Rightarrow> kernel \<Rightarrow> bool"
  for kd idle sp t where
  signalI: "sem_step kd idle sp t 1 k (chSemSignalI sp k)"
| signal: "sem_step kd idle sp t 1 k (chSemSignal sp k)"
| addI: "0 \<le> n \<Longrightarrow> sem_step kd idle sp t (nat n) k (chSemAddCounterI sp n k)"
| signal_wait: "kd sp' = KSem \<Longrightarrow> current k \<noteq> idle \<Longrightarrow> sem_step kd idle sp t 1 k (snd (chSemSignalWait sp sp' k))"
| wait_signal: "kd sp' = KSem \<Longrightarrow> sp' \<noteq> sp \<Longrightarrow> current k \<noteq> idle \<Longrightarrow>
    sem_step kd idle sp t 0 k (snd (chSemSignalWait sp' sp k))"
| waits: "current k \<noteq> idle \<Longrightarrow> sem_step kd idle sp t 0 k (snd (chSemWaitTimeoutS sp time k))"
| expire: "x \<noteq> t \<Longrightarrow> x \<noteq> NULL \<Longrightarrow> timed (tstate k x) \<or> tstate k x = CH_STATE_READY \<Longrightarrow>
    sem_step kd idle sp t 0 k (wakeup x k)"
| elsewhere: "sys_ok kd idle X k' \<Longrightarrow> qs k' (QOBJ sp) = qs k (QOBJ sp) \<Longrightarrow> sem_step kd idle sp t 0 k k'"

text \<open>A run is the list of its steps: the counts given, and the state after the step.\<close>

fun sem_run :: "(ptr \<Rightarrow> okind) \<Rightarrow> ptr \<Rightarrow> ptr \<Rightarrow> ptr \<Rightarrow> kernel \<Rightarrow> (nat \<times> kernel) list \<Rightarrow> bool" where
  "sem_run kd idle sp t k [] \<longleftrightarrow> True"
| "sem_run kd idle sp t k ((n, k') # tr) \<longleftrightarrow> sem_step kd idle sp t n k k' \<and> sem_run kd idle sp t k' tr"

lemma elsewhere_reschedule:
  "sys_ok kd idle X k \<Longrightarrow> sem_step kd idle sp t 0 k (port_irq_epilogue k)"
  by (rule elsewhere [where X = X]) (simp_all add: epilogue_reschedules sys_reschedule)

lemma sem_step_ok:
  "sem_step kd idle sp t n k k' \<Longrightarrow> sys_ok kd idle X k \<Longrightarrow> kd sp = KSem \<Longrightarrow> \<exists>Y. sys_ok kd idle Y k'"
  by (cases rule: sem_step.cases)
    (auto intro: sys_sem_signal sys_sem_add sys_sem_signal_wait [THEN conjunct1] sys_sem_wait_timeout [THEN conjunct1] sys_wakeup)

text \<open>The thread got its count: it left the queue and runs or is ready, to return MSG_OK.\<close>

definition granted :: "ptr \<Rightarrow> ptr \<Rightarrow> kernel \<Rightarrow> bool" where
  "granted sp t k \<longleftrightarrow> t \<notin> set (qs k (QOBJ sp)) \<and> tstate k t \<in> {CH_STATE_READY, CH_STATE_CURRENT} \<and>
    u (thd k t) = MSG_OK"

lemma wakeup_queue:
  "qs (wakeup x k) (QOBJ sp) \<in> {qs k (QOBJ sp), remove1 x (qs k (QOBJ sp))}"
  by (auto simp: wakeup_def Let_def q_prio_insert_def q_dequeue_def split: tstate.splits)

lemma still_ready:
  "tstate k t = CH_STATE_READY \<Longrightarrow> tstate (chSchRescheduleS k) t \<in> {CH_STATE_READY, CH_STATE_CURRENT}"
  "tstate k t = CH_STATE_READY \<Longrightarrow> t \<noteq> current k \<Longrightarrow>
    tstate (chSchGoSleepS st k) t \<in> {CH_STATE_READY, CH_STATE_CURRENT}"
  by (auto simp: chSchRescheduleS_def chSchDoRescheduleAhead_def chSchGoSleepS_def Let_def take_first_def
      queue_fifo_remove_def split: list.splits)

text \<open>Giving one count without rescheduling, as \<open>chSemAddCounterI\<close> and \<open>chSemSignalWait\<close> do.\<close>

lemma sem_wake_threads:
  assumes s: "semk kd idle k" and kd: "kd sp = KSem"
  defines "k1 \<equiv> set_sem sp (sem_cnt k sp + 1) k"
  defines "k' \<equiv> (if sem_cnt k1 sp \<le> 0
      then (let (t, k) = queue_fifo_remove (QOBJ sp) k1 in set_u t MSG_OK (chSchReadyI t k)) else k1)"
  shows "t \<in> set (take 1 (qs k (QOBJ sp))) \<Longrightarrow> tstate k' t = CH_STATE_READY \<and> u (thd k' t) = MSG_OK"
    and "t \<notin> set (take 1 (qs k (QOBJ sp))) \<Longrightarrow> thd k' t = thd k t"
    and "o' \<noteq> sp \<Longrightarrow> qs k' (QOBJ o') = qs k (QOBJ o')"
proof -
  have w: "sem_cnt k1 sp \<le> 0 \<longleftrightarrow> qs k (QOBJ sp) \<noteq> []"
    using sem_waiters [OF semk_sem_ok [OF s kd]] by (auto simp: k1_def)
  have "k' = (case qs k (QOBJ sp) of [] \<Rightarrow> k1 | x # r \<Rightarrow> set_u x MSG_OK (chSchReadyI x (queue_dequeue x k1)))"
    using w semk_fifo [OF s] by (auto simp: k'_def k1_def split: list.splits)
  moreover have "q_dequeue x (qs k) (QOBJ o') = qs k (QOBJ o')" if "qs k (QOBJ sp) = x # r" "o' \<noteq> sp" for x r
    using that q_dequeue_other [OF kinv_queues, of kd idle "{}" k x "QOBJ sp" "QOBJ o'"] s by (simp add: semk_def)
  ultimately show "t \<in> set (take 1 (qs k (QOBJ sp))) \<Longrightarrow> tstate k' t = CH_STATE_READY \<and> u (thd k' t) = MSG_OK"
    "t \<notin> set (take 1 (qs k (QOBJ sp))) \<Longrightarrow> thd k' t = thd k t" "o' \<noteq> sp \<Longrightarrow> qs k' (QOBJ o') = qs k (QOBJ o')"
    by (auto simp: k1_def q_prio_insert_def split: list.splits)
qed

lemma sem_add_threads:
  "semk kd idle k \<Longrightarrow> kd sp = KSem \<Longrightarrow>
    (t \<in> set (take (nat n) (qs k (QOBJ sp))) \<longrightarrow>
      tstate (chSemAddCounterI sp n k) t = CH_STATE_READY \<and> u (thd (chSemAddCounterI sp n k) t) = MSG_OK) \<and>
    (t \<notin> set (qs k (QOBJ sp)) \<longrightarrow> thd (chSemAddCounterI sp n k) t = thd k t)"
proof (induction sp n k rule: chSemAddCounterI.induct)
  case (1 sp n k)
  show ?case
  proof (cases "0 < n")
    case False
    then show ?thesis by (simp add: chSemAddCounterI.simps [of sp n])
  next
    case True
    define k1 where "k1 = set_sem sp (sem_cnt k sp + 1) k"
    define k2 where "k2 = (if sem_cnt k1 sp \<le> 0
      then (let (t, k) = queue_fifo_remove (QOBJ sp) k1 in set_u t MSG_OK (chSchReadyI t k)) else k1)"
    note w = sem_wake_later [OF 1(2,3), folded k1_def, folded k2_def]
    note th = sem_wake_threads(1,2) [OF 1(2,3), of t, folded k1_def, folded k2_def]
    have step: "chSemAddCounterI sp n k = chSemAddCounterI sp (n - 1) k2"
      using True by (simp add: chSemAddCounterI.simps [of sp n] k2_def k1_def Let_def)
    have "distinct (qs k (QOBJ sp))" using kinv_queues [of kd idle "{}" k] 1(2) by (simp add: semk_def queues_ok_def)
    moreover have "nat n = Suc (nat (n - 1))" using True by simp
    ultimately show ?thesis
      unfolding step using 1(1) [OF True k1_def k2_def] w 1(3) th by (cases "qs k (QOBJ sp)") auto
  qed
qed

lemma sem_signal_wait_threads:
  assumes s: "semk kd idle k" and kd: "kd sps = KSem" "kd spw = KSem"
  shows "\<exists>l. set l \<subseteq> {current k} \<and> (o' \<noteq> spw \<longrightarrow> l = []) \<and> qs (snd (chSemSignalWait sps spw k)) (QOBJ o') =
      (if o' = sps then drop 1 (qs k (QOBJ o')) else qs k (QOBJ o')) @ l"
    and "t \<noteq> current k \<Longrightarrow> t \<in> set (take 1 (qs k (QOBJ sps))) \<Longrightarrow>
      tstate (snd (chSemSignalWait sps spw k)) t \<in> {CH_STATE_READY, CH_STATE_CURRENT} \<and>
      u (thd (snd (chSemSignalWait sps spw k)) t) = MSG_OK"
proof -
  define k1 where "k1 = set_sem sps (sem_cnt k sps + 1) k"
  define k2 where "k2 = (if sem_cnt k1 sps \<le> 0
      then (let (t, k) = queue_fifo_remove (QOBJ sps) k1 in set_u t MSG_OK (chSchReadyI t k)) else k1)"
  note w = sem_wake_later [OF s kd(1), folded k1_def, folded k2_def]
  note th = sem_wake_threads [OF s kd(1), folded k1_def, folded k2_def]
  have cur: "current k2 = current k" using w by simp
  define k3 where "k3 = set_sem spw (sem_cnt k2 spw - 1) k2"
  define k4 where "k4 = set_u (current k3) spw (queue_insert (current k3) (QOBJ spw) k3)"
  have cur3: "current k3 = current k" "current k4 = current k" using cur by (simp_all add: k3_def k4_def)
  have eq: "snd (chSemSignalWait sps spw k) =
      (if sem_cnt k3 spw < 0 then chSchGoSleepS CH_STATE_WTSEM k4 else chSchRescheduleS k3)"
    by (simp add: chSemSignalWait_def Let_def k1_def k2_def k3_def k4_def)
  have q2: "qs k2 (QOBJ o') = (if o' = sps then drop 1 (qs k (QOBJ o')) else qs k (QOBJ o'))"
    using w th(3) by (auto simp: drop_Suc)
  show "\<exists>l. set l \<subseteq> {current k} \<and> (o' \<noteq> spw \<longrightarrow> l = []) \<and> qs (snd (chSemSignalWait sps spw k)) (QOBJ o') =
      (if o' = sps then drop 1 (qs k (QOBJ o')) else qs k (QOBJ o')) @ l"
    unfolding eq q2 [symmetric]
    by (rule exI [of _ "if sem_cnt k3 spw < 0 \<and> o' = spw then [current k] else []"])
      (simp add: k4_def cur3 q_insert_def, simp add: k3_def)
  show "tstate (snd (chSemSignalWait sps spw k)) t \<in> {CH_STATE_READY, CH_STATE_CURRENT} \<and>
      u (thd (snd (chSemSignalWait sps spw k)) t) = MSG_OK"
    if t: "t \<noteq> current k" "t \<in> set (take 1 (qs k (QOBJ sps)))"
  proof -
    have "thd k3 = thd k2" "thd k4 t = thd k3 t" using t(1) cur3 by (simp_all add: k3_def k4_def)
    then show ?thesis
      using th(1) [OF t(2)] t(1) cur3 still_ready(1) [of k3 t] still_ready(2) [of k4 t CH_STATE_WTSEM] unfolding eq by simp
  qed
qed

text \<open>Every step brings the thread forward by the counts given, or grants it one of them.\<close>

lemma granted_or_nearer:
  assumes t: "t \<in> set q" "distinct q" and q': "qs k' (QOBJ sp) = drop n q @ l" "t \<notin> set l"
    and g: "t \<in> set (take n q) \<Longrightarrow> tstate k' t \<in> {CH_STATE_READY, CH_STATE_CURRENT} \<and> u (thd k' t) = MSG_OK"
  shows "t \<in> set (qs k' (QOBJ sp)) \<and> ahead_of t (qs k' (QOBJ sp)) + n \<le> ahead_of t q \<or> 0 < n \<and> granted sp t k'"
proof (cases "n \<le> ahead_of t q")
  case True
  then show ?thesis using ahead_of_drop [OF t(1) True] q' ahead_of_append by simp
next
  case False
  then have in_take: "t \<in> set (take n q)" using ahead_of_take [OF t(1)] by simp
  then have "t \<notin> set (drop n q)" using set_take_disj_set_drop_if_distinct [OF t(2), of n n] by blast
  then show ?thesis using g [OF in_take] q' False by (simp add: granted_def)
qed

lemma sem_step_progress:
  assumes "sem_step kd idle sp t n k k'" and s: "sys_ok kd idle X k" and kd: "kd sp = KSem"
    and t: "t \<in> set (qs k (QOBJ sp))"
  shows "t \<in> set (qs k' (QOBJ sp)) \<and> ahead_of t (qs k' (QOBJ sp)) + n \<le> ahead_of t (qs k (QOBJ sp)) \<or>
    0 < n \<and> granted sp t k'"
proof -
  note sk = sys_parts(4) [OF s]
  have d: "distinct (qs k (QOBJ sp))" using kinv_queues [OF sys_parts(3) [OF s]] by (simp add: queues_ok_def)
  have c: "t \<noteq> current k" by (rule queued_not_current [OF sys_parts(3) [OF s] t])
  note near = granted_or_nearer [OF t d, of k']
  note g = semk_signals [OF sk kd] chSemSignal_eq [OF sk kd]
  from assms(1) show ?thesis
  proof (cases rule: sem_step.cases)
    case signalI
    then show ?thesis using near [of sp 1 "[]"] g by (cases "qs k (QOBJ sp)") simp_all
  next
    case signal
    then show ?thesis using near [of sp 1 "[]"] g
      by (cases "qs k (QOBJ sp)") (auto simp: chSchWakeupS_def Let_def)
  next
    case (addI i)
    then show ?thesis using near [of sp n "[]"] sem_add_counter_correct [OF sk kd, of i] sem_add_threads [OF sk kd, of t i]
      by simp
  next
    case (signal_wait sp')
    then show ?thesis
      using near [of sp 1] sem_signal_wait_threads(1) [OF sk kd, of sp' sp] sem_signal_wait_threads(2) [OF sk kd, of sp' t] c
      by fastforce
  next
    case (wait_signal sp')
    then show ?thesis using near [of sp 0] sem_signal_wait_threads(1) [OF sk _ kd, of sp' sp] c by fastforce
  next
    case (waits time)
    have "qs k' (QOBJ sp) \<in> {qs k (QOBJ sp), qs k (QOBJ sp) @ [current k]}"
      using semk_wait_timeout [OF sk kd waits(3), of time] waits(2) by (auto split: if_splits)
    then show ?thesis using near [of sp 0 "[]"] near [of sp 0 "[current k]"] waits(1) c by auto
  next
    case (expire x)
    then show ?thesis using wakeup_queue [of x k sp] ahead_of_remove1 [of x t "qs k (QOBJ sp)"] t by auto
  next
    case elsewhere
    then show ?thesis using t by simp
  qed
qed

text \<open>
  C20: No starvation at a semaphore.  In every run in which the thread t is not dismissed by its own
  timeout or by a reset, whatever others do meanwhile (they may signal the semaphore, wait at it,
  time out, be scheduled, and do anything at other objects), once more counts were given to the semaphore
  than threads waited ahead of t at the start, t has got one of them: some step of this very run
  gave counts, fewer than these having been given before it, and took t out of the queue, made it
  ready or running, to return MSG_OK; until then t stayed in the queue.
\<close>

theorem sem_no_starvation:
  assumes "sys_ok kd idle X k0" and "kd sp = KSem" and "t \<in> set (qs k0 (QOBJ sp))"
    and "sem_run kd idle sp t k0 tr" and "ahead_of t (qs k0 (QOBJ sp)) < sum_list (map fst tr)"
  shows "\<exists>pre n k' post. tr = pre @ (n, k') # post \<and> 0 < n \<and>
    sum_list (map fst pre) \<le> ahead_of t (qs k0 (QOBJ sp)) \<and>
    list_all (\<lambda>(_, k1). t \<in> set (qs k1 (QOBJ sp))) pre \<and> t \<notin> set (qs k' (QOBJ sp)) \<and>
    tstate k' t \<in> {CH_STATE_READY, CH_STATE_CURRENT} \<and> u (thd k' t) = MSG_OK"
  using assms(1,3,4,5)
proof (induction tr arbitrary: k0 X)
  case Nil
  then show ?case by simp
next
  case (Cons e tr)
  obtain n k' where e: "e = (n, k')" by (cases e)
  have st: "sem_step kd idle sp t n k0 k'" and run: "sem_run kd idle sp t k' tr" using Cons.prems(3) e by simp_all
  obtain Y where ok: "sys_ok kd idle Y k'" using sem_step_ok [OF st Cons.prems(1) assms(2)] by blast
  from sem_step_progress [OF st Cons.prems(1) assms(2) Cons.prems(2)] show ?case
  proof (elim disjE conjE)
    assume n: "0 < n" and g: "granted sp t k'"
    show ?thesis
      by (rule exI [of _ "[]"], rule exI [of _ n], rule exI [of _ k'], rule exI [of _ tr])
        (use n g e in \<open>simp add: granted_def\<close>)
  next
    assume q: "t \<in> set (qs k' (QOBJ sp))" and a: "ahead_of t (qs k' (QOBJ sp)) + n \<le> ahead_of t (qs k0 (QOBJ sp))"
    then have "ahead_of t (qs k' (QOBJ sp)) < sum_list (map fst tr)" using Cons.prems(4) e by simp
    from Cons.IH [OF ok q run this] obtain pre n1 k1 post where
      "tr = pre @ (n1, k1) # post" "0 < n1" "sum_list (map fst pre) \<le> ahead_of t (qs k' (QOBJ sp))"
      "list_all (\<lambda>(_, k1). t \<in> set (qs k1 (QOBJ sp))) pre" "t \<notin> set (qs k1 (QOBJ sp))"
      "tstate k1 t \<in> {CH_STATE_READY, CH_STATE_CURRENT}" "u (thd k1 t) = MSG_OK" by blast
    then show ?thesis using e a q
      by (intro exI [of _ "e # pre"] exI [of _ n1] exI [of _ k1] exI [of _ post]) simp
  qed
qed

text \<open>The waiting main thread: the idle thread is preempted and the semaphore signalled.\<close>

lemma sem_no_starvation_witness:
  "tstate (chSemSignalI 300 (port_irq_epilogue run2)) 1 \<in> {CH_STATE_READY, CH_STATE_CURRENT} \<and>
    u (thd (chSemSignalI 300 (port_irq_epilogue run2)) 1) = MSG_OK"
proof -
  have s1: "sys_ok sys_kind 2 {} run1" unfolding run1_def chMtxLock_def
    using sys_lock [OF sys_ok_boot, of 100] by (simp add: sys_kind_def boot_simps)
  have c: "current run1 = 1" using mtxk_cond_own by (simp add: run1_def chMtxLock_def own_boot_def)
  have n: "sem_cnt run1 300 = 0" "qs run1 (QOBJ 300) = []"
    by (simp_all add: run1_def chMtxLock_def chMtxLockS_def boot_simps Let_def)
  have kd: "sys_kind 300 = KSem" by (simp add: sys_kind_def)
  have inf: "TIME_INFINITE \<noteq> TIME_IMMEDIATE" by (simp add: TIME_INFINITE_def TIME_IMMEDIATE_def)
  have e: "run2 = snd (chSemWaitTimeoutS 300 TIME_INFINITE run1)"
    by (simp add: run2_def chSemWait_def wait_is_timeout)
  have s2: "sys_ok sys_kind 2 {} run2" unfolding e using sys_sem_wait_timeout [OF s1 kd] c by simp
  have q: "qs run2 (QOBJ 300) = [1]"
    unfolding e using semk_wait_timeout [OF sys_parts(4) [OF s1] kd, of TIME_INFINITE] c n inf by simp
  let ?k = "port_irq_epilogue run2"
  have r: "sem_run sys_kind 2 300 1 run2 [(0, ?k), (1, chSemSignalI 300 ?k)]"
    using elsewhere_reschedule [OF s2] by (simp add: sem_step.signalI del: One_nat_def)
  have "qs ?k (QOBJ 300) = [1]" using q by (simp add: epilogue_reschedules)
  then show ?thesis using sem_no_starvation [OF s2 kd _ r] q by (auto simp: ahead_of_def Cons_eq_append_conv)
qed

end
