(* ===== verification/Serial.thy ===== *)
theory Serial
  imports Interplay IoQueues
begin

text \<open>
  The serial driver of the HAL (hal_serial.c, hal_channels.h) on the USART of the STM32
  (USARTv1/hal_serial_lld.c): a driver object with an input queue, an output queue and an event
  source, the calls of threads, and the interrupt handler that moves bytes between the queues
  and the data register.

  Control registers are memory: a read gives what was last written (\<open>mmio\<close> of the kernel state).
  The status and the data register are not: reading and writing them drives the hardware, which
  is the argument \<open>io\<close>, four functions on a hardware state of any type.  Their documented
  behaviour is the hypothesis \<open>usart_ok\<close> of the theorems.
\<close>

section \<open>Registers\<close>

abbreviation SR_PE :: u16 where "SR_PE \<equiv> 0x0001"
abbreviation SR_FE :: u16 where "SR_FE \<equiv> 0x0002"
abbreviation SR_NE :: u16 where "SR_NE \<equiv> 0x0004"
abbreviation SR_ORE :: u16 where "SR_ORE \<equiv> 0x0008"
abbreviation SR_RXNE :: u16 where "SR_RXNE \<equiv> 0x0020"
abbreviation SR_TC :: u16 where "SR_TC \<equiv> 0x0040"
abbreviation SR_TXE :: u16 where "SR_TXE \<equiv> 0x0080"
abbreviation SR_LBD :: u16 where "SR_LBD \<equiv> 0x0100"

abbreviation CR1_RE :: u32 where "CR1_RE \<equiv> 0x0004"
abbreviation CR1_TE :: u32 where "CR1_TE \<equiv> 0x0008"
abbreviation CR1_RXNEIE :: u32 where "CR1_RXNEIE \<equiv> 0x0020"
abbreviation CR1_TCIE :: u32 where "CR1_TCIE \<equiv> 0x0040"
abbreviation CR1_TXEIE :: u32 where "CR1_TXEIE \<equiv> 0x0080"
abbreviation CR1_PEIE :: u32 where "CR1_PEIE \<equiv> 0x0100"
abbreviation CR1_PCE :: u16 where "CR1_PCE \<equiv> 0x0400"
abbreviation CR1_M :: u16 where "CR1_M \<equiv> 0x1000"
abbreviation CR1_UE :: u32 where "CR1_UE \<equiv> 0x2000"
abbreviation CR2_LBDIE :: u32 where "CR2_LBDIE \<equiv> 0x0040"
abbreviation CR3_EIE :: u32 where "CR3_EIE \<equiv> 0x0001"

abbreviation USART1 :: u32 where "USART1 \<equiv> 0x40013800"
abbreviation BRR :: "u32 \<Rightarrow> u32" where "BRR us \<equiv> us + 0x08"
abbreviation CR1 :: "u32 \<Rightarrow> u32" where "CR1 us \<equiv> us + 0x0C"
abbreviation CR2 :: "u32 \<Rightarrow> u32" where "CR2 us \<equiv> us + 0x10"
abbreviation CR3 :: "u32 \<Rightarrow> u32" where "CR3 us \<equiv> us + 0x14"
abbreviation RCC_APB2ENR :: u32 where "RCC_APB2ENR \<equiv> 0x40021018"
abbreviation APB2ENR_USART1EN :: u32 where "APB2ENR_USART1EN \<equiv> 0x4000"
abbreviation NVIC :: u32 where "NVIC \<equiv> 0xE000E100"

definition reg_write :: "u32 \<Rightarrow> u32 \<Rightarrow> kernel \<Rightarrow> kernel" where
  "reg_write a v k = k\<lparr>mmio := (mmio k)(a := v)\<rparr>"

record 'h usart_io =
  rd_sr :: "'h \<Rightarrow> u32 \<times> 'h"
  rd_dr :: "'h \<Rightarrow> u32 \<times> 'h"
  wr_sr :: "u32 \<Rightarrow> 'h \<Rightarrow> 'h"
  wr_dr :: "u32 \<Rightarrow> 'h \<Rightarrow> 'h"

section \<open>The interrupt controller and the clocks\<close>

definition NVIC_PRIORITY_MASK :: "u32 \<Rightarrow> u32" where
  "NVIC_PRIORITY_MASK p = push_bit 4 p"

definition nvicEnableVector :: "u32 \<Rightarrow> u32 \<Rightarrow> kernel \<Rightarrow> kernel" where
  "nvicEnableVector n p k =
    (let k = reg_write (NVIC + 0x300 + n) (NVIC_PRIORITY_MASK p) k;
         k = reg_write (NVIC + 0x180 + 4 * drop_bit 5 n) (push_bit (unat (n AND 0x1F)) 1) k
     in reg_write (NVIC + 4 * drop_bit 5 n) (push_bit (unat (n AND 0x1F)) 1) k)"

definition nvicDisableVector :: "u32 \<Rightarrow> kernel \<Rightarrow> kernel" where
  "nvicDisableVector n k =
    (let k = reg_write (NVIC + 0x80 + 4 * drop_bit 5 n) (push_bit (unat (n AND 0x1F)) 1) k
     in reg_write (NVIC + 0x300 + n) 0 k)"

definition rccEnableAPB2 :: "u32 \<Rightarrow> kernel \<Rightarrow> kernel" where
  "rccEnableAPB2 m k = reg_write RCC_APB2ENR (mmio k RCC_APB2ENR OR m) k"

definition rccDisableAPB2 :: "u32 \<Rightarrow> kernel \<Rightarrow> kernel" where
  "rccDisableAPB2 m k = reg_write RCC_APB2ENR (mmio k RCC_APB2ENR AND NOT m) k"

section \<open>The driver object\<close>

datatype sdstate = SD_UNINIT | SD_STOP | SD_READY

record serial =
  sd_event :: ptr
  sd_state :: sdstate
  sd_iq :: ioq
  sd_oq :: ioq
  sd_usart :: u32
  sd_rxmask :: u8

record serial_config =
  cfg_speed :: u32
  cfg_cr1 :: u16
  cfg_cr2 :: u16
  cfg_cr3 :: u16

definition default_config :: serial_config where
  "default_config = \<lparr>cfg_speed = 57600, cfg_cr1 = 0, cfg_cr2 = 0, cfg_cr3 = 0\<rparr>"

definition SERIAL_BUFFERS_SIZE :: nat where "SERIAL_BUFFERS_SIZE = 128"

abbreviation CHN_INPUT_AVAILABLE :: u32 where "CHN_INPUT_AVAILABLE \<equiv> 4"
abbreviation CHN_OUTPUT_EMPTY :: u32 where "CHN_OUTPUT_EMPTY \<equiv> 8"
abbreviation CHN_TRANSMISSION_END :: u32 where "CHN_TRANSMISSION_END \<equiv> 16"
abbreviation SD_PARITY_ERROR :: u32 where "SD_PARITY_ERROR \<equiv> 32"
abbreviation SD_FRAMING_ERROR :: u32 where "SD_FRAMING_ERROR \<equiv> 64"
abbreviation SD_OVERRUN_ERROR :: u32 where "SD_OVERRUN_ERROR \<equiv> 128"
abbreviation SD_NOISE_ERROR :: u32 where "SD_NOISE_ERROR \<equiv> 256"
abbreviation SD_BREAK_DETECTED :: u32 where "SD_BREAK_DETECTED \<equiv> 512"

text \<open>
  The calls of the channel interface: \<open>read\<close>, \<open>write\<close>, \<open>put\<close> and \<open>get\<close> of the method table
  are the timed ones with \<open>TIME_INFINITE\<close>.  The input queue has no notification, the output
  queue enables the transmit interrupt.
\<close>

definition notify1 :: notify where
  "notify1 = Some (\<lambda>(q, k). (q, reg_write (CR1 USART1) (mmio k (CR1 USART1) OR CR1_TXEIE) k))"

definition sd_readt :: "nat \<Rightarrow> systime \<Rightarrow> serial \<Rightarrow> kernel \<Rightarrow> u8 list transfer \<times> serial \<times> kernel" where
  "sd_readt n time sd k = (let (r, q, k) = iqReadTimeout None n time (sd_iq sd) k in (r, sd\<lparr>sd_iq := q\<rparr>, k))"

definition sd_writet :: "u8 list \<Rightarrow> systime \<Rightarrow> serial \<Rightarrow> kernel \<Rightarrow> nat transfer \<times> serial \<times> kernel" where
  "sd_writet bs time sd k = (let (r, q, k) = oqWriteTimeout notify1 bs time (sd_oq sd) k in (r, sd\<lparr>sd_oq := q\<rparr>, k))"

definition sd_gett :: "systime \<Rightarrow> serial \<Rightarrow> kernel \<Rightarrow> msg outcome \<times> serial \<times> kernel" where
  "sd_gett time sd k = (let (r, q, k) = iqGetTimeout None time (sd_iq sd) k in (r, sd\<lparr>sd_iq := q\<rparr>, k))"

definition sd_putt :: "u8 \<Rightarrow> systime \<Rightarrow> serial \<Rightarrow> kernel \<Rightarrow> msg outcome \<times> serial \<times> kernel" where
  "sd_putt b time sd k = (let (r, q, k) = oqPutTimeout notify1 b time (sd_oq sd) k in (r, sd\<lparr>sd_oq := q\<rparr>, k))"

definition sd_read :: "nat \<Rightarrow> serial \<Rightarrow> kernel \<Rightarrow> u8 list transfer \<times> serial \<times> kernel" where
  "sd_read n = sd_readt n TIME_INFINITE"

definition sd_write :: "u8 list \<Rightarrow> serial \<Rightarrow> kernel \<Rightarrow> nat transfer \<times> serial \<times> kernel" where
  "sd_write bs = sd_writet bs TIME_INFINITE"

definition sd_get :: "serial \<Rightarrow> kernel \<Rightarrow> msg outcome \<times> serial \<times> kernel" where
  "sd_get = sd_gett TIME_INFINITE"

definition sd_put :: "u8 \<Rightarrow> serial \<Rightarrow> kernel \<Rightarrow> msg outcome \<times> serial \<times> kernel" where
  "sd_put b = sd_putt b TIME_INFINITE"

definition sdPutWouldBlock :: "serial \<Rightarrow> bool" where
  "sdPutWouldBlock sd = oqIsFullI (sd_oq sd)"

definition sdGetWouldBlock :: "serial \<Rightarrow> bool" where
  "sdGetWouldBlock sd = iqIsEmptyI (sd_iq sd)"

definition chnAddFlagsI :: "serial \<Rightarrow> u32 \<Rightarrow> kernel \<Rightarrow> kernel" where
  "chnAddFlagsI sd fl k = chEvtBroadcastFlagsI (sd_event sd) fl k"

definition sdIncomingDataI :: "u8 \<Rightarrow> serial \<Rightarrow> kernel \<Rightarrow> serial \<times> kernel" where
  "sdIncomingDataI b sd k =
    (let k = (if iqIsEmptyI (sd_iq sd) then chnAddFlagsI sd CHN_INPUT_AVAILABLE k else k);
         (m, q, k) = iqPutI (sd_iq sd) b k;
         sd = sd\<lparr>sd_iq := q\<rparr>
     in (sd, if m <s MSG_OK then chnAddFlagsI sd SD_OVERRUN_ERROR k else k))"

definition sdRequestDataI :: "serial \<Rightarrow> kernel \<Rightarrow> msg \<times> serial \<times> kernel" where
  "sdRequestDataI sd k =
    (let (b, q, k) = oqGetI (sd_oq sd) k;
         sd = sd\<lparr>sd_oq := q\<rparr>
     in (b, sd, if b <s MSG_OK then chnAddFlagsI sd CHN_OUTPUT_EMPTY k else k))"

section \<open>Starting and stopping\<close>

definition sdObjectInit :: "u8 list \<Rightarrow> u8 list \<Rightarrow> ptr \<Rightarrow> ptr \<Rightarrow> serial \<Rightarrow> kernel \<Rightarrow> serial \<times> kernel" where
  "sdObjectInit ib ob iw ow sd k =
    (let k = chEvtObjectInit (sd_event sd) k;
         sd = sd\<lparr>sd_state := SD_STOP\<rparr>;
         (iq, k) = iqObjectInit iw ib SERIAL_BUFFERS_SIZE k;
         sd = sd\<lparr>sd_iq := iq\<rparr>;
         (oq, k) = oqObjectInit ow ob SERIAL_BUFFERS_SIZE k
     in (sd\<lparr>sd_oq := oq\<rparr>, k))"

definition sd_lld_init :: "u8 list \<Rightarrow> u8 list \<Rightarrow> ptr \<Rightarrow> ptr \<Rightarrow> serial \<Rightarrow> kernel \<Rightarrow> serial \<times> kernel" where
  "sd_lld_init ib ob iw ow sd1 k =
    (let (sd1, k) = sdObjectInit ib ob iw ow sd1 k in (sd1\<lparr>sd_usart := USART1\<rparr>, k))"

definition STM32_PCLK2 :: u32 where "STM32_PCLK2 = 8000000"
definition STM32_PCLK1 :: u32 where "STM32_PCLK1 = 8000000"

definition usart_init :: "'h usart_io \<Rightarrow> serial_config \<Rightarrow> serial \<Rightarrow> kernel \<Rightarrow> 'h \<Rightarrow> serial \<times> kernel \<times> 'h" where
  "usart_init io cfg sd k h =
    (let us = sd_usart sd;
         k = (if us = USART1 then reg_write (BRR us) (STM32_PCLK2 div cfg_speed cfg) k
              else reg_write (BRR us) (STM32_PCLK1 div cfg_speed cfg) k);
         k = reg_write (CR2 us) (ucast (cfg_cr2 cfg) OR CR2_LBDIE) k;
         k = reg_write (CR3 us) (ucast (cfg_cr3 cfg) OR CR3_EIE) k;
         k = reg_write (CR1 us) (ucast (cfg_cr1 cfg) OR CR1_UE OR CR1_PEIE OR CR1_RXNEIE OR CR1_TE OR CR1_RE) k;
         h = wr_sr io 0 h;
         (_, h) = rd_sr io h;
         (_, h) = rd_dr io h
     in (sd\<lparr>sd_rxmask := (if cfg_cr1 cfg AND (CR1_M OR CR1_PCE) = CR1_PCE then 0x7F else 0xFF)\<rparr>, k, h))"

definition usart_deinit :: "u32 \<Rightarrow> kernel \<Rightarrow> kernel" where
  "usart_deinit us k =
    (let k = reg_write (CR1 us) 0 k; k = reg_write (CR2 us) 0 k in reg_write (CR3 us) 0 k)"

definition sd_lld_start :: "'h usart_io \<Rightarrow> serial_config option \<Rightarrow> serial \<Rightarrow> kernel \<Rightarrow> 'h \<Rightarrow> serial \<times> kernel \<times> 'h" where
  "sd_lld_start io config sd k h =
    (let config = (case config of None \<Rightarrow> default_config | Some c \<Rightarrow> c);
         k = (if sd_state sd = SD_STOP
              then nvicEnableVector 37 12 (rccEnableAPB2 APB2ENR_USART1EN k) else k)
     in usart_init io config sd k h)"

definition sd_lld_stop :: "serial \<Rightarrow> kernel \<Rightarrow> kernel" where
  "sd_lld_stop sd k =
    (if sd_state sd = SD_READY
     then nvicDisableVector 37 (rccDisableAPB2 APB2ENR_USART1EN (usart_deinit (sd_usart sd) k)) else k)"

definition sdStart :: "'h usart_io \<Rightarrow> serial_config option \<Rightarrow> serial \<Rightarrow> kernel \<Rightarrow> 'h \<Rightarrow> serial \<times> kernel \<times> 'h" where
  "sdStart io config sd k h =
    (let (sd, k, h) = sd_lld_start io config sd k h in (sd\<lparr>sd_state := SD_READY\<rparr>, k, h))"

definition sdStop :: "serial \<Rightarrow> kernel \<Rightarrow> serial \<times> kernel" where
  "sdStop sd k =
    (let k = sd_lld_stop sd k;
         sd = sd\<lparr>sd_state := SD_STOP\<rparr>;
         (oq, k) = oqResetI (sd_oq sd) k;
         (iq, k) = iqResetI (sd_iq sd) k
     in (sd\<lparr>sd_oq := oq, sd_iq := iq\<rparr>, chSchRescheduleS k))"

section \<open>The interrupt handler\<close>

definition set_error :: "serial \<Rightarrow> u16 \<Rightarrow> kernel \<Rightarrow> kernel" where
  "set_error sd sr k =
    (let sts = 0;
         sts = (if sr AND SR_ORE \<noteq> 0 then sts OR SD_OVERRUN_ERROR else sts);
         sts = (if sr AND SR_PE \<noteq> 0 then sts OR SD_PARITY_ERROR else sts);
         sts = (if sr AND SR_FE \<noteq> 0 then sts OR SD_FRAMING_ERROR else sts);
         sts = (if sr AND SR_NE \<noteq> 0 then sts OR SD_NOISE_ERROR else sts)
     in chnAddFlagsI sd sts k)"

text \<open>One pass of the receive loop, and the loop, which ends when the status shows no more input.\<close>

definition serve_rx_pass :: "'h usart_io \<Rightarrow> u16 \<Rightarrow> serial \<Rightarrow> kernel \<Rightarrow> 'h \<Rightarrow> u16 \<times> serial \<times> kernel \<times> 'h" where
  "serve_rx_pass io sr sd k h =
    (let k = (if sr AND (SR_ORE OR SR_NE OR SR_FE OR SR_PE) \<noteq> 0 then set_error sd sr k else k);
         (d, h) = rd_dr io h;
         b = ucast d AND sd_rxmask sd;
         (sd, k) = (if sr AND SR_RXNE \<noteq> 0 then sdIncomingDataI b sd k else (sd, k));
         (v, h) = rd_sr io h
     in (ucast v, sd, k, h))"

partial_function (option) serve_rx ::
  "'h usart_io \<Rightarrow> u16 \<Rightarrow> serial \<Rightarrow> kernel \<Rightarrow> 'h \<Rightarrow> (u16 \<times> serial \<times> kernel \<times> 'h) option" where
  "serve_rx io sr sd k h =
    (if sr AND (SR_RXNE OR SR_ORE OR SR_NE OR SR_FE OR SR_PE) \<noteq> 0
     then (case serve_rx_pass io sr sd k h of (sr, sd, k, h) \<Rightarrow> serve_rx io sr sd k h)
     else Some (sr, sd, k, h))"

text \<open>The transmit part and the end of transmission, with the control word read at the start.\<close>

definition serve_tx :: "'h usart_io \<Rightarrow> u16 \<Rightarrow> u16 \<Rightarrow> serial \<Rightarrow> kernel \<Rightarrow> 'h \<Rightarrow> serial \<times> kernel \<times> 'h" where
  "serve_tx io cr1 sr sd k h =
    (if ucast cr1 AND CR1_TXEIE \<noteq> 0 \<and> sr AND SR_TXE \<noteq> 0
     then (let (b, q, k) = oqGetI (sd_oq sd) k;
               sd = sd\<lparr>sd_oq := q\<rparr>
           in if b <s MSG_OK
              then (sd, reg_write (CR1 (sd_usart sd)) ((ucast cr1 AND NOT CR1_TXEIE) OR CR1_TCIE)
                      (chnAddFlagsI sd CHN_OUTPUT_EMPTY k), h)
              else (sd, k, wr_dr io b h))
     else (sd, k, h))"

definition serve_tc :: "'h usart_io \<Rightarrow> u16 \<Rightarrow> u16 \<Rightarrow> serial \<Rightarrow> kernel \<Rightarrow> 'h \<Rightarrow> serial \<times> kernel \<times> 'h" where
  "serve_tc io cr1 sr sd k h =
    (if sr AND SR_TC \<noteq> 0
     then (let k = (if oqIsEmptyI (sd_oq sd) then chnAddFlagsI sd CHN_TRANSMISSION_END k else k);
               k = reg_write (CR1 (sd_usart sd)) (ucast cr1 AND NOT CR1_TCIE) k
           in (sd, k, wr_sr io (NOT (ucast SR_TC)) h))
     else (sd, k, h))"

definition serve_interrupt :: "'h usart_io \<Rightarrow> serial \<Rightarrow> kernel \<Rightarrow> 'h \<Rightarrow> (serial \<times> kernel \<times> 'h) option" where
  "serve_interrupt io sd k h =
    (let cr1 = ucast (mmio k (CR1 (sd_usart sd)));
         (v, h) = rd_sr io h;
         sr = ucast v;
         (k, h) = (if sr AND SR_LBD \<noteq> 0
                   then (chnAddFlagsI sd SD_BREAK_DETECTED k, wr_sr io (NOT (ucast SR_LBD)) h) else (k, h))
     in case serve_rx io sr sd k h of
          None \<Rightarrow> None
        | Some (sr, sd, k, h) \<Rightarrow>
            (let (sd, k, h) = serve_tx io cr1 sr sd k h
             in Some (serve_tc io cr1 sr sd k h)))"

section \<open>Frames\<close>

text \<open>
  What broadcasts, queue operations and register writes leave alone: registers change by
  \<open>reg_write\<close> only, listeners keep their thread.
\<close>

lemma reg_write_simps [simp]:
  "thd (reg_write a v k) = thd k" "qs (reg_write a v k) = qs k" "current (reg_write a v k) = current k"
  "stime (reg_write a v k) = stime k" "evt_src (reg_write a v k) = evt_src k" "evt_lis (reg_write a v k) = evt_lis k"
  "sem_cnt (reg_write a v k) = sem_cnt k" "mtx_owner (reg_write a v k) = mtx_owner k"
  "mmio (reg_write a v k) = (mmio k)(a := v)"
  by (simp_all add: reg_write_def)

lemma sys_reg_write [simp]: "sys_ok kd idle X (reg_write a v k) = sys_ok kd idle X k"
  by (rule sys_cong) simp_all

lemma kinv_reg_write [simp]: "kinv kd idle D (reg_write a v k) = kinv kd idle D k"
  by (rule kinv_fields_cong) simp_all

lemma wake_devices [simp]:
  "mmio (chSchReadyI t k) = mmio k" "mmio (set_u t w k) = mmio k" "mmio (set_pending t w k) = mmio k"
  "evt_src (chSchReadyI t k) = evt_src k" "evt_lis (chSchReadyI t k) = evt_lis k"
  by (simp_all add: chSchReadyI_def Let_def set_state_def set_u_def set_pending_def upd_thd_def)

lemma dequeue_devices [simp]:
  "mmio (chThdDequeueNextI tqp m k) = mmio k" "evt_src (chThdDequeueNextI tqp m k) = evt_src k"
  "evt_lis (chThdDequeueNextI tqp m k) = evt_lis k"
  by (cases "qs k (QOBJ tqp)";
      simp add: chThdDequeueNextI_def chThdDoDequeueNextI_def queue_notempty_def queue_fifo_remove_def
        set_u_def upd_thd_def)+

lemma signal_devices [simp]:
  "mmio (chEvtSignalI t ev k) = mmio k" "evt_src (chEvtSignalI t ev k) = evt_src k"
  by (simp_all add: signal_eq Let_def set_u_def set_pending_def upd_thd_def)

definition heard :: "ptr \<Rightarrow> kernel \<Rightarrow> bool" where
  "heard esp k \<longleftrightarrow> (\<forall>l \<in> set (evt_src k esp). el_listener (evt_lis k l) \<noteq> NULL)"

lemma broadcast_devices:
  "mmio (broadcast_loop fl ls k) = mmio k \<and> evt_src (broadcast_loop fl ls k) = evt_src k \<and>
    (\<forall>l. el_listener (evt_lis (broadcast_loop fl ls k) l) = el_listener (evt_lis k l))"
proof (induction ls arbitrary: k)
  case (Cons e r)
  have "mmio (add_flags e fl k) = mmio k" by (simp add: add_flags_def)
  then show ?case unfolding broadcast_loop_Cons by (simp add: Cons listener_same del: add_flags_simps(5))
qed simp

lemma chnAddFlagsI_frame:
  "mmio (chnAddFlagsI sd fl k) = mmio k" "evt_src (chnAddFlagsI sd fl k) = evt_src k"
  "heard esp (chnAddFlagsI sd fl k) = heard esp k"
  "sys_ok kd idle X k \<Longrightarrow> heard (sd_event sd) k \<Longrightarrow> sys_ok kd idle X (chnAddFlagsI sd fl k)"
  using broadcast_devices [of fl "evt_src k (sd_event sd)" k] sys_broadcast [of kd idle X k "evt_src k (sd_event sd)" fl]
  by (simp_all add: chnAddFlagsI_def chEvtBroadcastFlagsI_def heard_def)

section \<open>The driver invariant\<close>

text \<open>The queues apart from the kernel, and the driver with the kernel.\<close>

definition ioq_static :: "(ptr \<Rightarrow> okind) \<Rightarrow> nat \<Rightarrow> ioq \<Rightarrow> bool" where
  "ioq_static kd n q \<longleftrightarrow> kd (q_waiting q) = KQueue \<and> q_ring n q"

definition sd_queues :: "(ptr \<Rightarrow> okind) \<Rightarrow> serial \<Rightarrow> bool" where
  "sd_queues kd sd \<longleftrightarrow> ioq_static kd (q_counter (sd_iq sd)) (sd_iq sd) \<and>
    q_counter (sd_oq sd) \<le> q_top (sd_oq sd) \<and>
    ioq_static kd (q_top (sd_oq sd) - q_counter (sd_oq sd)) (sd_oq sd)"

definition sd_ok :: "(ptr \<Rightarrow> okind) \<Rightarrow> ptr \<Rightarrow> serial \<Rightarrow> kernel \<Rightarrow> bool" where
  "sd_ok kd idle sd k \<longleftrightarrow> (\<exists>X. sys_ok kd idle X k) \<and> heard (sd_event sd) k \<and> sd_queues kd sd"

text \<open>Bytes wait for transmission only while the transmit interrupt is enabled.\<close>

definition sd_armed :: "serial \<Rightarrow> kernel \<Rightarrow> bool" where
  "sd_armed sd k \<longleftrightarrow> oq_bytes (sd_oq sd) \<noteq> [] \<longrightarrow> bit (mmio k (CR1 (sd_usart sd))) 7"

abbreviation rx_bytes :: "serial \<Rightarrow> u8 list" where "rx_bytes sd \<equiv> iq_bytes (sd_iq sd)"
abbreviation tx_bytes :: "serial \<Rightarrow> u8 list" where "tx_bytes sd \<equiv> oq_bytes (sd_oq sd)"

lemma iq_ok_static:
  "sys_ok kd idle X k \<Longrightarrow> iq_ok kd idle q k \<longleftrightarrow> ioq_static kd (q_counter q) q"
  using sys_parts(3) by (auto simp: iq_ok_def ioq_ok_def ioq_static_def)

lemma oq_ok_static:
  "sys_ok kd idle X k \<Longrightarrow>
    oq_ok kd idle q k \<longleftrightarrow> q_counter q \<le> q_top q \<and> ioq_static kd (q_top q - q_counter q) q"
  using sys_parts(3) by (auto simp: oq_ok_def ioq_ok_def ioq_static_def)

lemma sd_okD:
  assumes "sd_ok kd idle sd k"
  shows "\<exists>X. sys_ok kd idle X k" "heard (sd_event sd) k" "iq_ok kd idle (sd_iq sd) k" "oq_ok kd idle (sd_oq sd) k"
  using assms iq_ok_static oq_ok_static by (auto simp: sd_ok_def sd_queues_def)

lemma sd_okI:
  "sys_ok kd idle X k \<Longrightarrow> heard (sd_event sd) k \<Longrightarrow> iq_ok kd idle (sd_iq sd) k \<Longrightarrow> oq_ok kd idle (sd_oq sd) k \<Longrightarrow>
    sd_ok kd idle sd k"
  using iq_ok_static oq_ok_static by (auto simp: sd_ok_def sd_queues_def)

text \<open>The kernel may change under the driver.\<close>

lemma sd_ok_kernel:
  "sd_ok kd idle sd k \<Longrightarrow> sys_ok kd idle X k' \<Longrightarrow> heard (sd_event sd) k' \<Longrightarrow> sd_ok kd idle sd k'"
  by (auto simp: sd_ok_def)

lemma sd_ok_flags: "sd_ok kd idle sd k \<Longrightarrow> sd_ok kd idle sd (chnAddFlagsI sd fl k)"
  unfolding sd_ok_def chnAddFlagsI_frame(3) using chnAddFlagsI_frame(4) by blast

lemma sd_ok_reg: "sd_ok kd idle sd (reg_write a v k) = sd_ok kd idle sd k"
  by (simp add: sd_ok_def heard_def)

section \<open>Receiving\<close>

lemma byte_not_negative [simp]: "\<not> (ucast (b :: u8) :: u32) <s MSG_OK" "MSG_TIMEOUT <s MSG_OK"
proof -
  have "uint b < 256" "0 \<le> uint b" using uint_lt2p [of b] by simp_all
  moreover have "- (2 ^ 31) \<le> uint b"
    by (rule order_trans [of _ 0]) (simp_all del: uint_ge_0 add: \<open>0 \<le> uint b\<close>)
  ultimately have "signed_take_bit 31 (uint b) = uint b" "take_bit 32 (uint b) = uint b"
    by (simp_all add: signed_take_bit_int_eq_self_iff take_bit_int_eq_self_iff)
  then show "\<not> (ucast b :: u32) <s MSG_OK"
    using \<open>0 \<le> uint b\<close> by (simp add: word_sless_alt MSG_OK_def sint_uint unsigned_ucast_eq)
  show "MSG_TIMEOUT <s MSG_OK" by (simp add: word_sless_alt MSG_TIMEOUT_def MSG_OK_def)
qed

definition only_iq :: "serial \<Rightarrow> serial \<Rightarrow> bool" where
  "only_iq sd sd' \<longleftrightarrow> (\<exists>q. sd' = sd\<lparr>sd_iq := q\<rparr>)"

lemma only_iq_refl [simp]: "only_iq sd sd" "only_iq sd (sd\<lparr>sd_iq := q\<rparr>)"
  unfolding only_iq_def by (rule exI [of _ "sd_iq sd"]) (simp, blast)

lemma only_iq_trans: "only_iq sd sd1 \<Longrightarrow> only_iq sd1 sd2 \<Longrightarrow> only_iq sd sd2"
  by (auto simp: only_iq_def)

lemma only_iqD:
  "only_iq sd sd' \<Longrightarrow> sd_oq sd' = sd_oq sd \<and> sd_usart sd' = sd_usart sd \<and> sd_rxmask sd' = sd_rxmask sd \<and>
    sd_event sd' = sd_event sd \<and> sd_state sd' = sd_state sd"
  by (auto simp: only_iq_def)

text \<open>A byte from the line: stored while there is room, otherwise dropped and reported.\<close>

lemma incoming_inv:
  assumes s: "sd_ok kd idle sd k"
  shows "case sdIncomingDataI b sd k of (sd', k') \<Rightarrow> sd_ok kd idle sd' k' \<and>
    rx_bytes sd' = take (q_top (sd_iq sd)) (rx_bytes sd @ [b]) \<and>
    q_top (sd_iq sd') = q_top (sd_iq sd) \<and> q_waiting (sd_iq sd') = q_waiting (sd_iq sd) \<and>
    only_iq sd sd' \<and> mmio k' = mmio k"
proof -
  define k1 where "k1 = (if iqIsEmptyI (sd_iq sd) then chnAddFlagsI sd CHN_INPUT_AVAILABLE k else k)"
  have s1: "sd_ok kd idle sd k1" and m1: "mmio k1 = mmio k"
    using s by (simp_all add: k1_def sd_ok_flags chnAddFlagsI_frame)
  note q = iqPutI_eq [OF sd_okD(3) [OF s1], of b]
  have len: "length (rx_bytes sd) \<le> q_top (sd_iq sd)"
    using ioq_bound [of kd idle "q_counter (sd_iq sd)" "sd_iq sd" k1] sd_okD(3) [OF s1] by (simp add: iq_ok_def)
  have kd: "kd (q_waiting (sd_iq sd)) = KQueue" using s by (simp add: sd_ok_def sd_queues_def ioq_static_def)
  show ?thesis
  proof (cases "q_counter (sd_iq sd) = q_top (sd_iq sd)")
    case True
    then show ?thesis
      using q s1 m1 sd_ok_flags [OF s1, of SD_OVERRUN_ERROR]
      by (simp add: sdIncomingDataI_def Let_def k1_def [symmetric] chnAddFlagsI_frame)
  next
    case False
    let ?k = "chThdDequeueNextI (q_waiting (sd_iq sd)) MSG_OK k1"
    obtain q' where q': "iqPutI (sd_iq sd) b k1 = (MSG_OK, q', ?k)" "iq_ok kd idle q' ?k"
      "iq_bytes q' = rx_bytes sd @ [b]" "q_waiting q' = q_waiting (sd_iq sd)" "q_top q' = q_top (sd_iq sd)"
      using q False by auto
    obtain X where X: "sys_ok kd idle X k1" using sd_okD(1) [OF s1] by blast
    have sk: "sys_ok kd idle X ?k" by (rule sys_dequeue_next [OF X kd])
    have "oq_ok kd idle (sd_oq sd) ?k" using sd_okD(4) [OF s1] oq_ok_static [OF sk] oq_ok_static [OF X] by simp
    moreover have "heard (sd_event sd) ?k" using sd_okD(2) [OF s1] by (simp add: heard_def)
    ultimately have "sd_ok kd idle (sd\<lparr>sd_iq := q'\<rparr>) ?k" using sk q'(2) by (intro sd_okI) simp_all
    moreover have "\<not> MSG_OK <s MSG_OK" by simp
    ultimately show ?thesis using q' len False m1
      by (simp add: sdIncomingDataI_def Let_def k1_def [symmetric] take_all)
  qed
qed

section \<open>The hardware\<close>

text \<open>
  The USART as its reference manual describes it.  \<open>pend\<close> lists the words it will deliver before
  the handler leaves, each with its receive flags; \<open>sent\<close> the bytes written to the data
  register.  The status shows the flags of the next word, and none of them without a word; a
  read of the data register takes the word.
\<close>

abbreviation RX_ANY :: u16 where "RX_ANY \<equiv> SR_RXNE OR SR_ORE OR SR_NE OR SR_FE OR SR_PE"

definition usart_ok :: "'h usart_io \<Rightarrow> ('h \<Rightarrow> (u16 \<times> u8) list) \<Rightarrow> ('h \<Rightarrow> u8 list) \<Rightarrow> bool" where
  "usart_ok io pend sent \<longleftrightarrow>
    (\<forall>h. (\<forall>(s, b) \<in> set (pend h). s \<noteq> 0) \<and>
      pend (snd (rd_sr io h)) = pend h \<and> sent (snd (rd_sr io h)) = sent h \<and>
      ucast (fst (rd_sr io h)) AND RX_ANY = (case pend h of [] \<Rightarrow> 0 | (s, b) # r \<Rightarrow> s) \<and>
      sent (snd (rd_dr io h)) = sent h \<and>
      (\<forall>s b r. pend h = (s, b) # r \<longrightarrow> pend (snd (rd_dr io h)) = r \<and> ucast (fst (rd_dr io h)) = b) \<and>
      (\<forall>v. pend (wr_sr io v h) = pend h \<and> sent (wr_sr io v h) = sent h \<and>
        pend (wr_dr io v h) = pend h \<and> sent (wr_dr io v h) = sent h @ [ucast v]))"

text \<open>The bytes of the words that carry one, without the parity bit.\<close>

definition received :: "u8 \<Rightarrow> (u16 \<times> u8) list \<Rightarrow> u8 list" where
  "received m fs = map (\<lambda>(s, b). b AND m) (filter (\<lambda>(s, b). s AND SR_RXNE \<noteq> 0) fs)"

lemma take_append_take: "take n (take n xs @ ys) = take n (xs @ ys)"
  by (cases "length xs \<le> n") simp_all

lemma set_error_ok: "sd_ok kd idle sd k \<Longrightarrow> sd_ok kd idle sd (set_error sd sr k)" "mmio (set_error sd sr k) = mmio k"
  unfolding set_error_def Let_def by (simp_all only: sd_ok_flags chnAddFlagsI_frame)

lemma rx_flag: "sr AND RX_ANY = s \<Longrightarrow> sr AND SR_RXNE = s AND SR_RXNE"
  by (auto simp: and.assoc)

lemma serve_rx_pass_ok:
  assumes io: "usart_ok io pend sent" and s: "sd_ok kd idle sd k" and p: "pend h = (f, b) # fs"
    and sr: "sr AND RX_ANY = f"
  shows "case serve_rx_pass io sr sd k h of (sr', sd', k', h') \<Rightarrow> sd_ok kd idle sd' k' \<and>
    rx_bytes sd' = take (q_top (sd_iq sd)) (rx_bytes sd @ received (sd_rxmask sd) [(f, b)]) \<and>
    q_top (sd_iq sd') = q_top (sd_iq sd) \<and> only_iq sd sd' \<and> mmio k' = mmio k \<and>
    pend h' = fs \<and> sent h' = sent h \<and> sr' AND RX_ANY = (case fs of [] \<Rightarrow> 0 | (s, b) # r \<Rightarrow> s)"
proof -
  define k1 where "k1 = (if sr AND (SR_ORE OR SR_NE OR SR_FE OR SR_PE) \<noteq> 0 then set_error sd sr k else k)"
  define h1 where "h1 = snd (rd_dr io h)"
  have s1: "sd_ok kd idle sd k1" and m1: "mmio k1 = mmio k"
    using s by (simp_all add: k1_def set_error_ok)
  have d: "ucast (fst (rd_dr io h)) = b" "pend h1 = fs" "sent h1 = sent h"
    using io p unfolding usart_ok_def h1_def by blast+
  have r: "pend (snd (rd_sr io h1)) = fs" "sent (snd (rd_sr io h1)) = sent h"
    "ucast (fst (rd_sr io h1)) AND RX_ANY = (case fs of [] \<Rightarrow> 0 | (s, b) # r \<Rightarrow> s)"
    using io d(2,3) unfolding usart_ok_def by auto
  have len: "length (rx_bytes sd) \<le> q_top (sd_iq sd)"
    using ioq_bound [of kd idle "q_counter (sd_iq sd)" "sd_iq sd" k1] sd_okD(3) [OF s1] by (simp add: iq_ok_def)
  note i = incoming_inv [OF s1, of "b AND sd_rxmask sd"]
  have e: "serve_rx_pass io sr sd k h =
      (let (sd, k) = (if f AND SR_RXNE \<noteq> 0 then sdIncomingDataI (b AND sd_rxmask sd) sd k1 else (sd, k1))
       in (ucast (fst (rd_sr io h1)), sd, k, snd (rd_sr io h1)))"
    unfolding serve_rx_pass_def k1_def [symmetric] rx_flag [OF sr]
    by (simp add: Let_def split_beta d h1_def [symmetric])
  show ?thesis unfolding e using i r m1 s1 len
    by (cases "f AND SR_RXNE = 0") (simp_all add: received_def split_beta Let_def)
qed

lemma serve_rx_ok:
  assumes io: "usart_ok io pend sent"
  shows "sd_ok kd idle sd k \<Longrightarrow> sr AND RX_ANY = (case pend h of [] \<Rightarrow> 0 | (s, b) # r \<Rightarrow> s) \<Longrightarrow>
    \<exists>sr' sd' k' h'. serve_rx io sr sd k h = Some (sr', sd', k', h') \<and> sd_ok kd idle sd' k' \<and>
      rx_bytes sd' = take (q_top (sd_iq sd)) (rx_bytes sd @ received (sd_rxmask sd) (pend h)) \<and>
      q_top (sd_iq sd') = q_top (sd_iq sd) \<and> only_iq sd sd' \<and> mmio k' = mmio k \<and>
      pend h' = [] \<and> sent h' = sent h"
proof (induction "pend h" arbitrary: sr sd k h)
  case Nil
  then have "sr AND RX_ANY = 0" by (simp flip: Nil.hyps)
  then have "serve_rx io sr sd k h = Some (sr, sd, k, h)" by (subst serve_rx.simps) simp
  moreover have "length (rx_bytes sd) \<le> q_top (sd_iq sd)"
    using ioq_bound [of kd idle "q_counter (sd_iq sd)" "sd_iq sd" k] sd_okD(3) [OF Nil.prems(1)] by (simp add: iq_ok_def)
  ultimately show ?case using Nil.prems(1) Nil.hyps [symmetric] by (simp add: received_def)
next
  case (Cons fb fs)
  obtain f b where fb: "fb = (f, b)" by force
  have p: "pend h = (f, b) # fs" using Cons.hyps(2) fb by simp
  have sr: "sr AND RX_ANY = f" using Cons.prems(2) by (simp add: p)
  have "\<forall>(s, b) \<in> set (pend h). s \<noteq> 0" using io unfolding usart_ok_def by blast
  then have f: "f \<noteq> 0" using p by simp
  obtain sr1 sd1 k1 h1 where e1: "serve_rx_pass io sr sd k h = (sr1, sd1, k1, h1)" using prod_cases4 by blast
  note pass = serve_rx_pass_ok [OF io Cons.prems(1) p sr, unfolded e1 prod.case]
  have fs: "fs = pend h1" using pass by simp
  have "sr1 AND RX_ANY = (case pend h1 of [] \<Rightarrow> 0 | (s, b) # r \<Rightarrow> s)" using pass by blast
  from Cons.hyps(1) [OF fs conjunct1 [OF pass] this]
  obtain sr' sd' k' h' where ih: "serve_rx io sr1 sd1 k1 h1 = Some (sr', sd', k', h')" "sd_ok kd idle sd' k'"
    "rx_bytes sd' = take (q_top (sd_iq sd1)) (rx_bytes sd1 @ received (sd_rxmask sd1) (pend h1))"
    "q_top (sd_iq sd') = q_top (sd_iq sd1)" "only_iq sd1 sd'" "mmio k' = mmio k1"
    "pend h' = []" "sent h' = sent h1" by blast
  have run: "serve_rx io sr sd k h = Some (sr', sd', k', h')"
    using f sr e1 ih(1) by (subst serve_rx.simps) simp
  have o: "only_iq sd sd1" using pass by blast
  have m: "sd_rxmask sd1 = sd_rxmask sd" using only_iqD [OF o] by simp
  have rs: "received (sd_rxmask sd) (pend h) = received (sd_rxmask sd) [(f, b)] @ received (sd_rxmask sd) fs"
    by (simp add: p received_def)
  have p1: "rx_bytes sd1 = take (q_top (sd_iq sd)) (rx_bytes sd @ received (sd_rxmask sd) [(f, b)])"
    "q_top (sd_iq sd1) = q_top (sd_iq sd)" using pass by blast+
  have "rx_bytes sd' = take (q_top (sd_iq sd)) (rx_bytes sd @ received (sd_rxmask sd) (pend h))"
    unfolding ih(3) m p1 rs fs [symmetric] take_append_take append_assoc ..
  moreover have "only_iq sd sd'" by (rule only_iq_trans [OF o ih(5)])
  moreover have "q_top (sd_iq sd') = q_top (sd_iq sd)" "mmio k' = mmio k" "sent h' = sent h"
    using ih(4,6,8) pass by simp_all
  ultimately show ?case using run ih(2,7) by blast
qed

section \<open>Transmitting\<close>

lemma and_flag: "x AND 0x80 \<noteq> 0 \<longleftrightarrow> bit (x :: 'a :: len word) 7"
  using bit_iff_and_push_bit_not_eq_0 [of x 7] by (simp add: push_bit_eq_mult)

lemma oqGetI_ok:
  assumes s: "sd_ok kd idle sd k"
  shows "if tx_bytes sd = [] then oqGetI (sd_oq sd) k = (MSG_TIMEOUT, sd_oq sd, k)
    else \<exists>q k'. oqGetI (sd_oq sd) k = (ucast (hd (tx_bytes sd)), q, k') \<and> sd_ok kd idle (sd\<lparr>sd_oq := q\<rparr>) k' \<and>
      oq_bytes q = tl (tx_bytes sd) \<and> mmio k' = mmio k"
proof -
  note g = oqGetI_eq [OF sd_okD(4) [OF s]]
  show ?thesis
  proof (cases "tx_bytes sd = []")
    case False
    let ?k = "chThdDequeueNextI (q_waiting (sd_oq sd)) MSG_OK k"
    obtain q where q: "oqGetI (sd_oq sd) k = (ucast (hd (tx_bytes sd)), q, ?k)" "oq_ok kd idle q ?k"
      "oq_bytes q = tl (tx_bytes sd)" using g False by auto
    obtain X where X: "sys_ok kd idle X k" using sd_okD(1) [OF s] by blast
    have sk: "sys_ok kd idle X ?k"
      by (rule sys_dequeue_next [OF X]) (use s in \<open>simp add: sd_ok_def sd_queues_def ioq_static_def\<close>)
    have "iq_ok kd idle (sd_iq sd) ?k"
      using sd_okD(3) [OF s] iq_ok_static [OF sk] iq_ok_static [OF X] by simp
    then have "sd_ok kd idle (sd\<lparr>sd_oq := q\<rparr>) ?k"
      using sk q(2) sd_okD(2) [OF s] by (intro sd_okI) (simp_all add: heard_def)
    then show ?thesis using False q by auto
  qed (use g in simp)
qed

lemma serve_tx_ok:
  assumes io: "usart_ok io pend sent" and s: "sd_ok kd idle sd k"
  shows "case serve_tx io cr1 sr sd k h of (sd', k', h') \<Rightarrow> sd_ok kd idle sd' k' \<and>
    sent h' @ tx_bytes sd' = sent h @ tx_bytes sd \<and> sd_iq sd' = sd_iq sd \<and> sd_usart sd' = sd_usart sd \<and>
    sd_rxmask sd' = sd_rxmask sd \<and> sd_event sd' = sd_event sd \<and>
    (bit cr1 7 \<longrightarrow> sr AND SR_TXE \<noteq> 0 \<longrightarrow> tx_bytes sd \<noteq> [] \<longrightarrow> sent h' = sent h @ [hd (tx_bytes sd)]) \<and>
    (tx_bytes sd' \<noteq> [] \<longrightarrow> mmio k' = mmio k)"
proof (cases "(ucast cr1 :: u32) AND CR1_TXEIE \<noteq> 0 \<and> sr AND SR_TXE \<noteq> 0")
  case False
  have "(ucast cr1 :: u32) AND CR1_TXEIE \<noteq> 0 \<longleftrightarrow> bit cr1 7" unfolding and_flag by (simp add: bit_ucast_iff)
  then show ?thesis using False s by (auto simp: serve_tx_def)
next
  case True
  note g = oqGetI_ok [OF s]
  have w: "sent (wr_dr io v h) = sent h @ [ucast v]" for v using io unfolding usart_ok_def by blast
  show ?thesis
  proof (cases "tx_bytes sd = []")
    case t: True
    then show ?thesis
      using g True s sd_ok_flags [OF s, of CHN_OUTPUT_EMPTY] by (simp add: serve_tx_def sd_ok_reg)
  next
    case False
    then obtain q k' where q: "oqGetI (sd_oq sd) k = (ucast (hd (tx_bytes sd)), q, k')" "sd_ok kd idle (sd\<lparr>sd_oq := q\<rparr>) k'"
      "oq_bytes q = tl (tx_bytes sd)" "mmio k' = mmio k" using g by auto
    have "ucast (ucast b :: u32) = b" for b :: u8 by (rule bit_word_eqI) (simp add: bit_ucast_iff)
    then show ?thesis using True False q w by (simp add: serve_tx_def)
  qed
qed

lemma serve_tc_ok:
  assumes io: "usart_ok io pend sent" and s: "sd_ok kd idle sd k"
  shows "case serve_tc io cr1 sr sd k h of (sd', k', h') \<Rightarrow> sd_ok kd idle sd' k' \<and> sd' = sd \<and> sent h' = sent h \<and>
    (bit (mmio k' (CR1 (sd_usart sd))) 7 \<longleftrightarrow>
      (if sr AND SR_TC \<noteq> 0 then bit cr1 7 else bit (mmio k (CR1 (sd_usart sd))) 7))"
proof -
  have "sent (wr_sr io v h) = sent h" for v using io unfolding usart_ok_def by blast
  moreover have "bit (ucast cr1 AND NOT CR1_TCIE :: u32) 7 \<longleftrightarrow> bit cr1 7"
    by (simp add: bit_and_iff bit_not_iff bit_ucast_iff)
  ultimately show ?thesis
    using s sd_ok_flags [OF s] by (simp add: serve_tc_def Let_def sd_ok_reg)
qed

lemma serve_interrupt_inv:
  assumes "usart_ok io pend sent" and "sd_ok kd idle sd k" and "sd_armed sd k"
  shows "\<exists>sd' k' h'. serve_interrupt io sd k h = Some (sd', k', h') \<and>
    sd_ok kd idle sd' k' \<and> sd_armed sd' k' \<and>
    rx_bytes sd' = take (q_top (sd_iq sd)) (rx_bytes sd @ received (sd_rxmask sd) (pend h)) \<and>
    sent h' @ tx_bytes sd' = sent h @ tx_bytes sd \<and>
    q_top (sd_iq sd') = q_top (sd_iq sd) \<and> sd_rxmask sd' = sd_rxmask sd \<and> sd_usart sd' = sd_usart sd \<and>
    sd_event sd' = sd_event sd \<and>
    (pend h = [] \<and> ucast (fst (rd_sr io h)) AND SR_TXE \<noteq> 0 \<and> tx_bytes sd \<noteq> [] \<longrightarrow>
      sent h' = sent h @ [hd (tx_bytes sd)])"
proof -
  define us where "us = sd_usart sd"
  define cr1 :: u16 where "cr1 = ucast (mmio k (CR1 us))"
  define h0 where "h0 = snd (rd_sr io h)"
  define sr :: u16 where "sr = ucast (fst (rd_sr io h))"
  define k1 where "k1 = (if sr AND SR_LBD \<noteq> 0 then chnAddFlagsI sd SD_BREAK_DETECTED k else k)"
  define h1 where "h1 = (if sr AND SR_LBD \<noteq> 0 then wr_sr io (NOT (ucast SR_LBD)) h0 else h0)"
  have h0: "pend h0 = pend h" "sent h0 = sent h" "sr AND RX_ANY = (case pend h of [] \<Rightarrow> 0 | (s, b) # r \<Rightarrow> s)"
    using assms(1) unfolding usart_ok_def h0_def sr_def by auto
  have "pend (wr_sr io v h0) = pend h0" "sent (wr_sr io v h0) = sent h0" for v
    using assms(1) unfolding usart_ok_def by blast+
  then have h1: "pend h1 = pend h" "sent h1 = sent h" by (simp_all add: h1_def h0)
  have k1: "sd_ok kd idle sd k1" "mmio k1 = mmio k"
    using assms(2) by (simp_all add: k1_def sd_ok_flags chnAddFlagsI_frame)
  have "sr AND RX_ANY = (case pend h1 of [] \<Rightarrow> 0 | (s, b) # r \<Rightarrow> s)" using h0(3) h1(1) by simp
  then obtain sr2 sd2 k2 h2 where rx: "serve_rx io sr sd k1 h1 = Some (sr2, sd2, k2, h2)" "sd_ok kd idle sd2 k2"
    "rx_bytes sd2 = take (q_top (sd_iq sd)) (rx_bytes sd @ received (sd_rxmask sd) (pend h1))"
    "only_iq sd sd2" "mmio k2 = mmio k1" "sent h2 = sent h1" "q_top (sd_iq sd2) = q_top (sd_iq sd)"
    using serve_rx_ok [OF assms(1) k1(1), of sr h1] by blast
  have o: "sd_oq sd2 = sd_oq sd" "sd_usart sd2 = us" using only_iqD [OF rx(4)] by (simp_all add: us_def)
  have sr2: "sr2 = sr" if "pend h = []"
    using rx(1) h0(3) that by (subst (asm) serve_rx.simps) simp
  obtain sd3 k3 h3 where tx: "serve_tx io cr1 sr2 sd2 k2 h2 = (sd3, k3, h3)" using prod_cases3 by blast
  note t = serve_tx_ok [OF assms(1) rx(2), where ?cr1.0 = cr1 and sr = sr2 and h = h2, unfolded tx prod.case]
  obtain sd4 k4 h4 where tc: "serve_tc io cr1 sr2 sd3 k3 h3 = (sd4, k4, h4)" using prod_cases3 by blast
  note c = serve_tc_ok [OF assms(1) conjunct1 [OF t], where ?cr1.0 = cr1 and sr = sr2 and h = h3, unfolded tc prod.case]
  have "serve_interrupt io sd k h = (case serve_rx io sr sd k1 h1 of None \<Rightarrow> None
      | Some (sr, sd, k, h) \<Rightarrow> (let (sd, k, h) = serve_tx io cr1 sr sd k h in Some (serve_tc io cr1 sr sd k h)))"
    unfolding cr1_def us_def k1_def h1_def sr_def h0_def serve_interrupt_def
    by (cases "ucast (fst (rd_sr io h)) AND SR_LBD = 0") (simp_all add: Let_def split_beta)
  then have run: "serve_interrupt io sd k h = Some (sd4, k4, h4)" by (simp add: rx(1) tx tc)
  have sd4: "sd4 = sd3" and ok: "sd_ok kd idle sd4 k4" and s4: "sent h4 = sent h3" using c by blast+
  have s3: "sent h3 @ tx_bytes sd3 = sent h @ tx_bytes sd" "rx_bytes sd3 = rx_bytes sd2" "sd_usart sd3 = us"
    using t o rx(6) h1(2) by simp_all
  have cr: "bit cr1 7 \<longleftrightarrow> bit (mmio k (CR1 us)) 7" by (simp add: cr1_def bit_ucast_iff)
  have armed: "bit (mmio k (CR1 us)) 7" if "tx_bytes sd \<noteq> []" using assms(3) that by (simp add: sd_armed_def us_def)
  have "sd_armed sd4 k4"
  proof (unfold sd_armed_def, rule impI)
    assume ne: "tx_bytes sd4 \<noteq> []"
    then have m: "mmio k3 = mmio k" using t sd4 rx(5) k1(2) by simp
    have "tx_bytes sd \<noteq> []"
    proof
      assume e: "tx_bytes sd = []"
      then have "oqGetI (sd_oq sd2) k2 = (MSG_TIMEOUT, sd_oq sd2, k2)" using oqGetI_ok [OF rx(2)] o by simp
      then have "sd_oq sd3 = sd_oq sd2" using tx by (auto simp: serve_tx_def split: if_splits)
      then show False using ne e o sd4 by simp
    qed
    then show "bit (mmio k4 (CR1 (sd_usart sd4))) 7" using c cr armed m s3(3) sd4 by (simp split: if_splits)
  qed
  moreover have "sent h4 = sent h @ [hd (tx_bytes sd)]"
    if "pend h = [] \<and> ucast (fst (rd_sr io h)) AND SR_TXE \<noteq> 0 \<and> tx_bytes sd \<noteq> []"
    using that t sr2 armed cr s4 o rx(6) h1(2) by (simp add: sr_def)
  moreover have "rx_bytes sd4 = take (q_top (sd_iq sd)) (rx_bytes sd @ received (sd_rxmask sd) (pend h))"
    using s3(2) rx(3) sd4 h1(1) by (simp only:)
  moreover have "sent h4 @ tx_bytes sd4 = sent h @ tx_bytes sd" using s3(1) s4 sd4 by (simp only:)
  moreover have "q_top (sd_iq sd4) = q_top (sd_iq sd)" "sd_rxmask sd4 = sd_rxmask sd" "sd_usart sd4 = sd_usart sd"
    "sd_event sd4 = sd_event sd"
    using t sd4 rx(4,7) only_iqD [OF rx(4)] by simp_all
  ultimately show ?thesis using run ok by blast
qed

text \<open>
  C19: The interrupt handler of the serial port.  On a USART that behaves as documented it always
  returns, and keeps the invariants of driver and kernel: every received byte goes to the input
  queue in order while there is room (parity bits masked out); bytes handed to the data register
  followed by bytes still queued are what they were, so none is lost, repeated or reordered; if
  the register is empty and bytes wait, the oldest is sent; and the transmit interrupt stays
  enabled while bytes wait.
\<close>

theorem serve_interrupt_correct:
  assumes "usart_ok io pend sent" and "sd_ok kd idle sd k" and "sd_armed sd k"
  shows "\<exists>sd' k' h'. serve_interrupt io sd k h = Some (sd', k', h') \<and>
    sd_ok kd idle sd' k' \<and> sd_armed sd' k' \<and>
    rx_bytes sd' = take (q_top (sd_iq sd)) (rx_bytes sd @ received (sd_rxmask sd) (pend h)) \<and>
    sent h' @ tx_bytes sd' = sent h @ tx_bytes sd \<and>
    (pend h = [] \<and> ucast (fst (rd_sr io h)) AND SR_TXE \<noteq> 0 \<and> tx_bytes sd \<noteq> [] \<longrightarrow>
      sent h' = sent h @ [hd (tx_bytes sd)])"
  using serve_interrupt_inv [OF assms] by blast

text \<open>A USART that receives a list of bytes without errors and always has an empty data register.\<close>

definition line_io :: "(u8 list \<times> u8 list) usart_io" where
  "line_io = \<lparr>rd_sr = (\<lambda>(p, s). (if p = [] then 0x80 else 0xA0, (p, s))),
    rd_dr = (\<lambda>(p, s). (case p of [] \<Rightarrow> 0 | b # r \<Rightarrow> ucast b, (tl p, s))),
    wr_sr = (\<lambda>v h. h), wr_dr = (\<lambda>v (p, s). (p, s @ [ucast v]))\<rparr>"

definition line_pend :: "u8 list \<times> u8 list \<Rightarrow> (u16 \<times> u8) list" where
  "line_pend h = map (\<lambda>b. (SR_RXNE, b)) (fst h)"

lemma usart_ok_line: "usart_ok line_io line_pend snd"
proof -
  have "ucast (ucast b :: u32) = b" for b :: u8 by (rule bit_word_eqI) (simp add: bit_ucast_iff)
  then show ?thesis
    by (auto simp: usart_ok_def line_io_def line_pend_def split_beta split: list.splits)
qed

definition sd_two :: serial where
  "sd_two = \<lparr>sd_event = 500, sd_state = SD_READY,
    sd_iq = \<lparr>q_waiting = 300, q_counter = 0, q_buffer = [0, 0, 0], q_top = 3, q_wrptr = 0, q_rdptr = 0\<rparr>,
    sd_oq = oq_two, sd_usart = USART1, sd_rxmask = 0x7F\<rparr>"

definition tx_boot :: kernel where "tx_boot = reg_write (CR1 USART1) 0x20AC boot"

lemma sys_ok_queues_boot: "sys_ok (\<lambda>_. KQueue) 2 {} boot"
  using kinv_boot by (auto simp: sys_ok_def sems_ok_def mtxk_def mtx_struct_def pi_ok_def justified_def
      boot_simps boot_thread_def)

lemma sd_two_ok: "sd_ok (\<lambda>_. KQueue) 2 sd_two tx_boot" "sd_armed sd_two tx_boot"
proof -
  have "sys_ok (\<lambda>_. KQueue) 2 {} tx_boot" by (simp add: tx_boot_def sys_ok_queues_boot)
  moreover have "heard 500 tx_boot" by (simp add: heard_def tx_boot_def boot_simps)
  moreover have "sd_queues (\<lambda>_. KQueue) sd_two"
    by (simp add: sd_queues_def sd_two_def ioq_static_def q_ring_def ring_ok_def oq_two_def iq_two_def)
  moreover have "sd_event sd_two = 500" by (simp add: sd_two_def)
  ultimately show "sd_ok (\<lambda>_. KQueue) 2 sd_two tx_boot" by (auto simp: sd_ok_def)
  have "mmio tx_boot (CR1 USART1) = 0x20AC" by (simp add: tx_boot_def)
  moreover have "bit (0x20AC :: u32) 7" by (simp add: bit_iff_odd)
  ultimately show "sd_armed sd_two tx_boot" by (simp add: sd_armed_def sd_two_def)
qed

lemma serve_interrupt_correct_witness:
  "\<exists>sd' k' h'. serve_interrupt line_io sd_two tx_boot ([0xC1, 0x42], [9]) = Some (sd', k', h') \<and>
    rx_bytes sd' = [0x41, 0x42] \<and> snd h' @ tx_bytes sd' = [9, 7, 8]"
proof -
  have e: "rx_bytes sd_two = []" "tx_bytes sd_two = [7, 8]" "q_top (sd_iq sd_two) = 3"
    "received (sd_rxmask sd_two) (line_pend ([0xC1, 0x42], [9])) = [0x41, 0x42]"
    using io_examples(4) by (simp_all add: sd_two_def received_def line_pend_def q_items_def ring_at_def)
  show ?thesis
    using serve_interrupt_correct [OF usart_ok_line sd_two_ok, of "([0xC1, 0x42], [9])", unfolded e] by auto
qed

text \<open>
  The end of transmission is announced too early.  When the transmit register is empty and the
  shift register has just finished (TXE and TC both set) while one byte waits, the handler hands
  that byte to the hardware and then, with the same status word, broadcasts the event "physical
  transmission end" and clears TC, although the byte has yet to be sent.
\<close>

theorem transmission_end_early:
  assumes "sd_ok kd idle sd k" and "tx_bytes sd = [b]" and "bit cr1 7"
    and "sr AND SR_TXE \<noteq> 0" and "sr AND SR_TC \<noteq> 0"
  shows "\<exists>sd' k'. serve_tx io cr1 sr sd k h = (sd', k', wr_dr io (ucast b) h) \<and> tx_bytes sd' = [] \<and>
    serve_tc io cr1 sr sd' k' (wr_dr io (ucast b) h) =
      (sd', reg_write (CR1 (sd_usart sd')) (ucast cr1 AND NOT CR1_TCIE) (chnAddFlagsI sd' CHN_TRANSMISSION_END k'),
       wr_sr io (NOT (ucast SR_TC)) (wr_dr io (ucast b) h))"
proof -
  obtain q k' where q: "oqGetI (sd_oq sd) k = (ucast b, q, k')" "sd_ok kd idle (sd\<lparr>sd_oq := q\<rparr>) k'" "oq_bytes q = []"
    using oqGetI_ok [OF assms(1)] assms(2) by auto
  have "(ucast cr1 :: u32) AND CR1_TXEIE \<noteq> 0" unfolding and_flag using assms(3) by (simp add: bit_ucast_iff)
  then have tx: "serve_tx io cr1 sr sd k h = (sd\<lparr>sd_oq := q\<rparr>, k', wr_dr io (ucast b) h)"
    using q(1) assms(4) by (simp add: serve_tx_def)
  have ok: "oq_ok kd idle q k'" using sd_okD(4) [OF q(2)] by simp
  have "q_top q - q_counter q = 0" using q(3) by (simp add: q_items_def)
  then have "oqIsEmptyI q"
    using ok ioq_full [of kd idle "q_top q - q_counter q" q k'] ioq_bound [of kd idle "q_top q - q_counter q" q k']
    by (auto simp: oq_ok_def oqIsEmptyI_def)
  then show ?thesis using tx q(3) assms(5) by (simp add: serve_tc_def Let_def)
qed

lemma transmission_end_early_witness:
  "\<exists>sd' k'. serve_tx line_io 0x20AC 0xC0 (sd_two\<lparr>sd_oq := oq_two\<lparr>q_counter := 2, q_rdptr := 0\<rparr>\<rparr>) tx_boot ([], []) =
    (sd', k', ([], [8])) \<and> tx_bytes sd' = []"
proof -
  let ?sd = "sd_two\<lparr>sd_oq := oq_two\<lparr>q_counter := 2, q_rdptr := 0\<rparr>\<rparr>"
  have ok: "sd_ok (\<lambda>_. KQueue) 2 ?sd tx_boot"
    using sd_two_ok(1) by (simp add: sd_ok_def sd_queues_def sd_two_def ioq_static_def q_ring_def ring_ok_def oq_two_def iq_two_def)
  have b: "tx_bytes ?sd = [8]" by (simp add: q_items_def oq_two_def iq_two_def ring_at_def)
  have f: "bit (0x20AC :: u16) 7" "(0xC0 :: u16) AND SR_TXE \<noteq> 0" "(0xC0 :: u16) AND SR_TC \<noteq> 0"
    by (simp_all add: bit_iff_odd)
  have "wr_dr line_io (ucast (8 :: u8)) ([], []) = ([], [8])" by (simp add: line_io_def)
  then show ?thesis using transmission_end_early [OF ok b f, of line_io "([], [])"] by auto
qed

end
