(* ===== verification/SerialLink.thy ===== *)
theory SerialLink
  imports Serial HsspMain
begin

text \<open>
  The serial line between the host and the command loop.  A call of \<open>chnRead\<close> or \<open>chnWrite\<close> is
  started by the thread, goes to sleep when bytes or room are missing, and is carried on when
  the thread runs again, while the interrupt handler moves bytes and the rest of the system
  works.  Such runs refine the two functions by which \<open>HsspMain\<close> models the line.
\<close>

section \<open>Runs of a blocking call\<close>

text \<open>
  \<open>res\<close> carries a sleeping call on from the bytes to go, its timeout and what it has done so far.
  The run records the bytes received by the driver since the call.
\<close>

inductive channel_run ::
  "(ptr \<Rightarrow> okind) \<Rightarrow> ptr \<Rightarrow> 'h usart_io \<Rightarrow> ('h \<Rightarrow> (u16 \<times> u8) list) \<Rightarrow> ('h \<Rightarrow> u8 list) \<Rightarrow>
    (nat \<Rightarrow> systime \<Rightarrow> 'a \<Rightarrow> serial \<Rightarrow> kernel \<Rightarrow> 'a transfer \<times> serial \<times> kernel) \<Rightarrow>
    'a transfer \<Rightarrow> serial \<Rightarrow> kernel \<Rightarrow> 'h \<Rightarrow>
    u8 list \<Rightarrow> 'a transfer \<Rightarrow> serial \<Rightarrow> kernel \<Rightarrow> 'h \<Rightarrow> bool"
  for kd idle io pend sent res r0 sd0 k0 h0 where
  call: "channel_run kd idle io pend sent res r0 sd0 k0 h0 [] r0 sd0 k0 h0"
| interrupt: "channel_run kd idle io pend sent res r0 sd0 k0 h0 xs r sd k h \<Longrightarrow>
    length (rx_bytes sd) + length (received (sd_rxmask sd) (pend h)) \<le> q_top (sd_iq sd) \<Longrightarrow>
    serve_interrupt io sd k h = Some (sd', k', h') \<Longrightarrow>
    channel_run kd idle io pend sent res r0 sd0 k0 h0 (xs @ received (sd_rxmask sd) (pend h)) r sd' k' h'"
| hardware: "channel_run kd idle io pend sent res r0 sd0 k0 h0 xs r sd k h \<Longrightarrow> sent h' = sent h \<Longrightarrow>
    channel_run kd idle io pend sent res r0 sd0 k0 h0 xs r sd k h'"
| other: "channel_run kd idle io pend sent res r0 sd0 k0 h0 xs r sd k h \<Longrightarrow>
    sys_ok kd idle X k' \<Longrightarrow> heard (sd_event sd) k' \<Longrightarrow> sd_armed sd k' \<Longrightarrow>
    channel_run kd idle io pend sent res r0 sd0 k0 h0 xs r sd k' h"
| resume: "channel_run kd idle io pend sent res r0 sd0 k0 h0 xs (transfer.Blocked m t a) sd k h \<Longrightarrow>
    current k \<noteq> idle \<Longrightarrow> u (thd k (current k)) = MSG_OK \<Longrightarrow> res m t a sd k = (r, sd', k') \<Longrightarrow>
    channel_run kd idle io pend sent res r0 sd0 k0 h0 xs r sd' k' h"

text \<open>
  What a blocking call promises: a relation between the bytes received, its state, the input
  queue and the output stream that new input and carrying on keep.
\<close>

locale channel_call =
  fixes kd :: "ptr \<Rightarrow> okind" and idle :: ptr
    and res :: "nat \<Rightarrow> systime \<Rightarrow> 'a \<Rightarrow> serial \<Rightarrow> kernel \<Rightarrow> 'a transfer \<times> serial \<times> kernel"
    and J :: "u8 list \<Rightarrow> 'a transfer \<Rightarrow> u8 list \<Rightarrow> u8 list \<Rightarrow> bool"
  assumes arrive: "J xs r ys out \<Longrightarrow> J (xs @ zs) r (ys @ zs) out"
    and carry_on: "J xs (transfer.Blocked m t a) (rx_bytes sd) (out @ tx_bytes sd) \<Longrightarrow>
      sd_ok kd idle sd k \<Longrightarrow> sd_armed sd k \<Longrightarrow> sd_usart sd = USART1 \<Longrightarrow> current k \<noteq> idle \<Longrightarrow>
      u (thd k (current k)) = MSG_OK \<Longrightarrow>
      case res m t a sd k of (r, sd', k') \<Rightarrow>
        sd_ok kd idle sd' k' \<and> sd_armed sd' k' \<and> sd_usart sd' = USART1 \<and> J xs r (rx_bytes sd') (out @ tx_bytes sd')"
begin

lemma run_inv:
  assumes "channel_run kd idle io pend sent res r0 sd0 k0 h0 xs r sd k h"
    and "usart_ok io pend sent" and "sd_ok kd idle sd0 k0" and "sd_armed sd0 k0" and "sd_usart sd0 = USART1"
    and "J [] r0 (rx_bytes sd0) (sent h0 @ tx_bytes sd0)"
  shows "sd_ok kd idle sd k \<and> sd_armed sd k \<and> sd_usart sd = USART1 \<and> J xs r (rx_bytes sd) (sent h @ tx_bytes sd)"
  using assms(1)
proof (induction rule: channel_run.induct)
  case call
  then show ?case using assms by simp
next
  case (interrupt xs r sd k h sd' k' h')
  then have i: "sd_ok kd idle sd k" "sd_armed sd k" "sd_usart sd = USART1"
    "J xs r (rx_bytes sd) (sent h @ tx_bytes sd)" by blast+
  have v: "sd_ok kd idle sd' k'" "sd_armed sd' k'" "sd_usart sd' = sd_usart sd"
    "rx_bytes sd' = take (q_top (sd_iq sd)) (rx_bytes sd @ received (sd_rxmask sd) (pend h))"
    "sent h' @ tx_bytes sd' = sent h @ tx_bytes sd"
    using serve_interrupt_inv [OF assms(2) i(1,2), of h] interrupt(3) by auto
  have "rx_bytes sd' = rx_bytes sd @ received (sd_rxmask sd) (pend h)"
    unfolding v(4) by (rule take_all) (use interrupt(2) in simp)
  then show ?case using v(1,2,3,5) i(3) arrive [OF i(4), of "received (sd_rxmask sd) (pend h)"] by (simp del: append_assoc)
next
  case (hardware xs r sd k h h')
  then show ?case by simp
next
  case (other xs r sd k h k')
  then show ?case using sd_ok_kernel by blast
next
  case (resume xs m t a sd k h r sd' k')
  then show ?case using carry_on [of xs m t a sd "sent h" k] by simp
qed

end

section \<open>Reading\<close>

lemma enqueue_devices [simp]:
  "mmio (snd (chThdEnqueueTimeoutS tqp t k)) = mmio k" "evt_src (snd (chThdEnqueueTimeoutS tqp t k)) = evt_src k"
  "evt_lis (snd (chThdEnqueueTimeoutS tqp t k)) = evt_lis k"
  by (auto simp: chThdEnqueueTimeoutS_def Let_def chSchGoSleepTimeoutS_def chSchGoSleepS_def take_first_def
      queue_fifo_remove_def queue_insert_def set_state_def upd_thd_def split: list.splits)

text \<open>The kernel after a read loop: unchanged, or the reader sleeps in the queue.\<close>

lemma iqRead_loop_kernel:
  "snd (snd (iqRead_loop None d t n acc q k)) = k \<or>
    (\<exists>t'. snd (snd (iqRead_loop None d t n acc q k)) = snd (chThdEnqueueTimeoutS (q_waiting q) t' k))"
proof (induction n arbitrary: acc q)
  case (Suc n)
  then show ?case
    using Suc [of "acc @ [fst (q_load (q\<lparr>q_counter := q_counter q - 1\<rparr>))]" "snd (q_load (q\<lparr>q_counter := q_counter q - 1\<rparr>))"]
    by (auto simp: iqRead_loop.simps(2) run_notify_def Let_def split_beta split: option.splits Kernel.outcome.splits prod.splits)
qed simp

lemma read_loop_ok:
  assumes s: "sd_ok kd idle sd k" "sd_armed sd k" and idle: "current k \<noteq> idle"
  shows "\<exists>q k'. iqRead_loop None d TIME_INFINITE n acc (sd_iq sd) k =
      (read_end TIME_INFINITE n (rx_bytes sd) acc, q, k') \<and>
    sd_ok kd idle (sd\<lparr>sd_iq := q\<rparr>) k' \<and> sd_armed (sd\<lparr>sd_iq := q\<rparr>) k' \<and> iq_bytes q = drop n (rx_bytes sd)"
proof -
  obtain q k' where e: "iqRead_loop None d TIME_INFINITE n acc (sd_iq sd) k =
      (read_end TIME_INFINITE n (rx_bytes sd) acc, q, k')" and q: "iq_ok kd idle q k'" "iq_bytes q = drop n (rx_bytes sd)"
    using iqRead_loop_eq [OF sd_okD(3) [OF s(1)] calm_None idle, of d TIME_INFINITE n acc] by blast
  have w: "kd (q_waiting (sd_iq sd)) = KQueue" using s(1) by (simp add: sd_ok_def sd_queues_def ioq_static_def)
  have "k' = k \<or> (\<exists>t'. k' = snd (chThdEnqueueTimeoutS (q_waiting (sd_iq sd)) t' k))"
    using iqRead_loop_kernel [of d TIME_INFINITE n acc "sd_iq sd" k] e by simp
  moreover obtain X where X: "sys_ok kd idle X k" using sd_okD(1) [OF s(1)] by blast
  ultimately have k': "sys_ok kd idle X k'" "heard (sd_event sd) k'" "mmio k' = mmio k"
    using sys_enqueue [OF X w idle] sd_okD(2) [OF s(1)] by (auto simp: heard_def)
  have "oq_ok kd idle (sd_oq sd) k'"
    using sd_okD(4) [OF s(1)] oq_ok_static [OF k'(1)] oq_ok_static [OF X] by simp
  then have "sd_ok kd idle (sd\<lparr>sd_iq := q\<rparr>) k'" using k' q(1) by (intro sd_okI) simp_all
  moreover have "sd_armed (sd\<lparr>sd_iq := q\<rparr>) k'" using s(2) k'(3) by (simp add: sd_armed_def)
  ultimately show ?thesis using e q(2) by blast
qed

definition read_res :: "systime \<Rightarrow> nat \<Rightarrow> systime \<Rightarrow> u8 list \<Rightarrow> serial \<Rightarrow> kernel \<Rightarrow> u8 list transfer \<times> serial \<times> kernel" where
  "read_res d m t acc sd k =
    (let (r, q, k) = iqReadTimeout_resume None d TIME_INFINITE m t acc (sd_iq sd) k in (r, sd\<lparr>sd_iq := q\<rparr>, k))"

definition read_inv :: "nat \<Rightarrow> u8 list \<Rightarrow> u8 list \<Rightarrow> u8 list \<Rightarrow> u8 list transfer \<Rightarrow> u8 list \<Rightarrow> u8 list \<Rightarrow> bool" where
  "read_inv n rx0 out0 xs r ys out \<longleftrightarrow> out = out0 \<and>
    (case r of transfer.Done acc \<Rightarrow> acc @ ys = rx0 @ xs \<and> length acc = n
     | transfer.Blocked m t acc \<Rightarrow> t = TIME_INFINITE \<and> acc @ ys = rx0 @ xs \<and> m + length acc = n)"

lemma infinite_not_immediate: "TIME_INFINITE \<noteq> TIME_IMMEDIATE"
  by (simp add: TIME_INFINITE_def TIME_IMMEDIATE_def)

lemma read_end_inv:
  assumes "acc @ ys = rx0 @ xs" and "m + length acc = n"
  shows "read_inv n rx0 out0 xs (read_end TIME_INFINITE m ys acc) (drop m ys) out0"
proof -
  have "length acc + length ys = length rx0 + length xs" using arg_cong [OF assms(1), of length] by simp
  then show ?thesis using assms by (auto simp: read_inv_def read_end_def infinite_not_immediate)
qed

interpretation rd: channel_call kd idle "read_res d" "read_inv n rx0 out0" for kd idle d n rx0 out0
proof (unfold_locales, goal_cases)
  case (1 xs r ys out zs)
  then show ?case by (auto simp: read_inv_def split: transfer.splits)
next
  case (2 xs m t a sd out k)
  have t: "t = TIME_INFINITE" and a: "a @ rx_bytes sd = rx0 @ xs" "m + length a = n" and o: "out @ tx_bytes sd = out0"
    using 2(1) by (simp_all add: read_inv_def)
  have c: "chSchGoSleepTimeoutS_resume TIME_INFINITE k = (MSG_OK, k)"
    using 2(6) by (simp add: chSchGoSleepTimeoutS_resume_def)
  obtain q k' where r: "iqRead_loop None d TIME_INFINITE m a (sd_iq sd) k = (read_end TIME_INFINITE m (rx_bytes sd) a, q, k')"
    "sd_ok kd idle (sd\<lparr>sd_iq := q\<rparr>) k'" "sd_armed (sd\<lparr>sd_iq := q\<rparr>) k'" "iq_bytes q = drop m (rx_bytes sd)"
    using read_loop_ok [OF 2(2,3,5)] by blast
  have e: "read_res d m t a sd k = (read_end TIME_INFINITE m (rx_bytes sd) a, sd\<lparr>sd_iq := q\<rparr>, k')"
    unfolding read_res_def iqReadTimeout_resume_def t c by (simp add: r(1))
  show ?case unfolding e using r 2(4) o read_end_inv [OF a, of out0] by simp
qed

section \<open>Writing\<close>

abbreviation arm :: "kernel \<Rightarrow> kernel" where
  "arm k \<equiv> reg_write (CR1 USART1) (mmio k (CR1 USART1) OR CR1_TXEIE) k"

lemma arm_idem: "arm (arm k) = arm k"
  by (simp add: reg_write_def)

lemma arm_armed: "bit (mmio (arm k) (CR1 USART1)) 7"
proof -
  have "bit (CR1_TXEIE :: u32) 7" by (simp add: bit_iff_odd)
  then show ?thesis by (simp add: bit_or_iff)
qed

lemma calm_notify1: "calm kd idle notify1"
  by (simp add: calm_def run_notify_def notify1_def)

text \<open>The kernel after a write loop: armed if a byte was stored, then unchanged or asleep.\<close>

lemma oqWrite_loop_kernel:
  assumes "current k \<noteq> idle" and "sys_ok kd idle X k" and "kd (q_waiting q) = KQueue"
  shows "sys_ok kd idle X (snd (snd (oqWrite_loop notify1 d t bs w q k))) \<and>
    evt_src (snd (snd (oqWrite_loop notify1 d t bs w q k))) = evt_src k \<and>
    evt_lis (snd (snd (oqWrite_loop notify1 d t bs w q k))) = evt_lis k \<and>
    (bit (mmio k (CR1 USART1)) 7 \<or> bs \<noteq> [] \<and> \<not> oqIsFullI q \<longrightarrow>
      bit (mmio (snd (snd (oqWrite_loop notify1 d t bs w q k))) (CR1 USART1)) 7)"
  using assms
proof (induction bs arbitrary: w q k)
  case (Cons b bs)
  show ?case
  proof (cases "oqIsFullI q")
    case True
    then show ?thesis
      using sys_enqueue [OF Cons.prems(2,3,1)] Cons.prems
      by (auto simp: oqWrite_loop.simps(2) split: option.splits prod.splits Kernel.outcome.splits)
        (metis enqueue_devices snd_conv)+
  next
    case False
    let ?q = "q_store b (q\<lparr>q_counter := q_counter q - 1\<rparr>)"
    have "oqWrite_loop notify1 d t (b # bs) w q k = oqWrite_loop notify1 d t bs (w + 1) ?q (arm k)"
      using False by (simp add: oqWrite_loop.simps(2) Let_def run_notify_def notify1_def)
    then show ?thesis using Cons.IH [of "arm k" ?q "w + 1"] Cons.prems arm_armed by simp
  qed
qed simp

lemma write_loop_ok:
  assumes s: "sd_ok kd idle sd k" "sd_armed sd k" "sd_usart sd = USART1" and idle: "current k \<noteq> idle"
  defines "room \<equiv> q_top (sd_oq sd) - length (tx_bytes sd)"
  shows "\<exists>q k'. oqWrite_loop notify1 d TIME_INFINITE bs w (sd_oq sd) k =
      (write_end TIME_INFINITE (length bs) room w, q, k') \<and>
    sd_ok kd idle (sd\<lparr>sd_oq := q\<rparr>) k' \<and> sd_armed (sd\<lparr>sd_oq := q\<rparr>) k' \<and>
    oq_bytes q = tx_bytes sd @ take room bs"
proof -
  obtain q k' where e: "oqWrite_loop notify1 d TIME_INFINITE bs w (sd_oq sd) k =
      (write_end TIME_INFINITE (length bs) room w, q, k')"
    and q: "oq_ok kd idle q k'" "oq_bytes q = tx_bytes sd @ take room bs"
    using oqWrite_loop_eq [OF sd_okD(4) [OF s(1)] calm_notify1 idle, of d TIME_INFINITE bs w] unfolding room_def by blast
  obtain X where X: "sys_ok kd idle X k" using sd_okD(1) [OF s(1)] by blast
  have w: "kd (q_waiting (sd_oq sd)) = KQueue" using s(1) by (simp add: sd_ok_def sd_queues_def ioq_static_def)
  note f = oqWrite_loop_kernel [where d = d and t = TIME_INFINITE and bs = bs and w = w,
      OF idle X w, unfolded e fst_conv snd_conv]
  have k': "sys_ok kd idle X k'" "heard (sd_event sd) k'" using f sd_okD(2) [OF s(1)] by (simp_all add: heard_def)
  have "iq_ok kd idle (sd_iq sd) k'"
    using sd_okD(3) [OF s(1)] iq_ok_static [OF k'(1)] iq_ok_static [OF X] by simp
  then have "sd_ok kd idle (sd\<lparr>sd_oq := q\<rparr>) k'" using k' q(1) by (intro sd_okI) simp_all
  moreover have "sd_armed (sd\<lparr>sd_oq := q\<rparr>) k'"
  proof (cases "tx_bytes sd = []")
    case True
    have "room \<le> q_counter (sd_oq sd)" by (auto simp: room_def)
    then have "bs \<noteq> [] \<and> \<not> oqIsFullI (sd_oq sd)" if "oq_bytes q \<noteq> []"
      using that q(2) True by (auto simp: oqIsFullI_def)
    then show ?thesis using f s(3) by (simp add: sd_armed_def)
  next
    case False
    then show ?thesis using f s(2,3) by (simp add: sd_armed_def)
  qed
  ultimately show ?thesis using e q(2) by blast
qed

definition write_res :: "systime \<Rightarrow> u8 list \<Rightarrow> nat \<Rightarrow> systime \<Rightarrow> nat \<Rightarrow> serial \<Rightarrow> kernel \<Rightarrow> nat transfer \<times> serial \<times> kernel" where
  "write_res d bs m t w sd k =
    (let (r, q, k) = oqWriteTimeout_resume notify1 d TIME_INFINITE (drop w bs) t w (sd_oq sd) k in (r, sd\<lparr>sd_oq := q\<rparr>, k))"

definition write_inv :: "u8 list \<Rightarrow> u8 list \<Rightarrow> u8 list \<Rightarrow> u8 list \<Rightarrow> nat transfer \<Rightarrow> u8 list \<Rightarrow> u8 list \<Rightarrow> bool" where
  "write_inv bs rx0 out0 xs r ys out \<longleftrightarrow> ys = rx0 @ xs \<and>
    (case r of transfer.Done w \<Rightarrow> w = length bs \<and> out = out0 @ bs
     | transfer.Blocked m t w \<Rightarrow> t = TIME_INFINITE \<and> m + w = length bs \<and> out = out0 @ take w bs)"

lemma write_end_inv:
  assumes "w \<le> length bs"
  shows "write_inv bs rx0 out0 xs (write_end TIME_INFINITE (length (drop w bs)) room w) (rx0 @ xs)
    (out0 @ take w bs @ take room (drop w bs))"
proof -
  have "take w bs @ take room (drop w bs) = take (w + room) bs" by (simp add: take_add)
  then show ?thesis using assms by (auto simp: write_inv_def write_end_def infinite_not_immediate)
qed

interpretation wr: channel_call kd idle "write_res d bs" "write_inv bs rx0 out0" for kd idle d bs rx0 out0
proof (unfold_locales, goal_cases)
  case (1 xs r ys out zs)
  then show ?case by (simp add: write_inv_def)
next
  case (2 xs m t w sd out k)
  have t: "t = TIME_INFINITE" and w: "w \<le> length bs" and y: "rx_bytes sd = rx0 @ xs" and o: "out @ tx_bytes sd = out0 @ take w bs"
    using 2(1) by (simp_all add: write_inv_def)
  have c: "chSchGoSleepTimeoutS_resume TIME_INFINITE k = (MSG_OK, k)"
    using 2(6) by (simp add: chSchGoSleepTimeoutS_resume_def)
  let ?room = "q_top (sd_oq sd) - length (tx_bytes sd)"
  obtain q k' where r: "oqWrite_loop notify1 d TIME_INFINITE (drop w bs) w (sd_oq sd) k =
      (write_end TIME_INFINITE (length (drop w bs)) ?room w, q, k')"
    "sd_ok kd idle (sd\<lparr>sd_oq := q\<rparr>) k'" "sd_armed (sd\<lparr>sd_oq := q\<rparr>) k'"
    "oq_bytes q = tx_bytes sd @ take ?room (drop w bs)"
    using write_loop_ok [OF 2(2,3,4,5)] by blast
  have e: "write_res d bs m t w sd k =
      (write_end TIME_INFINITE (length (drop w bs)) ?room w, sd\<lparr>sd_oq := q\<rparr>, k')"
    unfolding write_res_def oqWriteTimeout_resume_def t c by (simp add: r(1) del: length_q_items)
  have out: "out @ oq_bytes q = out0 @ take w bs @ take ?room (drop w bs)"
    using o unfolding r(4) by (metis append.assoc)
  show ?case unfolding e prod.case using r(2,3) 2(4) y out write_end_inv [OF w, of rx0 out0 xs ?room] by simp
qed

section \<open>The line of the command loop\<close>

lemma read_start:
  assumes s: "sd_ok kd idle sd k" "sd_armed sd k" and idle: "current k \<noteq> idle" and e: "sd_read n sd k = (r, sd', k')"
  shows "sd_ok kd idle sd' k' \<and> sd_armed sd' k' \<and> sd_usart sd' = sd_usart sd \<and>
    read_inv n (rx_bytes sd) (out @ tx_bytes sd) [] r (rx_bytes sd') (out @ tx_bytes sd')"
proof -
  obtain q k1 where l: "iqRead_loop None (stime k + TIME_INFINITE) TIME_INFINITE n [] (sd_iq sd) k =
      (read_end TIME_INFINITE n (rx_bytes sd) [], q, k1)"
    "sd_ok kd idle (sd\<lparr>sd_iq := q\<rparr>) k1" "sd_armed (sd\<lparr>sd_iq := q\<rparr>) k1" "iq_bytes q = drop n (rx_bytes sd)"
    using read_loop_ok [OF s idle] by blast
  have "sd_read n sd k = (read_end TIME_INFINITE n (rx_bytes sd) [], sd\<lparr>sd_iq := q\<rparr>, k1)"
    by (simp add: sd_read_def sd_readt_def iqReadTimeout_def chVTGetSystemTimeX_def l(1))
  then show ?thesis
    using e l read_end_inv [of "[]" "rx_bytes sd" "rx_bytes sd" "[]" n n "out @ tx_bytes sd"] by auto
qed

lemma write_start:
  assumes s: "sd_ok kd idle sd k" "sd_armed sd k" "sd_usart sd = USART1" and idle: "current k \<noteq> idle"
    and e: "sd_write bs sd k = (r, sd', k')"
  shows "sd_ok kd idle sd' k' \<and> sd_armed sd' k' \<and> sd_usart sd' = USART1 \<and>
    write_inv bs (rx_bytes sd) (out @ tx_bytes sd) [] r (rx_bytes sd') (out @ tx_bytes sd')"
proof -
  let ?room = "q_top (sd_oq sd) - length (tx_bytes sd)"
  obtain q k1 where l: "oqWrite_loop notify1 (stime k + TIME_INFINITE) TIME_INFINITE bs 0 (sd_oq sd) k =
      (write_end TIME_INFINITE (length bs) ?room 0, q, k1)"
    "sd_ok kd idle (sd\<lparr>sd_oq := q\<rparr>) k1" "sd_armed (sd\<lparr>sd_oq := q\<rparr>) k1" "oq_bytes q = tx_bytes sd @ take ?room bs"
    using write_loop_ok [OF s idle] by blast
  have "sd_write bs sd k = (write_end TIME_INFINITE (length bs) ?room 0, sd\<lparr>sd_oq := q\<rparr>, k1)"
    by (simp add: sd_write_def sd_writet_def oqWriteTimeout_def chVTGetSystemTimeX_def l(1) del: length_q_items)
  then show ?thesis
    using e l s(3) write_end_inv [of 0 bs "rx_bytes sd" "out @ tx_bytes sd" "[]" ?room] by auto
qed

text \<open>
  C4: The serial line is the byte stream of the command loop.  A blocking read of n bytes from the
  driver, however often it sleeps, whatever the interrupts and the rest of the system do
  meanwhile (as long as the input queue does not overflow), returns exactly what chnRead of the
  command loop's model returns from the bytes that were queued followed by those received, and
  leaves the same bytes unread; a blocking write appends exactly its bytes to the stream of bytes
  sent and to be sent, as chnWrite does.
\<close>

theorem serial_line_refines:
  assumes "usart_ok io pend sent" and "sd_ok kd idle sd0 k0" and "sd_armed sd0 k0" and "sd_usart sd0 = USART1"
    and "current k0 \<noteq> idle"
    and "sd_read n sd0 k0 = (rr, sdr, kr)"
    and "channel_run kd idle io pend sent (read_res (stime k0 + TIME_INFINITE)) rr sdr kr h0 xs (transfer.Done acc) sd1 k1 h1"
    and "sd_write bs sd0 k0 = (rw, sdw, kw)"
    and "channel_run kd idle io pend sent (write_res (stime k0 + TIME_INFINITE) bs) rw sdw kw h0 ys (transfer.Done w) sd2 k2 h2"
  shows "chnRead n (s\<lparr>rx := rx_bytes sd0 @ xs, tx := sent h0 @ tx_bytes sd0\<rparr>) =
      Some (acc, s\<lparr>rx := rx_bytes sd1, tx := sent h1 @ tx_bytes sd1\<rparr>) \<and>
    chnWrite bs (s\<lparr>rx := rx_bytes sd0 @ ys, tx := sent h0 @ tx_bytes sd0\<rparr>) =
      s\<lparr>rx := rx_bytes sd2, tx := sent h2 @ tx_bytes sd2\<rparr> \<and>
    sd_ok kd idle sd1 k1 \<and> sd_ok kd idle sd2 k2 \<and> w = length bs"
proof -
  note r = read_start [OF assms(2,3,5,6), of "sent h0"] and b = write_start [OF assms(2-5,8), of "sent h0"]
  have "sd_ok kd idle sdr kr" "sd_armed sdr kr" "sd_usart sdr = USART1"
    "read_inv n (rx_bytes sd0) (sent h0 @ tx_bytes sd0) [] rr (rx_bytes sdr) (sent h0 @ tx_bytes sdr)"
    using r assms(4) by auto
  note i = rd.run_inv [OF assms(7,1) this]
  have "sd_ok kd idle sdw kw" "sd_armed sdw kw" "sd_usart sdw = USART1"
    "write_inv bs (rx_bytes sd0) (sent h0 @ tx_bytes sd0) [] rw (rx_bytes sdw) (sent h0 @ tx_bytes sdw)"
    using b by auto
  note j = wr.run_inv [OF assms(9,1) this]
  have acc: "acc @ rx_bytes sd1 = rx_bytes sd0 @ xs" "length acc = n" "sent h1 @ tx_bytes sd1 = sent h0 @ tx_bytes sd0"
    using i by (simp_all add: read_inv_def)
  have "take n (rx_bytes sd0 @ xs) = acc" "drop n (rx_bytes sd0 @ xs) = rx_bytes sd1" "n \<le> length (rx_bytes sd0 @ xs)"
    unfolding acc(1) [symmetric] using acc(2) by simp_all
  then have "chnRead n (s\<lparr>rx := rx_bytes sd0 @ xs, tx := sent h0 @ tx_bytes sd0\<rparr>) =
      Some (acc, s\<lparr>rx := rx_bytes sd1, tx := sent h1 @ tx_bytes sd1\<rparr>)"
    unfolding chnRead_def acc(3) by (simp del: length_append take_append drop_append)
  moreover have "chnWrite bs (s\<lparr>rx := rx_bytes sd0 @ ys, tx := sent h0 @ tx_bytes sd0\<rparr>) =
      s\<lparr>rx := rx_bytes sd2, tx := sent h2 @ tx_bytes sd2\<rparr>" "w = length bs"
    using j by (simp_all add: write_inv_def chnWrite_def)
  ultimately show ?thesis using i j by blast
qed

text \<open>
  A blocked read ends.  Once as many bytes have arrived as it asked for, the next turn of the
  reading thread, woken with MSG_OK, completes the read with exactly these bytes.
\<close>

theorem serial_read_completes:
  assumes "usart_ok io pend sent" and "sd_ok kd idle sd0 k0" and "sd_armed sd0 k0" and "sd_usart sd0 = USART1"
    and "current k0 \<noteq> idle" and "sd_read n sd0 k0 = (r0, sd1, k1)"
    and "channel_run kd idle io pend sent (read_res (stime k0 + TIME_INFINITE)) r0 sd1 k1 h0 xs (transfer.Blocked m t acc) sd k h"
    and "n \<le> length (rx_bytes sd0 @ xs)" and "current k \<noteq> idle" and "u (thd k (current k)) = MSG_OK"
  shows "fst (read_res (stime k0 + TIME_INFINITE) m t acc sd k) = transfer.Done (take n (rx_bytes sd0 @ xs))"
proof -
  have "sd_ok kd idle sd1 k1" "sd_armed sd1 k1" "sd_usart sd1 = USART1"
    "read_inv n (rx_bytes sd0) (sent h0 @ tx_bytes sd0) [] r0 (rx_bytes sd1) (sent h0 @ tx_bytes sd1)"
    using read_start [OF assms(2,3,5,6), of "sent h0"] assms(4) by auto
  note i = rd.run_inv [OF assms(7,1) this]
  have t: "t = TIME_INFINITE" and a: "acc @ rx_bytes sd = rx_bytes sd0 @ xs" "m + length acc = n"
    using i by (simp_all add: read_inv_def)
  have c: "chSchGoSleepTimeoutS_resume TIME_INFINITE k = (MSG_OK, k)"
    using assms(10) by (simp add: chSchGoSleepTimeoutS_resume_def)
  obtain q k' where l: "iqRead_loop None (stime k0 + TIME_INFINITE) TIME_INFINITE m acc (sd_iq sd) k =
      (read_end TIME_INFINITE m (rx_bytes sd) acc, q, k')"
    using read_loop_ok [OF _ _ assms(9)] i by blast
  have m: "m \<le> length (rx_bytes sd)" "take n (rx_bytes sd0 @ xs) = acc @ take m (rx_bytes sd)"
    using assms(8) a(2) unfolding a(1) [symmetric] by auto
  show ?thesis
    unfolding read_res_def iqReadTimeout_resume_def t c m(2) using m(1) by (simp add: l read_end_def del: length_q_items)
qed

section \<open>Witnesses\<close>

definition sd_busy :: serial where "sd_busy = sd_two\<lparr>sd_iq := iq_two\<rparr>"

definition sd_idle :: serial where
  "sd_idle = sd_two\<lparr>sd_oq := iq_two\<lparr>q_counter := 3, q_wrptr := 2\<rparr>\<rparr>"

lemma sd_examples:
  "sd_ok (\<lambda>_. KQueue) 2 sd_busy tx_boot" "sd_armed sd_busy tx_boot" "sd_usart sd_busy = USART1" "current tx_boot \<noteq> 2"
  "rx_bytes sd_busy = [7, 8]" "q_top (sd_oq sd_busy) - length (tx_bytes sd_busy) = 1"
  "sd_ok (\<lambda>_. KQueue) 2 sd_idle boot" "sd_armed sd_idle boot" "sd_usart sd_idle = USART1" "current boot \<noteq> 2"
  "rx_bytes sd_idle = []" "tx_bytes sd_idle = []"
proof -
  show "sd_ok (\<lambda>_. KQueue) 2 sd_busy tx_boot"
    using sd_two_ok(1) by (simp add: sd_ok_def sd_queues_def sd_busy_def sd_two_def ioq_static_def q_ring_def ring_ok_def iq_two_def)
  show "sd_armed sd_busy tx_boot" using sd_two_ok(2) by (simp add: sd_armed_def sd_busy_def)
  have "sd_iq sd_busy = iq_two" by (simp add: sd_busy_def)
  then show "rx_bytes sd_busy = [7, 8]" by (simp only: io_examples(3))
  show "sd_ok (\<lambda>_. KQueue) 2 sd_idle boot"
    using sys_ok_queues_boot by (auto simp: sd_ok_def sd_queues_def sd_idle_def sd_two_def ioq_static_def q_ring_def ring_ok_def
      iq_two_def heard_def boot_simps)
  show "sd_armed sd_idle boot" by (simp add: sd_armed_def sd_idle_def sd_two_def iq_two_def q_items_def ring_at_def)
qed (simp_all add: sd_busy_def sd_idle_def sd_two_def tx_boot_def boot_simps oq_two_def iq_two_def q_items_def ring_at_def)

lemma serial_line_refines_witness:
  "\<exists>sdr kr. sd_read 2 sd_busy tx_boot = (transfer.Done [7, 8], sdr, kr) \<and> rx_bytes sdr = []"
proof -
  let ?s = "undefined\<lparr>rx := [], tx := []\<rparr> :: hssp"
  obtain sdr kr where r: "sd_read 2 sd_busy tx_boot = (transfer.Done [7, 8], sdr, kr)"
    using read_loop_ok [OF sd_examples(1,2,4), of "stime tx_boot + TIME_INFINITE" 2 "[]"]
    by (auto simp: sd_read_def sd_readt_def iqReadTimeout_def chVTGetSystemTimeX_def sd_examples(5) read_end_def)
  obtain sdw kw where w: "sd_write [5] sd_busy tx_boot = (transfer.Done 1, sdw, kw)"
    using write_loop_ok [OF sd_examples(1-4), of "stime tx_boot + TIME_INFINITE" "[5]" 0] sd_examples(6)
    by (auto simp: sd_write_def sd_writet_def oqWriteTimeout_def chVTGetSystemTimeX_def write_end_def)
  have "rx_bytes sdr = []"
    using serial_line_refines [OF usart_ok_line sd_examples(1-4) r channel_run.call w channel_run.call,
        where ?h0.0 = "([], [])" and s = ?s] sd_examples(5)
    by (auto simp: chnRead_def dest: arg_cong [where f = rx])
  then show ?thesis using r by blast
qed

lemma serial_read_completes_witness:
  "\<exists>m t acc sd. fst (read_res TIME_INFINITE m t acc sd boot) = transfer.Done [0x41]"
proof -
  note ex = sd_examples(7-12)
  obtain sd1 k1 where r: "sd_read 1 sd_idle boot = (transfer.Blocked 1 TIME_INFINITE [], sd1, k1)"
    and s1: "sd_ok (\<lambda>_. KQueue) 2 sd1 k1" "sd_armed sd1 k1" "tx_bytes sd1 = []" "rx_bytes sd1 = []"
      "sd_rxmask sd1 = 0x7F" "sd_event sd1 = 500"
    using read_loop_ok [OF ex(1,2,4), of "stime boot + TIME_INFINITE" 1 "[]"] ex(5,6)
    by (auto simp: sd_read_def sd_readt_def iqReadTimeout_def chVTGetSystemTimeX_def read_end_def infinite_not_immediate
        sd_idle_def sd_two_def)
  let ?h = "([0xC1], []) :: u8 list \<times> u8 list"
  have rec: "received (sd_rxmask sd1) (line_pend ?h) = [0x41]" by (simp add: received_def line_pend_def s1)
  obtain sd k h where i: "serve_interrupt line_io sd1 k1 ?h = Some (sd, k, h)" "snd h @ tx_bytes sd = []"
    "sd_event sd = 500"
    using serve_interrupt_inv [OF usart_ok_line s1(1,2), of ?h] s1(3,6) by auto
  have top: "0 < q_top (sd_iq sd1)"
    using sd_okD(3) [OF s1(1)] ioq_bound by (auto simp: iq_ok_def)
  have room: "length (rx_bytes sd1) + length (received (sd_rxmask sd1) (line_pend ?h)) \<le> q_top (sd_iq sd1)"
    unfolding rec s1(4) using top by simp
  have h: "heard (sd_event sd) boot" "sd_armed sd boot" using i(2) by (simp_all add: heard_def boot_simps sd_armed_def)
  let ?run = "channel_run (\<lambda>_. KQueue) 2 line_io line_pend snd (read_res (stime boot + TIME_INFINITE))
    (transfer.Blocked 1 TIME_INFINITE []) sd1 k1 ?h"
  have "?run [] (transfer.Blocked 1 TIME_INFINITE []) sd1 k1 ?h" by (rule channel_run.call)
  from channel_run.interrupt [OF this room i(1)]
  have "?run ([] @ received (sd_rxmask sd1) (line_pend ?h)) (transfer.Blocked 1 TIME_INFINITE []) sd k h" .
  note run = channel_run.other [OF this sys_ok_queues_boot h]
  have n: "1 \<le> length (rx_bytes sd_idle @ [] @ received (sd_rxmask sd1) (line_pend ?h))"
    unfolding rec by simp
  have u: "u (thd boot (current boot)) = MSG_OK" by (simp add: boot_simps boot_thread_def MSG_OK_def)
  have "stime boot + TIME_INFINITE = TIME_INFINITE" by (simp add: boot_def)
  then show ?thesis
    using serial_read_completes [OF usart_ok_line ex(1-4) r run n ex(4) u] unfolding rec ex(5) by auto
qed

end
