(* ===== verification/Pal.thy ===== *)
theory Pal
  imports Serial IsspWire
begin

text \<open>
  The I/O ports of the HAL (hal_pal.h, hal_pal.c, GPIOv1/hal_pal_lld.h, hal_pal_lld.c) and the port
  setup of the board (board.h, board.c).  A port is its three registers of memory: the two
  configuration registers with four bits per pad, and the output latch.  What a write to the set and
  reset registers does to the latch is hardware, the argument \<open>hw\<close>; what the input register shows is
  the argument of the read operations.
\<close>

section \<open>Ports\<close>

record gpio =
  CRL :: u32
  CRH :: u32
  ODR :: u32

record gpio_hw =
  BSRR :: "u32 \<Rightarrow> u32 \<Rightarrow> u32"
  BRR :: "u32 \<Rightarrow> u32 \<Rightarrow> u32"

definition write_BSRR :: "gpio_hw \<Rightarrow> u32 \<Rightarrow> gpio \<Rightarrow> gpio" where
  "write_BSRR hw v p = p\<lparr>ODR := BSRR hw (ODR p) v\<rparr>"

definition write_BRR :: "gpio_hw \<Rightarrow> u32 \<Rightarrow> gpio \<Rightarrow> gpio" where
  "write_BRR hw v p = p\<lparr>ODR := BRR hw (ODR p) v\<rparr>"

abbreviation (input) MODE_RESET :: u32 where "MODE_RESET \<equiv> 0"
abbreviation (input) MODE_UNCONNECTED :: u32 where "MODE_UNCONNECTED \<equiv> 1"
abbreviation (input) MODE_INPUT :: u32 where "MODE_INPUT \<equiv> 2"
abbreviation (input) MODE_INPUT_PULLUP :: u32 where "MODE_INPUT_PULLUP \<equiv> 3"
abbreviation (input) MODE_INPUT_PULLDOWN :: u32 where "MODE_INPUT_PULLDOWN \<equiv> 4"
abbreviation (input) MODE_INPUT_ANALOG :: u32 where "MODE_INPUT_ANALOG \<equiv> 5"
abbreviation (input) MODE_OUTPUT_PUSHPULL :: u32 where "MODE_OUTPUT_PUSHPULL \<equiv> 6"
abbreviation (input) MODE_OUTPUT_OPENDRAIN :: u32 where "MODE_OUTPUT_OPENDRAIN \<equiv> 7"

section \<open>The mode of a group of pads\<close>

definition cfgtab :: "u32 list" where
  "cfgtab = [4, 2, 4, 8, 8, 0, 3, 7, 8, 8, 8, 8, 8, 8, 8, 8, 0xB, 0xF]"

text \<open>One pass of the loop, on the mask and the four words built from it.\<close>

definition setgroup_pass :: "u32 \<Rightarrow> u32 \<times> u32 \<times> u32 \<times> u32 \<times> u32 \<Rightarrow> u32 \<times> u32 \<times> u32 \<times> u32 \<times> u32" where
  "setgroup_pass cfg s =
    (case s of (m, ml, mh, crl, crh) \<Rightarrow>
      (let ml = push_bit 4 ml; mh = push_bit 4 mh; crl = push_bit 4 crl; crh = push_bit 4 crh;
           (ml, crl) = (if m AND 0x0080 = 0 then (ml OR 0xF, crl) else (ml, crl OR cfg));
           (mh, crh) = (if m AND 0x8000 = 0 then (mh OR 0xF, crh) else (mh, crh OR cfg))
       in (push_bit 1 m, ml, mh, crl, crh)))"

fun setgroup_loop :: "nat \<Rightarrow> u32 \<Rightarrow> u32 \<times> u32 \<times> u32 \<times> u32 \<times> u32 \<Rightarrow> u32 \<times> u32 \<times> u32 \<times> u32 \<times> u32" where
  "setgroup_loop 0 cfg s = s"
| "setgroup_loop (Suc n) cfg s = setgroup_loop n cfg (setgroup_pass cfg s)"

text \<open>\<open>_pal_lld_setgroupmode\<close>; an index past the table is undefined, None.\<close>

definition lld_setgroupmode :: "gpio_hw \<Rightarrow> u32 \<Rightarrow> u32 \<Rightarrow> gpio \<Rightarrow> gpio option" where
  "lld_setgroupmode hw m md p =
    (let p = (if md = MODE_INPUT_PULLUP then write_BSRR hw m p
              else if md = MODE_INPUT_PULLDOWN then write_BRR hw m p else p)
     in if length cfgtab \<le> unat md then None
        else (case setgroup_loop 8 (cfgtab ! unat md) (m, 0, 0, 0, 0) of
          (_, ml, mh, crl, crh) \<Rightarrow> Some (p\<lparr>CRH := CRH p AND mh OR crh, CRL := CRL p AND ml OR crl\<rparr>)))"

section \<open>The operations on ports, groups, pads and lines\<close>

definition palReadLatch :: "gpio \<Rightarrow> u32" where "palReadLatch p = ODR p"

definition palReadPort :: "u32 \<Rightarrow> u32" where "palReadPort idr = idr"

definition palWritePort :: "u32 \<Rightarrow> gpio \<Rightarrow> gpio" where "palWritePort bits p = p\<lparr>ODR := bits\<rparr>"

definition palSetPort :: "gpio_hw \<Rightarrow> u32 \<Rightarrow> gpio \<Rightarrow> gpio" where "palSetPort hw bits p = write_BSRR hw bits p"

definition palClearPort :: "gpio_hw \<Rightarrow> u32 \<Rightarrow> gpio \<Rightarrow> gpio" where "palClearPort hw bits p = write_BRR hw bits p"

definition palTogglePort :: "u32 \<Rightarrow> gpio \<Rightarrow> gpio" where
  "palTogglePort bits p = palWritePort (palReadLatch p XOR bits) p"

definition palReadGroup :: "u32 \<Rightarrow> u32 \<Rightarrow> nat \<Rightarrow> u32" where
  "palReadGroup idr m offset = drop_bit offset (palReadPort idr) AND m"

definition palWriteGroup :: "gpio_hw \<Rightarrow> u32 \<Rightarrow> nat \<Rightarrow> u32 \<Rightarrow> gpio \<Rightarrow> gpio" where
  "palWriteGroup hw m offset bits p =
    write_BSRR hw (push_bit (16 + offset) (NOT bits AND m) OR push_bit offset (bits AND m)) p"

definition palSetGroupMode :: "gpio_hw \<Rightarrow> u32 \<Rightarrow> nat \<Rightarrow> u32 \<Rightarrow> gpio \<Rightarrow> gpio option" where
  "palSetGroupMode hw m offset md p = lld_setgroupmode hw (push_bit offset m) md p"

definition PAL_PORT_BIT :: "nat \<Rightarrow> u32" where "PAL_PORT_BIT n = push_bit n 1"

definition PAL_GROUP_MASK :: "nat \<Rightarrow> u32" where "PAL_GROUP_MASK width = push_bit width 1 - 1"

definition palReadPad_reg :: "u32 \<Rightarrow> nat \<Rightarrow> u32" where
  "palReadPad_reg idr n = drop_bit n (palReadPort idr) AND 1"

definition palWritePad :: "gpio_hw \<Rightarrow> nat \<Rightarrow> u32 \<Rightarrow> gpio \<Rightarrow> gpio" where
  "palWritePad hw n b p = palWriteGroup hw 1 n b p"

definition palSetPad_reg :: "gpio_hw \<Rightarrow> nat \<Rightarrow> gpio \<Rightarrow> gpio" where
  "palSetPad_reg hw n p = palSetPort hw (PAL_PORT_BIT n) p"

definition palClearPad_reg :: "gpio_hw \<Rightarrow> nat \<Rightarrow> gpio \<Rightarrow> gpio" where
  "palClearPad_reg hw n p = palClearPort hw (PAL_PORT_BIT n) p"

definition palTogglePad :: "nat \<Rightarrow> gpio \<Rightarrow> gpio" where
  "palTogglePad n p = palTogglePort (PAL_PORT_BIT n) p"

definition palSetPadMode_reg :: "gpio_hw \<Rightarrow> nat \<Rightarrow> u32 \<Rightarrow> gpio \<Rightarrow> gpio option" where
  "palSetPadMode_reg hw n md p = palSetGroupMode hw (PAL_PORT_BIT n) 0 md p"

text \<open>A bus: a group of adjacent pads of the port with the address \<open>bus_portid\<close>.\<close>

record iobus =
  bus_portid :: u32
  bus_mask :: u32
  bus_offset :: nat

definition IOBUS_DATA :: "u32 \<Rightarrow> nat \<Rightarrow> nat \<Rightarrow> iobus" where
  "IOBUS_DATA port width offset = \<lparr>bus_portid = port, bus_mask = PAL_GROUP_MASK width, bus_offset = offset\<rparr>"

definition palReadBus :: "iobus \<Rightarrow> (u32 \<Rightarrow> u32) \<Rightarrow> u32" where
  "palReadBus bus idr = palReadGroup (idr (bus_portid bus)) (bus_mask bus) (bus_offset bus)"

definition palWriteBus :: "gpio_hw \<Rightarrow> iobus \<Rightarrow> u32 \<Rightarrow> (u32 \<Rightarrow> gpio) \<Rightarrow> u32 \<Rightarrow> gpio" where
  "palWriteBus hw bus bits ps =
    ps(bus_portid bus := palWriteGroup hw (bus_mask bus) (bus_offset bus) bits (ps (bus_portid bus)))"

definition palSetBusMode :: "gpio_hw \<Rightarrow> iobus \<Rightarrow> u32 \<Rightarrow> (u32 \<Rightarrow> gpio) \<Rightarrow> (u32 \<Rightarrow> gpio) option" where
  "palSetBusMode hw bus md ps =
    map_option (\<lambda>p. ps(bus_portid bus := p)) (palSetGroupMode hw (bus_mask bus) (bus_offset bus) md (ps (bus_portid bus)))"

text \<open>A line: the address of a port and the number of a pad in one word.\<close>

definition PAL_LINE :: "u32 \<Rightarrow> u32 \<Rightarrow> u32" where "PAL_LINE port pad = port OR pad"
definition PAL_PORT :: "u32 \<Rightarrow> u32" where "PAL_PORT line = line AND 0xFFFFFFF0"
definition PAL_PAD :: "u32 \<Rightarrow> u32" where "PAL_PAD line = line AND 0x0000000F"

definition palReadLine :: "u32 \<Rightarrow> (u32 \<Rightarrow> u32) \<Rightarrow> u32" where
  "palReadLine line idr = palReadPad_reg (idr (PAL_PORT line)) (unat (PAL_PAD line))"

definition palWriteLine :: "gpio_hw \<Rightarrow> u32 \<Rightarrow> u32 \<Rightarrow> (u32 \<Rightarrow> gpio) \<Rightarrow> u32 \<Rightarrow> gpio" where
  "palWriteLine hw line b ps = ps(PAL_PORT line := palWritePad hw (unat (PAL_PAD line)) b (ps (PAL_PORT line)))"

definition palSetLine :: "gpio_hw \<Rightarrow> u32 \<Rightarrow> (u32 \<Rightarrow> gpio) \<Rightarrow> u32 \<Rightarrow> gpio" where
  "palSetLine hw line ps = ps(PAL_PORT line := palSetPad_reg hw (unat (PAL_PAD line)) (ps (PAL_PORT line)))"

definition palClearLine :: "gpio_hw \<Rightarrow> u32 \<Rightarrow> (u32 \<Rightarrow> gpio) \<Rightarrow> u32 \<Rightarrow> gpio" where
  "palClearLine hw line ps = ps(PAL_PORT line := palClearPad_reg hw (unat (PAL_PAD line)) (ps (PAL_PORT line)))"

definition palToggleLine :: "u32 \<Rightarrow> (u32 \<Rightarrow> gpio) \<Rightarrow> u32 \<Rightarrow> gpio" where
  "palToggleLine line ps = ps(PAL_PORT line := palTogglePad (unat (PAL_PAD line)) (ps (PAL_PORT line)))"

definition palSetLineMode :: "gpio_hw \<Rightarrow> u32 \<Rightarrow> u32 \<Rightarrow> (u32 \<Rightarrow> gpio) \<Rightarrow> (u32 \<Rightarrow> gpio) option" where
  "palSetLineMode hw line md ps =
    map_option (\<lambda>p. ps(PAL_PORT line := p))
      (palSetPadMode_reg hw (unat (PAL_PAD line)) md (ps (PAL_PORT line)))"

section \<open>The setup of the board\<close>

record gpio_setup =
  setup_odr :: u32
  setup_crl :: u32
  setup_crh :: u32

record pal_config =
  PAData :: gpio_setup
  PBData :: gpio_setup
  PCData :: gpio_setup
  PDData :: gpio_setup
  PEData :: gpio_setup

definition pal_default_config :: pal_config where
  "pal_default_config =
    \<lparr>PAData = \<lparr>setup_odr = 0xFFFFBFBF, setup_crl = 0x83888888, setup_crh = 0x888884B8\<rparr>,
     PBData = \<lparr>setup_odr = 0xFFFFFD7F, setup_crl = 0x38888888, setup_crh = 0x88888834\<rparr>,
     PCData = \<lparr>setup_odr = 0xFFFFFFFF, setup_crl = 0x88888888, setup_crh = 0x88888888\<rparr>,
     PDData = \<lparr>setup_odr = 0xFFFFFFFF, setup_crl = 0x88888844, setup_crh = 0x88888888\<rparr>,
     PEData = \<lparr>setup_odr = 0xFFFFFFFF, setup_crl = 0x88888888, setup_crh = 0x88888888\<rparr>\<rparr>"

abbreviation GPIOA :: u32 where "GPIOA \<equiv> 0x40010800"
abbreviation GPIOB :: u32 where "GPIOB \<equiv> 0x40010C00"
abbreviation GPIOC :: u32 where "GPIOC \<equiv> 0x40011000"
abbreviation GPIOD :: u32 where "GPIOD \<equiv> 0x40011400"
abbreviation GPIOE :: u32 where "GPIOE \<equiv> 0x40011800"

text \<open>The clocks of the ports A to E and of the alternate functions.\<close>

definition APB2_EN_MASK :: u32 where
  "APB2_EN_MASK = 0x4 OR 0x8 OR 0x10 OR 0x20 OR 0x40 OR 0x1"

definition set_up :: "gpio_setup \<Rightarrow> gpio \<Rightarrow> gpio" where
  "set_up c p = (let p = p\<lparr>ODR := setup_odr c\<rparr>; p = p\<lparr>CRH := setup_crh c\<rparr> in p\<lparr>CRL := setup_crl c\<rparr>)"

definition pal_lld_init :: "pal_config \<Rightarrow> (u32 \<Rightarrow> gpio) \<Rightarrow> kernel \<Rightarrow> (u32 \<Rightarrow> gpio) \<times> kernel" where
  "pal_lld_init config ps k =
    (let k = rccEnableAPB2 APB2_EN_MASK k;
         ps = ps(GPIOA := set_up (PAData config) (ps GPIOA));
         ps = ps(GPIOB := set_up (PBData config) (ps GPIOB));
         ps = ps(GPIOC := set_up (PCData config) (ps GPIOC));
         ps = ps(GPIOD := set_up (PDData config) (ps GPIOD));
         ps = ps(GPIOE := set_up (PEData config) (ps GPIOE))
     in (ps, k))"

section \<open>Configuration fields\<close>

text \<open>The four configuration bits of pad \<open>n\<close>.\<close>

definition pad_field :: "gpio \<Rightarrow> nat \<Rightarrow> u32" where
  "pad_field p n = (if n < 8 then drop_bit (4 * n) (CRL p) else drop_bit (4 * (n - 8)) (CRH p)) AND 0xF"

lemma bit_0xF: "bit (0xF :: u32) j \<longleftrightarrow> j < 4"
proof -
  have "(0xF :: u32) = mask 4" by (simp add: mask_eq_exp_minus_1)
  then have "bit (0xF :: u32) j \<longleftrightarrow> bit (mask 4 :: u32) j" by (rule arg_cong)
  also have "\<dots> \<longleftrightarrow> j < 4" by (simp add: bit_mask_iff) linarith
  finally show ?thesis .
qed

lemma bit_pad_field:
  "n < 16 \<Longrightarrow> bit (pad_field p n) i \<longleftrightarrow>
    i < 4 \<and> (if n < 8 then bit (CRL p) (4 * n + i) else bit (CRH p) (4 * (n - 8) + i))"
  unfolding pad_field_def bit_and_iff bit_0xF by (auto simp: bit_drop_bit_eq add.commute)

text \<open>The state of the loop after \<open>k\<close> passes.\<close>

definition setgroup_at :: "nat \<Rightarrow> u32 \<Rightarrow> u32 \<Rightarrow> u32 \<times> u32 \<times> u32 \<times> u32 \<times> u32 \<Rightarrow> bool" where
  "setgroup_at k cfg m s \<longleftrightarrow> (case s of (m', ml, mh, crl, crh) \<Rightarrow> m' = push_bit k m \<and>
    (\<forall>j<32. (bit ml j \<longleftrightarrow> j < 4 * k \<and> \<not> bit m (8 - k + j div 4)) \<and>
      (bit mh j \<longleftrightarrow> j < 4 * k \<and> \<not> bit m (16 - k + j div 4)) \<and>
      (bit crl j \<longleftrightarrow> j < 4 * k \<and> bit m (8 - k + j div 4) \<and> bit cfg (j mod 4)) \<and>
      (bit crh j \<longleftrightarrow> j < 4 * k \<and> bit m (16 - k + j div 4) \<and> bit cfg (j mod 4))))"

lemma and_two_bits:
  "(x :: u32) AND 0x80 = 0 \<longleftrightarrow> \<not> bit x 7" "x AND 0x8000 = 0 \<longleftrightarrow> \<not> bit x 15"
  using and_exp_eq_0_iff_not_bit [of x 7] and_exp_eq_0_iff_not_bit [of x 15] by simp_all

text \<open>What a pass does to one of the words, as bits.\<close>

lemma shifted_field:
  assumes "j < 32" and "k < 8" and "c = 7 \<or> c = 15"
    and l: "\<And>j. j < 32 \<Longrightarrow> bit l j \<longleftrightarrow> j < 4 * k \<and> P (c + 1 - k + j div 4) (j mod 4)"
    and v: "\<And>j. j < 32 \<Longrightarrow> bit v j \<longleftrightarrow> j < 4 \<and> P (c - k) j"
  shows "bit (push_bit 4 l OR v :: u32) j \<longleftrightarrow> j < 4 * (k + 1) \<and> P (c + 1 - (k + 1) + j div 4) (j mod 4)"
proof (cases "j < 4")
  case True
  then show ?thesis using v [OF assms(1)] by (simp add: bit_or_iff bit_push_bit_iff)
next
  case False
  then have "c + 1 - k + (j - 4) div 4 = c - k + j div 4" "(j - 4) mod 4 = j mod 4"
    using assms(2,3) by (auto simp: le_mod_geq le_div_geq not_less)
  then show ?thesis using False l [of "j - 4"] v [OF assms(1)] assms(1)
    by (auto simp: bit_or_iff bit_push_bit_iff)
qed

lemma setgroup_pass_at:
  assumes at: "setgroup_at k cfg m s" and k: "k < 8" and cfg: "\<And>j. 4 \<le> j \<Longrightarrow> \<not> bit cfg j"
  shows "setgroup_at (Suc k) cfg m (setgroup_pass cfg s)"
proof -
  obtain m' ml mh crl crh where s: "s = (m', ml, mh, crl, crh)" by (cases s)
  have m': "m' = push_bit k m" using at s by (simp add: setgroup_at_def)
  then have b7: "bit m' 7 \<longleftrightarrow> bit m (7 - k)" and b15: "bit m' 15 \<longleftrightarrow> bit m (15 - k)"
    using k by (simp_all add: bit_push_bit_iff)
  let ?ml = "push_bit 4 ml OR (if bit m' 7 then 0 else 0xF)" and ?crl = "push_bit 4 crl OR (if bit m' 7 then cfg else 0)"
  let ?mh = "push_bit 4 mh OR (if bit m' 15 then 0 else 0xF)" and ?crh = "push_bit 4 crh OR (if bit m' 15 then cfg else 0)"
  have p: "setgroup_pass cfg s = (push_bit 1 m', ?ml, ?mh, ?crl, ?crh)"
    by (simp add: setgroup_pass_def s and_two_bits Let_def)
  have sh: "push_bit 1 m' = push_bit (Suc k) m" using m' by simp
  have small: "j < 4" if "bit cfg j" for j using cfg [of j] that not_less by auto
  have "(bit ?ml j \<longleftrightarrow> j < 4 * (k + 1) \<and> \<not> bit m (7 + 1 - (k + 1) + j div 4)) \<and>
      (bit ?mh j \<longleftrightarrow> j < 4 * (k + 1) \<and> \<not> bit m (15 + 1 - (k + 1) + j div 4)) \<and>
      (bit ?crl j \<longleftrightarrow> j < 4 * (k + 1) \<and> bit m (7 + 1 - (k + 1) + j div 4) \<and> bit cfg (j mod 4)) \<and>
      (bit ?crh j \<longleftrightarrow> j < 4 * (k + 1) \<and> bit m (15 + 1 - (k + 1) + j div 4) \<and> bit cfg (j mod 4))" if j: "j < 32" for j
  proof (intro conjI)
    show "bit ?ml j \<longleftrightarrow> j < 4 * (k + 1) \<and> \<not> bit m (7 + 1 - (k + 1) + j div 4)"
      by (rule shifted_field [OF j k, where P = "\<lambda>a b. \<not> bit m a"]) (use at b7 in \<open>simp_all add: s setgroup_at_def bit_0xF del: bit_numeral_word_iff\<close>)
    show "bit ?mh j \<longleftrightarrow> j < 4 * (k + 1) \<and> \<not> bit m (15 + 1 - (k + 1) + j div 4)"
      by (rule shifted_field [OF j k, where P = "\<lambda>a b. \<not> bit m a"]) (use at b15 in \<open>simp_all add: s setgroup_at_def bit_0xF del: bit_numeral_word_iff\<close>)
    show "bit ?crl j \<longleftrightarrow> j < 4 * (k + 1) \<and> bit m (7 + 1 - (k + 1) + j div 4) \<and> bit cfg (j mod 4)"
      by (rule shifted_field [OF j k, where P = "\<lambda>a b. bit m a \<and> bit cfg b"]) (use at b7 in \<open>auto simp: s setgroup_at_def dest: small\<close>)
    show "bit ?crh j \<longleftrightarrow> j < 4 * (k + 1) \<and> bit m (15 + 1 - (k + 1) + j div 4) \<and> bit cfg (j mod 4)"
      by (rule shifted_field [OF j k, where P = "\<lambda>a b. bit m a \<and> bit cfg b"]) (use at b15 in \<open>auto simp: s setgroup_at_def dest: small\<close>)
  qed
  then show ?thesis unfolding p sh setgroup_at_def by simp
qed

lemma setgroup_loop_at:
  "setgroup_at k cfg m s \<Longrightarrow> k + n \<le> 8 \<Longrightarrow> (\<And>j. 4 \<le> j \<Longrightarrow> \<not> bit cfg j) \<Longrightarrow>
    setgroup_at (k + n) cfg m (setgroup_loop n cfg s)"
proof (induction n arbitrary: k s)
  case 0
  then show ?case by simp
next
  case (Suc n)
  then show ?case using Suc.IH [of "Suc k" "setgroup_pass cfg s"] setgroup_pass_at [of k cfg m s] by simp
qed

lemma cfgtab_small: "n < length cfgtab \<Longrightarrow> 4 \<le> j \<Longrightarrow> \<not> bit (cfgtab ! n) j"
proof -
  assume n: "n < length cfgtab" and j: "4 \<le> j"
  have "list_all (\<lambda>c. c AND 0xF = c) cfgtab" by (simp add: cfgtab_def)
  then have "cfgtab ! n AND 0xF = cfgtab ! n" using n by (simp add: list_all_length)
  then have "bit (cfgtab ! n) j = bit (cfgtab ! n AND 0xF) j" by simp
  then show ?thesis unfolding bit_and_iff bit_0xF using j by simp
qed

text \<open>What the reference manual says of the set and reset registers: set wins over reset.\<close>

definition gpio_hw_ok :: "gpio_hw \<Rightarrow> bool" where
  "gpio_hw_ok hw \<longleftrightarrow> (\<forall>odr v. \<forall>n<16. (bit (BSRR hw odr v) n \<longleftrightarrow> bit v n \<or> bit odr n \<and> \<not> bit v (n + 16)) \<and>
    (bit (BRR hw odr v) n \<longleftrightarrow> bit odr n \<and> \<not> bit v n))"

lemma setgroupmode_eq:
  assumes md: "unat md < length cfgtab"
  shows "\<exists>p'. lld_setgroupmode hw m md p = Some p' \<and>
    (\<forall>n<16. pad_field p' n = (if bit m n then cfgtab ! unat md else pad_field p n)) \<and>
    ODR p' = (if md = MODE_INPUT_PULLUP then BSRR hw (ODR p) m
      else if md = MODE_INPUT_PULLDOWN then BRR hw (ODR p) m else ODR p)"
proof -
  let ?cfg = "cfgtab ! unat md"
  note small = cfgtab_small [OF md]
  have "setgroup_at 0 ?cfg m (m, 0, 0, 0, 0)" by (simp add: setgroup_at_def)
  then have "setgroup_at (0 + 8) ?cfg m (setgroup_loop 8 ?cfg (m, 0, 0, 0, 0))"
    by (rule setgroup_loop_at) (use small in auto)
  then obtain m' ml mh crl crh where l: "setgroup_loop 8 ?cfg (m, 0, 0, 0, 0) = (m', ml, mh, crl, crh)"
    and b: "\<And>j. j < 32 \<Longrightarrow> (bit ml j \<longleftrightarrow> \<not> bit m (j div 4)) \<and> (bit mh j \<longleftrightarrow> \<not> bit m (8 + j div 4)) \<and>
      (bit crl j \<longleftrightarrow> bit m (j div 4) \<and> bit ?cfg (j mod 4)) \<and> (bit crh j \<longleftrightarrow> bit m (8 + j div 4) \<and> bit ?cfg (j mod 4))"
    by (cases "setgroup_loop 8 ?cfg (m, 0, 0, 0, 0)") (auto simp: setgroup_at_def)
  define q where "q = (if md = MODE_INPUT_PULLUP then write_BSRR hw m p
      else if md = MODE_INPUT_PULLDOWN then write_BRR hw m p else p)"
  have q: "CRL q = CRL p" "CRH q = CRH p" "ODR q = (if md = MODE_INPUT_PULLUP then BSRR hw (ODR p) m
      else if md = MODE_INPUT_PULLDOWN then BRR hw (ODR p) m else ODR p)"
    by (simp_all add: q_def write_BSRR_def write_BRR_def)
  let ?p = "q\<lparr>CRH := CRH p AND mh OR crh, CRL := CRL p AND ml OR crl\<rparr>"
  have "lld_setgroupmode hw m md p = Some ?p"
    using md l q by (simp add: lld_setgroupmode_def q_def [symmetric] Let_def)
  moreover have "pad_field ?p n = (if bit m n then ?cfg else pad_field p n)" if n: "n < 16" for n
  proof (rule bit_word_eqI)
    fix i
    have lo: "(4 * n + i) div 4 = n" "(4 * n + i) mod 4 = i" if "i < 4" using that by simp_all
    have hi: "8 + (4 * (n - 8) + i) div 4 = n" "(4 * (n - 8) + i) mod 4 = i" if "i < 4" "\<not> n < 8" using that by simp_all
    show "bit (pad_field ?p n) i = bit (if bit m n then ?cfg else pad_field p n) i"
    proof (cases "i < 4")
      case False
      then show ?thesis using small [of i] n by (simp add: bit_pad_field)
    next
      case True
      show ?thesis
      proof (cases "n < 8")
        case lt: True
        then show ?thesis using b [of "4 * n + i"] lo [OF True] True
          by (simp add: bit_pad_field bit_or_iff bit_and_iff)
      next
        case ge: False
        then show ?thesis using b [of "4 * (n - 8) + i"] hi [OF True ge] True n
          by (simp add: bit_pad_field bit_or_iff bit_and_iff)
      qed
    qed
  qed
  ultimately show ?thesis using q by (intro exI [of _ ?p]) simp
qed

section \<open>Correctness\<close>

text \<open>
  Setting the mode of a group returns, gives the pads of the mask the configuration of the mode and
  leaves the configuration of the others alone; the output latch changes only for the pull resistor
  modes, and then only at the pads of the mask.
\<close>

theorem setgroupmode_correct:
  assumes "gpio_hw_ok hw" and "unat md < length cfgtab" and "m < 2 ^ 16"
  shows "\<exists>p'. lld_setgroupmode hw m md p = Some p' \<and>
    (\<forall>n<16. pad_field p' n = (if bit m n then cfgtab ! unat md else pad_field p n) \<and>
      (bit (ODR p') n \<longleftrightarrow> (if bit m n \<and> md = MODE_INPUT_PULLUP then True
        else if bit m n \<and> md = MODE_INPUT_PULLDOWN then False else bit (ODR p) n)))"
proof -
  have "\<not> bit m (n + 16)" for n
  proof -
    have "unat m < 2 ^ 16" using assms(3) by (simp add: word_less_nat_alt)
    then have "unat (take_bit 16 m) = unat m" by (simp add: unsigned_take_bit_eq take_bit_nat_eq_self)
    then have "take_bit 16 m = m" by (simp only: word_unat_eq_iff)
    then have "bit m (n + 16) = bit (take_bit 16 m) (n + 16)" by simp
    then show ?thesis unfolding bit_take_bit_iff by simp
  qed
  then show ?thesis
    using setgroupmode_eq [OF assms(2), of hw m p] assms(1) by (auto simp: gpio_hw_ok_def)
qed

text \<open>
  The pads of the programmer on the registers of port B.  The register operations carry out the pad
  operations that \<open>IsspWire\<close> takes as primitive: under the relation below each of them keeps the
  relation, and reading a pad gives the level of the wire model.
\<close>

fun pad_of :: "line \<Rightarrow> nat" where
  "pad_of XRES = 7"
| "pad_of SDATA = 8"
| "pad_of SCLK = 9"

fun mode_code :: "pad_mode \<Rightarrow> u32" where
  "mode_code PAL_MODE_INPUT = MODE_INPUT"
| "mode_code PAL_MODE_OUTPUT_PUSHPULL = MODE_OUTPUT_PUSHPULL"

definition wire_on :: "wire \<Rightarrow> gpio \<Rightarrow> bool" where
  "wire_on w p \<longleftrightarrow> (\<forall>l. pad_field p (pad_of l) = cfgtab ! unat (mode_code (mode w l)) \<and>
    (bit (ODR p) (pad_of l) \<longleftrightarrow> latch w l))"

lemma bit_PAL_PORT_BIT: "n < 32 \<Longrightarrow> bit (PAL_PORT_BIT n) j \<longleftrightarrow> j = n"
  unfolding PAL_PORT_BIT_def bit_push_bit_iff bit_1_iff by auto

lemma pad_of_range: "pad_of l < 16" "pad_of l = pad_of l' \<longleftrightarrow> l = l'"
  by (cases l; cases l'; simp)+

lemma mode_code_simps: "unat (mode_code m) < length cfgtab" "mode_code m \<noteq> MODE_INPUT_PULLUP"
  "mode_code m \<noteq> MODE_INPUT_PULLDOWN"
  by (cases m; simp add: cfgtab_def)+

lemma wire_on_mode:
  assumes "wire_on w p"
  shows "\<exists>p'. palSetPadMode_reg hw (pad_of l) (mode_code m) p = Some p' \<and> wire_on (palSetPadMode l m w) p'"
proof -
  let ?n = "pad_of l"
  obtain p' where p': "lld_setgroupmode hw (PAL_PORT_BIT ?n) (mode_code m) p = Some p'"
    "\<And>i. i < 16 \<Longrightarrow> pad_field p' i = (if i = ?n then cfgtab ! unat (mode_code m) else pad_field p i)" "ODR p' = ODR p"
    using setgroupmode_eq [OF mode_code_simps(1) [of m], of hw "PAL_PORT_BIT ?n" p] mode_code_simps(2,3) [of m]
      bit_PAL_PORT_BIT [of ?n] pad_of_range(1) [of l] by auto
  then show ?thesis
    using assms pad_of_range by (auto simp: wire_on_def palSetPadMode_reg_def palSetGroupMode_def palSetPadMode_def)
qed

lemma wire_on_drive:
  assumes "wire_on w p" and hw: "gpio_hw_ok hw"
  shows "wire_on (palSetPad l w) (palSetPad_reg hw (pad_of l) p)" "wire_on (palClearPad l w) (palClearPad_reg hw (pad_of l) p)"
proof -
  have n: "pad_of l < 16" "pad_of l < 32" using pad_of_range(1) [of l] by simp_all
  have pf: "pad_field (write_BSRR hw v p) i = pad_field p i" "pad_field (write_BRR hw v p) i = pad_field p i" 
    and od: "ODR (write_BSRR hw v p) = BSRR hw (ODR p) v" "ODR (write_BRR hw v p) = BRR hw (ODR p) v" for v i
    by (simp_all add: pad_field_def write_BSRR_def write_BRR_def)
  have b: "bit (BSRR hw (ODR p) (PAL_PORT_BIT (pad_of l))) i \<longleftrightarrow> i = pad_of l \<or> bit (ODR p) i"
    "bit (BRR hw (ODR p) (PAL_PORT_BIT (pad_of l))) i \<longleftrightarrow> i \<noteq> pad_of l \<and> bit (ODR p) i" if "i < 16" for i
    using hw that n by (auto simp: gpio_hw_ok_def bit_PAL_PORT_BIT)
  show "wire_on (palSetPad l w) (palSetPad_reg hw (pad_of l) p)"
    using assms(1) b(1) pad_of_range
    by (auto simp: wire_on_def palSetPad_reg_def palSetPort_def palSetPad_def pf od)
  show "wire_on (palClearPad l w) (palClearPad_reg hw (pad_of l) p)"
    using assms(1) b(2) pad_of_range
    by (auto simp: wire_on_def palClearPad_reg_def palClearPort_def palClearPad_def pf od)
qed

lemma read_pad_bit: "palReadPad_reg idr n \<noteq> 0 \<longleftrightarrow> bit idr n"
proof -
  have "drop_bit n idr AND 1 = (if bit idr n then 1 else 0)" by (simp add: and_one_eq odd_iff_mod_2_eq_one bit_iff_odd_drop_bit)
  then show ?thesis by (simp add: palReadPad_reg_def palReadPort_def)
qed

text \<open>
  C11: The pads of the wire model are refined by port B.  Setting a mode returns and, like driving a pad
  high or low, ends in registers that show the new state of the wire; and a sample of SDATA is the
  bit of the input register when that shows the latch of an output and the target's level of an
  input.
\<close>

theorem pads_refine:
  assumes "wire_on w p" and "gpio_hw_ok hw"
    and "bit idr (pad_of SDATA) \<longleftrightarrow> (if mode w SDATA = PAL_MODE_OUTPUT_PUSHPULL then bit (ODR p) (pad_of SDATA) else tgt (trace w))"
  shows "(\<exists>p'. palSetPadMode_reg hw (pad_of l) (mode_code md) p = Some p' \<and> wire_on (palSetPadMode l md w) p') \<and>
    wire_on (palSetPad l w) (palSetPad_reg hw (pad_of l) p) \<and>
    wire_on (palClearPad l w) (palClearPad_reg hw (pad_of l) p) \<and>
    fst (palReadPad tgt w) = (palReadPad_reg idr (pad_of SDATA) \<noteq> 0) \<and> wire_on (snd (palReadPad tgt w)) p"
proof -
  have "bit (ODR p) (pad_of SDATA) \<longleftrightarrow> latch w SDATA" using assms(1) unfolding wire_on_def by blast
  then have "fst (palReadPad tgt w) = (palReadPad_reg idr (pad_of SDATA) \<noteq> 0)"
    using assms(3) unfolding read_pad_bit by (simp add: palReadPad_def Let_def)
  moreover have "wire_on (snd (palReadPad tgt w)) p"
    using assms(1) by (simp add: palReadPad_def Let_def wire_on_def)
  ultimately show ?thesis using wire_on_mode [OF assms(1)] wire_on_drive [OF assms(1,2)] by blast
qed

text \<open>
  After the board has set its ports up, port B shows the wire with SDATA released and its latch high,
  and SCLK and XRES driven low; the clocks of the ports run.
\<close>

lemma board_wire:
  "wire_on \<lparr>latch = (\<lambda>l. l = SDATA), mode = (\<lambda>l. if l = SDATA then PAL_MODE_INPUT else PAL_MODE_OUTPUT_PUSHPULL), trace = []\<rparr>
    (fst (pal_lld_init pal_default_config ps k) GPIOB)"
proof -
  have f: "pad_field (fst (pal_lld_init pal_default_config ps k) GPIOB) (pad_of l) = (if l = SDATA then 4 else 3)"
    "bit (ODR (fst (pal_lld_init pal_default_config ps k) GPIOB)) (pad_of l) \<longleftrightarrow> l = SDATA" for l
    by (cases l; simp add: pal_lld_init_def pal_default_config_def set_up_def pad_field_def Let_def)+
  show ?thesis unfolding wire_on_def by (auto simp: f cfgtab_def)
qed

text \<open>
  Groups of pads: a write to a group stores its bits, masked, at the place of the group and leaves the
  other pads alone, provided that the group lies in the port; so a read of the latch gives them back.
\<close>

lemma bit_group_mask: "w < 32 \<Longrightarrow> bit (PAL_GROUP_MASK w) j \<longleftrightarrow> j < w"
proof -
  assume "w < 32"
  moreover have "PAL_GROUP_MASK w = mask w" by (simp add: PAL_GROUP_MASK_def mask_eq_exp_minus_1)
  ultimately show ?thesis by (auto simp: bit_mask_iff)
qed

theorem group_write_read:
  fixes p :: gpio and bits :: u32
  assumes hw: "gpio_hw_ok hw" and "width + offset \<le> 16" and n: "n < 16"
  defines "p' \<equiv> palWriteGroup hw (PAL_GROUP_MASK width) offset bits p"
  shows "(bit (ODR p') n \<longleftrightarrow> (if offset \<le> n \<and> n < offset + width then bit bits (n - offset) else bit (ODR p) n)) \<and>
    (bit (palReadGroup (ODR p') (PAL_GROUP_MASK width) offset) n \<longleftrightarrow> n < width \<and> bit bits n)"
proof -
  let ?m = "PAL_GROUP_MASK width"
  let ?v = "push_bit (16 + offset) (NOT bits AND ?m) OR push_bit offset (bits AND ?m)"
  have w: "width < 32" using assms(2) by linarith
  have bv: "bit ?v j \<longleftrightarrow> j < 32 \<and> (16 + offset \<le> j \<and> j - (16 + offset) < width \<and> \<not> bit bits (j - (16 + offset)) \<or>
      offset \<le> j \<and> j - offset < width \<and> bit bits (j - offset))" for j
    unfolding bit_or_iff bit_push_bit_iff bit_and_iff bit_not_iff bit_group_mask [OF w] by auto
  have at: "bit (ODR p') j \<longleftrightarrow> (if offset \<le> j \<and> j < offset + width then bit bits (j - offset) else bit (ODR p) j)"
    if j: "j < 16" for j
  proof -
    have "bit (ODR p') j \<longleftrightarrow> bit ?v j \<or> bit (ODR p) j \<and> \<not> bit ?v (j + 16)"
      using hw j unfolding gpio_hw_ok_def p'_def palWriteGroup_def write_BSRR_def by simp
    then show ?thesis unfolding bv using j assms(2) by auto
  qed
  have "bit (palReadGroup (ODR p') ?m offset) n \<longleftrightarrow> n < width \<and> bit (ODR p') (offset + n)"
    unfolding palReadGroup_def bit_and_iff bit_group_mask [OF w] by (auto simp: bit_drop_bit_eq palReadPort_def)
  then show ?thesis using at [OF n] at [of "offset + n"] assms(2) by auto
qed

text \<open>Lines: a port address with its low bits clear and a pad number come back out of their line.\<close>

lemma line_parts:
  assumes "port AND 0xF = 0" and "pad AND 0xF = pad"
  shows "PAL_PORT (PAL_LINE port pad) = port" "PAL_PAD (PAL_LINE port pad) = pad"
proof -
  have m: "(0xFFFFFFF0 :: u32) = NOT 0xF" by simp
  have lo: "bit port j \<Longrightarrow> \<not> j < 4" for j
  proof -
    assume "bit port j"
    moreover have "\<not> bit (port AND 0xF) j" using assms(1) by simp
    ultimately show ?thesis unfolding bit_and_iff bit_0xF by blast
  qed
  have hi: "bit pad j \<Longrightarrow> j < 4" for j
  proof -
    assume "bit pad j"
    then have "bit (pad AND 0xF) j" using assms(2) by simp
    then show ?thesis unfolding bit_and_iff bit_0xF by blast
  qed
  show "PAL_PORT (PAL_LINE port pad) = port"
    by (rule bit_word_eqI) (unfold PAL_PORT_def PAL_LINE_def m bit_and_iff bit_or_iff bit_not_iff bit_0xF, auto dest: lo hi)
  show "PAL_PAD (PAL_LINE port pad) = pad"
    by (rule bit_word_eqI) (unfold PAL_PAD_def PAL_LINE_def bit_and_iff bit_or_iff bit_0xF, auto dest: lo hi)
qed

section \<open>Witnesses\<close>

text \<open>A port that does what the manual says.\<close>

definition ideal_hw :: gpio_hw where
  "ideal_hw = \<lparr>BSRR = (\<lambda>odr v. (odr AND NOT (drop_bit 16 v)) OR v), BRR = (\<lambda>odr v. odr AND NOT v)\<rparr>"

lemma ideal_hw_ok: "gpio_hw_ok ideal_hw"
  by (auto simp: gpio_hw_ok_def ideal_hw_def bit_simps add.commute)

lemma setgroupmode_correct_witness:
  "\<exists>p'. lld_setgroupmode ideal_hw 0x100 MODE_OUTPUT_PUSHPULL \<lparr>CRL = 0x38888888, CRH = 0x88888834, ODR = 0\<rparr> = Some p' \<and>
    pad_field p' 8 = 3"
proof -
  have "bit (0x100 :: u32) 8" by simp
  then show ?thesis
    using setgroupmode_correct [OF ideal_hw_ok, of MODE_OUTPUT_PUSHPULL "0x100" "\<lparr>CRL = 0x38888888, CRH = 0x88888834, ODR = 0\<rparr>"]
    by (fastforce simp: cfgtab_def)
qed

lemma pads_refine_witness:
  "wire_on (palSetPad SCLK \<lparr>latch = (\<lambda>l. l = SDATA), mode = (\<lambda>l. if l = SDATA then PAL_MODE_INPUT else PAL_MODE_OUTPUT_PUSHPULL), trace = []\<rparr>)
    (palSetPad_reg ideal_hw 9 (fst (pal_lld_init pal_default_config (\<lambda>_. \<lparr>CRL = 0, CRH = 0, ODR = 0\<rparr>) boot) GPIOB))"
proof -
  have "bit (0x100 :: u32) (pad_of SDATA)" by simp
  then show ?thesis
    using pads_refine [where idr = "0x100" and tgt = "\<lambda>_. True" and l = SCLK and md = PAL_MODE_INPUT,
        OF board_wire ideal_hw_ok] by simp
qed

lemma group_write_read_witness:
  "bit (palReadGroup (ODR (palWriteGroup ideal_hw (PAL_GROUP_MASK 4) 12 0x5 \<lparr>CRL = 0, CRH = 0, ODR = 0\<rparr>)) (PAL_GROUP_MASK 4) 12) 2"
  using group_write_read [OF ideal_hw_ok, of 4 12 2 "0x5" "\<lparr>CRL = 0, CRH = 0, ODR = 0\<rparr>"] by simp

end
