(* ===== verification/TimeMeasure.thy ===== *)
theory TimeMeasure
  imports Prelude
begin

text \<open>
  Time measurement (chtm.c, chtm.h) and the real time counter windows of chsys.c.  The 32-bit cycle
  counter is hardware; each reading of it is an argument.
\<close>

section \<open>Measurements\<close>

type_synonym u64 = "64 word"

record time_measurement =
  tm_best :: u32
  tm_worst :: u32
  tm_last :: u32
  tm_n :: u32
  tm_cumulative :: u64

definition tm_stop :: "u32 \<Rightarrow> u32 \<Rightarrow> time_measurement \<Rightarrow> time_measurement" where
  "tm_stop now offset t =
    (let t = t\<lparr>tm_n := tm_n t + 1\<rparr>;
         t = t\<lparr>tm_last := (now - tm_last t) - offset\<rparr>;
         t = t\<lparr>tm_cumulative := tm_cumulative t + ucast (tm_last t)\<rparr>;
         t = (if tm_last t > tm_worst t then t\<lparr>tm_worst := tm_last t\<rparr> else t)
     in if tm_last t < tm_best t then t\<lparr>tm_best := tm_last t\<rparr> else t)"

definition chTMObjectInit :: "time_measurement \<Rightarrow> time_measurement" where
  "chTMObjectInit t = t\<lparr>tm_best := - 1, tm_worst := 0, tm_last := 0, tm_n := 0, tm_cumulative := 0\<rparr>"

definition chTMStartMeasurementX :: "u32 \<Rightarrow> time_measurement \<Rightarrow> time_measurement" where
  "chTMStartMeasurementX now t = t\<lparr>tm_last := now\<rparr>"

definition chTMStopMeasurementX :: "u32 \<Rightarrow> u32 \<Rightarrow> time_measurement \<Rightarrow> time_measurement" where
  "chTMStopMeasurementX now offset t = tm_stop now offset t"

definition chTMChainMeasurementToX :: "u32 \<Rightarrow> time_measurement \<Rightarrow> time_measurement \<Rightarrow> time_measurement \<times> time_measurement" where
  "chTMChainMeasurementToX now t1 t2 =
    (let t2 = t2\<lparr>tm_last := now\<rparr> in (tm_stop (tm_last t2) 0 t1, t2))"

text \<open>The calibration: the offset is what an empty measurement takes.\<close>

definition tm_init :: "u32 \<Rightarrow> u32 \<Rightarrow> time_measurement \<Rightarrow> u32" where
  "tm_init c1 c2 t = tm_last (chTMStopMeasurementX c2 0 (chTMStartMeasurementX c1 (chTMObjectInit t)))"

section \<open>Counter windows\<close>

definition chSysIsCounterWithinX :: "u32 \<Rightarrow> u32 \<Rightarrow> u32 \<Rightarrow> bool" where
  "chSysIsCounterWithinX cnt start fin \<longleftrightarrow> cnt - start < fin - start"

text \<open>
  The polled delay: the counter is read again and again; the list holds the readings.  It ends with
  the readings that are left, or with None when they run out.
\<close>

fun polled_loop :: "u32 \<Rightarrow> u32 \<Rightarrow> u32 list \<Rightarrow> u32 list option" where
  "polled_loop start fin [] = None"
| "polled_loop start fin (c # cs) = (if chSysIsCounterWithinX c start fin then polled_loop start fin cs else Some cs)"

definition chSysPolledDelayX :: "u32 \<Rightarrow> u32 list \<Rightarrow> u32 list option" where
  "chSysPolledDelayX cycles cs =
    (case cs of [] \<Rightarrow> None | start # cs \<Rightarrow> polled_loop start (start + cycles) cs)"

section \<open>Statistics\<close>

text \<open>A series of measurements, each from a start to a stop reading.\<close>

fun series :: "u32 \<Rightarrow> (u32 \<times> u32) list \<Rightarrow> time_measurement \<Rightarrow> time_measurement" where
  "series offset [] t = t"
| "series offset ((a, b) # ms) t = series offset ms (chTMStopMeasurementX b offset (chTMStartMeasurementX a t))"

definition durations :: "u32 \<Rightarrow> (u32 \<times> u32) list \<Rightarrow> u32 list" where
  "durations offset ms = map (\<lambda>(a, b). b - a - offset) ms"

lemma tm_stop_eq:
  "tm_stop now offset t = (let d = now - tm_last t - offset in
    t\<lparr>tm_n := tm_n t + 1, tm_last := d, tm_cumulative := tm_cumulative t + ucast d,
      tm_worst := max (tm_worst t) d, tm_best := min (tm_best t) d\<rparr>)"
  by (auto simp: tm_stop_def Let_def max_def min_def not_less)

lemma series_eq:
  "tm_n (series offset ms t) = tm_n t + of_nat (length ms) \<and>
    tm_cumulative (series offset ms t) = tm_cumulative t + sum_list (map ucast (durations offset ms)) \<and>
    tm_worst (series offset ms t) = fold max (durations offset ms) (tm_worst t) \<and>
    tm_best (series offset ms t) = fold min (durations offset ms) (tm_best t) \<and>
    (ms \<noteq> [] \<longrightarrow> tm_last (series offset ms t) = last (durations offset ms))"
proof (induction offset ms t rule: series.induct)
  case (1 offset t)
  then show ?case by (simp add: durations_def)
next
  case (2 offset a b ms t)
  let ?t = "chTMStopMeasurementX b offset (chTMStartMeasurementX a t)"
  have f: "tm_n ?t = tm_n t + 1" "tm_cumulative ?t = tm_cumulative t + ucast (b - a - offset)"
    "tm_worst ?t = max (tm_worst t) (b - a - offset)" "tm_best ?t = min (tm_best t) (b - a - offset)"
    "tm_last ?t = b - a - offset"
    by (simp_all add: chTMStopMeasurementX_def chTMStartMeasurementX_def tm_stop_eq Let_def)
  show ?case using 2 f by (cases ms) (auto simp: durations_def max.commute min.commute)
qed

text \<open>
  After any series of measurements on a fresh object: the count, the sum (in 64 bits), and the least
  and greatest of the durations, which bound the last one.
\<close>

theorem measurement_statistics:
  fixes t :: time_measurement and offset :: u32
  assumes "ms \<noteq> []"
  defines "t' \<equiv> series offset ms (chTMObjectInit t)"
  shows "tm_n t' = of_nat (length ms) \<and> tm_cumulative t' = sum_list (map ucast (durations offset ms)) \<and>
    tm_worst t' = Max (set (durations offset ms)) \<and> tm_best t' = Min (set (durations offset ms)) \<and>
    tm_last t' = last (durations offset ms) \<and> tm_best t' \<le> tm_last t' \<and> tm_last t' \<le> tm_worst t'"
proof -
  let ?ds = "durations offset ms"
  note m = series_eq [of offset ms "chTMObjectInit t"]
  have ne: "?ds \<noteq> []" using assms by (simp add: durations_def)
  have "fold max ?ds 0 = Max (set (0 # ?ds))" by (simp only: Max.set_eq_fold)
  also have "\<dots> = Max (set ?ds)" using ne by (simp add: Max_insert)
  finally have mx: "tm_worst t' = Max (set ?ds)" using m by (simp add: t'_def chTMObjectInit_def)
  have "fold min ?ds (- 1) = Min (set (- 1 # ?ds))" by (simp only: Min.set_eq_fold)
  also have "\<dots> = Min (set ?ds)" using ne by (simp add: Min_insert min_absorb2 word_n1_ge)
  finally have mn: "tm_best t' = Min (set ?ds)" using m by (simp add: t'_def chTMObjectInit_def)
  have last: "tm_last t' = last ?ds" using m assms by (simp add: t'_def)
  have "last ?ds \<in> set ?ds" using ne by simp
  then show ?thesis using m mx mn last by (simp add: t'_def chTMObjectInit_def)
qed

text \<open>
  The polled delay ends at the first reading that has moved on by the wanted number of cycles from the
  start, counted across the wrap of the counter, and not before.
\<close>

theorem polled_delay_correct:
  "chSysPolledDelayX cycles (start # cs) = Some rest \<longleftrightarrow>
    (\<exists>ws c. cs = ws @ c # rest \<and> (\<forall>w \<in> set ws. w - start < cycles) \<and> cycles \<le> c - start)"
proof -
  have "polled_loop start (start + cycles) cs = Some rest \<longleftrightarrow>
      (\<exists>ws c. cs = ws @ c # rest \<and> (\<forall>w \<in> set ws. w - start < cycles) \<and> cycles \<le> c - start)"
  proof (induction cs)
    case Nil
    then show ?case by simp
  next
    case (Cons c cs)
    show ?case
    proof (cases "c - start < cycles")
      case True
      then show ?thesis using Cons by (auto simp: chSysIsCounterWithinX_def Cons_eq_append_conv)
    next
      case False
      then show ?thesis by (auto simp: chSysIsCounterWithinX_def Cons_eq_append_conv not_less)
    qed
  qed
  then show ?thesis by (simp add: chSysPolledDelayX_def)
qed

lemma measurement_statistics_witness:
  "tm_worst (series 2 [(10, 20), (0xFFFFFFFE, 3)]
    (chTMObjectInit \<lparr>tm_best = 0, tm_worst = 0, tm_last = 0, tm_n = 0, tm_cumulative = 0\<rparr>)) = 8"
  using measurement_statistics [of "[(10, 20), (0xFFFFFFFE, 3)]" 2
      "\<lparr>tm_best = 0, tm_worst = 0, tm_last = 0, tm_n = 0, tm_cumulative = 0\<rparr>"]
  by (simp add: durations_def)

end
