(* ===== verification/SysTimer.thy ===== *)
theory SysTimer
  imports System Serial
begin

text \<open>
  The system timer: the clock settings it depends on (mcuconf.h, stm32f10x hal_lld), the driver of the
  hardware timer (hal_st.c, TIMv1/hal_st_lld.c) over the registers of TIM2, and the timer interrupt,
  from the handler through the virtual timers and the wakeup of sleeping threads to the preemption at
  its end.
\<close>

section \<open>Clocks\<close>

definition STM32_HSICLK :: nat where "STM32_HSICLK = 8000000"
definition STM32_PLLMUL_VALUE :: nat where "STM32_PLLMUL_VALUE = 4"
definition STM32_PLLCLKIN :: nat where "STM32_PLLCLKIN = STM32_HSICLK div 2"
definition STM32_PLLCLKOUT :: nat where "STM32_PLLCLKOUT = STM32_PLLCLKIN * STM32_PLLMUL_VALUE"
definition STM32_SYSCLK :: nat where "STM32_SYSCLK = STM32_PLLCLKOUT"
definition STM32_HCLK :: nat where "STM32_HCLK = STM32_SYSCLK div 1"
definition STM32_PCLK1_hz :: nat where "STM32_PCLK1_hz = STM32_HCLK div 2"
definition STM32_PCLK2_hz :: nat where "STM32_PCLK2_hz = STM32_HCLK div 2"
definition STM32_TIMCLK1 :: nat where "STM32_TIMCLK1 = STM32_PCLK1_hz * 2"
definition CH_CFG_ST_FREQUENCY :: nat where "CH_CFG_ST_FREQUENCY = 1000"

lemmas clock_defs = STM32_HSICLK_def STM32_PLLMUL_VALUE_def STM32_PLLCLKIN_def STM32_PLLCLKOUT_def STM32_SYSCLK_def
  STM32_HCLK_def STM32_PCLK1_hz_def STM32_PCLK2_hz_def STM32_TIMCLK1_def CH_CFG_ST_FREQUENCY_def

section \<open>The system timer\<close>

abbreviation TIM2 :: u32 where "TIM2 \<equiv> 0x40000000"
abbreviation (input) TIM_CR1 :: "u32 \<Rightarrow> u32" where "TIM_CR1 t \<equiv> t"
abbreviation (input) TIM_CR2 :: "u32 \<Rightarrow> u32" where "TIM_CR2 t \<equiv> t + 0x04"
abbreviation (input) TIM_DIER :: "u32 \<Rightarrow> u32" where "TIM_DIER t \<equiv> t + 0x0C"
abbreviation (input) TIM_SR :: "u32 \<Rightarrow> u32" where "TIM_SR t \<equiv> t + 0x10"
abbreviation (input) TIM_EGR :: "u32 \<Rightarrow> u32" where "TIM_EGR t \<equiv> t + 0x14"
abbreviation (input) TIM_CCMR1 :: "u32 \<Rightarrow> u32" where "TIM_CCMR1 t \<equiv> t + 0x18"
abbreviation (input) TIM_PSC :: "u32 \<Rightarrow> u32" where "TIM_PSC t \<equiv> t + 0x28"
abbreviation (input) TIM_ARR :: "u32 \<Rightarrow> u32" where "TIM_ARR t \<equiv> t + 0x2C"
abbreviation (input) TIM_CCR0 :: "u32 \<Rightarrow> u32" where "TIM_CCR0 t \<equiv> t + 0x34"
abbreviation RCC_APB1ENR :: u32 where "RCC_APB1ENR \<equiv> 0x4002101C"
abbreviation DBGMCU_CR :: u32 where "DBGMCU_CR \<equiv> 0xE0042004"

definition rccEnableAPB1 :: "u32 \<Rightarrow> kernel \<Rightarrow> kernel" where
  "rccEnableAPB1 m k = reg_write RCC_APB1ENR (mmio k RCC_APB1ENR OR m) k"

definition st_lld_init :: "kernel \<Rightarrow> kernel" where
  "st_lld_init k =
    (let k = rccEnableAPB1 0x1 k;
         k = reg_write DBGMCU_CR (mmio k DBGMCU_CR OR 0x800) k;
         k = reg_write (TIM_PSC TIM2) (of_nat (STM32_TIMCLK1 div CH_CFG_ST_FREQUENCY - 1)) k;
         k = reg_write (TIM_ARR TIM2) 0xFFFF k;
         k = reg_write (TIM_CCMR1 TIM2) 0 k;
         k = reg_write (TIM_CCR0 TIM2) 0 k;
         k = reg_write (TIM_DIER TIM2) 0 k;
         k = reg_write (TIM_CR2 TIM2) 0 k;
         k = reg_write (TIM_EGR TIM2) 1 k;
         k = reg_write (TIM_CR1 TIM2) 1 k
     in nvicEnableVector 28 8 k)"

definition st_lld_start_alarm :: "systime \<Rightarrow> kernel \<Rightarrow> kernel" where
  "st_lld_start_alarm time k =
    (let k = reg_write (TIM_CCR0 TIM2) (ucast time) k;
         k = reg_write (TIM_SR TIM2) 0 k
     in reg_write (TIM_DIER TIM2) 2 k)"

definition st_lld_stop_alarm :: "kernel \<Rightarrow> kernel" where
  "st_lld_stop_alarm k = reg_write (TIM_DIER TIM2) 0 k"

definition st_lld_set_alarm :: "systime \<Rightarrow> kernel \<Rightarrow> kernel" where
  "st_lld_set_alarm time k = reg_write (TIM_CCR0 TIM2) (ucast time) k"

definition st_lld_get_alarm :: "kernel \<Rightarrow> systime" where
  "st_lld_get_alarm k = ucast (mmio k (TIM_CCR0 TIM2))"

definition st_lld_is_alarm_active :: "kernel \<Rightarrow> bool" where
  "st_lld_is_alarm_active k \<longleftrightarrow> mmio k (TIM_DIER TIM2) AND 2 \<noteq> 0"

definition stInit :: "kernel \<Rightarrow> kernel" where "stInit k = st_lld_init k"
definition stStartAlarm :: "systime \<Rightarrow> kernel \<Rightarrow> kernel" where "stStartAlarm t k = st_lld_start_alarm t k"
definition stStopAlarm :: "kernel \<Rightarrow> kernel" where "stStopAlarm k = st_lld_stop_alarm k"
definition stSetAlarm :: "systime \<Rightarrow> kernel \<Rightarrow> kernel" where "stSetAlarm t k = st_lld_set_alarm t k"
definition stGetAlarm :: "kernel \<Rightarrow> systime" where "stGetAlarm k = st_lld_get_alarm k"

text \<open>The timer interrupt; the status register is hardware.\<close>

definition chSysTimerHandlerI :: "(vtfn \<Rightarrow> kernel \<Rightarrow> kernel) \<Rightarrow> kernel \<Rightarrow> kernel option" where
  "chSysTimerHandlerI run k = chVTDoTickI run k"

definition st_handler :: "(vtfn \<Rightarrow> kernel \<Rightarrow> kernel) \<Rightarrow> u32 \<Rightarrow> kernel \<Rightarrow> kernel option" where
  "st_handler run sr k =
    (if sr AND 2 \<noteq> 0 then map_option port_irq_epilogue (chSysTimerHandlerI run (reg_write (TIM_SR TIM2) 0 k))
     else Some (port_irq_epilogue k))"


section \<open>The alarm registers\<close>

text \<open>The tick: the prescaler divides the timer clock to the configured frequency.\<close>

lemma tick_frequency:
  "(unat (mmio (stInit k) (TIM_PSC TIM2)) + 1) * CH_CFG_ST_FREQUENCY = STM32_TIMCLK1"
  by (simp add: stInit_def st_lld_init_def Let_def reg_write_def nvicEnableVector_def clock_defs rccEnableAPB1_def)

text \<open>The registers of the timer hold the alarm of the timer model.\<close>

definition alarm_regs :: "kernel \<Rightarrow> bool" where
  "alarm_regs k \<longleftrightarrow> (case alarm k of None \<Rightarrow> \<not> st_lld_is_alarm_active k
     | Some t \<Rightarrow> st_lld_is_alarm_active k \<and> st_lld_get_alarm k = t)"

lemma alarm_init: "alarm k = None \<Longrightarrow> alarm_regs (stInit k)"
  by (simp add: alarm_regs_def stInit_def st_lld_init_def st_lld_is_alarm_active_def Let_def reg_write_def
      nvicEnableVector_def rccEnableAPB1_def)

lemma systime_in_register [simp]: "ucast (ucast (t :: systime) :: u32) = t"
  by (simp add: unsigned_ucast_eq) (rule bit_word_eqI, auto simp: bit_take_bit_iff)

lemma alarm_start: "alarm_regs ((stStartAlarm t k)\<lparr>alarm := Some t\<rparr>)"
  by (simp add: alarm_regs_def stStartAlarm_def st_lld_start_alarm_def st_lld_is_alarm_active_def st_lld_get_alarm_def
      Let_def reg_write_def)

lemma alarm_set: "alarm_regs k \<Longrightarrow> alarm k \<noteq> None \<Longrightarrow> alarm_regs ((stSetAlarm t k)\<lparr>alarm := Some t\<rparr>)"
  by (auto simp: alarm_regs_def stSetAlarm_def st_lld_set_alarm_def st_lld_is_alarm_active_def st_lld_get_alarm_def reg_write_def)

lemma alarm_stop: "alarm_regs ((stStopAlarm k)\<lparr>alarm := None\<rparr>)"
  by (simp add: alarm_regs_def stStopAlarm_def st_lld_stop_alarm_def st_lld_is_alarm_active_def reg_write_def)

section \<open>The timer interrupt\<close>

text \<open>
  What an expired timer runs: the wakeup of a sleeping thread, or an application's callback \<open>cb\<close>.
\<close>

definition run_vt :: "(u32 \<Rightarrow> u32 \<Rightarrow> kernel \<Rightarrow> kernel) \<Rightarrow> vtfn \<Rightarrow> kernel \<Rightarrow> kernel" where
  "run_vt cb f k = (case f of Wakeup t \<Rightarrow> wakeup t k | Callback a b \<Rightarrow> cb a b k)"

text \<open>
  The armed timers are those of threads that sleep with a timeout or were woken before it, and of the
  threads in \<open>D\<close>: the running thread, before it disarms its timer in chSchGoSleepTimeoutS.
\<close>

definition sleepers :: "ptr set \<Rightarrow> kernel \<Rightarrow> bool" where
  "sleepers D k \<longleftrightarrow> (\<forall>v f. vfunc k v = Some f \<longrightarrow>
    (\<exists>t. v = StackVt t \<and> f = Wakeup t \<and> t \<noteq> NULL \<and> (timed (tstate k t) \<or> tstate k t = CH_STATE_READY \<or> t \<in> D)))"

text \<open>What the timers of a state keep when time has moved on to it.\<close>

definition timers_moved :: "kernel \<Rightarrow> kernel \<Rightarrow> bool" where
  "timers_moved k k' \<longleftrightarrow> stime k' = stime k \<and> vt_inv k' \<and>
    (\<exists>b. timeline k = due k @ map (\<lambda>(v, c). (v, b + c)) (timeline k') \<and> b + elapsed k' = elapsed k)"

text \<open>The threads whose timers are due are ready, with the timeout message if they slept; others keep their state.\<close>

definition woken :: "kernel \<Rightarrow> kernel \<Rightarrow> bool" where
  "woken k k' \<longleftrightarrow> (\<forall>t. if StackVt t \<in> fst ` set (due k)
    then tstate k' t = CH_STATE_READY \<and> (timed (tstate k t) \<longrightarrow> u (thd k' t) = MSG_TIMEOUT)
    else thd k' t = thd k t)"

definition alarm_ahead :: "kernel \<Rightarrow> bool" where
  "alarm_ahead k \<longleftrightarrow> vtl k = [] \<or> (\<exists>v c. hd (timeline k) = (v, c) \<and> elapsed k < c \<and>
    alarm k = Some (stime k + of_nat (max 2 (c - elapsed k))))"

lemma wakeup_timers [simp]:
  "vtl (wakeup t k) = vtl k" "vfunc (wakeup t k) = vfunc k" "lasttime (wakeup t k) = lasttime k"
  "stime (wakeup t k) = stime k" "alarm (wakeup t k) = alarm k" "current (wakeup t k) = current k"
  by (auto simp: wakeup_def Let_def queue_dequeue_def chSchReadyI_def queue_prio_insert_def set_u_def set_state_def upd_thd_def
      split: tstate.splits)

lemma wakeup_threads:
  assumes "timed (tstate k t) \<or> tstate k t = CH_STATE_READY"
  shows "x \<noteq> t \<Longrightarrow> thd (wakeup t k) x = thd k x"
    and "tstate (wakeup t k) t = CH_STATE_READY" and "timed (tstate k t) \<Longrightarrow> u (thd (wakeup t k) t) = MSG_TIMEOUT"
  using assms by (auto simp: wakeup_def Let_def timed_def split: tstate.splits)

text \<open>One due timer of the tick.\<close>

definition expire :: "ptr \<Rightarrow> systime \<Rightarrow> (vtref \<times> systime) list \<Rightarrow> kernel \<Rightarrow> kernel" where
  "expire t d r k = wakeup t (k\<lparr>lasttime := lasttime k + d, vtl := r, vfunc := (vfunc k)(StackVt t := None),
     alarm := (if r = [] then None else alarm k)\<rparr>)"

lemma expire_step:
  assumes s: "sys_ok kd idle X k" and i: "vt_inv k" and w: "sleepers {} k"
    and l: "vtl k = (v, d) # r" and d: "d \<le> stime k - lasttime k"
  obtains t where "v = StackVt t" "vfunc k v = Some (Wakeup t)" "timed (tstate k t) \<or> tstate k t = CH_STATE_READY"
    and "sys_ok kd idle X (expire t d r k)" "vt_inv (expire t d r k)" "sleepers {} (expire t d r k)"
    and "StackVt t \<notin> fst ` set (due (expire t d r k))"
    and "\<And>x. x \<noteq> t \<Longrightarrow> thd (expire t d r k) x = thd k x" "tstate (expire t d r k) t = CH_STATE_READY"
    and "timed (tstate k t) \<Longrightarrow> u (thd (expire t d r k) t) = MSG_TIMEOUT"
proof -
  obtain f where f: "vfunc k v = Some f" using i l by (force simp: vt_inv_def)
  then obtain t where t: "v = StackVt t" "f = Wakeup t" "t \<noteq> NULL" "timed (tstate k t) \<or> tstate k t = CH_STATE_READY"
    using w unfolding sleepers_def by blast
  let ?k = "k\<lparr>lasttime := lasttime k + d, vtl := r, vfunc := (vfunc k)(StackVt t := None), alarm := (if r = [] then None else alarm k)\<rparr>"
  have ts: "timed (tstate ?k t) \<or> tstate ?k t = CH_STATE_READY" using t(4) by simp
  have "sys_ok kd idle X ?k" using s sys_cong [of ?k k kd idle X] by simp
  then have ok: "sys_ok kd idle X (expire t d r k)" unfolding expire_def by (rule sys_wakeup [OF _ ts t(3)])
  have dist: "v \<notin> fst ` set r" using i l by (auto simp: vt_inv_def)
  have inv: "vt_inv (expire t d r k)" using i l dist t(1) by (auto simp: vt_inv_def expire_def)
  note th = wakeup_threads [OF ts]
  have sl: "sleepers {} (expire t d r k)"
    using w th(1) unfolding sleepers_def expire_def by (auto split: if_splits) metis+
  have "set (due (expire t d r k)) \<subseteq> set (timeline (expire t d r k))" unfolding due_def by (blast dest: set_takeWhileD)
  moreover have "fst ` set (timeline (expire t d r k)) = fst ` set r"
    unfolding timeline_def expire_def by (simp flip: set_map)
  ultimately have nd: "StackVt t \<notin> fst ` set (due (expire t d r k))" using dist t(1) by blast
  show thesis
    by (rule that [of t]) (use t f ok inv sl nd th in \<open>simp_all add: expire_def\<close>)
qed

lemma timers_moved_step:
  assumes "timers_moved k1 k'" and "elapsed k1 + unat d = elapsed k"
    and "timeline k = (v, unat d) # map (\<lambda>(w, c). (w, unat d + c)) (timeline k1)"
    and "due k = (v, unat d) # map (\<lambda>(w, c). (w, unat d + c)) (due k1)" and "stime k1 = stime k"
  shows "timers_moved k k'"
proof -
  obtain b where b: "timeline k1 = due k1 @ map (\<lambda>(v, c). (v, b + c)) (timeline k')" "b + elapsed k' = elapsed k1"
    using assms(1) by (auto simp: timers_moved_def)
  have "timeline k = due k @ map (\<lambda>(v, c). (v, (unat d + b) + c)) (timeline k') \<and> (unat d + b) + elapsed k' = elapsed k"
    unfolding assms(3,4) b(1) using b(2) assms(2) by (simp add: o_def split_beta)
  then show ?thesis using assms(1,5) unfolding timers_moved_def by metis
qed

lemma woken_step:
  assumes w: "woken k1 k'" and due: "due k = (v, unat d) # map (\<lambda>(w, c). (w, unat d + c)) (due k1)" and v: "v = StackVt t"
    and nd: "StackVt t \<notin> fst ` set (due k1)"
    and th: "\<And>x. x \<noteq> t \<Longrightarrow> thd k1 x = thd k x" "tstate k1 t = CH_STATE_READY"
    "timed (tstate k t) \<Longrightarrow> u (thd k1 t) = MSG_TIMEOUT"
  shows "woken k k'"
  unfolding woken_def
proof (intro allI)
  fix x
  have ds: "fst ` set (due k) = insert (StackVt t) (fst ` set (due k1))" unfolding due v by force
  show "if StackVt x \<in> fst ` set (due k) then tstate k' x = CH_STATE_READY \<and> (timed (tstate k x) \<longrightarrow> u (thd k' x) = MSG_TIMEOUT)
    else thd k' x = thd k x"
    using w nd th unfolding woken_def ds by (cases "x = t") (auto dest: spec [of _ x])
qed

lemma tick_wakes:
  "sys_ok kd idle X k \<Longrightarrow> vt_inv k \<Longrightarrow> elapsed k < 65535 \<Longrightarrow> sleepers {} k \<Longrightarrow>
    \<exists>k'. chVTDoTickI (run_vt cb) k = Some k' \<and> sys_ok kd idle X k' \<and> sleepers {} k' \<and> current k' = current k \<and>
      timers_moved k k' \<and> woken k k' \<and> alarm_ahead k'"
proof (induction "length (vtl k)" arbitrary: k rule: less_induct)
  case less
  note s = less.prems(1) and i = less.prems(2) and w = less.prems(4)
  show ?case
  proof (cases "vtl k = [] \<or> \<not> snd (hd (vtl k)) \<le> stime k - lasttime k")
    case True
    note due = due_none [OF True]
    have keep: "sys_ok kd idle X (k\<lparr>alarm := a\<rparr>) \<and> sleepers {} (k\<lparr>alarm := a\<rparr>) \<and> timers_moved k (k\<lparr>alarm := a\<rparr>) \<and> woken k (k\<lparr>alarm := a\<rparr>)" for a
    proof -
      have "timeline k = due k @ map (\<lambda>(v, c). (v, 0 + c)) (timeline (k\<lparr>alarm := a\<rparr>)) \<and> 0 + elapsed (k\<lparr>alarm := a\<rparr>) = elapsed k"
        using due by (simp add: timeline_def elapsed_def)
      then have "timers_moved k (k\<lparr>alarm := a\<rparr>)" using i unfolding timers_moved_def by (auto simp: vt_inv_def)
      then show ?thesis using s w due sys_cong [of "k\<lparr>alarm := a\<rparr>" k kd idle X] by (simp add: sleepers_def woken_def)
    qed
    obtain a where "chVTDoTickI (run_vt cb) k = Some (k\<lparr>alarm := a\<rparr>)"
      and a: "vtl k = [] \<or> (\<exists>v c. hd (timeline k) = (v, c) \<and> elapsed k < c \<and> a = Some (stime k + of_nat (max 2 (c - elapsed k))))"
      using tick_rest [OF less.prems(3) True, of "run_vt cb"] by blast
    moreover have "alarm_ahead (k\<lparr>alarm := a\<rparr>)" using a by (simp add: alarm_ahead_def timeline_def elapsed_def)
    ultimately show ?thesis using keep [of a] by auto
  next
    case False
    then obtain v d r where l: "vtl k = (v, d) # r" and d: "d \<le> stime k - lasttime k" by (cases "vtl k") auto
    obtain t where t: "v = StackVt t" "vfunc k v = Some (Wakeup t)" "timed (tstate k t) \<or> tstate k t = CH_STATE_READY"
      and e: "sys_ok kd idle X (expire t d r k)" "vt_inv (expire t d r k)" "sleepers {} (expire t d r k)"
      and nd: "StackVt t \<notin> fst ` set (due (expire t d r k))"
      and th: "\<And>x. x \<noteq> t \<Longrightarrow> thd (expire t d r k) x = thd k x" "tstate (expire t d r k) t = CH_STATE_READY"
      "timed (tstate k t) \<Longrightarrow> u (thd (expire t d r k) t) = MSG_TIMEOUT"
      by (rule expire_step [OF s i w l d]) (rule that; assumption?; blast)
    let ?k = "expire t d r k"
    have same: "vtl ?k = r" "lasttime ?k = lasttime k + d" "stime ?k = stime k" "current ?k = current k"
      by (simp_all add: expire_def)
    note ds = due_step [OF l d same(1-3)]
    have len: "length (vtl ?k) < length (vtl k)" using l same(1) by simp
    have el: "elapsed ?k < 65535" using ds(1) less.prems(3) by simp
    obtain k' where k': "chVTDoTickI (run_vt cb) ?k = Some k'" "sys_ok kd idle X k'" "sleepers {} k'" "current k' = current ?k"
      "timers_moved ?k k'" "woken ?k k'" "alarm_ahead k'"
      using less.hyps [OF len e(1,2) el e(3)] by blast
    have "chVTDoTickI (run_vt cb) k = chVTDoTickI (run_vt cb) ?k"
      using l d t by (simp add: chVTDoTickI.simps [of "run_vt cb" k] chVTGetSystemTimeX_def run_vt_def expire_def)
    moreover have "timers_moved k k'" by (rule timers_moved_step [OF k'(5) ds same(3)])
    moreover have "woken k k'" using k'(6) nd th by (rule woken_step [OF _ ds(3) t(1)])
    ultimately show ?thesis using k'(1-4,7) same(4) by simp
  qed
qed

text \<open>The epilogue switches between ready threads and the running one.\<close>

lemma reschedule_threads:
  assumes s: "sys_ok kd idle X k"
  shows "u (thd (chSchRescheduleS k) t) = u (thd k t) \<and>
    (tstate k t \<in> {CH_STATE_READY, CH_STATE_CURRENT} \<longrightarrow> tstate (chSchRescheduleS k) t \<in> {CH_STATE_READY, CH_STATE_CURRENT}) \<and>
    (tstate k t \<notin> {CH_STATE_READY, CH_STATE_CURRENT} \<longrightarrow> thd (chSchRescheduleS k) t = thd k t)"
  using current_state [OF sys_parts(3) [OF s], of t] ready_state [OF sys_parts(3) [OF s], of "hd (qs k RLIST)"]
  by (cases "qs k RLIST") (auto simp: chSchRescheduleS_def chSchDoRescheduleAhead_def take_first_def queue_fifo_remove_def
      chSchReadyAheadI_def Let_def chSchIsRescRequiredI_def firstprio_def NOPRIO_def)

lemma reschedule_timers [simp]:
  "vtl (chSchRescheduleS k) = vtl k" "vfunc (chSchRescheduleS k) = vfunc k" "lasttime (chSchRescheduleS k) = lasttime k"
  "stime (chSchRescheduleS k) = stime k" "alarm (chSchRescheduleS k) = alarm k"
  by (simp_all add: chSchRescheduleS_def chSchDoRescheduleAhead_def take_first_def queue_fifo_remove_def
      chSchReadyAheadI_def Let_def queue_prio_insert_def set_state_def upd_thd_def split_beta split: list.split)

lemma sleepers_reschedule:
  assumes s: "sys_ok kd idle X k" and w: "sleepers {} k"
  shows "sleepers {current (chSchRescheduleS k)} (chSchRescheduleS k)"
  unfolding sleepers_def
proof (intro allI impI)
  fix v f
  let ?k = "chSchRescheduleS k"
  assume "vfunc ?k v = Some f"
  then obtain t where t: "v = StackVt t" "f = Wakeup t" "t \<noteq> NULL" "timed (tstate k t) \<or> tstate k t = CH_STATE_READY"
    using w by (auto simp: sleepers_def)
  have "timed (tstate ?k t) \<or> tstate ?k t = CH_STATE_READY \<or> t = current ?k"
    using t(4) reschedule_threads [OF s, of t] current_state [OF sys_parts(3) [OF conjunct1 [OF sys_reschedule [OF s]]], of t]
    by (auto simp: timed_def)
  then show "\<exists>t. v = StackVt t \<and> f = Wakeup t \<and> t \<noteq> NULL \<and>
      (timed (tstate ?k t) \<or> tstate ?k t = CH_STATE_READY \<or> t \<in> {current ?k})" using t by blast
qed

text \<open>A thread that comes back from a sleep with timeout disarms its timer.\<close>

lemma resume_disarms:
  "sleepers {current k} k \<Longrightarrow> time \<noteq> TIME_INFINITE \<Longrightarrow> sleepers {} (snd (chSchGoSleepTimeoutS_resume time k))"
  unfolding sleepers_def
proof (intro allI impI)
  fix v f
  let ?k = "snd (chSchGoSleepTimeoutS_resume time k)"
  assume w: "\<forall>v f. vfunc k v = Some f \<longrightarrow> (\<exists>t. v = StackVt t \<and> f = Wakeup t \<and> t \<noteq> NULL \<and>
      (timed (tstate k t) \<or> tstate k t = CH_STATE_READY \<or> t \<in> {current k}))"
    and time: "time \<noteq> TIME_INFINITE" and v: "vfunc ?k v = Some f"
  have "vfunc k v = Some f" "v \<noteq> StackVt (current k)"
    using v time by (auto simp: chSchGoSleepTimeoutS_resume_def chVTIsArmedI_def Let_def split: if_splits)
  moreover have "thd ?k = thd k" by (simp add: chSchGoSleepTimeoutS_resume_def Let_def)
  ultimately show "\<exists>t. v = StackVt t \<and> f = Wakeup t \<and> t \<noteq> NULL \<and> (timed (tstate ?k t) \<or> tstate ?k t = CH_STATE_READY \<or> t \<in> {})"
    using w by fastforce
qed

text \<open>
  C17: The timer interrupt.  When every armed timer belongs to a thread that sleeps with a timeout or was
  woken before it, the handler returns; the threads whose deadlines have passed become ready, with the
  message MSG_TIMEOUT if they still slept, and no other thread but the one preempted changes; the other
  timers keep their deadlines, the alarm is set for the first of them at least two ticks ahead, and
  on return the invariant of the kernel holds and the thread of highest priority runs.
\<close>

theorem timer_interrupt_correct:
  assumes "sys_ok kd idle X k" and "vt_inv k" and "elapsed k < 65535" and "sleepers {} k" and "sr AND 2 \<noteq> 0"
  shows "\<exists>k'. st_handler (run_vt cb) sr k = Some k' \<and> sys_ok kd idle X k' \<and> highest k' \<and> sleepers {current k'} k' \<and>
    timers_moved k k' \<and> alarm_ahead k' \<and>
    (\<forall>t. if StackVt t \<in> fst ` set (due k)
      then tstate k' t \<in> {CH_STATE_READY, CH_STATE_CURRENT} \<and> (timed (tstate k t) \<longrightarrow> u (thd k' t) = MSG_TIMEOUT)
      else tstate k t \<notin> {CH_STATE_READY, CH_STATE_CURRENT} \<longrightarrow> thd k' t = thd k t)"
proof -
  let ?k0 = "reg_write (TIM_SR TIM2) 0 k"
  have f: "due ?k0 = due k" "timeline ?k0 = timeline k" "elapsed ?k0 = elapsed k" "stime ?k0 = stime k" "thd ?k0 = thd k"
    by (simp_all add: reg_write_def due_def timeline_def elapsed_def)
  have p: "sys_ok kd idle X ?k0" "vt_inv ?k0" "elapsed ?k0 < 65535" "sleepers {} ?k0"
    using assms sys_cong [of ?k0 k kd idle X] f by (simp_all add: reg_write_def vt_inv_def sleepers_def)
  obtain k1 where k1: "chVTDoTickI (run_vt cb) ?k0 = Some k1" "sys_ok kd idle X k1" "sleepers {} k1" "timers_moved ?k0 k1"
    "woken ?k0 k1" "alarm_ahead k1" using tick_wakes [OF p, of cb] by blast
  let ?k = "chSchRescheduleS k1"
  have h: "st_handler (run_vt cb) sr k = Some ?k"
    using k1(1) assms(5) by (simp add: st_handler_def chSysTimerHandlerI_def epilogue_reschedules)
  have g: "timeline ?k = timeline k1" "elapsed ?k = elapsed k1" by (simp_all add: timeline_def elapsed_def)
  note r = reschedule_threads [OF k1(2)]
  have "timers_moved k ?k" using k1(4) f g by (simp add: timers_moved_def vt_inv_def)
  moreover have "alarm_ahead ?k" using k1(6) g by (simp add: alarm_ahead_def)
  moreover have "sleepers {current ?k} ?k" by (rule sleepers_reschedule [OF k1(2,3)])
  moreover have "if StackVt t \<in> fst ` set (due k)
      then tstate ?k t \<in> {CH_STATE_READY, CH_STATE_CURRENT} \<and> (timed (tstate k t) \<longrightarrow> u (thd ?k t) = MSG_TIMEOUT)
      else tstate k t \<notin> {CH_STATE_READY, CH_STATE_CURRENT} \<longrightarrow> thd ?k t = thd k t" for t
    using k1(5) r [of t] unfolding woken_def f by (auto dest: spec [of _ t])
  ultimately show ?thesis using h sys_reschedule [OF k1(2)] by blast
qed

text \<open>The main thread sleeps for 500 ticks; the interrupt comes when they have passed.\<close>

definition asleep :: kernel where
  "asleep = (chThdSleep 500 boot)\<lparr>stime := 500\<rparr>"

lemma asleep_simps:
  "vtl asleep = [(StackVt 1, 500)]" "lasttime asleep = 0" "stime asleep = 500"
  "vfunc asleep = (\<lambda>_. None)(StackVt 1 := Some (Wakeup 1))" "tstate asleep 1 = CH_STATE_SLEEPING"
  by (simp_all add: asleep_def chThdSleep_def chThdSleepS_def chSchGoSleepTimeoutS_def TIME_INFINITE_def boot_simps
      chSchGoSleepS_def take_first_def queue_fifo_remove_def chVTDoSetI_def CH_CFG_ST_TIMEDELTA_def chVTGetSystemTimeX_def
      Let_def set_state_def upd_thd_def boot_def)

lemma timer_interrupt_correct_witness:
  "\<exists>k'. st_handler (run_vt (\<lambda>_ _. id)) 2 asleep = Some k' \<and> tstate k' 1 \<in> {CH_STATE_READY, CH_STATE_CURRENT} \<and>
    u (thd k' 1) = MSG_TIMEOUT \<and> highest k'"
proof -
  have "sys_ok sys_kind 2 {} (chThdSleep 500 boot)"
    using sys_thread_sleep [OF sys_ok_boot, of 500] by (simp add: chThdSleep_def boot_simps)
  then have s: "sys_ok sys_kind 2 {} asleep" using sys_cong [of asleep "chThdSleep 500 boot"] by (simp add: asleep_def)
  have i: "vt_inv asleep" by (auto simp: vt_inv_def asleep_simps)
  have e: "elapsed asleep = 500" by (simp add: elapsed_def asleep_simps)
  have w: "sleepers {} asleep" by (auto simp: sleepers_def asleep_simps timed_def)
  have d: "StackVt 1 \<in> fst ` set (due asleep)" by (simp add: due_def timeline_def e asleep_simps)
  have t: "timed (tstate asleep 1)" by (simp add: asleep_simps timed_def)
  have "elapsed asleep < 65535" "(2 :: u32) AND 2 \<noteq> 0" using e by simp_all
  from timer_interrupt_correct [OF s i this(1) w this(2), of "\<lambda>_ _. id"] show ?thesis using d t by metis
qed

section \<open>Time conversions\<close>

text \<open>The macros of chvt.h, in 32 bits and then truncated to the 16 bits of \<open>systime_t\<close>.\<close>

definition S2ST :: "u32 \<Rightarrow> systime" where
  "S2ST sec = ucast (sec * of_nat CH_CFG_ST_FREQUENCY)"

definition MS2ST :: "u32 \<Rightarrow> systime" where
  "MS2ST msec = ucast ((msec * of_nat CH_CFG_ST_FREQUENCY + 999) div 1000)"

definition US2ST :: "u32 \<Rightarrow> systime" where
  "US2ST usec = ucast ((usec * of_nat CH_CFG_ST_FREQUENCY + 999999) div 1000000)"

definition ST2S :: "systime \<Rightarrow> u32" where
  "ST2S n = (ucast n + of_nat CH_CFG_ST_FREQUENCY - 1) div of_nat CH_CFG_ST_FREQUENCY"

definition ST2MS :: "systime \<Rightarrow> u32" where
  "ST2MS n = (ucast n * 1000 + of_nat CH_CFG_ST_FREQUENCY - 1) div of_nat CH_CFG_ST_FREQUENCY"

definition ST2US :: "systime \<Rightarrow> u32" where
  "ST2US n = (ucast n * 1000000 + of_nat CH_CFG_ST_FREQUENCY - 1) div of_nat CH_CFG_ST_FREQUENCY"

definition chThdSleepSeconds :: "u32 \<Rightarrow> kernel \<Rightarrow> kernel" where "chThdSleepSeconds sec k = chThdSleep (S2ST sec) k"
definition chThdSleepMilliseconds_rt :: "u32 \<Rightarrow> kernel \<Rightarrow> kernel" where "chThdSleepMilliseconds_rt msec k = chThdSleep (MS2ST msec) k"
definition chThdSleepMicroseconds :: "u32 \<Rightarrow> kernel \<Rightarrow> kernel" where "chThdSleepMicroseconds usec k = chThdSleep (US2ST usec) k"

lemma unat_scaled:
  fixes x c d :: u32
  assumes "unat x * unat c + unat d < 2 ^ 32"
  shows "unat (x * c + d) = unat x * unat c + unat d"
  using assms by (simp add: unat_word_ariths)

lemma unat_ucast16: "unat (x :: u32) < 2 ^ 16 \<Longrightarrow> unat (ucast x :: systime) = unat x"
  by (simp add: unsigned_ucast_eq take_bit_nat_eq_self)

text \<open>
  C37: Up to what arguments the six conversions are exact, rounding upward: 65 seconds, 65535
  milliseconds and 4293967 microseconds to ticks; every tick count to seconds and to
  milliseconds; 4294 ticks to microseconds; and what the next larger arguments give (the product wraps in 32
  bits, or the result in the 16 bits of \<open>systime_t\<close>).  Converting ticks to milliseconds is the
  inverse of the conversion of milliseconds, and whole seconds come back as they were.
\<close>

theorem time_conversions_correct:
  fixes sec msec usec :: u32 and n m :: systime
  assumes "sec \<le> 65" and "msec \<le> 65535" and "usec \<le> 4293967" and "m \<le> 4294"
  shows "unat (S2ST sec) = 1000 * unat sec \<and> unat (MS2ST msec) = unat msec \<and> unat (US2ST usec) = (unat usec + 999) div 1000 \<and>
    unat (ST2S n) = (unat n + 999) div 1000 \<and> unat (ST2MS n) = unat n \<and> unat (ST2US m) = 1000 * unat m \<and>
    ST2S (S2ST sec) = sec \<and> ST2MS (MS2ST msec) = msec \<and> MS2ST (ST2MS n) = n \<and>
    S2ST 66 = 464 \<and> MS2ST 65536 = 0 \<and> US2ST 4294000 = 0 \<and> ST2US 4295 = 33"
proof -
  have f: "(of_nat CH_CFG_ST_FREQUENCY :: u32) = 1000" by (simp add: CH_CFG_ST_FREQUENCY_def)
  have b: "unat sec \<le> 65" "unat msec \<le> 65535" "unat usec \<le> 4293967" "unat m \<le> 4294"
    using assms by (simp_all add: word_le_nat_alt)
  have s: "unat (sec * 1000) = 1000 * unat sec" using unat_scaled [of sec 1000 0] b by simp
  have ms: "unat ((x * 1000 + 999) div 1000) = unat x" if "unat x \<le> 65535" for x :: u32
    using unat_scaled [of x 1000 999] that by (simp add: unat_div)
  have us: "unat ((usec * 1000 + 999999) div 1000000) = (unat usec + 999) div 1000"
    using unat_scaled [of usec 1000 999999] b by (simp add: unat_div)
  have S: "unat (S2ST sec) = 1000 * unat sec" using s b by (simp add: S2ST_def f unat_ucast16)
  have M: "unat (MS2ST x) = unat x" if "unat x \<le> 65535" for x using ms [OF that] that by (simp add: MS2ST_def f unat_ucast16)
  have U: "unat (US2ST usec) = (unat usec + 999) div 1000" using us b by (simp add: US2ST_def f unat_ucast16)
  have l: "unat y < 65536" for y :: systime using unsigned_less [of y] by simp
  have y: "unat (ucast y :: u32) = unat y" for y :: systime
    using l [of y] by (simp add: unsigned_ucast_eq take_bit_nat_eq_self)
  have T: "unat (ST2MS y) = unat y" for y :: systime
    using ms [of "ucast y"] y [of y] l [of y] by (simp add: ST2MS_def f add.commute)
  have C: "unat (ST2S y) = (unat y + 999) div 1000" for y :: systime
  proof -
    have "unat (ucast y + (999 :: u32)) = unat y + 999" using y [of y] l [of y] by (simp add: unat_word_ariths)
    then have "unat ((ucast y + (999 :: u32)) div 1000) = (unat y + 999) div 1000" by (simp add: unat_div)
    moreover have "ucast y + 1000 - 1 = ucast y + (999 :: u32)" by simp
    ultimately show ?thesis unfolding ST2S_def f by metis
  qed
  have V: "unat (ST2US m) = 1000 * unat m"
  proof -
    have "unat (ucast m * 1000000 + (999 :: u32)) = unat m * 1000000 + 999"
      using unat_scaled [of "ucast m" 1000000 999] y [of m] b(4) by simp
    then have "unat ((ucast m * 1000000 + (999 :: u32)) div 1000) = (unat m * 1000000 + 999) div 1000" by (simp add: unat_div)
    moreover have "ucast m * 1000000 + 1000 - 1 = ucast m * 1000000 + (999 :: u32)" by simp
    ultimately have "unat (ST2US m) = (unat m * 1000000 + 999) div 1000" unfolding ST2US_def f by metis
    then show ?thesis by simp
  qed
  have "unat (ST2MS (MS2ST msec)) = unat msec" using T M b(2) by simp
  then have "ST2MS (MS2ST msec) = msec" by (simp only: word_unat_eq_iff)
  moreover have "unat (ST2S (S2ST sec)) = unat sec" using C S by simp
  then have "ST2S (S2ST sec) = sec" by (simp only: word_unat_eq_iff)
  moreover have "unat (ST2MS n) \<le> 65535" using T [of n] l [of n] by simp
  then have "MS2ST (ST2MS n) = n" using M [of "ST2MS n"] T [of n] by (simp only: word_unat_eq_iff)
  moreover have "S2ST 66 = 464" "MS2ST 65536 = 0" "US2ST 4294000 = 0" "ST2US 4295 = 33"
    by (simp_all add: S2ST_def MS2ST_def US2ST_def ST2US_def f)
  ultimately show ?thesis using S M b(2) U T C V by simp
qed

lemma time_conversions_correct_witness:
  "unat (S2ST 65) = 65000 \<and> unat (MS2ST 500) = 500 \<and> unat (US2ST 1001) = 2 \<and>
    unat (ST2S 1001) = 2 \<and> unat (ST2US 4294) = 4294000"
  using time_conversions_correct [of 65 500 1001 4294 1001] by simp

end
