(* ===== verification/Startup.thy ===== *)
theory Startup
  imports SysTimer SerialLink Pal MemCore Heap TimeMeasure
begin

text \<open>
  Start-up: the low level initialisation (hal.c, STM32F1xx/hal_lld.c, stm32_rcc.h), that of the kernel
  (chsys.c, chcore_v7m.h), what \<open>main\<close> (hssp/main.c) does before and after its command loop, and the blinker
  thread.  The state of the machine is the kernel with the control registers, the ports, the serial
  driver, the allocators and the calibration of the time measurement; the addresses of static
  objects, which the linker chooses, are the argument \<open>layout\<close>.
\<close>

section \<open>Low level initialisation\<close>

abbreviation RCC_APB2RSTR :: u32 where "RCC_APB2RSTR \<equiv> 0x4002100C"
abbreviation RCC_APB1RSTR :: u32 where "RCC_APB1RSTR \<equiv> 0x40021010"
abbreviation PWR_CR :: u32 where "PWR_CR \<equiv> 0x40007000"

definition rccResetAPB1 :: "u32 \<Rightarrow> kernel \<Rightarrow> kernel" where
  "rccResetAPB1 m k = reg_write RCC_APB1RSTR 0 (reg_write RCC_APB1RSTR (mmio k RCC_APB1RSTR OR m) k)"

definition rccResetAPB2 :: "u32 \<Rightarrow> kernel \<Rightarrow> kernel" where
  "rccResetAPB2 m k = reg_write RCC_APB2RSTR 0 (reg_write RCC_APB2RSTR (mmio k RCC_APB2RSTR OR m) k)"

definition hal_lld_backup_domain_init :: "kernel \<Rightarrow> kernel" where
  "hal_lld_backup_domain_init k = reg_write PWR_CR (mmio k PWR_CR OR 0x100) k"

definition hal_lld_init :: "kernel \<Rightarrow> kernel" where
  "hal_lld_init k =
    (let k = rccResetAPB1 0xFFFFFFFF k;
         k = rccResetAPB2 0xFFFFFFFF k;
         k = rccEnableAPB1 0x10000000 k;
         k = rccEnableAPB1 0x08000000 k
     in hal_lld_backup_domain_init k)"

record machine =
  m_kernel :: kernel
  m_ports :: "u32 \<Rightarrow> gpio"
  m_sd1 :: serial
  m_core :: memcore
  m_heap :: hmem
  m_tm_offset :: u32

record layout =
  l_mainthread :: ptr
  l_idle_wbase :: ptr
  l_idle_wend :: ptr
  l_waThread1 :: ptr
  l_waThread1_size :: u32
  l_thread_size :: u32
  l_sd1_in :: ptr
  l_sd1_out :: ptr
  l_heapp :: nat
  l_heap_base :: u32
  l_heap_end :: u32

definition halInit :: "layout \<Rightarrow> u8 list \<Rightarrow> u8 list \<Rightarrow> machine \<Rightarrow> machine" where
  "halInit ly ib ob m =
    (let k = hal_lld_init (m_kernel m);
         (ps, k) = pal_lld_init pal_default_config (m_ports m) k;
         (sd, k) = sd_lld_init ib ob (l_sd1_in ly) (l_sd1_out ly) (m_sd1 m) k;
         k = stInit k
     in m\<lparr>m_kernel := k, m_ports := ps, m_sd1 := sd\<rparr>)"

section \<open>Initialisation of the kernel\<close>

abbreviation SCB_AIRCR :: u32 where "SCB_AIRCR \<equiv> 0xE000ED0C"
abbreviation SCB_SHP :: u32 where "SCB_SHP \<equiv> 0xE000ED18"
abbreviation DEMCR :: u32 where "DEMCR \<equiv> 0xE000EDFC"
abbreviation DWT_CTRL :: u32 where "DWT_CTRL \<equiv> 0xE0001000"

text \<open>
  The intrinsics of CMSIS: the priority grouping field of AIRCR is written with the key, a system
  handler priority in the upper bits of its byte.
\<close>

definition NVIC_SetPriorityGrouping :: "u32 \<Rightarrow> kernel \<Rightarrow> kernel" where
  "NVIC_SetPriorityGrouping g k =
    reg_write SCB_AIRCR ((mmio k SCB_AIRCR AND NOT (0xFFFF0000 OR 0x700)) OR push_bit 16 0x5FA OR push_bit 8 (g AND 7)) k"

definition NVIC_SetPriority_system :: "u32 \<Rightarrow> u32 \<Rightarrow> kernel \<Rightarrow> kernel" where
  "NVIC_SetPriority_system shp p k = reg_write (SCB_SHP + shp) (push_bit 4 p AND 0xFF) k"

definition port_init :: "kernel \<Rightarrow> kernel" where
  "port_init k =
    (let k = NVIC_SetPriorityGrouping 3 k;
         k = reg_write DEMCR (mmio k DEMCR OR 0x01000000) k;
         k = reg_write DWT_CTRL (mmio k DWT_CTRL OR 1) k;
         k = NVIC_SetPriority_system 7 1 k
     in NVIC_SetPriority_system 10 2 k)"

definition idle_descriptor :: "layout \<Rightarrow> thread_descriptor" where
  "idle_descriptor ly =
    \<lparr>td_name = ''idle'', td_wbase = l_idle_wbase ly, td_wend = l_idle_wend ly, td_prio = IDLEPRIO\<rparr>"

text \<open>
  \<open>c1\<close> and \<open>c2\<close> are the readings of the cycle counter in the calibration of the time measurement,
  \<open>tm\<close> the uninitialised local object it is made on.  Enabling the interrupts is not visible.
\<close>

definition chSysInit :: "layout \<Rightarrow> u32 \<Rightarrow> u32 \<Rightarrow> time_measurement \<Rightarrow> machine \<Rightarrow> machine" where
  "chSysInit ly c1 c2 tm m =
    (let k = scheduler_init (m_kernel m);
         k = vt_init k;
         off = tm_init c1 c2 tm;
         core = core_init (l_heap_base ly) (l_heap_end ly);
         (hm, k) = heap_init (l_heapp ly) (m_heap m, k);
         k = thread_init (l_mainthread ly) ''main'' NORMALPRIO k;
         k = k\<lparr>current := l_mainthread ly\<rparr>;
         k = upd_thd (current k) (\<lambda>t. t\<lparr>wabase := NULL\<rparr>) k;
         k = set_state (current k) CH_STATE_CURRENT k;
         k = port_init k;
         (_, k) = chThdCreate (l_thread_size ly) (idle_descriptor ly) k
     in m\<lparr>m_kernel := k, m_core := core, m_heap := hm, m_tm_offset := off\<rparr>)"

section \<open>The application\<close>

abbreviation GPIOA_LED_RED :: nat where "GPIOA_LED_RED \<equiv> 6"

text \<open>\<open>main\<close> up to its command loop.\<close>

definition main_start ::
  "layout \<Rightarrow> u8 list \<Rightarrow> u8 list \<Rightarrow> 'h usart_io \<Rightarrow> u32 \<Rightarrow> u32 \<Rightarrow> time_measurement \<Rightarrow> machine \<Rightarrow> 'h \<Rightarrow> machine \<times> 'h" where
  "main_start ly ib ob io c1 c2 tm m h =
    (let m = halInit ly ib ob m;
         m = chSysInit ly c1 c2 tm m;
         (sd, k, h) = sdStart io None (m_sd1 m) (m_kernel m) h;
         (_, k) = chThdCreateStatic (l_thread_size ly) (l_waThread1 ly) (l_waThread1_size ly) NORMALPRIO k
     in (m\<lparr>m_sd1 := sd, m_kernel := k\<rparr>, h))"

definition main_of :: "layout \<Rightarrow> ptr" where "main_of ly = l_mainthread ly"
definition idle_of :: "layout \<Rightarrow> ptr" where "idle_of ly = l_idle_wend ly - l_thread_size ly"
definition blinker_of :: "layout \<Rightarrow> ptr" where "blinker_of ly = l_waThread1 ly + l_waThread1_size ly - l_thread_size ly"

section \<open>The state after start-up\<close>

text \<open>Before start-up no object is in use: the static data are zero.  The contents of thread structures do not matter.\<close>

definition cold :: "kernel \<Rightarrow> bool" where
  "cold k \<longleftrightarrow> qs k = (\<lambda>_. []) \<and> mtx_owner k = (\<lambda>_. NULL) \<and> sem_cnt k = (\<lambda>_. 0) \<and>
    vfunc k = (\<lambda>_. None) \<and> alarm k = None \<and> evt_src k = (\<lambda>_. []) \<and> refvar k = (\<lambda>_. NULL)"

definition layout_ok :: "layout \<Rightarrow> bool" where
  "layout_ok ly \<longleftrightarrow> distinct [NULL, main_of ly, idle_of ly, blinker_of ly] \<and> l_sd1_in ly \<noteq> l_sd1_out ly"

text \<open>What the register writes leave alone.\<close>

lemma reg_write_fields [simp]:
  "qs (reg_write a v k) = qs k" "thd (reg_write a v k) = thd k" "current (reg_write a v k) = current k"
  "mtx_owner (reg_write a v k) = mtx_owner k" "sem_cnt (reg_write a v k) = sem_cnt k" "vfunc (reg_write a v k) = vfunc k"
  "alarm (reg_write a v k) = alarm k" "evt_src (reg_write a v k) = evt_src k" "refvar (reg_write a v k) = refvar k"
  "vtl (reg_write a v k) = vtl k" "registry (reg_write a v k) = registry k" "lasttime (reg_write a v k) = lasttime k"
  "mmio (reg_write a v k) = (mmio k)(a := v)"
  by (simp_all add: reg_write_def)

lemma cold_reg_write [simp]: "cold (reg_write a v k) = cold k" by (simp add: cold_def)

lemma cold_halInit:
  "cold (m_kernel m) \<Longrightarrow> cold (m_kernel (halInit ly ib ob m))"
  by (auto simp: halInit_def hal_lld_init_def rccResetAPB1_def rccResetAPB2_def rccEnableAPB1_def hal_lld_backup_domain_init_def
      pal_lld_init_def rccEnableAPB2_def sd_lld_init_def sdObjectInit_def iqObjectInit_def oqObjectInit_def chEvtObjectInit_def
      stInit_def st_lld_init_def nvicEnableVector_def Let_def split_beta cold_def queue_init_def)

text \<open>The kernel in its first state: the running thread and the ready ones, each as it was created.\<close>

definition made :: "tprio \<Rightarrow> tstate \<Rightarrow> thread \<Rightarrow> bool" where
  "made p st t \<longleftrightarrow> prio t = p \<and> realprio t = p \<and> state t = st \<and> mtxlist t = [] \<and> waiting t = []"

definition started :: "kernel \<Rightarrow> ptr \<Rightarrow> (ptr \<times> tprio) list \<Rightarrow> bool" where
  "started k c rs \<longleftrightarrow> qs k = (\<lambda>_. [])(RLIST := map fst rs) \<and> current k = c \<and> made NORMALPRIO CH_STATE_CURRENT (thd k c) \<and>
    (\<forall>(t, p) \<in> set rs. made p CH_STATE_READY (thd k t)) \<and>
    mtx_owner k = (\<lambda>_. NULL) \<and> sem_cnt k = (\<lambda>_. 0) \<and> vfunc k = (\<lambda>_. None) \<and> alarm k = None \<and> vtl k = [] \<and>
    lasttime k = 0 \<and> evt_src k = (\<lambda>_. [])"

lemma started_reg_write [simp]: "started (reg_write a v k) c rs = started k c rs" by (simp add: started_def)

text \<open>Creating a thread of a priority above those of the ready threads and not above that of \<open>main\<close>.\<close>

lemma started_create:
  assumes s: "started k c rs" and t: "t \<noteq> c" "t \<notin> fst ` set rs" and p: "p \<le> NORMALPRIO" and lt: "\<And>x q. (x, q) \<in> set rs \<Longrightarrow> q < p"
  shows "started (chSchWakeupS t MSG_OK (thread_init t nm p (upd_thd t (\<lambda>x. x\<lparr>wabase := w\<rparr>) k))) c ((t, p) # rs)"
proof -
  define k' where "k' = set_u t MSG_OK (thread_init t nm p (upd_thd t (\<lambda>x. x\<lparr>wabase := w\<rparr>) k))"
  have k: "qs k' = (qs k)(MSGQ t := [])" "current k' = current k" "\<And>x. x \<noteq> t \<Longrightarrow> thd k' x = thd k x" "tprio k' t = p"
    "realprio (thd k' t) = p" "mtxlist (thd k' t) = []" "waiting (thd k' t) = []" "mtx_owner k' = mtx_owner k"
    "sem_cnt k' = sem_cnt k" "vfunc k' = vfunc k" "alarm k' = alarm k" "vtl k' = vtl k" "lasttime k' = lasttime k"
    "evt_src k' = evt_src k"
    by (simp_all add: k'_def thread_init_def REG_INSERT_def queue_init_def upd_thd_def set_u_def Let_def)
  have q: "qs k' RLIST = map fst rs" using s k(1) by (simp add: started_def)
  have pr: "tprio k' x = r" if "(x, r) \<in> set rs" for x r
  proof -
    have "x \<noteq> t" using t(2) that by force
    then show ?thesis using s that k(3) [of x] by (auto simp: started_def made_def)
  qed
  have "\<not> p \<le> tprio k' x" if "x \<in> set (map fst rs)" for x
  proof -
    obtain r where r: "(x, r) \<in> set rs" using \<open>x \<in> set (map fst rs)\<close> by auto
    then show ?thesis using pr [OF r] lt [OF r] by (simp add: not_le)
  qed
  then have ins: "ins_where (\<lambda>x. p \<le> tprio k' x) t (map fst rs) = t # map fst rs" by (simp add: ins_where_first)
  have le: "tprio k' t \<le> tprio k' (current k)"
    using s p t(1) k(2,4) k(3) [of c] by (simp add: started_def made_def)
  have "chSchWakeupS t MSG_OK (thread_init t nm p (upd_thd t (\<lambda>x. x\<lparr>wabase := w\<rparr>) k)) = chSchReadyI t k'"
    using le unfolding chSchWakeupS_def Let_def k'_def [symmetric]
    by (simp add: thread_init_def REG_INSERT_def queue_init_def upd_thd_def Let_def)
  moreover have "started (chSchReadyI t k') c ((t, p) # rs)"
  proof -
    have "tprio (set_state t CH_STATE_READY k') = tprio k'" by (simp add: fun_eq_iff)
    then have "qs (chSchReadyI t k') = q_prio_insert (tprio k') t RLIST (qs k')"
      unfolding chSchReadyI_def Let_def by (simp only: kernel.simps) (simp add: set_state_def upd_thd_def)
    also have "\<dots> = (qs k')(RLIST := t # map fst rs)" unfolding q_prio_insert_def q k(4) ins ..
    finally have f: "qs (chSchReadyI t k') = (qs k)(MSGQ t := [], RLIST := t # map fst rs)"
      "\<And>x. thd (chSchReadyI t k') x = (if x = t then (thd k' t)\<lparr>state := CH_STATE_READY\<rparr> else thd k x)"
      using k(1,3) by (auto simp: chSchReadyI_def Let_def set_state_def upd_thd_def)
    have "qs (chSchReadyI t k') = (\<lambda>_. [])(RLIST := map fst ((t, p) # rs))"
      using s unfolding f by (auto simp: started_def)
    moreover have "made r CH_STATE_READY (thd (chSchReadyI t k') x)" if "(x, r) \<in> set ((t, p) # rs)" for x r
    proof (cases "x = t")
      case True
      then have "r = p" using that t(2) by force
      then show ?thesis using True k by (simp add: f made_def)
    next
      case False
      then have "thd (chSchReadyI t k') x = thd k x" using k(3) [OF False] by simp
      then show ?thesis using that s False by (auto simp: started_def)
    qed
    moreover have "made NORMALPRIO CH_STATE_CURRENT (thd (chSchReadyI t k') c)" using s t(1) f(2) [of c] by (simp add: started_def)
    moreover have "current (chSchReadyI t k') = c" "mtx_owner (chSchReadyI t k') = (\<lambda>_. NULL)" "sem_cnt (chSchReadyI t k') = (\<lambda>_. 0)"
      "vfunc (chSchReadyI t k') = (\<lambda>_. None)" "alarm (chSchReadyI t k') = None" "vtl (chSchReadyI t k') = []"
      "lasttime (chSchReadyI t k') = 0" "evt_src (chSchReadyI t k') = (\<lambda>_. [])"
      using s k by (simp_all add: started_def chSchReadyI_def Let_def set_state_def upd_thd_def)
    ultimately show ?thesis unfolding started_def by blast
  qed
  ultimately show ?thesis by simp
qed

lemma started_chSysInit:
  assumes c: "cold (m_kernel m)" and l: "layout_ok ly"
  shows "started (m_kernel (chSysInit ly c1 c2 tm m)) (main_of ly) [(idle_of ly, IDLEPRIO)]"
proof -
  define k where "k = port_init (set_state (main_of ly) CH_STATE_CURRENT (upd_thd (main_of ly) (\<lambda>t. t\<lparr>wabase := NULL\<rparr>)
    ((thread_init (main_of ly) ''main'' NORMALPRIO (chMtxObjectInit (heap_mtx (l_heapp ly))
      (vt_init (scheduler_init (m_kernel m)))))\<lparr>current := main_of ly\<rparr>)))"
  have "started k (main_of ly) []"
    using c by (simp add: k_def port_init_def NVIC_SetPriorityGrouping_def NVIC_SetPriority_system_def Let_def started_def made_def
      cold_def thread_init_def REG_INSERT_def chMtxObjectInit_def set_owner_def queue_init_def vt_init_def scheduler_init_def
      upd_thd_def set_state_def fun_eq_iff)
  moreover have "m_kernel (chSysInit ly c1 c2 tm m) =
      chSchWakeupS (idle_of ly) MSG_OK (thread_init (idle_of ly) ''idle'' IDLEPRIO (upd_thd (idle_of ly) (\<lambda>x. x\<lparr>wabase := l_idle_wbase ly\<rparr>) k))"
    by (simp add: chSysInit_def heap_init_def Let_def split_beta k_def main_of_def chThdCreate_def chThdCreateSuspendedI_def
        idle_descriptor_def idle_of_def)
  moreover have "idle_of ly \<noteq> main_of ly" using l by (auto simp: layout_ok_def)
  moreover have "IDLEPRIO \<le> NORMALPRIO" by (simp add: IDLEPRIO_def NORMALPRIO_def)
  ultimately show ?thesis using started_create [of k "main_of ly" "[]" "idle_of ly" IDLEPRIO] by simp
qed

text \<open>
  The invariant speaks of the structures at all addresses.  Those of threads that were never created are
  memory nobody reads; here they are blank.
\<close>

definition blank :: thread where
  "blank = \<lparr>prio = IDLEPRIO, state = CH_STATE_WTSTART, flags = 0, refs = 0, u = 0, waiting = [], epending = 0, mtxlist = [],
    realprio = IDLEPRIO, tname = [], wabase = NULL, mpool = NULL\<rparr>"

definition only :: "ptr set \<Rightarrow> kernel \<Rightarrow> kernel" where
  "only T k = k\<lparr>thd := (\<lambda>t. if t \<in> T then thd k t else blank)\<rparr>"

lemma started_sys_ok:
  assumes s: "started k c [(b, NORMALPRIO), (i, IDLEPRIO)]" and d: "distinct [NULL, c, i, b]"
  shows "sys_ok kd i {} (only {c, i, b} k) \<and> highest (only {c, i, b} k) \<and> waits_ok (only {c, i, b} k)"
proof -
  let ?k = "only {c, i, b} k"
  have q: "qs ?k = (\<lambda>_. [])(RLIST := [b, i])" "current ?k = c" "mtx_owner ?k = (\<lambda>_. NULL)" "sem_cnt ?k = (\<lambda>_. 0)"
    using s by (simp_all add: started_def only_def)
  have t: "tprio ?k t = (if t = c \<or> t = b then NORMALPRIO else IDLEPRIO)"
    "realprio (thd ?k t) = (if t = c \<or> t = b then NORMALPRIO else IDLEPRIO)"
    "tstate ?k t = (if t = c then CH_STATE_CURRENT else if t = i \<or> t = b then CH_STATE_READY else CH_STATE_WTSTART)"
    "mtxlist (thd ?k t) = []" "waiting (thd ?k t) = []" for t
    using s d by (auto simp: started_def only_def made_def blank_def)
  have pr: "IDLEPRIO \<le> NORMALPRIO" "0 < IDLEPRIO" "0 < NORMALPRIO" by (simp_all add: IDLEPRIO_def NORMALPRIO_def)
  have "kinv kd i {} ?k"
    using d pr unfolding kinv_def placed_def queues_ok_def in_queue_def queued_def q t by (auto split: if_splits)
  moreover have "mtx_struct kd ?k" "pi_ok kd {} ?k" "\<forall>t. justified kd ?k t" "sems_ok kd ?k"
    using d pr unfolding mtx_struct_def pi_ok_def justified_def sems_ok_def sem_ok_def q t by auto
  moreover have "highest ?k" using d pr unfolding highest_def q t by auto
  moreover have "waits_ok ?k" by (simp add: waits_ok_def winv_def t)
  ultimately show ?thesis by (simp add: sys_ok_def mtxk_def)
qed

lemma mmio_create [simp]:
  "mmio (chSchWakeupS t m k) = mmio k" "mmio (thread_init t nm p k) = mmio k" "mmio (upd_thd t f k) = mmio k"
  "mmio (set_state t st k) = mmio k"
  by (simp_all add: chSchWakeupS_def chSchReadyI_def set_u_def set_state_def upd_thd_def thread_init_def REG_INSERT_def
      queue_init_def Let_def)

text \<open>Each part of start-up: what the later parts rely on.\<close>

definition ticking :: "kernel \<Rightarrow> bool" where
  "ticking k \<longleftrightarrow> mmio k (TIM_DIER TIM2) = 0 \<and> (unat (mmio k (TIM_PSC TIM2)) + 1) * CH_CFG_ST_FREQUENCY = STM32_TIMCLK1"

lemma halInit_state:
  "ticking (m_kernel (halInit ly ib ob m))"
  "m_ports (halInit ly ib ob m) = fst (pal_lld_init pal_default_config (m_ports m) (hal_lld_init (m_kernel m)))"
  "m_sd1 (halInit ly ib ob m) = (m_sd1 m)\<lparr>sd_state := SD_STOP,
     sd_iq := fst (iqObjectInit (l_sd1_in ly) ib SERIAL_BUFFERS_SIZE (m_kernel m)), sd_oq := fst (oqObjectInit (l_sd1_out ly) ob SERIAL_BUFFERS_SIZE (m_kernel m)),
     sd_usart := USART1\<rparr>"
  by (simp_all add: halInit_def ticking_def stInit_def st_lld_init_def rccEnableAPB1_def nvicEnableVector_def clock_defs Let_def
      split_beta sd_lld_init_def sdObjectInit_def iqObjectInit_def oqObjectInit_def)

lemma chSysInit_state:
  "ticking (m_kernel (chSysInit ly c1 c2 tm m)) = ticking (m_kernel m)"
  "m_ports (chSysInit ly c1 c2 tm m) = m_ports m" "m_sd1 (chSysInit ly c1 c2 tm m) = m_sd1 m"
  by (simp_all add: chSysInit_def Let_def split_beta ticking_def port_init_def NVIC_SetPriorityGrouping_def
      NVIC_SetPriority_system_def heap_init_def chMtxObjectInit_def set_owner_def queue_init_def vt_init_def scheduler_init_def
      chThdCreate_def chThdCreateSuspendedI_def)

lemma sdStart_state:
  assumes "sdStart io None sd k h = (sd', k', h')" and "sd_usart sd = USART1"
  shows "ticking k' = ticking k" "started k' c rs = started k c rs"
    "sd' = sd\<lparr>sd_rxmask := 0xFF, sd_state := SD_READY\<rparr>"
  using assms by (auto simp: sdStart_def sd_lld_start_def usart_init_def default_config_def Let_def split_beta ticking_def
      nvicEnableVector_def rccEnableAPB2_def split: if_splits)

text \<open>The wire as the board sets up its pads: SDATA is an input, the others are driven low.\<close>

definition board_wire_state :: wire where
  "board_wire_state = \<lparr>latch = (\<lambda>l. l = SDATA),
    mode = (\<lambda>l. if l = SDATA then PAL_MODE_INPUT else PAL_MODE_OUTPUT_PUSHPULL), trace = []\<rparr>"

text \<open>
  C5: Start-up.  From zeroed memory, when \<open>main\<close> reaches its command loop: the main thread runs, the
  blinker and the idle thread are ready in this order; the invariants of the kernel hold, now and in every
  state of a run of modelled calls and interrupts (\<open>sys_run\<close>), and the thread of highest priority runs; all this with the
  structures at the addresses of other threads, which are memory nobody reads, taken as blank; the serial driver is
  ready with empty queues; no timer is armed, the alarm is off and the timer ticks with the configured
  frequency; port B drives the pads of the programmer as the wire model has them.
\<close>

theorem startup_correct:
  assumes c: "cold (m_kernel m)" and l: "layout_ok ly" and b: "length ib = SERIAL_BUFFERS_SIZE" "length ob = SERIAL_BUFFERS_SIZE"
    and kd: "kd (l_sd1_in ly) = KQueue" "kd (l_sd1_out ly) = KQueue"
    and st: "main_start ly ib ob io c1 c2 tm m h = (m', h')"
    and k: "k = only {main_of ly, idle_of ly, blinker_of ly} (m_kernel m')"
  shows "current k = main_of ly \<and> qs k RLIST = [blinker_of ly, idle_of ly] \<and>
    sys_ok kd (idle_of ly) {} k \<and> highest k \<and> waits_ok k \<and>
    (\<forall>X k'. sys_run kd (idle_of ly) k X k' \<longrightarrow> sys_ok kd (idle_of ly) X k' \<and> highest k' \<and> waits_ok k') \<and>
    sd_ok kd (idle_of ly) (m_sd1 m') k \<and> sd_armed (m_sd1 m') k \<and> sd_state (m_sd1 m') = SD_READY \<and>
    sd_usart (m_sd1 m') = USART1 \<and> rx_bytes (m_sd1 m') = [] \<and> tx_bytes (m_sd1 m') = [] \<and>
    vt_inv k \<and> sleepers {} k \<and> alarm_regs k \<and>
    (unat (mmio k (TIM_PSC TIM2)) + 1) * CH_CFG_ST_FREQUENCY = STM32_TIMCLK1 \<and>
    wire_on board_wire_state (m_ports m' GPIOB)"
proof -
  let ?m1 = "halInit ly ib ob m"
  let ?m2 = "chSysInit ly c1 c2 tm ?m1"
  obtain sd k1 h1 where sd: "sdStart io None (m_sd1 ?m2) (m_kernel ?m2) h = (sd, k1, h1)" by (metis prod_cases3)
  let ?k = "chSchWakeupS (blinker_of ly) MSG_OK (thread_init (blinker_of ly) ''noname'' NORMALPRIO
    (upd_thd (blinker_of ly) (\<lambda>x. x\<lparr>wabase := l_waThread1 ly\<rparr>) k1))"
  have m': "m_sd1 m' = sd" "m_kernel m' = ?k" "m_ports m' = m_ports ?m2"
    using st sd by (auto simp: main_start_def Let_def split_beta chThdCreateStatic_def blinker_of_def)
  have us: "sd_usart (m_sd1 ?m2) = USART1" by (simp add: chSysInit_state halInit_state)
  note s1 = sdStart_state [OF sd us]
  have "started k1 (main_of ly) [(idle_of ly, IDLEPRIO)]"
    using started_chSysInit [OF cold_halInit [OF c] l] s1(2) by blast
  moreover have "blinker_of ly \<noteq> main_of ly" "blinker_of ly \<noteq> idle_of ly" using l by (auto simp: layout_ok_def)
  moreover have "IDLEPRIO < NORMALPRIO" by (simp add: IDLEPRIO_def NORMALPRIO_def)
  ultimately have s: "started ?k (main_of ly) [(blinker_of ly, NORMALPRIO), (idle_of ly, IDLEPRIO)]"
    using started_create [of k1 "main_of ly" "[(idle_of ly, IDLEPRIO)]" "blinker_of ly" NORMALPRIO] by auto
  have k': "k = only {main_of ly, idle_of ly, blinker_of ly} ?k" using k m'(2) by simp
  have ok: "sys_ok kd (idle_of ly) {} k \<and> highest k \<and> waits_ok k"
    unfolding k' by (rule started_sys_ok [OF s]) (use l in \<open>simp add: layout_ok_def\<close>)
  have "ticking k1" using s1(1) chSysInit_state(1) halInit_state(1) by blast
  then have tick: "ticking k" by (simp add: k' only_def ticking_def)
  have same: "vtl k = []" "vfunc k = (\<lambda>_. None)" "alarm k = None" "evt_src k = (\<lambda>_. [])" "current k = main_of ly"
    "qs k RLIST = [blinker_of ly, idle_of ly]"
    using s by (simp_all add: k' only_def started_def)
  have q: "sd_queues kd sd \<and> rx_bytes sd = [] \<and> tx_bytes sd = [] \<and> sd_state sd = SD_READY \<and> sd_usart sd = USART1"
    using b kd by (simp add: s1(3) chSysInit_state halInit_state iqObjectInit_def oqObjectInit_def sd_queues_def ioq_static_def
        q_ring_def ring_ok_def q_items_def ring_at_def SERIAL_BUFFERS_SIZE_def)
  have "wire_on board_wire_state (m_ports m' GPIOB)"
    unfolding m'(3) chSysInit_state halInit_state board_wire_state_def by (rule board_wire)
  moreover have "\<forall>X k'. sys_run kd (idle_of ly) k X k' \<longrightarrow> sys_ok kd (idle_of ly) X k' \<and> highest k' \<and> waits_ok k'"
    using run_ok ok by blast
  moreover have "sd_ok kd (idle_of ly) (m_sd1 m') k" "sd_armed (m_sd1 m') k"
    using ok q same by (auto simp: sd_ok_def heard_def sd_armed_def m'(1))
  moreover have "vt_inv k" "sleepers {} k" using same by (simp_all add: vt_inv_def sleepers_def)
  moreover have "alarm_regs k" using same(3) tick by (simp add: alarm_regs_def ticking_def st_lld_is_alarm_active_def)
  ultimately show ?thesis using same(5,6) q tick m'(1) ok by (simp add: ticking_def)
qed

text \<open>An instance: a cold machine whose thread structures hold anything, and a hardware that returns zeros.\<close>

definition ly0 :: layout where
  "ly0 = \<lparr>l_mainthread = 0x20000800, l_idle_wbase = 0x20000A00, l_idle_wend = 0x20000B00, l_waThread1 = 0x20000C00,
    l_waThread1_size = 0x150, l_thread_size = 0x48, l_sd1_in = 0x20000900, l_sd1_out = 0x20000940, l_heapp = 0x4000190,
    l_heap_base = 0x20001000, l_heap_end = 0x20005000\<rparr>"

definition machine0 :: machine where
  "machine0 = \<lparr>m_kernel = boot\<lparr>qs := (\<lambda>_. [])\<rparr>, m_ports = (\<lambda>_. \<lparr>CRL = 0, CRH = 0, ODR = 0\<rparr>),
    m_sd1 = \<lparr>sd_event = 0x20000980, sd_state = SD_UNINIT, sd_iq = fst (iqObjectInit 0 [] 0 boot), sd_oq = fst (iqObjectInit 0 [] 0 boot),
      sd_usart = 0, sd_rxmask = 0\<rparr>, m_core = \<lparr>nextmem = 0, endmem = 0\<rparr>, m_heap = \<lparr>w_next = (\<lambda>_. 0), w_pages = (\<lambda>_. 0)\<rparr>, m_tm_offset = 0\<rparr>"

definition io0 :: "unit usart_io" where
  "io0 = \<lparr>rd_sr = (\<lambda>_. (0, ())), rd_dr = (\<lambda>_. (0, ())), wr_sr = (\<lambda>_ _. ()), wr_dr = (\<lambda>_ _. ())\<rparr>"

definition started0 :: machine where
  "started0 = fst (main_start ly0 (replicate 128 0) (replicate 128 0) io0 0 0
    \<lparr>tm_best = 0, tm_worst = 0, tm_last = 0, tm_n = 0, tm_cumulative = 0\<rparr> machine0 ())"

lemma startup_correct_witness:
  "qs (m_kernel started0) RLIST = [0x20000D08, 0x20000AB8] \<and> current (m_kernel started0) = 0x20000800 \<and>
    rx_bytes (m_sd1 started0) = []"
proof -
  have c: "cold (m_kernel machine0)" by (simp add: cold_def machine0_def boot_def)
  have l: "layout_ok ly0" by (simp add: layout_ok_def main_of_def idle_of_def blinker_of_def ly0_def)
  have b: "length (replicate 128 (0 :: u8)) = SERIAL_BUFFERS_SIZE" by (simp add: SERIAL_BUFFERS_SIZE_def)
  note t = startup_correct [OF c l b b, of "\<lambda>_. KQueue" io0 0 0 "\<lparr>tm_best = 0, tm_worst = 0, tm_last = 0, tm_n = 0, tm_cumulative = 0\<rparr>" "()",
      OF refl refl surjective_pairing refl, folded started0_def]
  have "main_of ly0 = 0x20000800" "blinker_of ly0 = 0x20000D08" "idle_of ly0 = 0x20000AB8"
    by (simp_all add: main_of_def idle_of_def blinker_of_def ly0_def)
  then show ?thesis using t by (simp add: only_def)
qed

section \<open>The blinker thread\<close>

text \<open>
  The body of the thread's loop up to a sleep: \<open>lit\<close> says which level the LED gets before it.  The
  thread names itself and starts with \<open>False\<close>; when it comes back from the sleep it goes on with the other level.
\<close>

definition chRegSetThreadName :: "string \<Rightarrow> kernel \<Rightarrow> kernel" where
  "chRegSetThreadName nm k = upd_thd (current k) (\<lambda>t. t\<lparr>tname := nm\<rparr>) k"

definition blink :: "gpio_hw \<Rightarrow> bool \<Rightarrow> machine \<Rightarrow> machine" where
  "blink hw lit m =
    (let pa = m_ports m GPIOA;
         pa = (if lit then palSetPad_reg hw GPIOA_LED_RED pa else palClearPad_reg hw GPIOA_LED_RED pa)
     in m\<lparr>m_ports := (m_ports m)(GPIOA := pa), m_kernel := chThdSleepMilliseconds_rt 500 (m_kernel m)\<rparr>)"

definition Thread1 :: "gpio_hw \<Rightarrow> machine \<Rightarrow> machine" where
  "Thread1 hw m = blink hw False (m\<lparr>m_kernel := chRegSetThreadName ''blinker'' (m_kernel m)\<rparr>)"

definition Thread1_resume :: "gpio_hw \<Rightarrow> bool \<Rightarrow> machine \<Rightarrow> machine" where
  "Thread1_resume hw lit m =
    blink hw (\<not> lit) (m\<lparr>m_kernel := snd (chSchGoSleepTimeoutS_resume (MS2ST 500) (m_kernel m))\<rparr>)"

lemma palDrive_fields:
  "CRL (palSetPad_reg hw n p) = CRL p" "CRH (palSetPad_reg hw n p) = CRH p"
  "CRL (palClearPad_reg hw n p) = CRL p" "CRH (palClearPad_reg hw n p) = CRH p"
  by (simp_all add: palSetPad_reg_def palClearPad_reg_def palSetPort_def palClearPort_def write_BSRR_def write_BRR_def)

lemma palDrive_bits:
  assumes hw: "gpio_hw_ok hw" and n: "n < 16" and j: "j < 16"
  shows "bit (ODR (palSetPad_reg hw n p)) j \<longleftrightarrow> j = n \<or> bit (ODR p) j"
    and "bit (ODR (palClearPad_reg hw n p)) j \<longleftrightarrow> j \<noteq> n \<and> bit (ODR p) j"
  using assms bit_PAL_PORT_BIT [of n j] bit_PAL_PORT_BIT [of n "j + 16"] unfolding gpio_hw_ok_def
  by (auto simp: palSetPad_reg_def palClearPad_reg_def palSetPort_def palClearPort_def write_BSRR_def write_BRR_def)

text \<open>
  A turn of the blinker: the LED gets the level, no other pad of any port changes its level or mode, so the
  programmer's wires do not see it; the thread sleeps and its timer is armed for 500 ms.
\<close>

lemma blink_correct:
  fixes lit :: bool and m :: machine and hw :: gpio_hw
  assumes hw: "gpio_hw_ok hw" and s: "sys_ok kd idle X (m_kernel m)" and c: "current (m_kernel m) \<noteq> idle"
  defines "t \<equiv> current (m_kernel m)" and "m' \<equiv> blink hw lit m"
  shows "sys_ok kd idle X (m_kernel m')" "highest (m_kernel m')" "tstate (m_kernel m') t = CH_STATE_SLEEPING"
    "vfunc (m_kernel m') (StackVt t) = Some (Wakeup t)"
    "j < 16 \<Longrightarrow> bit (ODR (m_ports m' GPIOA)) j \<longleftrightarrow> (if j = GPIOA_LED_RED then lit else bit (ODR (m_ports m GPIOA)) j)"
    "CRL (m_ports m' GPIOA) = CRL (m_ports m GPIOA)" "CRH (m_ports m' GPIOA) = CRH (m_ports m GPIOA)"
    "g \<noteq> GPIOA \<Longrightarrow> m_ports m' g = m_ports m g"
proof -
  let ?k = "m_kernel m" and ?k' = "m_kernel m'"
  have k': "?k' = chThdSleepS (MS2ST 500) ?k" by (simp add: m'_def blink_def chThdSleepMilliseconds_rt_def chThdSleep_def Let_def)
  show "sys_ok kd idle X ?k'" "highest ?k'" unfolding k' using sys_thread_sleep [OF s c] by blast+
  have ms: "MS2ST 500 = 500" by (simp add: MS2ST_def CH_CFG_ST_FREQUENCY_def)
  then have e: "?k' = chSchGoSleepS CH_STATE_SLEEPING (chVTDoSetI (StackVt t) 500 (Wakeup t) ?k)"
    by (simp add: k' chThdSleepS_def chSchGoSleepTimeoutS_def TIME_INFINITE_def t_def)
  show "vfunc ?k' (StackVt t) = Some (Wakeup t)"
    unfolding e by (simp add: chSchGoSleepS_def take_first_def queue_fifo_remove_def set_state_def upd_thd_def split: list.split)
  have nq: "t \<notin> set (qs ?k RLIST)" using current_not_queued [OF sys_parts(3) [OF s]] by (simp add: t_def)
  have "qs ?k RLIST \<noteq> []" using ready_nonempty [OF sys_parts(3) [OF s]] c by simp
  then obtain x r where "qs ?k RLIST = x # r" by (cases "qs ?k RLIST") auto
  then show "tstate ?k' t = CH_STATE_SLEEPING"
    unfolding e using nq by (auto simp: chSchGoSleepS_def take_first_def queue_fifo_remove_def set_state_def upd_thd_def t_def)
  show "bit (ODR (m_ports m' GPIOA)) j \<longleftrightarrow> (if j = GPIOA_LED_RED then lit else bit (ODR (m_ports m GPIOA)) j)" if "j < 16"
    using palDrive_bits [OF hw, of GPIOA_LED_RED j] that by (auto simp: m'_def blink_def Let_def)
  show "CRL (m_ports m' GPIOA) = CRL (m_ports m GPIOA)" "CRH (m_ports m' GPIOA) = CRH (m_ports m GPIOA)"
    by (simp_all add: m'_def blink_def Let_def palDrive_fields)
  show "g \<noteq> GPIOA \<Longrightarrow> m_ports m' g = m_ports m g" by (simp add: m'_def blink_def Let_def)
qed

section \<open>The end of the program\<close>

text \<open>
  What \<open>main\<close> does after its loop: it stops the serial driver, which may let woken threads run, and
  when it runs again resets the peripherals and the processor.  \<open>chSysDisable\<close> is not visible.
\<close>

definition NVIC_SystemReset :: "kernel \<Rightarrow> kernel" where
  "NVIC_SystemReset k = reg_write SCB_AIRCR (push_bit 16 0x5FA OR (mmio k SCB_AIRCR AND 0x700) OR 4) k"

definition main_stop :: "machine \<Rightarrow> machine" where
  "main_stop m = (let (sd, k) = sdStop (m_sd1 m) (m_kernel m) in m\<lparr>m_sd1 := sd, m_kernel := k\<rparr>)"

definition main_stop_resume :: "machine \<Rightarrow> machine" where
  "main_stop_resume m =
    (let k = rccResetAPB1 0xFFFFFFFF (m_kernel m);
         k = rccResetAPB2 0xFFFFFFFF k
     in m\<lparr>m_kernel := NVIC_SystemReset k\<rparr>)"

lemma dequeue_all_devices:
  "mmio (chThdDequeueAllI tqp m k) = mmio k \<and> evt_src (chThdDequeueAllI tqp m k) = evt_src k \<and>
    evt_lis (chThdDequeueAllI tqp m k) = evt_lis k"
proof (induction tqp m k rule: chThdDequeueAllI.induct)
  case (1 tqp m k)
  have "queue_notempty (QOBJ tqp) k \<Longrightarrow> chThdDoDequeueNextI tqp m k = chThdDequeueNextI tqp m k"
    by (simp add: chThdDequeueNextI_def)
  then show ?case using 1 by (subst (1 2 3) chThdDequeueAllI.simps) simp
qed

lemma reschedule_devices:
  "mmio (chSchRescheduleS k) = mmio k" "evt_src (chSchRescheduleS k) = evt_src k" "evt_lis (chSchRescheduleS k) = evt_lis k"
  "qs (chSchRescheduleS k) (QOBJ q) = qs k (QOBJ q)"
  by (auto simp: chSchRescheduleS_def chSchDoRescheduleAhead_def take_first_def queue_fifo_remove_def chSchReadyAheadI_def
      set_state_def upd_thd_def q_prio_insert_ahead_def Let_def split: list.splits)

text \<open>
  The driver is stopped: both queues are empty and every thread that slept in them has been told so, its
  interrupts and its clock are off, and the kernel is in order with the thread of highest priority running.
\<close>

lemma main_stop_correct:
  assumes s: "sd_ok kd idle (m_sd1 m) (m_kernel m)" and u: "sd_usart (m_sd1 m) = USART1" and r: "sd_state (m_sd1 m) = SD_READY"
  defines "k \<equiv> m_kernel (main_stop m)" and "sd \<equiv> m_sd1 (main_stop m)"
  shows "sd_ok kd idle sd k" "highest k" "sd_state sd = SD_STOP" "rx_bytes sd = []" "tx_bytes sd = []"
    "qs k (QOBJ (q_waiting (sd_iq sd))) = []"
    "mmio k (CR1 USART1) = 0" "\<not> bit (mmio k RCC_APB2ENR) 14"
proof -
  note d = sd_okD [OF s]
  let ?k0 = "sd_lld_stop (m_sd1 m) (m_kernel m)" and ?oq = "q_waiting (sd_oq (m_sd1 m))" and ?iq = "q_waiting (sd_iq (m_sd1 m))"
  let ?k1 = "chThdDequeueAllI ?oq MSG_RESET ?k0" let ?k2 = "chThdDequeueAllI ?iq MSG_RESET ?k1"
  have k: "k = chSchRescheduleS ?k2" by (simp add: k_def main_stop_def sdStop_def oqResetI_def iqResetI_def Let_def split_beta)
  have sd: "sd = (m_sd1 m)\<lparr>sd_state := SD_STOP, sd_oq := fst (oqResetI (sd_oq (m_sd1 m)) ?k0), sd_iq := fst (iqResetI (sd_iq (m_sd1 m)) ?k1)\<rparr>"
    by (simp add: sd_def main_stop_def sdStop_def oqResetI_def iqResetI_def Let_def split_beta)
  have kd: "kd ?oq = KQueue" "kd ?iq = KQueue" using d(3,4) by (simp_all add: iq_ok_def oq_ok_def ioq_ok_def)
  obtain X where X: "sys_ok kd idle X (m_kernel m)" using d(1) by blast
  have s0: "sys_ok kd idle X ?k0"
    using X by (simp add: sd_lld_stop_def nvicDisableVector_def rccDisableAPB2_def usart_deinit_def Let_def)
  have s1: "sys_ok kd idle X ?k1" by (rule sys_dequeue_all [OF s0 kd(1)])
  have s2: "sys_ok kd idle X ?k2" by (rule sys_dequeue_all [OF s1 kd(2)])
  have sk: "sys_ok kd idle X k \<and> highest k" unfolding k by (rule sys_reschedule [OF s2])
  show "highest k" using sk by simp
  show "sd_state sd = SD_STOP" by (simp add: sd)
  have q0: "ioq_ok kd idle 0 (sd_iq sd) k" "ioq_ok kd idle 0 (sd_oq sd) k" "q_counter (sd_iq sd) = 0" "q_counter (sd_oq sd) = q_top (sd_oq sd)"
    using d(3,4) sys_parts(3) sk
    by (auto simp: sd iqResetI_def oqResetI_def ioq_ok_def iq_ok_def oq_ok_def q_ring_def qSizeX_def intro!: ring_ok_reset)
      (auto simp: ring_ok_def)
  show rx: "rx_bytes sd = []" and tx: "tx_bytes sd = []" using q0(3,4) by (simp_all add: q_items_def)
  have h: "heard (sd_event (m_sd1 m)) k"
    using d(2) by (simp add: heard_def k reschedule_devices dequeue_all_devices sd_lld_stop_def nvicDisableVector_def
        rccDisableAPB2_def usart_deinit_def Let_def reg_write_def)
  show "sd_ok kd idle sd k"
    by (rule sd_okI [OF conjunct1 [OF sk]]) (use h q0 in \<open>simp_all add: iq_ok_def oq_ok_def, simp add: sd\<close>)
  have "qs ?k2 (QOBJ ?iq) = []" using dequeue_all_inv [OF sys_parts(3) [OF s1], of ?iq MSG_RESET] by blast
  then show "qs k (QOBJ (q_waiting (sd_iq sd))) = []" by (simp add: k reschedule_devices sd iqResetI_def Let_def)
  have m: "mmio k = mmio ?k0" by (simp add: k reschedule_devices dequeue_all_devices)
  show "mmio k (CR1 USART1) = 0" "\<not> bit (mmio k RCC_APB2ENR) 14"
    unfolding m using u r
    by (simp_all add: sd_lld_stop_def nvicDisableVector_def rccDisableAPB2_def usart_deinit_def Let_def reg_write_def bit_simps bit_numeral_rec)
qed

text \<open>The reset is requested with the key of the register; the priority grouping stays.\<close>

lemma main_stop_resume_correct:
  fixes m :: machine
  defines "k \<equiv> m_kernel (main_stop_resume m)"
  shows "drop_bit 16 (mmio k SCB_AIRCR) = 0x5FA" "bit (mmio k SCB_AIRCR) 2"
    "mmio k SCB_AIRCR AND 0x700 = mmio (m_kernel m) SCB_AIRCR AND 0x700"
    "mmio k RCC_APB1RSTR = 0" "mmio k RCC_APB2RSTR = 0"
proof -
  have a: "mmio k SCB_AIRCR = push_bit 16 0x5FA OR (mmio (m_kernel m) SCB_AIRCR AND 0x700) OR 4"
    by (simp add: k_def main_stop_resume_def NVIC_SystemReset_def rccResetAPB1_def rccResetAPB2_def Let_def)
  show "bit (mmio k SCB_AIRCR) 2" unfolding a by (simp add: bit_simps bit_numeral_rec)
  show "drop_bit 16 (mmio k SCB_AIRCR) = 0x5FA" unfolding a by (rule bit_word_eqI) (auto simp: bit_simps bit_numeral_rec)
  show "mmio k SCB_AIRCR AND 0x700 = mmio (m_kernel m) SCB_AIRCR AND 0x700" unfolding a by (simp add: bit.conj_disj_distrib2 and.assoc)
  show "mmio k RCC_APB1RSTR = 0" "mmio k RCC_APB2RSTR = 0"
    by (simp_all add: k_def main_stop_resume_def NVIC_SystemReset_def rccResetAPB1_def rccResetAPB2_def Let_def)
qed

end
