(* ===== verification/DynThreads.thy ===== *)
theory DynThreads
  imports System MemPools Heap
begin

text \<open>
  Threads in dynamic memory (chdynamic.c): the working area comes from a heap or a pool, and goes back to
  it when the last reference to the finished thread is released (chthreads.c).  Pages of the heap
  are 8 bytes; the alignment of a working area is one page.
\<close>

section \<open>Operations\<close>

definition page_ptr :: "nat \<Rightarrow> ptr" where "page_ptr w = of_nat (8 * w)"

definition PORT_WORKING_AREA_ALIGN :: u32 where "PORT_WORKING_AREA_ALIGN = 8"

text \<open>The critical section that both functions share; \<open>f\<close> sets the fields that say where the memory came from.\<close>

definition thread_in :: "u32 \<Rightarrow> ptr \<Rightarrow> u32 \<Rightarrow> string \<Rightarrow> tprio \<Rightarrow> (thread \<Rightarrow> thread) \<Rightarrow> kernel \<Rightarrow> ptr \<times> kernel" where
  "thread_in tsz wsp n nm p f k =
    (let (tp, k) = chThdCreateSuspendedI tsz \<lparr>td_name = nm, td_wbase = wsp, td_wend = wsp + n, td_prio = p\<rparr> k;
         k = upd_thd tp f k
     in (tp, chSchWakeupS tp MSG_OK k))"

definition from_heap :: "thread \<Rightarrow> thread" where "from_heap x = x\<lparr>flags := CH_FLAG_MODE_HEAP\<rparr>"
definition from_pool :: "ptr \<Rightarrow> thread \<Rightarrow> thread" where "from_pool mp x = x\<lparr>flags := CH_FLAG_MODE_MPOOL, mpool := mp\<rparr>"

definition chThdCreateFromHeap_resume :: "u32 \<Rightarrow> 's pages_provider \<Rightarrow> nat \<Rightarrow> u32 \<Rightarrow> string \<Rightarrow> tprio \<Rightarrow>
    hmem \<times> kernel \<times> 's \<Rightarrow> (ptr \<times> hmem \<times> kernel \<times> 's) option" where
  "chThdCreateFromHeap_resume tsz prov heapp n nm p s =
    (case heap_alloc_locked prov heapp n PORT_WORKING_AREA_ALIGN s of
       None \<Rightarrow> None
     | Some (w, m, k, env) \<Rightarrow>
         if w = 0 then Some (NULL, m, k, env)
         else (let (tp, k) = thread_in tsz (page_ptr w) n nm p from_heap k in Some (tp, m, k, env)))"

definition chThdCreateFromHeap :: "u32 \<Rightarrow> 's pages_provider \<Rightarrow> nat \<Rightarrow> nat \<Rightarrow> u32 \<Rightarrow> string \<Rightarrow> tprio \<Rightarrow>
    hmem \<times> kernel \<times> 's \<Rightarrow> (ptr outcome \<times> hmem \<times> kernel \<times> 's) option" where
  "chThdCreateFromHeap tsz prov default_heap heapp n nm p s =
    (case chHeapAllocAligned prov default_heap heapp n PORT_WORKING_AREA_ALIGN s of
       None \<Rightarrow> None
     | Some (Switched, s) \<Rightarrow> Some (Switched, s)
     | Some (Ret w, m, k, env) \<Rightarrow>
         if w = 0 then Some (Ret NULL, m, k, env)
         else (let (tp, k) = thread_in tsz (page_ptr w) n nm p from_heap k in Some (Ret tp, m, k, env)))"

definition chThdCreateFromMemoryPool :: "u32 \<Rightarrow> 's memget \<Rightarrow> ptr \<Rightarrow> string \<Rightarrow> tprio \<Rightarrow>
    mempool \<times> words \<Rightarrow> kernel \<Rightarrow> 's \<Rightarrow> ptr \<times> (mempool \<times> words) \<times> kernel \<times> 's" where
  "chThdCreateFromMemoryPool tsz prov mp nm p s k env =
    (let (wsp, s, env) = chPoolAlloc prov s env
     in if wsp = NULL then (NULL, s, k, env)
        else (let (tp, k) = thread_in tsz wsp (pl_size (fst s)) nm p (from_pool mp) k in (tp, s, k, env)))"

section \<open>Creation keeps the invariants\<close>

lemma sys_fields:
  assumes s: "sys_ok kd idle X k"
    and f: "\<And>x. prio (f x) = prio x \<and> realprio (f x) = realprio x \<and> state (f x) = state x \<and> u (f x) = u x \<and> mtxlist (f x) = mtxlist x"
  shows "sys_ok kd idle X (upd_thd t f k)" "highest (upd_thd t f k) = highest k" "tstate (upd_thd t f k) x = tstate k x"
proof -
  let ?k = "upd_thd t f k"
  have i: "kinv kd idle {} ?k" by (rule kinv_other_fields [OF sys_parts(3) [OF s]]) (use f in simp)
  have e: "qs ?k = qs k" "current ?k = current k" "sem_cnt ?k = sem_cnt k" "mtx_owner ?k = mtx_owner k"
    "tprio ?k x = tprio k x" "realprio (thd ?k x) = realprio (thd k x)" "mtxlist (thd ?k x) = mtxlist (thd k x)"
    "tstate ?k x = tstate k x" for x
    using f by (simp_all add: upd_thd_def)
  show "sys_ok kd idle X ?k"
    by (rule sys_other [OF s i]) (use sys_parts(5) [OF s] e in \<open>simp_all add: null_ok_def same_data_def same_queues_def\<close>)
  show "highest ?k = highest k" using e by (simp add: highest_def)
  show "tstate ?k x = tstate k x" by (rule e)
qed

lemma sys_thread_in:
  assumes s: "sys_ok kd idle X k" and h: "highest k" and v: "spare kd idle (wsp + n - tsz) k" and p: "0 < p"
    and f: "\<And>x. prio (f x) = prio x \<and> realprio (f x) = realprio x \<and> state (f x) = state x \<and> u (f x) = u x \<and> mtxlist (f x) = mtxlist x"
  shows "sys_ok kd idle X (snd (thread_in tsz wsp n nm p f k)) \<and> highest (snd (thread_in tsz wsp n nm p f k))"
proof -
  let ?td = "\<lparr>td_name = nm, td_wbase = wsp, td_wend = wsp + n, td_prio = p\<rparr>" and ?t = "wsp + n - tsz"
  let ?k = "snd (chThdCreateSuspended tsz ?td k)"
  have c: "sys_ok kd idle X ?k" "highest ?k" "tstate ?k ?t = CH_STATE_WTSTART"
    using sys_create(1,3) [of kd idle X k ?td tsz, OF s h] v p by simp_all
  note g = sys_fields [where t = ?t and f = f, OF c(1) f]
  have st: "tstate (upd_thd ?t f ?k) ?t = CH_STATE_WTSTART" using g(3) [of ?t] c(3) by metis
  have hi: "highest (upd_thd ?t f ?k)" using g(2) c(2) by blast
  have "sys_ok kd idle X (chSchWakeupS ?t MSG_OK (upd_thd ?t f ?k)) \<and> highest (chSchWakeupS ?t MSG_OK (upd_thd ?t f ?k))"
    by (rule sys_start(1) [OF g(1) hi st]) (use v in \<open>simp add: spare_def\<close>)
  moreover have "snd (thread_in tsz wsp n nm p f k) = chSchWakeupS ?t MSG_OK (upd_thd ?t f ?k)"
    by (simp add: thread_in_def chThdCreateSuspended_def chThdCreateSuspendedI_def Let_def)
  ultimately show ?thesis by simp
qed

section \<open>The life of a dynamic thread\<close>

text \<open>What chThdRelease asks the memory managers to take back, for a pool.\<close>

fun reclaim_pool :: "ptr \<Rightarrow> reclaim \<Rightarrow> mempool \<times> words \<Rightarrow> mempool \<times> words" where
  "reclaim_pool mp (FreePool mp' wsp) s = (if mp' = mp then chPoolFree wsp s else s)"
| "reclaim_pool mp _ s = s"

lemma wakeup_other_fields:
  assumes "t \<noteq> current k"
  shows "flags (thd (chSchWakeupS t m k) t) = flags (thd k t)" "refs (thd (chSchWakeupS t m k) t) = refs (thd k t)"
    "wabase (thd (chSchWakeupS t m k) t) = wabase (thd k t)" "mpool (thd (chSchWakeupS t m k) t) = mpool (thd k t)"
    "registry (chSchWakeupS t m k) = registry k"
  using assms by (auto simp: chSchWakeupS_def chSchReadyI_def set_u_def set_state_def upd_thd_def Let_def)

text \<open>A finished thread whose last reference is released, and the memory it says it came from.\<close>

definition finished :: "ptr \<Rightarrow> kernel \<Rightarrow> kernel \<Rightarrow> bool" where
  "finished t k k' \<longleftrightarrow> refs (thd k' t) = 1 \<and> tstate k' t = CH_STATE_FINAL \<and> distinct (registry k') \<and>
    flags (thd k' t) AND CH_FLAG_MODE_MASK = flags (thd k t) AND CH_FLAG_MODE_MASK \<and>
    wabase (thd k' t) = wabase (thd k t) \<and> mpool (thd k' t) = mpool (thd k t)"

lemma thread_in_made:
  assumes "wsp + n - tsz \<noteq> current k"
  shows "fst (thread_in tsz wsp n nm p f k) = wsp + n - tsz"
    and "\<exists>x. wabase x = wsp \<and> flags (thd (snd (thread_in tsz wsp n nm p f k)) (wsp + n - tsz)) = flags (f x) \<and>
      mpool (thd (snd (thread_in tsz wsp n nm p f k)) (wsp + n - tsz)) = mpool (f x) \<and>
      wabase (thd (snd (thread_in tsz wsp n nm p f k)) (wsp + n - tsz)) = wabase (f x)"
proof -
  let ?t = "wsp + n - tsz"
  let ?k = "thread_init ?t nm p (upd_thd ?t (\<lambda>x. x\<lparr>wabase := wsp\<rparr>) k)"
  have e: "thread_in tsz wsp n nm p f k = (?t, chSchWakeupS ?t MSG_OK (upd_thd ?t f ?k))"
    by (simp add: thread_in_def chThdCreateSuspendedI_def Let_def)
  then show "fst (thread_in tsz wsp n nm p f k) = ?t" by simp
  have "current (upd_thd ?t f ?k) = current k" "wabase (thd ?k ?t) = wsp" "thd (upd_thd ?t f ?k) ?t = f (thd ?k ?t)"
    by (simp_all add: thread_init_def REG_INSERT_def queue_init_def upd_thd_def Let_def)
  then show "\<exists>x. wabase x = wsp \<and> flags (thd (snd (thread_in tsz wsp n nm p f k)) ?t) = flags (f x) \<and>
      mpool (thd (snd (thread_in tsz wsp n nm p f k)) ?t) = mpool (f x) \<and>
      wabase (thd (snd (thread_in tsz wsp n nm p f k)) ?t) = wabase (f x)"
    using wakeup_other_fields [of ?t "upd_thd ?t f ?k" MSG_OK] assms unfolding e snd_conv by metis
qed

lemma release_last:
  assumes "finished t k k'"
  shows "fst (chThdRelease t k') = (let mode = flags (thd k t) AND CH_FLAG_MODE_MASK in
      if mode = CH_FLAG_MODE_HEAP then FreeHeap (wabase (thd k t))
      else if mode = CH_FLAG_MODE_MPOOL then FreePool (mpool (thd k t)) (wabase (thd k t)) else Keep)"
    and "t \<notin> set (registry (snd (chThdRelease t k')))"
  using assms by (auto simp: finished_def chThdRelease_def Let_def REG_REMOVE_def)

text \<open>
  C29: The life of a thread in a pool.  Creation takes the first free object and puts the thread
  at its end; once the thread has finished, releasing the last reference takes it out of the registry
  and returns exactly that object: the pool is as before, whatever the thread wrote in its area.
\<close>

theorem pool_thread_life:
  fixes s :: "mempool \<times> words"
  assumes s: "pool_ok s (w # xs)" and c: "w + pl_size (fst s) - tsz \<noteq> current k"
    and r: "chThdCreateFromMemoryPool tsz prov mp nm p s k env = (tp, s1, k1, env1)"
    and fin: "finished tp k1 k2" and h: "\<And>x. x \<noteq> w \<Longrightarrow> h2 x = snd s1 x"
  shows "tp = w + pl_size (fst s) - tsz \<and> pool_ok s1 xs \<and> fst (chThdRelease tp k2) = FreePool mp w \<and>
    pool_ok (reclaim_pool mp (fst (chThdRelease tp k2)) (fst s1, h2)) (w # xs) \<and>
    tp \<notin> set (registry (snd (chThdRelease tp k2)))"
proof -
  obtain s' where a: "chPoolAllocI prov s env = (w, s', env)" "pool_ok s' xs" "w \<noteq> NULL" "pl_size (fst s') = pl_size (fst s)"
    using pool_alloc [OF s, of env prov] by auto
  let ?r = "thread_in tsz w (pl_size (fst s)) nm p (from_pool mp) k"
  have e: "tp = fst ?r" "s1 = s'" "k1 = snd ?r"
    using r a by (simp_all add: chThdCreateFromMemoryPool_def chPoolAlloc_def split_beta)
  have tp: "tp = w + pl_size (fst s) - tsz" using e(1) thread_in_made(1) [OF c] by simp
  have f: "flags (thd k1 tp) = CH_FLAG_MODE_MPOOL \<and> mpool (thd k1 tp) = mp \<and> wabase (thd k1 tp) = w"
    using thread_in_made(2) [OF c, of nm p "from_pool mp"] unfolding tp e(3) by (auto simp: from_pool_def)
  have rel: "fst (chThdRelease tp k2) = FreePool mp w" "tp \<notin> set (registry (snd (chThdRelease tp k2)))"
    using release_last [OF fin] f by (simp_all add: Let_def CH_FLAG_MODE_MPOOL_def CH_FLAG_MODE_MASK_def CH_FLAG_MODE_HEAP_def)
  have nw: "w \<notin> set xs" using s by (simp add: pool_ok_def)
  have "chain h2 q ys = chain (snd s1) q ys" if "w \<notin> set ys" for q ys
    using that h by (induction ys arbitrary: q) auto
  then have "pool_ok (fst s1, h2) xs" using a(2) nw unfolding e(2) by (simp add: pool_ok_def)
  then have "pool_ok (chPoolFree w (fst s1, h2)) (w # xs)"
    using pool_free [OF _ a(3) nw] unfolding chPoolFree_def by blast
  then show ?thesis using tp a(2) e(2) rel by simp
qed

text \<open>An object of a pool is a thread, which finishes.\<close>

definition pool2 :: "mempool \<times> words" where
  "pool2 = (\<lparr>pl_next = 0x1000, pl_size = 0x100\<rparr>, (\<lambda>_. NULL)(0x1000 := 0x2000))"

definition dead2 :: kernel where
  "dead2 = (case chThdCreateFromMemoryPool 0x48 (None :: unit memget) 0x500 ''t'' 100 pool2 boot () of
     (t, _, k, _) \<Rightarrow> upd_thd t (\<lambda>x. x\<lparr>refs := 1, state := CH_STATE_FINAL\<rparr>) (k\<lparr>registry := [t]\<rparr>))"

lemma pool_thread_life_witness:
  "\<exists>t s1 k1. chThdCreateFromMemoryPool 0x48 (None :: unit memget) 0x500 ''t'' 100 pool2 boot () = (t, s1, k1, ()) \<and>
    t = 0x10B8 \<and> pool_ok (reclaim_pool 0x500 (fst (chThdRelease t dead2)) s1) [0x1000, 0x2000]"
proof -
  obtain t s1 k1 where r: "chThdCreateFromMemoryPool 0x48 (None :: unit memget) 0x500 ''t'' 100 pool2 boot () = (t, s1, k1, ())"
    by (metis prod_cases4 unit.exhaust)
  have s: "pool_ok pool2 [0x1000, 0x2000]" by (simp add: pool_ok_def pool2_def)
  have c: "(0x1000 :: u32) + pl_size (fst pool2) - 0x48 \<noteq> current boot" by (simp add: pool2_def boot_simps)
  have f: "finished t k1 dead2" by (simp add: finished_def dead2_def r upd_thd_def)
  have "(0x1000 :: u32) + pl_size (fst pool2) - 0x48 = 0x10B8" by (simp add: pool2_def)
  then show ?thesis using pool_thread_life [OF s c r f, of "snd s1"] r unfolding prod.collapse by metis
qed

text \<open>A thread on the heap: the block that is to be freed is the one that was allocated.\<close>

lemma heap_thread_life:
  assumes a: "chHeapAllocAligned prov dh heapp n PORT_WORKING_AREA_ALIGN (m, k, env) = Some (Ret w, m1, k1, env1)" and w: "w \<noteq> 0"
    and c: "page_ptr w + n - tsz \<noteq> current k1"
    and r: "chThdCreateFromHeap tsz prov dh heapp n nm p (m, k, env) = Some (Ret tp, m2, k2, env2)"
    and fin: "finished tp k2 k3"
  shows "m2 = m1 \<and> tp = page_ptr w + n - tsz \<and> fst (chThdRelease tp k3) = FreeHeap (page_ptr w)"
proof -
  let ?r = "thread_in tsz (page_ptr w) n nm p from_heap k1"
  have e: "m2 = m1" "tp = fst ?r" "k2 = snd ?r" using r a w by (auto simp: chThdCreateFromHeap_def split_beta)
  have tp: "tp = page_ptr w + n - tsz" using e(2) thread_in_made(1) [OF c] by simp
  have "flags (thd k2 tp) = CH_FLAG_MODE_HEAP \<and> wabase (thd k2 tp) = page_ptr w"
    using thread_in_made(2) [OF c, of nm p from_heap] unfolding tp e(3) by (auto simp: from_heap_def)
  then show ?thesis
    using e(1) tp release_last(1) [OF fin] by (simp add: Let_def CH_FLAG_MODE_HEAP_def CH_FLAG_MODE_MASK_def)
qed

end
