(* ===== verification/Port.thy ===== *)
theory Port
  imports System
begin

text \<open>
  The port layer for the Cortex-M3 (chcore_v7m.h, chcore_v7m.c, the code of chcoreasm_v7m.S that they
  rely on) and the critical sections of chsys.h and chsys.c.

  The processor is its interrupt mask registers, the number of active exceptions, the registers of
  the running thread and, for every thread, the exception frames on its process stack and what
  \<open>_port_switch\<close> saved.  Code is named by where it is: an address of a thread, or a label of
  the assembly file.  Handlers that interrupt others run on the main stack and are part of
  the handler they interrupt.
\<close>

section \<open>Priorities\<close>

definition CORTEX_PRIO_MASK :: "u32 \<Rightarrow> u32" where "CORTEX_PRIO_MASK n = push_bit 4 n"
definition CORTEX_PRIORITY_LEVELS :: u32 where "CORTEX_PRIORITY_LEVELS = 16"
definition CORTEX_PRIORITY_SVCALL :: u32 where "CORTEX_PRIORITY_SVCALL = 0 + 1"
definition CORTEX_MAX_KERNEL_PRIORITY :: u32 where "CORTEX_MAX_KERNEL_PRIORITY = CORTEX_PRIORITY_SVCALL + 1"
definition CORTEX_BASEPRI_KERNEL :: u32 where "CORTEX_BASEPRI_KERNEL = CORTEX_PRIO_MASK CORTEX_MAX_KERNEL_PRIORITY"
abbreviation CORTEX_BASEPRI_DISABLED :: u32 where "CORTEX_BASEPRI_DISABLED \<equiv> 0"

definition PORT_IRQ_IS_VALID_KERNEL_PRIORITY :: "u32 \<Rightarrow> bool" where
  "PORT_IRQ_IS_VALID_KERNEL_PRIORITY n \<longleftrightarrow> CORTEX_MAX_KERNEL_PRIORITY \<le> n \<and> n < CORTEX_PRIORITY_LEVELS"

lemmas prio_defs = CORTEX_PRIO_MASK_def CORTEX_PRIORITY_LEVELS_def CORTEX_PRIORITY_SVCALL_def CORTEX_MAX_KERNEL_PRIORITY_def
  CORTEX_BASEPRI_KERNEL_def PORT_IRQ_IS_VALID_KERNEL_PRIORITY_def

section \<open>The processor\<close>

datatype code = Thread u32 | PORT_SWITCH_FROM_ISR | AFTER_RESCHEDULE | PORT_EXIT_FROM_ISR | AFTER_SVC

record extctx =
  x_regs :: "u32 list"
  x_pc :: code
  x_xpsr :: u32

record intctx =
  i_regs :: "u32 list"
  i_lr :: code

record cpu =
  kern :: kernel
  basepri :: u32
  primask :: bool
  active :: nat
  regs :: "u32 list"
  callee :: "u32 list"
  pc :: code
  xpsr :: u32
  psp :: "ptr \<Rightarrow> extctx list"
  ctx :: "ptr \<Rightarrow> intctx"

text \<open>Hardware: an interrupt of a priority is taken; entry and return of an exception in thread mode.\<close>

definition can_take :: "u32 \<Rightarrow> cpu \<Rightarrow> bool" where
  "can_take n s \<longleftrightarrow> \<not> primask s \<and> (basepri s = 0 \<or> CORTEX_PRIO_MASK n < basepri s)"

definition push_frame :: "extctx \<Rightarrow> cpu \<Rightarrow> cpu" where
  "push_frame x s = s\<lparr>psp := (psp s)(current (kern s) := x # psp s (current (kern s)))\<rparr>"

definition pop_frame :: "cpu \<Rightarrow> cpu" where
  "pop_frame s = s\<lparr>psp := (psp s)(current (kern s) := tl (psp s (current (kern s))))\<rparr>"

definition exception_entry :: "cpu \<Rightarrow> cpu" where
  "exception_entry s =
    (let s = (if active s = 0 then push_frame \<lparr>x_regs = regs s, x_pc = pc s, x_xpsr = xpsr s\<rparr> s else s)
     in s\<lparr>active := active s + 1\<rparr>)"

definition exception_return :: "cpu \<Rightarrow> cpu" where
  "exception_return s =
    (if active s = 1
     then (let x = List.hd (psp s (current (kern s)))
           in pop_frame (s\<lparr>regs := x_regs x, pc := x_pc x, xpsr := x_xpsr x, active := 0\<rparr>))
     else s\<lparr>active := active s - 1\<rparr>)"

section \<open>Masking\<close>

definition port_lock :: "cpu \<Rightarrow> cpu" where "port_lock s = s\<lparr>basepri := CORTEX_BASEPRI_KERNEL\<rparr>"
definition port_unlock :: "cpu \<Rightarrow> cpu" where "port_unlock s = s\<lparr>basepri := CORTEX_BASEPRI_DISABLED\<rparr>"
definition port_lock_from_isr :: "cpu \<Rightarrow> cpu" where "port_lock_from_isr s = port_lock s"
definition port_unlock_from_isr :: "cpu \<Rightarrow> cpu" where "port_unlock_from_isr s = port_unlock s"
definition port_disable :: "cpu \<Rightarrow> cpu" where "port_disable s = s\<lparr>primask := True\<rparr>"
definition port_suspend :: "cpu \<Rightarrow> cpu" where "port_suspend s = s\<lparr>basepri := CORTEX_BASEPRI_KERNEL, primask := False\<rparr>"
definition port_enable :: "cpu \<Rightarrow> cpu" where "port_enable s = s\<lparr>basepri := CORTEX_BASEPRI_DISABLED, primask := False\<rparr>"
definition port_get_irq_status :: "cpu \<Rightarrow> u32" where "port_get_irq_status s = basepri s"
definition port_irq_enabled :: "u32 \<Rightarrow> bool" where "port_irq_enabled sts \<longleftrightarrow> sts = CORTEX_BASEPRI_DISABLED"
definition port_is_isr_context :: "cpu \<Rightarrow> bool" where "port_is_isr_context s \<longleftrightarrow> active s \<noteq> 0"

definition chSysLock :: "cpu \<Rightarrow> cpu" where "chSysLock s = port_lock s"
definition chSysUnlock :: "cpu \<Rightarrow> cpu" where "chSysUnlock s = port_unlock s"
definition chSysLockFromISR :: "cpu \<Rightarrow> cpu" where "chSysLockFromISR s = port_lock_from_isr s"
definition chSysUnlockFromISR :: "cpu \<Rightarrow> cpu" where "chSysUnlockFromISR s = port_unlock_from_isr s"
definition chSysDisable :: "cpu \<Rightarrow> cpu" where "chSysDisable s = port_disable s"
definition chSysSuspend :: "cpu \<Rightarrow> cpu" where "chSysSuspend s = port_suspend s"
definition chSysEnable :: "cpu \<Rightarrow> cpu" where "chSysEnable s = port_enable s"

definition chSysUnconditionalLock :: "cpu \<Rightarrow> cpu" where
  "chSysUnconditionalLock s = (if port_irq_enabled (port_get_irq_status s) then chSysLock s else s)"

definition chSysUnconditionalUnlock :: "cpu \<Rightarrow> cpu" where
  "chSysUnconditionalUnlock s = (if \<not> port_irq_enabled (port_get_irq_status s) then chSysUnlock s else s)"

section \<open>Switching\<close>

text \<open>
  \<open>_port_switch\<close> saves the callee-saved registers and the return address of the thread that goes,
  and continues with those of the thread that comes.
\<close>

definition port_switch :: "ptr \<Rightarrow> ptr \<Rightarrow> code \<Rightarrow> cpu \<Rightarrow> cpu" where
  "port_switch ntp otp lr s =
    (let s = s\<lparr>ctx := (ctx s)(otp := \<lparr>i_regs = callee s, i_lr = lr\<rparr>)\<rparr>
     in s\<lparr>callee := i_regs (ctx s ntp), pc := i_lr (ctx s ntp)\<rparr>)"

text \<open>A kernel operation \<open>f\<close>, called from \<open>lr\<close>, that may end with a switch.\<close>

definition switching :: "(kernel \<Rightarrow> kernel) \<Rightarrow> code \<Rightarrow> cpu \<Rightarrow> cpu" where
  "switching f lr s =
    (let otp = current (kern s); s = s\<lparr>kern := f (kern s)\<rparr>; ntp = current (kern s)
     in if ntp = otp then s else port_switch ntp otp lr s)"

definition PORT_SETUP_CONTEXT :: "ptr \<Rightarrow> u32 \<Rightarrow> u32 \<Rightarrow> u32 \<Rightarrow> cpu \<Rightarrow> cpu" where
  "PORT_SETUP_CONTEXT tp pf arg start s =
    s\<lparr>ctx := (ctx s)(tp := \<lparr>i_regs = pf # arg # drop 2 (i_regs (ctx s tp)), i_lr = Thread start\<rparr>)\<rparr>"

text \<open>\<open>_port_thread_start\<close> up to the call of the work function, for a new thread that was switched to.\<close>

definition port_thread_start :: "cpu \<Rightarrow> cpu" where
  "port_thread_start s =
    (let s = s\<lparr>basepri := CORTEX_BASEPRI_DISABLED\<rparr>;
         s = s\<lparr>regs := (callee s ! 1) # tl (regs s)\<rparr>
     in s\<lparr>pc := Thread (callee s ! 0)\<rparr>)"

text \<open>The end of an interrupt handler; \<open>junk\<close> is what the stack happens to hold in the artificial frame.\<close>

definition irq_epilogue :: "u32 list \<Rightarrow> cpu \<Rightarrow> cpu" where
  "irq_epilogue junk s =
    (let s = port_lock_from_isr s
     in if active s = 1
        then push_frame \<lparr>x_regs = junk, x_pc = (if chSchIsPreemptionRequired (kern s) then PORT_SWITCH_FROM_ISR else PORT_EXIT_FROM_ISR),
               x_xpsr = 0x01000000\<rparr> s
        else port_unlock_from_isr s)"

text \<open>The SVC handler discards the frame of the supervisor call: the one below it is the interrupted context.\<close>

definition SVC_Handler :: "cpu \<Rightarrow> cpu" where
  "SVC_Handler s = port_unlock_from_isr (pop_frame s)"

definition port_exit_from_isr :: "cpu \<Rightarrow> cpu" where
  "port_exit_from_isr s = exception_return (SVC_Handler (exception_entry (s\<lparr>pc := AFTER_SVC\<rparr>)))"

definition port_switch_from_isr :: "cpu \<Rightarrow> cpu" where
  "port_switch_from_isr s = switching chSchDoReschedule AFTER_RESCHEDULE s"

text \<open>A handler with the effect \<open>f\<close> on the kernel, from its entry to the return from the exception.\<close>

definition handle :: "(kernel \<Rightarrow> kernel) \<Rightarrow> u32 list \<Rightarrow> cpu \<Rightarrow> cpu" where
  "handle f junk s =
    (let s = exception_entry s;
         s = s\<lparr>kern := f (kern s)\<rparr>
     in exception_return (irq_epilogue junk s))"

section \<open>Critical sections of unknown context\<close>

definition chSysGetStatusAndLockX :: "cpu \<Rightarrow> u32 \<times> cpu" where
  "chSysGetStatusAndLockX s =
    (let sts = port_get_irq_status s
     in (sts, if port_irq_enabled sts then (if port_is_isr_context s then chSysLockFromISR s else chSysLock s) else s))"

definition chSysRestoreStatusX :: "u32 \<Rightarrow> code \<Rightarrow> cpu \<Rightarrow> cpu" where
  "chSysRestoreStatusX sts lr s =
    (if port_irq_enabled sts
     then (if port_is_isr_context s then chSysUnlockFromISR s
           else (let s' = switching chSchRescheduleS lr s
                 in if current (kern s') = current (kern s) then chSysUnlock s' else s'))
     else s)"

text \<open>When it switched, the thread goes on with the unlock when it runs again.\<close>

definition chSysRestoreStatusX_resume :: "cpu \<Rightarrow> cpu" where
  "chSysRestoreStatusX_resume s = chSysUnlock s"

text \<open>A thread whose context was set up starts, when it is first switched to, in its function with its argument.\<close>

lemma thread_start_correct:
  fixes s :: cpu and start arg pf :: u32 and lr :: code
  assumes "tp \<noteq> otp"
  defines "s1 \<equiv> port_switch tp otp lr (PORT_SETUP_CONTEXT tp pf arg start s)"
  shows "pc s1 = Thread start" and "pc (port_thread_start s1) = Thread pf" and "List.hd (regs (port_thread_start s1)) = arg"
    and "basepri (port_thread_start s1) = 0"
  using assms by (simp_all add: port_thread_start_def port_switch_def PORT_SETUP_CONTEXT_def Let_def)

section \<open>Interrupts are transparent\<close>

text \<open>A thread runs outside critical sections and handlers.\<close>

definition thread_mode :: "cpu \<Rightarrow> bool" where
  "thread_mode s \<longleftrightarrow> active s = 0 \<and> basepri s = 0 \<and> \<not> primask s"

text \<open>The handler returns into thread mode with the lock held, above the frame of the interrupted code.\<close>

lemma handle_eq:
  assumes a: "active s = 0" and c: "current (f (kern s)) = current (kern s)"
  defines "x \<equiv> \<lparr>x_regs = regs s, x_pc = pc s, x_xpsr = xpsr s\<rparr>"
  shows "handle f junk s = s\<lparr>kern := f (kern s), basepri := CORTEX_BASEPRI_KERNEL, regs := junk, xpsr := 0x01000000,
    pc := (if chSchIsPreemptionRequired (f (kern s)) then PORT_SWITCH_FROM_ISR else PORT_EXIT_FROM_ISR),
    psp := (psp s)(current (kern s) := x # psp s (current (kern s)))\<rparr>"
  using a c by (simp add: handle_def exception_entry_def irq_epilogue_def exception_return_def port_lock_from_isr_def port_lock_def
      push_frame_def pop_frame_def Let_def x_def)

text \<open>Leaving from above such a frame resumes the interrupted code.\<close>

lemma exit_eq:
  assumes "active s = 0" and "psp s (current (kern s)) = x # r"
  shows "port_exit_from_isr s = s\<lparr>basepri := 0, regs := x_regs x, pc := x_pc x, xpsr := x_xpsr x,
    psp := (psp s)(current (kern s) := r)\<rparr>"
  using assms by (simp add: port_exit_from_isr_def exception_entry_def SVC_Handler_def exception_return_def port_unlock_from_isr_def
      port_unlock_def push_frame_def pop_frame_def Let_def)

lemma preempts:
  assumes "chSchIsPreemptionRequired k"
  shows "port_irq_epilogue k = chSchDoReschedule k" and "current (chSchDoReschedule k) = List.hd (qs k RLIST)"
  using assms by (auto simp: port_irq_epilogue_def chSchIsPreemptionRequired_def firstprio_def NOPRIO_def chSchDoReschedule_def
      chSchDoRescheduleAhead_def take_first_def queue_fifo_remove_def chSchReadyAheadI_def Let_def split: list.splits)

text \<open>
  C14: Interrupts are transparent to threads and the kernel.  A handler of the kernel runs its effect and
  the preemption check of the system model.  Without preemption the thread goes on where it was, with
  its registers, its stack and interrupts enabled; with it, the lock stays held across the switch to
  the first ready thread, and when the interrupted thread is switched in again, in whatever
  state of the rest, leaving restores all of that.
\<close>

theorem interrupt_transparent:
  fixes s :: cpu and f :: "kernel \<Rightarrow> kernel" and junk :: "u32 list"
  assumes t: "thread_mode s" and c: "current (f (kern s)) = current (kern s)" and k: "kinv kd idle D (f (kern s))" "current (f (kern s)) \<notin> D"
  defines "me \<equiv> current (kern s)" and "s1 \<equiv> handle f junk s"
  shows "if chSchIsPreemptionRequired (f (kern s))
    then (let s2 = port_switch_from_isr s1; new = current (kern s2) in
        pc s1 = PORT_SWITCH_FROM_ISR \<and> kern s2 = port_irq_epilogue (f (kern s)) \<and> new = List.hd (qs (f (kern s)) RLIST) \<and> new \<noteq> me \<and>
        basepri s2 = CORTEX_BASEPRI_KERNEL \<and> active s2 = 0 \<and> pc s2 = i_lr (ctx s new) \<and> callee s2 = i_regs (ctx s new) \<and>
        psp s2 new = psp s new \<and> i_lr (ctx s2 me) = AFTER_RESCHEDULE \<and>
        (\<forall>s3. active s3 = 0 \<longrightarrow> current (kern s3) = me \<longrightarrow> psp s3 me = psp s2 me \<longrightarrow> callee s3 = i_regs (ctx s2 me) \<longrightarrow>
          (let s4 = port_exit_from_isr s3 in regs s4 = regs s \<and> callee s4 = callee s \<and> pc s4 = pc s \<and> xpsr s4 = xpsr s \<and>
            psp s4 me = psp s me \<and> basepri s4 = 0 \<and> kern s4 = kern s3)))
    else pc s1 = PORT_EXIT_FROM_ISR \<and> port_exit_from_isr s1 = s\<lparr>kern := port_irq_epilogue (f (kern s))\<rparr>"
proof -
  have a: "active s = 0" "basepri s = 0" using t by (auto simp: thread_mode_def)
  note h = handle_eq [where f = f and junk = junk, OF a(1) c]
  show ?thesis
  proof (cases "chSchIsPreemptionRequired (f (kern s))")
    case False
    have "active s1 = 0" "psp s1 (current (kern s1)) = \<lparr>x_regs = regs s, x_pc = pc s, x_xpsr = xpsr s\<rparr> # psp s me"
      unfolding s1_def h using a c by (simp_all add: me_def)
    note e = exit_eq [OF this]
    have "port_exit_from_isr s1 = s\<lparr>kern := f (kern s)\<rparr>"
      unfolding e by (rule cpu.equality) (use a c in \<open>simp_all add: s1_def h me_def\<close>)
    then show ?thesis using False unfolding s1_def h by (simp add: port_irq_epilogue_def)
  next
    case True
    note pr = preempts [OF True]
    have ne: "qs (f (kern s)) RLIST \<noteq> []" using True by (auto simp: chSchIsPreemptionRequired_def firstprio_def NOPRIO_def)
    then have new: "current (chSchDoReschedule (f (kern s))) \<noteq> me"
      using current_not_queued [OF k, of RLIST] c pr(2) hd_in_set [OF ne] unfolding me_def by metis
    then have sw: "port_switch_from_isr s1 = port_switch (current (chSchDoReschedule (f (kern s)))) me AFTER_RESCHEDULE
        (s1\<lparr>kern := chSchDoReschedule (f (kern s))\<rparr>)"
      using c unfolding s1_def h by (simp add: port_switch_from_isr_def switching_def Let_def me_def)
    let ?s2 = "port_switch_from_isr s1" and ?new = "current (chSchDoReschedule (f (kern s)))"
    have s1: "active s1 = 0" "callee s1 = callee s" "ctx s1 = ctx s" "basepri s1 = CORTEX_BASEPRI_KERNEL" "pc s1 = PORT_SWITCH_FROM_ISR"
      "psp s1 = (psp s)(me := \<lparr>x_regs = regs s, x_pc = pc s, x_xpsr = xpsr s\<rparr> # psp s me)"
      unfolding s1_def h using a True by (simp_all add: me_def)
    have s2: "kern ?s2 = chSchDoReschedule (f (kern s))" "psp ?s2 = psp s1" "active ?s2 = 0" "basepri ?s2 = CORTEX_BASEPRI_KERNEL"
      "ctx ?s2 = (ctx s)(me := \<lparr>i_regs = callee s, i_lr = AFTER_RESCHEDULE\<rparr>)" "pc ?s2 = i_lr (ctx s ?new)"
      "callee ?s2 = i_regs (ctx s ?new)"
      unfolding sw port_switch_def Let_def using s1 new by simp_all
    have ex: "regs s4 = regs s \<and> callee s4 = callee s \<and> pc s4 = pc s \<and> xpsr s4 = xpsr s \<and> psp s4 me = psp s me \<and> basepri s4 = 0 \<and> kern s4 = kern s3"
      if "active s3 = 0" "current (kern s3) = me" "psp s3 me = psp ?s2 me" "callee s3 = i_regs (ctx ?s2 me)" "s4 = port_exit_from_isr s3" for s3 s4
    proof -
      have "psp s3 (current (kern s3)) = \<lparr>x_regs = regs s, x_pc = pc s, x_xpsr = xpsr s\<rparr> # psp s me" "callee s3 = callee s"
        using that(2-4) s1(6) s2(2,5) by simp_all
      then show ?thesis using exit_eq [OF that(1)] that(2,5) by simp
    qed
    have "psp ?s2 ?new = psp s ?new" "i_lr (ctx ?s2 me) = AFTER_RESCHEDULE" using s1(6) s2(2,5) new by simp_all
    moreover have "\<forall>s3. active s3 = 0 \<longrightarrow> current (kern s3) = me \<longrightarrow> psp s3 me = psp ?s2 me \<longrightarrow> callee s3 = i_regs (ctx ?s2 me) \<longrightarrow>
        regs (port_exit_from_isr s3) = regs s \<and> callee (port_exit_from_isr s3) = callee s \<and> pc (port_exit_from_isr s3) = pc s \<and>
        xpsr (port_exit_from_isr s3) = xpsr s \<and> psp (port_exit_from_isr s3) me = psp s me \<and> basepri (port_exit_from_isr s3) = 0 \<and>
        kern (port_exit_from_isr s3) = kern s3"
      using ex by blast
    moreover have "kern ?s2 = port_irq_epilogue (f (kern s))" "current (kern ?s2) = ?new" "?new = List.hd (qs (f (kern s)) RLIST)"
      using pr s2(1) by simp_all
    ultimately show ?thesis unfolding if_P [OF True] Let_def using new s1(5) s2(3,4,6,7) by metis
  qed
qed

text \<open>An interrupt makes a thread ready that has a higher priority than the interrupted one.\<close>

definition cpu0 :: cpu where
  "cpu0 = \<lparr>kern = peer_boot, basepri = 0, primask = False, active = 0, regs = [1, 2, 3, 4, 12, 14], callee = [4, 5, 6, 7, 8, 9, 10, 11],
    pc = Thread 0x8000100, xpsr = 0x21000000, psp = (\<lambda>_. []), ctx = (\<lambda>t. \<lparr>i_regs = [], i_lr = Thread (0x8000000 + t)\<rparr>)\<rparr>"

lemma interrupt_transparent_witness:
  "(let s2 = port_switch_from_isr (handle (chSchReadyI 5) [] cpu0) in
    current (kern s2) = 5 \<and> pc s2 = Thread 0x8000005 \<and> basepri s2 = CORTEX_BASEPRI_KERNEL \<and>
    kern s2 = port_irq_epilogue (chSchReadyI 5 peer_boot))"
proof -
  have t: "thread_mode cpu0" by (simp add: thread_mode_def cpu0_def)
  have st: "\<not> queued (tstate peer_boot 5)" "5 \<noteq> current peer_boot"
    by (simp_all add: peer_boot_def boot_thread_def queued_def boot_def)
  have k: "kinv (\<lambda>_. KSem) 2 {} (chSchReadyI 5 peer_boot)" using kinv_start(1) [OF kinv_peer_boot st] .
  have c: "current (chSchReadyI 5 (kern cpu0)) = current (kern cpu0)" "kern cpu0 = peer_boot" "ctx cpu0 5 = \<lparr>i_regs = [], i_lr = Thread 0x8000005\<rparr>"
    by (simp_all add: cpu0_def)
  have pre: "chSchIsPreemptionRequired (chSchReadyI 5 peer_boot)" and h: "List.hd (qs (chSchReadyI 5 peer_boot) RLIST) = 5"
    by (simp_all add: chSchIsPreemptionRequired_def firstprio_def peer_boot_def boot_def boot_thread_def q_prio_insert_def ins_where_def
        NORMALPRIO_def IDLEPRIO_def)
  let ?s2 = "port_switch_from_isr (handle (chSchReadyI 5) [] cpu0)"
  have r: "current (kern ?s2) = 5 \<and> pc ?s2 = i_lr (ctx cpu0 (current (kern ?s2))) \<and> basepri ?s2 = CORTEX_BASEPRI_KERNEL \<and>
      kern ?s2 = port_irq_epilogue (chSchReadyI 5 peer_boot)"
    using interrupt_transparent [where f = "chSchReadyI 5" and kd = "\<lambda>_. KSem" and idle = 2 and D = "{}" and junk = "[]", OF t c(1)]
      k pre h unfolding c(2) Let_def by (simp only: if_True empty_iff not_False_eq_True simp_thms) auto
  have "i_lr (ctx cpu0 5) = Thread 0x8000005" using c(3) by simp
  then show ?thesis using r unfolding Let_def by metis
qed

section \<open>Critical sections\<close>

lemma mask_less: "n < CORTEX_PRIORITY_LEVELS \<Longrightarrow> CORTEX_PRIO_MASK n < CORTEX_BASEPRI_KERNEL \<longleftrightarrow> n < CORTEX_MAX_KERNEL_PRIORITY"
proof -
  assume "n < CORTEX_PRIORITY_LEVELS"
  then have n: "unat n < 16" by (simp add: prio_defs word_less_nat_alt)
  then have "unat (CORTEX_PRIO_MASK n) = unat n * 16"
    by (simp add: CORTEX_PRIO_MASK_def push_bit_eq_mult unat_word_ariths)
  moreover have "unat CORTEX_BASEPRI_KERNEL = 32" "unat CORTEX_MAX_KERNEL_PRIORITY = 2" by (simp_all add: prio_defs)
  ultimately show ?thesis by (auto simp: word_less_nat_alt)
qed

text \<open>
  C25: Critical sections.  While the lock is held no interrupt of a kernel priority is taken, but the fast ones
  are; the lock of unknown context can be nested: its inner restore changes nothing, the outer one of a
  handler only unmasks, and the outer one of a thread reschedules, so that the thread of
  highest priority runs, and unmasks unless it switched.
\<close>

theorem critical_section_correct:
  assumes n: "n < CORTEX_PRIORITY_LEVELS" and m: "basepri s \<in> {0, CORTEX_BASEPRI_KERNEL}" "\<not> primask s" and k: "sys_ok kd idle X k'"
  shows "(case chSysGetStatusAndLockX s of (sts, s1) \<Rightarrow>
    (can_take n s1 \<longleftrightarrow> \<not> PORT_IRQ_IS_VALID_KERNEL_PRIORITY n) \<and> (can_take n (chSysLock s) \<longleftrightarrow> \<not> PORT_IRQ_IS_VALID_KERNEL_PRIORITY n) \<and>
    can_take n (chSysUnlock s) \<and>
    (let s2 = chSysRestoreStatusX sts lr (s1\<lparr>kern := k'\<rparr>) in
      if basepri s = CORTEX_BASEPRI_KERNEL \<or> active s \<noteq> 0 then s2 = s\<lparr>kern := k'\<rparr>
      else sys_ok kd idle X (kern s2) \<and> highest (kern s2) \<and>
        (current (kern s2) = current k' \<longrightarrow> s2 = s\<lparr>kern := chSchRescheduleS k'\<rparr>) \<and>
        (current (kern s2) \<noteq> current k' \<longrightarrow> basepri s2 = CORTEX_BASEPRI_KERNEL)))"
proof -
  have kp: "CORTEX_BASEPRI_KERNEL \<noteq> 0" by (simp add: prio_defs)
  have take: "can_take n t \<longleftrightarrow> \<not> PORT_IRQ_IS_VALID_KERNEL_PRIORITY n" if "basepri t = CORTEX_BASEPRI_KERNEL" "\<not> primask t" for t
    using that mask_less [OF n] n kp by (auto simp: can_take_def PORT_IRQ_IS_VALID_KERNEL_PRIORITY_def not_less)
  note d = chSysGetStatusAndLockX_def port_get_irq_status_def port_irq_enabled_def port_is_isr_context_def chSysLockFromISR_def
    chSysLock_def port_lock_from_isr_def port_lock_def Let_def
  obtain sts s1 where g: "chSysGetStatusAndLockX s = (sts, s1)" by (cases "chSysGetStatusAndLockX s")
  have s1: "s1 = s\<lparr>basepri := CORTEX_BASEPRI_KERNEL\<rparr>" "sts = basepri s" using g m by (auto simp: d split: if_splits)
  let ?t = "s1\<lparr>kern := k'\<rparr>"
  have sw: "kern (switching chSchRescheduleS lr ?t) = chSchRescheduleS k'" "basepri (switching chSchRescheduleS lr ?t) = CORTEX_BASEPRI_KERNEL"
    "current (chSchRescheduleS k') = current k' \<Longrightarrow> switching chSchRescheduleS lr ?t = ?t\<lparr>kern := chSchRescheduleS k'\<rparr>"
    by (simp_all add: switching_def port_switch_def s1(1) Let_def)
  have "let s2 = chSysRestoreStatusX sts lr ?t in
      if basepri s = CORTEX_BASEPRI_KERNEL \<or> active s \<noteq> 0 then s2 = s\<lparr>kern := k'\<rparr>
      else sys_ok kd idle X (kern s2) \<and> highest (kern s2) \<and>
        (current (kern s2) = current k' \<longrightarrow> s2 = s\<lparr>kern := chSchRescheduleS k'\<rparr>) \<and>
        (current (kern s2) \<noteq> current k' \<longrightarrow> basepri s2 = CORTEX_BASEPRI_KERNEL)"
  proof (cases "basepri s = CORTEX_BASEPRI_KERNEL \<or> active s \<noteq> 0")
    case True
    then show ?thesis
      using m kp by (auto simp: chSysRestoreStatusX_def s1 d chSysUnlockFromISR_def port_unlock_from_isr_def port_unlock_def)
  next
    case False
    then have "basepri s = 0" "active s = 0" using m by auto
    then show ?thesis using sw sys_reschedule [OF k] kp False
      by (auto simp: chSysRestoreStatusX_def s1 d chSysUnlock_def port_unlock_def)
  qed
  moreover have "can_take n s1 \<longleftrightarrow> \<not> PORT_IRQ_IS_VALID_KERNEL_PRIORITY n" "can_take n (chSysLock s) \<longleftrightarrow> \<not> PORT_IRQ_IS_VALID_KERNEL_PRIORITY n"
    by (rule take; use m s1 in \<open>simp add: chSysLock_def port_lock_def\<close>)+
  moreover have "can_take n (chSysUnlock s)" using m by (simp add: chSysUnlock_def port_unlock_def can_take_def)
  ultimately show ?thesis unfolding g by simp
qed

theorem critical_section_correct_witness:
  "case chSysGetStatusAndLockX cpu0 of (sts, s1) \<Rightarrow>
    can_take 1 s1 \<and> \<not> can_take 5 s1 \<and>
    (let s2 = chSysRestoreStatusX sts (Thread 0x8000001) (s1\<lparr>kern := boot\<rparr>) in
      sys_ok sys_kind 2 {} (kern s2) \<and> highest (kern s2))"
proof -
  have m: "basepri cpu0 \<in> {0, CORTEX_BASEPRI_KERNEL}" "\<not> primask cpu0" by (simp_all add: cpu0_def)
  have n: "(1::u32) < CORTEX_PRIORITY_LEVELS" "(5::u32) < CORTEX_PRIORITY_LEVELS" by (simp_all add: prio_defs)
  have v: "\<not> PORT_IRQ_IS_VALID_KERNEL_PRIORITY 1" "PORT_IRQ_IS_VALID_KERNEL_PRIORITY 5" by (simp_all add: prio_defs word_le_nat_alt word_less_nat_alt)
  have b: "\<not> (basepri cpu0 = CORTEX_BASEPRI_KERNEL \<or> active cpu0 \<noteq> 0)"
    by (simp add: cpu0_def prio_defs push_bit_eq_mult)
  obtain sts s1 where g: "chSysGetStatusAndLockX cpu0 = (sts, s1)" by (cases "chSysGetStatusAndLockX cpu0")
  note c = critical_section_correct [where s = cpu0 and k' = boot and kd = sys_kind and idle = 2 and lr = "Thread 0x8000001", OF _ m sys_ok_boot,
    unfolded g prod.case]
  have "can_take 1 s1" using c [OF n(1)] v by blast
  moreover have "\<not> can_take 5 s1" using c [OF n(2)] v by blast
  moreover have "let s2 = chSysRestoreStatusX sts (Thread 0x8000001) (s1\<lparr>kern := boot\<rparr>) in sys_ok sys_kind 2 {} (kern s2) \<and> highest (kern s2)"
    using c [OF n(1)] b unfolding Let_def by (simp only: if_False)
  ultimately show ?thesis unfolding g by simp
qed

end
