(* ===== verification/Streams.thy ===== *)
theory Streams
  imports Kernel
begin

text \<open>
  Sequential streams: memory streams (memstreams.c) and null streams (nullstreams.c).  Memory is a
  function from addresses to bytes; a stream object holds the address of its buffer.  The
  interface that formatted output uses is the locale \<open>sink\<close>.
\<close>

section \<open>Memory\<close>

type_synonym mem = "u32 \<Rightarrow> u8"

fun load :: "mem \<Rightarrow> u32 \<Rightarrow> nat \<Rightarrow> u8 list" where
  "load m a 0 = []"
| "load m a (Suc n) = m a # load m (a + 1) n"

fun store :: "u32 \<Rightarrow> u8 list \<Rightarrow> mem \<Rightarrow> mem" where
  "store a [] m = m"
| "store a (b # bs) m = store (a + 1) bs (m(a := b))"

definition within :: "u32 \<Rightarrow> u32 \<Rightarrow> nat \<Rightarrow> bool" where
  "within x a n \<longleftrightarrow> unat (x - a) < n"

lemma load_nth: "load m a n = map (\<lambda>i. m (a + of_nat i)) [0..<n]"
proof (induction n arbitrary: a)
  case (Suc n)
  show ?case by (simp only: load.simps Suc upt_conv_Cons [OF zero_less_Suc] map_Suc_upt [symmetric] list.map)
    (simp add: add.assoc)
qed simp

lemma length_load [simp]: "length (load m a n) = n" by (simp add: load_nth)

lemma unat_bound: "unat (x :: u32) < 2 ^ 32"
  using unsigned_less [of x] by simp

lemma unat_index: "i < 2 ^ 32 \<Longrightarrow> unat (of_nat i :: u32) = i"
  by (simp add: unat_of_nat take_bit_nat_eq_self)

lemma within_add: "i < n \<Longrightarrow> n \<le> 2 ^ 32 \<Longrightarrow> within (a + of_nat i) a n"
  by (simp add: within_def unat_index)

lemma within_out: "\<not> within x a n \<Longrightarrow> n \<le> 2 ^ 32 \<Longrightarrow> i < n \<Longrightarrow> x \<noteq> a + of_nat i"
  using within_add by blast

lemma store_other: "length bs \<le> 2 ^ 32 \<Longrightarrow> \<not> within x a (length bs) \<Longrightarrow> store a bs m x = m x"
proof (induction bs arbitrary: a m)
  case (Cons b bs)
  have "x \<noteq> a" using within_out [OF Cons.prems(2,1), of 0] by simp
  moreover have "\<not> within x (a + 1) (length bs)"
  proof
    assume "within x (a + 1) (length bs)"
    then have "unat (x - (a + 1)) < length bs" "x = a + 1 + of_nat (unat (x - (a + 1)))" by (simp_all add: within_def)
    then obtain i where "i < length bs" "x = a + 1 + of_nat i" by blast
    then have "Suc i < length (b # bs)" "x = a + of_nat (Suc i)" by simp_all
    then show False using within_out [OF Cons.prems(2,1)] by blast
  qed
  ultimately show ?case using Cons by simp
qed simp

lemma load_store:
  "length bs \<le> 2 ^ 32 \<Longrightarrow> load (store a bs m) a (length bs) = bs"
proof (induction bs arbitrary: a m)
  case (Cons b bs)
  have "\<not> within a (a + 1) (length bs)"
    using Cons.prems by (simp add: within_def unsigned_minus_1_eq_mask mask_eq_exp_minus_1)
  then have "store (a + 1) bs (m(a := b)) a = b" using store_other [of bs a "a + 1"] Cons.prems by simp
  then show ?case using Cons by simp
qed simp

lemma load_cong: "(\<And>i. i < n \<Longrightarrow> m' (a + of_nat i) = m (a + of_nat i)) \<Longrightarrow> load m' a n = load m a n"
  by (simp add: load_nth)

lemma load_append: "load m a (n + k) = load m a n @ load m (a + of_nat n) k"
  by (induction n arbitrary: a) (simp_all add: add.assoc)

section \<open>Memory streams\<close>

record memstream =
  ms_buffer :: u32
  ms_size :: u32
  ms_eos :: u32
  ms_offset :: u32

type_synonym ms_state = "memstream \<times> mem"

definition ms_writes :: "u8 list \<Rightarrow> ms_state \<Rightarrow> u32 \<times> ms_state" where
  "ms_writes bp s =
    (case s of (ms, m) \<Rightarrow>
      (let n = of_nat (length bp);
           n = (if ms_size ms - ms_eos ms < n then ms_size ms - ms_eos ms else n);
           m = store (ms_buffer ms + ms_eos ms) (take (unat n) bp) m
       in (n, ms\<lparr>ms_eos := ms_eos ms + n\<rparr>, m)))"

definition ms_reads :: "u32 \<Rightarrow> u32 \<Rightarrow> ms_state \<Rightarrow> u32 \<times> ms_state" where
  "ms_reads bp n s =
    (case s of (ms, m) \<Rightarrow>
      (let n = (if ms_eos ms - ms_offset ms < n then ms_eos ms - ms_offset ms else n);
           m = store bp (load m (ms_buffer ms + ms_offset ms) (unat n)) m
       in (n, ms\<lparr>ms_offset := ms_offset ms + n\<rparr>, m)))"

definition ms_put :: "u8 \<Rightarrow> ms_state \<Rightarrow> msg \<times> ms_state" where
  "ms_put b s =
    (case s of (ms, m) \<Rightarrow>
      if ms_size ms - ms_eos ms \<le> 0 then (MSG_RESET, ms, m)
      else (let m = m(ms_buffer ms + ms_eos ms := b) in (MSG_OK, ms\<lparr>ms_eos := ms_eos ms + 1\<rparr>, m)))"

definition ms_get :: "ms_state \<Rightarrow> msg \<times> ms_state" where
  "ms_get s =
    (case s of (ms, m) \<Rightarrow>
      if ms_eos ms - ms_offset ms \<le> 0 then (MSG_RESET, ms, m)
      else (let b = m (ms_buffer ms + ms_offset ms) in (ucast b, ms\<lparr>ms_offset := ms_offset ms + 1\<rparr>, m)))"

definition msObjectInit :: "u32 \<Rightarrow> u32 \<Rightarrow> u32 \<Rightarrow> memstream" where
  "msObjectInit buf sz eos = \<lparr>ms_buffer = buf, ms_size = sz, ms_eos = eos, ms_offset = 0\<rparr>"

section \<open>Null streams\<close>

definition null_writes :: "u8 list \<Rightarrow> unit \<Rightarrow> u32 \<times> unit" where "null_writes bp s = (of_nat (length bp), s)"
definition null_reads :: "u32 \<Rightarrow> u32 \<Rightarrow> unit \<Rightarrow> u32 \<times> unit" where "null_reads bp n s = (0, s)"
definition null_put :: "u8 \<Rightarrow> unit \<Rightarrow> msg \<times> unit" where "null_put b s = (MSG_OK, s)"
definition null_get :: "unit \<Rightarrow> msg \<times> unit" where "null_get s = (4, s)"

section \<open>What a stream promises\<close>

text \<open>A sink takes bytes one by one, in order, up to its room, and refuses the others.\<close>

locale sink =
  fixes put :: "u8 \<Rightarrow> 's \<Rightarrow> msg \<times> 's"
    and ok :: "'s \<Rightarrow> bool"
    and bytes :: "'s \<Rightarrow> u8 list"
    and room :: "'s \<Rightarrow> nat"
  assumes put_room: "ok s \<Longrightarrow> 0 < room s \<Longrightarrow>
      ok (snd (put b s)) \<and> bytes (snd (put b s)) = bytes s @ [b] \<and> room (snd (put b s)) = room s - 1"
    and put_full: "ok s \<Longrightarrow> room s = 0 \<Longrightarrow> snd (put b s) = s"
begin

lemma put_all:
  "ok s \<Longrightarrow> ok (fold (\<lambda>b s. snd (put b s)) bs s) \<and>
    bytes (fold (\<lambda>b s. snd (put b s)) bs s) = bytes s @ take (room s) bs \<and>
    room (fold (\<lambda>b s. snd (put b s)) bs s) = room s - length bs"
proof (induction bs arbitrary: s)
  case (Cons b bs)
  show ?case
  proof (cases "room s = 0")
    case True
    then show ?thesis using Cons put_full [OF Cons.prems] by simp
  next
    case False
    then show ?thesis using Cons.IH [of "snd (put b s)"] put_room [OF Cons.prems, of b] by (cases "room s") simp_all
  qed
qed simp

end

text \<open>A memory stream: the bytes in its buffer up to the end of the stream.\<close>

definition ms_ok :: "ms_state \<Rightarrow> bool" where
  "ms_ok s \<longleftrightarrow> ms_offset (fst s) \<le> ms_eos (fst s) \<and> ms_eos (fst s) \<le> ms_size (fst s)"

definition ms_bytes :: "ms_state \<Rightarrow> u8 list" where
  "ms_bytes s = load (snd s) (ms_buffer (fst s)) (unat (ms_eos (fst s)))"

definition ms_room :: "ms_state \<Rightarrow> nat" where
  "ms_room s = unat (ms_size (fst s)) - unat (ms_eos (fst s))"

lemma ms_room_word: "ms_ok s \<Longrightarrow> unat (ms_size (fst s) - ms_eos (fst s)) = ms_room s"
  by (simp add: ms_ok_def ms_room_def unat_sub)

text \<open>The first bytes of a buffer do not change when bytes are stored behind them.\<close>

lemma load_before:
  assumes "n + length bs \<le> 2 ^ 32"
  shows "load (store (a + of_nat n) bs m) a n = load m a n"
proof (rule load_cong)
  fix i assume i: "i < n"
  have "\<not> within (a + of_nat i) (a + of_nat n) (length bs)"
  proof
    assume "within (a + of_nat i) (a + of_nat n) (length bs)"
    then have w: "unat (of_nat i - of_nat n :: u32) < length bs" by (simp add: within_def)
    let ?j = "unat (of_nat i - of_nat n :: u32)"
    have "(of_nat i :: u32) = of_nat (n + ?j)" by simp
    then have "unat (of_nat i :: u32) = unat (of_nat (n + ?j) :: u32)" by (rule arg_cong)
    moreover have "i < 2 ^ 32" "n + ?j < 2 ^ 32" using w assms i by simp_all
    ultimately have "i = n + ?j" by (metis unat_index)
    then show False using i by simp
  qed
  then show "store (a + of_nat n) bs m (a + of_nat i) = m (a + of_nat i)"
    using store_other [of bs "a + of_nat i" "a + of_nat n" m] assms by simp
qed

lemma load_appended:
  assumes "n + length bs \<le> 2 ^ 32"
  shows "load (store (a + of_nat n) bs m) a (n + length bs) = load m a n @ bs"
  using load_before [OF assms] load_store [of bs "a + of_nat n" m] assms by (simp add: load_append)

lemma ms_put_ok:
  assumes o: "ms_ok s" and r: "0 < ms_room s"
  shows "ms_put b s = (MSG_OK, (fst s)\<lparr>ms_eos := ms_eos (fst s) + 1\<rparr>, store (ms_buffer (fst s) + ms_eos (fst s)) [b] (snd s))"
    and "unat (ms_eos (fst s) + 1) = unat (ms_eos (fst s)) + 1"
proof -
  have "ms_size (fst s) - ms_eos (fst s) \<noteq> 0" using ms_room_word [OF o] r by (metis less_irrefl unat_0)
  then show "ms_put b s = (MSG_OK, (fst s)\<lparr>ms_eos := ms_eos (fst s) + 1\<rparr>, store (ms_buffer (fst s) + ms_eos (fst s)) [b] (snd s))"
    by (simp add: ms_put_def split_beta)
  have "unat (ms_eos (fst s)) < unat (ms_size (fst s))" using r by (simp add: ms_room_def)
  then show "unat (ms_eos (fst s) + 1) = unat (ms_eos (fst s)) + 1"
    using unat_bound [of "ms_size (fst s)"] by (simp add: unat_word_ariths)
qed

interpretation mss: sink ms_put ms_ok ms_bytes ms_room
proof
  fix s :: ms_state and b :: u8
  assume o: "ms_ok s"
  show "ms_ok (snd (ms_put b s)) \<and> ms_bytes (snd (ms_put b s)) = ms_bytes s @ [b] \<and> ms_room (snd (ms_put b s)) = ms_room s - 1"
    if r: "0 < ms_room s"
  proof -
    note p = ms_put_ok(1) [OF o r] and e = ms_put_ok(2) [OF o r]
    have u: "unat (ms_eos (fst s)) < unat (ms_size (fst s))" using r by (simp add: ms_room_def)
    have l: "unat (ms_eos (fst s)) + length [b] \<le> 2 ^ 32" using u unat_bound [of "ms_size (fst s)"] by simp
    have "ms_ok (snd (ms_put b s))" using o u e unfolding p by (simp add: ms_ok_def word_le_nat_alt)
    moreover have "ms_bytes (snd (ms_put b s)) = ms_bytes s @ [b]"
      using load_appended [OF l, of "ms_buffer (fst s)" "snd s"] e unfolding p
      by (simp add: ms_bytes_def del: load.simps store.simps)
    moreover have "ms_room (snd (ms_put b s)) = ms_room s - 1" using e unfolding p by (simp add: ms_room_def)
    ultimately show ?thesis by blast
  qed
  show "snd (ms_put b s) = s" if "ms_room s = 0"
    using ms_room_word [OF o] that by (simp add: ms_put_def split_beta word_unat_eq_iff)
qed

text \<open>The bulk write is the sequence of single writes; it stores nothing outside the room of the stream.\<close>

lemma ms_writes_ok:
  assumes o: "ms_ok s" and n: "length bp < 2 ^ 32"
  shows "unat (fst (ms_writes bp s)) = min (ms_room s) (length bp)"
    and "ms_ok (snd (ms_writes bp s))" and "ms_bytes (snd (ms_writes bp s)) = ms_bytes s @ take (ms_room s) bp"
    and "ms_offset (fst (snd (ms_writes bp s))) = ms_offset (fst s)" "ms_buffer (fst (snd (ms_writes bp s))) = ms_buffer (fst s)"
    and "\<not> within x (ms_buffer (fst s)) (unat (ms_size (fst s))) \<Longrightarrow> snd (snd (ms_writes bp s)) x = snd s x"
proof -
  let ?ms = "fst s" and ?k = "min (ms_room s) (length bp)"
  let ?n = "if ms_size ?ms - ms_eos ?ms < of_nat (length bp) then ms_size ?ms - ms_eos ?ms else of_nat (length bp)"
  have k: "unat ?n = ?k" using ms_room_word [OF o] n by (simp add: word_less_nat_alt unat_index)
  have w: "ms_writes bp s = (?n, ?ms\<lparr>ms_eos := ms_eos ?ms + ?n\<rparr>, store (ms_buffer ?ms + ms_eos ?ms) (take ?k bp) (snd s))"
    using k by (simp add: ms_writes_def split_beta Let_def)
  have le: "unat (ms_eos ?ms) + ?k \<le> unat (ms_size ?ms)" using o by (auto simp: ms_ok_def ms_room_def word_le_nat_alt min_def)
  have b: "unat (ms_size ?ms) < 2 ^ 32" by (rule unat_bound)
  have e: "unat (ms_eos ?ms + ?n) = unat (ms_eos ?ms) + ?k" using k le b by (simp add: unat_word_ariths)
  show "unat (fst (ms_writes bp s)) = ?k" unfolding w using k by simp
  show "ms_ok (snd (ms_writes bp s))" unfolding w using o le e by (simp add: ms_ok_def word_le_nat_alt)
  have t: "take (ms_room s) bp = take ?k bp" by (simp add: min_def)
  show "ms_bytes (snd (ms_writes bp s)) = ms_bytes s @ take (ms_room s) bp"
    using load_appended [of "unat (ms_eos ?ms)" "take ?k bp" "ms_buffer ?ms" "snd s"] le b e unfolding w t by (simp add: ms_bytes_def)
  show "ms_offset (fst (snd (ms_writes bp s))) = ms_offset ?ms" "ms_buffer (fst (snd (ms_writes bp s))) = ms_buffer ?ms" by (simp_all add: w)
  show "snd (snd (ms_writes bp s)) x = snd s x" if x: "\<not> within x (ms_buffer ?ms) (unat (ms_size ?ms))"
  proof -
    have "\<not> within x (ms_buffer ?ms + ms_eos ?ms) (length (take ?k bp))"
    proof
      assume "within x (ms_buffer ?ms + ms_eos ?ms) (length (take ?k bp))"
      then have l: "unat (x - (ms_buffer ?ms + ms_eos ?ms)) < ?k" by (simp add: within_def)
      have "x - ms_buffer ?ms = (x - (ms_buffer ?ms + ms_eos ?ms)) + ms_eos ?ms" by simp
      then have "unat (x - ms_buffer ?ms) = unat ((x - (ms_buffer ?ms + ms_eos ?ms)) + ms_eos ?ms)" by metis
      also have "\<dots> \<le> unat (x - (ms_buffer ?ms + ms_eos ?ms)) + unat (ms_eos ?ms)" by (simp only: unat_word_ariths mod_less_eq_dividend)
      finally show False using l le x unfolding within_def by linarith
    qed
    then show ?thesis using store_other [of "take ?k bp" x "ms_buffer ?ms + ms_eos ?ms" "snd s"] n unfolding w by simp
  qed
qed

text \<open>
  What is still to be read of a memory stream, and regions of memory that do not overlap
  (\<open>memcpy\<close> is undefined when its source and its destination do).
\<close>

definition ms_unread :: "ms_state \<Rightarrow> u8 list" where
  "ms_unread s = drop (unat (ms_offset (fst s))) (ms_bytes s)"

definition apart :: "u32 \<Rightarrow> nat \<Rightarrow> u32 \<Rightarrow> nat \<Rightarrow> bool" where
  "apart a n b k \<longleftrightarrow> (\<forall>x. \<not> (within x a n \<and> within x b k))"

text \<open>The bulk read takes from the read position on and stores to its destination only.\<close>

lemma ms_reads_ok:
  assumes o: "ms_ok s" and ap: "apart dst (unat k) (ms_buffer (fst s)) (unat (ms_size (fst s)))"
  shows "unat (fst (ms_reads dst k s)) = min (unat k) (length (ms_unread s))"
    and "load (snd (snd (ms_reads dst k s))) dst (unat (fst (ms_reads dst k s))) = take (unat k) (ms_unread s)"
    and "ms_ok (snd (ms_reads dst k s))" and "ms_bytes (snd (ms_reads dst k s)) = ms_bytes s"
    and "ms_unread (snd (ms_reads dst k s)) = drop (unat k) (ms_unread s)"
    and "\<not> within x dst (unat (fst (ms_reads dst k s))) \<Longrightarrow> snd (snd (ms_reads dst k s)) x = snd s x"
proof -
  let ?ms = "fst s"
  let ?off = "unat (ms_offset ?ms)" and ?eos = "unat (ms_eos ?ms)"
  let ?w = "if ms_eos ?ms - ms_offset ?ms < k then ms_eos ?ms - ms_offset ?ms else k"
  have le: "?off \<le> ?eos" "?eos \<le> unat (ms_size ?ms)" using o by (simp_all add: ms_ok_def word_le_nat_alt)
  have d: "unat (ms_eos ?ms - ms_offset ?ms) = ?eos - ?off" using o by (simp add: ms_ok_def unat_sub)
  have un: "length (ms_unread s) = ?eos - ?off" by (simp add: ms_unread_def ms_bytes_def)
  have w: "unat ?w = min (unat k) (length (ms_unread s))"
    using d un by (simp add: word_less_nat_alt min_def)
  have unread: "ms_unread s = load (snd s) (ms_buffer ?ms + ms_offset ?ms) (?eos - ?off)"
    using load_append [of "snd s" "ms_buffer ?ms" ?off "?eos - ?off"] le(1)
    by (simp add: ms_unread_def ms_bytes_def)
  have t: "load (snd s) (ms_buffer ?ms + ms_offset ?ms) (unat ?w) = take (unat k) (ms_unread s)"
    unfolding w unread by (simp add: load_nth take_map min_def)
  have r: "ms_reads dst k s = (?w, ?ms\<lparr>ms_offset := ms_offset ?ms + ?w\<rparr>, store dst (take (unat k) (ms_unread s)) (snd s))"
    unfolding t [symmetric] by (simp add: ms_reads_def split_beta Let_def)
  have len: "length (take (unat k) (ms_unread s)) = unat ?w" unfolding w by (simp add: min.commute)
  have big: "unat ?w \<le> 2 ^ 32" using unat_bound [of ?w] by linarith
  have sum: "unat (ms_offset ?ms + ?w) = ?off + unat ?w"
    using w un le unat_bound [of "ms_size ?ms"] by (simp add: unat_word_ariths)
  show "unat (fst (ms_reads dst k s)) = min (unat k) (length (ms_unread s))" unfolding r using w by simp
  show "load (snd (snd (ms_reads dst k s))) dst (unat (fst (ms_reads dst k s))) = take (unat k) (ms_unread s)"
    unfolding r fst_conv snd_conv len [symmetric] by (rule load_store) (use len big in simp)
  show "ms_ok (snd (ms_reads dst k s))"
    using le w un sum unfolding r by (simp add: ms_ok_def word_le_nat_alt)
  show out: "snd (snd (ms_reads dst k s)) x = snd s x" if "\<not> within x dst (unat (fst (ms_reads dst k s)))" for x
    using that store_other [of "take (unat k) (ms_unread s)" x dst "snd s"] len big unfolding r by simp
  have "snd (snd (ms_reads dst k s)) (ms_buffer ?ms + of_nat i) = snd s (ms_buffer ?ms + of_nat i)" if "i < ?eos" for i
  proof (rule out)
    have "within (ms_buffer ?ms + of_nat i) (ms_buffer ?ms) (unat (ms_size ?ms))"
      by (rule within_add) (use that le(2) unat_bound [of "ms_size ?ms"] in simp_all)
    then have "\<not> within (ms_buffer ?ms + of_nat i) dst (unat k)" using ap by (auto simp: apart_def)
    then show "\<not> within (ms_buffer ?ms + of_nat i) dst (unat (fst (ms_reads dst k s)))"
      unfolding r using w by (simp add: within_def)
  qed
  then have "load (snd (snd (ms_reads dst k s))) (ms_buffer ?ms) ?eos = load (snd s) (ms_buffer ?ms) ?eos"
    by (rule load_cong)
  then show bytes: "ms_bytes (snd (ms_reads dst k s)) = ms_bytes s"
    unfolding ms_bytes_def by (simp add: r)
  show "ms_unread (snd (ms_reads dst k s)) = drop (unat k) (ms_unread s)"
  proof -
    have "ms_unread (snd (ms_reads dst k s)) = drop (?off + unat ?w) (ms_bytes s)"
      unfolding ms_unread_def bytes using sum by (simp add: r)
    then show ?thesis unfolding w by (simp add: ms_unread_def add.commute min_def)
  qed
qed

text \<open>
  C35: A memory stream is a bounded queue of bytes that is written once. A bulk write accepts as much as
  there is room for, appends exactly that to the contents and changes no byte of memory outside the part of the
  buffer it fills. A bulk read that follows, to a destination apart from the buffer, gives in order what was
  unread before the write and then the bytes accepted, up to the number asked for, advances the read position
  over them, leaves the contents as they are and changes no byte of memory outside its destination.
\<close>

theorem memstream_write_read:
  assumes o: "ms_ok s" and n: "length bp < 2 ^ 32"
    and ap: "apart dst (unat k) (ms_buffer (fst s)) (unat (ms_size (fst s)))"
  shows "case ms_writes bp s of (n, s1) \<Rightarrow>
    unat n = min (ms_room s) (length bp) \<and> ms_ok s1 \<and> ms_bytes s1 = ms_bytes s @ take (ms_room s) bp \<and>
    {x. snd s1 x \<noteq> snd s x} \<subseteq> {x. within x (ms_buffer (fst s)) (unat (ms_size (fst s))) \<and>
        within x (ms_buffer (fst s) + ms_eos (fst s)) (unat n)} \<and>
    (case ms_reads dst k s1 of (n', s2) \<Rightarrow>
      unat n' = min (unat k) (length (ms_unread s) + unat n) \<and>
      load (snd s2) dst (unat n') = take (unat k) (ms_unread s @ take (ms_room s) bp) \<and>
      ms_unread s2 = drop (unat k) (ms_unread s @ take (ms_room s) bp) \<and>
      ms_ok s2 \<and> ms_bytes s2 = ms_bytes s1 \<and>
      {x. snd s2 x \<noteq> snd s1 x} \<subseteq> {x. within x dst (unat n')})"
proof -
  obtain n s1 where w: "ms_writes bp s = (n, s1)" by (cases "ms_writes bp s")
  obtain n' s2 where q: "ms_reads dst k s1 = (n', s2)" by (cases "ms_reads dst k s1")
  note o1 = ms_writes_ok [OF o n, unfolded w fst_conv snd_conv]
  have size: "ms_size (fst s1) = ms_size (fst s)" using w by (auto simp: ms_writes_def split_beta Let_def)
  have ap1: "apart dst (unat k) (ms_buffer (fst s1)) (unat (ms_size (fst s1)))" using ap o1(5) size by simp
  note o2 = ms_reads_ok [OF o1(2) ap1, unfolded q fst_conv snd_conv]
  have off: "unat (ms_offset (fst s)) \<le> length (ms_bytes s)" using o by (simp add: ms_ok_def ms_bytes_def word_le_nat_alt)
  have un: "ms_unread s1 = ms_unread s @ take (ms_room s) bp"
    using off by (simp add: ms_unread_def o1(3,4))
  have "snd s1 = store (ms_buffer (fst s) + ms_eos (fst s)) (take (unat n) bp) (snd s)"
    using w by (auto simp: ms_writes_def split_beta Let_def)
  moreover have "length (take (unat n) bp) = unat n" using o1(1) by simp
  ultimately have fill: "within x (ms_buffer (fst s) + ms_eos (fst s)) (unat n)" if "snd s1 x \<noteq> snd s x" for x
    using that store_other [of "take (unat n) bp" x "ms_buffer (fst s) + ms_eos (fst s)" "snd s"] n
    by (metis less_imp_le unat_bound)
  have ln: "length (take (ms_room s) bp) = unat n" using o1(1) by simp
  show ?thesis unfolding w prod.case q
    using o1(1,2,3) o1(6) fill o2(1,2,3,4,5) o2(6) un ln by (auto simp: min.commute)
qed

lemma memstream_write_read_witness:
  "case ms_writes [1, 2, 3] (msObjectInit 100 2 0, \<lambda>_. 0) of (n, s1) \<Rightarrow> unat n = 2 \<and>
    (case ms_reads 200 5 s1 of (n', s2) \<Rightarrow> load (snd s2) 200 (unat n') = [1, 2] \<and> ms_unread s2 = [])"
proof -
  have "apart 200 (unat (5 :: u32)) 100 (unat (2 :: u32))"
  proof -
    have "\<not> unat (x - 100) < 2" if "unat (x - 200) < 5" for x :: u32
    proof
      assume "unat (x - 100) < 2"
      moreover have "x - 200 = (x - 100) - 100" by simp
      ultimately have "x - 200 = 0 - 100 \<or> x - 200 = 1 - 100"
        by (metis less_2_cases unat_0 unat_1 word_unat_eq_iff One_nat_def)
      then show False using that by auto
    qed
    then show ?thesis by (auto simp: apart_def within_def)
  qed
  then show ?thesis
    using memstream_write_read [of "(msObjectInit 100 2 0, \<lambda>_. 0)" "[1, 2, 3]" 200 5]
    by (auto simp: ms_ok_def msObjectInit_def ms_room_def ms_unread_def ms_bytes_def split_beta)
qed

end
