(* ===== verification/Printf.thy ===== *)
theory Printf
  imports Streams
begin

text \<open>
  Formatted output (chprintf.c), in the configuration without floating point conversions.  A format is the
  list of its bytes with the terminating zero; what reading past the end of a format, an argument
  or a string would do, and arithmetic that overflows, is None.  An argument is a machine word or a string,
  which is what memory holds from its address on, or the null pointer.  \<open>int\<close> and \<open>long\<close> are both
  32 bits wide and \<open>char\<close> is unsigned, as on the target.
\<close>

section \<open>Numbers\<close>

abbreviation ch :: "char \<Rightarrow> u8" where "ch c \<equiv> of_char c"

definition MAX_FILLER :: nat where "MAX_FILLER = 11"

text \<open>
  The first loop of the conversion writes digits from the end of the buffer to its begin; \<open>q\<close> and
  \<open>p\<close> are indices.  The second moves them to the front.
\<close>

fun digits_loop :: "u32 \<Rightarrow> u32 \<Rightarrow> u32 \<Rightarrow> nat \<Rightarrow> u8 list \<Rightarrow> (nat \<times> u8 list) option" where
  "digits_loop radix l ll 0 buf = None"
| "digits_loop radix l ll (Suc q) buf =
    (if radix = 0 \<or> length buf \<le> q then None
     else (let i = l mod radix;
               i = i + 48;
               i = (if i > 57 then i + 7 else i);
               buf = buf[q := ucast i];
               l = l div radix;
               ll = ll div radix
           in if ll \<noteq> 0 then digits_loop radix l ll q buf else Some (q, buf)))"

fun copy_loop :: "nat \<Rightarrow> nat \<Rightarrow> nat \<Rightarrow> u8 list \<Rightarrow> (nat \<times> u8 list) option" where
  "copy_loop p q 0 buf = None"
| "copy_loop p q (Suc i) buf =
    (if length buf \<le> p \<or> length buf \<le> q then None
     else (let buf = buf[p := buf ! q]
           in if i \<noteq> 0 then copy_loop (p + 1) (q + 1) i buf else Some (p + 1, buf)))"

definition long_to_string_with_divisor :: "nat \<Rightarrow> u8 list \<Rightarrow> u32 \<Rightarrow> u32 \<Rightarrow> u32 \<Rightarrow> (nat \<times> u8 list) option" where
  "long_to_string_with_divisor p buf num radix divisor =
    (let ll = (if divisor = 0 then num else divisor)
     in do {
       (q, buf) \<leftarrow> digits_loop radix num ll (p + MAX_FILLER) buf;
       copy_loop p q (p + MAX_FILLER - q) buf
     })"

definition ch_ltoa :: "nat \<Rightarrow> u8 list \<Rightarrow> u32 \<Rightarrow> u32 \<Rightarrow> (nat \<times> u8 list) option" where
  "ch_ltoa p buf num radix = long_to_string_with_divisor p buf num radix 0"

section \<open>Conversions\<close>

datatype varg = Num u32 | Str "u8 list option"

definition tmpbuf :: "u8 list" where "tmpbuf = replicate (MAX_FILLER + 1) 0"

text \<open>The number that is a width or a precision, and the character behind it.\<close>

fun parse_num :: "int \<Rightarrow> u8 list \<Rightarrow> varg list \<Rightarrow> (u8 \<times> int \<times> u8 list \<times> varg list) option" where
  "parse_num w [] args = None"
| "parse_num w (c # fmt) args =
    (if ch CHR ''0'' \<le> c \<and> c \<le> ch CHR ''9''
     then (let w = w * 10 + uint (c - ch CHR ''0'') in if w < 2 ^ 31 then parse_num w fmt args else None)
     else if c = ch CHR ''*''
     then (case args of
         Num a # args \<Rightarrow> (let w = w * 10 + uint (ucast a :: u8) in if w < 2 ^ 31 then parse_num w fmt args else None)
       | _ \<Rightarrow> None)
     else Some (c, w, fmt, args))"

fun scan_string :: "int \<Rightarrow> u8 list \<Rightarrow> u8 list option" where
  "scan_string n [] = None"
| "scan_string n (b # bs) = (if b \<noteq> 0 \<and> n - 1 \<ge> 0 then map_option ((#) b) (scan_string (n - 1) bs) else Some [])"

definition number_text :: "u8 list \<Rightarrow> u32 \<Rightarrow> u32 \<Rightarrow> u8 list option" where
  "number_text sign l radix = map_option (\<lambda>(p, buf). take p buf) (ch_ltoa (length sign) (sign @ drop (length sign) tmpbuf) l radix)"

text \<open>The switch: the text of a conversion, the filler, and the arguments that are left.\<close>

definition conversion :: "u8 \<Rightarrow> u8 \<Rightarrow> int \<Rightarrow> varg list \<Rightarrow> (u8 list \<times> u8 \<times> varg list) option" where
  "conversion c filler precision args =
    (if c = ch CHR ''c''
     then (case args of Num a # args \<Rightarrow> Some ([ucast a], ch CHR '' '', args) | _ \<Rightarrow> None)
     else if c = ch CHR ''s''
     then (case args of
         Str so # args \<Rightarrow>
           (let s = (case so of None \<Rightarrow> map of_char ''(null)'' @ [0] | Some s \<Rightarrow> s);
                precision = (if precision = 0 then 32767 else precision)
            in map_option (\<lambda>t. (t, ch CHR '' '', args)) (scan_string precision s))
       | _ \<Rightarrow> None)
     else if c \<in> {ch CHR ''D'', ch CHR ''d'', ch CHR ''I'', ch CHR ''i''}
     then (case args of
         Num l # args \<Rightarrow>
           if sint l < 0
           then (if l = 0x80000000 then None
                 else map_option (\<lambda>t. (t, filler, args)) (number_text [ch CHR ''-''] (- l) 10))
           else map_option (\<lambda>t. (t, filler, args)) (number_text [] l 10)
       | _ \<Rightarrow> None)
     else if c \<in> {ch CHR ''X'', ch CHR ''x'', ch CHR ''U'', ch CHR ''u'', ch CHR ''O'', ch CHR ''o''}
     then (let radix = (if c \<in> {ch CHR ''X'', ch CHR ''x''} then 16 else if c \<in> {ch CHR ''U'', ch CHR ''u''} then 10 else 8)
           in case args of
             Num l # args \<Rightarrow> map_option (\<lambda>t. (t, filler, args)) (number_text [] l radix)
           | _ \<Rightarrow> None)
     else Some ([c], filler, args))"

definition flag :: "u8 \<Rightarrow> u8 list \<Rightarrow> (bool \<times> u8 list) option" where
  "flag b fmt = (case fmt of [] \<Rightarrow> None | c # r \<Rightarrow> Some (if c = b then (True, r) else (False, fmt)))"

definition long_modifier :: "u8 \<Rightarrow> u8 list \<Rightarrow> (u8 \<times> u8 list) option" where
  "long_modifier c fmt =
    (if c = ch CHR ''l'' \<or> c = ch CHR ''L''
     then (case fmt of [] \<Rightarrow> None | b # r \<Rightarrow> Some (if b \<noteq> 0 then (b, r) else (c, fmt)))
     else Some (c, fmt))"

text \<open>All that follows a percent sign.\<close>

definition directive :: "u8 list \<Rightarrow> varg list \<Rightarrow> (bool \<times> u8 \<times> int \<times> u8 list \<times> u8 list \<times> varg list) option" where
  "directive fmt args =
    do {
      (left_align, fmt) \<leftarrow> flag (ch CHR ''-'') fmt;
      (zero, fmt) \<leftarrow> flag (ch CHR ''0'') fmt;
      (c, width, fmt, args) \<leftarrow> parse_num 0 fmt args;
      (c, precision, fmt, args) \<leftarrow> (if c = ch CHR ''.'' then parse_num 0 fmt args else Some (c, 0, fmt, args));
      (c, fmt) \<leftarrow> long_modifier c fmt;
      (text, filler, args) \<leftarrow> conversion c (if zero then ch CHR ''0'' else ch CHR '' '') precision args;
      Some (left_align, filler, width, text, fmt, args)
    }"

section \<open>Output\<close>

text \<open>The stream, an argument, with the count of the bytes put into it.\<close>

definition stream_put :: "(u8 \<Rightarrow> 's \<Rightarrow> msg \<times> 's) \<Rightarrow> u8 \<Rightarrow> nat \<times> 's \<Rightarrow> nat \<times> 's" where
  "stream_put put b st = (case st of (n, s) \<Rightarrow> (n + 1, snd (put b s)))"

definition put_field :: "(u8 \<Rightarrow> 's \<Rightarrow> msg \<times> 's) \<Rightarrow> bool \<Rightarrow> u8 \<Rightarrow> int \<Rightarrow> u8 list \<Rightarrow> nat \<times> 's \<Rightarrow> nat \<times> 's" where
  "put_field put left_align filler width text st =
    (let i = int (length text);
         width = width - i;
         width = (if width < 0 then 0 else width);
         width = (if left_align then width else - width);
         (text, width, st) =
           (if width < 0
            then (let (text, st) = (if text \<noteq> [] \<and> List.hd text = ch CHR ''-'' \<and> filler = ch CHR ''0''
                                    then (tl text, stream_put put (List.hd text) st) else (text, st))
                  in (text, 0, (stream_put put filler ^^ nat (- width)) st))
            else (text, width, st));
         st = fold (stream_put put) text st
     in (stream_put put filler ^^ nat width) st)"

lemma parse_num_shorter:
  "parse_num w fmt args = Some (c, w', fmt', args') \<Longrightarrow> length fmt' < length fmt"
  by (induction w fmt args arbitrary: c w' fmt' args' rule: parse_num.induct)
    (fastforce split: if_splits list.splits varg.splits simp: Let_def)+

lemma directive_shorter:
  assumes "directive fmt args = Some (la, fi, w, t, fmt', args')"
  shows "length fmt' < length fmt"
proof -
  have f: "length r \<le> length x" if "flag b x = Some (z, r)" for b x z r
    using that by (auto simp: flag_def split: list.splits if_splits)
  have l: "length r \<le> length x" if "long_modifier c x = Some (z, r)" for c x z r
    using that by (auto simp: long_modifier_def split: list.splits if_splits)
  show ?thesis using assms
    by (auto simp: directive_def split: if_splits bind_splits dest!: f l parse_num_shorter)
qed

function chvprintf :: "(u8 \<Rightarrow> 's \<Rightarrow> msg \<times> 's) \<Rightarrow> u8 list \<Rightarrow> varg list \<Rightarrow> nat \<times> 's \<Rightarrow> (nat \<times> 's) option" where
  "chvprintf put [] args st = None"
| "chvprintf put (c # fmt) args st =
    (if c = 0 then Some st
     else if c \<noteq> ch CHR ''%'' then chvprintf put fmt args (stream_put put c st)
     else (case directive fmt args of
         None \<Rightarrow> None
       | Some (left_align, filler, width, text, fmt, args) \<Rightarrow>
           chvprintf put fmt args (put_field put left_align filler width text st)))"
  by pat_completeness auto
termination
  by (relation "measure (\<lambda>(put, fmt, args, st). length fmt)") (auto dest: directive_shorter)

definition chprintf :: "(u8 \<Rightarrow> 's \<Rightarrow> msg \<times> 's) \<Rightarrow> u8 list \<Rightarrow> varg list \<Rightarrow> 's \<Rightarrow> (nat \<times> 's) option" where
  "chprintf put fmt args s = chvprintf put fmt args (0, s)"

definition chsnprintf :: "u32 \<Rightarrow> u32 \<Rightarrow> u8 list \<Rightarrow> varg list \<Rightarrow> mem \<Rightarrow> (nat \<times> mem) option" where
  "chsnprintf str sz fmt args m =
    (let size_wo_nul = (if sz > 0 then sz - 1 else 0);
         ms = msObjectInit str size_wo_nul 0
     in case chvprintf ms_put fmt args (0, ms, m) of
          None \<Rightarrow> None
        | Some (retval, ms, m) \<Rightarrow>
            Some (retval, if ms_eos ms < sz then m(str + ms_eos ms := 0) else m))"

section \<open>Digits\<close>

text \<open>The specification: digits, most significant first, and the number they stand for.\<close>

definition digit :: "nat \<Rightarrow> u8" where
  "digit d = (if d < 10 then of_nat (48 + d) else of_nat (55 + d))"

definition digit_value :: "u8 \<Rightarrow> nat" where
  "digit_value c = (if unat c \<le> 57 then unat c - 48 else unat c - 55)"

function digits :: "nat \<Rightarrow> nat \<Rightarrow> u8 list" where
  "digits r n = (if r < 2 \<or> n < r then [digit n] else digits r (n div r) @ [digit (n mod r)])"
  by pat_completeness auto
termination by (relation "measure snd") auto

declare digits.simps [simp del]

definition number :: "nat \<Rightarrow> u8 list \<Rightarrow> nat" where
  "number r ds = fold (\<lambda>d n. n * r + digit_value d) ds 0"

lemma unat_digit: "d < 36 \<Longrightarrow> unat (digit d) = (if d < 10 then 48 + d else 55 + d)"
  by (auto simp: digit_def unat_of_nat take_bit_nat_eq_self simp del: of_nat_add)

lemma digit_value: "d < 36 \<Longrightarrow> digit_value (digit d) = d"
  by (auto simp: digit_value_def unat_digit)

lemma digit_eqI: "d < 36 \<Longrightarrow> unat b = (if d < 10 then 48 + d else 55 + d) \<Longrightarrow> b = digit d"
  by (simp add: word_unat_eq_iff unat_digit)

lemma number_digits: "2 \<le> r \<Longrightarrow> r \<le> 36 \<Longrightarrow> number r (digits r n) = n"
proof (induction r n rule: digits.induct)
  case (1 r n)
  have "n mod r < r" using 1(2) by simp
  then have "digit_value (digit (n mod r)) = n mod r" using 1(3) by (intro digit_value) linarith
  then show ?case using 1 by (subst digits.simps) (auto simp: number_def digit_value not_less)
qed

lemma length_digits: "2 \<le> r \<Longrightarrow> 0 < k \<Longrightarrow> n < r ^ k \<Longrightarrow> length (digits r n) \<le> k"
proof (induction r n arbitrary: k rule: digits.induct)
  case (1 r n)
  show ?case
  proof (cases "n < r")
    case False
    then have "k \<noteq> 1" using 1 by auto
    then obtain j where j: "k = Suc j" "0 < j" using 1(3) by (cases k) auto
    have "n div r < r ^ j" using 1(2,4) j by (simp add: less_mult_imp_div_less mult.commute)
    then show ?thesis using 1 False j by (subst digits.simps) auto
  qed (use 1 in \<open>subst digits.simps, auto\<close>)
qed

lemma digits_nonempty: "digits r n \<noteq> []" by (subst digits.simps) simp

lemma digits_ascii:
  assumes "2 \<le> r" "r \<le> 10" "d \<in> set (digits r n)" shows "ch CHR ''0'' \<le> d \<and> d \<le> ch CHR ''9''"
  using assms
proof (induction r n rule: digits.induct)
  case (1 r n)
  have "ch CHR ''0'' \<le> digit k \<and> digit k \<le> ch CHR ''9''" if "k < 10" for k
    using that by (simp add: word_le_nat_alt unat_digit)
  moreover have "n mod r < r" using 1(2) by simp
  then have "n mod r < 10" using 1(3) by linarith
  moreover have "\<not> n < r \<and> d \<in> set (digits r (n div r)) \<or> d = digit (n mod r) \<or> n < r \<and> d = digit n"
    using 1(2,4) by (subst (asm) digits.simps) (auto split: if_splits)
  ultimately show ?case using 1(1,2,3) by (auto simp: not_less)
qed

lemma digits_leading: "2 \<le> r \<Longrightarrow> r \<le> 16 \<Longrightarrow> 0 < n \<Longrightarrow> List.hd (digits r n) \<noteq> ch CHR ''0''"
proof (induction r n rule: digits.induct)
  case (1 r n)
  show ?case
  proof (cases "n < r")
    case True
    have "n < 36" using True 1(3) by linarith
    then have "unat (digit n) \<noteq> 48" using 1(4) by (simp add: unat_digit)
    then have "digit n \<noteq> 48" by auto
    then show ?thesis using True by (subst digits.simps) simp
  next
    case False
    then have "0 < n div r" using 1(2) by (simp add: div_greater_zero_iff)
    then show ?thesis using 1 False digits_nonempty [of r "n div r"] by (subst digits.simps) auto
  qed
qed

text \<open>The loop writes the digits of the number, right aligned below \<open>q\<close>.\<close>

lemma digit_step:
  assumes "unat r = n" "2 \<le> n" "n \<le> 16"
  shows "ucast (if l mod r + 48 > 57 then l mod r + 48 + 7 else l mod r + 48 :: u32) = digit (unat l mod n)"
proof -
  have u: "unat (l mod r) = unat l mod n" using assms by (simp add: unat_mod)
  have "unat l mod n < n" using assms(2) by simp
  then have b: "unat l mod n < 16" using assms(3) by linarith
  have s: "unat (l mod r + 48) = unat l mod n + 48" "unat (55 + l mod r) = unat l mod n + 55"
    using b u by (simp_all add: unat_word_ariths)
  show ?thesis
    by (rule digit_eqI) (use b s in \<open>auto simp: word_less_nat_alt unsigned_ucast_eq take_bit_nat_eq_self\<close>)
qed

lemma digits_loop_correct:
  assumes "unat r = n" "2 \<le> n" "n \<le> 16"
  shows "q \<le> length buf \<Longrightarrow> length (digits n (unat l)) \<le> q \<Longrightarrow>
    digits_loop r l l q buf = Some (q - length (digits n (unat l)),
      take (q - length (digits n (unat l))) buf @ digits n (unat l) @ drop q buf)"
proof (induction q arbitrary: l buf)
  case 0
  then show ?case using digits_nonempty [of n "unat l"] by simp
next
  case (Suc q)
  note d = digit_step [OF assms, of l]
  have r: "r \<noteq> 0" using assms by auto
  have dv: "unat (l div r) = unat l div n" using assms(1) by (simp add: unat_div)
  let ?b = "buf[q := digit (unat l mod n)]"
  have dr: "drop q ?b = digit (unat l mod n) # drop (Suc q) buf" using Suc.prems(1) by (simp add: Cons_nth_drop_Suc [symmetric])
  show ?case
  proof (cases "l div r = 0")
    case True
    then have "unat l div n = 0" using dv by simp
    then have "unat l < n" using assms(2) by (simp add: div_eq_0_iff)
    then have "digits n (unat l) = [digit (unat l)]" "unat l mod n = unat l" by (subst digits.simps, simp_all)
    then show ?thesis using True r Suc.prems(1) d by (simp add: Let_def upd_conv_take_nth_drop)
  next
    case False
    then have "unat l div n \<noteq> 0" using dv by (metis unat_eq_zero)
    then have "\<not> unat l < n" by auto
    then have e: "digits n (unat l) = digits n (unat l div n) @ [digit (unat l mod n)]"
      using assms(2) by (subst digits.simps) simp
    let ?k = "length (digits n (unat l div n))"
    have "digits_loop r (l div r) (l div r) q ?b = Some (q - ?k, take (q - ?k) ?b @ digits n (unat l div n) @ drop q ?b)"
      using Suc.IH [of ?b "l div r"] Suc.prems e dv by simp
    then show ?thesis using False r Suc.prems(1) d e dr by (simp add: Let_def)
  qed
qed

lemma copy_loop_correct:
  "p \<le> q \<Longrightarrow> q + i \<le> length buf \<Longrightarrow> 0 < i \<Longrightarrow>
    copy_loop p q i buf = Some (p + i, take p buf @ take i (drop q buf) @ drop (p + i) buf)"
proof (induction i arbitrary: p q buf)
  case (Suc i)
  let ?b = "buf[p := buf ! q]"
  have dq: "drop q buf = buf ! q # drop (q + 1) buf" using Suc.prems(2) by (simp add: Cons_nth_drop_Suc)
  have t: "take (p + 1) ?b = take p buf @ [buf ! q]"
    using Suc.prems(1,2) by (simp add: take_Suc_conv_app_nth)
  show ?case
  proof (cases "i = 0")
    case True
    then show ?thesis using Suc.prems dq by (simp add: upd_conv_take_nth_drop)
  next
    case False
    then have "copy_loop (p + 1) (q + 1) i ?b = Some (p + 1 + i, take (p + 1) ?b @ take i (drop (q + 1) ?b) @ drop (p + 1 + i) ?b)"
      using Suc by simp
    moreover have "drop (q + 1) ?b = drop (q + 1) buf" "drop (p + 1 + i) ?b = drop (p + 1 + i) buf"
      using Suc.prems(1) by simp_all
    ultimately show ?thesis using False Suc.prems dq t by simp
  qed
qed simp

text \<open>Every 32-bit number fits the buffer in each of the three radices, behind a sign too.\<close>

lemma number_text_correct:
  assumes r: "unat r = n" "n \<in> {8, 10, 16}" and s: "length sign \<le> 1"
  shows "number_text sign l r = Some (sign @ digits n (unat l))"
proof -
  let ?d = "digits n (unat l)" and ?b = "sign @ drop (length sign) tmpbuf" and ?p = "length sign"
  have "(2::nat) ^ 32 \<le> n ^ 11" using r(2) by auto
  then have "unat l < n ^ 11" using unat_bound [of l] by linarith
  then have k: "length ?d \<le> 11" using length_digits [of n 11 "unat l"] r(2) by auto
  have n: "2 \<le> n" "n \<le> 16" using r(2) by auto
  have lb: "length ?b = 12" using s by (simp add: tmpbuf_def MAX_FILLER_def)
  have k0: "0 < length ?d" using digits_nonempty by blast
  let ?q = "?p + 11 - length ?d"
  let ?c = "take ?q ?b @ ?d @ drop (?p + 11) ?b"
  have dl: "digits_loop r l l (?p + 11) ?b = Some (?q, ?c)"
    by (rule digits_loop_correct [OF r(1) n]) (use lb s k in simp_all)
  have lq: "length (take ?q ?b) = ?q" using lb s by simp
  have cl: "copy_loop ?p ?q (?p + 11 - ?q) ?c = Some (?p + (?p + 11 - ?q), take ?p ?c @ take (?p + 11 - ?q) (drop ?q ?c) @ drop (?p + (?p + 11 - ?q)) ?c)"
    by (rule copy_loop_correct) (use k k0 lb s in auto)
  have e: "?p + 11 - ?q = length ?d" using k by simp
  have "drop (length A) (A @ B) = B" for A B :: "u8 list" by simp
  then have "drop ?q ?c = ?d @ drop (?p + 11) ?b" using lq by metis
  moreover have "take ?p ?c = sign"
  proof -
    have "?p \<le> ?q" using k by simp
    then have "take ?p (take ?q ?b) = sign" by (simp add: min_absorb1 del: take_append) (simp add: take_append)
    moreover have "?p \<le> length A \<Longrightarrow> take ?p (A @ B) = take ?p A" for A B :: "u8 list" by simp
    ultimately show ?thesis using lq \<open>?p \<le> ?q\<close> by metis
  qed
  ultimately show ?thesis using dl cl e
    by (simp add: number_text_def ch_ltoa_def long_to_string_with_divisor_def MAX_FILLER_def)
qed

section \<open>Fields\<close>

text \<open>What a field of a width puts around its text.\<close>

definition padded :: "bool \<Rightarrow> u8 \<Rightarrow> nat \<Rightarrow> u8 list \<Rightarrow> u8 list" where
  "padded left_align filler w t =
    (let fill = replicate (w - length t) filler
     in if left_align then t @ fill
        else if filler = ch CHR ''0'' \<and> t \<noteq> [] \<and> List.hd t = ch CHR ''-'' then ch CHR ''-'' # fill @ tl t
        else fill @ t)"

lemma length_padded: "length (padded la fi w t) = max w (length t)"
  by (cases t) (auto simp: padded_def Let_def)

definition put_bytes :: "(u8 \<Rightarrow> 's \<Rightarrow> msg \<times> 's) \<Rightarrow> u8 list \<Rightarrow> nat \<times> 's \<Rightarrow> nat \<times> 's" where
  "put_bytes put out st = (case st of (n, s) \<Rightarrow> (n + length out, fold (\<lambda>b s. snd (put b s)) out s))"

lemma put_bytes_simps [simp]:
  "put_bytes put [] st = st"
  "stream_put put b st = put_bytes put [b] st"
  "fold (stream_put put) bs st = put_bytes put bs st"
  "(stream_put put b ^^ k) st = put_bytes put (replicate k b) st"
proof -
  have n: "put_bytes put [] st = st" and o: "stream_put put b st = put_bytes put [b] st" for b st
    by (simp_all add: put_bytes_def stream_put_def split: prod.split)
  show "put_bytes put [] st = st" "stream_put put b st = put_bytes put [b] st" by (rule n, rule o)
  have c: "put_bytes put (b # bs) st = put_bytes put bs (put_bytes put [b] st)" for b bs st
    by (simp add: put_bytes_def split: prod.split)
  show "fold (stream_put put) bs st = put_bytes put bs st"
  proof (induction bs arbitrary: st)
    case (Cons b bs)
    have "fold (stream_put put) (b # bs) st = put_bytes put bs (stream_put put b st)" by (simp only: fold_Cons o_apply Cons)
    also have "\<dots> = put_bytes put bs (put_bytes put [b] st)" by (simp only: o)
    also have "\<dots> = put_bytes put (b # bs) st" by (rule c [symmetric])
    finally show ?case .
  qed (simp add: n)
  show "(stream_put put b ^^ k) st = put_bytes put (replicate k b) st"
  proof (induction k arbitrary: st)
    case (Suc k)
    have "(stream_put put b ^^ Suc k) st = put_bytes put (replicate k b) (stream_put put b st)"
      by (simp only: funpow_Suc_right o_apply Suc)
    also have "\<dots> = put_bytes put (replicate k b) (put_bytes put [b] st)" by (simp only: o)
    also have "\<dots> = put_bytes put (replicate (Suc k) b) st" unfolding replicate_Suc by (rule c [symmetric])
    finally show ?case .
  qed (simp add: n)
qed

lemma put_bytes_append: "put_bytes put (xs @ ys) st = put_bytes put ys (put_bytes put xs st)"
  by (simp add: put_bytes_def split: prod.split)

lemma put_field_correct:
  assumes "0 \<le> w"
  shows "put_field put la fi w t st = put_bytes put (padded la fi (nat w) t) st"
proof -
  have k: "nat (w - int (length t)) = nat w - length t" by (simp add: nat_diff_distrib')
  have z: "w - int (length t) \<le> 0 \<Longrightarrow> nat w - length t = 0" using assms by simp
  show ?thesis
  proof (cases "la \<or> w \<le> int (length t)")
    case True
    then show ?thesis using k z
      by (cases t) (auto simp: put_field_def padded_def put_bytes_append [symmetric] Let_def)
  next
    case False
    then have "w - int (length t) > 0" by simp
    then show ?thesis using False k
      by (auto simp: put_field_def padded_def put_bytes_append [symmetric] Let_def)
  qed
qed

section \<open>The contract of formatted output\<close>

text \<open>A format as the programmer means it: bytes, and fields with their arguments.\<close>

datatype conv = Signed int | Unsigned u32 | Hex u32 | Octal u32 | Char u8 | Text "u8 list" nat | Percent

datatype piece = Byte u8 | Field bool bool nat conv

fun conv_ok :: "conv \<Rightarrow> bool" where
  "conv_ok (Signed i) \<longleftrightarrow> - (2 ^ 31) < i \<and> i < 2 ^ 31"
| "conv_ok (Text t m) \<longleftrightarrow> 0 \<notin> set t \<and> m < 2 ^ 31"
| "conv_ok _ \<longleftrightarrow> True"

fun piece_ok :: "piece \<Rightarrow> bool" where
  "piece_ok (Byte b) \<longleftrightarrow> b \<noteq> 0 \<and> b \<noteq> ch CHR ''%''"
| "piece_ok (Field left_align zero w c) \<longleftrightarrow> w < 2 ^ 31 \<and> \<not> (left_align \<and> zero) \<and> conv_ok c"

fun letter :: "conv \<Rightarrow> u8" where
  "letter (Signed _) = ch CHR ''d''"
| "letter (Unsigned _) = ch CHR ''u''"
| "letter (Hex _) = ch CHR ''x''"
| "letter (Octal _) = ch CHR ''o''"
| "letter (Char _) = ch CHR ''c''"
| "letter (Text _ _) = ch CHR ''s''"
| "letter Percent = ch CHR ''%''"

fun precision_of :: "conv \<Rightarrow> nat" where
  "precision_of (Text _ m) = m"
| "precision_of _ = 0"

fun conv_arg :: "conv \<Rightarrow> varg list" where
  "conv_arg (Signed i) = [Num (word_of_int i)]"
| "conv_arg (Unsigned n) = [Num n]"
| "conv_arg (Hex n) = [Num n]"
| "conv_arg (Octal n) = [Num n]"
| "conv_arg (Char b) = [Num (ucast b)]"
| "conv_arg (Text t _) = [Str (Some (t @ [0]))]"
| "conv_arg Percent = []"

fun conv_text :: "conv \<Rightarrow> u8 list" where
  "conv_text (Signed i) = (if i < 0 then ch CHR ''-'' # digits 10 (nat (- i)) else digits 10 (nat i))"
| "conv_text (Unsigned n) = digits 10 (unat n)"
| "conv_text (Hex n) = digits 16 (unat n)"
| "conv_text (Octal n) = digits 8 (unat n)"
| "conv_text (Char b) = [b]"
| "conv_text (Text t m) = take (if m = 0 then 32767 else m) t"
| "conv_text Percent = [ch CHR ''%'']"

fun spaced :: "conv \<Rightarrow> bool" where
  "spaced (Char _) = True"
| "spaced (Text _ _) = True"
| "spaced _ = False"

definition decimal :: "nat \<Rightarrow> u8 list" where "decimal w = (if w = 0 then [] else digits 10 w)"

definition field_fmt :: "bool \<Rightarrow> bool \<Rightarrow> nat \<Rightarrow> conv \<Rightarrow> u8 list" where
  "field_fmt la z w c =
    (if la then [ch CHR ''-''] else []) @ (if z then [ch CHR ''0''] else []) @ decimal w @
    (if precision_of c = 0 then [] else ch CHR ''.'' # decimal (precision_of c)) @ [letter c]"

definition field_filler :: "bool \<Rightarrow> conv \<Rightarrow> u8" where
  "field_filler z c = (if z \<and> \<not> spaced c then ch CHR ''0'' else ch CHR '' '')"

fun piece_fmt :: "piece \<Rightarrow> u8 list" where
  "piece_fmt (Byte b) = [b]"
| "piece_fmt (Field la z w c) = ch CHR ''%'' # field_fmt la z w c"

fun piece_args :: "piece \<Rightarrow> varg list" where
  "piece_args (Byte b) = []"
| "piece_args (Field la z w c) = conv_arg c"

fun piece_text :: "piece \<Rightarrow> u8 list" where
  "piece_text (Byte b) = [b]"
| "piece_text (Field la z w c) = padded la (field_filler z c) w (conv_text c)"

text \<open>Reading the numbers of a format.\<close>

lemma number_grows: "v \<le> fold (\<lambda>d n. n * 10 + digit_value d) ds (v :: nat)"
proof (induction ds arbitrary: v)
  case (Cons d ds)
  have "v \<le> v * 10 + digit_value d" by simp
  also have "\<dots> \<le> fold (\<lambda>d n. n * 10 + digit_value d) ds (v * 10 + digit_value d)" by (rule Cons)
  finally show ?case by simp
qed simp

lemma parse_num_digits:
  assumes c: "\<not> (ch CHR ''0'' \<le> c \<and> c \<le> ch CHR ''9'')" "c \<noteq> ch CHR ''*''"
  shows "\<forall>d \<in> set ds. ch CHR ''0'' \<le> d \<and> d \<le> ch CHR ''9'' \<Longrightarrow> fold (\<lambda>d n. n * 10 + digit_value d) ds v < 2 ^ 31 \<Longrightarrow>
    parse_num (int v) (ds @ c # r) args = Some (c, int (fold (\<lambda>d n. n * 10 + digit_value d) ds v), r, args)"
proof (induction ds arbitrary: v)
  case Nil
  then show ?case using c by auto
next
  case (Cons d ds)
  have d: "ch CHR ''0'' \<le> d" "d \<le> ch CHR ''9''" using Cons.prems(1) by simp_all
  then have "digit_value d = unat (d - 48)"
    by (simp add: digit_value_def word_le_nat_alt unat_sub)
  then have u: "int v * 10 + uint (d - 48) = int (v * 10 + digit_value d)" by simp
  have "v * 10 + digit_value d < 2 ^ 31" using number_grows [of "v * 10 + digit_value d" ds] Cons.prems(2) by simp
  then have "int v * 10 + uint (d - 48) < 2 ^ 31" unfolding u by simp
  then show ?case using Cons.IH [of "v * 10 + digit_value d"] Cons.prems d by (simp add: u)
qed

lemma parse_num_decimal:
  assumes "\<not> (ch CHR ''0'' \<le> c \<and> c \<le> ch CHR ''9'')" "c \<noteq> ch CHR ''*''" "w < 2 ^ 31"
  shows "parse_num 0 (decimal w @ c # r) args = Some (c, int w, r, args)"
proof -
  have "\<forall>d \<in> set (decimal w). ch CHR ''0'' \<le> d \<and> d \<le> ch CHR ''9''"
    using digits_ascii [of 10 _ w] by (auto simp: decimal_def)
  moreover have "fold (\<lambda>d n. n * 10 + digit_value d) (decimal w) 0 = w"
    using number_digits [of 10 w] by (auto simp: decimal_def number_def)
  ultimately show ?thesis using parse_num_digits [OF assms(1,2), of "decimal w" 0 r args] assms(3) by simp
qed

lemma scan_string_correct: "0 \<notin> set t \<Longrightarrow> scan_string (int m) (t @ [0]) = Some (take m t)"
proof (induction t arbitrary: m)
  case (Cons b t)
  then show ?case by (cases m) auto
qed simp

lemma conversion_correct:
  assumes "conv_ok c"
  shows "conversion (letter c) (if z then ch CHR ''0'' else ch CHR '' '') (int (precision_of c)) (conv_arg c @ args) =
    Some (conv_text c, field_filler z c, args)"
proof (cases c)
  case (Signed i)
  have i: "sint (word_of_int i :: u32) = i" using assms Signed by (simp add: sint_sbintrunc' signed_take_bit_int_eq_self)
  show ?thesis
  proof (cases "i < 0")
    case True
    have "uint (word_of_int (- i) :: u32) = - i" by (subst uint_word_of_int_eq, rule take_bit_int_eq_self) (use assms Signed True in simp_all)
    then have n: "unat (- word_of_int i :: u32) = nat (- i)" by (simp add: unat_eq_nat_uint del: uint_nat)
    have "(word_of_int i :: u32) \<noteq> 0x80000000"
    proof
      assume "(word_of_int i :: u32) = 0x80000000"
      then have "i = sint (0x80000000 :: u32)" using i by metis
      then show False using assms Signed by simp
    qed
    then show ?thesis using Signed True i n number_text_correct [of 10 10 "[ch CHR ''-'']" "- word_of_int i"]
      by (simp add: conversion_def field_filler_def)
  next
    case False
    have "uint (word_of_int i :: u32) = i" using assms Signed False by (simp add: take_bit_int_eq_self uint_word_of_int_eq)
    then have n: "unat (word_of_int i :: u32) = nat i" by (simp add: unat_eq_nat_uint del: uint_nat)
    show ?thesis using Signed False i n number_text_correct [of 10 10 "[]" "word_of_int i"]
      by (simp add: conversion_def field_filler_def)
  qed
next
  case (Text t m)
  then show ?thesis using assms scan_string_correct [of t m] scan_string_correct [of t 32767]
    by (simp add: conversion_def field_filler_def)
qed (simp_all add: conversion_def field_filler_def number_text_correct [of 10 10] number_text_correct [of 16 16] number_text_correct [of 8 8] ucast_byte)

lemma letter_plain:
  "\<not> (ch CHR ''0'' \<le> letter c \<and> letter c \<le> ch CHR ''9'')" "letter c \<noteq> ch CHR ''*''" "letter c \<noteq> ch CHR ''.''"
  "letter c \<noteq> ch CHR ''-''" "letter c \<noteq> ch CHR ''l''" "letter c \<noteq> ch CHR ''L''" "letter c \<noteq> ch CHR ''0''"
  by (cases c; simp)+

lemma decimal_start:
  assumes "decimal w @ x # r = b # r'" "x \<noteq> ch CHR ''0''" "x \<noteq> ch CHR ''-''"
  shows "b \<noteq> ch CHR ''0''" and "b \<noteq> ch CHR ''-''"
proof -
  have "b \<noteq> ch CHR ''0'' \<and> b \<noteq> ch CHR ''-''"
  proof (cases "w = 0")
    case False
    then have b: "b = List.hd (digits 10 w)" using assms(1) digits_nonempty [of 10 w] by (cases "digits 10 w") (auto simp: decimal_def)
    then have "ch CHR ''0'' \<le> b" using digits_ascii [of 10 b w] hd_in_set [OF digits_nonempty] by auto
    then have "b \<noteq> ch CHR ''-''" by auto
    then show ?thesis using digits_leading [of 10 w] b False by simp
  qed (use assms in \<open>auto simp: decimal_def\<close>)
  then show "b \<noteq> ch CHR ''0''" and "b \<noteq> ch CHR ''-''" by auto
qed

lemma directive_correct:
  assumes "w < 2 ^ 31" "conv_ok c"
  shows "directive (field_fmt la z w c @ rest) (conv_arg c @ args) = Some (la, field_filler z c, int w, conv_text c, rest, args)"
proof -
  let ?m = "precision_of c"
  define x where "x = (if ?m = 0 then letter c else ch CHR ''.'')"
  define r where "r = (if ?m = 0 then rest else decimal ?m @ letter c # rest)"
  have m: "?m < 2 ^ 31" using assms(2) by (cases c) simp_all
  have xp: "\<not> (ch CHR ''0'' \<le> x \<and> x \<le> ch CHR ''9'')" "x \<noteq> ch CHR ''*''" "x \<noteq> ch CHR ''0''" "x \<noteq> ch CHR ''-''"
    using letter_plain [of c] by (auto simp: x_def)
  have e: "field_fmt la z w c @ rest = (if la then [ch CHR ''-''] else []) @ (if z then [ch CHR ''0''] else []) @ decimal w @ x # r"
    by (simp add: field_fmt_def x_def r_def)
  obtain b r' where br: "decimal w @ x # r = b # r'" by (cases "decimal w @ x # r") auto
  have b: "b \<noteq> ch CHR ''0''" "b \<noteq> ch CHR ''-''" using decimal_start [OF br xp(3,4)] by auto
  have f: "flag (ch CHR ''-'') (field_fmt la z w c @ rest) = Some (la, (if z then [ch CHR ''0''] else []) @ decimal w @ x # r)"
    "flag (ch CHR ''0'') ((if z then [ch CHR ''0''] else []) @ decimal w @ x # r) = Some (z, decimal w @ x # r)"
    using b by (simp_all add: e br flag_def)
  have w: "parse_num 0 (decimal w @ x # r) (conv_arg c @ args) = Some (x, int w, r, conv_arg c @ args)"
    by (rule parse_num_decimal [OF xp(1,2) assms(1)])
  have p: "(if x = ch CHR ''.'' then parse_num 0 r (conv_arg c @ args) else Some (x, 0, r, conv_arg c @ args)) =
      Some (letter c, int ?m, rest, conv_arg c @ args)"
    using parse_num_decimal [OF letter_plain(1,2) m] letter_plain(3) [of c] by (auto simp: x_def r_def)
  have l: "long_modifier (letter c) rest = Some (letter c, rest)" using letter_plain(5,6) [of c] by (simp add: long_modifier_def)
  show ?thesis
    unfolding directive_def f(1) bind.bind_lunit prod.case f(2) w p l conversion_correct [OF assms(2)] by simp
qed

text \<open>
  C33: The contract of formatted output.  A format made of bytes and fields, with the arguments that
  the fields ask for, is written to any stream byte by byte: each byte stands for itself, a
  number for its digits in the radix of the field with a sign if it is negative, a string for itself up to its
  precision, all padded to the width of the field on the side and with the filler that its flags
  say; the result is the number of bytes.
\<close>

theorem chprintf_correct:
  assumes "\<forall>p \<in> set ps. piece_ok p"
  shows "chprintf put (concat (map piece_fmt ps) @ [0]) (concat (map piece_args ps)) s =
    (let out = concat (map piece_text ps) in Some (length out, fold (\<lambda>b s. snd (put b s)) out s))"
proof -
  have "chvprintf put (concat (map piece_fmt ps) @ [0]) (concat (map piece_args ps)) st =
      Some (put_bytes put (concat (map piece_text ps)) st)" for st
    using assms
  proof (induction ps arbitrary: st)
    case (Cons p ps)
    show ?case
    proof (cases p)
      case (Byte b)
      then show ?thesis using Cons put_bytes_append [of put "[b]" "concat (map piece_text ps)"] by simp
    next
      case (Field la z w c)
      then have ok: "w < 2 ^ 31" "conv_ok c" using Cons.prems by simp_all
      note d = directive_correct [OF ok, of la z "concat (map piece_fmt ps) @ [0]" "concat (map piece_args ps)"]
      have f: "put_field put la (field_filler z c) (int w) (conv_text c) st = put_bytes put (piece_text p) st"
        using put_field_correct [of "int w" put la "field_filler z c" "conv_text c" st] Field by simp
      show ?thesis using Cons.IH Cons.prems d f by (simp add: Field put_bytes_append)
    qed
  qed simp
  then show ?thesis by (simp add: chprintf_def put_bytes_def Let_def)
qed

text \<open>What goes to a memory stream byte by byte stays inside its buffer.\<close>

lemma ms_put_frame:
  assumes "ms_ok s" "\<not> within x (ms_buffer (fst s)) (unat (ms_size (fst s)))"
  shows "snd (snd (ms_put b s)) x = snd s x" "ms_buffer (fst (snd (ms_put b s))) = ms_buffer (fst s)"
    "ms_size (fst (snd (ms_put b s))) = ms_size (fst s)" "ms_offset (fst (snd (ms_put b s))) = ms_offset (fst s)"
proof -
  show "ms_buffer (fst (snd (ms_put b s))) = ms_buffer (fst s)" "ms_size (fst (snd (ms_put b s))) = ms_size (fst s)"
    "ms_offset (fst (snd (ms_put b s))) = ms_offset (fst s)"
    by (simp_all add: ms_put_def split_beta Let_def)
  show "snd (snd (ms_put b s)) x = snd s x"
  proof (cases "ms_room s = 0")
    case True
    then show ?thesis using mss.put_full [OF assms(1)] by simp
  next
    case False
    then have "unat (ms_eos (fst s)) < unat (ms_size (fst s))" by (simp add: ms_room_def)
    then have "within (ms_buffer (fst s) + ms_eos (fst s)) (ms_buffer (fst s)) (unat (ms_size (fst s)))" by (simp add: within_def)
    then show ?thesis using assms(2) False ms_put_ok(1) [OF assms(1)] by auto
  qed
qed

lemma ms_put_all_frame:
  "ms_ok s \<Longrightarrow> \<not> within x (ms_buffer (fst s)) (unat (ms_size (fst s))) \<Longrightarrow>
    snd (fold (\<lambda>b s. snd (ms_put b s)) bs s) x = snd s x \<and>
    ms_buffer (fst (fold (\<lambda>b s. snd (ms_put b s)) bs s)) = ms_buffer (fst s) \<and>
    ms_size (fst (fold (\<lambda>b s. snd (ms_put b s)) bs s)) = ms_size (fst s)"
proof (induction bs arbitrary: s)
  case (Cons b bs)
  note f = ms_put_frame [OF Cons.prems, of b]
  have "ms_ok (snd (ms_put b s))" using mss.put_room [OF Cons.prems(1)] mss.put_full [OF Cons.prems(1)] Cons.prems(1) by (cases "ms_room s") auto
  then show ?case using Cons.IH [of "snd (ms_put b s)"] Cons.prems(2) f by simp
qed simp

text \<open>
  C34: Printing into a string of limited size.  The result is the length of the whole text; the string
  gets as much of it as fits, with a terminating zero if there is room for any byte at all, and no byte outside the
  \<open>sz\<close> bytes of the string is written.
\<close>

theorem chsnprintf_correct:
  assumes "\<forall>p \<in> set ps. piece_ok p"
  shows "case chsnprintf str sz (concat (map piece_fmt ps) @ [0]) (concat (map piece_args ps)) m of
      None \<Rightarrow> False
    | Some (n, m') \<Rightarrow> (let out = concat (map piece_text ps); k = min (unat sz - 1) (length out) in
        n = length out \<and> (if sz = 0 then m' = m else load m' str (k + 1) = take k out @ [0]) \<and>
        {x. \<not> within x str (unat sz)} \<subseteq> {x. m' x = m x})"
proof -
  let ?out = "concat (map piece_text ps)"
  let ?wo = "if sz > 0 then sz - 1 else 0" let ?ms = "msObjectInit str ?wo 0" and ?k = "min (unat sz - 1) (length ?out)"
  let ?s = "fold (\<lambda>b s. snd (ms_put b s)) ?out (?ms, m)"
  have wo: "unat ?wo = unat sz - 1" by (auto simp: word_neq_0_conv [symmetric] unat_minus_one)
  have c: "chvprintf ms_put (concat (map piece_fmt ps) @ [0]) (concat (map piece_args ps)) (0, ?ms, m) = Some (length ?out, ?s)"
    using chprintf_correct [OF assms, of ms_put "(?ms, m)"] by (simp add: chprintf_def Let_def)
  have ok: "ms_ok (?ms, m)" and by0: "ms_bytes (?ms, m) = []" and rm: "ms_room (?ms, m) = unat sz - 1"
    using wo by (simp_all add: ms_ok_def ms_bytes_def ms_room_def msObjectInit_def)
  have p: "ms_bytes ?s = take (unat sz - 1) ?out" "ms_ok ?s" using mss.put_all [OF ok, of ?out] by0 rm by simp_all
  have fr: "snd ?s x = m x" "ms_buffer (fst ?s) = str" "ms_size (fst ?s) = ?wo" if "\<not> within x str (unat ?wo)" for x
    using ms_put_all_frame [OF ok, of x ?out] that by (simp_all add: msObjectInit_def)
  have out: "\<exists>x. \<not> within x str (unat ?wo)"
  proof (rule exI [of _ "str + ?wo"])
    show "\<not> within (str + ?wo) str (unat ?wo)" by (simp add: within_def)
  qed
  then have b: "ms_buffer (fst ?s) = str" "ms_size (fst ?s) = ?wo" using fr(2,3) by blast+
  have eos: "unat (ms_eos (fst ?s)) = ?k" using arg_cong [OF p(1), of length] by (simp add: ms_bytes_def min.commute)
  let ?m' = "if ms_eos (fst ?s) < sz then (snd ?s)(str + ms_eos (fst ?s) := 0) else snd ?s"
  have r: "chsnprintf str sz (concat (map piece_fmt ps) @ [0]) (concat (map piece_args ps)) m = Some (length ?out, ?m')"
    using c by (simp add: chsnprintf_def Let_def split_beta)
  have ld: "load (snd ?s) str ?k = take ?k ?out" using p(1) eos b(1) by (simp add: ms_bytes_def min_def split: if_splits)
  have lt: "ms_eos (fst ?s) < sz" if "sz \<noteq> 0"
  proof -
    have "0 < unat sz" using that by (simp add: unat_gt_0)
    then have "?k < unat sz" by linarith
    then show ?thesis using eos by (simp add: word_less_nat_alt)
  qed
  have m0: "?m' = m" if z: "sz = 0"
  proof
    fix x show "?m' x = m x" using fr(1) [of x] z by (simp add: within_def)
  qed
  have m1: "load ?m' str (?k + 1) = take ?k ?out @ [0]" if z: "sz \<noteq> 0"
  proof -
    have e: "ms_eos (fst ?s) = of_nat ?k" using eos by (metis of_nat_unat ucast_id)
    have k: "?k < 2 ^ 32" using unat_bound [of sz] by (simp add: min_def) linarith
    have "load (store (str + of_nat ?k) [0] (snd ?s)) str (?k + length [0 :: u8]) = load (snd ?s) str ?k @ [0]"
      by (rule load_appended) (use k in simp)
    then show ?thesis using lt [OF z] ld unfolding e by (simp del: load.simps)
  qed
  have "?m' x = m x" if x: "\<not> within x str (unat sz)" for x
  proof -
    have "\<not> within x str (unat ?wo)" using x wo by (simp add: within_def)
    moreover have "x \<noteq> str + e" if "e < sz" for e using that x by (auto simp: within_def word_less_nat_alt)
    ultimately show ?thesis using fr(1) by simp
  qed
  then have m2: "{x. \<not> within x str (unat sz)} \<subseteq> {x. ?m' x = m x}" by blast
  obtain m' where "m' = ?m'" by blast
  note f = r [folded this] m0 [folded this] m1 [folded this] m2 [folded this]
  show ?thesis unfolding f(1) option.case prod.case Let_def using f(2,3,4) by (cases "sz = 0") (simp_all del: load.simps)
qed

section \<open>Witnesses\<close>

text \<open>The format \<open>n=%05d,%-4x;\<close> with -42 and 255.\<close>

definition pieces2 :: "piece list" where
  "pieces2 = [Byte (ch CHR ''n''), Byte (ch CHR ''=''), Field False True 5 (Signed (- 42)), Byte (ch CHR '',''), Field True False 4 (Hex 255), Byte (ch CHR '';'')]"

lemma pieces2:
  "\<forall>p \<in> set pieces2. piece_ok p"
  "concat (map piece_fmt pieces2) @ [0] = map of_char ''n=%05d,%-4x;'' @ [0]"
  "concat (map piece_args pieces2) = [Num (- 42), Num 255]"
  "concat (map piece_text pieces2) = map of_char ''n=-0042,FF  ;''"
  by (simp add: pieces2_def, code_simp, code_simp, code_simp)

lemma chprintf_correct_witness:
  "chprintf ms_put (map of_char ''n=%05d,%-4x;'' @ [0]) [Num (- 42), Num 255] (msObjectInit 1000 100 0, \<lambda>_. 0) =
    Some (13, fold (\<lambda>b s. snd (ms_put b s)) (map of_char ''n=-0042,FF  ;'') (msObjectInit 1000 100 0, \<lambda>_. 0))"
  using chprintf_correct [OF pieces2(1), of ms_put "(msObjectInit 1000 100 0, \<lambda>_. 0)"] unfolding pieces2 by (simp add: Let_def)

lemma chsnprintf_correct_witness:
  "case chsnprintf 1000 8 (map of_char ''n=%05d,%-4x;'' @ [0]) [Num (- 42), Num 255] (\<lambda>_. 7) of None \<Rightarrow> False
    | Some (n, m) \<Rightarrow> n = 13 \<and> load m 1000 8 = map of_char ''n=-0042'' @ [0] \<and> m 1008 = 7"
proof -
  obtain n m where r: "chsnprintf 1000 8 (map of_char ''n=%05d,%-4x;'' @ [0]) [Num (- 42), Num 255] (\<lambda>_. 7) = Some (n, m)"
    "n = 13" "load m 1000 (Suc (Suc (Suc (Suc (Suc (Suc (Suc (Suc 0)))))))) = take 7 (map of_char ''n=-0042,FF  ;'') @ [0]" "{x. \<not> within x 1000 (unat (8 :: u32))} \<subseteq> {x. m x = 7}"
    using chsnprintf_correct [where ps = pieces2 and str = 1000 and sz = 8 and m = "\<lambda>_. 7", OF pieces2(1)] unfolding pieces2
    by (auto simp: Let_def split: option.splits prod.splits simp del: load.simps)
  have "\<not> within 1008 1000 (unat (8 :: u32))" by (simp add: within_def)
  then have "m 1008 = 7" using r(4) by blast
  then show ?thesis using r(1-3) by (simp add: eval_nat_numeral del: load.simps)
qed

text \<open>
  Three formats with which the code does not keep to the contract: one that ends with a percent sign is read past
  its end, a left aligned field with the zero flag gets zeros behind the number, and a
  width given as an argument is cut to eight bits.
\<close>

definition list_put :: "u8 \<Rightarrow> u8 list \<Rightarrow> msg \<times> u8 list" where "list_put b s = (MSG_OK, s @ [b])"

lemma printf_defects:
  "chprintf list_put (map of_char ''%'' @ [0]) [] [] = None"
  "chprintf list_put (map of_char ''%-05d'' @ [0]) [Num 42] [] = Some (5, map of_char ''42000'')"
  "chprintf list_put (map of_char ''%*d'' @ [0]) [Num 258, Num 4] [] = Some (2, map of_char '' 4'')"
  by code_simp+

end
