(* ===== verification/Integrity.thy ===== *)
theory Integrity
  imports ThdQueues
begin

text \<open>
  The integrity check of chsys.c: it walks the ready list, the list of timers and the registry
  forward and backward and compares the lengths.  Each of the three is given by the links of its
  nodes and its header.  A walk that does not come back to the header does not end: None.
\<close>

section \<open>The check\<close>

partial_function (option) count_links :: "('p \<Rightarrow> 'p) \<Rightarrow> 'p \<Rightarrow> int \<Rightarrow> 'p \<Rightarrow> int \<Rightarrow> int option" where
  "count_links f header d p n = (if p \<noteq> header then count_links f header d (f p) (n + d) else Some n)"

text \<open>One test: true is a fault.\<close>

definition scan_both :: "'p links \<Rightarrow> 'p \<Rightarrow> bool option" where
  "scan_both h header =
    do {
      n \<leftarrow> count_links (nxt h) header 1 (nxt h header) 0;
      n \<leftarrow> count_links (prv h) header (- 1) (prv h header) n;
      Some (n \<noteq> 0)
    }"

definition CH_INTEGRITY_RLIST :: u32 where "CH_INTEGRITY_RLIST = 1"
definition CH_INTEGRITY_VTLIST :: u32 where "CH_INTEGRITY_VTLIST = 2"
definition CH_INTEGRITY_REGISTRY :: u32 where "CH_INTEGRITY_REGISTRY = 4"

definition chSysIntegrityCheckI ::
  "'t links \<times> 't \<Rightarrow> 'v links \<times> 'v \<Rightarrow> 't links \<times> 't \<Rightarrow> u32 \<Rightarrow> bool option" where
  "chSysIntegrityCheckI rlist vtlist reg testmask =
    do {
      fault \<leftarrow> (if testmask AND CH_INTEGRITY_RLIST \<noteq> 0 then scan_both (fst rlist) (snd rlist) else Some False);
      if fault then Some True
      else do {
        fault \<leftarrow> (if testmask AND CH_INTEGRITY_VTLIST \<noteq> 0 then scan_both (fst vtlist) (snd vtlist) else Some False);
        if fault then Some True
        else do {
          fault \<leftarrow> (if testmask AND CH_INTEGRITY_REGISTRY \<noteq> 0 then scan_both (fst reg) (snd reg) else Some False);
          Some fault
        }
      }
    }"

section \<open>What the walks find\<close>

text \<open>Following \<open>f\<close> from the header, the header comes again after \<open>k\<close> other nodes.\<close>

definition returns :: "('p \<Rightarrow> 'p) \<Rightarrow> 'p \<Rightarrow> nat \<Rightarrow> bool" where
  "returns f header k \<longleftrightarrow> (f ^^ Suc k) header = header \<and> (\<forall>i < k. (f ^^ Suc i) header \<noteq> header)"

lemma count_links_reach:
  "(f ^^ k) p = header \<Longrightarrow> \<forall>i < k. (f ^^ i) p \<noteq> header \<Longrightarrow> count_links f header d p n = Some (n + d * int k)"
proof (induction k arbitrary: p n)
  case (Suc k)
  have "(f ^^ k) (f p) = header" "p \<noteq> header" using Suc.prems(1) spec [OF Suc.prems(2), of 0]
    by (simp_all add: funpow_Suc_right del: funpow.simps(2))
  moreover have "\<forall>i < k. (f ^^ i) (f p) \<noteq> header"
  proof (intro allI impI)
    fix i assume "i < k"
    then have "(f ^^ Suc i) p \<noteq> header" using Suc.prems(2) by (metis Suc_less_eq)
    then show "(f ^^ i) (f p) \<noteq> header" by (simp add: funpow_Suc_right del: funpow.simps(2))
  qed
  ultimately show ?case using Suc.IH [of "f p" "n + d"] by (subst count_links.simps) (simp add: algebra_simps)
qed (subst count_links.simps, simp)

text \<open>A walk that ends came to the header by following links, and counted them.\<close>

lemma count_links_Some:
  assumes "count_links f header d p n = Some m"
  shows "\<exists>k. (f ^^ k) p = header \<and> (\<forall>i < k. (f ^^ i) p \<noteq> header) \<and> m = n + d * int k"
proof (rule count_links.raw_induct
    [where P = "\<lambda>f header d p n m. \<exists>k. (f ^^ k) p = header \<and> (\<forall>i < k. (f ^^ i) p \<noteq> header) \<and> m = n + d * int k", OF _ assms])
  fix g :: "('p \<Rightarrow> 'p) \<Rightarrow> 'p \<Rightarrow> int \<Rightarrow> 'p \<Rightarrow> int \<Rightarrow> int option" and f header d p n m
  assume IH: "\<And>f header d p n m. g f header d p n = Some m \<Longrightarrow>
      \<exists>k. (f ^^ k) p = header \<and> (\<forall>i < k. (f ^^ i) p \<noteq> header) \<and> m = n + d * int k"
    and st: "(if p \<noteq> header then g f header d (f p) (n + d) else Some n) = Some m"
  show "\<exists>k. (f ^^ k) p = header \<and> (\<forall>i < k. (f ^^ i) p \<noteq> header) \<and> m = n + d * int k"
  proof (cases "p = header")
    case False
    then have "g f header d (f p) (n + d) = Some m" using st by simp
    from IH [OF this] obtain k where k: "(f ^^ k) (f p) = header" "\<forall>i < k. (f ^^ i) (f p) \<noteq> header" "m = n + d + d * int k" by blast
    have "(f ^^ i) p \<noteq> header" if "i < Suc k" for i
      using that False k(2) by (cases i) (simp_all add: funpow_Suc_right del: funpow.simps(2))
    then show ?thesis using k(1,3)
      by (intro exI [of _ "Suc k"]) (simp add: funpow_Suc_right algebra_simps del: funpow.simps(2))
  qed (use st in \<open>auto intro!: exI [of _ 0]\<close>)
qed

lemma count_links_returns:
  "count_links f header d (f header) n = Some m \<longleftrightarrow> (\<exists>k. returns f header k \<and> m = n + d * int k)"
proof
  assume "count_links f header d (f header) n = Some m"
  from count_links_Some [OF this] show "\<exists>k. returns f header k \<and> m = n + d * int k"
    by (auto simp: returns_def funpow_Suc_right simp del: funpow.simps(2))
next
  assume "\<exists>k. returns f header k \<and> m = n + d * int k"
  then obtain k where "returns f header k" "m = n + d * int k" by blast
  then show "count_links f header d (f header) n = Some m"
    using count_links_reach [where f = f and k = k and p = "f header" and header = header and d = d and n = n] by (simp add: returns_def funpow_Suc_right del: funpow.simps(2))
qed

lemma scan_both_iff:
  "scan_both h header = Some b \<longleftrightarrow> (\<exists>j k. returns (nxt h) header j \<and> returns (prv h) header k \<and> b = (j \<noteq> k))"
  (is "_ \<longleftrightarrow> ?R")
proof
  assume "scan_both h header = Some b"
  then obtain n m where "count_links (nxt h) header 1 (nxt h header) 0 = Some n"
    "count_links (prv h) header (- 1) (prv h header) n = Some m" "b = (m \<noteq> 0)"
    by (auto simp: scan_both_def bind_eq_Some_conv)
  then obtain j k where "returns (nxt h) header j" "n = int j" "returns (prv h) header k" "m = int j - int k" "b = (m \<noteq> 0)"
    unfolding count_links_returns by auto
  then show ?R by auto
next
  assume ?R
  then obtain j k where r: "returns (nxt h) header j" "returns (prv h) header k" "b = (j \<noteq> k)" by blast
  then have "count_links (nxt h) header 1 (nxt h header) 0 = Some (int j)"
    "count_links (prv h) header (- 1) (prv h header) (int j) = Some (int j - int k)"
    unfolding count_links_returns by auto
  then show "scan_both h header = Some b" using r(3) by (simp add: scan_both_def)
qed

lemma path_returns: "path f a xs header \<Longrightarrow> header \<notin> set xs \<Longrightarrow> (f ^^ Suc (length xs)) a = header \<and> (\<forall>i < length xs. (f ^^ Suc i) a \<noteq> header)"
proof (induction xs arbitrary: a)
  case (Cons x xs)
  have f: "f a = x" "path f x xs header" "x \<noteq> header" "header \<notin> set xs" using Cons.prems by auto
  have u: "(f ^^ Suc i) a = (f ^^ i) x" for i by (simp only: funpow_Suc_right o_apply f(1))
  have "(f ^^ i) x \<noteq> header" if "i < Suc (length xs)" for i
    using that conjunct2 [OF Cons.IH [OF f(2,4)]] f(3) by (cases i) (auto simp del: funpow.simps(2))
  then show ?case using conjunct1 [OF Cons.IH [OF f(2,4)]] unfolding u list.size add_0_right add_Suc_right by simp
qed simp

lemma ring_returns:
  assumes "ring h header xs" shows "returns (nxt h) header (length xs)" and "returns (prv h) header (length xs)"
proof -
  have p: "path (nxt h) header xs header" "path (prv h) header (rev xs) header" "header \<notin> set xs" using assms by (simp_all add: ring_def)
  show "returns (nxt h) header (length xs)" unfolding returns_def by (rule path_returns [OF p(1,3)])
  show "returns (prv h) header (length xs)" unfolding returns_def using path_returns [OF p(2), unfolded set_rev length_rev, OF p(3)] .
qed

lemma ring_scan:
  assumes "ring h header xs" shows "scan_both h header = Some False"
  unfolding scan_both_iff by (intro exI conjI, rule ring_returns(1) [OF assms], rule ring_returns(2) [OF assms]) simp

text \<open>
  C36: The integrity check reports no fault exactly if in each list that the mask selects the header
  comes again, forward and backward, after the same number of nodes.
\<close>

theorem integrity_check_correct:
  "chSysIntegrityCheckI (hr, r) (hv, v) (hg, g) m = Some False \<longleftrightarrow>
    (m AND CH_INTEGRITY_RLIST = 0 \<or> (\<exists>k. returns (nxt hr) r k \<and> returns (prv hr) r k)) \<and>
    (m AND CH_INTEGRITY_VTLIST = 0 \<or> (\<exists>k. returns (nxt hv) v k \<and> returns (prv hv) v k)) \<and>
    (m AND CH_INTEGRITY_REGISTRY = 0 \<or> (\<exists>k. returns (nxt hg) g k \<and> returns (prv hg) g k))"
proof -
  have s: "scan_both h header = Some False \<longleftrightarrow> (\<exists>k. returns (nxt h) header k \<and> returns (prv h) header k)"
    for h :: "'x links" and header using scan_both_iff [of h header False] by auto
  have t: "(if c then scan_both h header else Some False) = Some False \<longleftrightarrow> \<not> c \<or> scan_both h header = Some False"
    for c and h :: "'x links" and header by auto
  have "chSysIntegrityCheckI (hr, r) (hv, v) (hg, g) m = Some False \<longleftrightarrow>
      (if m AND CH_INTEGRITY_RLIST \<noteq> 0 then scan_both hr r else Some False) = Some False \<and>
      (if m AND CH_INTEGRITY_VTLIST \<noteq> 0 then scan_both hv v else Some False) = Some False \<and>
      (if m AND CH_INTEGRITY_REGISTRY \<noteq> 0 then scan_both hg g else Some False) = Some False"
    unfolding chSysIntegrityCheckI_def by (auto simp: bind_eq_Some_conv split: if_splits)
  then show ?thesis unfolding t s by simp
qed

text \<open>With the rings that the queue operations keep it ends and raises no false alarm.\<close>

lemma integrity_no_false_alarm:
  assumes "ring hr r xs" and "ring hv v ys" and "ring hg g zs"
  shows "chSysIntegrityCheckI (hr, r) (hv, v) (hg, g) m = Some False"
  using ring_scan [OF assms(1)] ring_scan [OF assms(2)] ring_scan [OF assms(3)] by (simp add: chSysIntegrityCheckI_def)

text \<open>A chain of links that never leads back to the header is followed forever, with the kernel locked.\<close>

lemma integrity_check_hangs:
  assumes "nxt hr r = x" "nxt hr x = x" "x \<noteq> r"
  shows "chSysIntegrityCheckI (hr, r) vt reg CH_INTEGRITY_RLIST = None"
proof -
  have "(nxt hr ^^ Suc k) r = x" for k using assms(1,2) by (induction k) simp_all
  then have "\<not> returns (nxt hr) r k" for k using assms(3) by (simp add: returns_def del: funpow.simps(2))
  then have "scan_both hr r = None" using scan_both_iff [of hr r] by (cases "scan_both hr r") blast+
  then show ?thesis by (simp add: chSysIntegrityCheckI_def CH_INTEGRITY_RLIST_def)
qed

end
