(* ===== verification/Spec2Isabelle.thy ===== *)
theory Spec2Isabelle
  imports IsspSlave HsspMain ThdQueues Threads Conds Messages Events Semaphores BinSems Mailboxes IoQueues BufQueues MemCore MemPools Heap Waiting System SerialLink Pal TimeMeasure SysTimer Startup DynThreads Port Printf Integrity
begin

text \<open>
  A verification development for the HSSP programmer (\<open>src/HSSPFirmware\<close>): a firmware for an
  STM32F103 that programs a PSoC target over its serial programming interface (ISSP), driven by
  a host over a serial line, on the ChibiOS/RT kernel and HAL that are part of the repository.

  \<^bold>\<open>The program and its theories\<close>

  The host sends one letter commands.  \<open>main\<close> (hssp/main.c) reads them from the serial driver,
  runs an operation on the target (hssp/issp.c) and replies.  The serial driver stands on byte
  queues, event sources and thread queues; those on the scheduler, which everything in the
  kernel shares.

  \<^item> \<open>Prelude\<close>: integer types, bit and list lemmas, collections of simplification rules.
  \<^item> \<open>IsspVectors\<close>, \<open>IsspWire\<close>, \<open>IsspTarget\<close> (issp.c, issp.h): the constant bit vectors; the wire
    state (three pads with direction and output, the SysTick delay, and the log of what the pads
    did) and the functions that clock bits and bytes; one definition per \<open>target...\<close> operation.
    The device at the other end is an argument, a function from the log to the level of its pin.
    \<open>IsspSlave\<close> is the specification of the receiving end: the bits a device sees, and WRITE
    commands read out of them.
  \<^item> \<open>HsspMain\<close> (main.c): the command loop over the bytes received and sent.  Reading an
    uninitialised variable or past an array is the outcome \<open>Undefined\<close>.
  \<^item> \<open>ThdQueues\<close> (chschd.c): the queue operations on memory, with links as functions from
    addresses, and the representation relation to lists that the other theories use.
  \<^item> \<open>VTimers\<close> (chvt.c): the delta list of timers, 16-bit time, and the alarm of the tick-less mode.
  \<^item> \<open>Kernel\<close> (chschd.c, chschd.h): the record \<open>kernel\<close> of threads, queues, objects and timers; the
    scheduler; the invariant \<open>kinv\<close> (every thread is where its state says).
  \<^item> \<open>Semaphores\<close>, \<open>BinSems\<close>, \<open>Mutexes\<close>, \<open>Threads\<close>, \<open>Conds\<close>, \<open>Messages\<close>, \<open>Events\<close> (chsem.c, chbsem.h,
    chmtx.c, chthreads.c with chregistry.c, chcond.c, chmsg.c, chevents.c): the operations of each
    object and what it adds to the invariant: semaphore counts against waiters, owned mutexes and
    inherited priorities, no thread asleep on events it already has.
  \<^item> \<open>Interplay\<close>, \<open>Waiting\<close> and \<open>System\<close>: every operation keeps the invariants of all objects; none but exit, wait and
    creation touches the threads asleep in the waiting lists of \<open>chThdWait\<close>; the kernel as a
    transition system (\<open>sys_run\<close>) whose steps are the calls of the running thread and interrupts, ended by
    the epilogue of chcore_v7m.c.  A run carries the set of threads that lost an inherited priority by
    \<open>chThdSetPriority\<close> and still own a mutex: for these alone the order of priorities is not claimed.
  \<^item> \<open>RingBuffers\<close>, \<open>Mailboxes\<close>, \<open>IoQueues\<close>, \<open>BufQueues\<close> (chmboxes.c, hal_queues.c, hal_buffers.c): the
    index arithmetic of rings, the contract \<open>bounded_fifo\<close> (a locale) and its instances.
  \<^item> \<open>MemCore\<close>, \<open>MemPools\<close>, \<open>Heap\<close> (chmemcore.c, chmempools.c, chheap.c): the allocators; block headers
    are a memory indexed by pages.
  \<^item> \<open>Serial\<close> and \<open>SerialLink\<close> (hal_serial.c, USARTv1/hal_serial_lld.c): the driver with its interrupt
    handler over hardware that is an argument, and the refinement of the byte streams of
    \<open>HsspMain\<close> by sleeping and resumed driver calls.
  \<^item> \<open>Pal\<close> (hal_pal.h, hal_pal.c, GPIOv1/hal_pal_lld.c, the board's setup): ports as registers; the pads of
    \<open>IsspWire\<close> are refined by port B.

  \<^item> \<open>Port\<close> (chcore_v7m.c, chcore_v7m.h, chcoreasm_v7m.S, the critical sections of chsys.h and chsys.c): the
    interrupt masks, exception frames and the switch of contexts, and that together they do what
    the steps of \<open>System\<close> say.
  \<^item> \<open>SysTimer\<close> (hal_st.c, TIMv1/hal_st_lld.c, chsys.c, the conversions of chvt.h): the alarm in the registers of the
    timer, its interrupt, and which threads it wakes.  \<open>TimeMeasure\<close> (chtm.c, chsys.c): cycle counts.
  \<^item> \<open>DynThreads\<close> (chdynamic.c): threads in memory from a heap or a pool, from creation to release.
  \<^item> \<open>Startup\<close> (hal.c, hal_lld.c, chsys.c, main.c): from zeroed memory to the command loop, the blinker thread,
    and the reset at the end.  \<open>Integrity\<close> (chsys.c): the check of the kernel's lists.
  \<^item> \<open>Streams\<close> and \<open>Printf\<close> (memstreams.c, nullstreams.c, chprintf.c): byte streams in memory, and formatted output
    against a specification of the text that a format describes.

  \<^bold>\<open>How the code is rendered\<close>

  Pointers are 32-bit words and \<open>NULL\<close> is 0; a C structure is a record, machine integers are words
  of their width.  Arrays with a fixed base are lists and pointers into them indices.  A function
  of the kernel is a function on the kernel state, inside one critical section: \<open>chSysLock\<close> and
  \<open>chSysUnlock\<close> are not visible.  A function that may put the caller to sleep ends there with the
  outcome \<open>Switched\<close>; what it does after the switch back is a second definition, named
  \<open>..._resume\<close>, that starts from any later state.  Assertions and class checks of the debug
  configuration are off in chconf.h and are not modelled; where the code relies on one, the
  theorem has it as a hypothesis.  The configuration is that of the firmware
  (\<open>CH_CFG_TIME_QUANTUM = 0\<close>, \<open>CH_CFG_ST_TIMEDELTA = 2\<close>, 16-bit \<open>systime_t\<close>, FIFO semaphores and messages,
  mutexes not recursive); \<open>chconf.h\<close>, \<open>halconf.h\<close> and \<open>mcuconf.h\<close> in hssp/ fix it.

  \<^bold>\<open>Loops\<close>

  Loops over lists are structural; the others are \<open>function\<close> with a measure (the boost of mutex
  owners, the release of all mutexes and of all waiters, counters) or \<open>partial_function (option)\<close>
  where ending is a theorem (the scan of a linked queue, the timer tick, the free list of the
  heap, the registry, the receive loop of the serial interrupt).  No fuel is used.

  \<^bold>\<open>What the theorems show\<close>

  For the programmer: the command loop never leaves the defined behaviour except for the known
  uninitialised checksum, the bits of every transfer reach the target as the protocol wants them
  and blocks are verified against what was sent.  For the kernel: the invariants hold in every
  state of a run, the highest priority thread runs, owners inherit the priority of waiters (until they lower their own),
  semaphores are fair, timers fire in order, every queue is a bounded FIFO, allocation and release
  are inverse.  For the line: bytes are neither lost, repeated nor reordered as long as the queue
  has room.  Theorems of kind error exhibit states in which the code misbehaves: they are the
  findings of the manifest.

  \<^bold>\<open>Not modelled\<close>

  What halconf.h, chconf.h and the linker leave out of the firmware: the HAL drivers other than the serial
  and the port driver and their low level parts, the debug services (chdebug, chstats, chtrace),
  the shell, the adapters to other interfaces (cmsis_os, nasa_cfe, the C++ classes) and
  to FatFS and lwIP, whose libraries are not in the repository.  The start-up code and vector tables
  before \<open>main\<close>; \<open>stm32_clock_init\<close>, which waits for oscillators; \<open>chSysHalt\<close>.  Wrappers that only rename calls
  (osal.h); the CMSIS headers, which are generated constant tables; the host program
  ISSProgrammer (C++ with Qt).
\<close>

end
